(* ===== verification/Prelude.thy ===== *)
theory Prelude
  imports Main "HOL-Library.Word"
begin

text \<open>
  Shared vocabulary of the development: the integer widths the sources use, the ways a
  native call can stop the process, and a little-endian byte memory with its load and
  store laws. Every other theory imports this one.
\<close>

unbundle bit_operations_syntax

section \<open>Types\<close>

type_synonym u8 = "8 word"
type_synonym u16 = "16 word"
type_synonym u32 = "32 word"
type_synonym u64 = "64 word"

text \<open>
  \<open>uintptr_t\<close>, \<open>size_t\<close> and object pointers of the 64-bit targets. The null pointer is 0.
\<close>

type_synonym addr = "64 word"

text \<open>The bytes of a unit of the heap; the trees of free units and the region table share it.\<close>

definition UNIT_SIZE :: u64 where
  "UNIT_SIZE = 4096"

text \<open>
  How native code ends the process instead of returning: \<open>__builtin_trap\<close>,
  \<open>abort\<close> (also \<open>RtFatal\<close>), a \<open>LOG(RTLOG_FATAL, ..)\<close> or failed \<open>CHECK\<close>, and
  \<open>exit(n)\<close>. \<open>OutOfBounds\<close> marks a read past the end of a table, which is undefined
  behaviour in C++; the model stops there.
\<close>

datatype stop = Trap | Abort | Fatal | ExitProcess int | OutOfBounds

type_synonym 'a res = "stop + 'a"

definition and_then :: "'a res \<Rightarrow> ('a \<Rightarrow> 'b res) \<Rightarrow> 'b res" where
  "and_then r f = (case r of Inl e \<Rightarrow> Inl e | Inr x \<Rightarrow> f x)"

lemma and_then_simps [simp]:
  "and_then (Inl e) f = Inl e"
  "and_then (Inr x) f = f x"
  by (simp_all add: and_then_def)

lemma and_then_Inr_iff: "and_then r f = Inr y \<longleftrightarrow> (\<exists>x. r = Inr x \<and> f x = Inr y)"
  by (cases r) simp_all

lemma and_then_assoc: "and_then (and_then r f) g = and_then r (\<lambda>x. and_then (f x) g)"
  by (cases r) simp_all

named_theorems mem_simps \<open>loads from and stores to the byte memory\<close>
named_theorems cell_simps \<open>atomic operations in terms of loads and stores\<close>

section \<open>Words\<close>

lemma unat_ucast_u32: "unat (ucast (x :: u32) :: u64) = unat x"
proof -
  have "unat x < 2 ^ 32" using unsigned_less [of x] by simp
  then show ?thesis by (simp add: unsigned_ucast_eq take_bit_nat_eq_self)
qed

lemma unat_minus_one_Suc:
  fixes x :: "'a::len word"
  assumes "x \<noteq> 0"
  shows "unat x = Suc (unat (x - 1))"
proof -
  have "0 < unat x" using assms by (simp add: unat_gt_0)
  with unat_minus_one [OF assms] show ?thesis by simp
qed

lemma bit_ucast_or_push8:
  fixes b :: u8 and w :: u64
  shows "bit (ucast b OR push_bit 8 w) i \<longleftrightarrow>
    (if i < 8 then bit b i else i < 64 \<and> bit w (i - 8))"
  by (auto simp: bit_or_iff bit_push_bit_iff bit_ucast_iff dest: bit_imp_le_length)

lemma take_bit_int_add_left: "take_bit n (take_bit n x + a) = take_bit n (x + a)" for x :: int
  by (simp add: take_bit_eq_mod mod_simps)

lemma take_bit_word_add_left: "take_bit k (take_bit k x + a) = take_bit k (x + a)"
  for x :: "'a::len word"
  by transfer (simp add: take_bit_take_bit take_bit_int_add_left)

lemma take_bit_word_sub_left: "take_bit k (take_bit k x - a) = take_bit k (x - a)"
  for x :: "'a::len word"
  using take_bit_word_add_left [of k x "- a"] by simp

lemma ucast_sub_u32: "ucast (x - y) = (ucast x - ucast y :: u32)" for x y :: u64
  by (simp add: word_uint_eq_iff uint_word_ariths unsigned_ucast_eq take_bit_word_eq_self
      take_bit_eq_mod mod_mod_cancel mod_diff_eq)

lemma unat_of_nat_addr: "k < 2 ^ 64 \<Longrightarrow> unat (of_nat k :: addr) = k"
  by (simp add: unat_of_nat)

lemma unat_add_offset: "unat p + k < 2 ^ 64 \<Longrightarrow> unat (p + of_nat k) = unat p + k" for p :: addr
  by (simp add: unat_word_ariths unat_of_nat)

section \<open>Byte memory\<close>

text \<open>
  All targets of the repository are little-endian. A word of \<open>n\<close> bytes at \<open>p\<close> occupies
  the addresses \<open>p\<close> to \<open>p + n - 1\<close>; address arithmetic wraps at 64 bits.
\<close>

type_synonym mem = "addr \<Rightarrow> u8"

fun mload :: "nat \<Rightarrow> mem \<Rightarrow> addr \<Rightarrow> u64" where
  "mload 0 m p = 0"
| "mload (Suc n) m p = ucast (m p) OR push_bit 8 (mload n m (p + 1))"

fun mstore :: "nat \<Rightarrow> mem \<Rightarrow> addr \<Rightarrow> u64 \<Rightarrow> mem" where
  "mstore 0 m p v = m"
| "mstore (Suc n) m p v = (mstore n m (p + 1) (drop_bit 8 v))(p := ucast v)"

definition in_region :: "addr \<Rightarrow> nat \<Rightarrow> addr \<Rightarrow> bool" where
  "in_region p n a \<longleftrightarrow> unat (a - p) < n"

definition disjoint_regions :: "addr \<Rightarrow> nat \<Rightarrow> addr \<Rightarrow> nat \<Rightarrow> bool" where
  "disjoint_regions p n q k \<longleftrightarrow> n \<le> unat (q - p) \<and> k \<le> unat (p - q)"

lemma bit_mload:
  "n \<le> 8 \<Longrightarrow> bit (mload n m p) i \<longleftrightarrow>
    i < 8 * n \<and> bit (m (p + of_nat (i div 8))) (i mod 8)"
proof (induction n arbitrary: p i)
  case 0
  show ?case by simp
next
  case (Suc n)
  show ?case
  proof (cases "i < 8")
    case True
    then show ?thesis by (simp add: bit_ucast_or_push8)
  next
    case False
    then obtain j where j: "i = j + 8" by (metis le_add_diff_inverse2 not_less)
    have "i div 8 = Suc (j div 8)" and im: "i mod 8 = j mod 8"
      by (simp_all add: j)
    then have eq: "p + 1 + of_nat (j div 8) = p + of_nat (i div 8)"
      by simp
    have "bit (mload n m (p + 1)) j \<longleftrightarrow>
        j < 8 * n \<and> bit (m (p + of_nat (i div 8))) (i mod 8)"
      unfolding im using Suc.IH [of "p + 1" j] Suc.prems eq by simp
    with False j Suc.prems show ?thesis
      by (auto simp: bit_ucast_or_push8)
  qed
qed

lemma mstore_apply:
  "n \<le> 8 \<Longrightarrow> mstore n m p v a =
    (if in_region p n a then ucast (drop_bit (8 * unat (a - p)) v) else m a)"
proof (induction n arbitrary: p v)
  case 0
  show ?case by (simp add: in_region_def)
next
  case (Suc n)
  show ?case
  proof (cases "a = p")
    case True
    then show ?thesis by (simp add: in_region_def)
  next
    case False
    then have "unat (a - p) = Suc (unat (a - (p + 1)))"
      using unat_minus_one_Suc [of "a - p"] by (simp add: algebra_simps)
    with Suc False show ?thesis
      by (simp add: in_region_def add.commute)
  qed
qed

lemma mload_zero [mem_simps]: "mload n (\<lambda>_. 0) p = 0"
  by (induction n arbitrary: p) simp_all

lemma mload_mstore [mem_simps]:
  assumes "n \<le> 8"
  shows "mload n (mstore n m p v) p = take_bit (8 * n) v"
proof (rule bit_word_eqI)
  fix i :: nat
  assume "i < LENGTH(64)"
  then have i: "i div 8 < 8" by simp
  then have "unat (of_nat (i div 8) :: addr) = i div 8"
    by (simp add: unat_of_nat)
  with assms i show "bit (mload n (mstore n m p v) p) i = bit (take_bit (8 * n) v) i"
    by (auto simp: bit_mload mstore_apply in_region_def bit_take_bit_iff bit_ucast_iff bit_drop_bit_eq
        less_mult_imp_div_less)
qed

lemma mstore_outside [mem_simps]:
  "n \<le> 8 \<Longrightarrow> \<not> in_region p n a \<Longrightarrow> mstore n m p v a = m a"
  by (simp add: mstore_apply)

lemma in_region_offset:
  assumes "i < n" and "n \<le> 8"
  shows "in_region p n (p + of_nat i)"
  using assms by (simp add: in_region_def unat_of_nat)

lemma mload_cong:
  assumes "n \<le> 8" and "\<And>a. in_region p n a \<Longrightarrow> m a = m' a"
  shows "mload n m p = mload n m' p"
proof (rule bit_word_eqI)
  fix i :: nat
  show "bit (mload n m p) i = bit (mload n m' p) i"
  proof (cases "i < 8 * n")
    case True
    then have "i div 8 < n" by (simp add: less_mult_imp_div_less)
    with assms have "m (p + of_nat (i div 8)) = m' (p + of_nat (i div 8))"
      by (simp add: in_region_offset)
    with assms(1) show ?thesis by (simp add: bit_mload)
  qed (use assms(1) in \<open>simp add: bit_mload\<close>)
qed

lemma mload_take_bit [mem_simps]:
  "n \<le> 8 \<Longrightarrow> take_bit (8 * n) (mload n m p) = mload n m p"
  by (rule bit_word_eqI) (auto simp: bit_take_bit_iff bit_mload)

text \<open>Two regions are disjoint when neither start lies within the other region.\<close>

lemma disjoint_regions_sym: "disjoint_regions p n q k \<Longrightarrow> disjoint_regions q k p n"
  by (simp add: disjoint_regions_def)

lemma disjoint_regions_not_in:
  assumes d: "disjoint_regions p n q k" and a: "in_region q k a"
  shows "\<not> in_region p n a"
proof
  assume p: "in_region p n a"
  show False
  proof (cases "a - q \<le> a - p")
    case True
    then have "unat (q - p) = unat (a - p) - unat (a - q)"
      using unat_sub [of "a - q" "a - p"] by simp
    with p d show False unfolding in_region_def disjoint_regions_def by linarith
  next
    case False
    then have "a - p \<le> a - q" by simp
    then have "unat (p - q) = unat (a - q) - unat (a - p)"
      using unat_sub [of "a - p" "a - q"] by simp
    with a d show False unfolding in_region_def disjoint_regions_def by linarith
  qed
qed

lemma mload_mstore_disjoint [mem_simps]:
  assumes "disjoint_regions p n q k" and "n \<le> 8" and "k \<le> 8"
  shows "mload k (mstore n m p v) q = mload k m q"
  using assms by (intro mload_cong) (auto simp: mstore_apply dest: disjoint_regions_not_in)

lemma mstore_mload [mem_simps]:
  assumes "n \<le> 8"
  shows "mstore n m p (mload n m p) = m"
proof
  fix a
  show "mstore n m p (mload n m p) a = m a"
  proof (cases "in_region p n a")
    case True
    then have lt: "unat (a - p) < n" by (simp add: in_region_def)
    have "ucast (drop_bit (8 * unat (a - p)) (mload n m p)) = m a"
    proof (rule bit_word_eqI)
      fix i assume "i < LENGTH(8)"
      with lt assms show "bit (ucast (drop_bit (8 * unat (a - p)) (mload n m p)) :: u8) i = bit (m a) i"
        by (simp add: bit_ucast_iff bit_drop_bit_eq bit_mload)
    qed
    with True assms show ?thesis by (simp add: mstore_apply)
  qed (use assms in \<open>simp add: mstore_apply\<close>)
qed

lemma mstore_mstore [mem_simps]:
  "n \<le> 8 \<Longrightarrow> mstore n (mstore n m p v) p w = mstore n m p w"
  by (rule ext) (simp add: mstore_apply)

lemma mstore_cong_low:
  assumes "n \<le> 8" and "take_bit (8 * n) v = take_bit (8 * n) w"
  shows "mstore n m p v = mstore n m p w"
proof
  fix a
  have "ucast (drop_bit (8 * unat (a - p)) v) = (ucast (drop_bit (8 * unat (a - p)) w) :: u8)"
    if "unat (a - p) < n"
  proof (rule bit_word_eqI)
    fix i assume "i < LENGTH(8)"
    with that have "8 * unat (a - p) + i < 8 * n" by simp
    with assms(2) have "bit v (8 * unat (a - p) + i) = bit w (8 * unat (a - p) + i)"
      by (metis bit_take_bit_iff)
    then show "bit (ucast (drop_bit (8 * unat (a - p)) v) :: u8) i = bit (ucast (drop_bit (8 * unat (a - p)) w) :: u8) i"
      by (simp add: bit_ucast_iff bit_drop_bit_eq)
  qed
  with assms(1) show "mstore n m p v a = mstore n m p w a"
    by (simp add: mstore_apply in_region_def)
qed

section \<open>Runs of step relations\<close>

text \<open>
  A run of a labelled step relation, with the moves it takes in their order. The labels say who
  moves: a thread of a lock, or one of the parties of a start-up.
\<close>

inductive runs :: "('s \<Rightarrow> 'a \<Rightarrow> 's \<Rightarrow> bool) \<Rightarrow> 's \<Rightarrow> 'a list \<Rightarrow> 's \<Rightarrow> bool" for move where
  run_refl: "runs move s [] s"
| run_snoc: "runs move s as t \<Longrightarrow> move t a u \<Longrightarrow> runs move s (as @ [a]) u"

lemma run_Cons: "runs move t as u \<Longrightarrow> move s a t \<Longrightarrow> runs move s (a # as) u"
proof (induction rule: runs.induct)
  case (run_refl t)
  then have "runs move s ([] @ [a]) t" by (rule run_snoc [OF runs.run_refl])
  then show ?case by simp
next
  case (run_snoc t as u b v)
  have "runs move s ((a # as) @ [b]) v"
    by (rule runs.run_snoc [OF run_snoc.IH [OF run_snoc.prems] run_snoc.hyps(2)])
  then show ?case by simp
qed

text \<open>
  The contract between a step relation and what is claimed of its runs: the moves that are
  \<open>allowed\<close> keep \<open>inv\<close>. Every state a run of such moves reaches then has it.
\<close>

locale step_invariant =
  fixes move :: "'s \<Rightarrow> 'a \<Rightarrow> 's \<Rightarrow> bool" and allowed :: "'a \<Rightarrow> bool" and inv :: "'s \<Rightarrow> bool"
  assumes inv_move: "inv s \<Longrightarrow> move s a t \<Longrightarrow> allowed a \<Longrightarrow> inv t"
begin

lemma inv_run: "runs move s as t \<Longrightarrow> inv s \<Longrightarrow> (\<And>a. a \<in> set as \<Longrightarrow> allowed a) \<Longrightarrow> inv t"
proof (induction rule: runs.induct)
  case (run_snoc s as t a u)
  have "inv t" by (rule run_snoc.IH [OF run_snoc.prems(1)]) (simp add: run_snoc.prems(2))
  from this run_snoc.hyps(2) show ?case by (rule inv_move) (simp add: run_snoc.prems(2))
qed

end

section \<open>Conservation\<close>

text \<open>
  Things that are at one place each: the places hold disjoint sets that make up all of \<open>U\<close>. The
  regions of the region manager and the pages of the page pool are such things.
\<close>

definition parted :: "('l \<Rightarrow> nat set) \<Rightarrow> nat set \<Rightarrow> bool" where
  "parted P U \<longleftrightarrow> (\<forall>l k. l \<noteq> k \<longrightarrow> P l \<inter> P k = {}) \<and> (\<Union>l. P l) = U"

lemma parted_apart: "parted P U \<Longrightarrow> l \<noteq> k \<Longrightarrow> P l \<inter> P k = {}"
  by (simp add: parted_def)

text \<open>Units that go from one place to another leave the units parted.\<close>

lemma parted_move:
  assumes "parted P U" and "X \<subseteq> P a" and "a \<noteq> b" and "\<And>l. Q l = (if l = a then P a - X else if l = b then P b \<union> X else P l)"
  shows "parted Q U"
proof -
  have "Q l \<inter> Q k = {}" if "l \<noteq> k" for l k
  proof -
    have "P l \<inter> P k = {}" "P a \<inter> P k = {} \<or> k = a" "P l \<inter> P a = {} \<or> l = a"
      using assms(1) that by (auto simp: parted_def)
    then show ?thesis using assms(2-4) that by (auto split: if_splits)
  qed
  moreover have "(\<Union>l. Q l) = (\<Union>l. P l)"
  proof
    show "(\<Union>l. Q l) \<subseteq> (\<Union>l. P l)" using assms(2,4) by (auto split: if_splits)
    show "(\<Union>l. P l) \<subseteq> (\<Union>l. Q l)"
    proof
      fix u assume "u \<in> (\<Union>l. P l)"
      then obtain l where "u \<in> P l" by blast
      then have "u \<in> Q l \<or> u \<in> Q b" using assms(2-4) by (auto split: if_splits)
      then show "u \<in> (\<Union>l. Q l)" by blast
    qed
  qed
  ultimately show ?thesis using assms(1) by (simp add: parted_def)
qed

lemma parted_same: "parted P U \<Longrightarrow> (\<And>l. Q l = P l) \<Longrightarrow> parted Q U"
  by (simp add: parted_def)

text \<open>New things may appear at one place.\<close>

lemma parted_grow:
  assumes "parted P U" and "X \<inter> U = {}" and "\<And>l. Q l = (if l = b then P b \<union> X else P l)"
  shows "parted Q (U \<union> X)"
  unfolding parted_def
proof (intro conjI allI impI)
  have sub: "P l \<subseteq> U" for l using assms(1) by (auto simp: parted_def)
  fix l k :: 'a
  assume "l \<noteq> k"
  then have "P l \<inter> P k = {}" using assms(1) by (simp add: parted_def)
  then show "Q l \<inter> Q k = {}" using sub [of l] sub [of k] assms(2) \<open>l \<noteq> k\<close> unfolding assms(3) by (cases "l = b"; cases "k = b") auto
next
  have "(\<Union>l. P l) = U" using assms(1) by (simp add: parted_def)
  moreover have "(\<Union>l. Q l) = (\<Union>l. P l) \<union> X" unfolding assms(3) by (auto split: if_splits)
  ultimately show "(\<Union>l. Q l) = U \<union> X" by simp
qed

end
