(* ===== verification/Atomics.thy ===== *)
theory Atomics
  imports Prelude "HOL-Library.Multiset"
begin

text \<open>
  The Layer0 atomics of \<^verbatim>\<open>rt0/Atomic.cpp\<close>, over the byte memory of the prelude. Each
  function is one indivisible step (an \<open>__atomic\<close> builtin), so a concurrent execution is
  an interleaving of these steps; the memory orders only restrict reorderings between
  them and do not change what one step does. The two interfaces of this layer, a cell with
  compare-and-swap and a cell with fetch-and-modify operations, are the locales
  \<open>atomic_cell\<close> and \<open>atomic_fetch\<close>.
\<close>

section \<open>The compiler builtins, at a width of n bytes\<close>

datatype rmw_op = FetchAdd | FetchSub | FetchAnd | FetchOr | FetchXor

fun rmw_apply :: "rmw_op \<Rightarrow> u64 \<Rightarrow> u64 \<Rightarrow> u64" where
  "rmw_apply FetchAdd old v = old + v"
| "rmw_apply FetchSub old v = old - v"
| "rmw_apply FetchAnd old v = old AND v"
| "rmw_apply FetchOr old v = old OR v"
| "rmw_apply FetchXor old v = old XOR v"

definition atomic_fetch_n :: "rmw_op \<Rightarrow> nat \<Rightarrow> addr \<Rightarrow> mem \<Rightarrow> u64 \<Rightarrow> u64 \<times> mem" where
  "atomic_fetch_n f n p m v =
     (let old = mload n m p in (old, mstore n m p (rmw_apply f old v)))"

definition atomic_exchange_n :: "nat \<Rightarrow> addr \<Rightarrow> mem \<Rightarrow> u64 \<Rightarrow> u64 \<times> mem" where
  "atomic_exchange_n n p m v = (mload n m p, mstore n m p v)"

text \<open>
  Strong compare-and-exchange whose expected value is a local variable of the caller (the
  write-back of the current value is lost), and the one whose expected value is in memory:
  on failure the current value is stored at \<open>e\<close>.
\<close>

definition atomic_cas_n :: "nat \<Rightarrow> addr \<Rightarrow> mem \<Rightarrow> u64 \<Rightarrow> u64 \<Rightarrow> int \<times> mem" where
  "atomic_cas_n n p m expected desired =
     (if mload n m p = expected then (1, mstore n m p desired) else (0, m))"

definition atomic_compare_exchange_n ::
  "nat \<Rightarrow> addr \<Rightarrow> addr \<Rightarrow> mem \<Rightarrow> u64 \<Rightarrow> int \<times> mem" where
  "atomic_compare_exchange_n n p e m desired =
     (let cur = mload n m p in
      if cur = mload n m e then (1, mstore n m p desired) else (0, mstore n m e cur))"

section \<open>Value-storage atomics\<close>

definition cj_atomic_flag_test_and_set :: "mem \<Rightarrow> addr \<Rightarrow> bool \<times> mem" where
  "cj_atomic_flag_test_and_set m p = (m p \<noteq> 0, m(p := 1))"

definition cj_atomic_flag_clear :: "mem \<Rightarrow> addr \<Rightarrow> mem" where
  "cj_atomic_flag_clear m p = m(p := 0)"

definition cj_atomic_i32_cas :: "mem \<Rightarrow> addr \<Rightarrow> u32 \<Rightarrow> u32 \<Rightarrow> int \<times> mem" where
  "cj_atomic_i32_cas m p expected desired = atomic_cas_n 4 p m (ucast expected) (ucast desired)"

definition cj_atomic_i32_load :: "mem \<Rightarrow> addr \<Rightarrow> u32" where
  "cj_atomic_i32_load m p = ucast (mload 4 m p)"

definition cj_atomic_i32_store :: "mem \<Rightarrow> addr \<Rightarrow> u32 \<Rightarrow> mem" where
  "cj_atomic_i32_store m p v = mstore 4 m p (ucast v)"

definition cj_atomic_i32_fetch_sub :: "mem \<Rightarrow> addr \<Rightarrow> u32 \<Rightarrow> u32 \<times> mem" where
  "cj_atomic_i32_fetch_sub m p v =
     (let (old, m') = atomic_fetch_n FetchSub 4 p m (ucast v) in (ucast old, m'))"

definition cj_atomic_u8_cas :: "mem \<Rightarrow> addr \<Rightarrow> addr \<Rightarrow> u8 \<Rightarrow> int \<times> mem" where
  "cj_atomic_u8_cas m p expected desired = atomic_compare_exchange_n 1 p expected m (ucast desired)"

definition cj_atomic_u8_load :: "mem \<Rightarrow> addr \<Rightarrow> u8" where
  "cj_atomic_u8_load m p = ucast (mload 1 m p)"

definition cj_atomic_u8_store :: "mem \<Rightarrow> addr \<Rightarrow> u8 \<Rightarrow> mem" where
  "cj_atomic_u8_store m p v = mstore 1 m p (ucast v)"

definition cj_atomic_u16_cas :: "mem \<Rightarrow> addr \<Rightarrow> addr \<Rightarrow> u16 \<Rightarrow> int \<times> mem" where
  "cj_atomic_u16_cas m p expected desired = atomic_compare_exchange_n 2 p expected m (ucast desired)"

definition cj_atomic_u16_load :: "mem \<Rightarrow> addr \<Rightarrow> u16" where
  "cj_atomic_u16_load m p = ucast (mload 2 m p)"

definition cj_atomic_u16_store :: "mem \<Rightarrow> addr \<Rightarrow> u16 \<Rightarrow> mem" where
  "cj_atomic_u16_store m p v = mstore 2 m p (ucast v)"

definition cj_atomic_u16_fetch_add_seq_cst :: "mem \<Rightarrow> addr \<Rightarrow> u16 \<Rightarrow> u16 \<times> mem" where
  "cj_atomic_u16_fetch_add_seq_cst m p v =
     (let (old, m') = atomic_fetch_n FetchAdd 2 p m (ucast v) in (ucast old, m'))"

definition cj_atomic_u64_load_seq_cst :: "mem \<Rightarrow> addr \<Rightarrow> u64" where
  "cj_atomic_u64_load_seq_cst m p = mload 8 m p"

definition cj_atomic_u64_load_acquire :: "mem \<Rightarrow> addr \<Rightarrow> u64" where
  "cj_atomic_u64_load_acquire m p = mload 8 m p"

definition cj_atomic_u64_fetch_add_seq_cst :: "mem \<Rightarrow> addr \<Rightarrow> u64 \<Rightarrow> u64 \<times> mem" where
  "cj_atomic_u64_fetch_add_seq_cst m p v = atomic_fetch_n FetchAdd 8 p m v"

definition cj_atomic_u64_fetch_or_seq_cst :: "mem \<Rightarrow> addr \<Rightarrow> u64 \<Rightarrow> u64 \<times> mem" where
  "cj_atomic_u64_fetch_or_seq_cst m p v = atomic_fetch_n FetchOr 8 p m v"

definition cj_atomic_uintptr_fetch_add_seq_cst :: "mem \<Rightarrow> addr \<Rightarrow> u64 \<Rightarrow> u64 \<times> mem" where
  "cj_atomic_uintptr_fetch_add_seq_cst m p v = atomic_fetch_n FetchAdd 8 p m v"

definition cj_atomic_uintptr_load_seq_cst :: "mem \<Rightarrow> addr \<Rightarrow> u64" where
  "cj_atomic_uintptr_load_seq_cst m p = mload 8 m p"

definition cj_atomic_uintptr_load_relaxed :: "mem \<Rightarrow> addr \<Rightarrow> u64" where
  "cj_atomic_uintptr_load_relaxed m p = mload 8 m p"

definition cj_atomic_uintptr_load_acquire :: "mem \<Rightarrow> addr \<Rightarrow> u64" where
  "cj_atomic_uintptr_load_acquire m p = mload 8 m p"

definition cj_atomic_uintptr_store_seq_cst :: "mem \<Rightarrow> addr \<Rightarrow> u64 \<Rightarrow> mem" where
  "cj_atomic_uintptr_store_seq_cst m p v = mstore 8 m p v"

definition cj_atomic_u32_store_release :: "mem \<Rightarrow> addr \<Rightarrow> u32 \<Rightarrow> mem" where
  "cj_atomic_u32_store_release m p v = mstore 4 m p (ucast v)"

section \<open>Sized field atomics\<close>

text \<open>
  The \<open>switch (size)\<close> shared by the field operations: the four widths, or a trap. The
  memory order is passed on by the code and has no effect on a single step.
\<close>

definition field_switch :: "u64 \<Rightarrow> (nat \<Rightarrow> 'a) \<Rightarrow> 'a res" where
  "field_switch sz f =
     (if sz = 1 then Inr (f 1)
      else if sz = 2 then Inr (f 2)
      else if sz = 4 then Inr (f 4)
      else if sz = 8 then Inr (f 8)
      else Inl Trap)"

definition cj_atomic_field_load :: "mem \<Rightarrow> addr \<Rightarrow> u64 \<Rightarrow> int \<Rightarrow> u64 res" where
  "cj_atomic_field_load m p sz order = field_switch sz (\<lambda>n. mload n m p)"

definition cj_atomic_field_store :: "mem \<Rightarrow> addr \<Rightarrow> addr \<Rightarrow> u64 \<Rightarrow> int \<Rightarrow> mem res" where
  "cj_atomic_field_store m p value sz order =
     field_switch sz (\<lambda>n. mstore n m p (mload n m value))"

definition cj_atomic_field_compare_exchange ::
  "mem \<Rightarrow> addr \<Rightarrow> addr \<Rightarrow> addr \<Rightarrow> u64 \<Rightarrow> int \<Rightarrow> int \<Rightarrow> (int \<times> mem) res" where
  "cj_atomic_field_compare_exchange m p expected desired sz success failure =
     field_switch sz (\<lambda>n. atomic_compare_exchange_n n p expected m (mload n m desired))"

definition cj_atomic_field_exchange :: "mem \<Rightarrow> addr \<Rightarrow> addr \<Rightarrow> u64 \<Rightarrow> int \<Rightarrow> (u64 \<times> mem) res" where
  "cj_atomic_field_exchange m p desired sz order =
     field_switch sz (\<lambda>n. atomic_exchange_n n p m (mload n m desired))"

text \<open>
  The macro \<open>CJ_ATOMIC_FIELD_FETCH(NAME, BUILTIN)\<close> and its five instances.
\<close>

definition cj_atomic_field_fetch ::
  "rmw_op \<Rightarrow> mem \<Rightarrow> addr \<Rightarrow> addr \<Rightarrow> u64 \<Rightarrow> int \<Rightarrow> (u64 \<times> mem) res" where
  "cj_atomic_field_fetch f m p operand sz order =
     field_switch sz (\<lambda>n. atomic_fetch_n f n p m (mload n m operand))"

definition cj_atomic_field_fetch_add :: "mem \<Rightarrow> addr \<Rightarrow> addr \<Rightarrow> u64 \<Rightarrow> int \<Rightarrow> (u64 \<times> mem) res" where
  "cj_atomic_field_fetch_add = cj_atomic_field_fetch FetchAdd"

definition cj_atomic_field_fetch_sub :: "mem \<Rightarrow> addr \<Rightarrow> addr \<Rightarrow> u64 \<Rightarrow> int \<Rightarrow> (u64 \<times> mem) res" where
  "cj_atomic_field_fetch_sub = cj_atomic_field_fetch FetchSub"

definition cj_atomic_field_fetch_and :: "mem \<Rightarrow> addr \<Rightarrow> addr \<Rightarrow> u64 \<Rightarrow> int \<Rightarrow> (u64 \<times> mem) res" where
  "cj_atomic_field_fetch_and = cj_atomic_field_fetch FetchAnd"

definition cj_atomic_field_fetch_or :: "mem \<Rightarrow> addr \<Rightarrow> addr \<Rightarrow> u64 \<Rightarrow> int \<Rightarrow> (u64 \<times> mem) res" where
  "cj_atomic_field_fetch_or = cj_atomic_field_fetch FetchOr"

definition cj_atomic_field_fetch_xor :: "mem \<Rightarrow> addr \<Rightarrow> addr \<Rightarrow> u64 \<Rightarrow> int \<Rightarrow> (u64 \<times> mem) res" where
  "cj_atomic_field_fetch_xor = cj_atomic_field_fetch FetchXor"

text \<open>
  \<open>cj_stateword_u16_cas\<close> is weak on x86_64 (it may fail although the values agree, which
  \<open>spurious\<close> decides) and strong on the other targets.
\<close>

definition cj_stateword_u16_cas ::
  "bool \<Rightarrow> bool \<Rightarrow> mem \<Rightarrow> addr \<Rightarrow> u16 \<Rightarrow> u16 \<Rightarrow> int \<times> mem" where
  "cj_stateword_u16_cas x86_64 spurious m p expected desired =
     (if x86_64 \<and> spurious then (0, m)
      else atomic_cas_n 2 p m (ucast expected) (ucast desired))"

section \<open>The interfaces of this layer\<close>

text \<open>
  A cell with compare-and-swap, as the lock algorithms use it: what a load returns after a
  store, and that a swap succeeds exactly when the cell holds the expected value and then
  behaves as a store.
\<close>

locale atomic_cell =
  fixes load :: "'m \<Rightarrow> 'v"
    and store :: "'m \<Rightarrow> 'v \<Rightarrow> 'm"
    and cas :: "'m \<Rightarrow> 'v \<Rightarrow> 'v \<Rightarrow> int \<times> 'm"
  assumes load_store: "load (store m v) = v"
    and store_store: "store (store m v) w = store m w"
    and store_load: "store m (load m) = m"
    and cas_spec: "cas m e d = (if load m = e then (1, store m d) else (0, m))"
begin

lemma cas_result: "fst (cas m e d) = (if load m = e then 1 else 0)"
  by (simp add: cas_spec)

lemma load_after_cas: "load (snd (cas m e d)) = (if load m = e then d else load m)"
  by (simp add: cas_spec load_store)

lemma cas_succeeds_iff: "fst (cas m e d) \<noteq> 0 \<longleftrightarrow> load m = e"
  by (simp add: cas_result)

lemma failed_cas_is_skip: "fst (cas m e d) = 0 \<Longrightarrow> snd (cas m e d) = m"
  by (simp add: cas_spec split: if_splits)

text \<open>Of two swaps from the same expected value to another one, only the first succeeds.\<close>

lemma second_cas_loses:
  assumes "fst (cas m e d) = 1" and "d \<noteq> e"
  shows "fst (cas (snd (cas m e d)) e d') = 0"
  using assms by (simp add: cas_spec load_store split: if_splits)

lemma store_eq_iff: "store m v = store m w \<longleftrightarrow> v = w"
  by (metis load_store)

end

text \<open>
  A cell with an indivisible read-modify-write. \<open>norm\<close> is the truncation to the width of
  the cell; the modification commutes with itself, which all five operations do.
\<close>

fun run_fetch :: "('m \<Rightarrow> 'v \<Rightarrow> 'v \<times> 'm) \<Rightarrow> 'm \<Rightarrow> 'v list \<Rightarrow> 'v list \<times> 'm" where
  "run_fetch f m [] = ([], m)"
| "run_fetch f m (v # vs) =
     (let (old, m') = f m v; (olds, m'') = run_fetch f m' vs in (old # olds, m''))"

locale atomic_fetch =
  fixes load :: "'m \<Rightarrow> 'v"
    and store :: "'m \<Rightarrow> 'v \<Rightarrow> 'm"
    and norm :: "'v \<Rightarrow> 'v"
    and opr :: "'v \<Rightarrow> 'v \<Rightarrow> 'v"
    and fetch :: "'m \<Rightarrow> 'v \<Rightarrow> 'v \<times> 'm"
  assumes fetch_spec: "fetch m v = (load m, store m (opr (load m) v))"
    and load_store: "load (store m v) = norm v"
    and store_store: "store (store m v) w = store m w"
    and store_load: "store m (load m) = m"
    and store_norm: "norm v = norm w \<Longrightarrow> store m v = store m w"
    and norm_opr: "norm (opr (norm x) a) = norm (opr x a)"
    and opr_commute: "opr (opr x a) b = opr (opr x b) a"
begin

lemma norm_foldl: "norm (foldl opr (norm x) vs) = norm (foldl opr x vs)"
proof (induction vs arbitrary: x)
  case Nil
  show ?case
    by (metis foldl_Nil load_store store_load)
next
  case (Cons v vs)
  have "norm (foldl opr (opr (norm x) v) vs) = norm (foldl opr (norm (opr (norm x) v)) vs)"
    by (simp add: Cons.IH)
  also have "\<dots> = norm (foldl opr (opr x v) vs)"
    by (simp add: norm_opr Cons.IH)
  finally show ?case by simp
qed

lemma run_fetch_final: "snd (run_fetch fetch m vs) = store m (foldl opr (load m) vs)"
proof (induction vs arbitrary: m)
  case Nil
  show ?case by (simp add: store_load)
next
  case (Cons v vs)
  have "snd (run_fetch fetch m (v # vs)) = store m (foldl opr (norm (opr (load m) v)) vs)"
    by (simp add: fetch_spec Let_def case_prod_beta Cons.IH load_store store_store)
  also have "\<dots> = store m (foldl opr (opr (load m) v) vs)"
    by (rule store_norm) (rule norm_foldl)
  finally show ?case by simp
qed

lemma foldl_opr_commute: "foldl opr (opr x a) vs = opr (foldl opr x vs) a"
  by (induction vs arbitrary: x) (simp_all add: opr_commute)

lemma foldl_mset_eq:
  assumes "mset vs = mset ws"
  shows "foldl opr x vs = foldl opr x ws"
  using assms
proof (induction vs arbitrary: ws)
  case Nil
  then show ?case by simp
next
  case (Cons v vs)
  then obtain as bs where ws: "ws = as @ v # bs"
    by (metis list.set_intros(1) mset_eq_setD split_list)
  with Cons.prems have "mset vs = mset (as @ bs)" by simp
  then have "foldl opr x vs = foldl opr x (as @ bs)" by (rule Cons.IH)
  then show ?case by (simp add: ws foldl_opr_commute)
qed

text \<open>The memory after any number of operations does not depend on their order.\<close>

lemma run_fetch_order:
  "mset vs = mset ws \<Longrightarrow> snd (run_fetch fetch m vs) = snd (run_fetch fetch m ws)"
  by (simp add: run_fetch_final foldl_mset_eq [of vs ws])

lemma run_fetch_length: "length (fst (run_fetch fetch m vs)) = length vs"
  by (induction vs arbitrary: m) (simp_all add: Let_def case_prod_beta)

text \<open>The value an operation returns is the cell after the operations before it.\<close>

lemma run_fetch_returns:
  "i < length vs \<Longrightarrow> fst (run_fetch fetch m vs) ! i = load (snd (run_fetch fetch m (take i vs)))"
proof (induction vs arbitrary: m i)
  case Nil
  then show ?case by simp
next
  case (Cons v vs)
  then show ?case
    by (cases i) (simp_all add: fetch_spec Let_def case_prod_beta)
qed

end

section \<open>The model provides both interfaces\<close>

lemma ucast_eq_iff_take_bit:
  fixes x :: u64 and y :: "'a::len word"
  assumes "take_bit LENGTH('a) x = x" and "LENGTH('a) \<le> 64"
  shows "ucast x = y \<longleftrightarrow> x = ucast y"
proof
  assume "ucast x = y"
  then have "ucast y = (ucast (ucast x :: 'a word) :: u64)" by simp
  also have "\<dots> = take_bit LENGTH('a) x"
    by (rule bit_word_eqI) (simp add: bit_ucast_iff bit_take_bit_iff)
  finally show "x = ucast y" using assms(1) by simp
next
  assume "x = ucast y"
  with assms(2) show "ucast x = y"
    by (auto intro!: bit_word_eqI simp: bit_ucast_iff)
qed

lemma ucast_ucast_id [simp]:
  fixes v :: "'a::len word"
  assumes "LENGTH('a) \<le> 64"
  shows "ucast (ucast v :: u64) = v"
  using assms by (intro bit_word_eqI) (simp add: bit_ucast_iff)

lemma take_bit_ucast [simp]:
  fixes v :: "'a::len word"
  assumes "LENGTH('a) \<le> k"
  shows "take_bit k (ucast v :: u64) = ucast v"
  using assms
  by (intro bit_word_eqI) (auto simp: bit_ucast_iff bit_take_bit_iff dest: bit_imp_le_length)

lemma ucast_down_up:
  "LENGTH('a) \<le> 64 \<Longrightarrow> ucast (ucast (x :: u64) :: 'a::len word) = take_bit LENGTH('a) x"
  by (rule bit_word_eqI) (simp add: bit_ucast_iff bit_take_bit_iff)

lemma mload_4_ucast: "ucast (ucast (mload 4 m p) :: u32) = mload 4 m p"
  using mload_take_bit [of 4 m p] by (simp add: ucast_down_up)

lemma mload_2_ucast: "ucast (ucast (mload 2 m p) :: u16) = mload 2 m p"
  using mload_take_bit [of 2 m p] by (simp add: ucast_down_up)

lemma mload_4_eq_ucast: "mload 4 m p = ucast (v :: u32) \<longleftrightarrow> ucast (mload 4 m p) = v"
  using mload_take_bit [of 4 m p] by (simp add: ucast_eq_iff_take_bit)

lemma mload_2_eq_ucast: "mload 2 m p = ucast (v :: u16) \<longleftrightarrow> ucast (mload 2 m p) = v"
  using mload_take_bit [of 2 m p] by (simp add: ucast_eq_iff_take_bit)

interpretation i32_cell: atomic_cell
  "\<lambda>m. cj_atomic_i32_load m p" "\<lambda>m v. cj_atomic_i32_store m p v" "\<lambda>m e d. cj_atomic_i32_cas m p e d"
  for p
  by unfold_locales
    (simp_all add: cj_atomic_i32_load_def cj_atomic_i32_store_def cj_atomic_i32_cas_def
      atomic_cas_n_def mem_simps mload_4_ucast mload_4_eq_ucast)

text \<open>The strong form of the state-word swap is a cell of two bytes.\<close>

interpretation stateword_cell: atomic_cell
  "\<lambda>m. cj_atomic_u16_load m p" "\<lambda>m v. cj_atomic_u16_store m p v"
  "\<lambda>m e d. cj_stateword_u16_cas x86_64 False m p e d"
  for p x86_64
  by unfold_locales
    (simp_all add: cj_atomic_u16_load_def cj_atomic_u16_store_def cj_stateword_u16_cas_def
      atomic_cas_n_def mem_simps mload_2_ucast mload_2_eq_ucast)

lemmas cell_laws [cell_simps] =
  i32_cell.load_store i32_cell.store_store i32_cell.cas_spec
  stateword_cell.load_store stateword_cell.store_store

lemma cj_atomic_i32_fetch_sub_eq [cell_simps]:
  "cj_atomic_i32_fetch_sub m p v =
    (cj_atomic_i32_load m p, cj_atomic_i32_store m p (cj_atomic_i32_load m p - v))"
proof -
  have "ucast (mload 4 m p - ucast v) = (ucast (mload 4 m p) - v :: u32)"
    by (simp add: ucast_sub_u32)
  then have "take_bit 32 (mload 4 m p - ucast v) = take_bit 32 (ucast (ucast (mload 4 m p) - v :: u32))"
    using ucast_down_up [where 'a = 32, of "mload 4 m p - ucast v"] by simp
  then show ?thesis
    using mstore_cong_low [of 4 "mload 4 m p - ucast v" "ucast (ucast (mload 4 m p) - v :: u32)" m p]
    by (simp add: cj_atomic_i32_fetch_sub_def atomic_fetch_n_def Let_def
        cj_atomic_i32_load_def cj_atomic_i32_store_def)
qed


lemma rmw_apply_norm: "take_bit k (rmw_apply f (take_bit k x) a) = take_bit k (rmw_apply f x a)"
  by (cases f) (simp_all add: take_bit_word_add_left take_bit_word_sub_left)

lemma rmw_apply_commute: "rmw_apply f (rmw_apply f x a) b = rmw_apply f (rmw_apply f x b) a"
  by (cases f) (simp_all add: ac_simps)

lemma atomic_fetch_n_apply:
  "atomic_fetch_n f n p m v = (mload n m p, mstore n m p (rmw_apply f (mload n m p) v))"
  by (simp add: atomic_fetch_n_def Let_def)

lemma atomic_fetch_width:
  assumes "n \<le> 8"
  shows "atomic_fetch (\<lambda>m. mload n m p) (\<lambda>m v. mstore n m p v) (take_bit (8 * n)) (rmw_apply f)
    (atomic_fetch_n f n p)"
proof unfold_locales
  show "take_bit (8 * n) v = take_bit (8 * n) w \<Longrightarrow> mstore n m p v = mstore n m p w" for m v w
    using assms by (rule mstore_cong_low)
  show "rmw_apply f (rmw_apply f x a) b = rmw_apply f (rmw_apply f x b) a" for x a b
    by (rule rmw_apply_commute)
qed (use assms in \<open>simp_all add: atomic_fetch_n_def mem_simps rmw_apply_norm Let_def\<close>)

interpretation fetch8: atomic_fetch "\<lambda>m. mload 1 m p" "\<lambda>m v. mstore 1 m p v" "take_bit 8"
  "rmw_apply f" "atomic_fetch_n f 1 p" for p f
  using atomic_fetch_width [of 1] by simp

interpretation fetch16: atomic_fetch "\<lambda>m. mload 2 m p" "\<lambda>m v. mstore 2 m p v" "take_bit 16"
  "rmw_apply f" "atomic_fetch_n f 2 p" for p f
  using atomic_fetch_width [of 2] by simp

interpretation fetch32: atomic_fetch "\<lambda>m. mload 4 m p" "\<lambda>m v. mstore 4 m p v" "take_bit 32"
  "rmw_apply f" "atomic_fetch_n f 4 p" for p f
  using atomic_fetch_width [of 4] by simp

interpretation fetch64: atomic_fetch "\<lambda>m. mload 8 m p" "\<lambda>m v. mstore 8 m p v" "take_bit 64"
  "rmw_apply f" "atomic_fetch_n f 8 p" for p f
  using atomic_fetch_width [of 8] by simp

section \<open>Properties of the field atomics\<close>

definition field_width :: "u64 \<Rightarrow> bool" where
  "field_width sz \<longleftrightarrow> sz = 1 \<or> sz = 2 \<or> sz = 4 \<or> sz = 8"

lemma field_switch_valid: "field_width sz \<Longrightarrow> field_switch sz f = Inr (f (unat sz))"
  by (auto simp: field_width_def field_switch_def)

lemma field_switch_invalid: "\<not> field_width sz \<Longrightarrow> field_switch sz f = Inl Trap"
  by (auto simp: field_width_def field_switch_def)

lemma field_switch_Trap_iff: "field_switch sz f = Inl Trap \<longleftrightarrow> \<not> field_width sz"
  by (auto simp: field_switch_def field_width_def)

lemma field_width_le_8: "field_width sz \<Longrightarrow> unat sz \<le> 8"
  by (auto simp: field_width_def)

text \<open>A schedule: the operands of the threads' calls, in the order in which the calls take effect.\<close>

fun run_field_fetch ::
  "rmw_op \<Rightarrow> addr \<Rightarrow> u64 \<Rightarrow> int \<Rightarrow> mem \<Rightarrow> addr list \<Rightarrow> (u64 list \<times> mem) res" where
  "run_field_fetch f p sz order m [] = Inr ([], m)"
| "run_field_fetch f p sz order m (q # qs) =
     and_then (cj_atomic_field_fetch f m p q sz order) (\<lambda>(old, m').
     and_then (run_field_fetch f p sz order m' qs) (\<lambda>(olds, m'').
     Inr (old # olds, m'')))"

lemma run_field_fetch_eq:
  assumes "field_width sz" and "\<forall>q \<in> set qs. disjoint_regions p (unat sz) q (unat sz)"
  shows "run_field_fetch f p sz order m qs =
    Inr (run_fetch (atomic_fetch_n f (unat sz) p) m (map (mload (unat sz) m) qs))"
  using assms(2)
proof (induction qs arbitrary: m)
  case Nil
  show ?case by simp
next
  case (Cons q qs)
  let ?n = "unat sz"
  let ?m' = "mstore ?n m p (rmw_apply f (mload ?n m p) (mload ?n m q))"
  have step: "cj_atomic_field_fetch f m p q sz order = Inr (mload ?n m p, ?m')"
    by (simp add: cj_atomic_field_fetch_def field_switch_valid [OF assms(1)] atomic_fetch_n_def
        Let_def)
  have "map (mload ?n ?m') qs = map (mload ?n m) qs"
    using Cons.prems field_width_le_8 [OF assms(1)] by (simp add: mem_simps)
  then have "run_field_fetch f p sz order ?m' qs =
      Inr (run_fetch (atomic_fetch_n f ?n p) ?m' (map (mload ?n m) qs))"
    using Cons.IH [of ?m'] Cons.prems by (metis list.set_intros(2))
  then show ?case
    by (simp add: step atomic_fetch_n_apply [of f ?n p m "mload ?n m q"] case_prod_beta)
qed

text \<open>
  The field before each call of a schedule, for a field that holds \<open>x\<close> at first: the fold of
  the operation over the operands \<open>vs\<close> of the calls before it, truncated to the width.
\<close>

definition field_before :: "rmw_op \<Rightarrow> nat \<Rightarrow> u64 \<Rightarrow> u64 list \<Rightarrow> u64 list" where
  "field_before f n x vs = map (\<lambda>i. take_bit (8 * n) (foldl (rmw_apply f) x (take i vs))) [0 ..< length vs]"

lemma run_field_fetch_final:
  assumes "field_width sz" and "\<forall>q \<in> set qs. disjoint_regions p (unat sz) q (unat sz)"
  shows "run_field_fetch f p sz order m qs =
    Inr (field_before f (unat sz) (mload (unat sz) m p) (map (mload (unat sz) m) qs),
      mstore (unat sz) m p (foldl (rmw_apply f) (mload (unat sz) m p) (map (mload (unat sz) m) qs)))"
proof -
  let ?n = "unat sz" and ?vs = "map (mload (unat sz) m) qs"
  let ?run = "run_fetch (atomic_fetch_n f (unat sz) p) m"
  have n: "?n \<le> 8" by (rule field_width_le_8 [OF assms(1)])
  note width = atomic_fetch_width [OF n, of p f]
  note final = atomic_fetch.run_fetch_final [OF width, of m]
  have "fst (?run ?vs) = field_before f ?n (mload ?n m p) ?vs"
  proof (rule nth_equalityI)
    show "length (fst (?run ?vs)) = length (field_before f ?n (mload ?n m p) ?vs)"
      by (simp add: field_before_def atomic_fetch.run_fetch_length [OF width])
  next
    fix i
    assume "i < length (fst (?run ?vs))"
    then have i: "i < length ?vs" by (simp add: atomic_fetch.run_fetch_length [OF width])
    have "fst (?run ?vs) ! i = mload ?n (snd (?run (take i ?vs))) p"
      by (rule atomic_fetch.run_fetch_returns [OF width i])
    also have "\<dots> = take_bit (8 * ?n) (foldl (rmw_apply f) (mload ?n m p) (take i ?vs))"
      unfolding final using n by (simp add: mem_simps)
    finally show "fst (?run ?vs) ! i = field_before f ?n (mload ?n m p) ?vs ! i"
      using i by (simp add: field_before_def)
  qed
  then show ?thesis
    by (simp add: run_field_fetch_eq [OF assms] prod_eq_iff final)
qed

text \<open>
  C11. Read-modify-write operations of any number of threads on one field, at any of the four
  widths and for any of the five operations: whatever order the calls take effect in, none is
  lost. Two schedules of the same calls leave the same memory, the field then holds the fold
  of the operation over all operands truncated to the width, and no byte outside the field
  changes. In each schedule every call returns the value the field held before it: the fold
  over the operands of the calls that took effect earlier, truncated to the width.
\<close>

theorem field_fetch_any_order:
  assumes "field_width sz" and "\<forall>q \<in> set qs. disjoint_regions p (unat sz) q (unat sz)"
    and "mset qs = mset rs"
  shows "\<exists>m'.
    run_field_fetch f p sz order m qs =
      Inr (field_before f (unat sz) (mload (unat sz) m p) (map (mload (unat sz) m) qs), m') \<and>
    run_field_fetch f p sz order m rs =
      Inr (field_before f (unat sz) (mload (unat sz) m p) (map (mload (unat sz) m) rs), m') \<and>
    mload (unat sz) m' p = take_bit (8 * unat sz)
      (foldl (rmw_apply f) (mload (unat sz) m p) (map (mload (unat sz) m) qs)) \<and>
    (\<forall>a. \<not> in_region p (unat sz) a \<longrightarrow> m' a = m a)"
proof -
  let ?n = "unat sz" and ?v = "\<lambda>xs. foldl (rmw_apply f) (mload (unat sz) m p) (map (mload (unat sz) m) xs)"
  have n: "?n \<le> 8" by (rule field_width_le_8 [OF assms(1)])
  have "\<forall>q \<in> set rs. disjoint_regions p ?n q ?n"
    using assms(2) mset_eq_setD [OF assms(3)] by simp
  moreover have "?v rs = ?v qs"
    using assms(3) by (intro atomic_fetch.foldl_mset_eq [OF atomic_fetch_width [OF n, of p f]]) simp
  ultimately show ?thesis
    using run_field_fetch_final [OF assms(1,2), of f order m]
      run_field_fetch_final [OF assms(1), of rs p f order m] n
    by (simp add: mem_simps)
qed

definition demo_mem :: mem where
  "demo_mem = (\<lambda>_. 0)(0 := 250, 8 := 5, 16 := 7)"

theorem field_fetch_any_order_witness:
  "\<exists>m'. run_field_fetch FetchAdd 0 1 5 demo_mem [8, 16] = Inr ([250, 255], m') \<and>
    run_field_fetch FetchAdd 0 1 5 demo_mem [16, 8] = Inr ([250, 1], m') \<and>
    mload 1 m' 0 = 6"
proof -
  have "field_width 1" "\<forall>q \<in> set [8, 16]. disjoint_regions 0 (unat (1 :: u64)) q (unat (1 :: u64))"
    "mset [8, 16 :: addr] = mset [16, 8]"
    by (simp_all add: field_width_def disjoint_regions_def)
  from field_fetch_any_order [OF this, of FetchAdd 5 demo_mem] show ?thesis
    by (auto simp: field_before_def demo_mem_def take_bit_eq_mod upt_rec)
qed

text \<open>
  A field compare-and-exchange succeeds exactly when the field holds the expected value.
  On success the field holds the desired value and the expected operand is untouched. On
  failure the field is untouched and the expected operand receives the field's value, so a
  retry with nothing in between succeeds. Bytes outside the two regions never change.
\<close>

theorem field_compare_exchange_correct:
  assumes "field_width sz"
    and "disjoint_regions p (unat sz) e (unat sz)" and "disjoint_regions e (unat sz) d (unat sz)"
    and "cj_atomic_field_compare_exchange m p e d sz succ fail = Inr (r, m')"
  shows "r = (if mload (unat sz) m p = mload (unat sz) m e then 1 else 0) \<and>
    mload (unat sz) m' p = (if r = 1 then mload (unat sz) m d else mload (unat sz) m p) \<and>
    mload (unat sz) m' e = (if r = 1 then mload (unat sz) m e else mload (unat sz) m p) \<and>
    (r = 0 \<longrightarrow> (\<exists>m''. cj_atomic_field_compare_exchange m' p e d sz succ fail = Inr (1, m'') \<and>
      mload (unat sz) m'' p = mload (unat sz) m d)) \<and>
    (\<forall>a. \<not> in_region p (unat sz) a \<longrightarrow> \<not> in_region e (unat sz) a \<longrightarrow> m' a = m a)"
proof -
  let ?n = "unat sz"
  have n: "?n \<le> 8" by (rule field_width_le_8 [OF assms(1)])
  note d = assms(2) disjoint_regions_sym [OF assms(2)] assms(3)
  note s = cj_atomic_field_compare_exchange_def field_switch_valid [OF assms(1)]
    atomic_compare_exchange_n_def Let_def
  have r: "(r, m') = (if mload ?n m p = mload ?n m e then (1, mstore ?n m p (mload ?n m d))
      else (0, mstore ?n m e (mload ?n m p)))"
    using assms(4) by (simp add: s split: if_splits)
  then have "r = 0 \<Longrightarrow> \<exists>m''. cj_atomic_field_compare_exchange m' p e d sz succ fail = Inr (1, m'') \<and>
      mload ?n m'' p = mload ?n m d"
    using n d by (auto simp: s mem_simps split: if_splits)
  with r n d show ?thesis by (auto simp: mem_simps split: if_splits)
qed

theorem field_compare_exchange_correct_witness:
  "cj_atomic_field_compare_exchange demo_mem 0 8 16 1 5 5 = Inr (0, demo_mem(8 := 250)) \<and>
   mload 1 (demo_mem(8 := 250)) 8 = 250 \<and>
   (\<exists>m''. cj_atomic_field_compare_exchange (demo_mem(8 := 250)) 0 8 16 1 5 5 = Inr (1, m'') \<and>
      mload 1 m'' 0 = 7)"
proof -
  have c: "cj_atomic_field_compare_exchange demo_mem 0 8 16 1 5 5 = Inr (0, demo_mem(8 := 250))"
    by (simp add: cj_atomic_field_compare_exchange_def field_switch_def
        atomic_compare_exchange_n_def demo_mem_def)
  have w: "field_width 1" "disjoint_regions 0 (unat (1::u64)) 8 (unat (1::u64))"
    "disjoint_regions 8 (unat (1::u64)) 16 (unat (1::u64))"
    by (simp_all add: field_width_def disjoint_regions_def)
  show ?thesis
    using c field_compare_exchange_correct [OF w c]
    by (simp add: demo_mem_def)
qed

text \<open>
  Every field operation traps exactly when the size is none of 1, 2, 4 and 8, and returns
  a value for each of these.
\<close>

theorem field_ops_trap_iff:
  "(cj_atomic_field_load m p sz order = Inl Trap \<longleftrightarrow> \<not> field_width sz) \<and>
   (cj_atomic_field_store m p q sz order = Inl Trap \<longleftrightarrow> \<not> field_width sz) \<and>
   (cj_atomic_field_exchange m p q sz order = Inl Trap \<longleftrightarrow> \<not> field_width sz) \<and>
   (cj_atomic_field_compare_exchange m p e q sz order order' = Inl Trap \<longleftrightarrow> \<not> field_width sz) \<and>
   (cj_atomic_field_fetch f m p q sz order = Inl Trap \<longleftrightarrow> \<not> field_width sz)"
  by (simp add: cj_atomic_field_load_def cj_atomic_field_store_def cj_atomic_field_exchange_def
      cj_atomic_field_compare_exchange_def cj_atomic_field_fetch_def field_switch_Trap_iff)

end
