(* ===== verification/SignalStack.thy ===== *)
theory SignalStack
  imports Prelude
begin

text \<open>
  The signal chain of \<^verbatim>\<open>rt0/signal/SignalStack.{h,cpp}\<close>: one \<open>SignalStack\<close> per signal
  with the user's action, the runtime's handler list and the mark; the dispatcher
  \<open>Handler\<close>/\<open>HandlerImpl\<close>; and the interposed libc entry points \<open>sigaction\<close>, \<open>signal\<close> and
  \<open>sigprocmask\<close>. The real libc functions found by \<open>dlsym\<close> are the parameter \<open>libc\<close>, as
  \<open>SigactionImpl\<close> and \<open>SigProcMask\<close> take them; user handlers and \<open>RunCJTaskSignal\<close> are
  parameters too. Constants are those of x86_64 Linux.
\<close>

section \<open>Signal sets\<close>

text \<open>
  \<open>sigset_t\<close> is an array of \<open>unsigned long\<close>; signal \<open>s\<close> is bit \<open>(s - 1) mod 64\<close> of word
  \<open>(s - 1) div 64\<close>. \<open>SIGSET_SIZE = _NSIG / 8 / sizeof(long)\<close>.
\<close>

type_synonym sigset = "u64 list"

definition NSIG :: nat where "NSIG = 65"

definition SIGSET_SIZE :: nat where "SIGSET_SIZE = NSIG div 8 div 8"

definition sigismember :: "sigset \<Rightarrow> nat \<Rightarrow> bool" where
  "sigismember s sig = bit (s ! ((sig - 1) div 64)) ((sig - 1) mod 64)"

definition sigaddset :: "sigset \<Rightarrow> nat \<Rightarrow> sigset" where
  "sigaddset s sig = s[(sig - 1) div 64 := set_bit ((sig - 1) mod 64) (s ! ((sig - 1) div 64))]"

definition sigdelset :: "sigset \<Rightarrow> nat \<Rightarrow> sigset" where
  "sigdelset s sig = s[(sig - 1) div 64 := unset_bit ((sig - 1) mod 64) (s ! ((sig - 1) div 64))]"

text \<open>\<open>SigOrSet\<close> writes the first \<open>SIGSET_SIZE\<close> words of the destination only.\<close>

fun or_words :: "nat \<Rightarrow> sigset \<Rightarrow> sigset \<Rightarrow> sigset \<Rightarrow> sigset" where
  "or_words 0 dst l r = dst"
| "or_words (Suc i) dst l r = (or_words i dst l r)[i := l ! i OR r ! i]"

definition SigOrSet :: "sigset option \<Rightarrow> sigset option \<Rightarrow> sigset option \<Rightarrow> sigset option" where
  "SigOrSet dest left right =
     (case (dest, left, right) of
        (Some d, Some l, Some r) \<Rightarrow> Some (or_words SIGSET_SIZE d l r)
      | _ \<Rightarrow> dest)"

section \<open>State\<close>

text \<open>
  \<open>struct sigaction\<close>: \<open>sa_handler\<close> and \<open>sa_sigaction\<close> share storage, so one address stands
  for both. \<open>SignalAction\<close> is the runtime's handler record, with the fields the code reads.
\<close>

record sigaction_t =
  sa_handler :: addr
  sa_flags :: u32
  sa_mask :: sigset

record signal_action =
  saSignalAction :: addr
  scMask :: sigset
  scFlags :: u64

record signal_stack =
  sigAction :: sigaction_t
  isMark :: bool
  isUserSigHandler :: bool
  handlerStack :: "signal_action list"

text \<open>
  The linked libc functions over the state \<open>'k\<close> of the process in the kernel: the result,
  the old value and the new state. \<open>None\<close> is a null pointer for the new value.
\<close>

record 'k libc =
  lk_sigaction :: "nat \<Rightarrow> sigaction_t option \<Rightarrow> 'k \<Rightarrow> int \<times> sigaction_t \<times> 'k"
  lk_procmask :: "int \<Rightarrow> sigset option \<Rightarrow> 'k \<Rightarrow> int \<times> sigset \<times> 'k"

text \<open>
  The static table \<open>stacks\<close>, the thread-specific "handling a signal" flag of the current
  thread, \<open>errno\<close>, and the kernel's state.
\<close>

record 'k sig_world =
  stacks :: "nat \<Rightarrow> signal_stack"
  handling :: bool
  errno :: int
  kst :: 'k

definition SIG_DFL :: addr where "SIG_DFL = 0"
definition SIG_IGN :: addr where "SIG_IGN = 1"
definition SIG_ERR :: addr where "SIG_ERR = - 1"
definition SA_SIGINFO :: u32 where "SA_SIGINFO = 4"
definition SA_ONSTACK :: u32 where "SA_ONSTACK = 0x08000000"
definition SA_RESTART :: u32 where "SA_RESTART = 0x10000000"
definition SA_NODEFER :: u32 where "SA_NODEFER = 0x40000000"
definition EINVAL :: int where "EINVAL = 22"
definition SIG_BLOCK :: int where "SIG_BLOCK = 0"
definition SIG_UNBLOCK :: int where "SIG_UNBLOCK = 1"
definition SIG_SETMASK :: int where "SIG_SETMASK = 2"

lemmas signal_consts = SIG_DFL_def SIG_IGN_def SIG_ERR_def SA_SIGINFO_def SA_ONSTACK_def
  SA_RESTART_def SA_NODEFER_def EINVAL_def SIG_BLOCK_def SIG_UNBLOCK_def SIG_SETMASK_def

definition upd_stack :: "nat \<Rightarrow> (signal_stack \<Rightarrow> signal_stack) \<Rightarrow> 'k sig_world \<Rightarrow> 'k sig_world" where
  "upd_stack sig f w = w\<lparr>stacks := (stacks w)(sig := f (stacks w sig))\<rparr>"

section \<open>The per-signal stack\<close>

text \<open>\<open>AddHandler\<close> and \<open>RemoveHandler\<close>: push at the end, erase the first match.\<close>

definition AddHandler :: "nat \<Rightarrow> signal_action \<Rightarrow> 'k sig_world \<Rightarrow> 'k sig_world" where
  "AddHandler sig sa = upd_stack sig (\<lambda>s. s\<lparr>handlerStack := handlerStack s @ [sa]\<rparr>)"

fun erase_first :: "addr \<Rightarrow> signal_action list \<Rightarrow> signal_action list" where
  "erase_first fn [] = []"
| "erase_first fn (h # hs) = (if saSignalAction h = fn then hs else h # erase_first fn hs)"

definition RemoveHandler :: "nat \<Rightarrow> addr \<Rightarrow> 'k sig_world \<Rightarrow> 'k sig_world" where
  "RemoveHandler sig fn = upd_stack sig (\<lambda>s. s\<lparr>handlerStack := erase_first fn (handlerStack s)\<rparr>)"

definition IsMarked :: "nat \<Rightarrow> 'k sig_world \<Rightarrow> bool" where
  "IsMarked sig w = isMark (stacks w sig)"

definition IsUserSigHandler :: "nat \<Rightarrow> 'k sig_world \<Rightarrow> bool" where
  "IsUserSigHandler sig w = isUserSigHandler (stacks w sig)"

definition SetUserSigHandler :: "nat \<Rightarrow> bool \<Rightarrow> 'k sig_world \<Rightarrow> 'k sig_world" where
  "SetUserSigHandler sig flag = upd_stack sig (\<lambda>s. s\<lparr>isUserSigHandler := flag\<rparr>)"

definition GetAction :: "nat \<Rightarrow> 'k sig_world \<Rightarrow> sigaction_t" where
  "GetAction sig w = sigAction (stacks w sig)"

definition SetAction :: "nat \<Rightarrow> sigaction_t \<Rightarrow> 'k sig_world \<Rightarrow> 'k sig_world" where
  "SetAction sig a = upd_stack sig (\<lambda>s. s\<lparr>sigAction := a\<rparr>)"

text \<open>
  \<open>Register\<close> installs \<open>SignalStack::Handler\<close> (at address \<open>hnd\<close>, with the full mask) and
  keeps the previous disposition as the user's action; its second call only queries.
  A failed call leaves \<open>sigAction\<close> as it was.
\<close>

definition Register :: "'k libc \<Rightarrow> addr \<Rightarrow> sigset \<Rightarrow> nat \<Rightarrow> 'k sig_world \<Rightarrow> 'k sig_world" where
  "Register L hnd full sig w =
     (let a = \<lparr>sa_handler = hnd, sa_flags = SA_RESTART OR SA_SIGINFO OR SA_ONSTACK, sa_mask = full\<rparr>;
          (r, old, k1) = lk_sigaction L sig (Some a) (kst w);
          (r', cur, k2) = lk_sigaction L sig None k1
      in (if r = 0 then SetAction sig old w else w)\<lparr>kst := k2\<rparr>)"

definition MarkSig :: "'k libc \<Rightarrow> addr \<Rightarrow> sigset \<Rightarrow> nat \<Rightarrow> 'k sig_world \<Rightarrow> 'k sig_world" where
  "MarkSig L hnd full sig w =
     (if IsMarked sig w then w
      else upd_stack sig (\<lambda>s. s\<lparr>isMark := True\<rparr>) (Register L hnd full sig w))"

section \<open>Dispatch\<close>

text \<open>
  \<open>SignalArgs\<close>: the signal, whether it is handled asynchronously, and the signal mask of
  the interrupted context (\<open>uc_sigmask\<close>); \<open>siginfo\<close> and the rest of the context are only
  passed on. The code of handlers is not part of the program: \<open>run a sig w\<close> is what the
  function at address \<open>a\<close> does, its boolean result and the world it leaves.
\<close>

record signal_args =
  sg_signal :: nat
  sg_isAsync :: bool
  sg_ucmask :: sigset

type_synonym 'k runner = "addr \<Rightarrow> nat \<Rightarrow> 'k sig_world \<Rightarrow> bool \<times> 'k sig_world"

text \<open>What a dispatch does, in order, besides changing the world.\<close>

datatype sig_event =
    RunChain addr bool          \<comment> \<open>a chain handler, and the flag while it runs\<close>
  | RunSigaction addr           \<comment> \<open>the user's \<open>sa_sigaction\<close>\<close>
  | RunHandler addr             \<comment> \<open>the user's \<open>sa_handler\<close>\<close>
  | ResetDefault nat            \<comment> \<open>\<open>SIG_DFL\<close> installed through the linked \<open>sigaction\<close>\<close>
  | RaiseSignal nat
  | FreeArgs                    \<comment> \<open>\<open>delete signalArgs\<close>\<close>

text \<open>
  The loop of \<open>HandlerImpl\<close> over the handler list, newest first; it starts on the reversed
  list and stops at a null function. The result says whether a handler took the signal. The list
  is the one found at the start: a handler that adds or removes handlers of the signal while the loop
  runs would invalidate the iterators of the code, and is left out.
\<close>

fun handler_loop ::
  "'k libc \<Rightarrow> 'k runner \<Rightarrow> signal_args \<Rightarrow> signal_action list \<Rightarrow> 'k sig_world
     \<Rightarrow> bool \<times> sig_event list \<times> 'k sig_world" where
  "handler_loop L run args [] w = (False, [], w)"
| "handler_loop L run args (h # hs) w =
     (if saSignalAction h = 0 then (False, [], w)
      else
        let (r1, previous_mask, k1) = lk_procmask L SIG_SETMASK (Some (scMask h)) (kst w);
            w1 = w\<lparr>kst := k1\<rparr>;
            previous_value = handling w1;
            w2 = (if sg_isAsync args then w1 else w1\<lparr>handling := True\<rparr>);
            (taken, w3) = run (saSignalAction h) (sg_signal args) w2;
            ev = RunChain (saSignalAction h) (handling w2)
        in if taken then (True, [ev], w3\<lparr>handling := previous_value\<rparr>)
           else
             let (r2, cur, k4) = lk_procmask L SIG_SETMASK (Some previous_mask) (kst w3);
                 (t, evs, w') = handler_loop L run args hs (w3\<lparr>kst := k4, handling := previous_value\<rparr>)
             in (t, ev # evs, w'))"

text \<open>
  The part of \<open>HandlerImpl\<close> after the loop: the user's action. \<open>junk\<close> is the indeterminate
  initial contents of the local \<open>sigset_t mask\<close>; \<open>apple\<close> selects the \<open>__APPLE__\<close> check.
\<close>

definition default_action ::
  "bool \<Rightarrow> 'k libc \<Rightarrow> 'k runner \<Rightarrow> sigset \<Rightarrow> signal_args \<Rightarrow> 'k sig_world
     \<Rightarrow> (sig_event list \<times> 'k sig_world) res" where
  "default_action apple L run junk args w =
     (let sig = sg_signal args;
          act = sigAction (stacks w sig);
          m0 = the (SigOrSet (Some junk) (Some (sg_ucmask args)) (Some (sa_mask act)));
          mask = (if sa_flags act AND SA_NODEFER = 0 then sigaddset m0 sig else m0);
          setmask = (\<lambda>w. w\<lparr>kst := snd (snd (lk_procmask L SIG_SETMASK (Some mask) (kst w)))\<rparr>)
      in if sa_flags act AND SA_SIGINFO \<noteq> 0 then
           if apple \<and> sa_handler act = 0 then Inl (ExitProcess (int sig + 128))
           else Inr ([RunSigaction (sa_handler act), FreeArgs],
                     snd (run (sa_handler act) sig (setmask w)))
         else if sa_handler act = SIG_IGN then Inr ([FreeArgs], w)
         else if sa_handler act = SIG_DFL then
           let dfl = \<lparr>sa_handler = SIG_DFL, sa_flags = 0, sa_mask = replicate 16 0\<rparr>
           in Inr ([ResetDefault sig, RaiseSignal sig, FreeArgs],
                   w\<lparr>kst := snd (snd (lk_sigaction L sig (Some dfl) (kst w)))\<rparr>)
         else Inr ([RunHandler (sa_handler act), FreeArgs],
                   snd (run (sa_handler act) sig (setmask w))))"

definition HandlerImpl ::
  "bool \<Rightarrow> 'k libc \<Rightarrow> 'k runner \<Rightarrow> sigset \<Rightarrow> signal_args \<Rightarrow> 'k sig_world
     \<Rightarrow> (sig_event list \<times> 'k sig_world) res" where
  "HandlerImpl apple L run junk args w =
     (let (taken, evs, w1) =
        (if handling w then (False, [], w)
         else handler_loop L run args (rev (handlerStack (stacks w (sg_signal args)))) w)
      in if taken then Inr (evs @ [FreeArgs], w1)
         else and_then (default_action apple L run junk args w1)
                (\<lambda>(evs', w2). Inr (evs @ evs', w2)))"

definition SIGILL :: nat where "SIGILL = 4"
definition SIGABRT :: nat where "SIGABRT = 6"
definition SIGBUS :: nat where "SIGBUS = 7"
definition SIGFPE :: nat where "SIGFPE = 8"
definition SIGSEGV :: nat where "SIGSEGV = 11"

text \<open>
  \<open>Handler\<close> runs \<open>HandlerImpl\<close> on the spot or queues it as a Cangjie task; \<open>spawn\<close> says
  whether \<open>RunCJTaskSignal\<close> accepts the task.
\<close>

datatype 'k dispatch =
    Ran "(sig_event list \<times> 'k sig_world) res"
  | Queued signal_args
  | Dropped signal_args "sig_event list"

definition queue_task :: "(signal_args \<Rightarrow> bool) \<Rightarrow> signal_args \<Rightarrow> 'k dispatch" where
  "queue_task spawn args =
     (let a = args\<lparr>sg_isAsync := True\<rparr> in if spawn a then Queued a else Dropped a [FreeArgs])"

definition Handler ::
  "bool \<Rightarrow> 'k libc \<Rightarrow> 'k runner \<Rightarrow> sigset \<Rightarrow> (signal_args \<Rightarrow> bool) \<Rightarrow> nat \<Rightarrow> sigset \<Rightarrow> 'k sig_world
     \<Rightarrow> 'k dispatch" where
  "Handler apple L run junk spawn sig ucmask w =
     (let args = \<lparr>sg_signal = sig, sg_isAsync = False, sg_ucmask = ucmask\<rparr>
      in if sig = SIGSEGV \<or> sig = SIGBUS \<or> sig = SIGFPE then Ran (HandlerImpl apple L run junk args w)
         else if sig = SIGABRT \<or> sig = SIGILL then
           if \<not> IsUserSigHandler sig w then Ran (HandlerImpl apple L run junk args w)
           else queue_task spawn args
         else queue_task spawn args)"

section \<open>The interposed libc functions\<close>

text \<open>
  \<open>SigactionImpl\<close>. The second component is what is written through \<open>oldAction\<close>, when that
  is not null (\<open>want_old\<close>) and the call writes it.
\<close>

definition SigactionImpl ::
  "int \<Rightarrow> sigaction_t option \<Rightarrow> bool
     \<Rightarrow> (nat \<Rightarrow> sigaction_t option \<Rightarrow> 'k \<Rightarrow> int \<times> sigaction_t \<times> 'k)
     \<Rightarrow> 'k sig_world \<Rightarrow> int \<times> sigaction_t option \<times> 'k sig_world" where
  "SigactionImpl sig newAction want_old linked w =
     (if sig \<le> 0 \<or> sig \<ge> int NSIG then (-1, None, w\<lparr>errno := EINVAL\<rparr>)
      else if IsMarked (nat sig) w then
        let tmpAction = GetAction (nat sig) w;
            w1 = (case newAction of None \<Rightarrow> w | Some a \<Rightarrow> SetAction (nat sig) a w)
        in (0, if want_old then Some tmpAction else None, w1)
      else
        let (r, old, k1) = linked (nat sig) newAction (kst w)
        in (r, if want_old \<and> r = 0 then Some old else None, w\<lparr>kst := k1\<rparr>))"

definition sigaction ::
  "'k libc \<Rightarrow> int \<Rightarrow> sigaction_t option \<Rightarrow> bool \<Rightarrow> 'k sig_world
     \<Rightarrow> int \<times> sigaction_t option \<times> 'k sig_world" where
  "sigaction L sig newAction want_old w = SigactionImpl sig newAction want_old (lk_sigaction L) w"

definition signal :: "'k libc \<Rightarrow> int \<Rightarrow> addr \<Rightarrow> 'k sig_world \<Rightarrow> addr \<times> 'k sig_world" where
  "signal L sig handler w =
     (if sig \<le> 0 \<or> sig \<ge> int NSIG then (SIG_ERR, w\<lparr>errno := EINVAL\<rparr>)
      else
        let sa = \<lparr>sa_handler = handler, sa_flags = SA_RESTART OR SA_ONSTACK, sa_mask = replicate 16 0\<rparr>
        in if IsMarked (nat sig) w then
             (sa_handler (GetAction (nat sig) w), SetAction (nat sig) sa w)
           else
             let (r, old, k1) = lk_sigaction L (nat sig) (Some sa) (kst w)
             in if r = -1 then (SIG_ERR, w\<lparr>kst := k1\<rparr>) else (sa_handler old, w\<lparr>kst := k1\<rparr>))"

text \<open>\<open>AdjustSignalMask\<close>: the loop from 1 to \<open>_NSIG - 1\<close>.\<close>

definition adjust_step :: "'k sig_world \<Rightarrow> nat \<Rightarrow> sigset \<Rightarrow> sigset" where
  "adjust_step w i ss = (if IsMarked i w \<and> sigismember ss i then sigdelset ss i else ss)"

definition AdjustSignalMask :: "'k sig_world \<Rightarrow> sigset \<Rightarrow> sigset" where
  "AdjustSignalMask w ss = fold (adjust_step w) [1..<NSIG] ss"

text \<open>
  \<open>SigProcMask\<close>. The second component is the caller's \<open>newSet\<close> after the call: the code
  casts its \<open>const\<close> away and writes the adjusted set back into it.
\<close>

definition SigProcMask ::
  "int \<Rightarrow> sigset option \<Rightarrow> (int \<Rightarrow> sigset option \<Rightarrow> 'k \<Rightarrow> int \<times> sigset \<times> 'k)
     \<Rightarrow> 'k sig_world \<Rightarrow> int \<times> sigset option \<times> sigset \<times> 'k sig_world" where
  "SigProcMask how newSet linked w =
     (let call = (\<lambda>s. let (r, old, k1) = linked how s (kst w) in (r, s, old, w\<lparr>kst := k1\<rparr>))
      in if handling w then call newSet
         else (case newSet of
             None \<Rightarrow> call newSet
           | Some tmpset \<Rightarrow>
               call (Some (if how = SIG_BLOCK \<or> how = SIG_SETMASK
                           then AdjustSignalMask w tmpset else tmpset))))"

definition sigprocmask ::
  "'k libc \<Rightarrow> int \<Rightarrow> sigset option \<Rightarrow> 'k sig_world \<Rightarrow> int \<times> sigset option \<times> sigset \<times> 'k sig_world" where
  "sigprocmask L how newSet w = SigProcMask how newSet (lk_procmask L) w"

section \<open>Lemmas on signal sets and the mask adjustment\<close>

lemma NSIG_65 [simp]: "NSIG = 65"
  by (simp add: NSIG_def)

lemma sigismember_sigdelset:
  assumes "s \<noteq> []" and "0 < i" "i \<le> 64" "0 < j" "j \<le> 64"
  shows "sigismember (sigdelset s i) j \<longleftrightarrow> i \<noteq> j \<and> sigismember s j"
proof -
  from assms have "(i - 1) div 64 = 0" "(j - 1) div 64 = 0" "(i - 1) mod 64 = i - 1" "(j - 1) mod 64 = j - 1"
    by simp_all
  with assms show ?thesis
    by (cases s) (auto simp: sigismember_def sigdelset_def bit_unset_bit_iff)
qed

lemma sigismember_sigaddset:
  assumes "s \<noteq> []" and "0 < i" "i \<le> 64" "0 < j" "j \<le> 64"
  shows "sigismember (sigaddset s i) j \<longleftrightarrow> i = j \<or> sigismember s j"
proof -
  from assms have "(i - 1) div 64 = 0" "(j - 1) div 64 = 0" "(i - 1) mod 64 = i - 1" "(j - 1) mod 64 = j - 1"
    by simp_all
  with assms show ?thesis
    by (cases s) (auto simp: sigismember_def sigaddset_def bit_set_bit_iff)
qed

lemma adjust_step_nonempty: "s \<noteq> [] \<Longrightarrow> adjust_step w i s \<noteq> []"
  by (simp add: adjust_step_def sigdelset_def)

lemma fold_adjust_member:
  assumes "s \<noteq> []" and "\<forall>i \<in> set is. 0 < i \<and> i \<le> 64" and "0 < j" "j \<le> 64"
  shows "sigismember (fold (adjust_step w) is s) j \<longleftrightarrow>
    sigismember s j \<and> \<not> (j \<in> set is \<and> IsMarked j w)"
  using assms(1,2)
proof (induction "is" arbitrary: s)
  case Nil
  then show ?case by simp
next
  case (Cons i "is")
  have "sigismember (adjust_step w i s) j \<longleftrightarrow> sigismember s j \<and> \<not> (j = i \<and> IsMarked j w)"
    using Cons.prems assms(3,4) by (auto simp: adjust_step_def sigismember_sigdelset)
  with Cons.IH [of "adjust_step w i s"] Cons.prems adjust_step_nonempty [of s w i]
  show ?case by auto
qed

lemma AdjustSignalMask_member:
  assumes "s \<noteq> []" and "0 < j" "j \<le> 64"
  shows "sigismember (AdjustSignalMask w s) j \<longleftrightarrow> sigismember s j \<and> \<not> IsMarked j w"
  using assms by (subst AdjustSignalMask_def, subst fold_adjust_member) auto

text \<open>
  C12. What \<open>sigprocmask\<close> hands to the linked function. While the thread is not handling a
  signal, a call with \<open>SIG_BLOCK\<close> or \<open>SIG_SETMASK\<close> passes on the caller's set without the
  marked signals and with every other signal kept, so it never blocks a signal the runtime
  manages; a call with \<open>SIG_UNBLOCK\<close>, and every call made while the thread is handling a
  signal, passes on the caller's set itself, marked signals included. The world changes only by
  the effect of that one linked call.
\<close>

theorem sigprocmask_filters_marked:
  assumes "s \<noteq> []"
  shows "\<exists>s' r old k'.
    sigprocmask L how (Some s) w = (r, Some s', old, w\<lparr>kst := k'\<rparr>) \<and>
    lk_procmask L how (Some s') (kst w) = (r, old, k') \<and>
    (\<forall>j. 0 < j \<and> j \<le> 64 \<longrightarrow> (sigismember s' j \<longleftrightarrow>
       sigismember s j \<and> \<not> (\<not> handling w \<and> (how = SIG_BLOCK \<or> how = SIG_SETMASK) \<and> IsMarked j w)))"
proof -
  let ?s' = "if \<not> handling w \<and> (how = SIG_BLOCK \<or> how = SIG_SETMASK) then AdjustSignalMask w s else s"
  obtain r old k' where l: "lk_procmask L how (Some ?s') (kst w) = (r, old, k')"
    by (cases "lk_procmask L how (Some ?s') (kst w)") auto
  then have "sigprocmask L how (Some s) w = (r, Some ?s', old, w\<lparr>kst := k'\<rparr>)"
    by (auto simp: sigprocmask_def SigProcMask_def Let_def split: if_splits)
  with l assms show ?thesis
    by (intro exI [of _ ?s'] exI [of _ r] exI [of _ old] exI [of _ k'])
      (auto simp: AdjustSignalMask_member)
qed

section \<open>Lemmas on the dispatch\<close>

fun chain_calls :: "sig_event list \<Rightarrow> addr list" where
  "chain_calls [] = []"
| "chain_calls (RunChain a f # evs) = a # chain_calls evs"
| "chain_calls (e # evs) = chain_calls evs"

lemma chain_calls_append [simp]: "chain_calls (xs @ ys) = chain_calls xs @ chain_calls ys"
  by (induction xs rule: chain_calls.induct) simp_all

text \<open>
  What the chain promises, without the loop: the world in which a handler is entered from the
  world before it, with the handler's mask and the flag set; the world it leaves when it does
  not take the signal, with mask and flag put back; and the world before the \<open>i\<close>-th handler,
  when none before it took the signal.
\<close>

definition entered :: "'k libc \<Rightarrow> signal_args \<Rightarrow> signal_action \<Rightarrow> 'k sig_world \<Rightarrow> 'k sig_world" where
  "entered L args h w =
     w\<lparr>kst := snd (snd (lk_procmask L SIG_SETMASK (Some (scMask h)) (kst w))),
       handling := (\<not> sg_isAsync args \<or> handling w)\<rparr>"

definition answers :: "'k libc \<Rightarrow> 'k runner \<Rightarrow> signal_args \<Rightarrow> signal_action \<Rightarrow> 'k sig_world \<Rightarrow> bool" where
  "answers L run args h w = fst (run (saSignalAction h) (sg_signal args) (entered L args h w))"

definition left_by :: "'k libc \<Rightarrow> 'k runner \<Rightarrow> signal_args \<Rightarrow> signal_action \<Rightarrow> 'k sig_world \<Rightarrow> 'k sig_world" where
  "left_by L run args h w =
     (snd (run (saSignalAction h) (sg_signal args) (entered L args h w)))\<lparr>handling := handling w\<rparr>"

definition refused :: "'k libc \<Rightarrow> 'k runner \<Rightarrow> signal_args \<Rightarrow> signal_action \<Rightarrow> 'k sig_world \<Rightarrow> 'k sig_world" where
  "refused L run args h w =
     (let previous = fst (snd (lk_procmask L SIG_SETMASK (Some (scMask h)) (kst w)));
          w1 = snd (run (saSignalAction h) (sg_signal args) (entered L args h w))
      in w1\<lparr>kst := snd (snd (lk_procmask L SIG_SETMASK (Some previous) (kst w1))), handling := handling w\<rparr>)"

definition world_before ::
  "'k libc \<Rightarrow> 'k runner \<Rightarrow> signal_args \<Rightarrow> signal_action list \<Rightarrow> 'k sig_world \<Rightarrow> nat \<Rightarrow> 'k sig_world" where
  "world_before L run args hs w i = fold (refused L run args) (take i hs) w"

definition live_handlers :: "signal_action list \<Rightarrow> signal_action list" where
  "live_handlers = takeWhile (\<lambda>h. saSignalAction h \<noteq> 0)"

lemma world_before_simps [simp]:
  "world_before L run args hs w 0 = w"
  "world_before L run args (h # hs) w (Suc i) = world_before L run args hs (refused L run args h w) i"
  by (simp_all add: world_before_def)

lemma live_handlers_simps [simp]:
  "live_handlers [] = []"
  "live_handlers (h # hs) = (if saSignalAction h = 0 then [] else h # live_handlers hs)"
  by (simp_all add: live_handlers_def)

lemma refused_handling [simp]: "handling (refused L run args h w) = handling w"
  by (simp add: refused_def Let_def)

lemma handler_loop_step:
  "handler_loop L run args (h # hs) w =
    (if saSignalAction h = 0 then (False, [], w)
     else if answers L run args h w then
       (True, [RunChain (saSignalAction h) (\<not> sg_isAsync args \<or> handling w)], left_by L run args h w)
     else let (t, evs, w') = handler_loop L run args hs (refused L run args h w)
       in (t, RunChain (saSignalAction h) (\<not> sg_isAsync args \<or> handling w) # evs, w'))"
proof -
  have "w\<lparr>kst := k, handling := handling w\<rparr> = w\<lparr>kst := k\<rparr>" for k
    by (cases w) simp
  then show ?thesis
    by (cases "sg_isAsync args") (simp_all add: answers_def left_by_def refused_def entered_def Let_def case_prod_beta)
qed

lemma handler_loop_order:
  assumes "handler_loop L run args hs w = (t, evs, w')"
  defines "gs \<equiv> live_handlers hs" and "before \<equiv> world_before L run args (live_handlers hs) w"
    and "call \<equiv> (\<lambda>h. RunChain (saSignalAction h) (\<not> sg_isAsync args \<or> handling w))"
  shows "if t then \<exists>n < length gs. (\<forall>i < n. \<not> answers L run args (gs ! i) (before i)) \<and>
      answers L run args (gs ! n) (before n) \<and> evs = map call (take (Suc n) gs) \<and>
      w' = left_by L run args (gs ! n) (before n)
    else (\<forall>i < length gs. \<not> answers L run args (gs ! i) (before i)) \<and> evs = map call gs \<and>
      w' = before (length gs)"
  using assms(1) unfolding gs_def before_def call_def
proof (induction hs arbitrary: w t evs w')
  case Nil
  then show ?case by simp
next
  case (Cons h hs)
  show ?case
  proof (cases "saSignalAction h = 0 \<or> answers L run args h w")
    case True
    with Cons.prems show ?thesis
      by (auto simp: handler_loop_step simp del: handler_loop.simps intro!: exI [of _ 0] split: if_splits)
  next
    case False
    let ?w = "refused L run args h w"
    from False Cons.prems obtain evs1 where r: "handler_loop L run args hs ?w = (t, evs1, w')"
      and evs: "evs = RunChain (saSignalAction h) (\<not> sg_isAsync args \<or> handling w) # evs1"
      by (auto simp: handler_loop_step simp del: handler_loop.simps split: prod.splits)
    show ?thesis
    proof (cases t)
      case True
      with Cons.IH [OF r] obtain n where "n < length (live_handlers hs)"
        "\<forall>i<n. \<not> answers L run args (live_handlers hs ! i) (world_before L run args (live_handlers hs) ?w i)"
        "answers L run args (live_handlers hs ! n) (world_before L run args (live_handlers hs) ?w n)"
        "evs1 = map (\<lambda>h. RunChain (saSignalAction h) (\<not> sg_isAsync args \<or> handling w)) (take (Suc n) (live_handlers hs))"
        "w' = left_by L run args (live_handlers hs ! n) (world_before L run args (live_handlers hs) ?w n)"
        by auto
      moreover from this(2) False have "\<forall>i < Suc n. \<not> answers L run args ((h # live_handlers hs) ! i)
          (world_before L run args (h # live_handlers hs) w i)"
        by (auto simp: less_Suc_eq_0_disj)
      ultimately have "\<exists>k < length (live_handlers (h # hs)).
          (\<forall>i<k. \<not> answers L run args (live_handlers (h # hs) ! i) (world_before L run args (live_handlers (h # hs)) w i)) \<and>
          answers L run args (live_handlers (h # hs) ! k) (world_before L run args (live_handlers (h # hs)) w k) \<and>
          evs = map (\<lambda>h. RunChain (saSignalAction h) (\<not> sg_isAsync args \<or> handling w)) (take (Suc k) (live_handlers (h # hs))) \<and>
          w' = left_by L run args (live_handlers (h # hs) ! k) (world_before L run args (live_handlers (h # hs)) w k)"
        using False evs by (intro exI [of _ "Suc n"]) simp
      with True show ?thesis by simp
    next
      case no: False
      with Cons.IH [OF r] False evs show ?thesis by (auto simp: less_Suc_eq_0_disj)
    qed
  qed
qed

lemma handler_loop_flag:
  "handling (snd (snd (handler_loop L run args hs w))) = handling w"
  by (induction hs arbitrary: w) (simp_all add: Let_def case_prod_beta)

lemma handler_loop_events:
  "e \<in> set (fst (snd (handler_loop L run args hs w))) \<Longrightarrow>
    \<exists>a. e = RunChain a (\<not> sg_isAsync args \<or> handling w)"
proof (induction hs arbitrary: w)
  case Nil
  then show ?case by simp
next
  case (Cons h hs)
  from Cons.prems show ?case
    by (auto simp: Let_def case_prod_beta split: if_splits dest: Cons.IH)
qed

lemma handler_loop_no_free: "FreeArgs \<notin> set (fst (snd (handler_loop L run args hs w)))"
  by (auto dest: handler_loop_events)

lemma default_action_events:
  "default_action apple L run junk args w = Inr (evs, w') \<Longrightarrow>
    chain_calls evs = [] \<and> filter (\<lambda>e. e = FreeArgs) evs = [FreeArgs] \<and> evs \<noteq> [] \<and> last evs = FreeArgs"
  by (auto simp: default_action_def Let_def split: if_splits)

lemma HandlerImpl_cases:
  assumes "HandlerImpl apple L run junk args w = Inr (evs, w')"
  obtains
    (taken) evs1 where "\<not> handling w"
      "handler_loop L run args (rev (handlerStack (stacks w (sg_signal args)))) w = (True, evs1, w')"
      "evs = evs1 @ [FreeArgs]"
  | (user) evs1 w1 evs2 where
      "(if handling w then (False, [], w)
        else handler_loop L run args (rev (handlerStack (stacks w (sg_signal args)))) w) = (False, evs1, w1)"
      "default_action apple L run junk args w1 = Inr (evs2, w')"
      "evs = evs1 @ evs2"
proof -
  obtain t evs1 w1 where l: "(if handling w then (False, [], w)
      else handler_loop L run args (rev (handlerStack (stacks w (sg_signal args)))) w) = (t, evs1, w1)"
    by (metis prod_cases3)
  show thesis
  proof (cases t)
    case True
    with l assms show thesis
      by (intro taken [of evs1]) (auto simp: HandlerImpl_def split: if_splits)
  next
    case False
    with l assms obtain evs2 where "default_action apple L run junk args w1 = Inr (evs2, w')" "evs = evs1 @ evs2"
      by (auto simp: HandlerImpl_def and_then_Inr_iff)
    with l False show thesis by (intro user) auto
  qed
qed

text \<open>
  C24. Order of the chain, for handlers whose answer and effect may depend on the signal and on
  the state of the process. Outside a handler, a dispatch calls the handlers registered for the
  signal from the newest to the oldest, up to a null entry, each in the world the ones before it
  left (with its own mask, and the flag set unless the dispatch is asynchronous); after the first
  one that takes the signal it calls nothing more, and puts the flag back. Inside a handler (a
  nested signal) it calls none. When no handler takes the signal, and only then, the default
  action runs, in the world the last handler left.
\<close>

theorem HandlerImpl_chain_order:
  assumes "HandlerImpl apple L run junk args w = Inr (evs, w')"
  defines "hs \<equiv> (if handling w then []
      else live_handlers (rev (handlerStack (stacks w (sg_signal args)))))"
    and "call \<equiv> (\<lambda>h. RunChain (saSignalAction h) (\<not> sg_isAsync args))"
  defines "before \<equiv> world_before L run args hs w"
  shows "(\<exists>n < length hs. (\<forall>i < n. \<not> answers L run args (hs ! i) (before i)) \<and>
        answers L run args (hs ! n) (before n) \<and>
        evs = map call (take (Suc n) hs) @ [FreeArgs] \<and>
        w' = left_by L run args (hs ! n) (before n)) \<or>
    (\<forall>i < length hs. \<not> answers L run args (hs ! i) (before i)) \<and>
      (\<exists>evs2. default_action apple L run junk args (before (length hs)) = Inr (evs2, w') \<and>
        chain_calls evs2 = [] \<and> evs = map call hs @ evs2)"
  using assms(1)
proof (cases rule: HandlerImpl_cases)
  case (taken evs1)
  with handler_loop_order [OF taken(2)] show ?thesis
    by (auto simp: hs_def before_def call_def)
next
  case (user evs1 w1 evs2)
  have "(\<forall>i < length hs. \<not> answers L run args (hs ! i) (before i)) \<and> evs1 = map call hs \<and> w1 = before (length hs)"
  proof (cases "handling w")
    case True
    with user(1) show ?thesis by (auto simp: hs_def before_def call_def)
  next
    case False
    with user(1) have "handler_loop L run args (rev (handlerStack (stacks w (sg_signal args)))) w = (False, evs1, w1)"
      by simp
    from handler_loop_order [OF this] False show ?thesis by (simp add: hs_def before_def call_def)
  qed
  with user(2,3) default_action_events [OF user(2)] show ?thesis by blast
qed

text \<open>
  The arguments allocated by \<open>Handler\<close> are freed exactly once, as the last act of every
  dispatch that returns, whatever the handlers do; the only dispatch that does not return is
  the \<open>exit(signal + 128)\<close> of the Apple build on a null \<open>sa_sigaction\<close>.
\<close>

theorem HandlerImpl_frees_args_once:
  "case HandlerImpl apple L run junk args w of
     Inr (evs, w') \<Rightarrow> filter (\<lambda>e. e = FreeArgs) evs = [FreeArgs] \<and> last evs = FreeArgs
   | Inl e \<Rightarrow> e = ExitProcess (int (sg_signal args) + 128) \<and> apple"
proof (cases "HandlerImpl apple L run junk args w")
  case (Inl e)
  then show ?thesis
    by (auto simp: HandlerImpl_def default_action_def and_then_def Let_def split: if_splits sum.splits prod.splits)
next
  case (Inr r)
  obtain evs w' where r: "r = (evs, w')" by (cases r)
  let ?gs = "rev (handlerStack (stacks w (sg_signal args)))"
  from Inr r have "HandlerImpl apple L run junk args w = Inr (evs, w')" by simp
  then have "filter (\<lambda>e. e = FreeArgs) evs = [FreeArgs] \<and> last evs = FreeArgs"
  proof (cases rule: HandlerImpl_cases)
    case (taken evs1)
    with handler_loop_no_free [of L run args ?gs w] show ?thesis
      by (simp add: filter_empty_conv) blast
  next
    case (user evs1 w1 evs2)
    then have "FreeArgs \<notin> set evs1"
      using handler_loop_no_free [of L run args ?gs w] by (auto split: if_splits)
    with user(3) default_action_events [OF user(2)] show ?thesis
      by (simp add: filter_empty_conv) blast
  qed
  with Inr r show ?thesis by simp
qed

text \<open>
  The thread's "handling a signal" flag. A chain handler runs with the flag set, unless the
  dispatch is asynchronous; and when the dispatch returns, the flag is what it was before,
  provided the user's own action restores it too (chain handlers need not).
\<close>

theorem HandlerImpl_restores_flag:
  assumes "\<And>a sig w. handling (snd (run a sig w)) = handling w"
    and "HandlerImpl apple L run junk args w = Inr (evs, w')"
  shows "handling w' = handling w \<and>
    (\<forall>a f. RunChain a f \<in> set evs \<longrightarrow> f = (\<not> sg_isAsync args))"
  using assms(2)
proof (cases rule: HandlerImpl_cases)
  case (taken evs1)
  let ?gs = "rev (handlerStack (stacks w (sg_signal args)))"
  show ?thesis
    using taken handler_loop_flag [of L run args ?gs w] handler_loop_events [of _ L run args ?gs w]
    by (auto simp: image_iff)
next
  case (user evs1 w1 evs2)
  let ?gs = "rev (handlerStack (stacks w (sg_signal args)))"
  have w1: "handling w1 = handling w"
    using user(1) handler_loop_flag [of L run args ?gs w] by (auto split: if_splits)
  have "handling w' = handling w1"
    using user(2) assms(1) by (auto simp: default_action_def Let_def split: if_splits)
  moreover have "RunChain a f \<notin> set evs2" for a f
    using user(2) by (auto simp: default_action_def Let_def split: if_splits)
  moreover have "f = (\<not> sg_isAsync args)" if "RunChain a f \<in> set evs1" for a f
    using that user(1) handler_loop_events [of _ L run args ?gs w] by (auto split: if_splits)
  ultimately show ?thesis using w1 user(3) by auto
qed

section \<open>The managed signals over the life of the process\<close>

lemmas stack_ops = upd_stack_def AddHandler_def RemoveHandler_def SetUserSigHandler_def
  SetAction_def GetAction_def IsMarked_def IsUserSigHandler_def

text \<open>
  A marked signal is virtual for the program. Whatever the program installs with
  \<open>sigaction\<close> on it succeeds, is what the next \<open>sigaction\<close> or \<open>signal\<close> reports as the old
  action, and never reaches the kernel; the call reports the previous action, and the mark,
  the handler chain and every other signal stay as they are.
\<close>

theorem sigaction_virtual_on_marked:
  assumes "0 < sig" "sig < int NSIG" and "IsMarked (nat sig) w"
  shows "\<exists>w'. sigaction L sig (Some a) True w = (0, Some (GetAction (nat sig) w), w') \<and>
    kst w' = kst w \<and> errno w' = errno w \<and> IsMarked (nat sig) w' \<and>
    handlerStack (stacks w' (nat sig)) = handlerStack (stacks w (nat sig)) \<and>
    (\<forall>n. n \<noteq> nat sig \<longrightarrow> stacks w' n = stacks w n) \<and>
    sigaction L sig None True w' = (0, Some a, w') \<and>
    fst (signal L sig h w') = sa_handler a"
  using assms
  by (auto simp: sigaction_def SigactionImpl_def signal_def stack_ops)

text \<open>The steps of the interface the runtime and the program use on the table.\<close>

datatype sig_op =
    OpMark nat
  | OpAdd nat signal_action
  | OpRemove nat addr
  | OpSetUser nat bool
  | OpSigaction int "sigaction_t option"
  | OpSignal int addr
  | OpProcmask int "sigset option"

fun sig_step :: "'k libc \<Rightarrow> addr \<Rightarrow> sigset \<Rightarrow> sig_op \<Rightarrow> 'k sig_world \<Rightarrow> 'k sig_world" where
  "sig_step L hnd full (OpMark n) w = MarkSig L hnd full n w"
| "sig_step L hnd full (OpAdd n sa) w = AddHandler n sa w"
| "sig_step L hnd full (OpRemove n fn) w = RemoveHandler n fn w"
| "sig_step L hnd full (OpSetUser n b) w = SetUserSigHandler n b w"
| "sig_step L hnd full (OpSigaction n a) w = snd (snd (sigaction L n a True w))"
| "sig_step L hnd full (OpSignal n h) w = snd (signal L n h w)"
| "sig_step L hnd full (OpProcmask how s) w = snd (snd (snd (sigprocmask L how s w)))"

text \<open>
  What the code relies on from the linked functions. \<open>sigaction\<close>: a query changes nothing, an
  installation either fails and changes nothing or sets the disposition of that signal alone,
  it does not fail for the signals the runtime may catch, and the thread's mask stays as it is.
  \<open>sigprocmask\<close>: no disposition changes, and no signal becomes blocked but those of the set of
  a \<open>SIG_BLOCK\<close> or \<open>SIG_SETMASK\<close> (the kernel never blocks some of these either). \<open>disp\<close> reads
  the installed handler and \<open>blocked\<close> the calling thread's mask off the kernel state.
\<close>

definition libc_law ::
  "'k libc \<Rightarrow> ('k \<Rightarrow> nat \<Rightarrow> addr) \<Rightarrow> ('k \<Rightarrow> nat \<Rightarrow> bool) \<Rightarrow> (nat \<Rightarrow> bool) \<Rightarrow> bool" where
  "libc_law L disp blocked catchable \<longleftrightarrow>
     (\<forall>n k. disp (snd (snd (lk_sigaction L n None k))) = disp k) \<and>
     (\<forall>n a k. (fst (lk_sigaction L n (Some a) k) = 0 \<and>
                 disp (snd (snd (lk_sigaction L n (Some a) k))) = (disp k)(n := sa_handler a)) \<or>
               (fst (lk_sigaction L n (Some a) k) = -1 \<and> \<not> catchable n \<and>
                 disp (snd (snd (lk_sigaction L n (Some a) k))) = disp k)) \<and>
     (\<forall>n a k. blocked (snd (snd (lk_sigaction L n a k))) = blocked k) \<and>
     (\<forall>how s k. disp (snd (snd (lk_procmask L how s k))) = disp k) \<and>
     (\<forall>how s k n. blocked (snd (snd (lk_procmask L how s k))) n \<longrightarrow>
       blocked k n \<or> (\<exists>m. s = Some m \<and> (how = SIG_BLOCK \<or> how = SIG_SETMASK) \<and> sigismember m n))"

text \<open>Signals are marked only when they can be caught, and a \<open>sigset_t\<close> is not of zero words.\<close>

definition op_ok :: "(nat \<Rightarrow> bool) \<Rightarrow> sig_op \<Rightarrow> bool" where
  "op_ok catchable op \<longleftrightarrow>
     (\<forall>n. op = OpMark n \<longrightarrow> catchable n) \<and> (\<forall>how s. op = OpProcmask how (Some s) \<longrightarrow> s \<noteq> [])"

definition marks_installed :: "('k \<Rightarrow> nat \<Rightarrow> addr) \<Rightarrow> addr \<Rightarrow> 'k sig_world \<Rightarrow> bool" where
  "marks_installed disp hnd w \<longleftrightarrow> (\<forall>n. IsMarked n w \<longrightarrow> disp (kst w) n = hnd)"

lemma libc_law_query: "libc_law L disp blk c \<Longrightarrow> disp (snd (snd (lk_sigaction L n None k))) = disp k"
  by (simp add: libc_law_def)

lemma libc_law_install:
  assumes "libc_law L disp blk c"
  shows "disp (snd (snd (lk_sigaction L n (Some a) k))) = (disp k)(n := sa_handler a) \<or>
    disp (snd (snd (lk_sigaction L n (Some a) k))) = disp k"
  using assms unfolding libc_law_def by metis

lemma libc_law_other:
  assumes "libc_law L disp blk c" and "m \<noteq> n"
  shows "disp (snd (snd (lk_sigaction L n a k))) m = disp k m"
proof (cases a)
  case None
  with assms(1) show ?thesis by (simp add: libc_law_query)
next
  case (Some b)
  with libc_law_install [OF assms(1), of n b k] assms(2) show ?thesis by auto
qed

lemma marks_installed_kst:
  assumes "marks_installed disp hnd w" and "\<not> IsMarked n w"
    and "\<And>m. m \<noteq> n \<Longrightarrow> disp k m = disp (kst w) m"
  shows "marks_installed disp hnd (w\<lparr>kst := k\<rparr>)"
proof (unfold marks_installed_def, intro allI impI)
  fix m
  assume "IsMarked m (w\<lparr>kst := k\<rparr>)"
  then have "IsMarked m w" by (simp add: IsMarked_def)
  moreover from this assms(2) have "m \<noteq> n" by auto
  ultimately show "disp (kst (w\<lparr>kst := k\<rparr>)) m = hnd"
    using assms(1,3) by (simp add: marks_installed_def)
qed

lemma MarkSig_installed:
  assumes "libc_law L disp blk c" and "c n" and "marks_installed disp hnd w"
  shows "marks_installed disp hnd (MarkSig L hnd full n w)"
proof (cases "IsMarked n w")
  case True
  with assms(3) show ?thesis by (simp add: MarkSig_def)
next
  case False
  let ?a = "\<lparr>sa_handler = hnd, sa_flags = SA_RESTART OR SA_SIGINFO OR SA_ONSTACK, sa_mask = full\<rparr>"
  have "disp (snd (snd (lk_sigaction L n (Some ?a) (kst w)))) = (disp (kst w))(n := hnd)"
    using assms(1,2) unfolding libc_law_def by (metis sigaction_t.select_convs(1))
  with False assms(3) libc_law_query [OF assms(1)] show ?thesis
    by (auto simp: MarkSig_def Register_def marks_installed_def stack_ops Let_def case_prod_beta)
qed

lemma sig_step_installed:
  assumes law: "libc_law L disp blk c" and "op_ok c op" and inv: "marks_installed disp hnd w"
  shows "marks_installed disp hnd (sig_step L hnd full op w)"
proof (cases op)
  case (OpMark n)
  with assms show ?thesis by (simp add: op_ok_def MarkSig_installed)
next
  case (OpProcmask how m)
  have "disp (snd (snd (lk_procmask L how x k))) = disp k" for x k
    using law by (simp add: libc_law_def)
  with inv OpProcmask show ?thesis
    by (auto simp: sigprocmask_def SigProcMask_def marks_installed_def IsMarked_def Let_def case_prod_beta
        split: option.splits)
next
  case (OpSigaction n a)
  show ?thesis
  proof (cases "n \<le> 0 \<or> n \<ge> int NSIG \<or> IsMarked (nat n) w")
    case True
    with inv OpSigaction show ?thesis
      by (auto simp: sigaction_def SigactionImpl_def marks_installed_def stack_ops split: option.splits)
  next
    case False
    with OpSigaction marks_installed_kst [OF inv, of "nat n"] libc_law_other [OF law] show ?thesis
      by (simp add: sigaction_def SigactionImpl_def Let_def case_prod_beta)
  qed
next
  case (OpSignal n h)
  show ?thesis
  proof (cases "n \<le> 0 \<or> n \<ge> int NSIG \<or> IsMarked (nat n) w")
    case True
    with inv OpSignal show ?thesis
      by (auto simp: signal_def marks_installed_def stack_ops split: if_splits)
  next
    case False
    with OpSignal marks_installed_kst [OF inv, of "nat n"] libc_law_other [OF law] show ?thesis
      by (simp add: signal_def Let_def case_prod_beta)
  qed
qed (use inv in \<open>auto simp: marks_installed_def stack_ops\<close>)

text \<open>No step touches the flag or takes a mark back, and outside a handler none blocks a marked signal.\<close>

lemma sig_step_handling: "handling (sig_step L hnd full op w) = handling w"
  by (cases op)
    (auto simp: MarkSig_def Register_def sigaction_def SigactionImpl_def signal_def sigprocmask_def SigProcMask_def
      stack_ops Let_def case_prod_beta split: option.splits)

lemma sig_step_marks: "IsMarked n w \<Longrightarrow> IsMarked n (sig_step L hnd full op w)"
  by (cases op)
    (auto simp: MarkSig_def Register_def sigaction_def SigactionImpl_def signal_def sigprocmask_def SigProcMask_def
      stack_ops Let_def case_prod_beta split: option.splits)

lemma sig_step_blocked:
  assumes law: "libc_law L disp blk c" and "op_ok c op" and "\<not> handling w"
    and n: "0 < n" "n \<le> 64" "IsMarked n w" and "\<not> blk (kst w) n"
  shows "\<not> blk (kst (sig_step L hnd full op w)) n"
proof (cases op)
  case (OpProcmask how m)
  define x where "x = (case m of None \<Rightarrow> None | Some s \<Rightarrow>
    Some (if how = SIG_BLOCK \<or> how = SIG_SETMASK then AdjustSignalMask w s else s))"
  have "blk (snd (snd (lk_procmask L how x (kst w)))) n \<Longrightarrow>
      \<exists>s. x = Some s \<and> (how = SIG_BLOCK \<or> how = SIG_SETMASK) \<and> sigismember s n"
    using law assms(7) unfolding libc_law_def by blast
  moreover have "\<not> sigismember (AdjustSignalMask w s) n" if "m = Some s" for s
    using that OpProcmask assms(2) n by (simp add: op_ok_def AdjustSignalMask_member)
  ultimately have "\<not> blk (snd (snd (lk_procmask L how x (kst w)))) n"
    by (auto simp: x_def split: option.splits if_splits)
  with OpProcmask assms(3) show ?thesis
    by (cases m) (auto simp: x_def sigprocmask_def SigProcMask_def Let_def case_prod_beta)
next
  case (OpMark m)
  with law assms(7) show ?thesis
    by (auto simp: libc_law_def MarkSig_def Register_def stack_ops Let_def case_prod_beta)
next
  case (OpSigaction m a)
  with law assms(7) show ?thesis
    by (auto simp: libc_law_def sigaction_def SigactionImpl_def stack_ops Let_def case_prod_beta split: option.splits)
next
  case (OpSignal m h)
  with law assms(7) show ?thesis
    by (auto simp: libc_law_def signal_def stack_ops Let_def case_prod_beta)
qed (use assms(7) in \<open>auto simp: stack_ops\<close>)

text \<open>
  C35. Over any sequence of marks, handler registrations and program calls of \<open>sigaction\<close>,
  \<open>signal\<close> and \<open>sigprocmask\<close>, the runtime's \<open>Handler\<close> stays the kernel's disposition of every
  marked signal, and when the calls are made outside a signal handler, no marked signal that the
  thread does not block becomes blocked: the program can neither displace the runtime nor shut
  it off.
\<close>

theorem marked_signals_stay_installed:
  assumes "libc_law L disp blk c" and "\<forall>op \<in> set ops. op_ok c op"
    and "marks_installed disp hnd w"
  shows "marks_installed disp hnd (fold (sig_step L hnd full) ops w) \<and>
    (\<not> handling w \<longrightarrow> (\<forall>n. 0 < n \<and> n \<le> 64 \<and> IsMarked n w \<and> \<not> blk (kst w) n \<longrightarrow>
      IsMarked n (fold (sig_step L hnd full) ops w) \<and> \<not> blk (kst (fold (sig_step L hnd full) ops w)) n))"
  using assms(2,3)
proof (induction ops arbitrary: w)
  case Nil
  then show ?case by simp
next
  case (Cons op ops)
  let ?w = "sig_step L hnd full op w"
  have "op_ok c op" "\<forall>op \<in> set ops. op_ok c op" using Cons.prems by simp_all
  with Cons.IH [of ?w] sig_step_installed [OF assms(1) _ Cons.prems(2)] show ?case
    by (simp add: sig_step_handling sig_step_marks sig_step_blocked [OF assms(1)])
qed


section \<open>Concrete runs\<close>

text \<open>A kernel with a disposition table and one thread's mask, which knows \<open>SIG_SETMASK\<close> only.\<close>

type_synonym demo_kernel = "(nat \<Rightarrow> sigaction_t) \<times> sigset"

definition demo_libc :: "demo_kernel libc" where
  "demo_libc =
     \<lparr>lk_sigaction = (\<lambda>n a (d, m). (0, d n, (case a of None \<Rightarrow> d | Some x \<Rightarrow> d(n := x), m))),
      lk_procmask = (\<lambda>how s (d, m).
        (if how = SIG_SETMASK then 0 else -1, m,
         (d, case s of None \<Rightarrow> m | Some x \<Rightarrow> if how = SIG_SETMASK then x else m)))\<rparr>"

definition demo_action :: "addr \<Rightarrow> sigaction_t" where
  "demo_action h = \<lparr>sa_handler = h, sa_flags = 0, sa_mask = replicate 16 0\<rparr>"

definition demo_world :: "demo_kernel sig_world" where
  "demo_world =
     \<lparr>stacks = (\<lambda>n. \<lparr>sigAction = demo_action 0, isMark = n = 11, isUserSigHandler = False,
        handlerStack = (if n = 11 then [\<lparr>saSignalAction = 0x100, scMask = replicate 16 0, scFlags = 0\<rparr>,
                                        \<lparr>saSignalAction = 0x200, scMask = replicate 16 0, scFlags = 0\<rparr>]
                        else [])\<rparr>),
      handling = False, errno = 0,
      kst = (\<lambda>n. demo_action (if n = 11 then 0x7000 else 0), replicate 16 0)\<rparr>"

text \<open>
  Of the two handlers of the example, the newer refuses and leaves 5 in \<open>errno\<close>; the older takes
  the signal because it finds the 5.
\<close>

definition demo_run :: "addr \<Rightarrow> nat \<Rightarrow> demo_kernel sig_world \<Rightarrow> bool \<times> demo_kernel sig_world" where
  "demo_run a sig w = (a = 0x100 \<and> errno w = 5, w\<lparr>errno := 5\<rparr>)"

definition demo_args :: signal_args where
  "demo_args = \<lparr>sg_signal = 11, sg_isAsync = False, sg_ucmask = replicate 16 0\<rparr>"

definition demo_disp :: "demo_kernel \<Rightarrow> nat \<Rightarrow> addr" where
  "demo_disp k n = sa_handler (fst k n)"

definition demo_blocked :: "demo_kernel \<Rightarrow> nat \<Rightarrow> bool" where
  "demo_blocked k n = sigismember (snd k) n"

lemmas demo_defs = demo_libc_def demo_action_def demo_world_def demo_run_def demo_args_def demo_disp_def

lemma demo_chain:
  "answers demo_libc demo_run args h w \<longleftrightarrow> saSignalAction h = 0x100 \<and> errno w = 5"
  "errno (left_by demo_libc demo_run args h w) = 5" "errno (refused demo_libc demo_run args h w) = 5"
  "handling (left_by demo_libc demo_run args h w) = handling w"
  by (simp_all add: answers_def left_by_def refused_def entered_def demo_run_def Let_def)

lemma demo_dispatch:
  "\<exists>w'. HandlerImpl False demo_libc demo_run (replicate 16 0) demo_args demo_world =
    Inr ([RunChain 0x200 True, RunChain 0x100 True, FreeArgs], w')"
  by (simp add: HandlerImpl_def demo_defs Let_def)

lemma demo_libc_law: "libc_law demo_libc demo_disp demo_blocked (\<lambda>_. True)"
  by (auto simp: libc_law_def demo_defs demo_blocked_def fun_eq_iff split: option.splits if_splits)

theorem sigprocmask_filters_marked_witness:
  "\<exists>s'. fst (snd (sigprocmask demo_libc SIG_BLOCK (Some (replicate 16 0xFFFF)) demo_world)) = Some s' \<and>
    \<not> sigismember s' 11 \<and> sigismember s' 12"
proof -
  have "replicate 16 (0xFFFF :: u64) \<noteq> []" by simp
  from sigprocmask_filters_marked [OF this, of demo_libc SIG_BLOCK demo_world]
  obtain s' r old k' where
    "sigprocmask demo_libc SIG_BLOCK (Some (replicate 16 0xFFFF)) demo_world = (r, Some s', old, demo_world\<lparr>kst := k'\<rparr>)"
    and m: "\<And>j. 0 < j \<Longrightarrow> j \<le> 64 \<Longrightarrow> (sigismember s' j \<longleftrightarrow> sigismember (replicate 16 0xFFFF) j \<and>
      \<not> (\<not> handling demo_world \<and> (SIG_BLOCK = SIG_BLOCK \<or> SIG_BLOCK = SIG_SETMASK) \<and> IsMarked j demo_world))"
    by metis
  then show ?thesis
    using m [of 11] m [of 12]
    by (simp add: IsMarked_def demo_world_def sigismember_def bit_numeral_rec)
qed

theorem HandlerImpl_chain_order_witness:
  "\<exists>evs w'. HandlerImpl False demo_libc demo_run (replicate 16 0) demo_args demo_world = Inr (evs, w') \<and>
    evs = [RunChain 0x200 True, RunChain 0x100 True, FreeArgs] \<and> errno w' = 5 \<and> \<not> handling w'"
proof -
  obtain w' where d: "HandlerImpl False demo_libc demo_run (replicate 16 0) demo_args demo_world =
    Inr ([RunChain 0x200 True, RunChain 0x100 True, FreeArgs], w')"
    using demo_dispatch by blast
  let ?hs = "[\<lparr>saSignalAction = 0x200, scMask = replicate 16 0, scFlags = 0\<rparr>,
    \<lparr>saSignalAction = 0x100, scMask = replicate 16 0, scFlags = 0\<rparr>]"
  have "live_handlers (rev (handlerStack (stacks demo_world (sg_signal demo_args)))) = ?hs" "\<not> handling demo_world"
    by (simp_all add: demo_world_def demo_args_def)
  with HandlerImpl_chain_order [OF d] have "errno w' = 5 \<and> \<not> handling w'"
    by (auto simp: demo_chain less_Suc_eq_0_disj)
  with d show ?thesis by blast
qed

theorem HandlerImpl_restores_flag_witness:
  "\<exists>evs w'. HandlerImpl False demo_libc demo_run (replicate 16 0) demo_args demo_world = Inr (evs, w') \<and>
    \<not> handling w'"
proof -
  obtain w' where d: "HandlerImpl False demo_libc demo_run (replicate 16 0) demo_args demo_world =
    Inr ([RunChain 0x200 True, RunChain 0x100 True, FreeArgs], w')"
    using demo_dispatch by blast
  have "handling (snd (demo_run a sig w)) = handling w" for a sig w
    by (simp add: demo_run_def)
  from HandlerImpl_restores_flag [where run = demo_run, OF this d] d
  show ?thesis by (auto simp: demo_world_def)
qed

theorem sigaction_virtual_on_marked_witness:
  "\<exists>w'. sigaction demo_libc 11 (Some (demo_action 0x300)) True demo_world =
      (0, Some (demo_action 0), w') \<and>
    sigaction demo_libc 11 None True w' = (0, Some (demo_action 0x300), w')"
proof -
  have "(0::int) < 11" "11 < int NSIG" "IsMarked (nat 11) demo_world"
    by (simp_all add: IsMarked_def demo_world_def)
  from sigaction_virtual_on_marked [OF this, of demo_libc "demo_action 0x300" 0]
  show ?thesis by (auto simp: GetAction_def demo_world_def)
qed

theorem marked_signals_stay_installed_witness:
  "\<exists>w. w = fold (sig_step demo_libc 0x7000 (replicate 16 0xFF))
      [OpMark 10, OpSigaction 11 (Some (demo_action 0x300)), OpProcmask SIG_SETMASK (Some (replicate 16 0xFFFF)),
       OpSignal 10 1] demo_world \<and>
    marks_installed demo_disp 0x7000 w \<and> \<not> demo_blocked (kst w) 11"
proof -
  have ops: "\<forall>op \<in> set [OpMark 10, OpSigaction 11 (Some (demo_action 0x300)),
      OpProcmask SIG_SETMASK (Some (replicate 16 0xFFFF)), OpSignal 10 1]. op_ok (\<lambda>_. True) op"
    by (simp add: op_ok_def)
  have inv: "marks_installed demo_disp 0x7000 demo_world"
    by (simp add: marks_installed_def demo_defs IsMarked_def)
  have "\<not> handling demo_world" "IsMarked 11 demo_world" "\<not> demo_blocked (kst demo_world) 11"
    by (simp_all add: demo_defs IsMarked_def demo_blocked_def sigismember_def)
  with marked_signals_stay_installed [OF demo_libc_law ops inv, of "replicate 16 0xFF"] show ?thesis by simp
qed


end
