(* ===== verification/SignalStart.thy ===== *)
theory SignalStart
  imports SignalStack
begin

text \<open>
  Around the signal chain: the thread-specific flag and its key, and the search for the real libc
  functions, of \<^verbatim>\<open>rt0/signal/SignalStack.cpp\<close>; the registers \<^verbatim>\<open>rt0/signal/SignalUtils.cpp\<close> reads
  from the context of a signal. \<open>pthread_key_create\<close>, \<open>dlopen\<close> and \<open>dlsym\<close> are parameters.
\<close>

section \<open>The key of the flag\<close>

text \<open>
  \<open>g_sigchainKey\<close>, which is 0 until a key is created; the two \<open>once\<close> flags; what each thread has
  stored under each key; the linked functions; and the handle of libc, once it is there.
\<close>

type_synonym thread_values = "nat \<Rightarrow> nat \<Rightarrow> addr"

record chain_start =
  g_sigchainKey :: nat
  key_once :: bool
  specific :: thread_values
  symbols_once :: bool
  libc_handle :: "addr option"
  g_linkedSignalAction :: addr
  g_linkedSignalProcmask :: addr

text \<open>\<open>std::call_once\<close>: the flag is set when the function returns.\<close>

definition call_once :: "bool \<Rightarrow> ('s \<Rightarrow> 's res) \<Rightarrow> ('s \<Rightarrow> 's) \<Rightarrow> 's \<Rightarrow> 's res" where
  "call_once flag f set_flag s = (if flag then Inr s else and_then (f s) (\<lambda>s'. Inr (set_flag s')))"

text \<open>
  \<open>CreatePthreadKey\<close>: \<open>create\<close> is \<open>pthread_key_create\<close>, with its result, the key it stores when
  that is 0, and what the threads have stored afterwards. A failure is logged, and the key stays 0.
\<close>

definition CreatePthreadKey ::
  "(thread_values \<Rightarrow> int \<times> nat \<times> thread_values) \<Rightarrow> chain_start \<Rightarrow> chain_start res" where
  "CreatePthreadKey create w =
     call_once (key_once w)
       (\<lambda>w. let (rc, key, values) = create (specific w) in
          Inr ((if rc = 0 then w\<lparr>g_sigchainKey := key\<rparr> else w)\<lparr>specific := values\<rparr>))
       (\<lambda>w. w\<lparr>key_once := True\<rparr>) w"

definition GetHandlingSignalKey :: "chain_start \<Rightarrow> nat" where
  "GetHandlingSignalKey w = g_sigchainKey w"

definition GetHandlingSignal :: "nat \<Rightarrow> chain_start \<Rightarrow> bool" where
  "GetHandlingSignal t w =
     (let r = specific w t (GetHandlingSignalKey w) in if r = 0 then False else True)"

definition SetHandlingSignal :: "nat \<Rightarrow> bool \<Rightarrow> chain_start \<Rightarrow> chain_start" where
  "SetHandlingSignal t value w =
     w\<lparr>specific := (specific w)(t := (specific w t)(GetHandlingSignalKey w := of_bool value))\<rparr>"

section \<open>The linked functions\<close>

definition libName :: "bool \<Rightarrow> bool \<Rightarrow> string" where
  "libName ohos_or_android apple =
     (if ohos_or_android then ''libc.so'' else if apple then ''libc.dylib'' else ''libc.so.6'')"

text \<open>
  \<open>FindSymbolInLibc\<close>: the handle is opened on the first call and kept; a log line at
  \<open>RTLOG_FATAL\<close> ends the process. The address found is the result.
\<close>

definition FindSymbolInLibc ::
  "string \<Rightarrow> (string \<Rightarrow> addr) \<Rightarrow> (addr \<Rightarrow> string \<Rightarrow> addr) \<Rightarrow> string \<Rightarrow> chain_start \<Rightarrow> (addr \<times> chain_start) res" where
  "FindSymbolInLibc lib dlopen dlsym name w =
     and_then
       (case libc_handle w of
          Some h \<Rightarrow> Inr (h, w)
        | None \<Rightarrow> let h = dlopen lib in if h = 0 then Inl Fatal else Inr (h, w\<lparr>libc_handle := Some h\<rparr>))
       (\<lambda>(h, w). let sym = dlsym h name in if sym = 0 then Inl Fatal else Inr (sym, w))"

definition InitializeSignalStack ::
  "string \<Rightarrow> (string \<Rightarrow> addr) \<Rightarrow> (addr \<Rightarrow> string \<Rightarrow> addr) \<Rightarrow> chain_start \<Rightarrow> chain_start res" where
  "InitializeSignalStack lib dlopen dlsym w =
     call_once (symbols_once w)
       (\<lambda>w. and_then (FindSymbolInLibc lib dlopen dlsym ''sigaction'' w) (\<lambda>(f, w).
          and_then (FindSymbolInLibc lib dlopen dlsym ''sigprocmask'' (w\<lparr>g_linkedSignalAction := f\<rparr>)) (\<lambda>(g, w).
            Inr (w\<lparr>g_linkedSignalProcmask := g\<rparr>))))
       (\<lambda>w. w\<lparr>symbols_once := True\<rparr>) w"

section \<open>Registers of a context\<close>

text \<open>
  The platforms \<open>SignalUtils.cpp\<close> is compiled for, in the order of its tests, and the registers it
  reads, as wide as \<open>Uptr\<close> there. \<open>REG_RIP\<close>, \<open>REG_RBP\<close>, \<open>REG_EIP\<close> and \<open>REG_EBP\<close> are those of glibc.
\<close>

datatype platform = AppleX64 | AppleArm64 | Arm64 | Arm32 | X64 | X86

record 'w ucontext =
  ss_rip :: 'w
  ss_pc :: 'w
  ss_rbp :: 'w
  ss_fp :: 'w
  mc_pc :: 'w
  mc_regs :: "nat \<Rightarrow> 'w"
  arm_pc :: 'w
  arm_fp :: 'w
  gregs :: "nat \<Rightarrow> 'w"

definition REG_RIP :: nat where "REG_RIP = 16"
definition REG_RBP :: nat where "REG_RBP = 10"
definition REG_EIP :: nat where "REG_EIP = 14"
definition REG_EBP :: nat where "REG_EBP = 6"

fun GetPCFromUContext :: "platform \<Rightarrow> 'w ucontext \<Rightarrow> 'w" where
  "GetPCFromUContext AppleX64 uc = ss_rip uc"
| "GetPCFromUContext AppleArm64 uc = ss_pc uc"
| "GetPCFromUContext Arm64 uc = mc_pc uc"
| "GetPCFromUContext Arm32 uc = arm_pc uc"
| "GetPCFromUContext X64 uc = gregs uc REG_RIP"
| "GetPCFromUContext X86 uc = gregs uc REG_EIP"

fun GetFAFromUContext :: "platform \<Rightarrow> 'w ucontext \<Rightarrow> 'w" where
  "GetFAFromUContext AppleX64 uc = ss_rbp uc"
| "GetFAFromUContext AppleArm64 uc = ss_fp uc"
| "GetFAFromUContext Arm64 uc = mc_regs uc 29"
| "GetFAFromUContext Arm32 uc = arm_fp uc"
| "GetFAFromUContext X64 uc = gregs uc REG_RBP"
| "GetFAFromUContext X86 uc = gregs uc REG_EBP"

definition SEGV_MAPERR :: int where "SEGV_MAPERR = 1"
definition SEGV_ACCERR :: int where "SEGV_ACCERR = 2"

definition SignalCodeName :: "int \<Rightarrow> int \<Rightarrow> string" where
  "SignalCodeName sig code =
     (if sig \<noteq> int SIGSEGV then ''UNKNOWN''
      else if code = SEGV_MAPERR then ''SEGV_MAPERR''
      else if code = SEGV_ACCERR then ''SEGV_ACCERR''
      else ''SEGV_UNKNOWN'')"

section \<open>Start of the chain\<close>

text \<open>
  What POSIX promises of \<open>pthread_key_create\<close>: every thread has the null value under a new key, and
  the other keys keep theirs; a failure changes nothing.
\<close>

definition key_create_ok :: "(thread_values \<Rightarrow> int \<times> nat \<times> thread_values) \<Rightarrow> bool" where
  "key_create_ok create \<longleftrightarrow> (\<forall>v. case create v of (rc, key, v') \<Rightarrow>
     (rc = 0 \<longrightarrow> (\<forall>t. v' t = (v t)(key := 0))) \<and> (rc \<noteq> 0 \<longrightarrow> v' = v))"

text \<open>
  Once the key is created, the flag is one per thread: clear in every thread at first, then in
  each thread what that thread has last set, whatever the others do; no other key is written; and
  creating the key again changes nothing.
\<close>

theorem handling_flag_per_thread:
  assumes "key_create_ok create" and "\<not> key_once w" and "create (specific w) = (0, key, values)"
    and "CreatePthreadKey create w = Inr w'"
  shows "\<not> GetHandlingSignal t w' \<and>
    (\<forall>u v w2. g_sigchainKey w2 = key \<longrightarrow>
      GetHandlingSignal t (SetHandlingSignal u v w2) = (if t = u then v else GetHandlingSignal t w2)) \<and>
    (\<forall>k u v. k \<noteq> key \<longrightarrow> specific (SetHandlingSignal u v w') t k = specific w t k) \<and>
    CreatePthreadKey create w' = Inr w'"
proof -
  have w': "w' = w\<lparr>g_sigchainKey := key, specific := values, key_once := True\<rparr>"
    using assms(2-4) by (simp add: CreatePthreadKey_def call_once_def)
  have v: "values t = (specific w t)(key := 0)" for t
    using assms(1,3) unfolding key_create_ok_def by (metis (mono_tags, lifting) case_prod_conv)
  show ?thesis
    by (simp add: w' v GetHandlingSignal_def SetHandlingSignal_def GetHandlingSignalKey_def
        CreatePthreadKey_def call_once_def)
qed

definition demo_start :: chain_start where
  "demo_start = \<lparr>g_sigchainKey = 0, key_once = False, specific = (\<lambda>t k. 77), symbols_once = False,
    libc_handle = None, g_linkedSignalAction = 0, g_linkedSignalProcmask = 0\<rparr>"

definition demo_create :: "thread_values \<Rightarrow> int \<times> nat \<times> thread_values" where
  "demo_create v = (0, 5, \<lambda>t. (v t)(5 := 0))"

theorem handling_flag_per_thread_witness:
  "\<exists>w'. CreatePthreadKey demo_create demo_start = Inr w' \<and> \<not> GetHandlingSignal 3 w'"
proof -
  let ?w = "demo_start\<lparr>g_sigchainKey := 5, specific := \<lambda>t. (specific demo_start t)(5 := 0), key_once := True\<rparr>"
  have "CreatePthreadKey demo_create demo_start = Inr ?w"
    by (simp add: CreatePthreadKey_def call_once_def demo_create_def demo_start_def)
  moreover have "key_create_ok demo_create" by (simp add: key_create_ok_def demo_create_def)
  ultimately show ?thesis
    using handling_flag_per_thread [of demo_create demo_start 5 _ ?w 3] by (simp add: demo_create_def demo_start_def)
qed

lemma AdjustSignalMask_unmarked:
  assumes "\<And>i. 0 < i \<Longrightarrow> i < NSIG \<Longrightarrow> \<not> isMark (stacks w i)"
  shows "AdjustSignalMask w ss = ss"
proof -
  have "fold (adjust_step w) is ss = ss" if "\<And>i. i \<in> set is \<Longrightarrow> 0 < i \<and> i < NSIG" for "is"
    using that by (induction "is") (simp_all add: adjust_step_def IsMarked_def assms)
  from this [of "[1..<NSIG]"] show ?thesis unfolding AdjustSignalMask_def by auto
qed

text \<open>
  Before any signal is registered the key is still 0, a key that may be another library's, and the
  flag read is whatever that library has stored. It does not matter: while no signal is marked,
  \<open>sigprocmask\<close> has the same result, stores the same and changes the same for either value.
\<close>

theorem sigprocmask_before_registration:
  assumes "\<And>i. 0 < i \<Longrightarrow> i < NSIG \<Longrightarrow> \<not> isMark (stacks w i)"
  shows "sigprocmask L how newSet (w\<lparr>handling := flag\<rparr>) =
    (case lk_procmask L how newSet (kst w) of (r, old, k) \<Rightarrow> (r, newSet, old, w\<lparr>handling := flag, kst := k\<rparr>))"
proof -
  have adjust: "AdjustSignalMask (w\<lparr>handling := f\<rparr>) ss = ss" for f ss
    by (rule AdjustSignalMask_unmarked) (simp add: assms)
  show ?thesis
    by (cases flag; simp add: sigprocmask_def SigProcMask_def Let_def adjust split: prod.split option.split)
qed

text \<open>
  \<open>InitializeSignalStack\<close> ends the process exactly when libc cannot be opened or lacks one of the
  two functions; otherwise both linked pointers are those of one libc handle and not null, and
  calling it again, as every interposed function does, changes nothing.
\<close>

theorem InitializeSignalStack_links:
  assumes "\<not> symbols_once w" and "libc_handle w = None"
  shows "(if dlopen lib = 0 \<or> dlsym (dlopen lib) ''sigaction'' = 0 \<or> dlsym (dlopen lib) ''sigprocmask'' = 0
     then InitializeSignalStack lib dlopen dlsym w = Inl Fatal
     else \<exists>w'. InitializeSignalStack lib dlopen dlsym w = Inr w' \<and>
       g_linkedSignalAction w' = dlsym (dlopen lib) ''sigaction'' \<and> g_linkedSignalAction w' \<noteq> 0 \<and>
       g_linkedSignalProcmask w' = dlsym (dlopen lib) ''sigprocmask'' \<and> g_linkedSignalProcmask w' \<noteq> 0 \<and>
       InitializeSignalStack lib dlopen dlsym w' = Inr w')"
  using assms by (simp add: InitializeSignalStack_def call_once_def FindSymbolInLibc_def Let_def)

theorem InitializeSignalStack_links_witness:
  "\<exists>w'. InitializeSignalStack (libName False False) (\<lambda>_. 9) (\<lambda>h n. h + of_nat (length n)) demo_start = Inr w' \<and>
    g_linkedSignalProcmask w' = 20"
proof -
  have "\<not> symbols_once demo_start" "libc_handle demo_start = None" by (simp_all add: demo_start_def)
  from InitializeSignalStack_links [OF this, of "\<lambda>_. 9" "libName False False" "\<lambda>h n. h + of_nat (length n)"]
  show ?thesis by auto
qed

definition demo_libc :: "nat libc" where
  "demo_libc = \<lparr>lk_sigaction = (\<lambda>s a k. (0, \<lparr>sa_handler = 0, sa_flags = 0, sa_mask = [0]\<rparr>, k)),
    lk_procmask = (\<lambda>how s k. (0, [3], Suc k))\<rparr>"

definition demo_unmarked :: "nat sig_world" where
  "demo_unmarked = \<lparr>stacks = (\<lambda>_. \<lparr>sigAction = \<lparr>sa_handler = 0, sa_flags = 0, sa_mask = [0]\<rparr>, isMark = False,
      isUserSigHandler = False, handlerStack = []\<rparr>), handling = False, errno = 0, kst = 0\<rparr>"

theorem sigprocmask_before_registration_witness:
  "fst (sigprocmask demo_libc SIG_BLOCK (Some [7]) (demo_unmarked\<lparr>handling := True\<rparr>)) = 0 \<and>
   fst (snd (sigprocmask demo_libc SIG_BLOCK (Some [7]) (demo_unmarked\<lparr>handling := False\<rparr>))) = Some [7]"
proof -
  have "\<not> isMark (stacks demo_unmarked i)" for i by (simp add: demo_unmarked_def)
  note before = sigprocmask_before_registration [of demo_unmarked, OF this]
  show ?thesis unfolding before by (simp add: demo_libc_def)
qed

end
