(* ===== verification/WinModules.thy ===== *)
theory WinModules
  imports Prelude
begin

text \<open>
  The table of loaded modules of the Windows unwinder,
  \<^verbatim>\<open>rt0/os/Windows/WinModuleManager.{h,cpp}\<close>: a module with its runtime-function table, the
  binary search in that table on 32-bit indices, the lookup by address or by name, and the
  two ways the table of modules is filled. What Windows reports (the loader's list, the
  enumerated modules, the exception directories) is an argument.
\<close>

section \<open>Modules\<close>

record runtime_function =
  startAddress :: u32
  endAddress :: u32
  unwindInfoOffset :: u32

record win_module =
  imageBaseStart :: addr
  imageBaseEnd :: addr
  funcTable :: "runtime_function list"
  funcTableCount :: u32
  moduleName :: string

definition IsInModule :: "win_module \<Rightarrow> addr \<Rightarrow> bool" where
  "IsInModule m pc \<longleftrightarrow> imageBaseStart m \<le> pc \<and> pc \<le> imageBaseEnd m"

text \<open>The comparison of an entry with the address relative to the image base.\<close>

definition in_func :: "runtime_function \<Rightarrow> addr \<Rightarrow> bool" where
  "in_func f rvaPc \<longleftrightarrow> ucast (startAddress f) \<le> rvaPc \<and> rvaPc \<le> ucast (endAddress f)"

text \<open>\<open>IsInRuntimeFunc\<close> reads \<open>funcTable[index]\<close>; past the table the read is undefined.\<close>

definition IsInRuntimeFunc :: "win_module \<Rightarrow> u32 \<Rightarrow> addr \<Rightarrow> bool res" where
  "IsInRuntimeFunc m index pc =
     (if unat index < length (funcTable m)
      then Inr (in_func (funcTable m ! unat index) (pc - imageBaseStart m))
      else Inl OutOfBounds)"

text \<open>
  The loop of \<open>GetRuntimeFunction\<close>. Indices are \<open>uint32_t\<close>: \<open>mid - 1\<close> wraps. Not returning
  is \<open>None\<close>.
\<close>

partial_function (option) grf_loop ::
  "win_module \<Rightarrow> addr \<Rightarrow> u32 \<Rightarrow> u32 \<Rightarrow> runtime_function option res option" where
  "grf_loop m pc start fin =
     (if start \<le> fin then
        let mid = (start + fin) div 2 in
        case IsInRuntimeFunc m mid pc of
          Inl e \<Rightarrow> Some (Inl e)
        | Inr hit \<Rightarrow>
            if hit then Some (Inr (Some (funcTable m ! unat mid)))
            else if pc - imageBaseStart m > ucast (endAddress (funcTable m ! unat mid))
              then grf_loop m pc (mid + 1) fin
              else grf_loop m pc start (mid - 1)
      else Some (Inr None))"

definition GetRuntimeFunction :: "win_module \<Rightarrow> addr \<Rightarrow> runtime_function option res option" where
  "GetRuntimeFunction m pc = grf_loop m pc 0 (funcTableCount m - 1)"

section \<open>The set of modules\<close>

text \<open>
  An \<open>unordered_set\<close> with hash and equality by module name: a list in iteration order in
  which \<open>emplace\<close> keeps the present module when the name is taken.
\<close>

type_synonym win_modules = "win_module list"

definition emplace :: "win_module \<Rightarrow> win_modules \<Rightarrow> win_modules" where
  "emplace m ms = (if moduleName m \<in> moduleName ` set ms then ms else ms @ [m])"

definition GetWinModuleByPc :: "win_modules \<Rightarrow> addr \<Rightarrow> win_module option" where
  "GetWinModuleByPc ms pc = find (\<lambda>m. IsInModule m pc) ms"

definition GetWinModuleByName :: "win_modules \<Rightarrow> string \<Rightarrow> win_module option" where
  "GetWinModuleByName ms name = find (\<lambda>m. moduleName m = name) ms"

definition nativeLibNames :: "string list" where
  "nativeLibNames =
     [''ntdll.dll'', ''KERNEL32.DLL'', ''KERNELBASE.dll'', ''msvcrt.dll'', ''libgcc_s_seh-1.dll'',
      ''libstdc++-6.dll'', ''libwinpthread-1.dll'', ''ucrtbase.dll'', ''dbghelp.dll'', ''libssp-0.dll'',
      ''ADVAPI32.dll'', ''sechost.dll'', ''RPCRT4.dll'', ''libsecurec.dll'', ''CRYPTSP.dll'',
      ''rsaenh.dll'', ''bcrypt.dll'', ''CRYPTBASE.dll'', ''bcryptPrimitives.dll'', ''SYSFER.DLL'']"

text \<open>
  What the program reads of one loaded image: its base, its size, and the exception
  directory with its size in bytes (\<open>sizeof(RuntimeFunction)\<close> is 12). Addresses are added
  with wrap-around.
\<close>

record image =
  img_base :: addr
  img_size :: u32
  img_exceptions :: "runtime_function list"
  img_exceptions_bytes :: u32

definition new_module :: "image \<Rightarrow> string \<Rightarrow> win_module" where
  "new_module i name =
     \<lparr>imageBaseStart = img_base i, imageBaseEnd = img_base i + ucast (img_size i),
      funcTable = img_exceptions i, funcTableCount = img_exceptions_bytes i div 12,
      moduleName = name\<rparr>"

text \<open>
  \<open>ReadWinModuleAtInit\<close> walks the loader's circular list once from its head; an entry whose
  name buffer is null is skipped.
\<close>

record ldr_entry =
  baseDllName :: "string option"
  ldr_image :: image

fun read_ldr :: "ldr_entry list \<Rightarrow> win_modules \<Rightarrow> win_modules" where
  "read_ldr [] ms = ms"
| "read_ldr (e # es) ms =
     (case baseDllName e of
        None \<Rightarrow> read_ldr es ms
      | Some name \<Rightarrow>
          read_ldr es (if name \<noteq> [] \<and> name \<notin> set nativeLibNames
                       then emplace (new_module (ldr_image e) name) ms else ms))"

definition ReadWinModuleAtInit :: "ldr_entry list \<Rightarrow> win_modules \<Rightarrow> win_modules" where
  "ReadWinModuleAtInit = read_ldr"

text \<open>
  \<open>ReadModuleInfo\<close> over module handles: drive and directory, and file name with extension, as
  \<open>_splitpath_s\<close> returns them. The name tested is the file name, the name stored the full path.
\<close>

record proc_module =
  pm_dir :: string
  pm_file :: string
  pm_image :: image

fun ReadModuleInfo :: "proc_module list \<Rightarrow> win_modules \<Rightarrow> win_modules" where
  "ReadModuleInfo [] ms = ms"
| "ReadModuleInfo (h # hs) ms =
     (if pm_file h \<in> set nativeLibNames then ReadModuleInfo hs ms
      else ReadModuleInfo hs (emplace (new_module (pm_image h) (pm_dir h @ pm_file h)) ms))"

text \<open>
  \<open>ReadWinModuleAtRunning\<close>: \<open>enum1\<close> and \<open>enum2\<close> are the modules of the process at the two
  calls of \<open>EnumProcessModules\<close>. The second array has room for the number the first call
  reported; if fewer modules are left, its tail is indeterminate when it is read.
\<close>

definition moduleHandlerCapacity :: nat where "moduleHandlerCapacity = 50"

definition ReadWinModuleAtRunning ::
  "proc_module list \<Rightarrow> proc_module list \<Rightarrow> win_modules \<Rightarrow> win_modules res" where
  "ReadWinModuleAtRunning enum1 enum2 ms =
     (let moduleNum = length enum1 in
      if moduleNum \<le> moduleHandlerCapacity then Inr (ReadModuleInfo enum1 ms)
      else if length enum2 < moduleNum then Inl OutOfBounds
      else Inr (ReadModuleInfo (take moduleNum enum2) ms))"

section \<open>The binary search\<close>

text \<open>
  The shape PE gives the table: entries in order that may at most touch. \<open>wf_module\<close> adds
  that the stored count is the length and that the table has less than \<open>2 ^ 31\<close> entries.
\<close>

definition sorted_funcs :: "runtime_function list \<Rightarrow> bool" where
  "sorted_funcs t \<longleftrightarrow>
     (\<forall>i < length t. startAddress (t ! i) \<le> endAddress (t ! i)) \<and>
     (\<forall>j < length t. \<forall>i < j. endAddress (t ! i) \<le> startAddress (t ! j))"

definition wf_module :: "win_module \<Rightarrow> bool" where
  "wf_module m \<longleftrightarrow> sorted_funcs (funcTable m) \<and> unat (funcTableCount m) = length (funcTable m) \<and>
     length (funcTable m) < 2 ^ 31"

lemma unat_mid:
  fixes s e :: u32
  assumes "unat s + unat e < 2 ^ 32"
  shows "unat ((s + e) div 2) = (unat s + unat e) div 2"
  using assms by (simp add: unat_div unat_word_ariths)

lemma ucast_le_iff [simp]: "ucast (x :: u32) \<le> (ucast y :: u64) \<longleftrightarrow> x \<le> y"
  by (simp add: word_le_def uint_up_ucast is_up)

lemma sorted_funcs_below:
  assumes "sorted_funcs t" and "i \<le> mid" and "mid < length t" and "ucast (endAddress (t ! mid)) < rva"
  shows "\<not> in_func (t ! i) rva"
proof -
  have "endAddress (t ! i) \<le> endAddress (t ! mid)"
    using assms(1-3) unfolding sorted_funcs_def
    by (metis le_neq_implies_less order_refl order_trans)
  then have "(ucast (endAddress (t ! i)) :: u64) \<le> ucast (endAddress (t ! mid))" by simp
  with assms(4) show ?thesis unfolding in_func_def by (meson leD order_le_less_trans)
qed

lemma sorted_funcs_above:
  assumes "sorted_funcs t" and "mid \<le> i" and "i < length t" and "rva < ucast (startAddress (t ! mid))"
  shows "\<not> in_func (t ! i) rva"
proof -
  have "startAddress (t ! mid) \<le> startAddress (t ! i)"
    using assms(1-3) unfolding sorted_funcs_def
    by (metis le_neq_implies_less order_le_less_trans order_refl order_trans)
  then have "(ucast (startAddress (t ! mid)) :: u64) \<le> ucast (startAddress (t ! i))" by simp
  with assms(4) show ?thesis unfolding in_func_def by (meson leD order_less_le_trans)
qed

lemma sorted_funcs_Cons:
  "sorted_funcs [] \<longleftrightarrow> True"
  "sorted_funcs (f # t) \<longleftrightarrow> startAddress f \<le> endAddress f \<and>
     (\<forall>g \<in> set t. endAddress f \<le> startAddress g) \<and> sorted_funcs t"
  by (auto simp: sorted_funcs_def All_less_Suc2 all_set_conv_all_nth)

lemma sorted_funcs_first_le:
  assumes "sorted_funcs t" and "i < length t"
  shows "startAddress (t ! 0) \<le> startAddress (t ! i)"
proof (cases "i = 0")
  case False
  have "0 < length t" using assms(2) by (rule order_le_less_trans [OF le0])
  with assms False have "startAddress (t ! 0) \<le> endAddress (t ! 0)"
    and "endAddress (t ! 0) \<le> startAddress (t ! i)"
    unfolding sorted_funcs_def by blast+
  then show ?thesis by (rule order_trans)
qed simp

lemma sum_below_2_32: "a \<le> b \<Longrightarrow> b < n \<Longrightarrow> n < 2 ^ 31 \<Longrightarrow> a + b < 2 ^ 32" for a b n :: nat
  by simp

lemma half_between: "a \<le> b \<Longrightarrow> a \<le> (a + b) div 2 \<and> (a + b) div 2 \<le> b" for a b :: nat
  by arith

lemma IsInRuntimeFunc_in:
  "unat i < length (funcTable m) \<Longrightarrow>
    IsInRuntimeFunc m i pc = Inr (in_func (funcTable m ! unat i) (pc - imageBaseStart m))"
  by (simp add: IsInRuntimeFunc_def)

text \<open>
  The loop on an address at or above the first entry: the invariant is that no entry below
  \<open>start\<close> and none above \<open>fin\<close> contains the address, and that \<open>fin\<close> is a table index.
\<close>

lemma grf_loop_correct:
  assumes wf: "wf_module m" and rva: "rva = pc - imageBaseStart m"
    and first: "ucast (startAddress (funcTable m ! 0)) \<le> rva"
  shows "unat fin < length (funcTable m) \<Longrightarrow> unat start \<le> unat fin + 1 \<Longrightarrow>
    \<forall>i < unat start. \<not> in_func (funcTable m ! i) rva \<Longrightarrow>
    \<forall>i < length (funcTable m). unat fin < i \<longrightarrow> \<not> in_func (funcTable m ! i) rva \<Longrightarrow>
    \<exists>r. grf_loop m pc start fin = Some (Inr r) \<and>
      (case r of Some f \<Rightarrow> f \<in> set (funcTable m) \<and> in_func f rva
       | None \<Rightarrow> \<forall>f \<in> set (funcTable m). \<not> in_func f rva)"
proof (induction "unat fin + 1 - unat start" arbitrary: start fin rule: less_induct)
  case less
  let ?t = "funcTable m"
  let ?mid = "(start + fin) div 2"
  have len: "length ?t < 2 ^ 31" and sorted: "sorted_funcs ?t"
    using wf by (simp_all add: wf_module_def)
  show ?case
  proof (cases "start \<le> fin")
    case False
    then have lt: "unat fin < unat start" by (simp add: word_le_nat_alt)
    have "\<not> in_func (?t ! i) rva" if "i < length ?t" for i
      using that lt less.prems(3,4) by (cases "i < unat start") auto
    then have "\<forall>f \<in> set ?t. \<not> in_func f rva" by (auto simp: in_set_conv_nth)
    with False show ?thesis by (simp add: grf_loop.simps)
  next
    case True
    then have se: "unat start \<le> unat fin" by (simp add: word_le_nat_alt)
    have "unat start + unat fin < 2 ^ 32"
      by (rule sum_below_2_32 [OF se less.prems(1) len])
    then have mid: "unat ?mid = (unat start + unat fin) div 2"
      by (rule unat_mid)
    have bounds: "unat start \<le> unat ?mid" "unat ?mid \<le> unat fin"
      unfolding mid using half_between [OF se] by simp_all
    have in_t: "unat ?mid < length ?t"
      by (rule order_le_less_trans [OF bounds(2) less.prems(1)])
    note unfold = grf_loop.simps [of m pc start fin] IsInRuntimeFunc_in [OF in_t, of pc, folded rva]
    show ?thesis
    proof (cases "in_func (?t ! unat ?mid) rva")
      case hit: True
      with True in_t show ?thesis by (simp add: unfold Let_def)
    next
      case miss: False
      show ?thesis
      proof (cases "rva > ucast (endAddress (?t ! unat ?mid))")
        case above: True
        have suc: "unat (?mid + 1) = unat ?mid + 1"
          using in_t len by (simp add: unat_word_ariths)
        have "\<forall>i < unat (?mid + 1). \<not> in_func (?t ! i) rva"
          using sorted_funcs_below [OF sorted _ in_t above] suc by auto
        moreover have "unat fin + 1 - unat (?mid + 1) < unat fin + 1 - unat start"
          using suc bounds by simp
        ultimately have "\<exists>r. grf_loop m pc (?mid + 1) fin = Some (Inr r) \<and>
            (case r of Some f \<Rightarrow> f \<in> set ?t \<and> in_func f rva
             | None \<Rightarrow> \<forall>f \<in> set ?t. \<not> in_func f rva)"
          using less.prems suc bounds by (intro less.hyps) auto
        with True miss above show ?thesis by (simp add: unfold Let_def rva)
      next
        case below: False
        then have lt: "rva < ucast (startAddress (?t ! unat ?mid))"
          using miss unfolding in_func_def by auto
        with first have "unat ?mid \<noteq> 0" by (metis leD)
        then have pre: "unat (?mid - 1) = unat ?mid - 1"
          by (metis unat_eq_zero unat_minus_one)
        have "\<forall>i < length ?t. unat (?mid - 1) < i \<longrightarrow> \<not> in_func (?t ! i) rva"
          using sorted_funcs_above [OF sorted _ _ lt] pre by auto
        moreover have "unat (?mid - 1) + 1 - unat start < unat fin + 1 - unat start"
          using pre bounds \<open>unat ?mid \<noteq> 0\<close> se by linarith
        ultimately have "\<exists>r. grf_loop m pc start (?mid - 1) = Some (Inr r) \<and>
            (case r of Some f \<Rightarrow> f \<in> set ?t \<and> in_func f rva
             | None \<Rightarrow> \<forall>f \<in> set ?t. \<not> in_func f rva)"
          using less.prems pre bounds in_t \<open>unat ?mid \<noteq> 0\<close> by (intro less.hyps) auto
        with True miss below show ?thesis by (simp add: unfold Let_def rva)
      qed
    qed
  qed
qed

text \<open>
  C15. The binary search is right and returns for every address at or above the first function:
  it yields an entry of the table that contains the address, or nothing when no entry does,
  and never reads outside the table.
\<close>

theorem GetRuntimeFunction_correct:
  assumes "wf_module m" and "funcTable m \<noteq> []"
    and "ucast (startAddress (funcTable m ! 0)) \<le> pc - imageBaseStart m"
  shows "\<exists>r. GetRuntimeFunction m pc = Some (Inr r) \<and>
    (case r of Some f \<Rightarrow> f \<in> set (funcTable m) \<and> in_func f (pc - imageBaseStart m)
     | None \<Rightarrow> \<forall>f \<in> set (funcTable m). \<not> in_func f (pc - imageBaseStart m))"
proof -
  have count: "unat (funcTableCount m) = length (funcTable m)"
    using assms(1) by (simp add: wf_module_def)
  with assms(2) have "funcTableCount m \<noteq> 0" by auto
  then have "unat (funcTableCount m - 1) = length (funcTable m) - 1"
    by (simp add: unat_minus_one count)
  with assms(2) show ?thesis
    unfolding GetRuntimeFunction_def
    by (intro grf_loop_correct [OF assms(1) refl assms(3)]) (auto simp: Suc_le_eq)
qed

lemma grf_loop_wrapped:
  assumes "length (funcTable m) < 2 ^ 31"
  shows "grf_loop m pc 0 (- 1) = Some (Inl OutOfBounds)"
proof -
  have "unat ((- 1 :: u32) div 2) = 2 ^ 31 - 1" by simp
  with assms show ?thesis
    by (subst grf_loop.simps) (simp add: Let_def IsInRuntimeFunc_def)
qed

lemma grf_loop_underflow:
  assumes wf: "wf_module m" and rva: "pc - imageBaseStart m < ucast (startAddress (funcTable m ! 0))"
  shows "unat fin < length (funcTable m) \<Longrightarrow> grf_loop m pc 0 fin = Some (Inl OutOfBounds)"
proof (induction "unat fin" arbitrary: fin rule: less_induct)
  case less
  let ?t = "funcTable m" and ?mid = "(0 + fin) div 2"
  have sorted: "sorted_funcs ?t" and len: "length ?t < 2 ^ 31"
    using wf by (simp_all add: wf_module_def)
  have mid: "unat ?mid = unat fin div 2" by (simp add: unat_div)
  then have in_t: "unat ?mid < length ?t" using less.prems by simp
  have lt: "pc - imageBaseStart m < ucast (startAddress (?t ! unat ?mid))"
  proof -
    have "startAddress (?t ! 0) \<le> startAddress (?t ! unat ?mid)"
      by (rule sorted_funcs_first_le [OF sorted in_t])
    then have "(ucast (startAddress (?t ! 0)) :: u64) \<le> ucast (startAddress (?t ! unat ?mid))" by simp
    with rva show ?thesis by (rule order_less_le_trans)
  qed
  have "startAddress (?t ! unat ?mid) \<le> endAddress (?t ! unat ?mid)"
    using sorted in_t unfolding sorted_funcs_def by blast
  then have "(ucast (startAddress (?t ! unat ?mid)) :: u64) \<le> ucast (endAddress (?t ! unat ?mid))"
    by (simp only: ucast_le_iff)
  then have lt': "pc - imageBaseStart m < ucast (endAddress (?t ! unat ?mid))"
    by (rule order_less_le_trans [OF lt])
  with lt have miss: "\<not> in_func (?t ! unat ?mid) (pc - imageBaseStart m)"
    and below: "\<not> pc - imageBaseStart m > ucast (endAddress (?t ! unat ?mid))"
    unfolding in_func_def by (auto simp del: ucast_le_iff dest: order_less_trans)
  have step: "grf_loop m pc 0 fin = grf_loop m pc 0 (?mid - 1)"
    using miss below in_t by (subst grf_loop.simps) (simp add: Let_def IsInRuntimeFunc_in)
  show ?case
  proof (cases "?mid = 0")
    case True
    with step len show ?thesis by (simp add: grf_loop_wrapped)
  next
    case False
    then have pre: "unat (?mid - 1) = unat ?mid - 1" by (simp add: unat_minus_one)
    moreover have "unat ?mid \<noteq> 0" using False by (simp add: unat_eq_zero)
    ultimately have "unat (?mid - 1) < unat fin" using mid by simp
    with step less.hyps [of "?mid - 1"] less.prems show ?thesis by simp
  qed
qed

text \<open>
  Below the first function, and on a module without functions, the same search leaves the
  table: \<open>end = mid - 1\<close> (or \<open>funcTableCount - 1\<close>) wraps to \<open>0xFFFFFFFF\<close>, the loop goes on, and
  the next probe is entry \<open>0x7FFFFFFF\<close>. The function should have returned \<open>nullptr\<close>.
\<close>

theorem GetRuntimeFunction_below_first_out_of_bounds:
  assumes "wf_module m"
    and "funcTable m = [] \<or> pc - imageBaseStart m < ucast (startAddress (funcTable m ! 0))"
  shows "GetRuntimeFunction m pc = Some (Inl OutOfBounds)"
proof (cases "funcTable m = []")
  case True
  then have "funcTableCount m = 0"
    using assms(1) by (simp add: wf_module_def unat_eq_zero)
  with True show ?thesis
    by (simp add: GetRuntimeFunction_def grf_loop_wrapped)
next
  case False
  have count: "unat (funcTableCount m) = length (funcTable m)"
    using assms(1) by (simp add: wf_module_def)
  with False have "funcTableCount m \<noteq> 0" by auto
  then have "unat (funcTableCount m - 1) = length (funcTable m) - 1"
    by (simp add: unat_minus_one count)
  with False assms(2) show ?thesis
    unfolding GetRuntimeFunction_def by (intro grf_loop_underflow [OF assms(1)]) auto
qed

text \<open>
  The search returns on every module whose table has the entries its count claims, sorted or
  not: each round either stops or shrinks the range, and the wrapped range stops at once.
\<close>

definition sane_module :: "win_module \<Rightarrow> bool" where
  "sane_module m \<longleftrightarrow> unat (funcTableCount m) \<le> length (funcTable m) \<and> length (funcTable m) < 2 ^ 31"

lemma wf_sane_module: "wf_module m \<Longrightarrow> sane_module m"
  by (simp add: wf_module_def sane_module_def)

lemma grf_loop_returns:
  assumes len: "length (funcTable m) < 2 ^ 31"
  shows "unat fin < length (funcTable m) \<Longrightarrow> grf_loop m pc start fin \<noteq> None"
proof (induction "unat fin + 1 - unat start" arbitrary: start fin rule: less_induct)
  case less
  let ?mid = "(start + fin) div 2"
  show ?case
  proof (cases "start \<le> fin")
    case False
    then show ?thesis by (simp add: grf_loop.simps)
  next
    case True
    then have se: "unat start \<le> unat fin" by (simp add: word_le_nat_alt)
    have "unat start + unat fin < 2 ^ 32"
      by (rule sum_below_2_32 [OF se less.prems len])
    then have mid: "unat ?mid = (unat start + unat fin) div 2"
      by (rule unat_mid)
    have bounds: "unat start \<le> unat ?mid" "unat ?mid \<le> unat fin"
      unfolding mid using half_between [OF se] by simp_all
    have in_t: "unat ?mid < length (funcTable m)"
      by (rule order_le_less_trans [OF bounds(2) less.prems])
    have suc: "unat (?mid + 1) = unat ?mid + 1"
      using in_t len by (simp add: unat_word_ariths)
    have up: "grf_loop m pc (?mid + 1) fin \<noteq> None"
      using suc bounds less.prems by (intro less.hyps) auto
    have down: "grf_loop m pc start (?mid - 1) \<noteq> None"
    proof (cases "?mid = 0")
      case zero: True
      then have "start = 0" using bounds(1) by (simp add: unat_eq_zero)
      then show ?thesis using grf_loop_wrapped [OF len] zero by simp
    next
      case False
      then have "unat (?mid - 1) = unat ?mid - 1" "unat ?mid \<noteq> 0"
        by (simp_all add: unat_minus_one unat_eq_zero)
      then show ?thesis using bounds se in_t by (intro less.hyps) auto
    qed
    show ?thesis
      using True up down IsInRuntimeFunc_in [OF in_t, of pc]
      by (subst grf_loop.simps) (simp add: Let_def)
  qed
qed

lemma GetRuntimeFunction_returns: "sane_module m \<Longrightarrow> GetRuntimeFunction m pc \<noteq> None"
proof (cases "funcTableCount m = 0")
  case True
  assume "sane_module m"
  with True show ?thesis
    by (simp add: GetRuntimeFunction_def grf_loop_wrapped sane_module_def)
next
  case False
  assume "sane_module m"
  then have "unat (funcTableCount m) - 1 < length (funcTable m)" and "length (funcTable m) < 2 ^ 31"
    using False unat_gt_0 [of "funcTableCount m"] unfolding sane_module_def by linarith+
  then show ?thesis
    unfolding GetRuntimeFunction_def
    by (intro grf_loop_returns) (simp_all only: unat_minus_one [OF False])
qed

section \<open>The table of modules\<close>

definition distinct_names :: "win_modules \<Rightarrow> bool" where
  "distinct_names ms \<longleftrightarrow> distinct (map moduleName ms)"

lemma emplace_mono: "\<exists>ns. emplace m ms = ms @ ns"
  by (simp add: emplace_def)

lemma emplace_distinct: "distinct_names ms \<Longrightarrow> distinct_names (emplace m ms)"
  by (auto simp: emplace_def distinct_names_def)

lemma emplace_name: "moduleName m \<in> moduleName ` set (emplace m ms)"
  by (auto simp: emplace_def)

lemma read_ldr_mono: "\<exists>ns. read_ldr es ms = ms @ ns"
proof (induction es ms rule: read_ldr.induct)
  case (2 e es ms)
  then show ?case
    using emplace_mono by (auto split: option.split) (metis append_assoc)+
qed simp

lemma ReadModuleInfo_mono: "\<exists>ns. ReadModuleInfo hs ms = ms @ ns"
proof (induction hs ms rule: ReadModuleInfo.induct)
  case (2 h hs ms)
  then show ?case
    using emplace_mono by auto (metis append_assoc)
qed simp

lemma read_ldr_distinct: "distinct_names ms \<Longrightarrow> distinct_names (read_ldr es ms)"
  by (induction es ms rule: read_ldr.induct) (auto simp: emplace_distinct split: option.split)

lemma ReadModuleInfo_distinct: "distinct_names ms \<Longrightarrow> distinct_names (ReadModuleInfo hs ms)"
  by (induction hs ms rule: ReadModuleInfo.induct) (auto simp: emplace_distinct)

lemma ReadModuleInfo_registers:
  "h \<in> set hs \<Longrightarrow> pm_file h \<notin> set nativeLibNames \<Longrightarrow>
    pm_dir h @ pm_file h \<in> moduleName ` set (ReadModuleInfo hs ms)"
proof (induction hs ms rule: ReadModuleInfo.induct)
  case (2 g hs ms)
  have "pm_dir g @ pm_file g \<in> moduleName ` set (ReadModuleInfo hs (emplace (new_module (pm_image g) (pm_dir g @ pm_file g)) ms))"
    using ReadModuleInfo_mono [of hs "emplace (new_module (pm_image g) (pm_dir g @ pm_file g)) ms"]
      emplace_name [of "new_module (pm_image g) (pm_dir g @ pm_file g)" ms]
    by (auto simp: new_module_def)
  with 2 show ?case by auto
qed simp

lemma find_app_Some: "find P xs = Some x \<Longrightarrow> find P (xs @ ys) = Some x"
  by (induction xs) auto

text \<open>
  Reading the modules again while the process runs keeps the names in the table distinct,
  never displaces a module (every lookup by address or name that succeeded still gives the same
  module), and registers every enumerated module that is not on the native list.
\<close>

theorem ReadWinModuleAtRunning_extends:
  assumes "distinct_names ms" and "ReadWinModuleAtRunning enum1 enum2 ms = Inr ms'"
  shows "distinct_names ms' \<and>
    (\<forall>pc m. GetWinModuleByPc ms pc = Some m \<longrightarrow> GetWinModuleByPc ms' pc = Some m) \<and>
    (\<forall>name m. GetWinModuleByName ms name = Some m \<longrightarrow> GetWinModuleByName ms' name = Some m) \<and>
    (\<forall>h \<in> set (if length enum1 \<le> moduleHandlerCapacity then enum1 else take (length enum1) enum2).
      pm_file h \<notin> set nativeLibNames \<longrightarrow> pm_dir h @ pm_file h \<in> moduleName ` set ms')"
proof -
  let ?hs = "if length enum1 \<le> moduleHandlerCapacity then enum1 else take (length enum1) enum2"
  have ms': "ms' = ReadModuleInfo ?hs ms"
    using assms(2) by (auto simp: ReadWinModuleAtRunning_def Let_def split: if_splits)
  obtain ns where "ms' = ms @ ns"
    using ReadModuleInfo_mono [of ?hs ms] ms' by blast
  then show ?thesis
    using assms(1) ReadModuleInfo_distinct [of ms ?hs] ReadModuleInfo_registers [of _ ?hs ms] ms'
    by (auto simp: GetWinModuleByPc_def GetWinModuleByName_def find_app_Some)
qed

text \<open>
  The two readers name modules differently, by file name at start-up and by full path
  later, so the set's equality does not recognise a module that is already there: reloading a
  module found at start-up under a non-empty directory adds a second entry for the same image.
\<close>

theorem reload_duplicates_module:
  assumes "name \<noteq> []" and "name \<notin> set nativeLibNames" and "dir \<noteq> []"
  shows "ReadWinModuleAtRunning [\<lparr>pm_dir = dir, pm_file = name, pm_image = i\<rparr>] enum2
      (ReadWinModuleAtInit [\<lparr>baseDllName = Some name, ldr_image = i\<rparr>] []) =
    Inr [new_module i name, new_module i (dir @ name)]"
  using assms
  by (simp add: ReadWinModuleAtRunning_def ReadWinModuleAtInit_def moduleHandlerCapacity_def
      emplace_def new_module_def Let_def)

section \<open>Concrete modules\<close>

definition demo_image :: image where
  "demo_image = \<lparr>img_base = 0x10000, img_size = 0x4000,
     img_exceptions = [\<lparr>startAddress = 0x1000, endAddress = 0x1080, unwindInfoOffset = 0x3000\<rparr>,
                       \<lparr>startAddress = 0x1080, endAddress = 0x1100, unwindInfoOffset = 0x3010\<rparr>,
                       \<lparr>startAddress = 0x1200, endAddress = 0x1300, unwindInfoOffset = 0x3020\<rparr>],
     img_exceptions_bytes = 36\<rparr>"

definition demo_module :: win_module where
  "demo_module = new_module demo_image ''a.dll''"

lemma demo_module_sorted: "sorted_funcs (funcTable demo_module)"
  by (simp add: sorted_funcs_Cons demo_module_def demo_image_def new_module_def)

lemma demo_module_wf: "wf_module demo_module"
  using demo_module_sorted
  by (simp add: wf_module_def demo_module_def demo_image_def new_module_def)

theorem GetRuntimeFunction_correct_witness:
  "\<exists>f. GetRuntimeFunction demo_module 0x11250 = Some (Inr (Some f)) \<and>
    in_func f (0x11250 - imageBaseStart demo_module)"
proof -
  have "funcTable demo_module \<noteq> []"
    "ucast (startAddress (funcTable demo_module ! 0)) \<le> 0x11250 - imageBaseStart demo_module"
    by (simp_all add: demo_module_def demo_image_def new_module_def)
  from GetRuntimeFunction_correct [OF demo_module_wf this] obtain r where
    r: "GetRuntimeFunction demo_module 0x11250 = Some (Inr r)"
      "case r of Some f \<Rightarrow> f \<in> set (funcTable demo_module) \<and> in_func f (0x11250 - imageBaseStart demo_module)
       | None \<Rightarrow> \<forall>f \<in> set (funcTable demo_module). \<not> in_func f (0x11250 - imageBaseStart demo_module)"
    by blast
  then show ?thesis
    by (cases r) (auto simp: demo_module_def demo_image_def new_module_def in_func_def)
qed

theorem GetRuntimeFunction_below_first_out_of_bounds_witness:
  "GetRuntimeFunction demo_module 0x10010 = Some (Inl OutOfBounds)"
proof -
  have "funcTable demo_module = [] \<or>
    0x10010 - imageBaseStart demo_module < ucast (startAddress (funcTable demo_module ! 0))"
    by (simp add: demo_module_def demo_image_def new_module_def)
  from GetRuntimeFunction_below_first_out_of_bounds [OF demo_module_wf this] show ?thesis .
qed

theorem ReadWinModuleAtRunning_extends_witness:
  "\<exists>ms'. ReadWinModuleAtRunning [\<lparr>pm_dir = ''C:'', pm_file = ''b.dll'', pm_image = demo_image\<rparr>] [] [demo_module]
      = Inr ms' \<and> GetWinModuleByName ms' ''a.dll'' = Some demo_module \<and> distinct_names ms'"
proof -
  have n: "GetWinModuleByName [demo_module] ''a.dll'' = Some demo_module"
    by (simp add: GetWinModuleByName_def demo_module_def new_module_def)
  have d: "distinct_names [demo_module]" by (simp add: distinct_names_def)
  obtain ms' where r: "ReadWinModuleAtRunning [\<lparr>pm_dir = ''C:'', pm_file = ''b.dll'', pm_image = demo_image\<rparr>]
      [] [demo_module] = Inr ms'"
    by (simp add: ReadWinModuleAtRunning_def moduleHandlerCapacity_def)
  from ReadWinModuleAtRunning_extends [OF d r] r n show ?thesis by blast
qed

theorem reload_duplicates_module_witness:
  "ReadWinModuleAtRunning [\<lparr>pm_dir = ''C:'', pm_file = ''a.dll'', pm_image = demo_image\<rparr>] []
      (ReadWinModuleAtInit [\<lparr>baseDllName = Some ''a.dll'', ldr_image = demo_image\<rparr>] []) =
    Inr [demo_module, new_module demo_image ''C:a.dll'']"
  using reload_duplicates_module [of "''a.dll''" "''C:''" demo_image "[]"]
  by (simp add: nativeLibNames_def demo_module_def)

end
