(* ===== verification/WinUnwind.thy ===== *)
theory WinUnwind
  imports WinModules
begin

text \<open>
  The Windows stack unwinder, \<^verbatim>\<open>rt0/os/Windows/UnwindWin.{h,cpp}\<close>: the unwind codes of a
  function's prologue, the size of the frame they describe, and the frame of the caller. The
  encoder is the specification the decoder is proved against: it follows the PE format of the
  unwind codes that the enumeration of the header names.
\<close>

section \<open>Unwind codes\<close>

record unwind_code =
  codeOffset :: u8
  unwindOpAndOpInfo :: u8

text \<open>The other view of the union: the two bytes as one little-endian \<open>uint16_t\<close>.\<close>

definition frameOffset :: "unwind_code \<Rightarrow> u16" where
  "frameOffset c = ucast (codeOffset c) OR push_bit 8 (ucast (unwindOpAndOpInfo c))"

definition GetUnwindOp :: "unwind_code \<Rightarrow> u8" where
  "GetUnwindOp c = unwindOpAndOpInfo c AND 0x0f"

definition GetOpInfo :: "unwind_code \<Rightarrow> u8" where
  "GetOpInfo c = drop_bit 4 (unwindOpAndOpInfo c) AND 0x0f"

text \<open>
  \<open>unwindCodes\<close> holds the codes that can be read from the address of the array on; an index
  past them is a read outside the unwind information.
\<close>

record unwind_info =
  versionAndFlags :: u8
  prologSize :: u8
  codesCount :: u8
  frameRegisterAndOffset :: u8
  unwindCodes :: "unwind_code list"

definition GetVersion :: "unwind_info \<Rightarrow> u8" where
  "GetVersion u = versionAndFlags u AND 0x07"

definition GetFlags :: "unwind_info \<Rightarrow> u8" where
  "GetFlags u = drop_bit 3 (versionAndFlags u) AND 0x1f"

definition GetFrameRegister :: "unwind_info \<Rightarrow> u8" where
  "GetFrameRegister u = frameRegisterAndOffset u AND 0x0f"

definition GetFrameOffset :: "unwind_info \<Rightarrow> u8" where
  "GetFrameOffset u = drop_bit 4 (frameRegisterAndOffset u) AND 0x0f"

text \<open>The operations, \<open>enum UnwindOpCodes\<close>, in the order of their numbers.\<close>

abbreviation PUSH_NON_VOL :: u8 where "PUSH_NON_VOL \<equiv> 0"
abbreviation ALLOC_LARGE :: u8 where "ALLOC_LARGE \<equiv> 1"
abbreviation ALLOC_SMALL :: u8 where "ALLOC_SMALL \<equiv> 2"
abbreviation SET_FP_REG :: u8 where "SET_FP_REG \<equiv> 3"
abbreviation SAVE_NON_VOL :: u8 where "SAVE_NON_VOL \<equiv> 4"
abbreviation SAVE_NON_VOL_FAR :: u8 where "SAVE_NON_VOL_FAR \<equiv> 5"
abbreviation SAVE_XMM128 :: u8 where "SAVE_XMM128 \<equiv> 8"
abbreviation SAVE_XMM128_FAR :: u8 where "SAVE_XMM128_FAR \<equiv> 9"
abbreviation PUSH_MACH_FRAME :: u8 where "PUSH_MACH_FRAME \<equiv> 10"

definition GetSlotsNum :: "unwind_code \<Rightarrow> nat res" where
  "GetSlotsNum c =
     (let op = GetUnwindOp c in
      if op = PUSH_NON_VOL \<or> op = ALLOC_SMALL \<or> op = SET_FP_REG \<or> op = PUSH_MACH_FRAME then Inr 1
      else if op = SAVE_NON_VOL \<or> op = SAVE_XMM128 then Inr 2
      else if op = SAVE_NON_VOL_FAR \<or> op = SAVE_XMM128_FAR then Inr 3
      else if op = ALLOC_LARGE then Inr (if GetOpInfo c = 0 then 2 else 3)
      else Inl Fatal)"

definition code_at :: "unwind_info \<Rightarrow> nat \<Rightarrow> unwind_code res" where
  "code_at u i = (if i < length (unwindCodes u) then Inr (unwindCodes u ! i) else Inl OutOfBounds)"

text \<open>
  The body of the loop in \<open>GetStackOffset\<close>: \<open>allocSize\<close> and \<open>pushRegOffset\<close> after the code at
  \<open>i\<close>. Both allocations assign \<open>allocSize\<close>.
\<close>

definition stack_offset_step :: "unwind_info \<Rightarrow> nat \<Rightarrow> unwind_code \<Rightarrow> u32 \<Rightarrow> u32 \<Rightarrow> (u32 \<times> u32) res" where
  "stack_offset_step u i c allocSize pushRegOffset =
     (let op = GetUnwindOp c in
      if op = PUSH_NON_VOL then Inr (allocSize, pushRegOffset + 8)
      else if op = ALLOC_SMALL then Inr ((ucast (GetOpInfo c) + 1) * 8, pushRegOffset)
      else if op = ALLOC_LARGE then
        if GetOpInfo c = 0 then
          and_then (code_at u (i + 1)) (\<lambda>c1. Inr (ucast (frameOffset c1) * 8, pushRegOffset))
        else
          and_then (code_at u (i + 1)) (\<lambda>c1.
          and_then (code_at u (i + 2)) (\<lambda>c2.
            Inr (ucast (frameOffset c1) + push_bit 16 (ucast (frameOffset c2)), pushRegOffset)))
      else Inr (allocSize, pushRegOffset))"

lemma GetSlotsNum_pos: "GetSlotsNum c = Inr n \<Longrightarrow> 0 < n"
  by (auto simp: GetSlotsNum_def Let_def split: if_splits)

function stack_offset_loop :: "unwind_info \<Rightarrow> nat \<Rightarrow> u32 \<Rightarrow> u32 \<Rightarrow> u32 res" where
  "stack_offset_loop u i allocSize pushRegOffset =
     (if i < unat (codesCount u) then
        case code_at u i of
          Inl e \<Rightarrow> Inl e
        | Inr c \<Rightarrow>
            (case stack_offset_step u i c allocSize pushRegOffset of
               Inl e \<Rightarrow> Inl e
             | Inr (a, p) \<Rightarrow>
                 (case GetSlotsNum c of
                    Inl e \<Rightarrow> Inl e
                  | Inr n \<Rightarrow> stack_offset_loop u (i + n) a p))
      else Inr (allocSize + pushRegOffset))"
  by pat_completeness auto
termination
  by (relation "measure (\<lambda>(u, i, _, _). unat (codesCount u) - i)")
    (auto dest: GetSlotsNum_pos)

declare stack_offset_loop.simps [simp del]

definition GetStackOffset :: "unwind_info \<Rightarrow> u32 res" where
  "GetStackOffset u = stack_offset_loop u 0 0 0"

section \<open>The format, as an encoder\<close>

text \<open>
  One step of a prologue with the offset byte its code carries. An allocation of \<open>n\<close> bytes
  takes the shortest of the three forms.
\<close>

datatype prolog_op =
    PushReg u8
  | AllocBytes u32
  | SetFrame
  | SaveReg u8 u16
  | SaveRegFar u8 u32
  | SaveXmm u8 u16
  | SaveXmmFar u8 u32

definition op_code :: "u8 \<Rightarrow> u8 \<Rightarrow> u8 \<Rightarrow> unwind_code" where
  "op_code off op info = \<lparr>codeOffset = off, unwindOpAndOpInfo = take_bit 4 op OR push_bit 4 info\<rparr>"

definition slot :: "u16 \<Rightarrow> unwind_code" where
  "slot v = \<lparr>codeOffset = ucast v, unwindOpAndOpInfo = ucast (drop_bit 8 v)\<rparr>"

definition far_slots :: "u32 \<Rightarrow> unwind_code list" where
  "far_slots v = [slot (ucast v), slot (ucast (drop_bit 16 v))]"

fun encode_op :: "u8 \<Rightarrow> prolog_op \<Rightarrow> unwind_code list" where
  "encode_op off (PushReg r) = [op_code off PUSH_NON_VOL r]"
| "encode_op off (AllocBytes n) =
     (if 8 \<le> unat n \<and> unat n \<le> 128 \<and> unat n mod 8 = 0
      then [op_code off ALLOC_SMALL (of_nat (unat n div 8 - 1))]
      else if unat n mod 8 = 0 \<and> unat n div 8 < 2 ^ 16
      then [op_code off ALLOC_LARGE 0, slot (of_nat (unat n div 8))]
      else op_code off ALLOC_LARGE 1 # far_slots n)"
| "encode_op off SetFrame = [op_code off SET_FP_REG 0]"
| "encode_op off (SaveReg r d) = [op_code off SAVE_NON_VOL r, slot d]"
| "encode_op off (SaveRegFar r d) = op_code off SAVE_NON_VOL_FAR r # far_slots d"
| "encode_op off (SaveXmm r d) = [op_code off SAVE_XMM128 r, slot d]"
| "encode_op off (SaveXmmFar r d) = op_code off SAVE_XMM128_FAR r # far_slots d"

definition encode_ops :: "(u8 \<times> prolog_op) list \<Rightarrow> unwind_code list" where
  "encode_ops ops = concat (map (\<lambda>(off, op). encode_op off op) ops)"

text \<open>What a prologue moves the stack pointer by, and what the decoder keeps of it.\<close>

fun op_size :: "prolog_op \<Rightarrow> u32" where
  "op_size (PushReg r) = 8"
| "op_size (AllocBytes n) = n"
| "op_size _ = 0"

definition frame_size :: "(u8 \<times> prolog_op) list \<Rightarrow> u32" where
  "frame_size ops = sum_list (map (op_size \<circ> snd) ops)"

fun is_alloc :: "prolog_op \<Rightarrow> bool" where
  "is_alloc (AllocBytes n) = True"
| "is_alloc _ = False"

fun push_size :: "prolog_op \<Rightarrow> u32" where
  "push_size (PushReg r) = 8"
| "push_size _ = 0"

fun decoded :: "(u8 \<times> prolog_op) list \<Rightarrow> u32 \<Rightarrow> u32 \<Rightarrow> u32" where
  "decoded [] a p = a + p"
| "decoded ((off, op) # ops) a p =
     decoded ops (case op of AllocBytes n \<Rightarrow> n | _ \<Rightarrow> a) (p + push_size op)"

section \<open>Decoding what was encoded\<close>

lemma and_0x0f: "(x :: u8) AND 0x0f = take_bit 4 x"
  by (simp add: take_bit_eq_mask mask_eq_exp_minus_1)

lemma GetUnwindOp_op_code [simp]: "GetUnwindOp (op_code off op info) = take_bit 4 op"
  by (rule bit_word_eqI)
    (auto simp: GetUnwindOp_def op_code_def and_0x0f bit_take_bit_iff bit_or_iff bit_push_bit_iff)

lemma GetOpInfo_op_code [simp]: "GetOpInfo (op_code off op info) = take_bit 4 info"
  by (rule bit_word_eqI)
    (auto simp: GetOpInfo_def op_code_def and_0x0f bit_take_bit_iff bit_or_iff bit_push_bit_iff bit_drop_bit_eq)

lemma frameOffset_slot [simp]: "frameOffset (slot v) = v"
  by (rule bit_word_eqI)
    (auto simp: frameOffset_def slot_def bit_or_iff bit_push_bit_iff bit_ucast_iff bit_drop_bit_eq)

lemma far_slots_join:
  "ucast (ucast v :: u16) + push_bit 16 (ucast (ucast (drop_bit 16 v) :: u16)) = (v :: u32)"
proof -
  have "ucast (ucast v :: u16) OR push_bit 16 (ucast (ucast (drop_bit 16 v) :: u16)) = (v :: u32)"
    by (rule bit_word_eqI)
      (auto simp: bit_or_iff bit_push_bit_iff bit_ucast_iff bit_drop_bit_eq)
  moreover have "ucast (ucast v :: u16) AND push_bit 16 (ucast (ucast (drop_bit 16 v) :: u16)) = (0 :: u32)"
    by (rule bit_word_eqI)
      (auto simp: bit_and_iff bit_push_bit_iff bit_ucast_iff dest: bit_imp_le_length)
  ultimately show ?thesis by (simp add: disjunctive_add_eq_or)
qed

lemma small_alloc_value:
  assumes "8 \<le> unat n" and "unat n \<le> 128" and "unat n mod 8 = 0"
  shows "(ucast (take_bit 4 (of_nat (unat n div 8 - 1) :: u8)) + 1) * 8 = (n :: u32)"
proof -
  have k: "unat n div 8 - 1 < 16" and n: "unat n = 8 * (unat n div 8 - 1) + 8"
    using assms by presburger+
  define k where "k = unat n div 8 - 1"
  have "take_bit 4 (of_nat k :: u8) = of_nat k"
    using k by (simp add: k_def take_bit_of_nat take_bit_nat_eq_self)
  then have "ucast (take_bit 4 (of_nat k :: u8)) = (of_nat k :: u32)"
    using k by (simp add: k_def unsigned_of_nat take_bit_nat_eq_self)
  then have "(ucast (take_bit 4 (of_nat k :: u8)) + 1) * 8 = (of_nat (8 * k + 8) :: u32)"
    by (simp add: algebra_simps)
  also have "\<dots> = of_nat (unat n)" using n by (simp only: k_def)
  finally show ?thesis by (simp add: k_def)
qed

lemma large_alloc_value:
  assumes "unat n mod 8 = 0" and "unat n div 8 < 2 ^ 16"
  shows "ucast (of_nat (unat n div 8) :: u16) * 8 = (n :: u32)"
proof -
  define k where "k = unat n div 8"
  have "ucast (of_nat k :: u16) = (of_nat k :: u32)"
    using assms(2) by (simp add: k_def unsigned_of_nat take_bit_nat_eq_self)
  then have "ucast (of_nat k :: u16) * 8 = (of_nat (k * 8) :: u32)" by simp
  also have "k * 8 = unat n" using assms(1) by (auto simp: k_def)
  finally show ?thesis by (simp add: k_def)
qed

lemma GetSlotsNum_encode:
  "encode_op off op = c # cs \<Longrightarrow> GetSlotsNum c = Inr (length (encode_op off op))"
  by (cases op) (auto simp: GetSlotsNum_def Let_def far_slots_def split: if_splits)

lemma encode_op_nonempty: "\<exists>c cs. encode_op off op = c # cs"
  by (cases op) auto

lemma code_at_app:
  "unwindCodes u = pre @ mid @ post \<Longrightarrow> j < length mid \<Longrightarrow> code_at u (length pre + j) = Inr (mid ! j)"
  by (simp add: code_at_def nth_append)

lemma code_at_app_Suc:
  assumes "unwindCodes u = pre @ mid @ post"
  shows "1 < length mid \<Longrightarrow> code_at u (Suc (length pre)) = Inr (mid ! 1)"
    and "2 < length mid \<Longrightarrow> code_at u (Suc (Suc (length pre))) = Inr (mid ! 2)"
  using code_at_app [OF assms, of 1] code_at_app [OF assms, of 2] by simp_all

lemma stack_offset_step_encode:
  assumes "unwindCodes u = pre @ encode_op off op @ post" and "encode_op off op = c # cs"
  shows "stack_offset_step u (length pre) c a p =
    Inr (case op of AllocBytes n \<Rightarrow> n | _ \<Rightarrow> a, p + push_size op)"
proof (cases op)
  case (AllocBytes n)
  note code = assms(1) [unfolded AllocBytes]
  consider
      (small) "8 \<le> unat n" "unat n \<le> 128" "unat n mod 8 = 0"
    | (large) "\<not> (8 \<le> unat n \<and> unat n \<le> 128 \<and> unat n mod 8 = 0)" "unat n mod 8 = 0" "unat n div 8 < 2 ^ 16"
    | (far) "\<not> (8 \<le> unat n \<and> unat n \<le> 128 \<and> unat n mod 8 = 0)"
        "\<not> (unat n mod 8 = 0 \<and> unat n div 8 < 2 ^ 16)"
    by metis
  then show ?thesis
  proof cases
    case small
    then have c: "c = op_code off ALLOC_SMALL (of_nat (unat n div 8 - 1))"
      using assms(2) AllocBytes by auto
    have "GetUnwindOp c = ALLOC_SMALL" unfolding c by simp
    moreover have "(ucast (GetOpInfo c) + 1) * 8 = n"
      unfolding c GetOpInfo_op_code by (rule small_alloc_value [OF small])
    ultimately show ?thesis by (simp add: stack_offset_step_def AllocBytes)
  next
    case large
    have enc: "encode_op off (AllocBytes n) = [op_code off ALLOC_LARGE 0, slot (of_nat (unat n div 8))]"
      unfolding encode_op.simps if_not_P [OF large(1)] if_P [OF conjI [OF large(2,3)]] ..
    have "code_at u (Suc (length pre)) = Inr (slot (of_nat (unat n div 8)))"
      using code_at_app_Suc(1) [OF code] unfolding enc by simp
    with assms(2) large_alloc_value [OF large(2,3)] show ?thesis
      unfolding AllocBytes enc by (auto simp: stack_offset_step_def Let_def)
  next
    case far
    have enc: "encode_op off (AllocBytes n) = op_code off ALLOC_LARGE 1 # far_slots n"
      unfolding encode_op.simps if_not_P [OF far(1)] if_not_P [OF far(2)] ..
    have "code_at u (Suc (length pre)) = Inr (slot (ucast n))"
      and "code_at u (Suc (Suc (length pre))) = Inr (slot (ucast (drop_bit 16 n)))"
      using code_at_app_Suc [OF code] unfolding enc by (simp_all add: far_slots_def)
    with assms(2) far_slots_join [of n] show ?thesis
      unfolding AllocBytes enc by (auto simp: stack_offset_step_def Let_def)
  qed
qed (use assms(2) in \<open>auto simp: stack_offset_step_def Let_def\<close>)

lemma stack_offset_loop_encode:
  "unwindCodes u = pre @ encode_ops ops @ post \<Longrightarrow>
   unat (codesCount u) = length pre + length (encode_ops ops) \<Longrightarrow>
   stack_offset_loop u (length pre) a p = Inr (decoded ops a p)"
proof (induction ops arbitrary: pre a p)
  case Nil
  then show ?case by (simp add: stack_offset_loop.simps encode_ops_def)
next
  case (Cons x ops)
  obtain off op where x: "x = (off, op)" by (cases x)
  obtain c cs where enc: "encode_op off op = c # cs" using encode_op_nonempty by blast
  have split: "unwindCodes u = pre @ encode_op off op @ (encode_ops ops @ post)"
    using Cons.prems(1) by (simp add: x encode_ops_def)
  have at: "code_at u (length pre) = Inr c"
    using code_at_app [OF split, of 0] enc by simp
  have lt: "length pre < unat (codesCount u)"
    using Cons.prems(2) enc by (simp add: x encode_ops_def)
  have "stack_offset_loop u (length pre) a p =
      stack_offset_loop u (length (pre @ encode_op off op))
        (case op of AllocBytes n \<Rightarrow> n | _ \<Rightarrow> a) (p + push_size op)"
    using lt at stack_offset_step_encode [OF split enc] GetSlotsNum_encode [OF enc]
    by (subst stack_offset_loop.simps) simp
  also have "\<dots> = Inr (decoded ops (case op of AllocBytes n \<Rightarrow> n | _ \<Rightarrow> a) (p + push_size op))"
    using Cons.prems by (intro Cons.IH) (simp_all add: x encode_ops_def)
  finally show ?case by (simp add: x)
qed

lemma decoded_no_alloc:
  "\<not> list_ex (is_alloc \<circ> snd) ops \<Longrightarrow> decoded ops a p = a + p + frame_size ops"
proof (induction ops arbitrary: a p)
  case (Cons x ops)
  then show ?case by (cases "snd x"; cases x) (auto simp: frame_size_def)
qed (simp add: frame_size_def)

lemma decoded_one_alloc:
  "length (filter (is_alloc \<circ> snd) ops) \<le> 1 \<Longrightarrow> decoded ops 0 p = p + frame_size ops"
proof (induction ops arbitrary: p)
  case (Cons x ops)
  show ?case
  proof (cases "is_alloc (snd x)")
    case True
    with Cons.prems have "\<not> list_ex (is_alloc \<circ> snd) ops"
      by (auto simp: list_ex_iff filter_empty_conv)
    with True show ?thesis
      by (cases "snd x"; cases x) (auto simp: decoded_no_alloc frame_size_def)
  next
    case False
    with Cons show ?thesis by (cases "snd x"; cases x) (auto simp: frame_size_def)
  qed
qed (simp add: frame_size_def)

lemma GetStackOffset_encode:
  assumes "unwindCodes u = encode_ops ops @ rest" and "unat (codesCount u) = length (encode_ops ops)"
  shows "GetStackOffset u = Inr (decoded ops 0 0)"
  using stack_offset_loop_encode [of u "[]" ops rest 0 0] assms by (simp add: GetStackOffset_def)

text \<open>
  C16. The decoder is right for a prologue with at most one allocation, whatever its pushes,
  register saves and frame set-up: from the codes the prologue is encoded as,
  \<open>GetStackOffset\<close> gives back the number of bytes the prologue moves the stack pointer by, for
  each of the three forms of an allocation.
\<close>

theorem GetStackOffset_encode_one_alloc:
  assumes "unwindCodes u = encode_ops ops @ rest" and "unat (codesCount u) = length (encode_ops ops)"
    and "length (filter (is_alloc \<circ> snd) ops) \<le> 1"
  shows "GetStackOffset u = Inr (frame_size ops)"
  using GetStackOffset_encode [OF assms(1,2)] decoded_one_alloc [OF assms(3), of 0] by simp

lemma decoded_app:
  "\<not> list_ex (is_alloc \<circ> snd) ops \<Longrightarrow> decoded (ops @ ops') a p = decoded ops' a (p + frame_size ops)"
proof (induction ops arbitrary: a p)
  case (Cons x ops)
  then show ?case by (cases "snd x"; cases x) (auto simp: frame_size_def add.assoc)
qed (simp add: frame_size_def)

text \<open>
  A prologue with two allocations loses one: each allocation code assigns \<open>allocSize\<close>
  instead of adding to it, so the one that comes first among the codes is missing from the
  result, which the source's comment calls ``calleesaved size + allocstack size''.
\<close>

theorem GetStackOffset_drops_second_alloc:
  assumes "unwindCodes u = encode_ops ops @ rest" and "unat (codesCount u) = length (encode_ops ops)"
    and "ops = xs @ (off, AllocBytes n) # ys @ (off', AllocBytes n') # zs"
    and "\<not> list_ex (is_alloc \<circ> snd) xs" and "\<not> list_ex (is_alloc \<circ> snd) ys"
    and "\<not> list_ex (is_alloc \<circ> snd) zs"
  shows "GetStackOffset u = Inr (frame_size ops - n)"
proof -
  have "decoded ops 0 0 = frame_size ops - n"
    using assms(4-6) by (simp add: assms(3) decoded_app decoded_no_alloc) (simp add: frame_size_def)
  with GetStackOffset_encode [OF assms(1,2)] show ?thesis by simp
qed

section \<open>Frames\<close>

text \<open>\<open>UnwindContextStatus\<close>, with the values the runtime's \<^verbatim>\<open>rt.common/StackType.cj\<close> gives it.\<close>

datatype unwind_status = UNKNOWN | RELIABLE | RISKY | SIGNAL_STATUS

record machine_frame =
  IP :: addr
  FA :: addr

record frame_info =
  mStartProc :: addr
  mFrame :: machine_frame

text \<open>
  What the unwinder takes from outside the file: the addresses of the stubs and of the return
  points inside them, the test whether an instruction belongs to the runtime's own text, the
  stack size a managed function's stack map starts with, the unwind information and the
  stack's memory, the frame size the current mutator records while its stack grows (if there
  is a mutator), and the modules of the process.
\<close>

record win_env =
  CJ_MCC_C2NStub :: addr
  CJ_MCC_N2CStub :: addr
  CJ_MCC_ThrowStackOverflowError :: addr
  ExecuteCangjieStub :: addr
  ApplyCangjieMethodStub :: addr
  unwindPCForN2CStub :: addr
  unwindPCForC2NStub :: addr
  unwindPCForTPE :: addr
  unwindPCForStackGrowStub :: addr
  IsRuntimeFrame :: "addr \<Rightarrow> bool"
  StackMapOffset :: "addr \<Rightarrow> u32"
  unwind_info_at :: "addr \<Rightarrow> unwind_info"
  stack_mem :: mem
  StackGrowFrameSize :: "u64 option"
  enum_modules1 :: "proc_module list"
  enum_modules2 :: "proc_module list"

text \<open>The state between calls: the table of modules and the two function-local static flags.\<close>

record unwinder =
  winModules :: win_modules
  frameCalleeThrowSOE :: bool
  rspCalleeThrowSOE :: bool

text \<open>The two words of a \<open>FrameAddress\<close>.\<close>

definition callerFrameAddress :: "win_env \<Rightarrow> addr \<Rightarrow> addr" where
  "callerFrameAddress env p = mload 8 (stack_mem env) p"

definition returnAddress :: "win_env \<Rightarrow> addr \<Rightarrow> addr" where
  "returnAddress env p = mload 8 (stack_mem env) (p + 8)"

text \<open>
  The opening of all three functions: the module of an address, read again if it is not
  known, and its runtime function; a \<open>CHECK\<close> stops the process when there is none. Not
  returning is \<open>None\<close>, as for the search it calls.
\<close>

definition resolve_module :: "win_env \<Rightarrow> addr \<Rightarrow> win_modules \<Rightarrow> (win_module \<times> win_modules) res" where
  "resolve_module env pc ms =
     (case GetWinModuleByPc ms pc of
        Some m \<Rightarrow> Inr (m, ms)
      | None \<Rightarrow>
          and_then (ReadWinModuleAtRunning (enum_modules1 env) (enum_modules2 env) ms) (\<lambda>ms'.
            case GetWinModuleByPc ms' pc of
              Some m \<Rightarrow> Inr (m, ms')
            | None \<Rightarrow> Inl Fatal))"

definition resolve ::
  "win_env \<Rightarrow> addr \<Rightarrow> win_modules \<Rightarrow> (win_module \<times> runtime_function \<times> win_modules) res option" where
  "resolve env pc ms =
     (case resolve_module env pc ms of
        Inl e \<Rightarrow> Some (Inl e)
      | Inr (m, ms') \<Rightarrow>
          (case GetRuntimeFunction m pc of
             None \<Rightarrow> None
           | Some (Inl e) \<Rightarrow> Some (Inl e)
           | Some (Inr None) \<Rightarrow> Some (Inl Fatal)
           | Some (Inr (Some f)) \<Rightarrow> Some (Inr (m, f, ms'))))"

definition unwind_info_of :: "win_env \<Rightarrow> win_module \<Rightarrow> runtime_function \<Rightarrow> unwind_info" where
  "unwind_info_of env m f = unwind_info_at env (imageBaseStart m + ucast (unwindInfoOffset f))"

definition start_proc :: "win_module \<Rightarrow> runtime_function \<Rightarrow> addr" where
  "start_proc m f = imageBaseStart m + ucast (startAddress f)"

definition GetCurFrameInfo ::
  "win_env \<Rightarrow> addr \<Rightarrow> addr \<Rightarrow> unwinder \<Rightarrow> (frame_info \<times> unwinder) res option" where
  "GetCurFrameInfo env pc sp u =
     (case resolve env pc (winModules u) of
        None \<Rightarrow> None
      | Some (Inl e) \<Rightarrow> Some (Inl e)
      | Some (Inr (m, f, ms)) \<Rightarrow>
          (case GetStackOffset (unwind_info_of env m f) of
             Inl e \<Rightarrow> Some (Inl e)
           | Inr stackOffset \<Rightarrow>
               let startProc = start_proc m f;
                   fa = (if IsRuntimeFrame env pc then sp + ucast stackOffset - 8
                         else mload 8 (stack_mem env) (sp - 0x10) + ucast (StackMapOffset env startProc))
               in Some (Inr (\<lparr>mStartProc = startProc, mFrame = \<lparr>IP = pc, FA = fa\<rparr>\<rparr>,
                             u\<lparr>winModules := ms\<rparr>))))"

definition is_stub :: "win_env \<Rightarrow> addr \<Rightarrow> bool" where
  "is_stub env startProc \<longleftrightarrow>
     startProc = CJ_MCC_C2NStub env \<or> startProc = CJ_MCC_N2CStub env \<or>
     startProc = ExecuteCangjieStub env \<or> startProc = ApplyCangjieMethodStub env"

definition spOffset :: "win_env \<Rightarrow> addr \<Rightarrow> u32" where
  "spOffset env pc =
     (if pc = unwindPCForN2CStub env \<or> pc = unwindPCForC2NStub env \<or> pc = unwindPCForTPE env
      then 16 + 16 else 16)"

definition stub_status :: "win_env \<Rightarrow> addr \<Rightarrow> unwind_status \<Rightarrow> unwind_status" where
  "stub_status env startProc status =
     (let s1 = (if startProc = CJ_MCC_C2NStub env then RELIABLE else status) in
      if startProc = CJ_MCC_N2CStub env then RISKY else s1)"

text \<open>
  The chain of cases that finds the caller's frame address: its value with the status and the
  static flag it leaves.
\<close>

definition caller_fa ::
  "win_env \<Rightarrow> win_module \<Rightarrow> runtime_function \<Rightarrow> machine_frame \<Rightarrow> unwind_status \<Rightarrow> bool
    \<Rightarrow> (addr \<times> unwind_status \<times> bool) res" where
  "caller_fa env m f cur status flag =
     (let startProc = start_proc m f; callerPC = returnAddress env (FA cur) in
      if is_stub env startProc then
        Inr (callerFrameAddress env (FA cur), stub_status env startProc status, flag)
      else if flag then Inr (FA cur + 16, status, False)
      else if IP cur = unwindPCForStackGrowStub env then
        (case StackGrowFrameSize env of
           None \<Rightarrow> Inl Fatal
         | Some n \<Rightarrow> Inr (FA cur + n, status, flag))
      else if status \<noteq> RISKY \<and> \<not> IsRuntimeFrame env callerPC then
        Inr (callerFrameAddress env (FA cur) + ucast (StackMapOffset env startProc), status, flag)
      else
        and_then (GetStackOffset (unwind_info_of env m f)) (\<lambda>stackOffset.
          Inr (FA cur + ucast (spOffset env (IP cur)) + ucast stackOffset - 8, status, flag)))"

definition GetCallerFrameInfo ::
  "win_env \<Rightarrow> machine_frame \<Rightarrow> unwind_status \<Rightarrow> unwinder
    \<Rightarrow> (frame_info \<times> unwind_status \<times> unwinder) res option" where
  "GetCallerFrameInfo env cur status u =
     (let callerPC = returnAddress env (FA cur) in
      case resolve env callerPC (winModules u) of
        None \<Rightarrow> None
      | Some (Inl e) \<Rightarrow> Some (Inl e)
      | Some (Inr (m, f, ms)) \<Rightarrow>
          (case caller_fa env m f cur status (frameCalleeThrowSOE u) of
             Inl e \<Rightarrow> Some (Inl e)
           | Inr (fa, status', flag) \<Rightarrow>
               Some (Inr (\<lparr>mStartProc = start_proc m f, mFrame = \<lparr>IP = callerPC, FA = fa\<rparr>\<rparr>, status',
                 u\<lparr>winModules := ms,
                   frameCalleeThrowSOE := flag \<or> start_proc m f = CJ_MCC_ThrowStackOverflowError env\<rparr>))))"

definition caller_rsp ::
  "win_env \<Rightarrow> addr \<Rightarrow> machine_frame \<Rightarrow> bool \<Rightarrow> addr \<times> bool" where
  "caller_rsp env startProc cur flag =
     (if is_stub env startProc \<or> IP cur = unwindPCForStackGrowStub env then (FA cur + 16, flag)
      else if flag then (FA cur + 16, False)
      else (FA cur + ucast (spOffset env (IP cur)), flag))"

definition GetCallerRsp ::
  "win_env \<Rightarrow> machine_frame \<Rightarrow> unwinder \<Rightarrow> (addr \<times> unwinder) res option" where
  "GetCallerRsp env cur u =
     (case resolve env (returnAddress env (FA cur)) (winModules u) of
        None \<Rightarrow> None
      | Some (Inl e) \<Rightarrow> Some (Inl e)
      | Some (Inr (m, f, ms)) \<Rightarrow>
          let (rsp, flag) = caller_rsp env (start_proc m f) cur (rspCalleeThrowSOE u) in
          Some (Inr (rsp, u\<lparr>winModules := ms,
            rspCalleeThrowSOE := flag \<or> start_proc m f = CJ_MCC_ThrowStackOverflowError env\<rparr>)))"

section \<open>What the frames are\<close>

lemma resolve_returns:
  assumes "\<forall>m \<in> set ms. sane_module m"
    and "\<forall>h \<in> set (enum_modules1 env) \<union> set (enum_modules2 env). \<forall>n. sane_module (new_module (pm_image h) n)"
  shows "resolve env pc ms \<noteq> None"
proof -
  have keep: "\<forall>m \<in> set (ReadModuleInfo hs ms). sane_module m"
    if "\<forall>m \<in> set ms. sane_module m" "\<forall>h \<in> set hs. \<forall>n. sane_module (new_module (pm_image h) n)" for hs ms
    using that by (induction hs ms rule: ReadModuleInfo.induct) (auto simp: emplace_def)
  have read: "\<forall>m \<in> set ms'. sane_module m"
    if "ReadWinModuleAtRunning (enum_modules1 env) (enum_modules2 env) ms = Inr ms'" for ms'
    using that keep [OF assms(1), of "enum_modules1 env"]
      keep [OF assms(1), of "take (length (enum_modules1 env)) (enum_modules2 env)"] assms(2)
    by (auto simp: ReadWinModuleAtRunning_def Let_def split: if_splits dest: in_set_takeD)
  have found: "sane_module m" if "\<forall>m \<in> set ns. sane_module m" "GetWinModuleByPc ns pc = Some m" for m ns
    using that by (auto simp: GetWinModuleByPc_def find_Some_iff)
  have "sane_module m" if r: "resolve_module env pc ms = Inr (m, ms')" for m ms'
  proof (cases "GetWinModuleByPc ms pc")
    case (Some m')
    with r found [OF assms(1)] show ?thesis by (simp add: resolve_module_def)
  next
    case None
    with r obtain ns where "ReadWinModuleAtRunning (enum_modules1 env) (enum_modules2 env) ms = Inr ns"
      and "GetWinModuleByPc ns pc = Some m"
      by (auto simp: resolve_module_def and_then_Inr_iff split: option.splits)
    with read found show ?thesis by blast
  qed
  then show ?thesis
    using GetRuntimeFunction_returns [of _ pc]
    by (cases "resolve_module env pc ms") (auto simp: resolve_def split: option.split sum.split)
qed

text \<open>
  Unwinding always returns, with a frame or by stopping the process: the module search, the
  binary search and the walk over the unwind codes all end, for every module whose table has
  the number of entries it claims.
\<close>

theorem unwinding_returns:
  assumes "\<forall>m \<in> set (winModules u). sane_module m"
    and "\<forall>h \<in> set (enum_modules1 env) \<union> set (enum_modules2 env). \<forall>n. sane_module (new_module (pm_image h) n)"
  shows "GetCurFrameInfo env pc sp u \<noteq> None \<and> GetCallerFrameInfo env cur status u \<noteq> None \<and>
    GetCallerRsp env cur u \<noteq> None"
proof -
  obtain r1 r2 where "resolve env pc (winModules u) = Some r1"
    and "resolve env (returnAddress env (FA cur)) (winModules u) = Some r2"
    using resolve_returns [OF assms] by fastforce
  then show ?thesis
    by (auto simp: GetCurFrameInfo_def GetCallerFrameInfo_def GetCallerRsp_def Let_def
        split: option.split sum.split prod.split)
qed

text \<open>
  The frame of a caller that has to be computed from its prologue, because it is runtime
  code or the status is risky: when the prologue makes at most one allocation, the frame address is
  the stack pointer the caller had at the call, as \<open>GetCallerRsp\<close> reports it, plus the whole
  frame size, less the 8 bytes of the saved frame pointer.
\<close>

theorem GetCallerFrameInfo_from_prologue:
  assumes "resolve env (returnAddress env (FA cur)) (winModules u) = Some (Inr (m, f, ms))"
    and "\<not> is_stub env (start_proc m f)" and "\<not> frameCalleeThrowSOE u" and "\<not> rspCalleeThrowSOE u"
    and "IP cur \<noteq> unwindPCForStackGrowStub env"
    and "status = RISKY \<or> IsRuntimeFrame env (returnAddress env (FA cur))"
    and "unwindCodes (unwind_info_of env m f) = encode_ops ops @ rest"
    and "unat (codesCount (unwind_info_of env m f)) = length (encode_ops ops)"
    and "length (filter (is_alloc \<circ> snd) ops) \<le> 1"
  shows "\<exists>rsp u1 u2. GetCallerRsp env cur u = Some (Inr (rsp, u1)) \<and>
    GetCallerFrameInfo env cur status u =
      Some (Inr (\<lparr>mStartProc = start_proc m f,
                  mFrame = \<lparr>IP = returnAddress env (FA cur), FA = rsp + ucast (frame_size ops) - 8\<rparr>\<rparr>,
        status, u2))"
proof -
  have "GetStackOffset (unwind_info_of env m f) = Inr (frame_size ops)"
    using GetStackOffset_encode [OF assms(7,8)] decoded_one_alloc [OF assms(9), of 0] by simp
  with assms(1-6) show ?thesis
    by (auto simp: GetCallerRsp_def GetCallerFrameInfo_def caller_rsp_def caller_fa_def Let_def)
qed

text \<open>
  The throw-stack-overflow protocol: finding \<open>CJ_MCC_ThrowStackOverflowError\<close> as the caller
  arms the static flag; the next caller that is not a stub is then placed 16 bytes above its
  callee's frame, without its prologue being read, and the flag is cleared again unless that
  caller is the throw function once more.
\<close>

theorem throw_stack_overflow_protocol:
  assumes "GetCallerFrameInfo env cur status u = Some (Inr (fi, status1, u1))"
    and "mStartProc fi = CJ_MCC_ThrowStackOverflowError env"
    and "GetCallerFrameInfo env (mFrame fi) status1 u1 = Some (Inr (fi2, status2, u2))"
    and "\<not> is_stub env (mStartProc fi2)"
  shows "FA (mFrame fi2) = FA (mFrame fi) + 16 \<and> status2 = status1 \<and>
    (frameCalleeThrowSOE u2 \<longleftrightarrow> mStartProc fi2 = CJ_MCC_ThrowStackOverflowError env)"
proof -
  have "frameCalleeThrowSOE u1"
    using assms(1,2)
    by (auto simp: GetCallerFrameInfo_def Let_def split: option.splits sum.splits prod.splits)
  with assms(3,4) show ?thesis
    by (auto simp: GetCallerFrameInfo_def caller_fa_def Let_def split: option.splits sum.splits)
qed

section \<open>A concrete stack\<close>

definition demo_ops :: "(u8 \<times> prolog_op) list" where
  "demo_ops = [(5, AllocBytes 0x20), (1, PushReg 5)]"

definition demo_info :: unwind_info where
  "demo_info = \<lparr>versionAndFlags = 1, prologSize = 5, codesCount = 2, frameRegisterAndOffset = 0,
     unwindCodes = encode_ops demo_ops\<rparr>"

definition demo_env :: win_env where
  "demo_env = \<lparr>CJ_MCC_C2NStub = 1, CJ_MCC_N2CStub = 2, CJ_MCC_ThrowStackOverflowError = 0x11200,
     ExecuteCangjieStub = 3, ApplyCangjieMethodStub = 4, unwindPCForN2CStub = 5,
     unwindPCForC2NStub = 6, unwindPCForTPE = 7, unwindPCForStackGrowStub = 8,
     IsRuntimeFrame = (\<lambda>_. True), StackMapOffset = (\<lambda>_. 0), unwind_info_at = (\<lambda>_. demo_info),
     stack_mem = mstore 8 (mstore 8 (\<lambda>_. 0) 0x7008 0x11250) 0x7038 0x11010,
     StackGrowFrameSize = None, enum_modules1 = [], enum_modules2 = []\<rparr>"

definition demo_unwinder :: unwinder where
  "demo_unwinder = \<lparr>winModules = [demo_module], frameCalleeThrowSOE = False, rspCalleeThrowSOE = False\<rparr>"

lemma demo_codes: "unwindCodes demo_info = encode_ops demo_ops @ []"
  "unat (codesCount demo_info) = length (encode_ops demo_ops)"
  "length (filter (is_alloc \<circ> snd) demo_ops) \<le> 1"
  by (simp_all add: demo_info_def demo_ops_def encode_ops_def)

lemma demo_env_fields:
  "CJ_MCC_C2NStub demo_env = 1" "CJ_MCC_N2CStub demo_env = 2"
  "CJ_MCC_ThrowStackOverflowError demo_env = 0x11200"
  "ExecuteCangjieStub demo_env = 3" "ApplyCangjieMethodStub demo_env = 4"
  "unwindPCForN2CStub demo_env = 5" "unwindPCForC2NStub demo_env = 6" "unwindPCForTPE demo_env = 7"
  "unwindPCForStackGrowStub demo_env = 8" "IsRuntimeFrame demo_env pc"
  by (simp_all add: demo_env_def)

lemma demo_frame_size: "frame_size demo_ops = 0x28"
  by (simp add: frame_size_def demo_ops_def)

lemma demo_return:
  "returnAddress demo_env 0x7000 = 0x11250" "returnAddress demo_env 0x7030 = 0x11010"
  by (simp_all add: returnAddress_def demo_env_def mem_simps disjoint_regions_def
      mload_mstore_disjoint)

lemma demo_resolve:
  "resolve demo_env 0x11250 [demo_module] =
    Some (Inr (demo_module, \<lparr>startAddress = 0x1200, endAddress = 0x1300, unwindInfoOffset = 0x3020\<rparr>, [demo_module]))"
  "resolve demo_env 0x11010 [demo_module] =
    Some (Inr (demo_module, \<lparr>startAddress = 0x1000, endAddress = 0x1080, unwindInfoOffset = 0x3000\<rparr>, [demo_module]))"
  by (simp_all add: resolve_def resolve_module_def GetWinModuleByPc_def IsInModule_def demo_module_def
      demo_image_def new_module_def GetRuntimeFunction_def grf_loop.simps IsInRuntimeFunc_def in_func_def Let_def)

theorem GetStackOffset_encode_one_alloc_witness: "GetStackOffset demo_info = Inr 0x28"
  using GetStackOffset_encode_one_alloc [OF demo_codes] by (simp add: demo_frame_size)

theorem GetStackOffset_drops_second_alloc_witness:
  "let ops = [(9, AllocBytes 0x20), (5, AllocBytes 0x1000), (1, PushReg 5)];
       u = demo_info\<lparr>codesCount := 4, unwindCodes := encode_ops ops\<rparr>
   in frame_size ops = 0x1028 \<and> GetStackOffset u = Inr 0x1008"
proof -
  let ?ops = "[(9, AllocBytes 0x20), (5, AllocBytes 0x1000), (1, PushReg 5)]"
  let ?u = "demo_info\<lparr>codesCount := 4, unwindCodes := encode_ops ?ops\<rparr>"
  have "GetStackOffset ?u = Inr (frame_size ?ops - 0x20)"
    by (rule GetStackOffset_drops_second_alloc [where rest = "[]" and xs = "[]" and ys = "[]"
          and zs = "[(1, PushReg 5)]" and off = 9 and off' = 5 and n' = "0x1000"])
      (simp_all add: encode_ops_def)
  then show ?thesis by (simp add: frame_size_def)
qed

theorem unwinding_returns_witness:
  "GetCallerFrameInfo demo_env \<lparr>IP = 0, FA = 0x7000\<rparr> RISKY demo_unwinder \<noteq> None"
proof -
  have "\<forall>m \<in> set (winModules demo_unwinder). sane_module m"
    by (simp add: demo_unwinder_def wf_sane_module demo_module_wf)
  moreover have "\<forall>h \<in> set (enum_modules1 demo_env) \<union> set (enum_modules2 demo_env).
      \<forall>n. sane_module (new_module (pm_image h) n)"
    by (simp add: demo_env_def)
  ultimately show ?thesis using unwinding_returns by blast
qed

lemma demo_third_function:
  "start_proc demo_module \<lparr>startAddress = 0x1200, endAddress = 0x1300, unwindInfoOffset = 0x3020\<rparr> = 0x11200"
  "start_proc demo_module \<lparr>startAddress = 0x1000, endAddress = 0x1080, unwindInfoOffset = 0x3000\<rparr> = 0x11000"
  "unwind_info_of demo_env m f = demo_info"
  by (simp_all add: start_proc_def unwind_info_of_def demo_env_def demo_module_def demo_image_def new_module_def)

theorem GetCallerFrameInfo_from_prologue_witness:
  "\<exists>u1 u2. GetCallerRsp demo_env \<lparr>IP = 0, FA = 0x7000\<rparr> demo_unwinder = Some (Inr (0x7010, u1)) \<and>
    GetCallerFrameInfo demo_env \<lparr>IP = 0, FA = 0x7000\<rparr> RISKY demo_unwinder =
    Some (Inr (\<lparr>mStartProc = 0x11200, mFrame = \<lparr>IP = 0x11250, FA = 0x7030\<rparr>\<rparr>, RISKY, u2))"
proof -
  let ?cur = "\<lparr>IP = 0, FA = 0x7000\<rparr>"
  let ?f = "\<lparr>startAddress = 0x1200, endAddress = 0x1300, unwindInfoOffset = 0x3020\<rparr>"
  have "\<exists>rsp u1 u2. GetCallerRsp demo_env ?cur demo_unwinder = Some (Inr (rsp, u1)) \<and>
      GetCallerFrameInfo demo_env ?cur RISKY demo_unwinder =
        Some (Inr (\<lparr>mStartProc = start_proc demo_module ?f,
          mFrame = \<lparr>IP = returnAddress demo_env (FA ?cur), FA = rsp + ucast (frame_size demo_ops) - 8\<rparr>\<rparr>,
          RISKY, u2))"
    by (rule GetCallerFrameInfo_from_prologue [where ms = "[demo_module]" and rest = "[]"])
      (simp_all only: demo_third_function demo_codes,
        simp_all add: demo_return demo_resolve demo_unwinder_def is_stub_def demo_env_fields)
  moreover have "\<exists>u1. GetCallerRsp demo_env ?cur demo_unwinder = Some (Inr (0x7010, u1))"
    using demo_return demo_resolve
    by (simp add: GetCallerRsp_def caller_rsp_def demo_unwinder_def demo_third_function is_stub_def
        spOffset_def demo_env_fields Let_def)
  ultimately show ?thesis
    by (auto simp: demo_third_function demo_return demo_frame_size)
qed

lemma demo_calls:
  "GetCallerFrameInfo demo_env \<lparr>IP = 0, FA = 0x7000\<rparr> RISKY demo_unwinder =
    Some (Inr (\<lparr>mStartProc = 0x11200, mFrame = \<lparr>IP = 0x11250, FA = 0x7030\<rparr>\<rparr>, RISKY,
      demo_unwinder\<lparr>frameCalleeThrowSOE := True\<rparr>))"
  "\<exists>u2. GetCallerFrameInfo demo_env \<lparr>IP = 0x11250, FA = 0x7030\<rparr> RISKY (demo_unwinder\<lparr>frameCalleeThrowSOE := True\<rparr>) =
    Some (Inr (\<lparr>mStartProc = 0x11000, mFrame = \<lparr>IP = 0x11010, FA = 0x7040\<rparr>\<rparr>, RISKY, u2))"
  using demo_return demo_resolve GetStackOffset_encode [OF demo_codes(1,2)]
    decoded_one_alloc [OF demo_codes(3), of 0]
  by (simp_all add: GetCallerFrameInfo_def caller_fa_def demo_unwinder_def demo_third_function is_stub_def
      spOffset_def demo_frame_size demo_env_fields Let_def)

theorem throw_stack_overflow_protocol_witness:
  "\<exists>fi2 u2. GetCallerFrameInfo demo_env \<lparr>IP = 0x11250, FA = 0x7030\<rparr> RISKY
      (demo_unwinder\<lparr>frameCalleeThrowSOE := True\<rparr>) = Some (Inr (fi2, RISKY, u2)) \<and>
    FA (mFrame fi2) = 0x7030 + 16 \<and> \<not> frameCalleeThrowSOE u2"
proof -
  obtain u2 where nxt: "GetCallerFrameInfo demo_env \<lparr>IP = 0x11250, FA = 0x7030\<rparr> RISKY
      (demo_unwinder\<lparr>frameCalleeThrowSOE := True\<rparr>) =
    Some (Inr (\<lparr>mStartProc = 0x11000, mFrame = \<lparr>IP = 0x11010, FA = 0x7040\<rparr>\<rparr>, RISKY, u2))"
    using demo_calls(2) by blast
  have env: "CJ_MCC_ThrowStackOverflowError demo_env = 0x11200" "\<not> is_stub demo_env 0x11000"
    by (simp_all add: demo_env_def is_stub_def)
  show ?thesis
    using throw_stack_overflow_protocol [OF demo_calls(1)] nxt env by simp
qed

end
