(* ===== verification/Instances.thy ===== *)
theory Instances
  imports Prelude
begin

text \<open>
  The instance interface of the runtime, \<^verbatim>\<open>src.native/rt.instance/instance_bridge.cpp\<close> with the
  types of \<^verbatim>\<open>contract/cjcj_rt_instance.h\<close>: creating a sub-scheduler on a thread of its own,
  running tasks on it and stopping it. The creating thread and the thread it starts share a
  context on the creator's stack; their interleavings are a step relation.
\<close>

section \<open>Parameters\<close>

record ConcurrencyParam =
  thStackSize :: u64
  coStackSize :: u64
  processorNum :: u32

text \<open>A null pointer or a zero field asks for the default; the default number of processors is 1.\<close>

definition instance_param :: "ConcurrencyParam \<Rightarrow> ConcurrencyParam option \<Rightarrow> ConcurrencyParam" where
  "instance_param defaultParam param =
     (case param of
        None \<Rightarrow> \<lparr>thStackSize = thStackSize defaultParam, coStackSize = coStackSize defaultParam,
                  processorNum = 1\<rparr>
      | Some p \<Rightarrow>
          \<lparr>thStackSize = (if thStackSize p = 0 then thStackSize defaultParam else thStackSize p),
           coStackSize = (if coStackSize p = 0 then coStackSize defaultParam else coStackSize p),
           processorNum = (if processorNum p = 0 then 1 else processorNum p)\<rparr>)"

text \<open>The stack of the new thread in bytes, a \<open>size_t\<close>; \<open>KB\<close> is 1024.\<close>

definition instance_stack_bytes :: "ConcurrencyParam \<Rightarrow> u64" where
  "instance_stack_bytes p = thStackSize p * 1024"

text \<open>
  The calls before the wait: initialise the attributes, make them joinable, set the stack
  size, create the thread, (on Windows) name it, destroy the attributes.
  \<open>CHECK_PTHREAD_CALL\<close> stops the process at the first result other than 0.
\<close>

fun check_pthread_calls :: "int list \<Rightarrow> unit res" where
  "check_pthread_calls [] = Inr ()"
| "check_pthread_calls (r # rs) = (if r \<noteq> 0 then Inl Fatal else check_pthread_calls rs)"

section \<open>The two threads\<close>

text \<open>
  Where \<open>CJCJ_MRT_InstanceNew\<close> is, from before \<open>pthread_create\<close> on. \<open>wait(lock, pred)\<close> tests the
  predicate with the lock held (\<open>NewLocked\<close>), and if it fails releases the lock and blocks
  (\<open>NewBlocking\<close>, then \<open>NewWaiting\<close>); when it wakes it has the lock again.
\<close>

datatype creator_pc =
    NewStart
  | NewSpawned
  | NewLocked
  | NewBlocking
  | NewWaiting
  | NewReturned addr

text \<open>Where \<open>MRT_StartSubScheduler\<close> is, one constructor per statement on shared state.\<close>

datatype sub_pc =
    SubIdle
  | SubCreate
  | SubStoreSchedule
  | SubStoreInited
  | SubNotify
  | SubScheduleStart
  | SubSetState
  | SubDone

text \<open>
  The shared state: \<open>context.schedule\<close> and \<open>subScheduleInited\<close>, which live in the frame of
  \<open>InstanceNew\<close> with the condition variable; whether that frame still exists; whether the
  context was used after it was gone; the runtime's table of sub-schedulers; and the state
  the scheduler was set to at its end.
\<close>

record inst_state =
  creator :: creator_pc
  sub :: sub_pc
  ctx_schedule :: addr
  ctx_inited :: bool
  frame_alive :: bool
  used_after_return :: bool
  subModelMap :: "addr \<rightharpoonup> addr"
  scheduler_exited :: bool

text \<open>
  \<open>CreateSubSchedulerAndInit\<close>: \<open>concurrency\<close> is the new object (0 if the allocation fails) and
  \<open>sched\<close> its thread scheduler; \<open>insert\<close> leaves a key that is present alone.
\<close>

definition CreateSubSchedulerAndInit :: "addr \<Rightarrow> addr \<Rightarrow> (addr \<rightharpoonup> addr) \<Rightarrow> (addr \<rightharpoonup> addr) res" where
  "CreateSubSchedulerAndInit concurrency sched m =
     (if concurrency = 0 then Inl Fatal
      else Inr (case m sched of None \<Rightarrow> m(sched \<mapsto> concurrency) | Some _ \<Rightarrow> m))"

definition creator_step :: "inst_state \<Rightarrow> inst_state option" where
  "creator_step s =
     (case creator s of
        NewStart \<Rightarrow> Some (s\<lparr>creator := NewSpawned, sub := SubCreate\<rparr>)
      | NewSpawned \<Rightarrow> Some (s\<lparr>creator := NewLocked\<rparr>)
      | NewLocked \<Rightarrow>
          Some (if ctx_inited s then s\<lparr>creator := NewReturned (ctx_schedule s), frame_alive := False\<rparr>
                else s\<lparr>creator := NewBlocking\<rparr>)
      | NewBlocking \<Rightarrow> Some (s\<lparr>creator := NewWaiting\<rparr>)
      | NewWaiting \<Rightarrow> None
      | NewReturned h \<Rightarrow> None)"

text \<open>
  The started thread. A statement that reads or writes \<open>*data\<close> after the frame is gone sets
  \<open>used_after_return\<close>. \<open>notify_all\<close> wakes the creator only if it is waiting by then.
\<close>

definition touch_context :: "inst_state \<Rightarrow> inst_state" where
  "touch_context s = s\<lparr>used_after_return := used_after_return s \<or> \<not> frame_alive s\<rparr>"

definition sub_step :: "addr \<Rightarrow> addr \<Rightarrow> inst_state \<Rightarrow> inst_state res option" where
  "sub_step concurrency sched s =
     (case sub s of
        SubIdle \<Rightarrow> None
      | SubCreate \<Rightarrow>
          Some (and_then (CreateSubSchedulerAndInit concurrency sched (subModelMap s))
            (\<lambda>m. Inr ((touch_context s)\<lparr>sub := SubStoreSchedule, subModelMap := m\<rparr>)))
      | SubStoreSchedule \<Rightarrow> Some (Inr ((touch_context s)\<lparr>sub := SubStoreInited, ctx_schedule := sched\<rparr>))
      | SubStoreInited \<Rightarrow> Some (Inr ((touch_context s)\<lparr>sub := SubNotify, ctx_inited := True\<rparr>))
      | SubNotify \<Rightarrow>
          Some (Inr ((touch_context s)\<lparr>sub := SubScheduleStart,
            creator := (if creator s = NewWaiting then NewLocked else creator s)\<rparr>))
      | SubScheduleStart \<Rightarrow> Some (Inr (s\<lparr>sub := SubSetState\<rparr>))
      | SubSetState \<Rightarrow> Some (Inr (s\<lparr>sub := SubDone, scheduler_exited := True\<rparr>))
      | SubDone \<Rightarrow> None)"

text \<open>Who moves. A condition variable may also wake its waiter for no reason.\<close>

datatype mover = Creator | Sub | Spurious

inductive inst_step :: "addr \<Rightarrow> addr \<Rightarrow> inst_state \<Rightarrow> mover \<Rightarrow> inst_state \<Rightarrow> bool"
  for concurrency sched where
  creator: "creator_step s = Some s' \<Longrightarrow> inst_step concurrency sched s Creator s'"
| sub: "sub_step concurrency sched s = Some (Inr s') \<Longrightarrow> inst_step concurrency sched s Sub s'"
| spurious: "creator s = NewWaiting \<Longrightarrow> inst_step concurrency sched s Spurious (s\<lparr>creator := NewLocked\<rparr>)"

inductive_simps inst_step_simps:
  "inst_step concurrency sched s Creator s'"
  "inst_step concurrency sched s Sub s'"
  "inst_step concurrency sched s Spurious s'"

definition inst_start :: "(addr \<rightharpoonup> addr) \<Rightarrow> inst_state" where
  "inst_start m = \<lparr>creator = NewStart, sub = SubIdle, ctx_schedule = 0, ctx_inited = False,
     frame_alive = True, used_after_return = False, subModelMap = m, scheduler_exited = False\<rparr>"

abbreviation inst_run :: "addr \<Rightarrow> addr \<Rightarrow> inst_state \<Rightarrow> mover list \<Rightarrow> inst_state \<Rightarrow> bool" where
  "inst_run concurrency sched \<equiv> runs (inst_step concurrency sched)"

text \<open>
  \<open>CJCJ_MRT_InstanceNew\<close> up to the wait: without a runtime it returns null (\<open>None\<close>); otherwise
  it fixes the parameters and makes the pthread calls, whose results are \<open>rs\<close>.
\<close>

definition CJCJ_MRT_InstanceNew ::
  "bool \<Rightarrow> ConcurrencyParam \<Rightarrow> ConcurrencyParam option \<Rightarrow> int list \<Rightarrow> (addr \<rightharpoonup> addr)
    \<Rightarrow> (ConcurrencyParam \<times> inst_state) option res" where
  "CJCJ_MRT_InstanceNew runtime defaultParam param rs m =
     (if \<not> runtime then Inr None
      else and_then (check_pthread_calls rs) (\<lambda>_. Inr (Some (instance_param defaultParam param, inst_start m))))"

section \<open>Tasks and the stop\<close>

text \<open>
  \<open>runtime\<close> is whether \<open>Runtime::CurrentRef()\<close> is set; \<open>check_valid\<close> is
  \<open>CheckSubSchedulerValid\<close>, \<open>run_task\<close> is \<open>RunCJTaskToSchedule\<close> and \<open>stop_sub\<close> is
  \<open>MRT_StopSubScheduler\<close>, all in the runtime the file is linked with.
\<close>

definition CJCJ_MRT_InstanceRunTask ::
  "bool \<Rightarrow> ((addr \<rightharpoonup> addr) \<Rightarrow> addr \<Rightarrow> bool) \<Rightarrow> (addr \<Rightarrow> addr \<Rightarrow> addr \<Rightarrow> addr)
    \<Rightarrow> (addr \<rightharpoonup> addr) \<Rightarrow> addr \<Rightarrow> addr \<Rightarrow> addr \<Rightarrow> addr" where
  "CJCJ_MRT_InstanceRunTask runtime check_valid run_task m inst func args =
     (if \<not> runtime \<or> inst = 0 then 0
      else if \<not> check_valid m inst then 0
      else run_task func args inst)"

definition CJCJ_MRT_InstanceStop :: "bool \<Rightarrow> (addr \<Rightarrow> 8 word) \<Rightarrow> addr \<Rightarrow> int" where
  "CJCJ_MRT_InstanceStop runtime stop_sub inst =
     (if \<not> runtime \<or> inst = 0 then 1 else sint (stop_sub inst))"

section \<open>What every run keeps\<close>

fun sub_rank :: "sub_pc \<Rightarrow> nat" where
  "sub_rank SubIdle = 0"
| "sub_rank SubCreate = 1"
| "sub_rank SubStoreSchedule = 2"
| "sub_rank SubStoreInited = 3"
| "sub_rank SubNotify = 4"
| "sub_rank SubScheduleStart = 5"
| "sub_rank SubSetState = 6"
| "sub_rank SubDone = 7"

definition registered :: "addr \<Rightarrow> addr \<Rightarrow> (addr \<rightharpoonup> addr) \<Rightarrow> (addr \<rightharpoonup> addr)" where
  "registered c d m = (case m d of None \<Rightarrow> m(d \<mapsto> c) | Some _ \<Rightarrow> m)"

definition inst_inv :: "addr \<Rightarrow> addr \<Rightarrow> (addr \<rightharpoonup> addr) \<Rightarrow> inst_state \<Rightarrow> bool" where
  "inst_inv c d m s \<longleftrightarrow>
     (creator s = NewStart \<longleftrightarrow> sub s = SubIdle) \<and>
     subModelMap s = (if sub_rank (sub s) \<le> 1 then m else registered c d m) \<and>
     (ctx_inited s \<longleftrightarrow> 4 \<le> sub_rank (sub s)) \<and>
     (3 \<le> sub_rank (sub s) \<longrightarrow> ctx_schedule s = d) \<and>
     (frame_alive s \<longleftrightarrow> (\<forall>h. creator s \<noteq> NewReturned h)) \<and>
     (\<forall>h. creator s = NewReturned h \<longrightarrow> h = d \<and> ctx_inited s)"

lemma inst_inv_start: "inst_inv c d m (inst_start m)"
  by (simp add: inst_inv_def inst_start_def)

lemma inst_inv_creator:
  assumes "inst_inv c d m s" and "creator_step s = Some t"
  shows "inst_inv c d m t"
proof (cases "creator s")
  case NewLocked
  with assms show ?thesis by (cases "ctx_inited s") (auto simp: inst_inv_def creator_step_def)
qed (use assms in \<open>auto simp: inst_inv_def creator_step_def\<close>)

lemma inst_inv_sub:
  assumes "inst_inv c d m s" and "sub_step c d s = Some (Inr t)"
  shows "inst_inv c d m t"
proof (cases "sub s")
  case SubCreate
  with assms show ?thesis
    by (auto simp: inst_inv_def sub_step_def touch_context_def registered_def
        CreateSubSchedulerAndInit_def split: if_splits)
next
  case SubNotify
  with assms show ?thesis
    by (cases "creator s") (auto simp: inst_inv_def sub_step_def touch_context_def)
qed (use assms in \<open>auto simp: inst_inv_def sub_step_def touch_context_def\<close>)

lemma inst_inv_step:
  assumes "inst_inv c d m s" and "inst_step c d s a t"
  shows "inst_inv c d m t"
  using assms(2)
proof cases
  case creator
  with assms(1) show ?thesis by (simp add: inst_inv_creator)
next
  case sub
  with assms(1) show ?thesis by (simp add: inst_inv_sub)
next
  case spurious
  with assms(1) show ?thesis by (simp add: inst_inv_def)
qed

interpretation inst: step_invariant "inst_step c d" "\<lambda>_. True" "inst_inv c d m"
  for c d m
  by unfold_locales (rule inst_inv_step)

lemma inst_inv_run: "inst_run c d (inst_start m) as s \<Longrightarrow> inst_inv c d m s"
  by (rule inst.inv_run) (auto intro: inst_inv_start)

text \<open>
  C19. However the two threads interleave, and whatever spurious wakeups happen, the handle
  \<open>CJCJ_MRT_InstanceNew\<close> returns is the scheduler the started thread created, the runtime's table of
  sub-schedulers has it, and no entry the table had before is lost or changed.
\<close>

theorem InstanceNew_returns_registered:
  assumes "inst_run c d (inst_start m) as s" and "creator s = NewReturned h"
  shows "h = d \<and> h \<in> dom (subModelMap s) \<and> m \<subseteq>\<^sub>m subModelMap s \<and>
    (d \<notin> dom m \<longrightarrow> subModelMap s = m(d \<mapsto> c))"
  using inst_inv_run [OF assms(1)] assms(2)
  by (auto simp: inst_inv_def registered_def map_le_def split: option.splits if_splits)

section \<open>Waking the creator\<close>

definition woken_late :: "inst_state \<Rightarrow> bool" where
  "woken_late s \<longleftrightarrow> creator s = NewWaiting \<and> 5 \<le> sub_rank (sub s)"

interpretation late: step_invariant "inst_step c d" "\<lambda>a. a \<noteq> Spurious" woken_late
  for c d
proof
  fix x a y
  assume x: "woken_late x" and step: "inst_step c d x a y" and "a \<noteq> Spurious"
  from step this(3) x show "woken_late y"
    by cases (auto simp: woken_late_def creator_step_def sub_step_def split: sub_pc.splits)
qed

definition exec :: "addr \<Rightarrow> addr \<Rightarrow> inst_state \<Rightarrow> mover \<Rightarrow> inst_state option" where
  "exec c d s a =
     (case a of
        Creator \<Rightarrow> creator_step s
      | Sub \<Rightarrow> (case sub_step c d s of Some (Inr t) \<Rightarrow> Some t | _ \<Rightarrow> None)
      | Spurious \<Rightarrow> if creator s = NewWaiting then Some (s\<lparr>creator := NewLocked\<rparr>) else None)"

fun execs :: "addr \<Rightarrow> addr \<Rightarrow> inst_state \<Rightarrow> mover list \<Rightarrow> inst_state option" where
  "execs c d s [] = Some s"
| "execs c d s (a # as) = (case exec c d s a of None \<Rightarrow> None | Some t \<Rightarrow> execs c d t as)"

lemma exec_iff: "exec c d s a = Some t \<longleftrightarrow> inst_step c d s a t"
  by (cases a) (auto simp: exec_def inst_step_simps split: option.splits sum.splits)

lemma execs_run: "execs c d s as = Some t \<Longrightarrow> inst_run c d s as t"
proof (induction as arbitrary: s)
  case Nil
  then show ?case by (auto intro: run_refl)
next
  case (Cons a as)
  then obtain u where "exec c d s a = Some u" and "execs c d u as = Some t"
    by (auto split: option.splits)
  with Cons.IH show ?case by (auto intro: run_Cons simp: exec_iff)
qed

lemmas execs_simps = exec_def creator_step_def sub_step_def touch_context_def CreateSubSchedulerAndInit_def
  inst_start_def

text \<open>
  C36. A wakeup can be lost. The started thread sets \<open>subScheduleInited\<close> and notifies without
  taking the mutex of the condition variable, so it can do both after the creator tested the predicate and before it
  blocks. In the state this leads to, with the scheduler up and registered, the creator waits,
  and no continuation without a spurious wakeup ever gets it out of \<open>InstanceNew\<close>.
\<close>

theorem InstanceNew_lost_wakeup:
  assumes "c \<noteq> 0"
  shows "\<exists>as s. inst_run c d (inst_start m) as s \<and> Spurious \<notin> set as \<and> ctx_inited s \<and>
    d \<in> dom (subModelMap s) \<and>
    (\<forall>bs t. inst_run c d s bs t \<and> Spurious \<notin> set bs \<longrightarrow> creator t = NewWaiting)"
proof -
  let ?as = "[Creator, Creator, Creator, Sub, Sub, Sub, Sub, Creator]"
  obtain s where s: "execs c d (inst_start m) ?as = Some s" and late: "woken_late s" and "ctx_inited s"
    using assms by (auto simp: execs_simps woken_late_def split: option.split)
  have run: "inst_run c d (inst_start m) ?as s" by (rule execs_run [OF s])
  have "d \<in> dom (subModelMap s)"
    using inst_inv_run [OF run] late by (auto simp: inst_inv_def woken_late_def registered_def split: option.split)
  moreover have "creator t = NewWaiting" if "inst_run c d s bs t" "Spurious \<notin> set bs" for bs t
    using late.inv_run [OF that(1) late] that(2) by (auto simp: woken_late_def)
  moreover have "Spurious \<notin> set ?as" by simp
  ultimately show ?thesis using run \<open>ctx_inited s\<close> by blast
qed

text \<open>
  The context outlives its frame. When the creator tests the predicate between the store of
  \<open>subScheduleInited\<close> and the notification, it returns, and the started thread then reads
  \<open>data->conditionVar\<close> from, and notifies a condition variable in, a frame that is gone.
\<close>

theorem InstanceNew_use_after_return:
  assumes "c \<noteq> 0"
  shows "\<exists>as s. inst_run c d (inst_start m) as s \<and> Spurious \<notin> set as \<and> used_after_return s"
proof -
  let ?as = "[Creator, Sub, Sub, Sub, Creator, Creator, Sub]"
  obtain s where s: "execs c d (inst_start m) ?as = Some s" and "used_after_return s"
    using assms by (auto simp: execs_simps split: option.split)
  then show ?thesis using execs_run [OF s] by (intro exI [of _ ?as] exI [of _ s]) simp
qed

definition safe_wait :: "inst_state \<Rightarrow> bool" where
  "safe_wait s \<longleftrightarrow> \<not> used_after_return s \<and>
     (if sub_rank (sub s) \<le> 4 then creator s = NewWaiting \<and> frame_alive s
      else creator s = NewLocked \<or> (\<exists>h. creator s = NewReturned h))"

interpretation waiting: step_invariant "inst_step c d" "\<lambda>a. a \<noteq> Spurious"
    "\<lambda>s. safe_wait s \<and> ctx_inited s = (4 \<le> sub_rank (sub s))"
  for c d
proof
  fix x a y
  assume x: "safe_wait x \<and> ctx_inited x = (4 \<le> sub_rank (sub x))" and step: "inst_step c d x a y"
    and "a \<noteq> Spurious"
  from step show "safe_wait y \<and> ctx_inited y = (4 \<le> sub_rank (sub y))"
  proof cases
    case creator
    with x show ?thesis
      by (auto simp: safe_wait_def creator_step_def split: if_splits creator_pc.splits)
  next
    case sub
    with x show ?thesis
      by (cases "sub x") (auto simp: safe_wait_def sub_step_def touch_context_def and_then_Inr_iff)
  qed (use \<open>a \<noteq> Spurious\<close> in simp)
qed

text \<open>
  The order the code counts on is safe: once the creator waits before the started thread has
  set the flag, every continuation without spurious wakeups leaves the context untouched after
  the creator's return, and when the started thread has notified, the creator is awake (or
  has returned the scheduler).
\<close>

theorem InstanceNew_waiting_first:
  assumes "inst_run c d (inst_start m) as s" and "creator s = NewWaiting" and "\<not> ctx_inited s"
    and "\<not> used_after_return s"
    and "inst_run c d s bs t" and "Spurious \<notin> set bs"
  shows "\<not> used_after_return t \<and>
    (sub t \<in> {SubScheduleStart, SubSetState, SubDone} \<longrightarrow> creator t \<in> {NewLocked, NewReturned d})"
proof -
  have inv: "inst_inv c d m s" by (rule inst_inv_run [OF assms(1)])
  then have "safe_wait s \<and> ctx_inited s = (4 \<le> sub_rank (sub s))"
    using assms(2-4) by (simp add: inst_inv_def safe_wait_def)
  with assms(5) have safe: "safe_wait t \<and> ctx_inited t = (4 \<le> sub_rank (sub t))"
    by (rule waiting.inv_run) (use assms(6) in auto)
  have "inst_inv c d m t"
    by (rule inst.inv_run [OF assms(5) inv]) simp
  with safe show ?thesis by (auto simp: safe_wait_def inst_inv_def)
qed

text \<open>
  A handle obtained from \<open>InstanceNew\<close> accepts tasks: provided the runtime accepts the keys
  of its table as valid sub-schedulers, a task given to the returned handle is handed to that
  scheduler; and a handle that is null or unknown to the runtime, or any handle without a
  runtime, is refused with null without the task being run.
\<close>

theorem InstanceRunTask_on_returned:
  assumes "inst_run c d (inst_start m) as s" and "creator s = NewReturned h" and "h \<noteq> 0"
    and "\<And>tab k. valid tab k \<longleftrightarrow> k \<in> dom tab"
  shows "CJCJ_MRT_InstanceRunTask True valid run (subModelMap s) h func args = run func args d \<and>
    (\<forall>k rt. \<not> rt \<or> k \<notin> dom (subModelMap s) \<or> k = 0 \<longrightarrow>
      CJCJ_MRT_InstanceRunTask rt valid run (subModelMap s) k func args = 0)"
  using inst_inv_run [OF assms(1)] assms(2-4)
  by (auto simp: CJCJ_MRT_InstanceRunTask_def inst_inv_def registered_def split: option.splits if_splits)

section \<open>A concrete run\<close>

definition demo_moves :: "mover list" where
  "demo_moves = [Creator, Creator, Sub, Creator, Creator]"

lemma demo_prefix:
  "\<exists>s. inst_run 0x500 0x900 (inst_start Map.empty) demo_moves s \<and> creator s = NewWaiting \<and>
    \<not> ctx_inited s \<and> \<not> used_after_return s \<and>
    (\<exists>t. inst_run 0x500 0x900 s [Sub, Sub, Sub, Creator] t \<and> creator t = NewReturned 0x900)"
proof -
  obtain s where s: "execs 0x500 0x900 (inst_start Map.empty) demo_moves = Some s"
    and "creator s = NewWaiting" "\<not> ctx_inited s" "\<not> used_after_return s"
    and t: "\<exists>t. execs 0x500 0x900 s [Sub, Sub, Sub, Creator] = Some t \<and> creator t = NewReturned 0x900"
    by (auto simp: demo_moves_def execs_simps)
  with execs_run [OF s] execs_run show ?thesis by blast
qed

lemma demo_returned:
  "\<exists>s. inst_run 0x500 0x900 (inst_start Map.empty) (demo_moves @ [Sub, Sub, Sub, Creator]) s \<and>
    creator s = NewReturned 0x900"
proof -
  obtain s where s: "execs 0x500 0x900 (inst_start Map.empty) (demo_moves @ [Sub, Sub, Sub, Creator]) = Some s"
    and "creator s = NewReturned 0x900"
    by (auto simp: demo_moves_def execs_simps)
  with execs_run [OF s] show ?thesis by blast
qed

theorem InstanceNew_returns_registered_witness:
  "\<exists>as s. inst_run 0x500 0x900 (inst_start Map.empty) as s \<and> creator s = NewReturned 0x900 \<and>
    subModelMap s = [0x900 \<mapsto> 0x500]"
proof -
  obtain s where s: "inst_run 0x500 0x900 (inst_start Map.empty) (demo_moves @ [Sub, Sub, Sub, Creator]) s"
    "creator s = NewReturned 0x900"
    using demo_returned by blast
  from InstanceNew_returns_registered [OF s] s show ?thesis by auto
qed

theorem InstanceNew_lost_wakeup_witness:
  "\<exists>as s. inst_run 0x500 0x900 (inst_start Map.empty) as s \<and> ctx_inited s \<and> creator s = NewWaiting"
proof -
  obtain as s where "inst_run 0x500 0x900 (inst_start Map.empty) as s" "ctx_inited s"
    and never: "\<forall>bs t. inst_run 0x500 0x900 s bs t \<and> Spurious \<notin> set bs \<longrightarrow> creator t = NewWaiting"
    using InstanceNew_lost_wakeup [of "0x500" "0x900" Map.empty] by auto
  moreover have "creator s = NewWaiting"
    using never run_refl [of "inst_step 0x500 0x900" s] by (metis empty_iff list.set(1))
  ultimately show ?thesis by blast
qed

theorem InstanceNew_use_after_return_witness:
  "\<exists>as s. inst_run 0x500 0x900 (inst_start Map.empty) as s \<and> used_after_return s"
  using InstanceNew_use_after_return [of "0x500" "0x900" Map.empty] by auto

theorem InstanceNew_waiting_first_witness:
  "\<exists>s t. inst_run 0x500 0x900 (inst_start Map.empty) demo_moves s \<and>
    inst_run 0x500 0x900 s [Sub, Sub, Sub, Creator] t \<and> \<not> used_after_return t"
proof -
  obtain s t where "inst_run 0x500 0x900 (inst_start Map.empty) demo_moves s" "creator s = NewWaiting"
      "\<not> ctx_inited s" "\<not> used_after_return s" "inst_run 0x500 0x900 s [Sub, Sub, Sub, Creator] t"
    using demo_prefix by blast
  from InstanceNew_waiting_first [OF this] this show ?thesis by auto
qed

theorem InstanceRunTask_on_returned_witness:
  "\<exists>as s. inst_run 0x500 0x900 (inst_start Map.empty) as s \<and>
    CJCJ_MRT_InstanceRunTask True (\<lambda>tab k. k \<in> dom tab) (\<lambda>f a k. f + a + k) (subModelMap s) 0x900 1 2 = 0x903"
proof -
  obtain s where s: "inst_run 0x500 0x900 (inst_start Map.empty) (demo_moves @ [Sub, Sub, Sub, Creator]) s"
    "creator s = NewReturned 0x900"
    using demo_returned by blast
  have "CJCJ_MRT_InstanceRunTask True (\<lambda>tab k. k \<in> dom tab) (\<lambda>f a k. f + a + k) (subModelMap s) 0x900 1 2
      = (\<lambda>f a k. f + a + k) 1 2 0x900"
    by (rule InstanceRunTask_on_returned [OF s, THEN conjunct1]) auto
  also have "\<dots> = (0x903 :: addr)" by simp
  finally show ?thesis using s(1) by blast
qed

end
