(* ===== verification/Sections.thy ===== *)
theory Sections
  imports Prelude
begin

text \<open>
  Locating the compiler's sections of the running image at start-up:
  \<^verbatim>\<open>rt0/os/Windows/Section.cpp\<close>, which matches the names in the PE section table against
  prefixes, and \<^verbatim>\<open>rt0/os/Macos/Section.cpp\<close>, which asks \<open>getsectiondata\<close> for each name. Both
  fill the same global variables and end with the size of the span the metadata sections
  cover.
\<close>

section \<open>The global variables\<close>

datatype cj_section =
    CJMetadata
  | CJSDKVersion
  | CJMethodInfo
  | CJGlobalInitFunc
  | CJStringPoolDict
  | CJStringPool
  | CJStackMap
  | CJGCTib
  | CJGCRoots
  | CJTypeTemplate
  | CJTypeInfo
  | CJTypeFields
  | CJMTable
  | CJInnerTypeExtensions
  | CJOuterTypeExtensions
  | CJStaticGITable
  | CJGCFlags
  | CJReflectPkgInfo
  | CJReflectGV
  | CJReflectGI
  | CJTypeExt

text \<open>
  The sections of the span, in the order of the initializer list; \<open>CJMetadata\<close>, the header,
  is not one of them.
\<close>

definition span_sections :: "cj_section list" where
  "span_sections =
     [CJSDKVersion, CJMethodInfo, CJGlobalInitFunc, CJStringPoolDict, CJStringPool, CJStackMap,
      CJGCTib, CJGCRoots, CJTypeTemplate, CJTypeInfo, CJTypeFields, CJMTable,
      CJInnerTypeExtensions, CJOuterTypeExtensions, CJStaticGITable, CJGCFlags,
      CJReflectPkgInfo, CJReflectGV, CJReflectGI, CJTypeExt]"

text \<open>
  The variables, zero at start: where each section starts and its size (an \<open>unsigned long\<close>, 32
  bits on Windows and 64 on Darwin), the span's size on Darwin (\<open>_CJMetaDataSize\<close>, an \<open>int\<close>),
  and the text ranges of the runtime and of its threads.
\<close>

record section_vars =
  secStart :: "cj_section \<Rightarrow> addr"
  secSize :: "cj_section \<Rightarrow> u64"
  CJMetaDataSize :: "32 word"
  runtimeStaticStart :: addr
  runtimeStaticEnd :: addr
  cjThreadStaticStart :: addr
  cjThreadStaticEnd :: addr

definition zero_vars :: section_vars where
  "zero_vars = \<lparr>secStart = (\<lambda>_. 0), secSize = (\<lambda>_. 0), CJMetaDataSize = 0, runtimeStaticStart = 0,
     runtimeStaticEnd = 0, cjThreadStaticStart = 0, cjThreadStaticEnd = 0\<rparr>"

definition secEnd :: "section_vars \<Rightarrow> cj_section \<Rightarrow> addr" where
  "secEnd v c = secStart v c + secSize v c"

text \<open>\<open>std::min\<close> and \<open>std::max\<close> over the initializer list of starts and ends.\<close>

definition span_addrs :: "section_vars \<Rightarrow> addr list" where
  "span_addrs v = concat (map (\<lambda>c. [secStart v c, secEnd v c]) span_sections)"

definition list_min :: "addr list \<Rightarrow> addr" where
  "list_min xs = fold min (tl xs) (hd xs)"

definition list_max :: "addr list \<Rightarrow> addr" where
  "list_max xs = fold max (tl xs) (hd xs)"

definition span_size :: "section_vars \<Rightarrow> u64" where
  "span_size v = list_max (span_addrs v) - list_min (span_addrs v)"

section \<open>Windows\<close>

text \<open>What a section of the image fills.\<close>

datatype section_target = Meta cj_section | RuntimeText | ThreadText

text \<open>The chain of \<open>strncmp\<close> tests, in its order.\<close>

definition win_prefixes :: "(string \<times> section_target) list" where
  "win_prefixes =
     [(''.header'', Meta CJMetadata),
      (''.cjsdkv'', Meta CJSDKVersion),
      (''.cjmthd'', Meta CJMethodInfo),
      (''.cjinitF'', Meta CJGlobalInitFunc),
      (''.cjspdct'', Meta CJStringPoolDict),
      (''.cjsp'', Meta CJStringPool),
      (''.cjsm'', Meta CJStackMap),
      (''.cjgctib'', Meta CJGCTib),
      (''.cjgcrts'', Meta CJGCRoots),
      (''.cjtt'', Meta CJTypeTemplate),
      (''.cjti'', Meta CJTypeInfo),
      (''.cjfield'', Meta CJTypeFields),
      (''.cjmtlb'', Meta CJMTable),
      (''.cjinty'', Meta CJInnerTypeExtensions),
      (''.cjouty'', Meta CJOuterTypeExtensions),
      (''.cjsgt'', Meta CJStaticGITable),
      (''.cjgcflg'', Meta CJGCFlags),
      (''.cjrflp'', Meta CJReflectPkgInfo),
      (''.cjrflv'', Meta CJReflectGV),
      (''.cjrflg'', Meta CJReflectGI),
      (''.cjtpe'', Meta CJTypeExt),
      (''.text_rt'', RuntimeText),
      (''.text_th'', ThreadText)]"

text \<open>\<open>strncmp(name, p, strlen(p)) == 0\<close>; a name has at most 8 characters, none of them NUL.\<close>

definition strncmp_eq :: "string \<Rightarrow> string \<Rightarrow> bool" where
  "strncmp_eq name p \<longleftrightarrow> take (length p) name = p"

fun first_prefix :: "(string \<times> 'a) list \<Rightarrow> string \<Rightarrow> 'a option" where
  "first_prefix [] name = None"
| "first_prefix ((p, t) # ps) name = (if strncmp_eq name p then Some t else first_prefix ps name)"

definition classify :: "string \<Rightarrow> section_target option" where
  "classify name = first_prefix win_prefixes name"

record pe_section =
  secName :: string
  VirtualAddress :: u32
  VirtualSize :: u32

definition store_section :: "addr \<Rightarrow> pe_section \<Rightarrow> section_vars \<Rightarrow> section_vars" where
  "store_section hModule s v =
     (let start = hModule + ucast (VirtualAddress s) in
      case classify (secName s) of
        None \<Rightarrow> v
      | Some (Meta c) \<Rightarrow> v\<lparr>secStart := (secStart v)(c := start), secSize := (secSize v)(c := ucast (VirtualSize s))\<rparr>
      | Some RuntimeText \<Rightarrow>
          v\<lparr>runtimeStaticStart := start, runtimeStaticEnd := start + ucast (VirtualSize s)\<rparr>
      | Some ThreadText \<Rightarrow>
          v\<lparr>cjThreadStaticStart := start, cjThreadStaticEnd := start + ucast (VirtualSize s)\<rparr>)"

text \<open>
  The image the code runs in, as the loader gives it: the handle, if the call succeeds (it may
  still be null), the two signatures and the section table.
\<close>

record pe_image =
  module_handle :: "addr option"
  dos_signature_ok :: bool
  nt_signature_ok :: bool
  section_table :: "pe_section list"

definition InitData_windows :: "pe_image \<Rightarrow> section_vars \<Rightarrow> section_vars" where
  "InitData_windows img v =
     (case module_handle img of
        None \<Rightarrow> v
      | Some h \<Rightarrow>
          if h = 0 then v
          else if \<not> dos_signature_ok img then v
          else if \<not> nt_signature_ok img then v
          else
            let v1 = fold (store_section h) (section_table img) v in
            v1\<lparr>secSize := (secSize v1)(CJMetadata := ucast (ucast (span_size v1) :: u32))\<rparr>)"

section \<open>Darwin\<close>

definition mac_sections :: "(cj_section \<times> string \<times> string) list" where
  "mac_sections =
     [(CJMetadata, ''__CJMETAHEADER'', ''__cjmetaheader''),
      (CJSDKVersion, ''__CJ_METADATA'', ''__cjsdkversion''),
      (CJMethodInfo, ''__CJ_METADATA'', ''__cjmethodinfo''),
      (CJGlobalInitFunc, ''__CJ_METADATA'', ''__cjglobalFunc''),
      (CJStringPoolDict, ''__CJ_METADATA'', ''__cjstrpooldict''),
      (CJStringPool, ''__CJ_METADATA'', ''__cjstrpool''),
      (CJStackMap, ''__CJ_METADATA'', ''__cjstackmap''),
      (CJGCTib, ''__CJ_METADATA'', ''__cjgctib''),
      (CJGCRoots, ''__CJ_METADATA'', ''__cjgcroots''),
      (CJTypeTemplate, ''__CJ_METADATA'', ''__cjtemplate''),
      (CJTypeInfo, ''__CJ_METADATA'', ''__cjtypeinfo''),
      (CJTypeFields, ''__CJ_METADATA'', ''__cj_fields''),
      (CJMTable, ''__CJ_METADATA'', ''__cjmtable''),
      (CJInnerTypeExtensions, ''__CJ_METADATA'', ''__cjinnerty_eds''),
      (CJOuterTypeExtensions, ''__CJ_METADATA'', ''__cjouterty_eds''),
      (CJStaticGITable, ''__CJ_METADATA'', ''__cjstatic_gi''),
      (CJGCFlags, ''__CJ_METADATA'', ''__cjgcflags''),
      (CJReflectPkgInfo, ''__CJ_METADATA'', ''__cjref_pkginfo''),
      (CJReflectGV, ''__CJ_METADATA'', ''__cjref_gv''),
      (CJReflectGI, ''__CJ_METADATA'', ''__cjref_gi''),
      (CJTypeExt, ''__CJ_METADATA'', ''__cjtype_ext'')]"

text \<open>
  \<open>getsectiondata\<close> of an image header: the address (null when there is no such section) and the
  size it stores.
\<close>

type_synonym getsectiondata = "addr \<Rightarrow> string \<Rightarrow> string \<Rightarrow> addr \<times> u64"

definition load_section ::
  "getsectiondata \<Rightarrow> addr \<Rightarrow> cj_section \<times> string \<times> string \<Rightarrow> section_vars \<Rightarrow> section_vars" where
  "load_section gsd mhp e v =
     (case e of (c, seg, sect) \<Rightarrow>
        let (a, n) = gsd mhp seg sect in
        v\<lparr>secStart := (secStart v)(c := a), secSize := (secSize v)(c := n)\<rparr>)"

definition InitSectionInformation :: "getsectiondata \<Rightarrow> addr \<Rightarrow> section_vars \<Rightarrow> section_vars" where
  "InitSectionInformation gsd mhp v =
     (let v1 = fold (load_section gsd mhp) mac_sections v;
          (text, textSize) = gsd mhp ''__TEXT'' ''__cjrt_text''
      in v1\<lparr>runtimeStaticStart := text, runtimeStaticEnd := text + textSize\<rparr>)"

text \<open>The search for the image by name; the first index that matches.\<close>

fun find_image :: "string \<Rightarrow> nat \<Rightarrow> string list \<Rightarrow> nat option" where
  "find_image name i [] = None"
| "find_image name i (n # ns) = (if n = name then Some i else find_image name (Suc i) ns)"

text \<open>
  \<open>InitData\<close> on Darwin: \<open>dylib_name\<close> is what \<open>dladdr\<close> reports, \<open>images\<close> the names of the loaded
  images and \<open>header\<close> the address of each image's header. The failed assertion stops the
  process.
\<close>

definition InitData_macos ::
  "string \<Rightarrow> string list \<Rightarrow> (nat \<Rightarrow> addr) \<Rightarrow> getsectiondata \<Rightarrow> section_vars \<Rightarrow> section_vars res" where
  "InitData_macos dylib_name images header gsd v =
     (case find_image dylib_name 0 images of
        None \<Rightarrow> Inl Abort
      | Some index \<Rightarrow>
          let v1 = InitSectionInformation gsd (header index) v in
          Inr (v1\<lparr>CJMetaDataSize := ucast (span_size v1)\<rparr>))"

section \<open>Matching names\<close>

lemma strncmp_eq_prefix: "strncmp_eq name p \<longleftrightarrow> (\<exists>r. name = p @ r)"
  by (auto simp: strncmp_eq_def) (metis append_take_drop_id)

lemma strncmp_eq_both: "strncmp_eq name p \<Longrightarrow> strncmp_eq name q \<Longrightarrow> strncmp_eq p q \<or> strncmp_eq q p"
  by (auto simp: strncmp_eq_prefix append_eq_append_conv2)

text \<open>No prefix hides a later one, except that \<open>.cjspdct\<close> is tested before \<open>.cjsp\<close>, which it extends.\<close>

fun unhidden :: "(string \<times> 'a) list \<Rightarrow> bool" where
  "unhidden [] = True"
| "unhidden ((p, t) # ps) \<longleftrightarrow> list_all (\<lambda>(q, _). \<not> strncmp_eq q p) ps \<and> unhidden ps"

lemma win_prefixes_unhidden: "unhidden win_prefixes"
  by code_simp

lemma first_prefix_longest:
  "unhidden ps \<Longrightarrow> (p, t) \<in> set ps \<Longrightarrow> strncmp_eq name p \<Longrightarrow>
    \<forall>q \<in> fst ` set ps. strncmp_eq name q \<longrightarrow> length q \<le> length p \<Longrightarrow>
    first_prefix ps name = Some t"
proof (induction ps)
  case (Cons x ps)
  obtain q t' where x: "x = (q, t')" by (cases x)
  show ?case
  proof (cases "(p, t) = x")
    case True
    with Cons.prems x show ?thesis by simp
  next
    case False
    then have p: "(p, t) \<in> set ps" using Cons.prems(2) by simp
    with Cons.prems(1) x have not_hidden: "\<not> strncmp_eq p q" by (auto simp: list_all_iff)
    have "\<not> strncmp_eq name q"
    proof
      assume q: "strncmp_eq name q"
      with Cons.prems(3) not_hidden have "strncmp_eq q p" using strncmp_eq_both by blast
      moreover have "length q \<le> length p" using Cons.prems(4) x q by auto
      ultimately have "q = p" by (auto simp: strncmp_eq_prefix)
      with not_hidden show False by (simp add: strncmp_eq_def)
    qed
    with Cons p x show ?thesis by auto
  qed
qed simp

lemma first_prefix_Some: "first_prefix ps name = Some t \<Longrightarrow> \<exists>p. (p, t) \<in> set ps \<and> strncmp_eq name p"
  by (induction ps name rule: first_prefix.induct) (auto split: if_splits)

lemma ex_longest:
  assumes "p \<in> S" and "finite S" and "Q p"
  shows "\<exists>q \<in> S. Q q \<and> (\<forall>r \<in> S. Q r \<longrightarrow> length r \<le> length (q :: string))"
proof -
  let ?L = "length ` {q \<in> S. Q q}"
  have L: "finite ?L" "?L \<noteq> {}" using assms by auto
  obtain q where q: "q \<in> {q \<in> S. Q q}" "Max ?L = length q"
    using Max_in [OF L] by (rule imageE) simp
  have "length r \<le> length q" if "r \<in> S" "Q r" for r
    using Max_ge [OF L(1)] q(2) that by simp
  with q(1) show ?thesis by blast
qed

text \<open>
  C28. The chain of name tests computes the longest match: a section name is attributed to the
  entry with the longest prefix that matches it, and to none exactly when no prefix matches. The
  order of the tests matters for one pair only, \<open>.cjspdct\<close> and \<open>.cjsp\<close>, and is right there.
\<close>

theorem classify_longest_match:
  "classify name = Some t \<longleftrightarrow>
    (\<exists>p. (p, t) \<in> set win_prefixes \<and> strncmp_eq name p \<and>
      (\<forall>q \<in> fst ` set win_prefixes. strncmp_eq name q \<longrightarrow> length q \<le> length p))"
    (is "?l \<longleftrightarrow> (\<exists>p. ?longest p t)")
proof
  assume c: ?l
  obtain p where p: "(p, t) \<in> set win_prefixes \<and> strncmp_eq name p"
    using first_prefix_Some [OF c [unfolded classify_def]] ..
  have "p \<in> fst ` set win_prefixes" by (rule image_eqI [of _ _ "(p, t)"]) (simp_all only: p fst_conv)
  from ex_longest [OF this, of "strncmp_eq name"] p obtain q
    where q: "q \<in> fst ` set win_prefixes" "strncmp_eq name q"
      "\<forall>r \<in> fst ` set win_prefixes. strncmp_eq name r \<longrightarrow> length r \<le> length q"
    by blast
  from q(1) obtain t' where t': "(q, t') \<in> set win_prefixes" by (auto simp only: image_iff prod.collapse fst_conv)
  have "classify name = Some t'"
    unfolding classify_def by (rule first_prefix_longest [OF win_prefixes_unhidden t' q(2,3)])
  with c have "t' = t" by simp
  with t' q(2,3) show "\<exists>p. ?longest p t" by blast
next
  assume "\<exists>p. ?longest p t"
  then obtain p where "?longest p t" ..
  then show ?l
    unfolding classify_def by (elim conjE) (rule first_prefix_longest [OF win_prefixes_unhidden])
qed

section \<open>What the section table yields\<close>

definition last_section :: "section_target \<Rightarrow> pe_section list \<Rightarrow> pe_section option" where
  "last_section t ss = find (\<lambda>s. classify (secName s) = Some t) (rev ss)"

lemma fold_store_section:
  "secStart (fold (store_section h) ss v) c =
     (case last_section (Meta c) ss of None \<Rightarrow> secStart v c | Some s \<Rightarrow> h + ucast (VirtualAddress s)) \<and>
   secSize (fold (store_section h) ss v) c =
     (case last_section (Meta c) ss of None \<Rightarrow> secSize v c | Some s \<Rightarrow> ucast (VirtualSize s))"
proof (induction ss rule: rev_induct)
  case Nil
  show ?case by (simp add: last_section_def)
next
  case (snoc s ss)
  then show ?case
    by (auto simp: last_section_def store_section_def Let_def split: option.split section_target.split)
qed

lemma fold_min: "fold min xs x = Min (set (x # xs))" for x :: "'a :: linorder"
  by (rule Min.set_eq_fold [symmetric])

lemma fold_max: "fold max xs x = Max (set (x # xs))" for x :: "'a :: linorder"
  by (rule Max.set_eq_fold [symmetric])

lemma list_min_Min: "xs \<noteq> [] \<Longrightarrow> list_min xs = Min (set xs)"
  unfolding list_min_def fold_min by (cases xs) simp_all

lemma list_max_Max: "xs \<noteq> [] \<Longrightarrow> list_max xs = Max (set xs)"
  unfolding list_max_def fold_max by (cases xs) simp_all

lemma span_addrs_nonempty: "span_addrs v \<noteq> []"
  by (simp add: span_addrs_def span_sections_def)

lemma span_addrs_iff:
  "a \<in> set (span_addrs v) \<longleftrightarrow> (\<exists>c \<in> set span_sections. a = secStart v c \<or> a = secEnd v c)"
  by (auto simp: span_addrs_def)

lemma span_bounds:
  "a \<in> set (span_addrs v) \<Longrightarrow> list_min (span_addrs v) \<le> a"
  "a \<in> set (span_addrs v) \<Longrightarrow> a \<le> list_max (span_addrs v)"
  "list_min (span_addrs v) \<in> set (span_addrs v)"
  "list_max (span_addrs v) \<in> set (span_addrs v)"
  using span_addrs_nonempty [of v] by (auto simp: list_min_Min list_max_Max intro: Min_in Max_in)

lemma span_addrs_cong:
  "(\<And>c. c \<in> set span_sections \<Longrightarrow> secStart v c = secStart v' c \<and> secSize v c = secSize v' c) \<Longrightarrow>
    span_addrs v = span_addrs v'"
  unfolding span_addrs_def secEnd_def by (intro arg_cong [where f = concat] map_cong) auto

lemma CJMetadata_not_span: "CJMetadata \<notin> set span_sections"
  by (simp add: span_sections_def)

definition usable_image :: "pe_image \<Rightarrow> addr \<Rightarrow> bool" where
  "usable_image img h \<longleftrightarrow> module_handle img = Some h \<and> h \<noteq> 0 \<and> dos_signature_ok img \<and> nt_signature_ok img"

lemma InitData_windows_usable:
  assumes "usable_image img h"
  shows "secStart (InitData_windows img v) = secStart (fold (store_section h) (section_table img) v)"
    and "c \<noteq> CJMetadata \<Longrightarrow>
      secSize (InitData_windows img v) c = secSize (fold (store_section h) (section_table img) v) c"
    and "secSize (InitData_windows img v) CJMetadata = ucast (ucast (span_size (InitData_windows img v)) :: u32)"
proof -
  have eq: "InitData_windows img v =
      (let v1 = fold (store_section h) (section_table img) v
       in v1\<lparr>secSize := (secSize v1)(CJMetadata := ucast (ucast (span_size v1) :: u32))\<rparr>)"
    using assms by (simp add: InitData_windows_def usable_image_def)
  show "secStart (InitData_windows img v) = secStart (fold (store_section h) (section_table img) v)"
    by (simp add: eq Let_def)
  show size: "secSize (InitData_windows img v) c = secSize (fold (store_section h) (section_table img) v) c"
    if "c \<noteq> CJMetadata" for c
    using that by (simp add: eq Let_def)
  have "span_addrs (InitData_windows img v) = span_addrs (fold (store_section h) (section_table img) v)"
    by (rule span_addrs_cong) (use CJMetadata_not_span in \<open>auto simp: eq Let_def\<close>)
  then show "secSize (InitData_windows img v) CJMetadata = ucast (ucast (span_size (InitData_windows img v)) :: u32)"
    by (simp add: span_size_def) (simp add: eq Let_def span_size_def)
qed

text \<open>
  On Windows every section variable is set from the last section of the table that the name
  tests attribute to it, and left as it was when there is none; without a usable image nothing
  is touched.
\<close>

theorem InitData_windows_sections:
  assumes "usable_image img h"
  shows "secStart (InitData_windows img v) c =
      (case last_section (Meta c) (section_table img) of
         None \<Rightarrow> secStart v c | Some s \<Rightarrow> h + ucast (VirtualAddress s)) \<and>
    (c \<noteq> CJMetadata \<longrightarrow> secSize (InitData_windows img v) c =
      (case last_section (Meta c) (section_table img) of
         None \<Rightarrow> secSize v c | Some s \<Rightarrow> ucast (VirtualSize s))) \<and>
    (\<forall>img'. (\<nexists>k. usable_image img' k) \<longrightarrow> InitData_windows img' v = v)"
  using InitData_windows_usable [OF assms, where v = v] fold_store_section [of h "section_table img" v c]
  by (auto simp: InitData_windows_def usable_image_def split: option.split)

text \<open>An image that ends below 4 GiB from its base and does not wrap around.\<close>

definition fits :: "addr \<Rightarrow> pe_section list \<Rightarrow> bool" where
  "fits h ss \<longleftrightarrow> unat h + 2 ^ 32 < 2 ^ 64 \<and> (\<forall>s \<in> set ss. unat (VirtualAddress s) + unat (VirtualSize s) < 2 ^ 32)"

lemma last_section_in: "last_section t ss = Some s \<Longrightarrow> s \<in> set ss"
  by (auto simp: last_section_def find_Some_iff in_set_conv_nth rev_nth)
    (metis diff_Suc_less length_greater_0_conv length_pos_if_in_set nth_mem)

lemma unat_u32_bound: "unat (x :: u32) < 18446744073709551616"
  using unsigned_less [of x, where 'a = nat] by simp

lemma section_range:
  assumes "fits h ss" and "s \<in> set ss"
  shows "unat (h + ucast (VirtualAddress s)) = unat h + unat (VirtualAddress s)"
    and "unat (h + ucast (VirtualAddress s) + ucast (VirtualSize s)) =
      unat h + unat (VirtualAddress s) + unat (VirtualSize s)"
proof -
  have lt: "unat (VirtualAddress s) + unat (VirtualSize s) < 2 ^ 32" and h: "unat h + 2 ^ 32 < 2 ^ 64"
    using assms by (auto simp: fits_def)
  have u: "unat (ucast x :: addr) = unat x" for x :: u32
    by (simp add: unsigned_ucast_eq take_bit_nat_eq_self_iff unat_u32_bound)
  have "unat h + unat (VirtualAddress s) < 2 ^ 64"
    and "unat h + unat (VirtualAddress s) + unat (VirtualSize s) < 2 ^ 64"
    using lt h by linarith+
  then show "unat (h + ucast (VirtualAddress s)) = unat h + unat (VirtualAddress s)"
    and "unat (h + ucast (VirtualAddress s) + ucast (VirtualSize s)) =
      unat h + unat (VirtualAddress s) + unat (VirtualSize s)"
    by (simp_all add: unat_word_ariths u)
qed

lemma diff_below: "h \<le> m \<Longrightarrow> n < h + k \<Longrightarrow> m \<le> n \<Longrightarrow> n - m < k" for h k m n :: nat
  by arith

lemma span_size_fits:
  assumes lo: "\<And>a. a \<in> set (span_addrs v) \<Longrightarrow> unat h \<le> unat a \<and> unat a < unat h + 2 ^ 32"
  shows "ucast (ucast (span_size v) :: u32) = span_size v"
    and "list_min (span_addrs v) + span_size v = list_max (span_addrs v)"
proof -
  let ?lo = "list_min (span_addrs v)" and ?hi = "list_max (span_addrs v)"
  have "?lo \<le> ?hi" using span_bounds by blast
  then have "unat (span_size v) = unat ?hi - unat ?lo"
    by (simp add: span_size_def unat_sub)
  moreover have "unat h \<le> unat ?lo" "unat ?hi < unat h + 2 ^ 32"
    using lo span_bounds(3,4) by blast+
  moreover have "unat ?lo \<le> unat ?hi" using \<open>?lo \<le> ?hi\<close> by (simp only: word_le_nat_alt)
  ultimately have "unat (span_size v) < 2 ^ 32" by (simp only: diff_below)
  then show "ucast (ucast (span_size v) :: u32) = span_size v"
    by (simp add: word_unat_eq_iff unsigned_ucast_eq unsigned_take_bit_eq take_bit_nat_eq_self)
  show "?lo + span_size v = ?hi" by (simp add: span_size_def)
qed

text \<open>
  On Windows, when the image has all twenty metadata sections and ends below 4 GiB from its base,
  the final metadata size covers exactly them: counted from the lowest start, no section
  sticks out, and the highest end is reached.
\<close>

theorem InitData_windows_span:
  assumes "usable_image img h" and "fits h (section_table img)"
    and "\<forall>c \<in> set span_sections. last_section (Meta c) (section_table img) \<noteq> None"
  shows "\<exists>lo. let v' = InitData_windows img v; hi = lo + secSize v' CJMetadata in
    (\<forall>c \<in> set span_sections. lo \<le> secStart v' c \<and> secStart v' c \<le> secEnd v' c \<and> secEnd v' c \<le> hi) \<and>
    (\<exists>c \<in> set span_sections. secStart v' c = lo) \<and> (\<exists>c \<in> set span_sections. secEnd v' c = hi)"
proof -
  let ?v = "InitData_windows img v" and ?ss = "section_table img"
  have sec: "\<exists>s \<in> set ?ss. secStart ?v c = h + ucast (VirtualAddress s) \<and>
      secEnd ?v c = h + ucast (VirtualAddress s) + ucast (VirtualSize s)" if c: "c \<in> set span_sections" for c
  proof -
    obtain s where s: "last_section (Meta c) ?ss = Some s" using assms(3) c by blast
    have "c \<noteq> CJMetadata" using c CJMetadata_not_span by blast
    with s show ?thesis
      using last_section_in [OF s] InitData_windows_usable(1,2) [OF assms(1), where v = v]
        fold_store_section [of h ?ss v c]
      by (intro bexI [of _ s]) (simp_all add: secEnd_def)
  qed
  have order: "unat h \<le> unat (secStart ?v c) \<and> unat (secStart ?v c) \<le> unat (secEnd ?v c) \<and>
      unat (secEnd ?v c) < unat h + 2 ^ 32" if c: "c \<in> set span_sections" for c
  proof -
    obtain s where "s \<in> set ?ss" "secStart ?v c = h + ucast (VirtualAddress s)"
      "secEnd ?v c = h + ucast (VirtualAddress s) + ucast (VirtualSize s)" using sec [OF c] by blast
    moreover from this(1) have "unat (VirtualAddress s) + unat (VirtualSize s) < 2 ^ 32"
      using assms(2) by (simp add: fits_def)
    ultimately show ?thesis using section_range [OF assms(2)] by simp
  qed
  then have le: "secStart ?v c \<le> secEnd ?v c" if "c \<in> set span_sections" for c
    using that by (simp add: word_le_nat_alt)
  let ?lo = "list_min (span_addrs ?v)"
  have range: "unat h \<le> unat a \<and> unat a < unat h + 2 ^ 32" if a: "a \<in> set (span_addrs ?v)" for a
  proof -
    obtain c where "c \<in> set span_sections" "a = secStart ?v c \<or> a = secEnd ?v c"
      using a unfolding span_addrs_iff by blast
    with order [of c] show ?thesis by (elim disjE) auto
  qed
  have hi: "?lo + secSize ?v CJMetadata = list_max (span_addrs ?v)"
    using span_size_fits [of ?v h] range by (simp only: InitData_windows_usable(3) [OF assms(1)])
  have bounds: "?lo \<le> secStart ?v c" "secEnd ?v c \<le> list_max (span_addrs ?v)" if "c \<in> set span_sections" for c
    using that by (auto intro!: span_bounds simp: span_addrs_iff)
  obtain c where c: "c \<in> set span_sections" "?lo = secStart ?v c \<or> ?lo = secEnd ?v c"
    using span_bounds(3) [of ?v] unfolding span_addrs_iff by blast
  then have "secStart ?v c = ?lo" using bounds(1) [OF c(1)] le [OF c(1)] by auto
  moreover obtain d where d: "d \<in> set span_sections"
      "list_max (span_addrs ?v) = secStart ?v d \<or> list_max (span_addrs ?v) = secEnd ?v d"
    using span_bounds(4) [of ?v] unfolding span_addrs_iff by blast
  then have "secEnd ?v d = list_max (span_addrs ?v)" using bounds(2) [OF d(1)] le [OF d(1)] by auto
  ultimately show ?thesis
    unfolding Let_def using bounds le c(1) d(1) hi by (intro exI [of _ ?lo]) auto
qed

text \<open>
  When one metadata section is absent from the image its start stays 0, which then is the
  minimum: the size that is stored is no span but the low 32 bits of the highest end address.
\<close>

theorem InitData_windows_missing_section:
  assumes "usable_image img h" and "c \<in> set span_sections"
    and "last_section (Meta c) (section_table img) = None"
  shows "secSize (InitData_windows img zero_vars) CJMetadata =
    take_bit 32 (list_max (span_addrs (InitData_windows img zero_vars)))"
proof -
  let ?v = "InitData_windows img zero_vars"
  have "secStart ?v c = 0"
    using InitData_windows_usable(1) [OF assms(1), where v = zero_vars]
      fold_store_section [of h "section_table img" zero_vars c] assms(3)
    by (simp add: zero_vars_def)
  then have "0 \<in> set (span_addrs ?v)" using assms(2) by (metis span_addrs_iff)
  then have "list_min (span_addrs ?v) = 0" using span_bounds(1) by fastforce
  moreover have "ucast (ucast x :: u32) = take_bit 32 x" for x :: u64
    by (rule bit_word_eqI) (auto simp: bit_ucast_iff bit_take_bit_iff)
  ultimately show ?thesis
    by (simp add: InitData_windows_usable(3) [OF assms(1)] span_size_def)
qed

section \<open>What Darwin reports\<close>

lemma find_image_iff:
  "find_image name i ns = Some j \<longleftrightarrow>
    i \<le> j \<and> j - i < length ns \<and> ns ! (j - i) = name \<and> (\<forall>k < j - i. ns ! k \<noteq> name)"
proof (induction name i ns rule: find_image.induct)
  case (2 name i n ns)
  show ?case
  proof (cases "n = name")
    case True
    then show ?thesis by (cases "j - i") auto
  next
    case False
    with 2 show ?thesis
      by (cases "j - i") (auto simp: nth_Cons' less_Suc_eq_0_disj Suc_diff_Suc diff_Suc split: nat.splits)
  qed
qed simp

lemma find_image_None: "find_image name i ns = None \<longleftrightarrow> name \<notin> set ns"
  by (induction name i ns rule: find_image.induct) auto

lemma load_section_vars:
  "(secStart (load_section gsd h (c, seg, sect) v) d, secSize (load_section gsd h (c, seg, sect) v) d) =
    (if d = c then gsd h seg sect else (secStart v d, secSize v d))"
  by (simp add: load_section_def split: prod.split)

lemma fold_load_section_other:
  "c \<notin> fst ` set es \<Longrightarrow>
    (secStart (fold (load_section gsd h) es v) c, secSize (fold (load_section gsd h) es v) c) =
    (secStart v c, secSize v c)"
proof (induction es arbitrary: v)
  case (Cons e es)
  obtain d seg sect where "e = (d, seg, sect)" by (cases e)
  with Cons show ?case
    using load_section_vars [of gsd h d seg sect v c] by simp
qed simp

lemma fold_load_section:
  "distinct (map fst es) \<Longrightarrow> (c, seg, sect) \<in> set es \<Longrightarrow>
    (secStart (fold (load_section gsd h) es v) c, secSize (fold (load_section gsd h) es v) c) = gsd h seg sect"
proof (induction es arbitrary: v)
  case (Cons e es)
  show ?case
  proof (cases "e = (c, seg, sect)")
    case True
    with Cons.prems(1) have "c \<notin> fst ` set es" by simp
    with fold_load_section_other [of c es gsd h "load_section gsd h e v"] True
      load_section_vars [of gsd h c seg sect v c]
    show ?thesis by simp
  next
    case False
    with Cons show ?thesis by simp
  qed
qed simp

lemma mac_sections_distinct: "distinct (map fst mac_sections)"
  by (simp add: mac_sections_def)

text \<open>
  On Darwin start-up either stops the process, when the library's own name is not among
  the loaded images, or takes the first image with that name, sets every section variable from what
  \<open>getsectiondata\<close> reports for that image, and stores the span's size as a 32-bit integer.
\<close>

theorem InitData_macos_sections:
  "case InitData_macos dylib_name images header gsd v of
     Inl e \<Rightarrow> e = Abort \<and> dylib_name \<notin> set images
   | Inr v' \<Rightarrow> \<exists>i < length images. images ! i = dylib_name \<and> (\<forall>j < i. images ! j \<noteq> dylib_name) \<and>
       (\<forall>(c, seg, sect) \<in> set mac_sections. (secStart v' c, secSize v' c) = gsd (header i) seg sect) \<and>
       CJMetaDataSize v' = ucast (span_size v')"
proof (cases "find_image dylib_name 0 images")
  case None
  moreover have "dylib_name \<notin> set images" using None by (rule find_image_None [THEN iffD1])
  ultimately show ?thesis by (simp add: InitData_macos_def)
next
  case (Some i)
  define v1 where "v1 = InitSectionInformation gsd (header i) v"
  have sec: "(secStart v1 c, secSize v1 c) = gsd (header i) seg sect" if "(c, seg, sect) \<in> set mac_sections" for c seg sect
    using fold_load_section [OF mac_sections_distinct that]
    by (simp add: v1_def InitSectionInformation_def split: prod.split)
  have "span_size (v1\<lparr>CJMetaDataSize := x\<rparr>) = span_size v1" for x
    by (simp add: span_size_def span_addrs_def secEnd_def)
  moreover have "i < length images" "images ! i = dylib_name" "\<forall>j < i. images ! j \<noteq> dylib_name"
    using Some by (simp_all add: find_image_iff)
  ultimately show ?thesis
    using sec by (auto simp: InitData_macos_def Some Let_def v1_def [symmetric] intro!: exI [of _ i])
qed

section \<open>A concrete image\<close>

theorem classify_longest_match_witness:
  "classify ''.cjspdct'' = Some (Meta CJStringPoolDict) \<and> classify ''.cjsp'' = Some (Meta CJStringPool)"
proof -
  have "\<forall>q \<in> fst ` set win_prefixes. strncmp_eq ''.cjspdct'' q \<longrightarrow> length q \<le> length ''.cjspdct''"
    and "\<forall>q \<in> fst ` set win_prefixes. strncmp_eq ''.cjsp'' q \<longrightarrow> length q \<le> length ''.cjsp''"
    by (simp_all add: win_prefixes_def strncmp_eq_def)
  moreover have "(''.cjspdct'', Meta CJStringPoolDict) \<in> set win_prefixes"
    and "(''.cjsp'', Meta CJStringPool) \<in> set win_prefixes"
    by (simp_all add: win_prefixes_def)
  moreover have "strncmp_eq p p" for p by (simp add: strncmp_eq_def)
  ultimately show ?thesis using classify_longest_match by blast
qed

definition demo_table :: "pe_section list" where
  "demo_table = map (\<lambda>n. \<lparr>secName = n, VirtualAddress = 0x1000, VirtualSize = 0x800\<rparr>) (map fst win_prefixes) @
     [\<lparr>secName = ''.cjsp'', VirtualAddress = 0x6000, VirtualSize = 0x800\<rparr>]"

definition demo_pe :: pe_image where
  "demo_pe = \<lparr>module_handle = Some 0x140000000, dos_signature_ok = True, nt_signature_ok = True,
     section_table = demo_table\<rparr>"

lemma demo_pe_usable: "usable_image demo_pe 0x140000000"
  by (simp add: usable_image_def demo_pe_def)

lemma classify_own_name: "list_all (\<lambda>(p, t). classify p = Some t) win_prefixes"
  by (simp add: classify_def win_prefixes_def strncmp_eq_def)

lemma last_section_present: "s \<in> set ss \<Longrightarrow> classify (secName s) = Some t \<Longrightarrow> last_section t ss \<noteq> None"
  by (auto simp: last_section_def find_None_iff)

lemma demo_last_section:
  "\<forall>c \<in> set span_sections. last_section (Meta c) (section_table demo_pe) \<noteq> None"
proof
  fix c assume c: "c \<in> set span_sections"
  have "list_all (\<lambda>c. Meta c \<in> snd ` set win_prefixes) span_sections"
    by (simp add: span_sections_def win_prefixes_def)
  with c have "Meta c \<in> snd ` set win_prefixes" by (simp only: list_all_iff)
  then obtain p where p: "(p, Meta c) \<in> set win_prefixes" by (metis imageE prod.collapse)
  show "last_section (Meta c) (section_table demo_pe) \<noteq> None"
  proof (rule last_section_present)
    show "\<lparr>secName = p, VirtualAddress = 0x1000, VirtualSize = 0x800\<rparr> \<in> set (section_table demo_pe)"
      using p by (force simp: demo_pe_def demo_table_def)
    show "classify (secName \<lparr>secName = p, VirtualAddress = 0x1000, VirtualSize = 0x800\<rparr>) = Some (Meta c)"
      using p classify_own_name by (auto simp: list_all_iff)
  qed
qed

lemma demo_fits: "fits 0x140000000 (section_table demo_pe)"
  by (auto simp: fits_def demo_pe_def demo_table_def)

lemma demo_usable_witness: "\<exists>img. usable_image img 0x140000000 \<and> last_section (Meta CJTypeExt) (section_table img) = None"
  by (rule exI [of _ "\<lparr>module_handle = Some 0x140000000, dos_signature_ok = True, nt_signature_ok = True,
    section_table = []\<rparr>"]) (simp add: usable_image_def last_section_def)

theorem InitData_windows_sections_witness:
  "secStart (InitData_windows demo_pe zero_vars) CJStringPool = 0x140006000 \<and>
    secSize (InitData_windows demo_pe zero_vars) CJStringPool = 0x800"
proof -
  have "last_section (Meta CJStringPool) (section_table demo_pe) =
      Some \<lparr>secName = ''.cjsp'', VirtualAddress = 0x6000, VirtualSize = 0x800\<rparr>"
    using classify_own_name
    by (auto simp: last_section_def demo_pe_def demo_table_def list_all_iff win_prefixes_def)
  with InitData_windows_sections [OF demo_pe_usable, of zero_vars CJStringPool] show ?thesis by simp
qed

theorem InitData_windows_span_witness:
  "\<exists>lo. lo \<le> secStart (InitData_windows demo_pe zero_vars) CJTypeInfo \<and>
    secEnd (InitData_windows demo_pe zero_vars) CJTypeInfo \<le> lo + secSize (InitData_windows demo_pe zero_vars) CJMetadata"
  using InitData_windows_span [OF demo_pe_usable demo_fits demo_last_section, of zero_vars]
  by (auto simp: Let_def span_sections_def)

theorem InitData_windows_missing_section_witness:
  "\<exists>img. usable_image img 0x140000000 \<and> secSize (InitData_windows img zero_vars) CJMetadata =
    take_bit 32 (list_max (span_addrs (InitData_windows img zero_vars)))"
proof -
  obtain img where img: "usable_image img 0x140000000" "last_section (Meta CJTypeExt) (section_table img) = None"
    using demo_usable_witness by blast
  have "CJTypeExt \<in> set span_sections" by (simp add: span_sections_def)
  from InitData_windows_missing_section [OF img(1) this img(2)] img(1) show ?thesis by blast
qed

theorem InitData_macos_sections_witness:
  "\<exists>v'. InitData_macos ''a'' [''b'', ''a'', ''a''] (\<lambda>i. of_nat i * 0x1000) (\<lambda>h seg sect. (h + 0x10, 8)) zero_vars = Inr v' \<and>
    secStart v' CJTypeInfo = 0x1010"
proof -
  let ?gsd = "\<lambda>h seg sect. (h + 0x10, 8)"
  obtain v' where v': "InitData_macos ''a'' [''b'', ''a'', ''a''] (\<lambda>i. of_nat i * 0x1000) ?gsd zero_vars = Inr v'"
    by (simp add: InitData_macos_def Let_def)
  from InitData_macos_sections [where dylib_name = "''a''" and images = "[''b'', ''a'', ''a'']"
      and header = "\<lambda>i. of_nat i * 0x1000" and gsd = ?gsd and v = zero_vars] v'
  obtain i where i: "i < Suc (Suc (Suc 0))" "[''b'', ''a'', ''a''] ! i = ''a''" "\<forall>j < i. [''b'', ''a'', ''a''] ! j \<noteq> ''a''"
    and sec: "\<forall>(c, seg, sect) \<in> set mac_sections. (secStart v' c, secSize v' c) = ?gsd (of_nat i * 0x1000) seg sect"
    by auto
  have "(CJTypeInfo, ''__CJ_METADATA'', ''__cjtypeinfo'') \<in> set mac_sections"
    by (simp add: mac_sections_def)
  with sec have "secStart v' CJTypeInfo = of_nat i * 0x1000 + 0x10" by fastforce
  moreover have "i = 1" using i by (cases i) (auto simp: less_Suc_eq)
  ultimately show ?thesis using v' by simp
qed

end
