(* ===== verification/AllocBuffers.thy ===== *)
theory AllocBuffers
  imports Prelude
begin

text \<open>
  The native leaves of the allocator: the allocation buffer's prepared region and stack roots
  (\<^verbatim>\<open>rt0/AllocBufferNative.cpp\<close>), the scoped entry into the safe region
  (\<^verbatim>\<open>rt0/ScopedSaferegion.cpp\<close>), the raw shifts of the GC bitmaps (\<^verbatim>\<open>rt0/GCTibShift.cpp\<close>)
  and the safepoint pages (\<^verbatim>\<open>rt0/mutator/SafepointPageManager.h\<close>).
\<close>

section \<open>The prepared region\<close>

text \<open>
  \<open>std::atomic<RegionInfo*>\<close> in eight bytes of the buffer's storage; null is 0. The exchange
  expects null and reports whether it stored.
\<close>

definition CJRT_AllocBufferPreparedConstruct :: "mem \<Rightarrow> addr \<Rightarrow> mem" where
  "CJRT_AllocBufferPreparedConstruct m storage = mstore 8 m storage 0"

definition CJRT_AllocBufferPreparedLoadRelaxed :: "mem \<Rightarrow> addr \<Rightarrow> addr" where
  "CJRT_AllocBufferPreparedLoadRelaxed m storage = mload 8 m storage"

definition CJRT_AllocBufferPreparedCompareExchangeRelease :: "mem \<Rightarrow> addr \<Rightarrow> addr \<Rightarrow> int \<times> mem" where
  "CJRT_AllocBufferPreparedCompareExchangeRelease m storage desired =
     (if mload 8 m storage = 0 then (1, mstore 8 m storage desired) else (0, m))"

text \<open>A sequence of attempts to prepare a region, as the threads' operations are ordered.\<close>

fun prepare_all :: "addr \<Rightarrow> mem \<Rightarrow> addr list \<Rightarrow> int list \<times> mem" where
  "prepare_all storage m [] = ([], m)"
| "prepare_all storage m (d # ds) =
     (let (r, m1) = CJRT_AllocBufferPreparedCompareExchangeRelease m storage d;
          (rs, m2) = prepare_all storage m1 ds
      in (r # rs, m2))"

section \<open>Stack roots\<close>

text \<open>The buffer's list of roots and the work stack they are merged into.\<close>

record root_state =
  stackRoots :: "addr list"
  workStack :: "addr list"

definition CJRT_AllocBufferStackRootsConstruct :: "root_state \<Rightarrow> root_state" where
  "CJRT_AllocBufferStackRootsConstruct s = s\<lparr>stackRoots := []\<rparr>"

definition CJRT_AllocBufferPushRoot :: "addr \<Rightarrow> root_state \<Rightarrow> root_state" where
  "CJRT_AllocBufferPushRoot root s = s\<lparr>stackRoots := stackRoots s @ [root]\<rparr>"

fun push_each :: "addr list \<Rightarrow> addr list \<Rightarrow> addr list" where
  "push_each stack [] = stack"
| "push_each stack (object # rest) = push_each (stack @ [object]) rest"

definition CJRT_AllocBufferMergeRoots :: "root_state \<Rightarrow> root_state" where
  "CJRT_AllocBufferMergeRoots s =
     (if stackRoots s = [] then s
      else s\<lparr>stackRoots := [], workStack := push_each (workStack s) (stackRoots s)\<rparr>)"

datatype root_op = PushRoot addr | MergeRoots

fun root_step :: "root_state \<Rightarrow> root_op \<Rightarrow> root_state" where
  "root_step s (PushRoot r) = CJRT_AllocBufferPushRoot r s"
| "root_step s MergeRoots = CJRT_AllocBufferMergeRoots s"

fun pushed :: "root_op list \<Rightarrow> addr list" where
  "pushed [] = []"
| "pushed (PushRoot r # ops) = r # pushed ops"
| "pushed (MergeRoots # ops) = pushed ops"

section \<open>Shifts\<close>

text \<open>
  A C++ shift by the width of the promoted operand or more is undefined (\<open>None\<close>): 64 bits for
  \<open>uintptr_t\<close>, the 32 bits of \<open>int\<close> for \<open>uint8_t\<close>.
\<close>

definition CJRT_GCTibShiftUIntNative :: "addr \<Rightarrow> addr \<Rightarrow> addr option" where
  "CJRT_GCTibShiftUIntNative v count = (if unat count < 64 then Some (drop_bit (unat count) v) else None)"

definition CJRT_GCTibShiftUInt8 :: "u8 \<Rightarrow> addr \<Rightarrow> u8 option" where
  "CJRT_GCTibShiftUInt8 v count =
     (if unat count < 32 then Some (ucast (drop_bit (unat count) (ucast v :: 32 word))) else None)"

section \<open>The safe region\<close>

text \<open>
  \<open>mutator\<close> is what \<open>Mutator::GetMutator()\<close> returns for the thread (\<open>None\<close> is null), with the
  runtime's \<open>EnterSaferegion(true)\<close> and \<open>LeaveSaferegion()\<close> as state transformers.
\<close>

datatype ThreadType = CJ_PROCESSOR | GC_THREAD | FP_THREAD | OTHER_THREAD

definition CJRT_ScopedEnterSaferegionOnlyMutatorBegin ::
  "('m \<Rightarrow> bool \<times> 'm) \<Rightarrow> ThreadType \<Rightarrow> 'm option \<Rightarrow> bool \<times> 'm option" where
  "CJRT_ScopedEnterSaferegionOnlyMutatorBegin enter threadType mutator =
     (if threadType = FP_THREAD \<or> threadType = GC_THREAD then (False, mutator)
      else case mutator of
        None \<Rightarrow> (False, None)
      | Some m \<Rightarrow> let (changed, m') = enter m in (changed, Some m'))"

text \<open>A call through a null mutator is undefined.\<close>

definition CJRT_ScopedEnterSaferegionEnd ::
  "('m \<Rightarrow> bool \<times> 'm) \<Rightarrow> bool \<Rightarrow> 'm option \<Rightarrow> 'm option res" where
  "CJRT_ScopedEnterSaferegionEnd leave stateChanged mutator =
     (if stateChanged then
        case mutator of None \<Rightarrow> Inl OutOfBounds | Some m \<Rightarrow> Inr (Some (snd (leave m)))
      else Inr mutator)"

section \<open>Safepoint pages\<close>

record safepoint_pages =
  readablePage :: addr
  unreadablePage :: addr
  unreadablePageForRawData :: addr

text \<open>The results of the three \<open>mmap\<close> calls; \<open>MAP_FAILED\<close> is all ones.\<close>

definition SafepointPageManager_Init :: "addr \<Rightarrow> addr \<Rightarrow> addr \<Rightarrow> safepoint_pages res" where
  "SafepointPageManager_Init r u raw =
     (if r \<noteq> - 1 \<and> u \<noteq> - 1 \<and> raw \<noteq> - 1
      then Inr \<lparr>readablePage = r, unreadablePage = u, unreadablePageForRawData = raw\<rparr>
      else Inl Fatal)"

section \<open>Properties\<close>

lemma prepare_all_taken:
  "mload 8 m storage \<noteq> 0 \<Longrightarrow> prepare_all storage m ds = (replicate (length ds) 0, m)"
  by (induction ds) (simp_all add: CJRT_AllocBufferPreparedCompareExchangeRelease_def)

text \<open>
  Preparing a region is won once: of any attempts on a constructed slot with regions that
  are not null, in whatever order they take effect, exactly the first one succeeds, the slot
  holds its region, every later attempt fails and leaves it there, and no byte outside the
  slot changes.
\<close>

theorem prepare_all_first_wins:
  assumes "d \<noteq> 0"
  shows "\<exists>m'. prepare_all storage (CJRT_AllocBufferPreparedConstruct m storage) (d # ds) =
      (1 # replicate (length ds) 0, m') \<and>
    CJRT_AllocBufferPreparedLoadRelaxed m' storage = d \<and>
    (\<forall>a. \<not> in_region storage 8 a \<longrightarrow> m' a = m a)"
proof -
  let ?m' = "mstore 8 m storage d"
  have "mload 8 ?m' storage = d" using mload_mstore [of 8 m storage d] by (simp add: take_bit_word_eq_self)
  with assms prepare_all_taken [of ?m' storage ds] show ?thesis
    using mload_mstore [of 8 m storage 0]
    by (simp add: CJRT_AllocBufferPreparedCompareExchangeRelease_def CJRT_AllocBufferPreparedConstruct_def
        CJRT_AllocBufferPreparedLoadRelaxed_def mstore_mstore mstore_outside)
qed

lemma push_each_append: "push_each stack xs = stack @ xs"
  by (induction stack xs rule: push_each.induct) simp_all

lemma root_step_total: "workStack (root_step s op) @ stackRoots (root_step s op) =
    (workStack s @ stackRoots s) @ pushed [op]"
  by (cases op) (simp_all add: CJRT_AllocBufferPushRoot_def CJRT_AllocBufferMergeRoots_def push_each_append)

lemma pushed_Cons: "pushed (op # ops) = pushed [op] @ pushed ops"
  by (cases op) simp_all

text \<open>
  No root is lost, duplicated or reordered: whatever the sequence of pushes and merges, the
  work stack followed by the roots not merged yet is what was there before followed by the
  pushed roots in their order; and after a merge everything is on the work stack.
\<close>

theorem roots_conserved:
  "workStack (foldl root_step s ops) @ stackRoots (foldl root_step s ops) =
     workStack s @ stackRoots s @ pushed ops \<and>
   stackRoots (foldl root_step s (ops @ [MergeRoots])) = []"
proof -
  have "workStack (foldl root_step s ops) @ stackRoots (foldl root_step s ops) =
      (workStack s @ stackRoots s) @ pushed ops"
  proof (induction ops arbitrary: s)
    case (Cons op ops)
    then show ?case using root_step_total [of s op] pushed_Cons [of op ops] by simp
  qed simp
  then show ?thesis by (simp add: CJRT_AllocBufferMergeRoots_def)
qed

text \<open>
  Scoped entry into the safe region is balanced: provided the runtime's \<open>EnterSaferegion\<close>
  reports whether it changed the mutator, and \<open>LeaveSaferegion\<close> undoes a change, ending with
  the value the beginning returned restores the mutator and never goes through a null
  mutator; GC and finalizer threads are left alone.
\<close>

theorem scoped_saferegion_balanced:
  assumes enter: "\<And>m m'. enter m = (False, m') \<Longrightarrow> m' = m"
    and leave: "\<And>m m'. enter m = (True, m') \<Longrightarrow> snd (leave m') = m"
  shows "(case CJRT_ScopedEnterSaferegionOnlyMutatorBegin enter threadType mutator of
      (changed, mutator') \<Rightarrow> CJRT_ScopedEnterSaferegionEnd leave changed mutator' = Inr mutator) \<and>
    (threadType \<in> {FP_THREAD, GC_THREAD} \<longrightarrow>
      CJRT_ScopedEnterSaferegionOnlyMutatorBegin enter threadType mutator = (False, mutator))"
proof (cases mutator)
  case None
  then show ?thesis
    by (auto simp: CJRT_ScopedEnterSaferegionOnlyMutatorBegin_def CJRT_ScopedEnterSaferegionEnd_def)
next
  case (Some m)
  obtain c m' where e: "enter m = (c, m')" by (cases "enter m")
  show ?thesis
    using enter [of m m'] leave [of m m'] e Some
    by (cases c) (auto simp: CJRT_ScopedEnterSaferegionOnlyMutatorBegin_def CJRT_ScopedEnterSaferegionEnd_def)
qed

text \<open>
  The raw shifts divide by a power of two wherever the callers' promise, a count below the
  word size, holds: for a count below 32 the byte shift is exact too, although it is made in
  \<open>int\<close>, and gives 0 from 8 on.
\<close>

theorem GCTibShift_divides:
  assumes "unat count < 32"
  shows "CJRT_GCTibShiftUIntNative v count = Some (of_nat (unat v div 2 ^ unat count)) \<and>
    CJRT_GCTibShiftUInt8 b count = Some (of_nat (unat b div 2 ^ unat count)) \<and>
    (8 \<le> unat count \<longrightarrow> CJRT_GCTibShiftUInt8 b count = Some 0)"
proof -
  have div: "drop_bit n w = of_nat (unat w div 2 ^ n)" for n and w :: "'a::len word"
  proof -
    have "unat (drop_bit n w) = unat w div 2 ^ n"
      by (simp add: unsigned_drop_bit_eq take_bit_nat_eq_self flip: drop_bit_eq_div)
    then have "of_nat (unat w div 2 ^ n) = (of_nat (unat (drop_bit n w)) :: 'a word)" by (simp only:)
    also have "\<dots> = drop_bit n w" by (simp only: of_nat_unat ucast_id)
    finally show ?thesis by (rule sym)
  qed
  have "ucast (drop_bit (unat count) (ucast b :: 32 word)) = drop_bit (unat count) b"
    by (rule bit_word_eqI) (auto simp: bit_ucast_iff bit_drop_bit_eq dest: bit_imp_le_length)
  moreover have "drop_bit (unat count) b = 0" if "8 \<le> unat count"
    by (rule bit_word_eqI) (use that in \<open>auto simp: bit_drop_bit_eq dest: bit_imp_le_length\<close>)
  moreover have "unat count < 64" using assms by simp
  ultimately show ?thesis
    unfolding CJRT_GCTibShiftUIntNative_def CJRT_GCTibShiftUInt8_def div [symmetric]
    using assms by simp
qed

section \<open>Concrete runs\<close>

theorem prepare_all_first_wins_witness:
  "\<exists>m'. prepare_all 0x100 (CJRT_AllocBufferPreparedConstruct (\<lambda>_. 7) 0x100) [0x5000, 0x6000] = ([1, 0], m') \<and>
    CJRT_AllocBufferPreparedLoadRelaxed m' 0x100 = 0x5000"
  using prepare_all_first_wins [of "0x5000" "0x100" "\<lambda>_. 7" "[0x6000]"] by auto

text \<open>A mutator whose state is whether it is in the safe region.\<close>

theorem scoped_saferegion_balanced_witness:
  "case CJRT_ScopedEnterSaferegionOnlyMutatorBegin (\<lambda>b. (\<not> b, True)) CJ_PROCESSOR (Some False) of
     (changed, mutator') \<Rightarrow> changed \<and> CJRT_ScopedEnterSaferegionEnd (\<lambda>b. (True, False)) changed mutator' = Inr (Some False)"
proof -
  have "case CJRT_ScopedEnterSaferegionOnlyMutatorBegin (\<lambda>b. (\<not> b, True)) CJ_PROCESSOR (Some False) of
      (changed, mutator') \<Rightarrow> CJRT_ScopedEnterSaferegionEnd (\<lambda>b. (True, False)) changed mutator' = Inr (Some False)"
    by (rule scoped_saferegion_balanced [THEN conjunct1]) auto
  then show ?thesis
    by (simp add: CJRT_ScopedEnterSaferegionOnlyMutatorBegin_def)
qed

theorem GCTibShift_divides_witness: "CJRT_GCTibShiftUInt8 0xF0 4 = Some 0xF"
  using GCTibShift_divides [of 4 _ "0xF0"] by simp

end
