(* ===== verification/NativeSync.thy ===== *)
theory NativeSync
  imports Prelude
begin

text \<open>
  The native synchronisation leaves: \<^verbatim>\<open>rt0/os/Linux/{CJThreadSemaphore,CJThreadSpinLock,
  SpinLock,Futex,Panic}.cpp\<close>, the page pool's mutex on the three systems
  (\<^verbatim>\<open>rt0/os/{Linux,Macos,Windows}/PagePoolMutex.cpp\<close>) and \<^verbatim>\<open>rt0/os/Windows/Panic.cpp\<close>. The
  system calls they make are functions on an arbitrary state \<open>'w\<close> of the system; a call
  returns its result with the new state.
\<close>

section \<open>Semaphores\<close>

text \<open>A failing \<open>sem_wait\<close> leaves \<open>errno\<close>; \<open>EINTR\<close> is 4 on Linux.\<close>

record 'w sem_api =
  sem_init :: "addr \<Rightarrow> int \<Rightarrow> u32 \<Rightarrow> 'w \<Rightarrow> int \<times> 'w"
  sem_wait :: "addr \<Rightarrow> 'w \<Rightarrow> (int \<times> int) \<times> 'w"
  sem_post :: "addr \<Rightarrow> 'w \<Rightarrow> int \<times> 'w"
  sem_destroy :: "addr \<Rightarrow> 'w \<Rightarrow> int \<times> 'w"

definition EINTR :: int where "EINTR = 4"

definition cj_cjthread_semaphore_init ::
  "'w sem_api \<Rightarrow> addr \<Rightarrow> int \<Rightarrow> u32 \<Rightarrow> 'w \<Rightarrow> int \<times> 'w" where
  "cj_cjthread_semaphore_init api sem pshared v w = sem_init api sem pshared v w"

definition cj_cjthread_semaphore_wait :: "'w sem_api \<Rightarrow> addr \<Rightarrow> 'w \<Rightarrow> int \<times> 'w" where
  "cj_cjthread_semaphore_wait api sem w = (case sem_wait api sem w of ((r, errno), w') \<Rightarrow> (r, w'))"

text \<open>The do-while loop; a wait that is interrupted for ever is \<open>None\<close>.\<close>

partial_function (option) cj_cjthread_semaphore_wait_no_intr ::
  "'w sem_api \<Rightarrow> addr \<Rightarrow> 'w \<Rightarrow> (int \<times> 'w) option" where
  "cj_cjthread_semaphore_wait_no_intr api sem w =
     (case sem_wait api sem w of
        ((error, errno), w') \<Rightarrow>
          if error \<noteq> 0 \<and> errno = EINTR then cj_cjthread_semaphore_wait_no_intr api sem w'
          else Some (error, w'))"

definition cj_cjthread_semaphore_post :: "'w sem_api \<Rightarrow> addr \<Rightarrow> 'w \<Rightarrow> int \<times> 'w" where
  "cj_cjthread_semaphore_post api sem w = sem_post api sem w"

definition cj_cjthread_semaphore_destroy :: "'w sem_api \<Rightarrow> addr \<Rightarrow> 'w \<Rightarrow> int \<times> 'w" where
  "cj_cjthread_semaphore_destroy api sem w = sem_destroy api sem w"

section \<open>Spin locks\<close>

record 'w spin_api =
  pthread_spin_init :: "addr \<Rightarrow> int \<Rightarrow> 'w \<Rightarrow> int \<times> 'w"
  pthread_spin_lock :: "addr \<Rightarrow> 'w \<Rightarrow> int \<times> 'w"
  pthread_spin_trylock :: "addr \<Rightarrow> 'w \<Rightarrow> int \<times> 'w"
  pthread_spin_unlock :: "addr \<Rightarrow> 'w \<Rightarrow> int \<times> 'w"
  pthread_spin_destroy :: "addr \<Rightarrow> 'w \<Rightarrow> int \<times> 'w"

text \<open>\<open>PTHREAD_PROCESS_PRIVATE\<close> is 0.\<close>

definition cj_cjthread_pthread_spin_init :: "'w spin_api \<Rightarrow> addr \<Rightarrow> 'w \<Rightarrow> int \<times> 'w" where
  "cj_cjthread_pthread_spin_init api lock w = pthread_spin_init api lock 0 w"

definition cj_cjthread_pthread_spin_lock :: "'w spin_api \<Rightarrow> addr \<Rightarrow> 'w \<Rightarrow> int \<times> 'w" where
  "cj_cjthread_pthread_spin_lock api lock w = pthread_spin_lock api lock w"

definition cj_cjthread_pthread_spin_unlock :: "'w spin_api \<Rightarrow> addr \<Rightarrow> 'w \<Rightarrow> int \<times> 'w" where
  "cj_cjthread_pthread_spin_unlock api lock w = pthread_spin_unlock api lock w"

definition cj_cjthread_pthread_spin_destroy :: "'w spin_api \<Rightarrow> addr \<Rightarrow> 'w \<Rightarrow> int \<times> 'w" where
  "cj_cjthread_pthread_spin_destroy api lock w = pthread_spin_destroy api lock w"

text \<open>The variants of \<^verbatim>\<open>SpinLock.cpp\<close>: all but the last drop the result.\<close>

definition cj_pthread_spin_init :: "'w spin_api \<Rightarrow> addr \<Rightarrow> 'w \<Rightarrow> 'w" where
  "cj_pthread_spin_init api p w = snd (pthread_spin_init api p 0 w)"

definition cj_pthread_spin_lock :: "'w spin_api \<Rightarrow> addr \<Rightarrow> 'w \<Rightarrow> 'w" where
  "cj_pthread_spin_lock api p w = snd (pthread_spin_lock api p w)"

definition cj_pthread_spin_unlock :: "'w spin_api \<Rightarrow> addr \<Rightarrow> 'w \<Rightarrow> 'w" where
  "cj_pthread_spin_unlock api p w = snd (pthread_spin_unlock api p w)"

definition cj_pthread_spin_trylock :: "'w spin_api \<Rightarrow> addr \<Rightarrow> 'w \<Rightarrow> int \<times> 'w" where
  "cj_pthread_spin_trylock api p w = pthread_spin_trylock api p w"

section \<open>The page pool's mutex\<close>

text \<open>
  The functions behind the mutex: \<open>std::mutex\<close>'s constructor, destructor and \<open>try_lock\<close> on
  Linux, the pthread functions elsewhere, and on Darwin the store of the static initializer
  (\<open>0x32AAABA7\<close> and 56 zero bytes).
\<close>

record 'w mutex_api =
  std_mutex_construct :: "addr \<Rightarrow> 'w \<Rightarrow> 'w"
  std_mutex_destroy :: "addr \<Rightarrow> 'w \<Rightarrow> 'w"
  std_mutex_try_lock :: "addr \<Rightarrow> 'w \<Rightarrow> bool \<times> 'w"
  store_static_initializer :: "addr \<Rightarrow> 'w \<Rightarrow> 'w"
  pthread_mutex_init :: "addr \<Rightarrow> 'w \<Rightarrow> int \<times> 'w"
  pthread_mutex_destroy :: "addr \<Rightarrow> 'w \<Rightarrow> int \<times> 'w"
  pthread_mutex_lock :: "addr \<Rightarrow> 'w \<Rightarrow> int \<times> 'w"
  pthread_mutex_trylock :: "addr \<Rightarrow> 'w \<Rightarrow> int \<times> 'w"
  pthread_mutex_unlock :: "addr \<Rightarrow> 'w \<Rightarrow> int \<times> 'w"

definition or_abort :: "int \<times> 'w \<Rightarrow> 'w res" where
  "or_abort r = (if fst r \<noteq> 0 then Inl Abort else Inr (snd r))"

text \<open>Lock and unlock have the same text in the three files.\<close>

definition CJRT_PagePoolMutexLock :: "'w mutex_api \<Rightarrow> addr \<Rightarrow> 'w \<Rightarrow> 'w res" where
  "CJRT_PagePoolMutexLock api p w = or_abort (pthread_mutex_lock api p w)"

definition CJRT_PagePoolMutexUnlock :: "'w mutex_api \<Rightarrow> addr \<Rightarrow> 'w \<Rightarrow> 'w res" where
  "CJRT_PagePoolMutexUnlock api p w = or_abort (pthread_mutex_unlock api p w)"

definition CJRT_PagePoolMutexConstruct_linux :: "'w mutex_api \<Rightarrow> addr \<Rightarrow> 'w \<Rightarrow> 'w res" where
  "CJRT_PagePoolMutexConstruct_linux api p w = Inr (std_mutex_construct api p w)"

definition CJRT_PagePoolMutexConstruct_macos :: "'w mutex_api \<Rightarrow> addr \<Rightarrow> 'w \<Rightarrow> 'w res" where
  "CJRT_PagePoolMutexConstruct_macos api p w = Inr (store_static_initializer api p w)"

definition CJRT_PagePoolMutexConstruct_windows :: "'w mutex_api \<Rightarrow> addr \<Rightarrow> 'w \<Rightarrow> 'w res" where
  "CJRT_PagePoolMutexConstruct_windows api p w = or_abort (pthread_mutex_init api p w)"

definition CJRT_PagePoolMutexTryLock_linux :: "'w mutex_api \<Rightarrow> addr \<Rightarrow> 'w \<Rightarrow> bool \<times> 'w" where
  "CJRT_PagePoolMutexTryLock_linux api p w = std_mutex_try_lock api p w"

definition CJRT_PagePoolMutexTryLock_macos :: "'w mutex_api \<Rightarrow> addr \<Rightarrow> 'w \<Rightarrow> bool \<times> 'w" where
  "CJRT_PagePoolMutexTryLock_macos api p w = (let (r, w') = pthread_mutex_trylock api p w in (r = 0, w'))"

definition CJRT_PagePoolMutexTryLock_windows :: "'w mutex_api \<Rightarrow> addr \<Rightarrow> 'w \<Rightarrow> bool \<times> 'w" where
  "CJRT_PagePoolMutexTryLock_windows api p w = (let (r, w') = pthread_mutex_trylock api p w in (r = 0, w'))"

definition CJRT_PagePoolMutexDestroy_linux :: "'w mutex_api \<Rightarrow> addr \<Rightarrow> 'w \<Rightarrow> 'w" where
  "CJRT_PagePoolMutexDestroy_linux api p w = std_mutex_destroy api p w"

definition CJRT_PagePoolMutexDestroy_macos :: "'w mutex_api \<Rightarrow> addr \<Rightarrow> 'w \<Rightarrow> 'w" where
  "CJRT_PagePoolMutexDestroy_macos api p w = snd (pthread_mutex_destroy api p w)"

definition CJRT_PagePoolMutexDestroy_windows :: "'w mutex_api \<Rightarrow> addr \<Rightarrow> 'w \<Rightarrow> 'w" where
  "CJRT_PagePoolMutexDestroy_windows api p w = snd (pthread_mutex_destroy api p w)"

section \<open>Futex and panic\<close>

text \<open>\<open>syscall\<close> returns a \<open>long\<close>, which \<open>Futex\<close> returns as \<open>int\<close>; no timeout, no second address.\<close>

definition Futex :: "(u64 list \<Rightarrow> 'w \<Rightarrow> u64 \<times> 'w) \<Rightarrow> addr \<Rightarrow> u32 \<Rightarrow> u32 \<Rightarrow> 'w \<Rightarrow> u32 \<times> 'w" where
  "Futex syscall uaddr fop val w =
     (let (r, w') = syscall [uaddr, ucast fop, ucast val, 0, 0, 0] w in (ucast r, w'))"

text \<open>
  What \<open>RtFatal\<close> writes to standard error before it aborts. The native backtrace, at most 64
  frames, is Linux only. A write may fail; the result is dropped.
\<close>

definition RtFatal_linux :: "string list \<Rightarrow> string option \<Rightarrow> string \<Rightarrow> stop \<times> string" where
  "RtFatal_linux frames message err =
     (let err1 = (case message of None \<Rightarrow> err | Some m \<Rightarrow> err @ m @ [CHR 0x0A]) in
      (Abort, err1 @ concat (map (\<lambda>f. f @ [CHR 0x0A]) (take 64 frames))))"

definition RtFatal_windows :: "string option \<Rightarrow> string \<Rightarrow> stop \<times> string" where
  "RtFatal_windows message err =
     (Abort, case message of None \<Rightarrow> err | Some m \<Rightarrow> err @ m @ [CHR 0x0A])"

section \<open>The interrupted wait\<close>

fun after_waits :: "'w sem_api \<Rightarrow> addr \<Rightarrow> nat \<Rightarrow> 'w \<Rightarrow> 'w" where
  "after_waits api sem 0 w = w"
| "after_waits api sem (Suc n) w = after_waits api sem n (snd (sem_wait api sem w))"

definition interrupted :: "'w sem_api \<Rightarrow> addr \<Rightarrow> 'w \<Rightarrow> bool" where
  "interrupted api sem w \<longleftrightarrow>
     fst (fst (sem_wait api sem w)) \<noteq> 0 \<and> snd (fst (sem_wait api sem w)) = EINTR"

lemma wait_no_intr_unfold:
  "cj_cjthread_semaphore_wait_no_intr api sem w =
    (if interrupted api sem w then cj_cjthread_semaphore_wait_no_intr api sem (snd (sem_wait api sem w))
     else Some (cj_cjthread_semaphore_wait api sem w))"
  by (subst cj_cjthread_semaphore_wait_no_intr.simps)
    (simp add: interrupted_def cj_cjthread_semaphore_wait_def split: prod.split)

lemma wait_no_intr_after:
  "\<forall>k < n. interrupted api sem (after_waits api sem k w) \<Longrightarrow>
    cj_cjthread_semaphore_wait_no_intr api sem w =
    cj_cjthread_semaphore_wait_no_intr api sem (after_waits api sem n w)"
proof (induction n arbitrary: w)
  case (Suc n)
  have "interrupted api sem w" using Suc.prems by fastforce
  moreover have "\<forall>k < n. interrupted api sem (after_waits api sem k (snd (sem_wait api sem w)))"
    using Suc.prems by (metis Suc_mono after_waits.simps(2))
  ultimately show ?case using Suc.IH by (subst wait_no_intr_unfold) simp
qed simp

lemma wait_no_intr_returned:
  assumes "cj_cjthread_semaphore_wait_no_intr api sem w = Some rw"
  shows "\<exists>n. (\<forall>k < n. interrupted api sem (after_waits api sem k w)) \<and>
    \<not> interrupted api sem (after_waits api sem n w)"
  using assms
proof (induction api sem w rw rule: cj_cjthread_semaphore_wait_no_intr.raw_induct [rotated, consumes 1])
  case (1 f api sem w rw)
  obtain e errno w' where sw: "sem_wait api sem w = ((e, errno), w')" by (metis surj_pair)
  show ?case
  proof (cases "interrupted api sem w")
    case True
    then have "e \<noteq> 0 \<and> errno = EINTR" by (simp add: interrupted_def sw)
    with 1(2) have "f api sem w' = Some rw" by (simp add: sw)
    then obtain n where n: "\<forall>k < n. interrupted api sem (after_waits api sem k w')"
      "\<not> interrupted api sem (after_waits api sem n w')" using 1(1) by metis
    have "\<forall>k < Suc n. interrupted api sem (after_waits api sem k w)"
      using n(1) True by (auto simp: less_Suc_eq_0_disj sw)
    moreover have "\<not> interrupted api sem (after_waits api sem (Suc n) w)"
      using n(2) by (simp add: sw)
    ultimately show ?thesis by (rule exI [of _ "Suc n", OF conjI])
  next
    case False
    then show ?thesis by (intro exI [of _ 0]) simp
  qed
qed

text \<open>
  The uninterrupted wait returns exactly when some \<open>sem_wait\<close> is not cut short by a signal,
  and then with the result of the first such call, after precisely the calls before it; a wait
  that fails for any other reason is not retried.
\<close>

theorem semaphore_wait_no_intr_first:
  "cj_cjthread_semaphore_wait_no_intr api sem w = Some rw \<longleftrightarrow>
    (\<exists>n. (\<forall>k < n. interrupted api sem (after_waits api sem k w)) \<and>
      \<not> interrupted api sem (after_waits api sem n w) \<and>
      rw = cj_cjthread_semaphore_wait api sem (after_waits api sem n w))"
proof
  assume r: "cj_cjthread_semaphore_wait_no_intr api sem w = Some rw"
  from wait_no_intr_returned [OF r] obtain n
    where n: "\<forall>k < n. interrupted api sem (after_waits api sem k w)"
      "\<not> interrupted api sem (after_waits api sem n w)" by blast
  with r show "\<exists>n. (\<forall>k < n. interrupted api sem (after_waits api sem k w)) \<and>
      \<not> interrupted api sem (after_waits api sem n w) \<and>
      rw = cj_cjthread_semaphore_wait api sem (after_waits api sem n w)"
    using wait_no_intr_after [OF n(1)] wait_no_intr_unfold [of api sem "after_waits api sem n w"]
    by (intro exI [of _ n]) simp
next
  assume "\<exists>n. (\<forall>k < n. interrupted api sem (after_waits api sem k w)) \<and>
      \<not> interrupted api sem (after_waits api sem n w) \<and>
      rw = cj_cjthread_semaphore_wait api sem (after_waits api sem n w)"
  then obtain n where n: "\<forall>k < n. interrupted api sem (after_waits api sem k w)"
      "\<not> interrupted api sem (after_waits api sem n w)"
      "rw = cj_cjthread_semaphore_wait api sem (after_waits api sem n w)" by blast
  then show "cj_cjthread_semaphore_wait_no_intr api sem w = Some rw"
    using wait_no_intr_after [OF n(1)] wait_no_intr_unfold [of api sem "after_waits api sem n w"] by simp
qed

section \<open>The three mutexes\<close>

text \<open>The operations of one system on the mutex at an address, with what the caller sees.\<close>

datatype mutex_op = Construct | Lock | TryLock | Unlock | Destroy

datatype os = Linux | Macos | Windows

fun mutex_step :: "os \<Rightarrow> 'w mutex_api \<Rightarrow> addr \<Rightarrow> mutex_op \<Rightarrow> 'w \<Rightarrow> (bool \<times> 'w) res" where
  "mutex_step Linux api p Construct w = and_then (CJRT_PagePoolMutexConstruct_linux api p w) (\<lambda>w'. Inr (True, w'))"
| "mutex_step Macos api p Construct w = and_then (CJRT_PagePoolMutexConstruct_macos api p w) (\<lambda>w'. Inr (True, w'))"
| "mutex_step Windows api p Construct w = and_then (CJRT_PagePoolMutexConstruct_windows api p w) (\<lambda>w'. Inr (True, w'))"
| "mutex_step os api p Lock w = and_then (CJRT_PagePoolMutexLock api p w) (\<lambda>w'. Inr (True, w'))"
| "mutex_step os api p Unlock w = and_then (CJRT_PagePoolMutexUnlock api p w) (\<lambda>w'. Inr (True, w'))"
| "mutex_step Linux api p TryLock w = Inr (CJRT_PagePoolMutexTryLock_linux api p w)"
| "mutex_step Macos api p TryLock w = Inr (CJRT_PagePoolMutexTryLock_macos api p w)"
| "mutex_step Windows api p TryLock w = Inr (CJRT_PagePoolMutexTryLock_windows api p w)"
| "mutex_step Linux api p Destroy w = Inr (True, CJRT_PagePoolMutexDestroy_linux api p w)"
| "mutex_step Macos api p Destroy w = Inr (True, CJRT_PagePoolMutexDestroy_macos api p w)"
| "mutex_step Windows api p Destroy w = Inr (True, CJRT_PagePoolMutexDestroy_windows api p w)"

fun mutex_run :: "os \<Rightarrow> 'w mutex_api \<Rightarrow> addr \<Rightarrow> mutex_op list \<Rightarrow> 'w \<Rightarrow> (bool list \<times> 'w) res" where
  "mutex_run os api p [] w = Inr ([], w)"
| "mutex_run os api p (x # xs) w =
     and_then (mutex_step os api p x w) (\<lambda>(b, w1).
       and_then (mutex_run os api p xs w1) (\<lambda>(bs, w2). Inr (b # bs, w2)))"

text \<open>
  The three page-pool mutexes are interchangeable: when \<open>std::mutex\<close> is the pthread mutex it is
  documented to wrap, and initialising succeeds with the state the static initializer has, every sequence
  of operations has the same results, the same aborts and the same final state on Linux, Darwin and
  Windows.
\<close>

theorem page_pool_mutex_same_everywhere:
  assumes "\<And>p w. std_mutex_construct api p w = store_static_initializer api p w"
    and "\<And>p w. pthread_mutex_init api p w = (0, store_static_initializer api p w)"
    and "\<And>p w. std_mutex_try_lock api p w =
      (fst (pthread_mutex_trylock api p w) = 0, snd (pthread_mutex_trylock api p w))"
    and "\<And>p w. std_mutex_destroy api p w = snd (pthread_mutex_destroy api p w)"
  shows "mutex_run os api p xs w = mutex_run Linux api p xs w"
proof -
  have "mutex_step os api p x w = mutex_step Linux api p x w" for x w
    using assms
    by (cases os; cases x)
      (auto simp: CJRT_PagePoolMutexConstruct_linux_def CJRT_PagePoolMutexConstruct_macos_def
        CJRT_PagePoolMutexConstruct_windows_def or_abort_def CJRT_PagePoolMutexTryLock_linux_def
        CJRT_PagePoolMutexTryLock_macos_def CJRT_PagePoolMutexTryLock_windows_def
        CJRT_PagePoolMutexDestroy_linux_def CJRT_PagePoolMutexDestroy_macos_def
        CJRT_PagePoolMutexDestroy_windows_def split: prod.splits)
  then show ?thesis by (induction xs arbitrary: w) simp_all
qed

section \<open>Concrete systems\<close>

text \<open>A semaphore whose next two waits are interrupted; the state counts the calls.\<close>

definition demo_sem :: "nat sem_api" where
  "demo_sem = \<lparr>sem_init = (\<lambda>_ _ _ w. (0, w)),
     sem_wait = (\<lambda>_ w. (if w < 2 then (- 1, EINTR) else (0, 0), Suc w)),
     sem_post = (\<lambda>_ w. (0, w)), sem_destroy = (\<lambda>_ w. (0, w))\<rparr>"

theorem semaphore_wait_no_intr_first_witness:
  "cj_cjthread_semaphore_wait_no_intr demo_sem 0x100 0 = Some (0, 3)"
proof -
  have "\<forall>k < 2. interrupted demo_sem 0x100 (after_waits demo_sem 0x100 k 0)"
    by (auto simp: demo_sem_def interrupted_def numeral_2_eq_2 less_Suc_eq)
  moreover have "\<not> interrupted demo_sem 0x100 (after_waits demo_sem 0x100 2 0)"
    "(0, 3) = cj_cjthread_semaphore_wait demo_sem 0x100 (after_waits demo_sem 0x100 2 0)"
    by (simp_all add: demo_sem_def interrupted_def cj_cjthread_semaphore_wait_def numeral_2_eq_2)
  ultimately show ?thesis
    by (intro semaphore_wait_no_intr_first [THEN iffD2] exI [of _ 2] conjI)
qed

text \<open>A mutex as a set of held addresses.\<close>

definition demo_mutex :: "addr set mutex_api" where
  "demo_mutex = \<lparr>std_mutex_construct = (\<lambda>p w. w - {p}), std_mutex_destroy = (\<lambda>p w. w),
     std_mutex_try_lock = (\<lambda>p w. (p \<notin> w, insert p w)), store_static_initializer = (\<lambda>p w. w - {p}),
     pthread_mutex_init = (\<lambda>p w. (0, w - {p})), pthread_mutex_destroy = (\<lambda>p w. (0, w)),
     pthread_mutex_lock = (\<lambda>p w. (if p \<in> w then 35 else 0, insert p w)),
     pthread_mutex_trylock = (\<lambda>p w. (if p \<in> w then 16 else 0, insert p w)),
     pthread_mutex_unlock = (\<lambda>p w. (if p \<in> w then 0 else 1, w - {p}))\<rparr>"

theorem page_pool_mutex_same_everywhere_witness:
  "mutex_run Windows demo_mutex 0x40 [Construct, Lock, TryLock, Unlock, TryLock] {} =
    Inr ([True, True, False, True, True], {0x40})"
proof -
  have "mutex_run Windows demo_mutex 0x40 [Construct, Lock, TryLock, Unlock, TryLock] {} =
      mutex_run Linux demo_mutex 0x40 [Construct, Lock, TryLock, Unlock, TryLock] {}"
    by (rule page_pool_mutex_same_everywhere) (auto simp: demo_mutex_def)
  also have "\<dots> = Inr ([True, True, False, True, True], {0x40})"
    by (simp add: demo_mutex_def CJRT_PagePoolMutexConstruct_linux_def CJRT_PagePoolMutexLock_def
        CJRT_PagePoolMutexUnlock_def CJRT_PagePoolMutexTryLock_linux_def or_abort_def)
  finally show ?thesis .
qed

end
