(* ===== verification/Loaders.thy ===== *)
theory Loaders
  imports Prelude
begin

text \<open>
  Loading libraries and naming addresses: \<^verbatim>\<open>rt0/os/Loader.h\<close> with
  \<^verbatim>\<open>rt0/os/Linux/Loader.cpp\<close> and \<^verbatim>\<open>rt0/os/Windows/Loader.cpp\<close>, the path functions of
  \<^verbatim>\<open>rt0/os/{Linux,Windows}/Path.cpp\<close> and the page commit of
  \<^verbatim>\<open>rt0/os/Windows/MemMapCommit.cpp\<close>. The system's answers are arguments; a C string that may
  be null is an option, a null pointer is 0.
\<close>

record BinaryInfo =
  symbolName :: "string option"
  filePathName :: "string option"

section \<open>Linux\<close>

definition LoadBinaryFile_linux :: "(string \<Rightarrow> addr) \<Rightarrow> string option \<Rightarrow> addr" where
  "LoadBinaryFile_linux dlopen path = (case path of None \<Rightarrow> 0 | Some p \<Rightarrow> dlopen p)"

definition UnloadBinaryFile_linux :: "(addr \<Rightarrow> int) \<Rightarrow> addr \<Rightarrow> int" where
  "UnloadBinaryFile_linux dlclose handler = (if handler = 0 then - 1 else dlclose handler)"

definition FindSymbol_linux :: "(addr \<Rightarrow> string \<Rightarrow> addr) \<Rightarrow> addr \<Rightarrow> string option \<Rightarrow> addr" where
  "FindSymbol_linux dlsym handler name = (case name of None \<Rightarrow> 0 | Some n \<Rightarrow> dlsym handler n)"

text \<open>\<open>dladdr\<close> gives its result with the file and symbol name it stores.\<close>

definition GetBinaryInfoFromAddress_linux ::
  "(addr \<Rightarrow> int \<times> string option \<times> string option) \<Rightarrow> addr \<Rightarrow> BinaryInfo \<Rightarrow> int \<times> BinaryInfo" where
  "GetBinaryInfoFromAddress_linux dladdr address info =
     (if address = 0 then (0, info)
      else case dladdr address of (ret, fname, sname) \<Rightarrow>
        if ret = 0 then (0, info)
        else (ret, info\<lparr>filePathName := fname, symbolName := sname\<rparr>))"

definition GetBaseName_linux :: "(string \<Rightarrow> string) \<Rightarrow> string option \<Rightarrow> string option" where
  "GetBaseName_linux basename path = (case path of None \<Rightarrow> None | Some p \<Rightarrow> Some (basename p))"

definition GetRealPath_linux :: "(string \<Rightarrow> string option) \<Rightarrow> string \<Rightarrow> bool" where
  "GetRealPath_linux realpath path \<longleftrightarrow> realpath path \<noteq> None"

section \<open>Windows\<close>

text \<open>
  The export directory of an image: the addresses of the functions relative to the image, in
  the order of their ordinals, and the names with the ordinal each belongs to.
\<close>

record export_dir =
  AddressesOffsetsTable :: "u32 list"
  NamesTable :: "(u16 \<times> string) list"

text \<open>
  What Windows answers: the module that holds an address, its file name with the length
  reported and the last error, the region an address lies in (allocation base and
  protection), and the export directory of a module, absent when its size or address is 0.
\<close>

record win_loader =
  GetModuleHandleExA :: "addr \<Rightarrow> addr option"
  GetModuleFileNameA :: "addr \<Rightarrow> u32 \<times> u32 \<times> string"
  VirtualQuery :: "addr \<Rightarrow> (addr \<times> u32) option"
  export_directory :: "addr \<Rightarrow> export_dir option"

definition GetModuleHandler :: "win_loader \<Rightarrow> addr \<Rightarrow> addr" where
  "GetModuleHandler w address =
     (if address = 0 then 0
      else case GetModuleHandleExA w address of None \<Rightarrow> 0 | Some h \<Rightarrow> h)"

definition UnloadBinaryFile_windows :: "(addr \<Rightarrow> int) \<Rightarrow> addr \<Rightarrow> int" where
  "UnloadBinaryFile_windows FreeLibrary handler =
     (if handler = 0 then - 1 else if FreeLibrary handler \<noteq> 0 then 0 else - 1)"

definition FindSymbol_windows :: "(addr \<Rightarrow> string \<Rightarrow> addr) \<Rightarrow> addr \<Rightarrow> string option \<Rightarrow> addr" where
  "FindSymbol_windows GetProcAddress handler name =
     (case name of None \<Rightarrow> 0 | Some n \<Rightarrow> GetProcAddress handler n)"

text \<open>\<open>sizeof(fileName)\<close> is \<open>MAX_PATH\<close>, 260; \<open>ERROR_SUCCESS\<close> is 0.\<close>

definition GetBinaryFilePath :: "win_loader \<Rightarrow> addr \<Rightarrow> BinaryInfo \<Rightarrow> BinaryInfo" where
  "GetBinaryFilePath w address info =
     (let h = GetModuleHandler w address in
      if h = 0 then info
      else case GetModuleFileNameA w h of (retNameSize, lastError, fileName) \<Rightarrow>
        if retNameSize = 0 \<or> (retNameSize = 260 \<and> lastError = 0) then info
        else info\<lparr>filePathName := Some fileName\<rparr>)"

text \<open>The scan of the address table: the candidate so far is an address and an index, -1 at first.\<close>

fun scan_exports :: "addr \<Rightarrow> addr \<Rightarrow> int \<Rightarrow> u32 list \<Rightarrow> addr \<Rightarrow> int \<Rightarrow> addr \<times> int" where
  "scan_exports h address i [] candidateAddr candidateIndex = (candidateAddr, candidateIndex)"
| "scan_exports h address i (off # offs) candidateAddr candidateIndex =
     (if h + ucast off > address \<or> candidateAddr \<ge> h + ucast off
      then scan_exports h address (i + 1) offs candidateAddr candidateIndex
      else scan_exports h address (i + 1) offs (h + ucast off) i)"

fun name_of_ordinal :: "(u16 \<times> string) list \<Rightarrow> int \<Rightarrow> string option" where
  "name_of_ordinal [] i = None"
| "name_of_ordinal ((o', n) # ns) i = (if uint o' = i then Some n else name_of_ordinal ns i)"

definition GetSymbolName :: "win_loader \<Rightarrow> addr \<Rightarrow> BinaryInfo \<Rightarrow> BinaryInfo" where
  "GetSymbolName w address info =
     (let h = GetModuleHandler w address in
      if h = 0 then info
      else case export_directory w h of
        None \<Rightarrow> info
      | Some ied \<Rightarrow>
          let (candidateAddr, candidateIndex) = scan_exports h address 0 (AddressesOffsetsTable ied) 0 (- 1) in
          if candidateIndex = - 1 then info
          else case name_of_ordinal (NamesTable ied) candidateIndex of
            None \<Rightarrow> info
          | Some n \<Rightarrow> info\<lparr>symbolName := Some n\<rparr>)"

text \<open>\<open>PAGE_NOACCESS\<close> is 1.\<close>

definition IsValidAddress :: "win_loader \<Rightarrow> addr \<Rightarrow> bool" where
  "IsValidAddress w address =
     (case VirtualQuery w address of
        None \<Rightarrow> False
      | Some (allocationBase, protect) \<Rightarrow> allocationBase \<noteq> 0 \<and> protect \<noteq> 0 \<and> protect \<noteq> 1)"

text \<open>A file path that is null or empty counts as empty.\<close>

definition GetBinaryInfoFromAddress_windows :: "win_loader \<Rightarrow> addr \<Rightarrow> BinaryInfo \<Rightarrow> int \<times> BinaryInfo" where
  "GetBinaryInfoFromAddress_windows w address info =
     (if address = 0 then (0, info)
      else if \<not> IsValidAddress w address then (0, info)
      else
        let info' = GetSymbolName w address (GetBinaryFilePath w address info) in
        (if filePathName info' = None \<or> filePathName info' = Some [] then 0 else 1, info'))"

text \<open>\<open>_splitpath_s\<close> gives an error code, the file name and the extension.\<close>

definition GetBaseName_windows :: "(string option \<Rightarrow> int \<times> string \<times> string) \<Rightarrow> string option \<Rightarrow> string option" where
  "GetBaseName_windows splitpath path =
     (case splitpath path of (e, fname, ext) \<Rightarrow> if e \<noteq> 0 then None else Some (fname @ ext))"

definition GetRealPath_windows :: "(string \<Rightarrow> string option) \<Rightarrow> string \<Rightarrow> bool" where
  "GetRealPath_windows fullpath path \<longleftrightarrow> fullpath path \<noteq> None"

text \<open>A failed commit is logged with the last error and the caller goes on.\<close>

definition CJRT_MemMapCommitMemory ::
  "(addr \<Rightarrow> u64 \<Rightarrow> 'w \<Rightarrow> bool \<times> 'w) \<Rightarrow> addr \<Rightarrow> u64 \<Rightarrow> 'w \<times> bool list \<Rightarrow> 'w \<times> bool list" where
  "CJRT_MemMapCommitMemory VirtualAlloc address sz s =
     (case VirtualAlloc address sz (fst s) of
        (ok, w') \<Rightarrow> (w', if ok then snd s else snd s @ [False]))"

section \<open>The nearest export\<close>

text \<open>
  \<open>nearest h address tbl i\<close>: entry \<open>i\<close> is the first one among those with the highest address
  not above the one asked for.
\<close>

definition nearest :: "addr \<Rightarrow> addr \<Rightarrow> u32 list \<Rightarrow> nat \<Rightarrow> bool" where
  "nearest h address tbl i \<longleftrightarrow>
     i < length tbl \<and> h + ucast (tbl ! i) \<le> address \<and> h + ucast (tbl ! i) \<noteq> 0 \<and>
     (\<forall>j < length tbl. h + ucast (tbl ! j) \<le> address \<longrightarrow>
        h + ucast (tbl ! j) \<le> h + ucast (tbl ! i) \<and> (j < i \<longrightarrow> h + ucast (tbl ! j) \<noteq> h + ucast (tbl ! i)))"

text \<open>What the candidate is after the first \<open>k\<close> entries.\<close>

definition candidate :: "addr \<Rightarrow> addr \<Rightarrow> u32 list \<Rightarrow> addr \<times> int \<Rightarrow> bool" where
  "candidate h address tbl c \<longleftrightarrow>
     (case c of (a, i) \<Rightarrow>
        if i = - 1 then a = 0 \<and> (\<forall>off \<in> set tbl. h + ucast off \<le> address \<longrightarrow> h + ucast off = 0)
        else 0 \<le> i \<and> nearest h address tbl (nat i) \<and> a = h + ucast (tbl ! nat i))"

lemma nearest_skip:
  assumes "nearest h address tbl i" and "h + ucast off > address \<or> h + ucast (tbl ! i) \<ge> h + ucast off"
  shows "nearest h address (tbl @ [off]) i"
  using assms by (auto simp: nearest_def nth_append less_Suc_eq)

lemma nearest_take:
  assumes "h + ucast off \<le> address" and "h + ucast off \<noteq> 0"
    and "\<forall>o' \<in> set tbl. h + ucast o' \<le> address \<longrightarrow> h + ucast o' < h + ucast off"
  shows "nearest h address (tbl @ [off]) (length tbl)"
proof -
  have "h + ucast (tbl ! j) < h + ucast off" if "j < length tbl" "h + ucast (tbl ! j) \<le> address" for j
    using assms(3) that by (meson nth_mem)
  then have "h + ucast (tbl ! j) \<le> h + ucast off \<and> ucast (tbl ! j) \<noteq> (ucast off :: addr)"
    if "j < length tbl" "h + ucast (tbl ! j) \<le> address" for j
    using that by (metis order_less_imp_le order_less_irrefl)
  then show ?thesis
    using assms(1,2) by (auto simp: nearest_def nth_append less_Suc_eq)
qed

lemma nearest_max:
  "nearest h address tbl i \<Longrightarrow> o' \<in> set tbl \<Longrightarrow> h + ucast o' \<le> address \<Longrightarrow> h + ucast o' \<le> h + ucast (tbl ! i)"
  by (auto simp: nearest_def in_set_conv_nth)

lemma candidate_step:
  assumes "candidate h address tbl (a, i)"
  shows "candidate h address (tbl @ [off])
    (if h + ucast off > address \<or> a \<ge> h + ucast off then (a, i) else (h + ucast off, int (length tbl)))"
proof (cases "h + ucast off > address \<or> a \<ge> h + ucast off")
  case skip: True
  show ?thesis
  proof (cases "i = - 1")
    case True
    with assms skip show ?thesis by (auto simp: candidate_def)
  next
    case False
    with assms have i: "0 \<le> i" "nearest h address tbl (nat i)" "a = h + ucast (tbl ! nat i)"
      by (auto simp: candidate_def)
    from nearest_skip [OF i(2)] skip i(3) have "nearest h address (tbl @ [off]) (nat i)" by simp
    moreover have "(tbl @ [off]) ! nat i = tbl ! nat i"
      using i(2) by (simp add: nearest_def nth_append)
    ultimately show ?thesis using skip i False by (auto simp: candidate_def)
  qed
next
  case take: False
  have below: "\<forall>o' \<in> set tbl. h + ucast o' \<le> address \<longrightarrow> h + ucast o' < h + ucast off"
  proof (cases "i = - 1")
    case True
    have "0 < h + ucast off" using take by (metis word_gt_0 word_zero_le order_less_le_trans not_le)
    moreover have "h + ucast o' = 0" if "o' \<in> set tbl" "h + ucast o' \<le> address" for o'
      using True assms that by (simp add: candidate_def)
    ultimately show ?thesis by metis
  next
    case False
    with assms have "nearest h address tbl (nat i)" "a = h + ucast (tbl ! nat i)"
      by (auto simp: candidate_def)
    with take show ?thesis by (auto dest: nearest_max)
  qed
  have "a < h + ucast off" using take by (meson not_le)
  then have "h + ucast off \<noteq> 0" by auto
  from nearest_take [OF _ this below] take show ?thesis
    by (auto simp: candidate_def nth_append)
qed

lemma scan_exports_candidate:
  "candidate h address pre (a, i) \<Longrightarrow>
    candidate h address (pre @ tbl) (scan_exports h address (int (length pre)) tbl a i)"
proof (induction tbl arbitrary: pre a i)
  case (Cons off tbl)
  from candidate_step [OF Cons.prems, of off]
  show ?case
    using Cons.IH [of "pre @ [off]"] by (auto simp: add.commute split: if_splits)
qed simp

lemma nearest_unique: "nearest h address tbl i \<Longrightarrow> nearest h address tbl k \<Longrightarrow> i = k"
proof -
  assume i: "nearest h address tbl i" and k: "nearest h address tbl k"
  then have "h + ucast (tbl ! i) = h + ucast (tbl ! k)"
    unfolding nearest_def by (meson order_antisym)
  with i k show "i = k" unfolding nearest_def by (metis nat_neq_iff)
qed

lemma no_nearest:
  "\<forall>off \<in> set tbl. h + ucast off \<le> address \<longrightarrow> h + ucast off = 0 \<Longrightarrow> \<not> nearest h address tbl i"
  by (auto simp: nearest_def)

text \<open>
  C33. On Windows an address is named after the export that starts closest below it: the scan of
  the unsorted address table finds the first entry with the highest address not above the one
  asked for, and the name recorded is the first one with that entry's ordinal. When no entry
  is below the address, or the nearest one has no name, nothing is recorded.
\<close>

theorem GetSymbolName_nearest_export:
  assumes "address \<noteq> 0" and "GetModuleHandleExA w address = Some h" and "h \<noteq> 0"
    and "export_directory w h = Some ied"
  shows "(\<exists>i n. nearest h address (AddressesOffsetsTable ied) i \<and>
      name_of_ordinal (NamesTable ied) (int i) = Some n \<and>
      GetSymbolName w address info = info\<lparr>symbolName := Some n\<rparr>) \<or>
    GetSymbolName w address info = info \<and>
      (\<forall>i. nearest h address (AddressesOffsetsTable ied) i \<longrightarrow> name_of_ordinal (NamesTable ied) (int i) = None)"
proof -
  let ?tbl = "AddressesOffsetsTable ied"
  obtain a i where scan: "scan_exports h address 0 ?tbl 0 (- 1) = (a, i)" by (cases "scan_exports h address 0 ?tbl 0 (- 1)")
  have "candidate h address ?tbl (a, i)"
    using scan_exports_candidate [of h address "[]" 0 "- 1" ?tbl] scan by (simp add: candidate_def)
  moreover have name: "GetSymbolName w address info =
      (if i = - 1 then info
       else case name_of_ordinal (NamesTable ied) i of None \<Rightarrow> info | Some n \<Rightarrow> info\<lparr>symbolName := Some n\<rparr>)"
    using assms scan by (simp add: GetSymbolName_def GetModuleHandler_def)
  ultimately show ?thesis
  proof (cases "i = - 1")
    case True
    with \<open>candidate h address ?tbl (a, i)\<close> have "\<not> nearest h address ?tbl k" for k
      by (intro no_nearest) (simp add: candidate_def)
    with True name show ?thesis by simp
  next
    case False
    with \<open>candidate h address ?tbl (a, i)\<close> have i: "int (nat i) = i" "nearest h address ?tbl (nat i)"
      by (simp_all add: candidate_def)
    show ?thesis
    proof (cases "name_of_ordinal (NamesTable ied) i")
      case None
      have "name_of_ordinal (NamesTable ied) (int k) = None" if "nearest h address ?tbl k" for k
        using nearest_unique [OF that i(2)] i(1) None by simp
      with None name show ?thesis by simp
    next
      case (Some n)
      with False name i show ?thesis by (intro disjI1 exI [of _ "nat i"] exI [of _ n]) simp
    qed
  qed
qed

section \<open>A concrete library\<close>

definition demo_exports :: export_dir where
  "demo_exports = \<lparr>AddressesOffsetsTable = [0x3000, 0x1000, 0x2000, 0x2000],
     NamesTable = [(0, ''init''), (2, ''run''), (1, ''start'')]\<rparr>"

definition demo_loader :: win_loader where
  "demo_loader = \<lparr>GetModuleHandleExA = (\<lambda>_. Some 0x10000), GetModuleFileNameA = (\<lambda>_. (5, 0, ''a.dll'')),
     VirtualQuery = (\<lambda>_. Some (0x10000, 2)), export_directory = (\<lambda>_. Some demo_exports)\<rparr>"

theorem GetSymbolName_nearest_export_witness:
  "symbolName (GetSymbolName demo_loader 0x12080 \<lparr>symbolName = None, filePathName = None\<rparr>) = Some ''run''"
proof -
  let ?info = "\<lparr>symbolName = None, filePathName = None\<rparr>"
  have near: "nearest 0x10000 0x12080 (AddressesOffsetsTable demo_exports) 2"
    by (simp add: nearest_def demo_exports_def All_less_Suc2)
  have "(\<exists>i n. nearest 0x10000 0x12080 (AddressesOffsetsTable demo_exports) i \<and>
      name_of_ordinal (NamesTable demo_exports) (int i) = Some n \<and>
      GetSymbolName demo_loader 0x12080 ?info = ?info\<lparr>symbolName := Some n\<rparr>) \<or>
    GetSymbolName demo_loader 0x12080 ?info = ?info \<and>
      (\<forall>i. nearest 0x10000 0x12080 (AddressesOffsetsTable demo_exports) i \<longrightarrow>
        name_of_ordinal (NamesTable demo_exports) (int i) = None)"
    by (rule GetSymbolName_nearest_export) (simp_all add: demo_loader_def)
  moreover have run: "name_of_ordinal (NamesTable demo_exports) (int 2) = Some ''run''"
    by (simp add: demo_exports_def)
  ultimately obtain i n where "nearest 0x10000 0x12080 (AddressesOffsetsTable demo_exports) i"
    and n: "name_of_ordinal (NamesTable demo_exports) (int i) = Some n"
    and sym: "GetSymbolName demo_loader 0x12080 ?info = ?info\<lparr>symbolName := Some n\<rparr>"
    using near by (metis option.distinct(1))
  then have "i = 2" using nearest_unique [OF _ near] by simp
  with n run have "n = ''run''" by simp
  with sym show ?thesis by simp
qed

end
