(* ===== verification/Locks.thy ===== *)
theory Locks
  imports Atomics
begin

text \<open>
  The runtime's locks over the native atomics: the reader-writer lock
  \<^verbatim>\<open>src/rt.base/RwLock.cj\<close> on one 32-bit count (0 free, -1 write-locked, n read-locked n
  times) and the spin lock \<^verbatim>\<open>src/rt.base/AtomicSpinLock.cj\<close> on one flag byte. Each thread's
  place in an operation is a program counter; a step does one atomic access, so runs are the
  interleavings of the threads' accesses.
\<close>

section \<open>The reader-writer lock\<close>

definition WRITE_LOCKED :: u32 where "WRITE_LOCKED = - 1"

text \<open>
  The places of a thread. \<open>Free\<close>, \<open>Reading\<close> and \<open>Writing\<close> are between operations: no lock held,
  a read lock, the write lock. The others are named after the access they make next; the two
  \<open>Have\<close> places carry the local \<open>count\<close> (\<open>cnt\<close> here).
\<close>

datatype rw_pc =
    Free
  | Reading
  | Writing
  | LockReadLoad
  | LockReadHave u32
  | LockWriteCas
  | TryLockWriteCas
  | TryLockReadLoad
  | TryLockReadHave u32
  | UnlockReadSub
  | UnlockWriteLoad
  | UnlockWriteStore

text \<open>
  One access of a thread inside an operation. A failed swap goes back to the load; in
  \<open>LockRead\<close> a write-locked count is read again after a yield.
\<close>

fun rw_access :: "addr \<Rightarrow> mem \<Rightarrow> rw_pc \<Rightarrow> (rw_pc \<times> mem) res" where
  "rw_access p m LockReadLoad = Inr (LockReadHave (cj_atomic_i32_load m p), m)"
| "rw_access p m (LockReadHave cnt) =
     (if cnt = WRITE_LOCKED then Inr (LockReadHave (cj_atomic_i32_load m p), m)
      else let (r, m') = cj_atomic_i32_cas m p cnt (cnt + 1) in
        Inr (if r \<noteq> 0 then Reading else LockReadLoad, m'))"
| "rw_access p m LockWriteCas =
     (let (r, m') = cj_atomic_i32_cas m p 0 WRITE_LOCKED in
      Inr (if r = 0 then LockWriteCas else Writing, m'))"
| "rw_access p m TryLockWriteCas =
     (let (r, m') = cj_atomic_i32_cas m p 0 WRITE_LOCKED in
      Inr (if r \<noteq> 0 then Writing else Free, m'))"
| "rw_access p m TryLockReadLoad = Inr (TryLockReadHave (cj_atomic_i32_load m p), m)"
| "rw_access p m (TryLockReadHave cnt) =
     (if cnt = WRITE_LOCKED then Inr (Free, m)
      else let (r, m') = cj_atomic_i32_cas m p cnt (cnt + 1) in
        Inr (if r \<noteq> 0 then Reading else TryLockReadLoad, m'))"
| "rw_access p m UnlockReadSub =
     (let (cnt, m') = cj_atomic_i32_fetch_sub m p 1 in
      if sint cnt < 0 then Inl Abort else Inr (Free, m'))"
| "rw_access p m UnlockWriteLoad =
     (if cj_atomic_i32_load m p \<noteq> WRITE_LOCKED then Inl Abort else Inr (UnlockWriteStore, m))"
| "rw_access p m UnlockWriteStore = Inr (Free, cj_atomic_i32_store m p 0)"
| "rw_access p m pc = Inr (pc, m)"

text \<open>The operations a thread may begin: to lock when it holds nothing, to unlock what it holds.\<close>

fun rw_calls :: "rw_pc \<Rightarrow> rw_pc list" where
  "rw_calls Free = [LockReadLoad, LockWriteCas, TryLockWriteCas, TryLockReadLoad]"
| "rw_calls Reading = [UnlockReadSub]"
| "rw_calls Writing = [UnlockWriteLoad]"
| "rw_calls pc = []"

type_synonym rw_sys = "mem \<times> (nat \<Rightarrow> rw_pc)"

text \<open>
  The threads \<open>T\<close> share the lock at \<open>p\<close>; a step is labelled with the thread that takes it.
\<close>

inductive rw_step :: "addr \<Rightarrow> nat set \<Rightarrow> rw_sys \<Rightarrow> nat \<Rightarrow> rw_sys \<Rightarrow> bool" for p T where
  call: "t \<in> T \<Longrightarrow> c \<in> set (rw_calls (pcs t)) \<Longrightarrow> rw_step p T (m, pcs) t (m, pcs(t := c))"
| access: "t \<in> T \<Longrightarrow> rw_access p m (pcs t) = Inr (pc, m') \<Longrightarrow> rw_step p T (m, pcs) t (m', pcs(t := pc))"

inductive_cases rw_stepE: "rw_step p T (m, pcs) t s'"

text \<open>The states some schedule of the threads reaches from a free lock.\<close>

definition rw_reach :: "addr \<Rightarrow> nat set \<Rightarrow> rw_sys \<Rightarrow> bool" where
  "rw_reach p T s \<longleftrightarrow> (\<exists>m ts. cj_atomic_i32_load m p = 0 \<and> runs (rw_step p T) (m, \<lambda>_. Free) ts s)"

lemma rw_reach_init: "cj_atomic_i32_load m p = 0 \<Longrightarrow> rw_reach p T (m, \<lambda>_. Free)"
  by (auto simp: rw_reach_def intro: run_refl)

lemma rw_reach_step: "rw_reach p T s \<Longrightarrow> rw_step p T s t s' \<Longrightarrow> rw_reach p T s'"
  by (auto simp: rw_reach_def intro: run_snoc)

definition holds_read :: "rw_pc \<Rightarrow> bool" where
  "holds_read pc \<longleftrightarrow> pc = Reading \<or> pc = UnlockReadSub"

definition holds_write :: "rw_pc \<Rightarrow> bool" where
  "holds_write pc \<longleftrightarrow> pc = Writing \<or> pc = UnlockWriteLoad \<or> pc = UnlockWriteStore"

definition readers :: "(nat \<Rightarrow> rw_pc) \<Rightarrow> nat set" where
  "readers pcs = {t. holds_read (pcs t)}"

definition writers :: "(nat \<Rightarrow> rw_pc) \<Rightarrow> nat set" where
  "writers pcs = {t. holds_write (pcs t)}"

text \<open>The count in the local variable of a thread that is about to swap.\<close>

fun local_count :: "rw_pc \<Rightarrow> u32 option" where
  "local_count (LockReadHave c) = Some c"
| "local_count (TryLockReadHave c) = Some c"
| "local_count pc = None"

definition rw_inv :: "addr \<Rightarrow> nat set \<Rightarrow> rw_sys \<Rightarrow> bool" where
  "rw_inv p T s \<longleftrightarrow> (case s of (m, pcs) \<Rightarrow>
     readers pcs \<subseteq> T \<and> writers pcs \<subseteq> T \<and>
     (writers pcs = {} \<and> cj_atomic_i32_load m p = of_nat (card (readers pcs)) \<or>
      (\<exists>t. writers pcs = {t}) \<and> readers pcs = {} \<and> cj_atomic_i32_load m p = WRITE_LOCKED) \<and>
     (\<forall>t c. local_count (pcs t) = Some c \<longrightarrow> c = WRITE_LOCKED \<or> unat c \<le> card T))"

section \<open>How a step changes the holders\<close>

lemma readers_upd: "readers (pcs(t := pc)) = (if holds_read pc then insert t (readers pcs) else readers pcs - {t})"
  by (auto simp: readers_def)

lemma writers_upd: "writers (pcs(t := pc)) = (if holds_write pc then insert t (writers pcs) else writers pcs - {t})"
  by (auto simp: writers_def)

lemma holds_simps [simp]:
  "holds_read Reading" "holds_read UnlockReadSub" "\<not> holds_read Free" "\<not> holds_read Writing"
  "\<not> holds_read LockReadLoad" "\<not> holds_read (LockReadHave c)" "\<not> holds_read LockWriteCas"
  "\<not> holds_read TryLockWriteCas" "\<not> holds_read TryLockReadLoad" "\<not> holds_read (TryLockReadHave c)"
  "\<not> holds_read UnlockWriteLoad" "\<not> holds_read UnlockWriteStore"
  "holds_write Writing" "holds_write UnlockWriteLoad" "holds_write UnlockWriteStore"
  "\<not> holds_write Free" "\<not> holds_write Reading" "\<not> holds_write LockReadLoad"
  "\<not> holds_write (LockReadHave c)" "\<not> holds_write LockWriteCas" "\<not> holds_write TryLockWriteCas"
  "\<not> holds_write TryLockReadLoad" "\<not> holds_write (TryLockReadHave c)" "\<not> holds_write UnlockReadSub"
  by (simp_all add: holds_read_def holds_write_def)

lemma mem_holders: "t \<in> readers pcs \<longleftrightarrow> holds_read (pcs t)" "t \<in> writers pcs \<longleftrightarrow> holds_write (pcs t)"
  by (simp_all add: readers_def writers_def)

text \<open>The invariant, by the value of the count alone; \<open>n\<close> bounds the threads.\<close>

definition few_threads :: "nat set \<Rightarrow> bool" where
  "few_threads T \<longleftrightarrow> finite T \<and> card T < 2 ^ 31 - 1"

lemma count_word:
  assumes "few_threads T" and "R \<subseteq> T"
  shows "unat (of_nat (card R) :: u32) = card R" and "(of_nat (card R) :: u32) \<noteq> WRITE_LOCKED"
    and "\<not> sint (of_nat (card R) :: u32) < 0"
proof -
  have "card R \<le> card T" using assms by (simp add: few_threads_def card_mono)
  then have lt: "card R < 2147483647" using assms(1) by (simp add: few_threads_def)
  then show u: "unat (of_nat (card R) :: u32) = card R"
    by (simp add: unat_of_nat)
  have "unat WRITE_LOCKED = 4294967295"
    by (simp add: WRITE_LOCKED_def unsigned_minus_1_eq_mask mask_eq_exp_minus_1)
  with u lt show "(of_nat (card R) :: u32) \<noteq> WRITE_LOCKED" by auto
  have "sint (of_nat (card R) :: u32) = int (card R)"
    using lt by (simp add: signed_of_nat signed_take_bit_int_eq_self)
  then show "\<not> sint (of_nat (card R) :: u32) < 0" by simp
qed

lemma readers_change:
  assumes "few_threads T" and "readers pcs \<subseteq> T"
  shows "t \<in> T \<Longrightarrow> t \<notin> readers pcs \<Longrightarrow>
      (of_nat (card (insert t (readers pcs))) :: u32) = of_nat (card (readers pcs)) + 1"
    and "t \<in> readers pcs \<Longrightarrow>
      (of_nat (card (readers pcs - {t})) :: u32) = of_nat (card (readers pcs)) - 1"
proof -
  have fin: "finite (readers pcs)" using assms finite_subset by (auto simp: few_threads_def)
  then show "t \<in> T \<Longrightarrow> t \<notin> readers pcs \<Longrightarrow>
      (of_nat (card (insert t (readers pcs))) :: u32) = of_nat (card (readers pcs)) + 1"
    by simp
  assume t: "t \<in> readers pcs"
  then have "card (readers pcs) = Suc (card (readers pcs - {t}))"
    using card.remove [OF fin t] by simp
  then show "(of_nat (card (readers pcs - {t})) :: u32) = of_nat (card (readers pcs)) - 1" by simp
qed

lemma rw_inv_same:
  assumes "rw_inv p T (m, pcs)" and "holds_read pc = holds_read (pcs t)" and "holds_write pc = holds_write (pcs t)"
    and "\<And>c. local_count pc = Some c \<Longrightarrow> c = WRITE_LOCKED \<or> unat c \<le> card T"
  shows "rw_inv p T (m, pcs(t := pc))"
proof -
  have "readers (pcs(t := pc)) = readers pcs" "writers (pcs(t := pc)) = writers pcs"
    using assms(2,3) by (auto simp: readers_def writers_def)
  with assms(1,4) show ?thesis by (simp add: rw_inv_def)
qed

lemma rw_inv_acquire_read:
  assumes "few_threads T" and "rw_inv p T (m, pcs)" and "t \<in> T" and "\<not> holds_read (pcs t)" and "\<not> holds_write (pcs t)"
    and "cj_atomic_i32_load m p \<noteq> WRITE_LOCKED"
  shows "rw_inv p T (cj_atomic_i32_store m p (cj_atomic_i32_load m p + 1), pcs(t := Reading))"
proof -
  from assms(2,6) have w: "writers pcs = {}" and r: "readers pcs \<subseteq> T"
    and v: "cj_atomic_i32_load m p = of_nat (card (readers pcs))"
    and l: "\<forall>t c. local_count (pcs t) = Some c \<longrightarrow> c = WRITE_LOCKED \<or> unat c \<le> card T"
    by (auto simp: rw_inv_def)
  have "t \<notin> readers pcs" using assms(4) by (simp add: mem_holders)
  from readers_change(1) [OF assms(1) r assms(3) this] w r l show ?thesis
    by (simp add: rw_inv_def readers_upd writers_upd cell_simps v assms(3))
qed

lemma rw_inv_acquire_write:
  assumes "few_threads T" and "rw_inv p T (m, pcs)" and "t \<in> T" and "\<not> holds_read (pcs t)" and "\<not> holds_write (pcs t)"
    and "cj_atomic_i32_load m p = 0"
  shows "rw_inv p T (cj_atomic_i32_store m p WRITE_LOCKED, pcs(t := Writing))"
proof -
  have "WRITE_LOCKED \<noteq> 0" by (simp add: WRITE_LOCKED_def)
  with assms(2,6) have w: "writers pcs = {}" and r: "readers pcs \<subseteq> T"
    and v: "(of_nat (card (readers pcs)) :: u32) = 0"
    and l: "\<forall>t c. local_count (pcs t) = Some c \<longrightarrow> c = WRITE_LOCKED \<or> unat c \<le> card T"
    by (auto simp: rw_inv_def)
  have "card (readers pcs) = 0" using count_word(1) [OF assms(1) r] v by simp
  moreover have "finite (readers pcs)" using r assms(1) finite_subset by (auto simp: few_threads_def)
  ultimately have "readers pcs = {}" by simp
  with w l show ?thesis
    by (simp add: rw_inv_def readers_upd writers_upd cell_simps assms(3))
qed

lemma rw_inv_release_read:
  assumes "few_threads T" and "rw_inv p T (m, pcs)" and "holds_read (pcs t)"
  shows "rw_inv p T (cj_atomic_i32_store m p (cj_atomic_i32_load m p - 1), pcs(t := Free))"
proof -
  have t: "t \<in> readers pcs" using assms(3) by (simp add: mem_holders)
  with assms(2) have w: "writers pcs = {}" and r: "readers pcs \<subseteq> T"
    and v: "cj_atomic_i32_load m p = of_nat (card (readers pcs))"
    and l: "\<forall>t c. local_count (pcs t) = Some c \<longrightarrow> c = WRITE_LOCKED \<or> unat c \<le> card T"
    by (auto simp: rw_inv_def)
  from readers_change(2) [OF assms(1) r t] w r l show ?thesis
    by (auto simp: rw_inv_def readers_upd writers_upd cell_simps v)
qed

lemma rw_inv_release_write:
  assumes "rw_inv p T (m, pcs)" and "holds_write (pcs t)"
  shows "rw_inv p T (cj_atomic_i32_store m p 0, pcs(t := Free))"
proof -
  have t: "t \<in> writers pcs" using assms(2) by (simp add: mem_holders)
  with assms(1) have "writers pcs = {t}" "readers pcs = {}" "readers pcs \<subseteq> T"
    and l: "\<forall>t c. local_count (pcs t) = Some c \<longrightarrow> c = WRITE_LOCKED \<or> unat c \<le> card T"
    by (auto simp: rw_inv_def)
  then show ?thesis by (simp add: rw_inv_def readers_upd writers_upd cell_simps)
qed

lemma rw_inv_holder:
  assumes "few_threads T" and "rw_inv p T (m, pcs)"
  shows "holds_write (pcs t) \<Longrightarrow> cj_atomic_i32_load m p = WRITE_LOCKED"
    and "holds_read (pcs t) \<Longrightarrow> \<not> sint (cj_atomic_i32_load m p) < 0"
    and "cj_atomic_i32_load m p = WRITE_LOCKED \<or> unat (cj_atomic_i32_load m p) \<le> card T"
proof -
  have fin: "finite T" using assms(1) by (simp add: few_threads_def)
  have r: "readers pcs \<subseteq> T" using assms(2) by (simp add: rw_inv_def)
  show "holds_write (pcs t) \<Longrightarrow> cj_atomic_i32_load m p = WRITE_LOCKED"
    using assms(2) by (auto simp: rw_inv_def simp flip: mem_holders)
  show "holds_read (pcs t) \<Longrightarrow> \<not> sint (cj_atomic_i32_load m p) < 0"
    using assms(2) count_word(3) [OF assms(1) r] by (auto simp: rw_inv_def simp flip: mem_holders)
  show "cj_atomic_i32_load m p = WRITE_LOCKED \<or> unat (cj_atomic_i32_load m p) \<le> card T"
    using assms(2) count_word(1) [OF assms(1) r] card_mono [OF fin r] by (auto simp: rw_inv_def)
qed

text \<open>One access keeps the invariant and does not stop.\<close>

lemma try_read_access:
  assumes few: "few_threads T" and inv: "rw_inv p T (m, pcs)" and t: "t \<in> T"
    and pc: "local_count (pcs t) = Some cnt" and ne: "cnt \<noteq> WRITE_LOCKED"
    and again: "local_count again = None" "\<not> holds_read again" "\<not> holds_write again"
  shows "\<exists>pc' m'. (let (r, m') = cj_atomic_i32_cas m p cnt (cnt + 1) in
      Inr (if r \<noteq> 0 then Reading else again, m')) = (Inr (pc', m') :: (rw_pc \<times> mem) res) \<and> rw_inv p T (m', pcs(t := pc'))"
proof -
  have free: "\<not> holds_read (pcs t)" "\<not> holds_write (pcs t)"
    using pc by (cases "pcs t"; simp)+
  show ?thesis
  proof (cases "cj_atomic_i32_load m p = cnt")
    case True
    with rw_inv_acquire_read [OF few inv t free] ne show ?thesis
      by (simp add: cell_simps)
  next
    case False
    with rw_inv_same [OF inv, of again t] again free show ?thesis
      by (simp add: cell_simps)
  qed
qed

lemma rw_access_ok:
  assumes few: "few_threads T" and inv: "rw_inv p T (m, pcs)" and t: "t \<in> T"
  shows "\<exists>pc' m'. rw_access p m (pcs t) = Inr (pc', m') \<and> rw_inv p T (m', pcs(t := pc'))"
proof (cases "pcs t")
  case LockReadLoad
  with rw_inv_same [OF inv, of "LockReadHave (cj_atomic_i32_load m p)" t] rw_inv_holder(3) [OF few inv]
  show ?thesis by simp
next
  case (LockReadHave c)
  with rw_inv_same [OF inv, of "LockReadHave (cj_atomic_i32_load m p)" t] rw_inv_holder(3) [OF few inv]
    try_read_access [OF few inv t, of c LockReadLoad]
  show ?thesis by (cases "c = WRITE_LOCKED") simp_all
next
  case LockWriteCas
  with rw_inv_same [OF inv, of LockWriteCas t] rw_inv_acquire_write [OF few inv t]
  show ?thesis by (simp add: cell_simps)
next
  case TryLockWriteCas
  with rw_inv_same [OF inv, of Free t] rw_inv_acquire_write [OF few inv t]
  show ?thesis by (simp add: cell_simps)
next
  case TryLockReadLoad
  with rw_inv_same [OF inv, of "TryLockReadHave (cj_atomic_i32_load m p)" t] rw_inv_holder(3) [OF few inv]
  show ?thesis by simp
next
  case (TryLockReadHave c)
  with rw_inv_same [OF inv, of Free t] try_read_access [OF few inv t, of c TryLockReadLoad]
  show ?thesis by (cases "c = WRITE_LOCKED") simp_all
next
  case UnlockReadSub
  with rw_inv_release_read [OF few inv, of t] rw_inv_holder(2) [OF few inv, of t]
  show ?thesis by (simp add: cell_simps)
next
  case UnlockWriteLoad
  with rw_inv_same [OF inv, of UnlockWriteStore t] rw_inv_holder(1) [OF few inv, of t]
  show ?thesis by simp
next
  case UnlockWriteStore
  with rw_inv_release_write [OF inv, of t] show ?thesis by simp
qed (use inv in \<open>simp_all add: fun_upd_idem\<close>)

lemma rw_inv_init: "cj_atomic_i32_load m p = 0 \<Longrightarrow> rw_inv p T (m, \<lambda>_. Free)"
  by (simp add: rw_inv_def readers_def writers_def)

lemma rw_inv_call:
  assumes "rw_inv p T (m, pcs)" and "c \<in> set (rw_calls (pcs t))"
  shows "rw_inv p T (m, pcs(t := c))"
  using assms(2) by (intro rw_inv_same [OF assms(1)]) (cases "pcs t"; auto)+

interpretation rw: step_invariant "rw_step p T" "\<lambda>_. True" "\<lambda>s. few_threads T \<longrightarrow> rw_inv p T s"
  for p T
proof
  fix s t s'
  assume inv: "few_threads T \<longrightarrow> rw_inv p T s" and step: "rw_step p T s t s'"
  obtain m pcs where s: "s = (m, pcs)" by (cases s)
  show "few_threads T \<longrightarrow> rw_inv p T s'"
  proof
    assume few: "few_threads T"
    with inv s have here: "rw_inv p T (m, pcs)" by simp
    from step show "rw_inv p T s'"
      unfolding s by (rule rw_stepE) (use rw_access_ok [OF few here] rw_inv_call [OF here] in force)+
  qed
qed

lemma rw_reach_inv:
  assumes "few_threads T" and "rw_reach p T s"
  shows "rw_inv p T s"
proof -
  from assms(2) obtain m ts where "cj_atomic_i32_load m p = 0" "runs (rw_step p T) (m, \<lambda>_. Free) ts s"
    unfolding rw_reach_def by (elim exE conjE)
  from rw.inv_run [OF this(2)] rw_inv_init [OF this(1), of T] assms(1) show ?thesis by simp
qed

text \<open>
  C20. The reader-writer lock excludes: in every interleaving of the accesses of fewer than
  \<open>2 ^ 31 - 1\<close> threads that unlock only what they locked, at most one thread has the write
  lock, no thread reads while one writes, and the count is -1 then and the number of readers
  otherwise.
\<close>

theorem RwLock_exclusion:
  assumes "finite T" and "card T < 2 ^ 31 - 1" and "rw_reach p T (m, pcs)"
  shows "(\<forall>t u. holds_write (pcs t) \<longrightarrow> \<not> holds_read (pcs u) \<and> (holds_write (pcs u) \<longrightarrow> u = t)) \<and>
    (if \<exists>t. holds_write (pcs t) then cj_atomic_i32_load m p = - 1
     else cj_atomic_i32_load m p = of_nat (card {t. holds_read (pcs t)}))"
proof -
  have inv: "rw_inv p T (m, pcs)"
    using rw_reach_inv [OF _ assms(3)] assms(1,2) by (simp add: few_threads_def)
  show ?thesis
  proof (cases "writers pcs = {}")
    case True
    then have "\<not> holds_write (pcs t)" for t by (auto simp: writers_def)
    with inv True show ?thesis by (auto simp: rw_inv_def WRITE_LOCKED_def readers_def)
  next
    case False
    with inv obtain t where "writers pcs = {t}" "readers pcs = {}" "cj_atomic_i32_load m p = - 1"
      by (auto simp: rw_inv_def WRITE_LOCKED_def)
    then have "holds_write (pcs u) \<longleftrightarrow> u = t" "\<not> holds_read (pcs u)" "cj_atomic_i32_load m p = - 1" for u
      by (auto simp: writers_def readers_def set_eq_iff)
    then show ?thesis by simp
  qed
qed

text \<open>
  Such threads never stop the process: no access of any of them, in any reachable state,
  runs into \<open>abort\<close> of \<open>UnlockRead\<close>, or the fatal check of \<open>UnlockWrite\<close>.
\<close>

theorem RwLock_never_aborts:
  assumes "finite T" and "card T < 2 ^ 31 - 1" and "rw_reach p T (m, pcs)" and "t \<in> T"
  shows "\<exists>pc' m'. rw_access p m (pcs t) = Inr (pc', m')"
proof -
  have few: "few_threads T" using assms(1,2) by (simp add: few_threads_def)
  from rw_access_ok [OF few rw_reach_inv [OF few assms(3)] assms(4)] show ?thesis by blast
qed

text \<open>
  What the checks miss: \<open>UnlockRead\<close> of a lock nobody holds finds a count of 0, which is not
  negative, and leaves -1. The process goes on, no thread holds the lock, and every attempt
  to take it for reading or writing now fails.
\<close>

theorem UnlockRead_of_free_lock:
  assumes "cj_atomic_i32_load m p = 0"
  shows "\<exists>m'. rw_access p m UnlockReadSub = Inr (Free, m') \<and>
    rw_access p m' TryLockWriteCas = Inr (Free, m') \<and> rw_access p m' LockWriteCas = Inr (LockWriteCas, m') \<and>
    (\<exists>c. rw_access p m' TryLockReadLoad = Inr (TryLockReadHave c, m') \<and>
      rw_access p m' (TryLockReadHave c) = Inr (Free, m')) \<and>
    (\<exists>c. rw_access p m' LockReadLoad = Inr (LockReadHave c, m') \<and>
      rw_access p m' (LockReadHave c) = Inr (LockReadHave c, m'))"
proof -
  let ?m' = "cj_atomic_i32_store m p (- 1)"
  have load: "cj_atomic_i32_load ?m' p = WRITE_LOCKED" by (simp add: cell_simps WRITE_LOCKED_def)
  have "rw_access p m UnlockReadSub = Inr (Free, ?m')" using assms by (simp add: cell_simps)
  moreover have "cj_atomic_i32_cas ?m' p 0 WRITE_LOCKED = (0, ?m')"
    using load by (simp add: i32_cell.cas_spec WRITE_LOCKED_def)
  ultimately show ?thesis using load by (intro exI [of _ ?m']) simp
qed

section \<open>The spin lock\<close>

datatype spin_pc = SpinFree | SpinLocking | SpinTrying | SpinHeld | SpinUnlocking

fun spin_access :: "addr \<Rightarrow> mem \<Rightarrow> spin_pc \<Rightarrow> spin_pc \<times> mem" where
  "spin_access p m SpinLocking =
     (let (was, m') = cj_atomic_flag_test_and_set m p in (if was then SpinLocking else SpinHeld, m'))"
| "spin_access p m SpinTrying =
     (let (was, m') = cj_atomic_flag_test_and_set m p in (if was then SpinFree else SpinHeld, m'))"
| "spin_access p m SpinUnlocking = (SpinFree, cj_atomic_flag_clear m p)"
| "spin_access p m pc = (pc, m)"

fun spin_calls :: "spin_pc \<Rightarrow> spin_pc list" where
  "spin_calls SpinFree = [SpinLocking, SpinTrying]"
| "spin_calls SpinHeld = [SpinUnlocking]"
| "spin_calls pc = []"

inductive spin_step :: "addr \<Rightarrow> mem \<times> (nat \<Rightarrow> spin_pc) \<Rightarrow> nat \<Rightarrow> mem \<times> (nat \<Rightarrow> spin_pc) \<Rightarrow> bool"
  for p where
  spin_call: "c \<in> set (spin_calls (pcs t)) \<Longrightarrow> spin_step p (m, pcs) t (m, pcs(t := c))"
| spin_access: "spin_access p m (pcs t) = (pc, m') \<Longrightarrow> spin_step p (m, pcs) t (m', pcs(t := pc))"

definition spin_reach :: "addr \<Rightarrow> mem \<times> (nat \<Rightarrow> spin_pc) \<Rightarrow> bool" where
  "spin_reach p s \<longleftrightarrow> (\<exists>m ts. m p = 0 \<and> runs (spin_step p) (m, \<lambda>_. SpinFree) ts s)"

lemma spin_reach_init: "m p = 0 \<Longrightarrow> spin_reach p (m, \<lambda>_. SpinFree)"
  by (auto simp: spin_reach_def intro: run_refl)

lemma spin_reach_step: "spin_reach p s \<Longrightarrow> spin_step p s t s' \<Longrightarrow> spin_reach p s'"
  by (auto simp: spin_reach_def intro: run_snoc)

definition spin_holders :: "(nat \<Rightarrow> spin_pc) \<Rightarrow> nat set" where
  "spin_holders pcs = {t. pcs t = SpinHeld \<or> pcs t = SpinUnlocking}"

definition spin_inv :: "addr \<Rightarrow> mem \<times> (nat \<Rightarrow> spin_pc) \<Rightarrow> bool" where
  "spin_inv p s \<longleftrightarrow> (case s of (m, pcs) \<Rightarrow>
     (m p = 0 \<and> spin_holders pcs = {} \<or> m p = 1 \<and> (\<exists>t. spin_holders pcs = {t})))"

lemma spin_holders_upd:
  "spin_holders (pcs(t := pc)) =
    (if pc = SpinHeld \<or> pc = SpinUnlocking then insert t (spin_holders pcs) else spin_holders pcs - {t})"
  by (auto simp: spin_holders_def)

lemma spin_holder_iff: "t \<in> spin_holders pcs \<longleftrightarrow> pcs t = SpinHeld \<or> pcs t = SpinUnlocking"
  by (simp add: spin_holders_def)

lemma spin_inv_access:
  assumes inv: "spin_inv p (m, pcs)"
  shows "spin_inv p (snd (spin_access p m (pcs t)), pcs(t := fst (spin_access p m (pcs t))))"
proof (cases "m p = 0")
  case True
  with inv have none: "spin_holders pcs = {}" by (simp add: spin_inv_def)
  then have "pcs t \<noteq> SpinHeld" "pcs t \<noteq> SpinUnlocking" using spin_holder_iff [of t pcs] by auto
  with True none show ?thesis
    by (cases "pcs t") (simp_all add: spin_inv_def spin_holders_upd cj_atomic_flag_test_and_set_def)
next
  case False
  with inv obtain u where one: "m p = 1" "spin_holders pcs = {u}" by (auto simp: spin_inv_def)
  then have "t = u \<longleftrightarrow> pcs t = SpinHeld \<or> pcs t = SpinUnlocking" using spin_holder_iff [of t pcs] by auto
  with one show ?thesis
    by (cases "pcs t") (simp_all add: spin_inv_def spin_holders_upd cj_atomic_flag_test_and_set_def
        cj_atomic_flag_clear_def)
qed

lemma spin_inv_call:
  assumes "spin_inv p (m, pcs)" and "c \<in> set (spin_calls (pcs t))"
  shows "spin_inv p (m, pcs(t := c))"
proof -
  have "spin_holders (pcs(t := c)) = spin_holders pcs"
    using assms(2) by (cases "pcs t") (auto simp: spin_holders_def)
  with assms(1) show ?thesis by (simp add: spin_inv_def)
qed

interpretation spin: step_invariant "spin_step p" "\<lambda>_. True" "spin_inv p"
  for p
proof
  fix s t s'
  assume inv: "spin_inv p s" and step: "spin_step p s t s'"
  from step show "spin_inv p s'"
  proof cases
    case (spin_call c pcs m)
    with inv show ?thesis by (simp add: spin_inv_call)
  next
    case (spin_access m pcs pc m')
    with inv spin_inv_access [of p m pcs t] show ?thesis by simp
  qed
qed

lemma spin_reach_inv:
  assumes "spin_reach p s"
  shows "spin_inv p s"
proof -
  from assms obtain m ts where "m p = 0" "runs (spin_step p) (m, \<lambda>_. SpinFree) ts s"
    unfolding spin_reach_def by (elim exE conjE)
  from spin.inv_run [OF this(2)] this(1) show ?thesis by (simp add: spin_inv_def spin_holders_def)
qed

text \<open>
  The spin lock excludes: in every interleaving of its test-and-set and clear accesses, at
  most one thread holds it, and the flag is set exactly while one does.
\<close>

theorem AtomicSpinLock_exclusion:
  assumes "spin_reach p (m, pcs)"
  shows "(\<forall>t u. t \<in> spin_holders pcs \<longrightarrow> u \<in> spin_holders pcs \<longrightarrow> t = u) \<and>
    (m p \<noteq> 0 \<longleftrightarrow> spin_holders pcs \<noteq> {})"
  using spin_reach_inv [OF assms] by (auto simp: spin_inv_def)

section \<open>Concrete runs\<close>

text \<open>Thread 0 takes the write lock of a zeroed memory.\<close>

lemma demo_writer:
  "rw_reach 0x40 {0, 1} (cj_atomic_i32_store (\<lambda>_. 0) 0x40 WRITE_LOCKED, (\<lambda>_. Free)(0 := Writing))"
proof -
  let ?m = "\<lambda>_. 0 :: u8" and ?pcs = "(\<lambda>_. Free)(0 := LockWriteCas)"
  have "mload 4 ?m 0x40 = 0" by (rule bit_word_eqI) (simp add: bit_mload)
  then have load: "cj_atomic_i32_load ?m 0x40 = 0" by (simp add: cj_atomic_i32_load_def)
  then have "rw_reach 0x40 {0, 1} (?m, \<lambda>_. Free)" by (rule rw_reach_init)
  moreover have "rw_step 0x40 {0, 1} (?m, \<lambda>_. Free) 0 (?m, ?pcs)"
    by (rule rw_step.call) simp_all
  ultimately have r: "rw_reach 0x40 {0, 1} (?m, ?pcs)" by (rule rw_reach_step)
  have "rw_access 0x40 ?m (?pcs 0) = Inr (Writing, cj_atomic_i32_store ?m 0x40 WRITE_LOCKED)"
    using load by (simp add: i32_cell.cas_spec)
  then have "rw_step 0x40 {0, 1} (?m, ?pcs) 0
      (cj_atomic_i32_store ?m 0x40 WRITE_LOCKED, ?pcs(0 := Writing))"
    by (intro rw_step.access) simp_all
  with r have "rw_reach 0x40 {0, 1} (cj_atomic_i32_store ?m 0x40 WRITE_LOCKED, ?pcs(0 := Writing))"
    by (rule rw_reach_step)
  then show ?thesis by simp
qed

theorem RwLock_exclusion_witness:
  "\<exists>m pcs. rw_reach 0x40 {0, 1} (m, pcs) \<and> holds_write (pcs 0) \<and> \<not> holds_write (pcs 1) \<and>
    cj_atomic_i32_load m 0x40 = - 1"
proof -
  have T: "finite {0, 1 :: nat}" "card {0, 1 :: nat} < 2 ^ 31 - 1" by simp_all
  have ex: "\<exists>t. holds_write (((\<lambda>_. Free)(0 := Writing)) t)" by (rule exI [of _ 0]) simp
  have "cj_atomic_i32_load (cj_atomic_i32_store (\<lambda>_. 0) 0x40 WRITE_LOCKED) 0x40 = - 1"
    by (rule RwLock_exclusion [OF T demo_writer, THEN conjunct2, unfolded if_P [OF ex]])
  with demo_writer show ?thesis
    by (intro exI [of _ "cj_atomic_i32_store (\<lambda>_. 0) 0x40 WRITE_LOCKED"] exI [of _ "(\<lambda>_. Free)(0 := Writing)"]) simp
qed

theorem RwLock_never_aborts_witness:
  "\<exists>m pcs pc' m'. rw_reach 0x40 {0, 1} (m, pcs) \<and> holds_write (pcs 0) \<and> rw_access 0x40 m (pcs 0) = Inr (pc', m')"
proof -
  have "finite {0, 1 :: nat}" and "card {0, 1 :: nat} < 2 ^ 31 - 1" by simp_all
  from RwLock_never_aborts [OF this demo_writer insertI1] obtain pc' m'
    where "rw_access 0x40 (cj_atomic_i32_store (\<lambda>_. 0) 0x40 WRITE_LOCKED) Writing = Inr (pc', m')"
    unfolding fun_upd_same by (elim exE)
  with demo_writer show ?thesis
    by (intro exI [of _ "cj_atomic_i32_store (\<lambda>_. 0) 0x40 WRITE_LOCKED"] exI [of _ "(\<lambda>_. Free)(0 := Writing)"]
        exI [of _ pc'] exI [of _ m']) simp
qed

theorem UnlockRead_of_free_lock_witness:
  "\<exists>m m'. cj_atomic_i32_load m 0x40 = 0 \<and> rw_access 0x40 m UnlockReadSub = Inr (Free, m') \<and>
    rw_access 0x40 m' TryLockWriteCas = Inr (Free, m')"
proof -
  have "cj_atomic_i32_load (cj_atomic_i32_store (\<lambda>_. 0) 0x40 0) 0x40 = 0" by (simp add: cell_simps)
  from UnlockRead_of_free_lock [OF this] this show ?thesis by blast
qed

theorem AtomicSpinLock_exclusion_witness:
  "\<exists>m pcs. spin_reach 0x40 (m, pcs) \<and> pcs 3 = SpinHeld \<and> m 0x40 \<noteq> 0"
proof -
  let ?m = "\<lambda>_. 0 :: u8" and ?pcs = "(\<lambda>_. SpinFree)(3 := SpinLocking)"
  have "spin_reach 0x40 (?m, \<lambda>_. SpinFree)" by (rule spin_reach_init) simp
  then have q: "spin_reach 0x40 (?m, ?pcs)" by (rule spin_reach_step [OF _ spin_call [where t = 3]]) simp
  have "spin_access 0x40 ?m (?pcs 3) = (SpinHeld, ?m(0x40 := 1))"
    by (simp add: cj_atomic_flag_test_and_set_def)
  from spin_reach_step [OF q spin_step.spin_access, OF this] have r: "spin_reach 0x40 (?m(0x40 := 1), (\<lambda>_. SpinFree)(3 := SpinHeld))"
    by (simp only: fun_upd_upd)
  have "3 \<in> spin_holders ((\<lambda>_. SpinFree)(3 := SpinHeld))" by (simp add: spin_holders_def)
  with AtomicSpinLock_exclusion [OF r] have "((\<lambda>_. 0) (0x40 := 1)) (0x40 :: addr) \<noteq> (0 :: u8)" by blast
  with r show ?thesis
    by (intro exI [of _ "(\<lambda>_. 0)(0x40 := 1)"] exI [of _ "(\<lambda>_. SpinFree)(3 := SpinHeld)"]) simp
qed

end
