(* ===== verification/Barriers.thy ===== *)
theory Barriers
  imports Prelude
begin

text \<open>
  The calls Cangjie code makes into the collector, \<^verbatim>\<open>rt0/BarrierProtocol.cpp\<close>. The collector, the
  mutator of the thread and the heap bounds are C++ the repository does not hold: they are the
  parameter \<open>collector\<close>, functions on the byte memory. A \<open>RefField&\<close> is the address of the field.
\<close>

section \<open>The collector\<close>

text \<open>
  The \<open>Try\<close> operations take a reference to the caller's \<open>result\<close>: its value goes in, and comes back
  beside the answer. \<open>satb\<close> is the buffer of the thread's mutator, absent when it has none.
\<close>

record collector =
  TryUpdateRefField :: "addr \<Rightarrow> addr \<Rightarrow> addr \<Rightarrow> mem \<Rightarrow> bool \<times> addr \<times> mem"
  TryUntagRefField :: "addr \<Rightarrow> addr \<Rightarrow> addr \<Rightarrow> mem \<Rightarrow> bool \<times> addr \<times> mem"
  TryForwardRefField :: "addr \<Rightarrow> addr \<Rightarrow> addr \<Rightarrow> mem \<Rightarrow> bool \<times> addr \<times> mem"
  IsOldPointer :: "addr \<Rightarrow> mem \<Rightarrow> bool"
  IsCurrentPointer :: "addr \<Rightarrow> mem \<Rightarrow> bool"
  IsUnmovableFromObject :: "addr \<Rightarrow> mem \<Rightarrow> bool"
  FindToVersion :: "addr \<Rightarrow> mem \<Rightarrow> addr \<times> mem"
  GetAndTryTagRefField :: "addr \<Rightarrow> mem \<Rightarrow> u64 \<times> mem"
  ForwardObject :: "addr \<Rightarrow> mem \<Rightarrow> addr \<times> mem"
  RememberObject :: "(addr \<Rightarrow> mem \<Rightarrow> mem) option"
  IsHeapAddress :: "addr \<Rightarrow> bool"

section \<open>The protocol\<close>

text \<open>
  \<open>*toVersion\<close> is copied to a local, the local is passed by reference, and written back, whatever
  the answer.
\<close>

definition CJ_RT_TryUpdateRefField :: "collector \<Rightarrow> addr \<Rightarrow> addr \<Rightarrow> addr \<Rightarrow> mem \<Rightarrow> u8 \<times> mem" where
  "CJ_RT_TryUpdateRefField c object field toVersion m =
     (let result = mload 8 m toVersion;
          (updated, result', m') = TryUpdateRefField c object field result m
      in (of_bool updated, mstore 8 m' toVersion result'))"

definition CJ_RT_TryUntagRefField :: "collector \<Rightarrow> addr \<Rightarrow> addr \<Rightarrow> addr \<Rightarrow> mem \<Rightarrow> u8 \<times> mem" where
  "CJ_RT_TryUntagRefField c object field target m =
     (let result = mload 8 m target;
          (untagged, result', m') = TryUntagRefField c object field result m
      in (of_bool untagged, mstore 8 m' target result'))"

definition CJ_RT_IsOldPointer :: "collector \<Rightarrow> addr \<Rightarrow> mem \<Rightarrow> u8" where
  "CJ_RT_IsOldPointer c field m = of_bool (IsOldPointer c field m)"

definition CJ_RT_IsCurrentPointer :: "collector \<Rightarrow> addr \<Rightarrow> mem \<Rightarrow> u8" where
  "CJ_RT_IsCurrentPointer c field m = of_bool (IsCurrentPointer c field m)"

definition CJ_RT_FindToVersion :: "collector \<Rightarrow> addr \<Rightarrow> mem \<Rightarrow> addr \<times> mem" where
  "CJ_RT_FindToVersion c object m = FindToVersion c object m"

definition CJ_RT_GetAndTryTagRefField :: "collector \<Rightarrow> addr \<Rightarrow> mem \<Rightarrow> u64 \<times> mem" where
  "CJ_RT_GetAndTryTagRefField c object m = GetAndTryTagRefField c object m"

definition CJ_RT_IsUnmovableFromObject :: "collector \<Rightarrow> addr \<Rightarrow> mem \<Rightarrow> u8" where
  "CJ_RT_IsUnmovableFromObject c object m = of_bool (IsUnmovableFromObject c object m)"

definition CJ_RT_TryForwardRefField :: "collector \<Rightarrow> addr \<Rightarrow> addr \<Rightarrow> addr \<Rightarrow> mem \<Rightarrow> u8 \<times> mem" where
  "CJ_RT_TryForwardRefField c object field toVersion m =
     (let result = mload 8 m toVersion;
          (forwarded, result', m') = TryForwardRefField c object field result m
      in (of_bool forwarded, mstore 8 m' toVersion result'))"

definition CJ_RT_ForwardObject :: "collector \<Rightarrow> addr \<Rightarrow> mem \<Rightarrow> addr \<times> mem" where
  "CJ_RT_ForwardObject c object m = ForwardObject c object m"

text \<open>Without a mutator the call goes through a null pointer.\<close>

definition CJ_RT_RememberObjectInSatbBuffer :: "collector \<Rightarrow> addr \<Rightarrow> mem \<Rightarrow> mem res" where
  "CJ_RT_RememberObjectInSatbBuffer c object m =
     (case RememberObject c of None \<Rightarrow> Inl OutOfBounds | Some remember \<Rightarrow> Inr (remember object m))"

definition CJ_RT_IsHeapAddress :: "collector \<Rightarrow> addr \<Rightarrow> u8" where
  "CJ_RT_IsHeapAddress c address = of_bool (IsHeapAddress c address)"

section \<open>What the calls do to memory\<close>

text \<open>
  A collector that updates a field as a barrier expects: the answer is true only when the field
  holds the result, and no other memory is changed.
\<close>

definition updates_field :: "(addr \<Rightarrow> addr \<Rightarrow> addr \<Rightarrow> mem \<Rightarrow> bool \<times> addr \<times> mem) \<Rightarrow> bool" where
  "updates_field f \<longleftrightarrow> (\<forall>object field result m. case f object field result m of (ok, result', m') \<Rightarrow>
     (ok \<longrightarrow> mload 8 m' field = result') \<and> (\<forall>a. \<not> in_region field 8 a \<longrightarrow> m' a = m a))"

lemma try_call_memory:
  assumes "updates_field f" and "disjoint_regions field 8 slot 8"
    and call: "f object field (mload 8 m slot) m = (ok, r, m')"
  shows "mload 8 (mstore 8 m' slot r) slot = r \<and> (ok \<longrightarrow> mload 8 (mstore 8 m' slot r) field = r) \<and>
    (\<forall>a. \<not> in_region field 8 a \<and> \<not> in_region slot 8 a \<longrightarrow> mstore 8 m' slot r a = m a)"
proof -
  have "disjoint_regions slot 8 field 8" using assms(2) by (auto simp: disjoint_regions_def)
  then have "mload 8 (mstore 8 m' slot r) field = mload 8 m' field" by (rule mload_mstore_disjoint) simp_all
  moreover have "case f object field (mload 8 m slot) m of (ok, result', m') \<Rightarrow>
     (ok \<longrightarrow> mload 8 m' field = result') \<and> (\<forall>a. \<not> in_region field 8 a \<longrightarrow> m' a = m a)"
    by (rule assms(1) [unfolded updates_field_def, THEN spec, THEN spec, THEN spec, THEN spec])
  then have "ok \<longrightarrow> mload 8 m' field = r" "\<forall>a. \<not> in_region field 8 a \<longrightarrow> m' a = m a" using call by simp_all
  ultimately show ?thesis by (simp add: mem_simps take_bit_word_eq_self)
qed

text \<open>
  A forwarding barrier leaves the pointer it was given equal to the field exactly as the collector
  made it: whatever the answer, the caller's slot holds the collector's result, on a true answer the
  field holds the same, and only field and slot are changed.
\<close>

theorem TryForwardRefField_slot:
  assumes "updates_field (TryForwardRefField c)" and "disjoint_regions field 8 toVersion 8"
    and "CJ_RT_TryForwardRefField c object field toVersion m = (answer, m')"
  shows "mload 8 m' toVersion = fst (snd (TryForwardRefField c object field (mload 8 m toVersion) m)) \<and>
    (answer = 1 \<and> mload 8 m' field = mload 8 m' toVersion \<or> answer = 0) \<and>
    (\<forall>a. \<not> in_region field 8 a \<and> \<not> in_region toVersion 8 a \<longrightarrow> m' a = m a)"
proof -
  obtain ok r m1 where call: "TryForwardRefField c object field (mload 8 m toVersion) m = (ok, r, m1)"
    by (metis prod_cases3)
  with assms(3) have eq: "answer = of_bool ok" "m' = mstore 8 m1 toVersion r"
    by (simp_all add: CJ_RT_TryForwardRefField_def Let_def)
  from try_call_memory [OF assms(1,2) call] show ?thesis by (cases ok) (simp_all add: eq call)
qed

definition demo_collector :: collector where
  "demo_collector = \<lparr>TryUpdateRefField = (\<lambda>ob field r m. (False, r, m)), TryUntagRefField = (\<lambda>ob field r m. (False, r, m)),
    TryForwardRefField = (\<lambda>ob field r m. (True, 64, mstore 8 m field 64)),
    IsOldPointer = (\<lambda>_ _. False), IsCurrentPointer = (\<lambda>_ _. True), IsUnmovableFromObject = (\<lambda>_ _. False),
    FindToVersion = (\<lambda>p m. (p, m)), GetAndTryTagRefField = (\<lambda>p m. (p, m)), ForwardObject = (\<lambda>p m. (p, m)),
    RememberObject = None, IsHeapAddress = (\<lambda>_. True)\<rparr>"

theorem TryForwardRefField_slot_witness:
  "let m' = snd (CJ_RT_TryForwardRefField demo_collector 8 16 32 (\<lambda>_. 0)) in
    mload 8 m' 32 = 64 \<and> mload 8 m' 16 = 64"
proof -
  let ?r = "CJ_RT_TryForwardRefField demo_collector 8 16 32 (\<lambda>_. 0)"
  have "updates_field (TryForwardRefField demo_collector)"
    by (simp add: updates_field_def demo_collector_def mem_simps take_bit_word_eq_self)
  moreover have "disjoint_regions 16 8 32 8" by (simp add: disjoint_regions_def)
  moreover have "?r = (1, snd ?r)" by (simp add: CJ_RT_TryForwardRefField_def demo_collector_def Let_def)
  ultimately have "mload 8 (snd ?r) 32 = fst (snd (TryForwardRefField demo_collector 8 16 (mload 8 (\<lambda>_. 0) 32) (\<lambda>_. 0)))"
    "mload 8 (snd ?r) 16 = mload 8 (snd ?r) 32"
    using TryForwardRefField_slot [of demo_collector 16 32 8 "\<lambda>_. 0" 1 "snd ?r"] by simp_all
  then show ?thesis by (simp add: Let_def demo_collector_def)
qed

end
