(* ===== verification/LocalDeque.thy ===== *)
theory LocalDeque
  imports Prelude
begin

text \<open>
  The work lists and the node allocator of the tree,
  \<^verbatim>\<open>src/rt.heap.allocator/LocalDeque.cj\<close>: the single-use deque over mapped memory, the local
  deque in front of it, and the allocator of fixed-size slots with its intrusive free list.
  Elements are pointers. The bounds of the mapping are not checked by the code; they are
  hypotheses here, and the allocator's are discharged for the tree in \<open>TreeMemory\<close>.
\<close>

section \<open>The contract of a work list\<close>

text \<open>The operations of a client, and what they do to a list.\<close>

datatype 'a list_op = DoPush 'a | DoPop | DoPopFront

fun on_list :: "'a list_op \<Rightarrow> 'a list \<Rightarrow> 'a list" where
  "on_list (DoPush x) xs = xs @ [x]"
| "on_list DoPop xs = butlast xs"
| "on_list DoPopFront xs = tl xs"

fun may_do :: "'a list_op \<Rightarrow> 'a list \<Rightarrow> bool" where
  "may_do (DoPush x) xs \<longleftrightarrow> True"
| "may_do DoPop xs \<longleftrightarrow> xs \<noteq> []"
| "may_do DoPopFront xs \<longleftrightarrow> xs \<noteq> []"

fun may_do_all :: "'a list_op list \<Rightarrow> 'a list \<Rightarrow> bool" where
  "may_do_all [] xs \<longleftrightarrow> True"
| "may_do_all (op # ops) xs \<longleftrightarrow> may_do op xs \<and> may_do_all ops (on_list op xs)"

text \<open>
  What the clients of a deque rely on: it is the list of its elements, pushed at the end, read and
  removed at either end. \<open>room\<close> is the state in which a push is allowed.
\<close>

locale work_list =
  fixes push :: "'a \<Rightarrow> 'q \<Rightarrow> 'q" and pop :: "'q \<Rightarrow> 'q" and popfront :: "'q \<Rightarrow> 'q"
    and top_of :: "'q \<Rightarrow> 'a" and front_of :: "'q \<Rightarrow> 'a" and empty :: "'q \<Rightarrow> bool"
    and elems :: "'q \<Rightarrow> 'a list" and ok :: "'q \<Rightarrow> bool" and room :: "'q \<Rightarrow> bool"
  assumes empty_iff: "ok q \<Longrightarrow> empty q \<longleftrightarrow> elems q = []"
    and push: "ok q \<Longrightarrow> room q \<Longrightarrow> ok (push x q) \<and> elems (push x q) = elems q @ [x]"
    and pop: "ok q \<Longrightarrow> elems q \<noteq> [] \<Longrightarrow> ok (pop q) \<and> elems (pop q) = butlast (elems q)"
    and popfront: "ok q \<Longrightarrow> elems q \<noteq> [] \<Longrightarrow> ok (popfront q) \<and> elems (popfront q) = tl (elems q)"
    and top_of: "ok q \<Longrightarrow> elems q \<noteq> [] \<Longrightarrow> top_of q = last (elems q)"
    and front_of: "ok q \<Longrightarrow> elems q \<noteq> [] \<Longrightarrow> front_of q = hd (elems q)"
begin

lemma step:
  assumes "ok q" and "may_do op (elems q)" and "\<And>x. op = DoPush x \<Longrightarrow> room q"
  shows "ok (case op of DoPush x \<Rightarrow> push x q | DoPop \<Rightarrow> pop q | DoPopFront \<Rightarrow> popfront q) \<and>
    elems (case op of DoPush x \<Rightarrow> push x q | DoPop \<Rightarrow> pop q | DoPopFront \<Rightarrow> popfront q) = on_list op (elems q)"
  using assms by (cases op) (simp_all add: push pop popfront)

lemma ends: "ok q \<Longrightarrow> elems q \<noteq> [] \<Longrightarrow> \<not> empty q \<and> top_of q = last (elems q) \<and> front_of q = hd (elems q)"
  by (simp add: empty_iff top_of front_of)

end

section \<open>The single-use deque\<close>

record single_use_deque =
  beginAddr :: addr
  frontAddr :: addr
  topAddr :: addr
  endAddr :: addr

text \<open>\<open>top\<close> is the address of the last element, one element before \<open>front\<close> when there is none.\<close>

definition sud_Empty :: "single_use_deque \<Rightarrow> bool" where
  "sud_Empty d \<longleftrightarrow> topAddr d < frontAddr d"

definition sud_Push :: "addr \<Rightarrow> single_use_deque \<times> mem \<Rightarrow> single_use_deque \<times> mem" where
  "sud_Push v = (\<lambda>(d, m).
     let top = topAddr d + 8 in (d\<lparr>topAddr := top\<rparr>, mstore 8 m top v))"

definition sud_Top :: "single_use_deque \<times> mem \<Rightarrow> addr" where
  "sud_Top = (\<lambda>(d, m). mload 8 m (topAddr d))"

definition sud_Pop :: "single_use_deque \<Rightarrow> single_use_deque" where
  "sud_Pop d = d\<lparr>topAddr := topAddr d - 8\<rparr>"

definition sud_Front :: "single_use_deque \<times> mem \<Rightarrow> addr" where
  "sud_Front = (\<lambda>(d, m). mload 8 m (frontAddr d))"

definition sud_PopFront :: "single_use_deque \<Rightarrow> single_use_deque" where
  "sud_PopFront d = d\<lparr>frontAddr := frontAddr d + 8\<rparr>"

definition sud_Clear :: "single_use_deque \<Rightarrow> single_use_deque" where
  "sud_Clear d = d\<lparr>frontAddr := beginAddr d, topAddr := beginAddr d - 8\<rparr>"

text \<open>
  \<open>Init\<close> of a deque on mapped memory from \<open>base\<close> to \<open>fin\<close> (its own mapping, or the one of
  another deque); mapping and committing are the system's.
\<close>

definition sud_Init :: "addr \<Rightarrow> addr \<Rightarrow> single_use_deque" where
  "sud_Init base fin = sud_Clear \<lparr>beginAddr = base, frontAddr = 0, topAddr = 0, endAddr = fin\<rparr>"

section \<open>The local deque\<close>

definition LOCAL_LENGTH :: int where "LOCAL_LENGTH = 512"

record local_deque =
  front :: int
  top :: int
  array :: "addr list"
  sud :: single_use_deque
  memory :: mem

definition LocalDeque_init :: "single_use_deque \<Rightarrow> mem \<Rightarrow> local_deque" where
  "LocalDeque_init d m = \<lparr>front = 0, top = - 1, array = replicate 512 0, sud = d, memory = m\<rparr>"

definition Empty :: "local_deque \<Rightarrow> bool" where
  "Empty q \<longleftrightarrow> top q < front q \<or> front q = LOCAL_LENGTH \<and> sud_Empty (sud q)"

definition Push :: "addr \<Rightarrow> local_deque \<Rightarrow> local_deque" where
  "Push v q =
     (if top q < LOCAL_LENGTH - 1
      then q\<lparr>top := top q + 1, array := (array q)[nat (top q + 1) := v]\<rparr>
      else
        let q1 = (if top q = LOCAL_LENGTH - 1 then q\<lparr>top := top q + 1, sud := sud_Clear (sud q)\<rparr> else q);
            (d, m) = sud_Push v (sud q1, memory q1)
        in q1\<lparr>sud := d, memory := m\<rparr>)"

definition Top :: "local_deque \<Rightarrow> addr" where
  "Top q = (if top q < LOCAL_LENGTH then array q ! nat (top q) else sud_Top (sud q, memory q))"

definition Pop :: "local_deque \<Rightarrow> local_deque" where
  "Pop q =
     (if top q < LOCAL_LENGTH then q\<lparr>top := top q - 1\<rparr>
      else
        let q1 = q\<lparr>sud := sud_Pop (sud q)\<rparr>
        in if sud_Empty (sud q1)
           then if front q1 = LOCAL_LENGTH then q1\<lparr>front := 0, top := - 1\<rparr>
                else if front q1 < LOCAL_LENGTH then q1\<lparr>top := top q1 - 1\<rparr>
                else q1
           else q1)"

definition Front :: "local_deque \<Rightarrow> addr" where
  "Front q = (if front q < LOCAL_LENGTH then array q ! nat (front q) else sud_Front (sud q, memory q))"

definition PopFront :: "local_deque \<Rightarrow> local_deque" where
  "PopFront q =
     (if front q < LOCAL_LENGTH then q\<lparr>front := front q + 1\<rparr> else q\<lparr>sud := sud_PopFront (sud q)\<rparr>)"

section \<open>The deque is a list\<close>

text \<open>
  The abstraction: the live part of the array and then, once the deque has spilled, the words
  between the two addresses of the single-use deque. \<open>a\<close> and \<open>b\<close> count the words before its
  front and up to its top, \<open>cap\<close> the words of the mapping.
\<close>

definition sud_at :: "nat \<Rightarrow> nat \<Rightarrow> nat \<Rightarrow> single_use_deque \<Rightarrow> bool" where
  "sud_at cap a b d \<longleftrightarrow> a \<le> b \<and> b \<le> cap \<and> 8 \<le> unat (beginAddr d) \<and> unat (beginAddr d) + 8 * cap < 2 ^ 64 \<and>
     frontAddr d = beginAddr d + of_nat (8 * a) \<and> topAddr d = beginAddr d + of_nat (8 * b) - 8"

definition word_at :: "single_use_deque \<Rightarrow> mem \<Rightarrow> nat \<Rightarrow> addr" where
  "word_at d m i = mload 8 m (beginAddr d + of_nat (8 * i))"

definition local_elems :: "local_deque \<Rightarrow> addr list" where
  "local_elems q = map ((!) (array q)) [nat (front q) ..< nat (min (top q) (LOCAL_LENGTH - 1) + 1)]"

definition sud_count :: "addr \<Rightarrow> addr \<Rightarrow> nat" where
  "sud_count base p = unat (p - base) div 8"

definition spill_elems :: "local_deque \<Rightarrow> addr list" where
  "spill_elems q =
     (if top q < LOCAL_LENGTH then []
      else map (word_at (sud q) (memory q))
        [sud_count (beginAddr (sud q)) (frontAddr (sud q)) ..< sud_count (beginAddr (sud q)) (topAddr (sud q) + 8)])"

definition deque_elems :: "local_deque \<Rightarrow> addr list" where
  "deque_elems q = local_elems q @ spill_elems q"

text \<open>The mapping of the single-use deque lies in the address space, off its first word.\<close>

definition sud_mapped :: "nat \<Rightarrow> single_use_deque \<Rightarrow> bool" where
  "sud_mapped cap d \<longleftrightarrow> 8 \<le> unat (beginAddr d) \<and> unat (beginAddr d) + 8 * cap < 2 ^ 64"

definition deque_ok :: "nat \<Rightarrow> local_deque \<Rightarrow> bool" where
  "deque_ok cap q \<longleftrightarrow> 0 \<le> front q \<and> front q \<le> 512 \<and> - 1 \<le> top q \<and> top q \<le> 512 \<and> front q \<le> top q + 1 \<and>
     length (array q) = 512 \<and> sud_mapped cap (sud q) \<and>
     (top q = 512 \<longrightarrow> (\<exists>a b. sud_at cap a b (sud q) \<and> (front q < 512 \<longrightarrow> a < b)))"

definition deque_room :: "nat \<Rightarrow> local_deque \<Rightarrow> bool" where
  "deque_room cap q \<longleftrightarrow> (top q = 511 \<longrightarrow> 0 < cap) \<and>
     (top q = 512 \<longrightarrow> sud_count (beginAddr (sud q)) (topAddr (sud q) + 8) < cap)"

lemma sud_at_addrs:
  assumes "sud_at cap a b d"
  shows "unat (frontAddr d) = unat (beginAddr d) + 8 * a" and "unat (topAddr d) + 8 = unat (beginAddr d) + 8 * b"
    and "sud_count (beginAddr d) (frontAddr d) = a" and "sud_count (beginAddr d) (topAddr d + 8) = b"
    and "sud_Empty d \<longleftrightarrow> a = b" and "sud_mapped cap d"
proof -
  have bounds: "unat (beginAddr d) + 8 * a < 2 ^ 64" "unat (beginAddr d) + 8 * b < 2 ^ 64" "a \<le> b"
    "8 \<le> unat (beginAddr d)"
    using assms by (simp_all add: sud_at_def)
  show fa: "unat (frontAddr d) = unat (beginAddr d) + 8 * a"
    using assms unat_add_offset [OF bounds(1)] by (simp add: sud_at_def)
  have eb: "unat (beginAddr d + of_nat (8 * b)) = unat (beginAddr d) + 8 * b"
    by (rule unat_add_offset [OF bounds(2)])
  then have "unat (beginAddr d + of_nat (8 * b) - 8) = unat (beginAddr d) + 8 * b - 8"
    using bounds(4) by (subst unat_sub) (simp_all add: word_le_nat_alt)
  then show ta: "unat (topAddr d) + 8 = unat (beginAddr d) + 8 * b"
    using assms bounds(4) by (simp add: sud_at_def)
  have "unat (of_nat (8 * a) :: addr) = 8 * a" "unat (of_nat (8 * b) :: addr) = 8 * b"
    using bounds by (intro unat_of_nat_addr; linarith)+
  then show "sud_count (beginAddr d) (frontAddr d) = a" "sud_count (beginAddr d) (topAddr d + 8) = b"
    using assms by (simp_all add: sud_at_def sud_count_def)
  show "sud_Empty d \<longleftrightarrow> a = b" using fa ta bounds(3) by (auto simp: sud_Empty_def word_less_nat_alt)
  show "sud_mapped cap d" using assms by (simp add: sud_at_def sud_mapped_def)
qed

lemma unat_uminus_addr: "0 < unat w \<Longrightarrow> unat (- w) = 2 ^ 64 - unat w" for w :: addr
  using unat_sub_if_size [of 0 w] by (simp add: word_size)

lemma words_disjoint:
  assumes "i < j" and "8 * j + 8 < 2 ^ 64"
  shows "disjoint_regions (p + of_nat (8 * j)) 8 (p + of_nat (8 * i)) 8"
proof -
  have d: "(p + of_nat (8 * j)) - (p + of_nat (8 * i)) = (of_nat (8 * (j - i)) :: addr)"
    using assms(1) by (simp add: of_nat_diff)
  have k: "unat (of_nat (8 * (j - i)) :: addr) = 8 * (j - i)" using assms by (intro unat_of_nat_addr) linarith
  have "(p + of_nat (8 * i)) - (p + of_nat (8 * j)) = - (of_nat (8 * (j - i)) :: addr)"
    using d by (metis minus_diff_eq)
  moreover have "unat (- (of_nat (8 * (j - i)) :: addr)) = 2 ^ 64 - 8 * (j - i)"
    using assms(1) by (subst unat_uminus_addr) (simp_all only: k)
  moreover have "8 * (j - i) + 8 \<le> 2 ^ 64" "8 \<le> 8 * (j - i)" using assms by linarith+
  ultimately show ?thesis unfolding disjoint_regions_def d k by (intro conjI) (simp only:, linarith)+
qed

lemma sud_at_ops:
  assumes "sud_at cap a b d"
  shows "b < cap \<Longrightarrow> sud_at cap a (Suc b) (fst (sud_Push v (d, m)))"
    and "a < b \<Longrightarrow> sud_at cap a (b - 1) (sud_Pop d)"
    and "a < b \<Longrightarrow> sud_at cap (Suc a) b (sud_PopFront d)"
  using assms by (auto simp: sud_at_def sud_Push_def sud_Pop_def sud_PopFront_def of_nat_diff Let_def)

lemma sud_at_Clear: "sud_mapped cap d \<Longrightarrow> sud_at cap 0 0 (sud_Clear d)"
  by (simp add: sud_at_def sud_mapped_def sud_Clear_def)

lemma sud_Push_words:
  assumes "sud_at cap a b d" and "b < cap" and "sud_Push v (d, m) = (d', m')"
  shows "word_at d' m' b = v" and "i < b \<Longrightarrow> word_at d' m' i = word_at d m i"
proof -
  have d': "d' = d\<lparr>topAddr := topAddr d + 8\<rparr>" and m': "m' = mstore 8 m (beginAddr d + of_nat (8 * b)) v"
    using assms by (auto simp: sud_Push_def sud_at_def Let_def)
  show "word_at d' m' b = v" by (simp add: word_at_def d' m' mload_mstore take_bit_word_eq_self)
  have "8 * b + 8 < 2 ^ 64" using assms(1,2) by (simp add: sud_at_def)
  then show "word_at d' m' i = word_at d m i" if "i < b"
    using words_disjoint [OF that] by (simp add: word_at_def d' m' mload_mstore_disjoint)
qed

text \<open>The elements before and after the deque has spilled.\<close>

lemma elems_local:
  "deque_ok cap q \<Longrightarrow> top q < 512 \<Longrightarrow> deque_elems q = map ((!) (array q)) [nat (front q) ..< nat (top q + 1)]"
  by (simp add: deque_elems_def local_elems_def spill_elems_def LOCAL_LENGTH_def)

lemma elems_spilled:
  "top q = 512 \<Longrightarrow> sud_at cap a b (sud q) \<Longrightarrow>
    deque_elems q = map ((!) (array q)) [nat (front q) ..< 512] @ map (word_at (sud q) (memory q)) [a ..< b]"
  by (simp add: deque_elems_def local_elems_def spill_elems_def LOCAL_LENGTH_def sud_at_addrs)

lemma deque_cases [consumes 1, case_names locally spilled]:
  assumes "deque_ok cap q"
  obtains "top q < 512" "0 \<le> front q" "- 1 \<le> top q" "front q \<le> top q + 1" "length (array q) = 512"
      "sud_mapped cap (sud q)" "deque_elems q = map ((!) (array q)) [nat (front q) ..< nat (top q + 1)]"
    | a b where "top q = 512" "0 \<le> front q" "front q \<le> 512" "length (array q) = 512" "sud_at cap a b (sud q)"
      "front q < 512 \<longrightarrow> a < b"
      "deque_elems q = map ((!) (array q)) [nat (front q) ..< 512] @ map (word_at (sud q) (memory q)) [a ..< b]"
proof (cases "top q < 512")
  case True
  with assms elems_local [OF assms True] that(1) show ?thesis by (simp add: deque_ok_def)
next
  case False
  with assms obtain a b where "top q = 512" "sud_at cap a b (sud q)" "front q < 512 \<longrightarrow> a < b"
    by (auto simp: deque_ok_def)
  with assms elems_spilled [OF this(1,2)] that(2) show ?thesis by (simp add: deque_ok_def)
qed

lemma deque_ok_spilled:
  "top q = 512 \<Longrightarrow> sud_at cap a b (sud q) \<Longrightarrow> 0 \<le> front q \<Longrightarrow> front q \<le> 512 \<Longrightarrow> length (array q) = 512 \<Longrightarrow>
    (front q < 512 \<Longrightarrow> a < b) \<Longrightarrow> deque_ok cap q"
  using sud_at_addrs(6) [of cap a b "sud q"] by (auto simp: deque_ok_def)

lemma deque_Empty:
  assumes "deque_ok cap q"
  shows "Empty q \<longleftrightarrow> deque_elems q = []"
  using assms
proof (cases rule: deque_cases)
  case locally
  then show ?thesis by (auto simp: Empty_def LOCAL_LENGTH_def)
next
  case (spilled a b)
  then show ?thesis using sud_at_addrs(5) [OF spilled(5)] by (auto simp: Empty_def LOCAL_LENGTH_def sud_at_def)
qed

lemma nat_Suc: "- 1 \<le> i \<Longrightarrow> nat (i + 2) = Suc (nat (i + 1))" for i :: int
  by simp

lemma deque_Push:
  assumes "deque_ok cap q" and "deque_room cap q"
  shows "deque_ok cap (Push v q) \<and> deque_elems (Push v q) = deque_elems q @ [v]"
  using assms(1)
proof (cases rule: deque_cases)
  case locally
  show ?thesis
  proof (cases "top q < 511")
    case True
    then have P: "Push v q = q\<lparr>top := top q + 1, array := (array q)[nat (top q + 1) := v]\<rparr>"
      by (simp add: Push_def LOCAL_LENGTH_def)
    have ok: "deque_ok cap (Push v q)" using locally True by (simp add: P deque_ok_def)
    have n: "nat (top q + 2) = Suc (nat (top q + 1))" "nat (front q) \<le> nat (top q + 1)" "nat (top q + 1) < 512"
      using locally True by auto
    have "map ((!) ((array q)[nat (top q + 1) := v])) [nat (front q) ..< nat (top q + 1)] =
        map ((!) (array q)) [nat (front q) ..< nat (top q + 1)]"
      by (rule map_cong) auto
    then show ?thesis
      using ok elems_local [OF ok] True locally n by (simp add: P add.assoc)
  next
    case False
    with locally have top: "top q = 511" by simp
    have clear: "sud_at cap 0 0 (sud_Clear (sud q))" using locally by (simp add: sud_at_Clear)
    have cap: "0 < cap" using assms(2) top by (simp add: deque_room_def)
    obtain d m where dm: "sud_Push v (sud_Clear (sud q), memory q) = (d, m)" by fastforce
    have P: "Push v q = q\<lparr>top := 512, sud := d, memory := m\<rparr>"
      using top dm by (simp add: Push_def LOCAL_LENGTH_def)
    have at: "sud_at cap 0 1 d" using sud_at_ops(1) [OF clear cap, of v "memory q"] dm by simp
    then have ok: "deque_ok cap (Push v q)"
      using locally top by (intro deque_ok_spilled [of _ cap 0 1]) (simp_all add: P)
    show ?thesis
      using ok elems_spilled [of "Push v q" cap 0 1] at locally top sud_Push_words(1) [OF clear cap dm]
      by (simp add: P)
  qed
next
  case (spilled a b)
  have b: "b < cap" using assms(2) sud_at_addrs(4) [OF spilled(5)] spilled(1) by (simp add: deque_room_def)
  obtain d m where dm: "sud_Push v (sud q, memory q) = (d, m)" by fastforce
  have P: "Push v q = q\<lparr>sud := d, memory := m\<rparr>"
    using spilled(1) dm by (simp add: Push_def LOCAL_LENGTH_def)
  have at: "sud_at cap a (Suc b) d" using sud_at_ops(1) [OF spilled(5) b, of v "memory q"] dm by simp
  have ab: "a \<le> b" using spilled(5) by (simp add: sud_at_def)
  have ok: "deque_ok cap (Push v q)"
    using spilled at ab by (intro deque_ok_spilled [of _ cap a "Suc b"]) (simp_all add: P)
  have "map (word_at d m) [a ..< b] = map (word_at (sud q) (memory q)) [a ..< b]"
    using sud_Push_words(2) [OF spilled(5) b dm] by (intro map_cong) auto
  then show ?thesis
    using ok elems_spilled [of "Push v q" cap a "Suc b"] at spilled ab sud_Push_words(1) [OF spilled(5) b dm]
    by (simp add: P)
qed

lemma map_upt_butlast: "map f [i ..< j] \<noteq> [] \<Longrightarrow> butlast (map f [i ..< j]) = map f [i ..< j - 1]"
  by (cases j) auto

lemma deque_Pop:
  assumes "deque_ok cap q" and "deque_elems q \<noteq> []"
  shows "deque_ok cap (Pop q) \<and> deque_elems (Pop q) = butlast (deque_elems q)"
  using assms(1)
proof (cases rule: deque_cases)
  case locally
  have P: "Pop q = q\<lparr>top := top q - 1\<rparr>" using locally by (simp add: Pop_def LOCAL_LENGTH_def)
  have ft: "front q \<le> top q" using assms(2) locally by auto
  then have ok: "deque_ok cap (Pop q)" using locally by (simp add: P deque_ok_def)
  have "nat (top q + 1) - 1 = nat (top q)" using ft locally by simp
  then show ?thesis
    using ok elems_local [OF ok] locally assms(2) by (simp add: P map_upt_butlast)
next
  case (spilled a b)
  show ?thesis
  proof (cases "a = b")
    case True
    with spilled(6) assms(2) spilled(3,7) show ?thesis by auto
  next
    case False
    with spilled(5) have ab: "a < b" by (simp add: sud_at_def)
    note pop = sud_at_ops(2) [OF spilled(5) ab]
    have emp: "sud_Empty (sud_Pop (sud q)) \<longleftrightarrow> a = b - 1" by (rule sud_at_addrs(5) [OF pop])
    show ?thesis
    proof (cases "a = b - 1")
      case last: True
      then have b: "b = Suc a" using ab by simp
      show ?thesis
      proof (cases "front q = 512")
        case True
        with last emp spilled have P: "Pop q = q\<lparr>sud := sud_Pop (sud q), front := 0, top := - 1\<rparr>"
          by (simp add: Pop_def LOCAL_LENGTH_def)
        have ok: "deque_ok cap (Pop q)"
          using spilled sud_at_addrs(6) [OF pop] by (simp add: P deque_ok_def)
        show ?thesis using ok elems_local [OF ok] spilled True b by (simp add: P)
      next
        case False
        with last emp spilled have P: "Pop q = q\<lparr>sud := sud_Pop (sud q), top := 511\<rparr>"
          by (simp add: Pop_def LOCAL_LENGTH_def)
        have ok: "deque_ok cap (Pop q)"
          using spilled False sud_at_addrs(6) [OF pop] by (simp add: P deque_ok_def)
        show ?thesis using ok elems_local [OF ok] spilled False b by (simp add: P)
      qed
    next
      case False
      with emp spilled have P: "Pop q = q\<lparr>sud := sud_Pop (sud q)\<rparr>"
        by (simp add: Pop_def LOCAL_LENGTH_def)
      have ok: "deque_ok cap (Pop q)"
        using spilled pop False ab by (intro deque_ok_spilled [of _ cap a "b - 1"]) (simp_all add: P)
      have "word_at (sud_Pop (sud q)) (memory q) = word_at (sud q) (memory q)"
        by (simp add: fun_eq_iff word_at_def sud_Pop_def)
      with ok elems_spilled [of "Pop q" cap a "b - 1"] pop spilled ab show ?thesis
        by (simp add: P butlast_append map_upt_butlast)
    qed
  qed
qed

lemma map_upt_tl: "i < j \<Longrightarrow> map f [i ..< j] = f i # map f [Suc i ..< j]"
  by (simp add: upt_conv_Cons)

lemma deque_PopFront:
  assumes "deque_ok cap q" and "deque_elems q \<noteq> []"
  shows "deque_ok cap (PopFront q) \<and> deque_elems (PopFront q) = tl (deque_elems q)"
  using assms(1)
proof (cases rule: deque_cases)
  case locally
  have ft: "front q \<le> top q" using assms(2) locally by auto
  then have P: "PopFront q = q\<lparr>front := front q + 1\<rparr>" using locally by (simp add: PopFront_def LOCAL_LENGTH_def)
  have ok: "deque_ok cap (PopFront q)" using locally ft by (simp add: P deque_ok_def)
  have "nat (front q + 1) = Suc (nat (front q))" "nat (front q) < nat (top q + 1)" using ft locally by simp_all
  then show ?thesis using ok elems_local [OF ok] locally by (simp add: P map_upt_tl)
next
  case (spilled a b)
  show ?thesis
  proof (cases "front q = 512")
    case True
    then have P: "PopFront q = q\<lparr>sud := sud_PopFront (sud q)\<rparr>" by (simp add: PopFront_def LOCAL_LENGTH_def)
    have ab: "a < b" using spilled True assms(2) by (auto simp: sud_at_def)
    note pop = sud_at_ops(3) [OF spilled(5) ab]
    have ok: "deque_ok cap (PopFront q)"
      using spilled pop True by (intro deque_ok_spilled [of _ cap "Suc a" b]) (simp_all add: P)
    have "word_at (sud_PopFront (sud q)) (memory q) = word_at (sud q) (memory q)"
      by (simp add: fun_eq_iff word_at_def sud_PopFront_def)
    with ok elems_spilled [of "PopFront q" cap "Suc a" b] pop spilled ab True show ?thesis
      by (simp add: P map_upt_tl)
  next
    case False
    with spilled have f: "front q < 512" "a < b" by simp_all
    then have P: "PopFront q = q\<lparr>front := front q + 1\<rparr>" by (simp add: PopFront_def LOCAL_LENGTH_def)
    have ok: "deque_ok cap (PopFront q)"
      using spilled f by (intro deque_ok_spilled [of _ cap a b]) (simp_all add: P)
    have "nat (front q + 1) = Suc (nat (front q))" "nat (front q) < 512" using f spilled by simp_all
    then show ?thesis
      using ok elems_spilled [of "PopFront q" cap a b] spilled by (simp add: P map_upt_tl)
  qed
qed

lemma deque_Top:
  assumes "deque_ok cap q" and "deque_elems q \<noteq> []"
  shows "Top q = last (deque_elems q)"
  using assms(1)
proof (cases rule: deque_cases)
  case locally
  have ft: "front q \<le> top q" using assms(2) locally by auto
  then have "nat (top q + 1) = Suc (nat (top q))" "nat (front q) \<le> nat (top q)" using locally by simp_all
  then show ?thesis using locally by (simp add: Top_def LOCAL_LENGTH_def)
next
  case (spilled a b)
  then have "a < b" using assms(2) by (cases "front q < 512") (auto simp: sud_at_def)
  then obtain b' where b: "b = Suc b'" "a \<le> b'" by (cases b) auto
  have "topAddr (sud q) = beginAddr (sud q) + of_nat (8 * b')"
    using spilled(5) b by (simp add: sud_at_def)
  then show ?thesis using spilled b by (simp add: Top_def sud_Top_def LOCAL_LENGTH_def word_at_def)
qed

lemma deque_Front:
  assumes "deque_ok cap q" and "deque_elems q \<noteq> []"
  shows "Front q = hd (deque_elems q)"
  using assms(1)
proof (cases rule: deque_cases)
  case locally
  have ft: "front q \<le> top q" using assms(2) locally by auto
  then have "nat (front q) < nat (top q + 1)" using locally by simp
  then show ?thesis using locally ft by (simp add: Front_def LOCAL_LENGTH_def map_upt_tl)
next
  case (spilled a b)
  show ?thesis
  proof (cases "front q < 512")
    case True
    then show ?thesis using spilled by (simp add: Front_def LOCAL_LENGTH_def map_upt_tl)
  next
    case False
    then have f: "front q = 512" using spilled by simp
    then have "a < b" using spilled assms(2) by auto
    then show ?thesis using spilled f
      by (simp add: Front_def sud_Front_def LOCAL_LENGTH_def word_at_def sud_at_def map_upt_tl)
  qed
qed

interpretation deque: work_list Push Pop PopFront Top Front Empty deque_elems "deque_ok cap" "deque_room cap"
  for cap
  by unfold_locales
    (simp_all add: deque_Empty deque_Push deque_Pop deque_PopFront deque_Top deque_Front)

fun deque_do :: "addr list_op \<Rightarrow> local_deque \<Rightarrow> local_deque" where
  "deque_do (DoPush v) q = Push v q"
| "deque_do DoPop q = Pop q"
| "deque_do DoPopFront q = PopFront q"

text \<open>How far the deque has got into its mapping; every push takes it one word further at most.\<close>

definition spilled_words :: "local_deque \<Rightarrow> nat" where
  "spilled_words q = (if top q = 512 then sud_count (beginAddr (sud q)) (topAddr (sud q) + 8) else 0)"

lemma spilled_words_do:
  assumes "deque_ok cap q" and "may_do op (deque_elems q)" and "spilled_words q < cap"
  shows "spilled_words (deque_do op q) \<le> (case op of DoPush v \<Rightarrow> Suc (spilled_words q) | _ \<Rightarrow> spilled_words q)"
  using assms(1)
proof (cases rule: deque_cases)
  case locally
  have "sud_count (beginAddr (sud q)) (beginAddr (sud q) + 8) = 1"
    by (simp add: sud_count_def)
  with locally show ?thesis
    by (cases op) (auto simp: spilled_words_def Push_def Pop_def PopFront_def LOCAL_LENGTH_def sud_Push_def
        sud_Clear_def Let_def)
next
  case (spilled a b)
  have w: "spilled_words q = b" using spilled sud_at_addrs(4) [OF spilled(5)] by (simp add: spilled_words_def)
  show ?thesis
  proof (cases op)
    case (DoPush v)
    with spilled w sud_at_addrs(4) [OF sud_at_ops(1) [OF spilled(5), of v "memory q"]] assms(3) show ?thesis
      by (auto simp: spilled_words_def Push_def LOCAL_LENGTH_def sud_Push_def Let_def)
  next
    case DoPop
    have "a < b" using spilled assms(2) DoPop by (cases "front q < 512") (auto simp: sud_at_def)
    with DoPop spilled w sud_at_addrs(4) [OF sud_at_ops(2) [OF spilled(5)]] show ?thesis
      by (auto simp: spilled_words_def Pop_def LOCAL_LENGTH_def Let_def)
  next
    case DoPopFront
    with spilled w show ?thesis
      by (auto simp: spilled_words_def PopFront_def LOCAL_LENGTH_def sud_PopFront_def)
  qed
qed

fun pushes :: "'a list_op list \<Rightarrow> nat" where
  "pushes [] = 0"
| "pushes (DoPush x # ops) = Suc (pushes ops)"
| "pushes (op # ops) = pushes ops"

lemma deque_do_all:
  assumes "deque_ok cap q" and "may_do_all ops (deque_elems q)" and "spilled_words q + pushes ops < cap"
  shows "deque_ok cap (fold deque_do ops q) \<and> deque_elems (fold deque_do ops q) = fold on_list ops (deque_elems q)"
  using assms
proof (induction ops arbitrary: q)
  case (Cons op ops)
  have room: "deque_room cap q" using Cons.prems(3) by (auto simp: deque_room_def spilled_words_def)
  have may: "may_do op (deque_elems q)" using Cons.prems(2) by simp
  have next_q: "deque_ok cap (deque_do op q)" "deque_elems (deque_do op q) = on_list op (deque_elems q)"
    using deque.step [OF Cons.prems(1) may room] by (cases op; simp)+
  have "spilled_words (deque_do op q) + pushes ops < cap"
    using spilled_words_do [OF Cons.prems(1) may] Cons.prems(3) by (cases op) auto
  with Cons.IH [OF next_q(1)] next_q(2) Cons.prems(2) show ?case by simp
qed simp

text \<open>
  C14. The local deque refines the list: after any run of pushes and of removals from either end of
  what is not empty, starting fresh, it answers emptiness and both ends as the list does. This
  covers the spill from the array of 512 into the mapping and the return to the array, as
  long as there are fewer pushes than words in the mapping.
\<close>

theorem LocalDeque_refines_list:
  assumes "sud_mapped cap d" and "may_do_all ops []" and "pushes ops < cap"
    and "q = fold deque_do ops (LocalDeque_init d m)" and "xs = fold on_list ops []"
  shows "deque_elems q = xs \<and> (Empty q \<longleftrightarrow> xs = []) \<and> (xs \<noteq> [] \<longrightarrow> Top q = last xs \<and> Front q = hd xs)"
proof -
  let ?q = "LocalDeque_init d m"
  have ok: "deque_ok cap ?q" using assms(1) by (simp add: deque_ok_def LocalDeque_init_def)
  have el: "deque_elems ?q = []" using elems_local [OF ok] by (simp add: LocalDeque_init_def)
  have "spilled_words ?q + pushes ops < cap" using assms(3) by (simp add: spilled_words_def LocalDeque_init_def)
  from deque_do_all [OF ok _ this] el assms(2,4,5) have "deque_ok cap q" "deque_elems q = xs" by simp_all
  with deque.empty_iff [OF this(1)] deque.ends [OF this(1)] show ?thesis by auto
qed

theorem LocalDeque_refines_list_witness:
  "deque_elems (fold deque_do [DoPush 5, DoPush 6, DoPush 7, DoPopFront, DoPop]
    (LocalDeque_init (sud_Init 0x1000 0x2000) (\<lambda>_. 0))) = [6]"
proof -
  let ?ops = "[DoPush 5, DoPush 6, DoPush 7, DoPopFront, DoPop] :: addr list_op list"
  have "sud_mapped 512 (sud_Init 0x1000 0x2000)"
    by (simp add: sud_mapped_def sud_Init_def sud_Clear_def)
  moreover have "may_do_all ?ops []" and "pushes ?ops < 512" and "[6] = fold on_list ?ops []" by simp_all
  ultimately show ?thesis
    by (rule LocalDeque_refines_list [THEN conjunct1, OF _ _ _ refl])
qed

end
