(* ===== verification/NodeAllocator.thy ===== *)
theory NodeAllocator
  imports Prelude
begin

text \<open>
  The allocator of tree nodes, \<open>RTAllocatorT\<close> of \<^verbatim>\<open>src/rt.heap.allocator/LocalDeque.cj\<close>, over
  the byte memory: slots of 24 bytes, cut off a mapping one after the other, and freed slots
  chained through their first word. The allocator's record is at \<open>self\<close>: the head of the
  chain, then the next address to cut.
\<close>

section \<open>The operations\<close>

definition RTAllocator_Init :: "addr \<Rightarrow> addr \<Rightarrow> addr \<Rightarrow> addr \<Rightarrow> mem \<Rightarrow> mem" where
  "RTAllocator_Init self memMap base fin m =
     mstore 8 (mstore 8 (mstore 8 m (self + 24) memMap) (self + 8) base) (self + 16) fin"

definition Allocate :: "addr \<Rightarrow> mem \<Rightarrow> addr \<times> mem" where
  "Allocate self m =
     (let head = mload 8 m self in
      if head = 0 then
        let res = mload 8 m (self + 8) in (res, mstore 8 m (self + 8) (res + 24))
      else (head, mstore 8 m self (mload 8 m head)))"

definition Deallocate :: "addr \<Rightarrow> addr \<Rightarrow> mem \<Rightarrow> mem" where
  "Deallocate self address m =
     (let head = mload 8 m self in mstore 8 (mstore 8 m address head) self address)"

section \<open>Clients\<close>

text \<open>
  A client allocates while it holds fewer than \<open>L\<close> slots, frees slots it holds, and writes to
  nothing but the slots it holds. The state carries the set of these.
\<close>

datatype rt_move = DoAllocate | DoDeallocate addr | DoWrite

type_synonym rt_state = "mem \<times> addr set"

inductive rt_step :: "addr \<Rightarrow> nat \<Rightarrow> rt_state \<Rightarrow> rt_move \<Rightarrow> rt_state \<Rightarrow> bool" for self L where
  rt_allocate: "card live < L \<Longrightarrow> Allocate self m = (p, m') \<Longrightarrow>
    rt_step self L (m, live) DoAllocate (m', insert p live)"
| rt_deallocate: "p \<in> live \<Longrightarrow> rt_step self L (m, live) (DoDeallocate p) (Deallocate self p m, live - {p})"
| rt_write: "(\<And>a. (\<And>p. p \<in> live \<Longrightarrow> \<not> in_region p 24 a) \<Longrightarrow> m' a = m a) \<Longrightarrow>
    rt_step self L (m, live) DoWrite (m', live)"

inductive_cases rt_stepE: "rt_step self L (m, live) k s'"

section \<open>The invariant\<close>

definition node_slot :: "addr \<Rightarrow> nat \<Rightarrow> addr" where
  "node_slot base i = base + of_nat (24 * i)"

text \<open>The mapping holds \<open>L\<close> slots, does not start at null, and the record lies outside it.\<close>

definition rt_setup :: "addr \<Rightarrow> addr \<Rightarrow> nat \<Rightarrow> bool" where
  "rt_setup self base L \<longleftrightarrow> base \<noteq> 0 \<and> unat base + 24 * L + 24 < 2 ^ 64 \<and>
     (\<forall>a. in_region self 16 a \<longrightarrow> \<not> (unat base \<le> unat a \<and> unat a < unat base + 24 * L))"

fun chain :: "mem \<Rightarrow> addr \<Rightarrow> addr list \<Rightarrow> bool" where
  "chain m p [] \<longleftrightarrow> p = 0"
| "chain m p (x # xs) \<longleftrightarrow> p = x \<and> x \<noteq> 0 \<and> chain m (mload 8 m x) xs"

definition rt_inv :: "addr \<Rightarrow> addr \<Rightarrow> nat \<Rightarrow> rt_state \<Rightarrow> bool" where
  "rt_inv self base L s \<longleftrightarrow> (case s of (m, live) \<Rightarrow>
     \<exists>k fs. k \<le> L \<and> mload 8 m (self + 8) = node_slot base k \<and>
       chain m (mload 8 m self) (map (node_slot base) fs) \<and> distinct fs \<and> set fs \<subseteq> {..<k} \<and>
       live = node_slot base ` ({..<k} - set fs))"

lemma chain_cong:
  "(\<And>x. x \<in> set xs \<Longrightarrow> mload 8 m x = mload 8 m' x) \<Longrightarrow> chain m p xs \<longleftrightarrow> chain m' p xs"
  by (induction xs arbitrary: p) auto

lemma unat_node_slot:
  assumes "rt_setup self base L" and "i \<le> L"
  shows "unat (node_slot base i) = unat base + 24 * i"
  using assms unfolding node_slot_def by (intro unat_add_offset) (simp add: rt_setup_def)

text \<open>The bytes of a slot, and the slots they tell apart.\<close>

lemma in_slot:
  assumes set: "rt_setup self base L" and i: "i < L"
  shows "in_region (node_slot base i) 24 a \<longleftrightarrow> unat base + 24 * i \<le> unat a \<and> unat a < unat base + 24 * i + 24"
proof -
  have u: "unat (node_slot base i) = unat base + 24 * i" "unat base + 24 * i + 24 < 2 ^ 64"
    using unat_node_slot [OF set] set i by (simp_all add: rt_setup_def)
  show ?thesis
  proof (cases "node_slot base i \<le> a")
    case True
    then show ?thesis using u by (auto simp: in_region_def unat_sub word_le_nat_alt)
  next
    case False
    then have "unat a < unat base + 24 * i" using u by (simp add: word_le_nat_alt)
    moreover have "unat (a - node_slot base i) = unat a + 2 ^ 64 - (unat base + 24 * i)"
      using False u by (simp add: unat_sub_if_size word_size word_le_nat_alt)
    ultimately show ?thesis using u(2) unfolding in_region_def by linarith
  qed
qed

lemma slot_of_byte:
  assumes "rt_setup self base L" and "i < L" and "j < L"
    and "in_region (node_slot base i) 24 a" and "in_region (node_slot base j) 24 a"
  shows "i = j"
  using in_slot [OF assms(1,2), of a] in_slot [OF assms(1,3), of a] assms(4,5) by linarith

lemma slot_not_self:
  assumes "rt_setup self base L" and "i < L" and "in_region (node_slot base i) 24 a"
  shows "\<not> in_region self 16 a"
  using in_slot [OF assms(1,2), of a] assms by (auto simp: rt_setup_def)

lemma node_slot_inj:
  assumes "rt_setup self base L" and "i \<le> L" and "j \<le> L"
  shows "node_slot base i = node_slot base j \<longleftrightarrow> i = j"
proof
  assume "node_slot base i = node_slot base j"
  then have "unat base + 24 * i = unat base + 24 * j"
    using unat_node_slot [OF assms(1,2)] unat_node_slot [OF assms(1,3)] by metis
  then show "i = j" by simp
qed simp

lemma node_slot_inj_on: "rt_setup self base L \<Longrightarrow> inj_on (node_slot base) {..<L}"
  using node_slot_inj by (auto simp: inj_on_def)

lemma node_slot_nonnull: "rt_setup self base L \<Longrightarrow> i \<le> L \<Longrightarrow> node_slot base i \<noteq> 0"
  using unat_node_slot [of self base L i] unat_gt_0 [of base] by (auto simp: rt_setup_def)

lemma region_mono: "in_region p n a \<Longrightarrow> n \<le> k \<Longrightarrow> in_region p k a"
  by (simp add: in_region_def)

lemma region_self8:
  assumes "in_region (self + 8) 8 a"
  shows "in_region self 16 a"
proof -
  have lt: "unat (a - (self + 8)) < 8" using assms by (simp add: in_region_def)
  then have "unat (a - (self + 8)) + 8 < 2 ^ 64" by simp
  from unat_add_offset [OF this] have "unat (a - self) = unat (a - (self + 8)) + 8" by simp
  with lt show ?thesis by (simp add: in_region_def)
qed

lemma region_first8: "in_region (node_slot base i) 8 a \<Longrightarrow> in_region (node_slot base i) 24 a"
  by (simp add: in_region_def)

lemma self_words_apart: "disjoint_regions self 8 (self + 8) 8" "disjoint_regions (self + 8) 8 self 8"
  by (simp_all add: disjoint_regions_def unat_sub_if_size word_size)

text \<open>Words that a write to a slot, or to the record, leaves alone.\<close>

lemma mload_outside:
  assumes "n \<le> 8" and "\<And>a. in_region p 8 a \<Longrightarrow> \<not> in_region q n a"
  shows "mload 8 (mstore n m q v) p = mload 8 m p"
  using assms by (intro mload_cong) (auto simp: mstore_outside)

lemma chain_mstore_self:
  assumes "rt_setup self base L" and "set fs \<subseteq> {..<L}" and "q = self \<or> q = self + 8"
  shows "chain (mstore 8 m q v) p (map (node_slot base) fs) \<longleftrightarrow> chain m p (map (node_slot base) fs)"
proof (rule chain_cong)
  fix x
  assume "x \<in> set (map (node_slot base) fs)"
  then obtain f where f: "x = node_slot base f" "f < L" using assms(2) by auto
  show "mload 8 (mstore 8 m q v) x = mload 8 m x"
  proof (rule mload_outside)
    fix a
    assume "in_region x 8 a"
    then have "\<not> in_region self 16 a"
      using slot_not_self [OF assms(1) f(2)] region_first8 by (simp add: f(1))
    with assms(3) show "\<not> in_region q 8 a"
      using region_self8 [of self a] region_mono [of self 8 a 16] by auto
  qed simp
qed

section \<open>Every step keeps the invariant\<close>

lemma rt_inv_allocate:
  assumes set: "rt_setup self base L" and inv: "rt_inv self base L (m, live)" and few: "card live < L"
    and run: "Allocate self m = (p, m')"
  shows "rt_inv self base L (m', insert p live) \<and> (\<exists>i < L. p = node_slot base i \<and> p \<notin> live)"
proof -
  from inv obtain k fs where k: "k \<le> L" "mload 8 m (self + 8) = node_slot base k"
    and ch: "chain m (mload 8 m self) (map (node_slot base) fs)" and fs: "distinct fs" "set fs \<subseteq> {..<k}"
    and live: "live = node_slot base ` ({..<k} - set fs)" by (auto simp: rt_inv_def)
  have inj: "inj_on (node_slot base) {..<L}" by (rule node_slot_inj_on [OF set])
  show ?thesis
  proof (cases fs)
    case Nil
    have "card live = k" using k(1) inj by (simp add: live Nil card_image inj_on_subset)
    with few have kL: "k < L" by simp
    have pm: "p = node_slot base k" "m' = mstore 8 m (self + 8) (node_slot base (Suc k))"
      using run ch k(2) Nil by (auto simp: Allocate_def Let_def node_slot_def algebra_simps)
    have "mload 8 m' (self + 8) = node_slot base (Suc k)"
      by (simp add: pm(2) mload_mstore take_bit_word_eq_self)
    moreover have "mload 8 m' self = mload 8 m self"
      unfolding pm(2) by (rule mload_mstore_disjoint) (simp_all add: self_words_apart)
    ultimately have "rt_inv self base L (m', insert p live)"
      using kL ch Nil by (auto simp: rt_inv_def pm(1) live less_Suc_eq intro!: exI [of _ "Suc k"] exI [of _ "[]"])
    moreover have "p \<notin> live" using node_slot_inj [OF set] kL by (auto simp: pm(1) live Nil)
    ultimately show ?thesis using kL pm(1) by blast
  next
    case (Cons f gs)
    then have f: "f < k" "f \<notin> set gs" using fs by auto
    have hd: "mload 8 m self = node_slot base f" "node_slot base f \<noteq> 0"
      "chain m (mload 8 m (node_slot base f)) (map (node_slot base) gs)" using ch Cons by simp_all
    then have pm: "p = node_slot base f" "m' = mstore 8 m self (mload 8 m (node_slot base f))"
      using run by (auto simp: Allocate_def Let_def)
    have "mload 8 m' (self + 8) = node_slot base k"
      unfolding pm(2) using k(2) mload_mstore_disjoint [OF self_words_apart(1)] by simp
    moreover have "set gs \<subseteq> {..<L}" using fs(2) k(1) Cons by auto
    then have "chain m' (mload 8 m' self) (map (node_slot base) gs)"
      using hd(3) chain_mstore_self [OF set, where fs = gs and q = self and m = m]
      by (simp add: pm(2) mload_mstore take_bit_word_eq_self)
    moreover have "insert p live = node_slot base ` ({..<k} - set gs)"
      using f by (auto simp: pm(1) live Cons)
    ultimately have "rt_inv self base L (m', insert p live)"
      unfolding rt_inv_def using k(1) fs Cons by auto
    moreover have "p \<notin> live"
      using node_slot_inj [OF set] f(1) k(1) by (auto simp: pm(1) live Cons)
    moreover have "f < L" using f(1) k(1) by simp
    ultimately show ?thesis using pm(1) by blast
  qed
qed

lemma rt_inv_deallocate:
  assumes set: "rt_setup self base L" and inv: "rt_inv self base L (m, live)" and p: "p \<in> live"
  shows "rt_inv self base L (Deallocate self p m, live - {p})"
proof -
  from inv obtain k fs where k: "k \<le> L" "mload 8 m (self + 8) = node_slot base k"
    and ch: "chain m (mload 8 m self) (map (node_slot base) fs)" and fs: "distinct fs" "set fs \<subseteq> {..<k}"
    and live: "live = node_slot base ` ({..<k} - set fs)" by (auto simp: rt_inv_def)
  from p live obtain f where f: "p = node_slot base f" "f < k" "f \<notin> set fs" by auto
  then have fL: "f < L" using k(1) by simp
  let ?m1 = "mstore 8 m p (mload 8 m self)"
  have "mload 8 ?m1 (self + 8) = mload 8 m (self + 8)"
  proof (rule mload_outside)
    fix a assume "in_region (self + 8) 8 a"
    then show "\<not> in_region p 8 a"
      using region_self8 slot_not_self [OF set fL, of a] region_first8 [of base f a] f(1) by blast
  qed simp
  then have top: "mload 8 (Deallocate self p m) (self + 8) = node_slot base k"
    using k(2) mload_mstore_disjoint [OF self_words_apart(1)] by (simp add: Deallocate_def Let_def)
  have "chain ?m1 (mload 8 m self) (map (node_slot base) fs)"
  proof (rule chain_cong [THEN iffD1, OF _ ch])
    fix x assume "x \<in> set (map (node_slot base) fs)"
    then obtain g where g: "x = node_slot base g" "g \<in> set fs" by auto
    then have "g < L" "g \<noteq> f" using fs(2) k(1) f(3) by auto
    show "mload 8 m x = mload 8 ?m1 x"
    proof (rule mload_outside [symmetric])
      fix a assume "in_region x 8 a"
      then show "\<not> in_region p 8 a"
        using slot_of_byte [OF set fL \<open>g < L\<close>, of a] \<open>g \<noteq> f\<close> region_first8 f(1) g(1) by blast
    qed simp
  qed
  moreover have "set fs \<subseteq> {..<L}" using fs(2) k(1) by auto
  ultimately have "chain (Deallocate self p m) (mload 8 m self) (map (node_slot base) fs)"
    using chain_mstore_self [OF set, where fs = fs and q = self and m = ?m1] by (simp add: Deallocate_def Let_def)
  moreover have "mload 8 (Deallocate self p m) self = p"
    by (simp add: Deallocate_def Let_def mload_mstore take_bit_word_eq_self)
  moreover have "mload 8 (Deallocate self p m) p = mload 8 m self"
  proof -
    have "mload 8 (Deallocate self p m) p = mload 8 ?m1 p"
      unfolding Deallocate_def Let_def
    proof (rule mload_outside)
      fix a assume "in_region p 8 a"
      then show "\<not> in_region self 8 a"
        using slot_not_self [OF set fL, of a] region_first8 [of base f a] region_mono [of self 8 a 16] f(1) by auto
    qed simp
    then show ?thesis by (simp add: mload_mstore take_bit_word_eq_self)
  qed
  ultimately have "chain (Deallocate self p m) (mload 8 (Deallocate self p m) self) (map (node_slot base) (f # fs))"
    using node_slot_nonnull [OF set, of f] fL f(1) by simp
  moreover have "live - {p} = node_slot base ` ({..<k} - set (f # fs))"
    using node_slot_inj [OF set] f k(1) by (auto simp: live)
  ultimately show ?thesis
    unfolding rt_inv_def
    using k(1) fs f top
    by (auto intro!: exI [of _ k] exI [of _ "f # fs"])
qed

text \<open>What a client writes to its own slots reaches neither the record nor the free chain.\<close>

lemma rt_inv_write:
  assumes set: "rt_setup self base L" and inv: "rt_inv self base L (m, live)"
    and outside: "\<And>a. (\<And>p. p \<in> live \<Longrightarrow> \<not> in_region p 24 a) \<Longrightarrow> m' a = m a"
  shows "rt_inv self base L (m', live)"
proof -
  from inv obtain k fs where k: "k \<le> L" "mload 8 m (self + 8) = node_slot base k"
    and ch: "chain m (mload 8 m self) (map (node_slot base) fs)" and fs: "distinct fs" "set fs \<subseteq> {..<k}"
    and live: "live = node_slot base ` ({..<k} - set fs)" by (auto simp: rt_inv_def)
  have own: "m' a = m a" if a: "in_region self 16 a" for a
  proof (rule outside)
    fix p assume "p \<in> live"
    then obtain i where "p = node_slot base i" "i < L" using live k(1) by auto
    then show "\<not> in_region p 24 a" using slot_not_self [OF set, of i a] a by auto
  qed
  have "mload 8 m' self = mload 8 m self"
    by (intro mload_cong own) (simp_all add: region_mono [of self 8 _ 16])
  moreover have "mload 8 m' (self + 8) = mload 8 m (self + 8)"
    by (intro mload_cong own) (simp_all add: region_self8)
  moreover have "chain m' (mload 8 m self) (map (node_slot base) fs)"
  proof (rule chain_cong [THEN iffD1, OF _ ch])
    fix x assume "x \<in> set (map (node_slot base) fs)"
    then obtain g where g: "x = node_slot base g" "g \<in> set fs" by auto
    then have gL: "g < L" using fs(2) k(1) by auto
    show "mload 8 m x = mload 8 m' x"
    proof (rule mload_cong)
      fix a assume a: "in_region x 8 a"
      have "m' a = m a"
      proof (rule outside)
        fix p assume "p \<in> live"
        then obtain i where i: "p = node_slot base i" "i < k" "i \<notin> set fs" using live by auto
        then have i: "p = node_slot base i" "i < L" "i \<noteq> g" using k(1) g(2) by auto
        then show "\<not> in_region p 24 a"
          using slot_of_byte [OF set i(2) gL, of a] a region_first8 g(1) by blast
      qed
      then show "m a = m' a" by simp
    qed simp
  qed
  ultimately show ?thesis unfolding rt_inv_def using k fs live by auto
qed

interpretation nodes: step_invariant "rt_step self L" "\<lambda>_. True"
    "\<lambda>s. rt_setup self base L \<longrightarrow> rt_inv self base L s"
  for self base L
proof
  fix s a s'
  assume inv: "rt_setup self base L \<longrightarrow> rt_inv self base L s" and step: "rt_step self L s a s'"
  from step show "rt_setup self base L \<longrightarrow> rt_inv self base L s'"
  proof cases
    case (rt_allocate live m p m')
    with inv show ?thesis by (blast dest: rt_inv_allocate)
  next
    case (rt_deallocate p live m)
    with inv show ?thesis by (blast intro: rt_inv_deallocate)
  next
    case (rt_write live m' m)
    with inv show ?thesis by (auto intro: rt_inv_write)
  qed
qed

text \<open>\<open>Init\<close> writes the address to cut from and leaves the head the constructor set to null.\<close>

lemma rt_inv_Init:
  assumes "mload 8 m self = 0"
  shows "rt_inv self base L (RTAllocator_Init self memMap base fin m, {})"
proof -
  have "mload 8 (RTAllocator_Init self memMap base fin m) self = 0"
    and "mload 8 (RTAllocator_Init self memMap base fin m) (self + 8) = base"
    using assms by (simp_all add: RTAllocator_Init_def mem_simps disjoint_regions_def unat_sub_if_size word_size take_bit_word_eq_self)
  then show ?thesis
    unfolding rt_inv_def by (auto simp: node_slot_def intro!: exI [of _ 0] exI [of _ "[]"])
qed

section \<open>Slots handed out are fresh\<close>

text \<open>
  C26. Whatever a client has allocated, freed and written to its slots since \<open>Init\<close>, as long as
  it holds fewer than the \<open>L\<close> slots the mapping has room for, the next slot is one it does not
  hold, lies in the mapping with all its 24 bytes although \<open>Allocate\<close> never looks at the end
  address, and shares no byte with a slot that is held.\<close>

theorem Allocate_fresh_in_bounds:
  assumes "rt_setup self base L" and "mload 8 m self = 0"
    and "runs (rt_step self L) (RTAllocator_Init self memMap base fin m, {}) moves (m', live)"
    and "card live < L"
  shows "fst (Allocate self m') \<notin> live \<and>
    unat base \<le> unat (fst (Allocate self m')) \<and> unat (fst (Allocate self m')) + 24 \<le> unat base + 24 * L \<and>
    (\<forall>q \<in> live. \<forall>a. in_region q 24 a \<longrightarrow> \<not> in_region (fst (Allocate self m')) 24 a)"
proof -
  obtain p m'' where run: "Allocate self m' = (p, m'')" by fastforce
  have inv: "rt_inv self base L (m', live)"
    using nodes.inv_run [OF assms(3), where base = base] rt_inv_Init [OF assms(2)] assms(1) by simp
  from rt_inv_allocate [OF assms(1) inv assms(4) run] obtain i
    where i: "i < L" "p = node_slot base i" "p \<notin> live" by auto
  from i(1) have "24 * i + 24 \<le> 24 * L" by linarith
  moreover have "\<not> in_region p 24 a" if q: "q \<in> live" "in_region q 24 a" for q a
  proof -
    from q(1) inv obtain j where "q = node_slot base j" "j < L" by (auto simp: rt_inv_def)
    with q i slot_of_byte [OF assms(1) i(1), of j a] show ?thesis by auto
  qed
  ultimately show ?thesis using i run unat_node_slot [OF assms(1), of i] by auto
qed

theorem Allocate_fresh_in_bounds_witness:
  "let m = RTAllocator_Init 4096 0 8192 8240 (\<lambda>_. 0); m1 = snd (Allocate 4096 m); m2 = snd (Allocate 4096 m1)
   in runs (rt_step 4096 2) (m, {}) [DoAllocate, DoAllocate, DoDeallocate 8192] (Deallocate 4096 8192 m2, {8216}) \<and>
      fst (Allocate 4096 (Deallocate 4096 8192 m2)) \<notin> {8216}"
proof -
  let ?m = "RTAllocator_Init 4096 0 8192 8240 (\<lambda>_. 0)"
  let ?m1 = "snd (Allocate 4096 ?m)"
  let ?m2 = "snd (Allocate 4096 ?m1)"
  have eval: "Allocate 4096 ?m = (8192, ?m1)" "Allocate 4096 ?m1 = (8216, ?m2)"
    by (simp_all add: RTAllocator_Init_def Allocate_def Let_def mem_simps disjoint_regions_def take_bit_word_eq_self)
  have "rt_step 4096 2 (?m, {}) DoAllocate (?m1, {8192})"
    by (rule rt_allocate [OF _ eval(1)]) simp
  moreover have "rt_step 4096 2 (?m1, {8192}) DoAllocate (?m2, {8216, 8192})"
    by (rule rt_allocate [OF _ eval(2)]) simp
  moreover have "rt_step 4096 2 (?m2, {8216, 8192}) (DoDeallocate 8192) (Deallocate 4096 8192 ?m2, {8216})"
    using rt_deallocate [of 8192 "{8216, 8192}" 4096 2 ?m2] by (simp add: insert_Diff_if)
  ultimately have run: "runs (rt_step 4096 2) (?m, {}) [DoAllocate, DoAllocate, DoDeallocate 8192]
      (Deallocate 4096 8192 ?m2, {8216})"
    by (meson run_Cons run_refl)
  have "rt_setup 4096 8192 2" by (auto simp: rt_setup_def in_region_def unat_sub_if_size word_size)
  then have "fst (Allocate 4096 (Deallocate 4096 8192 ?m2)) \<notin> {8216}"
    using Allocate_fresh_in_bounds [OF _ _ run] by (simp add: mem_simps)
  with run show ?thesis by (simp add: Let_def)
qed

end
