(* ===== verification/RegionBitmap.thy ===== *)
theory RegionBitmap
  imports Prelude
begin

unbundle bit_operations_syntax

text \<open>
  The mark bitmap of a region, \<^verbatim>\<open>src/rt.gc/RegionBitmap.cj\<close>: a bit for every 8 bytes of the region,
  the number of marked bits in each of up to 16 parts of it, and the number of live bytes. The words
  and the counters are read and written through the atomics one at a time; the operations are
  those of one thread. An access to a word or counter outside the bitmap is \<open>OutOfBounds\<close>.
\<close>

section \<open>Bits of a word\<close>

definition bits_of :: "u64 \<Rightarrow> nat set" where
  "bits_of w = {k. bit w k}"

lemma bits_of_less: "k \<in> bits_of w \<Longrightarrow> k < 64"
  using bit_imp_le_length [of w k] by (simp add: bits_of_def)

lemma finite_bits_of [simp]: "finite (bits_of w)"
  by (rule finite_subset [of _ "{..<64}"]) (auto dest: bits_of_less)

lemma bits_of_simps [simp]:
  "bits_of 0 = {}"
  "bits_of (v OR w) = bits_of v \<union> bits_of w"
  "bits_of (v AND w) = bits_of v \<inter> bits_of w"
  by (auto simp: bits_of_def bit_simps)

lemma bits_of_empty_iff [simp]: "bits_of w = {} \<longleftrightarrow> w = 0"
proof
  assume "bits_of w = {}"
  then have "bit w n = bit 0 n" for n by (auto simp: bits_of_def)
  then show "w = 0" by (intro bit_eqI) auto
qed simp

lemma card_bits_of: "card (bits_of w) \<le> 64"
  using card_mono [of "{..<64}" "bits_of w"] bits_of_less by auto

text \<open>Subtracting one and masking clears the lowest bit.\<close>

lemma bits_of_clear_lowest:
  assumes "w \<noteq> 0"
  shows "bits_of (w AND (w - 1)) = bits_of w - {Min (bits_of w)}"
proof -
  define k where "k = Min (bits_of w)"
  have ne: "bits_of w \<noteq> {}" using assms by simp
  have k: "bit w k" "\<And>j. bit w j \<Longrightarrow> k \<le> j"
    using Min_in [OF finite_bits_of ne] Min_le [OF finite_bits_of [of w]] by (auto simp: k_def bits_of_def)
  then have k64: "k < 64" using bits_of_less [of k w] by (simp add: bits_of_def)
  have low: "take_bit (Suc k) w = 2 ^ k"
    using k k64 by (intro bit_word_eqI) (auto simp: bit_simps less_Suc_eq dest: leD)
  have "w = push_bit (Suc k) (drop_bit (Suc k) w) + 2 ^ k"
    using bits_ident [of "Suc k" w] low by simp
  then have "w - 1 = push_bit (Suc k) (drop_bit (Suc k) w) + mask k"
    by (simp add: mask_eq_exp_minus_1 algebra_simps)
  also have "\<dots> = push_bit (Suc k) (drop_bit (Suc k) w) OR mask k"
    by (rule disjunctive_add) (auto simp: bit_simps)
  finally have eq: "w - 1 = push_bit (Suc k) (drop_bit (Suc k) w) OR mask k" .
  have "bit (w - 1) j \<longleftrightarrow> (Suc k \<le> j \<and> bit w j) \<or> j < k" for j
    unfolding eq using k64 bits_of_less [of j w]
    by (auto simp: bit_simps bits_of_def simp del: push_bit_Suc drop_bit_Suc)
  then show ?thesis using k unfolding k_def [symmetric] unfolding bits_of_def
    by (auto simp: bit_simps Suc_le_eq)
qed

text \<open>\<open>PopCount\<close>: the loop clears one bit each time.\<close>

function pop_loop :: "u64 \<Rightarrow> u64 \<Rightarrow> u64" where
  "pop_loop bits cnt = (if bits \<noteq> 0 then pop_loop (bits AND (bits - 1)) (cnt + 1) else cnt)"
  by pat_completeness auto
termination
proof (relation "measure (\<lambda>(bits, _). card (bits_of bits))", goal_cases)
  case (2 bits cnt)
  then have "Min (bits_of bits) \<in> bits_of bits" by (intro Min_in) simp_all
  then have "card (bits_of bits - {Min (bits_of bits)}) < card (bits_of bits)"
    by (rule card_Diff1_less [OF finite_bits_of])
  then show ?case unfolding bits_of_clear_lowest [OF 2, symmetric] by simp
qed simp

declare pop_loop.simps [simp del]

definition PopCount :: "u64 \<Rightarrow> u64" where
  "PopCount value = pop_loop value 0"

lemma pop_loop_card: "pop_loop w n = n + of_nat (card (bits_of w))"
proof (induction w n rule: pop_loop.induct)
  case (1 w n)
  show ?case
  proof (cases "w = 0")
    case True
    then show ?thesis by (simp add: pop_loop.simps [of 0])
  next
    case False
    then have "Min (bits_of w) \<in> bits_of w" by (intro Min_in) simp_all
    then have "card (bits_of w) = Suc (card (bits_of w - {Min (bits_of w)}))"
      by (rule card.remove [OF finite_bits_of])
    moreover have "pop_loop w n = n + 1 + of_nat (card (bits_of w - {Min (bits_of w)}))"
      using "1.IH" False bits_of_clear_lowest [OF False] by (simp add: pop_loop.simps [of w n])
    ultimately show ?thesis by simp
  qed
qed

lemma PopCount_card: "PopCount w = of_nat (card (bits_of w))"
  by (simp add: PopCount_def pop_loop_card)

section \<open>The bitmap\<close>

definition MARKED_BYTES_PER_BIT :: u64 where "MARKED_BYTES_PER_BIT = 8"
definition BITS_PER_WORD :: u64 where "BITS_PER_WORD = 64"

lemmas bitmap_consts = MARKED_BYTES_PER_BIT_def BITS_PER_WORD_def

text \<open>The header, and behind it the words.\<close>

record region_bitmap =
  partLiveBytes :: "u16 list"
  liveBytes :: u64
  wordCnt :: u64
  markWords :: "u64 list"

text \<open>\<open>PartAddress\<close> and \<open>MarkWordAddress\<close> with the atomics applied there.\<close>

definition load_word :: "u64 \<Rightarrow> region_bitmap \<Rightarrow> u64 res" where
  "load_word i b = (if unat i < length (markWords b) then Inr (markWords b ! unat i) else Inl OutOfBounds)"

definition fetch_or_word :: "u64 \<Rightarrow> u64 \<Rightarrow> region_bitmap \<Rightarrow> (u64 \<times> region_bitmap) res" where
  "fetch_or_word i v b =
     and_then (load_word i b) (\<lambda>old. Inr (old, b\<lparr>markWords := (markWords b)[unat i := old OR v]\<rparr>))"

definition fetch_add_part :: "u64 \<Rightarrow> u16 \<Rightarrow> region_bitmap \<Rightarrow> (u16 \<times> region_bitmap) res" where
  "fetch_add_part i v b =
     (if unat i < length (partLiveBytes b)
      then let old = partLiveBytes b ! unat i
           in Inr (old, b\<lparr>partLiveBytes := (partLiveBytes b)[unat i := old + v]\<rparr>)
      else Inl OutOfBounds)"

definition RegionBitmapSize :: "u64 \<Rightarrow> u64" where
  "RegionBitmapSize regionSize = 48 + regionSize div (MARKED_BYTES_PER_BIT * BITS_PER_WORD) * 8"

text \<open>\<open>RegionBitmapConstruct\<close>: parts and words keep what the memory holds.\<close>

definition RegionBitmapConstruct :: "u64 \<Rightarrow> region_bitmap \<Rightarrow> region_bitmap" where
  "RegionBitmapConstruct regionSize b =
     b\<lparr>liveBytes := 0, wordCnt := regionSize div (MARKED_BYTES_PER_BIT * BITS_PER_WORD)\<rparr>"

section \<open>Marking\<close>

record bit_mask_info =
  headWordIdx :: u64
  headMaskBits :: u64
  tailWordCnt :: u64
  lastMaskBits :: u64

definition wrappingShl :: "u64 \<Rightarrow> u64 \<Rightarrow> u64" where
  "wrappingShl v n = push_bit (unat (n mod 64)) v"

definition wrappingShr :: "u64 \<Rightarrow> u64 \<Rightarrow> u64" where
  "wrappingShr v n = drop_bit (unat (n mod 64)) v"

definition RegionBitmapGetBitMaskInfo :: "u64 \<Rightarrow> u64 \<Rightarrow> bit_mask_info" where
  "RegionBitmapGetBitMaskInfo start byteCnt =
     (let headWordIdx = start div MARKED_BYTES_PER_BIT div BITS_PER_WORD;
          headMaskBitStart = start div MARKED_BYTES_PER_BIT mod BITS_PER_WORD;
          headBitCnt = BITS_PER_WORD - headMaskBitStart;
          maskBitCnt = byteCnt div MARKED_BYTES_PER_BIT
      in if maskBitCnt \<ge> headBitCnt then
           let tailBitCnt = maskBitCnt - headBitCnt
           in \<lparr>headWordIdx = headWordIdx,
               headMaskBits = (- 1) XOR (wrappingShl 1 headMaskBitStart - 1),
               tailWordCnt = (tailBitCnt + BITS_PER_WORD - 1) div BITS_PER_WORD,
               lastMaskBits = wrappingShl 1 (tailBitCnt mod BITS_PER_WORD) - 1\<rparr>
         else
           let headMaskBitEnd = headMaskBitStart + maskBitCnt;
               headMaskBits = wrappingShl 1 headMaskBitEnd - 1
           in \<lparr>headWordIdx = headWordIdx,
               headMaskBits = wrappingShl (wrappingShr headMaskBits headMaskBitStart) headMaskBitStart,
               tailWordCnt = 0, lastMaskBits = 0\<rparr>)"

text \<open>
  The words of a part, computed by the same lines in \<open>RegionBitmapApplyBitMaskInfo\<close> and
  \<open>RegionBitmapGetPreMaskInfo\<close>. A region smaller than one word divides by zero.
\<close>

definition part_step :: "u64 \<Rightarrow> u64 res" where
  "part_step regionSize =
     (let markWordSize = regionSize div (MARKED_BYTES_PER_BIT * BITS_PER_WORD);
          calFactor = (if markWordSize < 16 then markWordSize else 16)
      in if calFactor = 0 then Inl Trap
         else
           let markWordSize' = (if markWordSize mod calFactor \<noteq> 0
                                then markWordSize + (calFactor - markWordSize mod calFactor)
                                else markWordSize)
           in Inr (markWordSize' div calFactor))"

definition CheckZero :: "bool \<Rightarrow> u64 \<Rightarrow> unit res" where
  "CheckZero debug value = (if debug \<and> value \<noteq> 0 then Inl Abort else Inr ())"

text \<open>
  The two loops over the whole words of the tail: up to \<open>last\<close> without it, or with it
  (\<open>inclusive\<close>).
\<close>

partial_function (option) tail_loop ::
  "bool \<Rightarrow> bool \<Rightarrow> u64 \<Rightarrow> u64 \<Rightarrow> u64 \<Rightarrow> region_bitmap \<Rightarrow> region_bitmap res option" where
  "tail_loop debug inclusive partDivisor lastIdx idx b =
     (if (if inclusive then idx \<le> lastIdx else idx < lastIdx) then
        (case and_then (fetch_or_word idx (- 1) b) (\<lambda>(zeros, b).
                and_then (fetch_add_part (idx div partDivisor) 64 b) (\<lambda>(_, b).
                  and_then (CheckZero debug zeros) (\<lambda>_. Inr b))) of
           Inl e \<Rightarrow> Some (Inl e)
         | Inr b \<Rightarrow> tail_loop debug inclusive partDivisor lastIdx (idx + 1) b)
      else Some (Inr b))"

definition apply_tail :: "bool \<Rightarrow> bit_mask_info \<Rightarrow> u64 \<Rightarrow> region_bitmap \<Rightarrow> region_bitmap res option" where
  "apply_tail debug info partDivisor b =
     (if tailWordCnt info > 0 then
        let lastWordIdx = headWordIdx info + tailWordCnt info
        in if lastMaskBits info \<noteq> 0 then
             (case tail_loop debug False partDivisor lastWordIdx (headWordIdx info + 1) b of
                Some (Inr b) \<Rightarrow>
                  Some (and_then (fetch_or_word lastWordIdx (lastMaskBits info) b) (\<lambda>(_, b).
                    and_then (fetch_add_part (lastWordIdx div partDivisor) (ucast (PopCount (lastMaskBits info))) b)
                      (\<lambda>(_, b). Inr b)))
              | r \<Rightarrow> r)
           else tail_loop debug True partDivisor lastWordIdx (headWordIdx info + 1) b
      else Some (Inr b))"

definition RegionBitmapApplyBitMaskInfo ::
  "bool \<Rightarrow> bit_mask_info \<Rightarrow> u64 \<Rightarrow> u64 \<Rightarrow> region_bitmap \<Rightarrow> (bool \<times> region_bitmap) res option" where
  "RegionBitmapApplyBitMaskInfo debug info byteCnt regionSize b =
     (case load_word (headWordIdx info) b of
        Inl e \<Rightarrow> Some (Inl e)
      | Inr old \<Rightarrow>
          if old AND headMaskBits info \<noteq> 0 then Some (Inr (True, b))
          else
            (case fetch_or_word (headWordIdx info) (headMaskBits info) b of
               Inl e \<Rightarrow> Some (Inl e)
             | Inr (old, b) \<Rightarrow>
                 if old AND headMaskBits info \<noteq> 0 then Some (Inr (True, b))
                 else
                   (case and_then (part_step regionSize) (\<lambda>partDivisor.
                           and_then (fetch_add_part (headWordIdx info div partDivisor)
                               (ucast (PopCount (headMaskBits info))) b) (\<lambda>(_, b).
                             Inr (partDivisor, b\<lparr>liveBytes := liveBytes b + byteCnt\<rparr>))) of
                      Inl e \<Rightarrow> Some (Inl e)
                    | Inr (partDivisor, b) \<Rightarrow>
                        map_option (\<lambda>r. and_then r (\<lambda>b. Inr (False, b))) (apply_tail debug info partDivisor b))))"

definition RegionBitmapMarkBits ::
  "bool \<Rightarrow> u64 \<Rightarrow> u64 \<Rightarrow> u64 \<Rightarrow> region_bitmap \<Rightarrow> (bool \<times> region_bitmap) res option" where
  "RegionBitmapMarkBits debug start byteCnt regionSize b =
     RegionBitmapApplyBitMaskInfo debug (RegionBitmapGetBitMaskInfo start byteCnt) byteCnt regionSize b"

definition RegionBitmapIsMarked :: "u64 \<Rightarrow> region_bitmap \<Rightarrow> bool res" where
  "RegionBitmapIsMarked start b =
     (let index = start div MARKED_BYTES_PER_BIT div BITS_PER_WORD;
          n = start div MARKED_BYTES_PER_BIT mod BITS_PER_WORD
      in and_then (load_word index b) (\<lambda>w. Inr (w AND wrappingShl 1 n \<noteq> 0)))"

section \<open>Live bytes\<close>

text \<open>Where an offset lies: the part before it (255 for none), its word, and the bits before it there.\<close>

record pre_mask_info =
  partIndex :: u8
  pmMask :: u64
  stepSize :: u64
  pmIndex :: u64

partial_function (option) pre_part_loop :: "u64 \<Rightarrow> u8 \<Rightarrow> u64 \<Rightarrow> u8 option" where
  "pre_part_loop step part remaining =
     (if remaining \<ge> step then pre_part_loop step (part + 1) (remaining - step) else Some part)"

definition RegionBitmapGetPreMaskInfo :: "u64 \<Rightarrow> u64 \<Rightarrow> pre_mask_info res option" where
  "RegionBitmapGetPreMaskInfo offset regionSize =
     (case part_step regionSize of
        Inl e \<Rightarrow> Some (Inl e)
      | Inr step \<Rightarrow>
          let index = offset div (BITS_PER_WORD * MARKED_BYTES_PER_BIT)
          in map_option (\<lambda>part. Inr
               \<lparr>partIndex = part,
                pmMask = wrappingShl 1 (offset div MARKED_BYTES_PER_BIT mod BITS_PER_WORD) - 1,
                stepSize = step, pmIndex = index\<rparr>)
             (pre_part_loop step (- 1) index))"

text \<open>
  The two loops of \<open>RegionBitmapGetPreLiveBytes\<close>: down the parts, each read by adding 0, and down the
  words, with the comparison of \<open>UInt64\<close> the code makes.
\<close>

function parts_loop :: "region_bitmap \<Rightarrow> u64 \<Rightarrow> u8 \<Rightarrow> u64 \<Rightarrow> u64 \<Rightarrow> (u64 \<times> u64) res" where
  "parts_loop b step part preLiveBits partStartIndex =
     (if part \<noteq> - 1 then
        (case fetch_add_part (ucast part) 0 b of
           Inl e \<Rightarrow> Inl e
         | Inr (v, b') \<Rightarrow> parts_loop b' step (part - 1) (preLiveBits + ucast v) (partStartIndex + step))
      else Inr (preLiveBits, partStartIndex))"
  by pat_completeness auto
termination
proof (relation "measure (\<lambda>(b, step, part, pre, start). unat (part + 1))", goal_cases)
  case (2 b step part pre start x v b')
  then have "part + 1 \<noteq> 0" by (metis add.commute eq_neg_iff_add_eq_0)
  from unat_minus_one_Suc [OF this] show ?case by simp
qed simp

declare parts_loop.simps [simp del]

partial_function (option) words_loop :: "u64 \<Rightarrow> u64 \<Rightarrow> u64 \<Rightarrow> region_bitmap \<Rightarrow> u64 res option" where
  "words_loop index partStartIndex liveBits b =
     (if index \<ge> partStartIndex then
        (case load_word index b of
           Inl e \<Rightarrow> Some (Inl e)
         | Inr w \<Rightarrow> words_loop (index - 1) partStartIndex (liveBits + PopCount w) b)
      else Some (Inr liveBits))"

definition RegionBitmapGetPreLiveBytes :: "region_bitmap \<Rightarrow> pre_mask_info \<Rightarrow> u64 res option" where
  "RegionBitmapGetPreLiveBytes b info =
     (case parts_loop b (stepSize info) (partIndex info) 0 0 of
        Inl e \<Rightarrow> Some (Inl e)
      | Inr (preLiveBits, partStartIndex) \<Rightarrow>
          (case load_word (pmIndex info) b of
             Inl e \<Rightarrow> Some (Inl e)
           | Inr w \<Rightarrow>
               let liveBits = PopCount (w AND pmMask info)
               in if pmIndex info = partStartIndex
                  then Some (Inr ((preLiveBits + liveBits) * MARKED_BYTES_PER_BIT))
                  else map_option
                    (\<lambda>r. and_then r (\<lambda>liveBits. Inr ((preLiveBits + liveBits) * MARKED_BYTES_PER_BIT)))
                    (words_loop (pmIndex info - 1) partStartIndex liveBits b)))"

definition RegionBitmapGetLiveBytes :: "region_bitmap \<Rightarrow> u64" where
  "RegionBitmapGetLiveBytes b = liveBytes b"

function recompute_loop :: "region_bitmap \<Rightarrow> u64 \<Rightarrow> u64 \<Rightarrow> u64 \<Rightarrow> u64 res" where
  "recompute_loop b cnt index liveBits =
     (if index < cnt then
        (case load_word index b of
           Inl e \<Rightarrow> Inl e
         | Inr w \<Rightarrow> recompute_loop b cnt (index + 1) (liveBits + PopCount w))
      else Inr liveBits)"
  by pat_completeness auto
termination
proof (relation "measure (\<lambda>(b, cnt, index, live). unat (cnt - index))", goal_cases)
  case (2 b cnt index live w)
  then have "cnt - index \<noteq> 0" by auto
  from unat_minus_one_Suc [OF this] show ?case by (simp add: algebra_simps)
qed simp

declare recompute_loop.simps [simp del]

definition RegionBitmapRecomputeLiveBytes :: "region_bitmap \<Rightarrow> u64 res" where
  "RegionBitmapRecomputeLiveBytes b =
     and_then (recompute_loop b (wordCnt b) 0 0) (\<lambda>liveBits. Inr (liveBits * MARKED_BYTES_PER_BIT))"

section \<open>The two bitmaps of a region\<close>

record live_info =
  markBitmap :: "region_bitmap option"
  resurrectBitmap :: "region_bitmap option"

definition pre_live_of :: "region_bitmap option \<Rightarrow> pre_mask_info \<Rightarrow> u64 res option" where
  "pre_live_of bm pm = (case bm of None \<Rightarrow> Some (Inr 0) | Some b \<Rightarrow> RegionBitmapGetPreLiveBytes b pm)"

definition LiveInfoGetPreLiveBytes :: "live_info \<Rightarrow> u64 \<Rightarrow> u64 \<Rightarrow> u64 res option" where
  "LiveInfoGetPreLiveBytes info offset regionSize =
     (case RegionBitmapGetPreMaskInfo offset regionSize of
        None \<Rightarrow> None
      | Some (Inl e) \<Rightarrow> Some (Inl e)
      | Some (Inr pm) \<Rightarrow>
          (case pre_live_of (markBitmap info) pm of
             None \<Rightarrow> None
           | Some r \<Rightarrow>
               (case r of
                  Inl e \<Rightarrow> Some (Inl e)
                | Inr bytes \<Rightarrow> map_option (\<lambda>r'. and_then r' (\<lambda>more. Inr (bytes + more)))
                    (pre_live_of (resurrectBitmap info) pm))))"

definition marked_in :: "region_bitmap option \<Rightarrow> u64 \<Rightarrow> bool res" where
  "marked_in bm offset = (case bm of None \<Rightarrow> Inr False | Some b \<Rightarrow> RegionBitmapIsMarked offset b)"

definition LiveInfoIsSurvivedObject :: "live_info \<Rightarrow> u64 \<Rightarrow> bool res" where
  "LiveInfoIsSurvivedObject info offset =
     and_then (marked_in (markBitmap info) offset) (\<lambda>m.
       if m then Inr True else marked_in (resurrectBitmap info) offset)"

definition live_bytes_of :: "region_bitmap option \<Rightarrow> u64" where
  "live_bytes_of bm = (case bm of None \<Rightarrow> 0 | Some b \<Rightarrow> RegionBitmapGetLiveBytes b)"

definition LiveInfoGetBitmapLiveBytes :: "live_info \<Rightarrow> u64" where
  "LiveInfoGetBitmapLiveBytes info = live_bytes_of (markBitmap info) + live_bytes_of (resurrectBitmap info)"

definition recomputed_of :: "region_bitmap option \<Rightarrow> u64 res" where
  "recomputed_of bm = (case bm of None \<Rightarrow> Inr 0 | Some b \<Rightarrow> RegionBitmapRecomputeLiveBytes b)"

definition LiveInfoRecomputeBitmapLiveBytes :: "live_info \<Rightarrow> u64 res" where
  "LiveInfoRecomputeBitmapLiveBytes info =
     and_then (recomputed_of (markBitmap info)) (\<lambda>x.
       and_then (recomputed_of (resurrectBitmap info)) (\<lambda>y. Inr (x + y)))"

section \<open>The abstraction of a bitmap\<close>

text \<open>The marked bits, numbered through the words, and how many lie in a range of words.\<close>

definition marked_bits :: "u64 list \<Rightarrow> nat set" where
  "marked_bits ws = {m. m < 64 * length ws \<and> bit (ws ! (m div 64)) (m mod 64)}"

definition word_bits :: "nat \<Rightarrow> u64 \<Rightarrow> nat set" where
  "word_bits i w = (\<lambda>k. 64 * i + k) ` bits_of w"

definition live_bits :: "u64 list \<Rightarrow> nat \<Rightarrow> nat \<Rightarrow> nat" where
  "live_bits ws lo hi = (\<Sum>i = lo..<hi. card (bits_of (ws ! i)))"

lemma word_bits_iff: "m \<in> word_bits i w \<longleftrightarrow> m div 64 = i \<and> bit w (m mod 64)"
proof
  assume "m \<in> word_bits i w"
  then obtain k where "k \<in> bits_of w" "m = 64 * i + k" by (auto simp: word_bits_def)
  with bits_of_less [of k w] show "m div 64 = i \<and> bit w (m mod 64)" by (simp add: bits_of_def)
next
  assume "m div 64 = i \<and> bit w (m mod 64)"
  then show "m \<in> word_bits i w"
    unfolding word_bits_def by (intro image_eqI [of _ _ "m mod 64"]) (auto simp: bits_of_def)
qed

lemma card_word_bits: "card (word_bits i w) = card (bits_of w)"
  unfolding word_bits_def by (rule card_image) (simp add: inj_on_def)

lemma marked_iff: "m \<in> marked_bits ws \<longleftrightarrow> m div 64 < length ws \<and> m \<in> word_bits (m div 64) (ws ! (m div 64))"
  by (auto simp: marked_bits_def word_bits_iff)

lemma marked_below: "m \<in> marked_bits ws \<Longrightarrow> m < 64 * length ws"
  by (simp add: marked_bits_def)

lemma finite_marked [simp]: "finite (marked_bits ws)"
  by (rule finite_subset [of _ "{..<64 * length ws}"]) (auto simp: marked_bits_def)

lemma marked_update:
  assumes "i < length ws"
  shows "marked_bits (ws[i := ws ! i OR v]) = marked_bits ws \<union> word_bits i v"
proof (rule set_eqI)
  fix m
  show "m \<in> marked_bits (ws[i := ws ! i OR v]) \<longleftrightarrow> m \<in> marked_bits ws \<union> word_bits i v"
    using assms by (cases "m div 64 = i") (auto simp: marked_iff word_bits_iff bit_simps)
qed

lemma card_marked_range:
  assumes "lo \<le> hi" and "hi \<le> length ws"
  shows "card {m \<in> marked_bits ws. 64 * lo \<le> m \<and> m < 64 * hi} = live_bits ws lo hi"
  using assms
proof (induction hi rule: nat_induct_at_least)
  case base
  then show ?case by (simp add: live_bits_def)
next
  case (Suc hi)
  let ?A = "{m \<in> marked_bits ws. 64 * lo \<le> m \<and> m < 64 * hi}"
  have split: "{m \<in> marked_bits ws. 64 * lo \<le> m \<and> m < 64 * Suc hi} = ?A \<union> word_bits hi (ws ! hi)"
  proof (rule set_eqI)
    fix m
    have "m < 64 * Suc hi \<longleftrightarrow> m div 64 < Suc hi" "m < 64 * hi \<longleftrightarrow> m div 64 < hi" "64 * lo \<le> m \<longleftrightarrow> lo \<le> m div 64"
      using div_less_iff_less_mult [of 64 m "Suc hi"] div_less_iff_less_mult [of 64 m hi]
        less_eq_div_iff_mult_less_eq [of 64 lo m] by (simp_all add: mult.commute)
    then show "m \<in> {m \<in> marked_bits ws. 64 * lo \<le> m \<and> m < 64 * Suc hi} \<longleftrightarrow> m \<in> ?A \<union> word_bits hi (ws ! hi)"
      using Suc.prems Suc.hyps by (cases "m div 64 = hi") (auto simp: marked_iff word_bits_iff)
  qed
  have "?A \<inter> word_bits hi (ws ! hi) = {}" by (auto simp: word_bits_def)
  then have "card (?A \<union> word_bits hi (ws ! hi)) = live_bits ws lo hi + card (bits_of (ws ! hi))"
    using Suc.IH Suc.prems by (simp add: card_Un_disjoint card_word_bits word_bits_def card_image inj_on_def)
  with split Suc.hyps show ?case by (simp add: live_bits_def)
qed

lemma live_bits_update:
  assumes "i < length ws" and "bits_of (ws ! i) \<inter> bits_of v = {}" and "hi \<le> length ws"
  shows "live_bits (ws[i := ws ! i OR v]) lo hi = live_bits ws lo hi + (if lo \<le> i \<and> i < hi then card (bits_of v) else 0)"
proof -
  have "(\<Sum>j = lo..<hi. card (bits_of (ws[i := ws ! i OR v] ! j))) =
      (\<Sum>j = lo..<hi. card (bits_of (ws ! j)) + (if j = i then card (bits_of v) else 0))"
  proof (rule sum.cong)
    fix j assume "j \<in> {lo..<hi}"
    then show "card (bits_of (ws[i := ws ! i OR v] ! j)) = card (bits_of (ws ! j)) + (if j = i then card (bits_of v) else 0)"
      using assms by (cases "j = i") (simp_all add: card_Un_disjoint)
  qed simp
  then show ?thesis by (simp add: live_bits_def sum.distrib)
qed

lemma live_bits_bound: "live_bits ws lo hi \<le> 64 * (hi - lo)"
  using sum_bounded_above [of "{lo..<hi}" "\<lambda>i. card (bits_of (ws ! i))" 64] card_bits_of
  by (simp add: live_bits_def mult.commute)

lemma live_bits_append: "lo \<le> mid \<Longrightarrow> mid \<le> hi \<Longrightarrow> live_bits ws lo hi = live_bits ws lo mid + live_bits ws mid hi"
  by (simp add: live_bits_def sum.atLeastLessThan_concat)

section \<open>The parts\<close>

text \<open>
  Every part counts its words; \<open>step\<close> is the number of words of a part. The bound keeps a part below
  the \<open>2 ^ 16\<close> bits its counter holds: regions of less than 8 MiB.
\<close>

definition parts_ok :: "nat \<Rightarrow> u64 list \<Rightarrow> u16 list \<Rightarrow> bool" where
  "parts_ok step ws ps \<longleftrightarrow> length ps = 16 \<and>
     (\<forall>p < 16. unat (ps ! p) = live_bits ws (p * step) (min (length ws) (Suc p * step)))"

lemma parts_ok_mark:
  assumes ok: "parts_ok step ws ps" and i: "i < length ws" "i div step < 16" and step: "0 < step" "step \<le> 1023"
    and apart: "bits_of (ws ! i) \<inter> bits_of v = {}"
  shows "parts_ok step (ws[i := ws ! i OR v]) (ps[i div step := ps ! (i div step) + of_nat (card (bits_of v))])"
  unfolding parts_ok_def
proof (intro conjI allI impI)
  show "length (ps[i div step := ps ! (i div step) + of_nat (card (bits_of v))]) = 16"
    using ok by (simp add: parts_ok_def)
  fix p :: nat
  assume p: "p < 16"
  let ?hi = "min (length ws) (Suc p * step)"
  have old: "unat (ps ! p) = live_bits ws (p * step) ?hi" using ok p by (simp add: parts_ok_def)
  have new: "live_bits (ws[i := ws ! i OR v]) (p * step) ?hi =
      live_bits ws (p * step) ?hi + (if p * step \<le> i \<and> i < ?hi then card (bits_of v) else 0)"
    by (rule live_bits_update [OF i(1) apart]) simp
  have iff: "p * step \<le> i \<and> i < ?hi \<longleftrightarrow> p = i div step"
    using i(1) div_nat_eqI [of step p i] dividend_less_times_div [OF step(1), of i]
      times_div_less_eq_dividend [of step i] by (auto simp: mult.commute)
  show "unat (ps[i div step := ps ! (i div step) + of_nat (card (bits_of v))] ! p) =
      live_bits (ws[i := ws ! i OR v]) (p * step) (min (length (ws[i := ws ! i OR v])) (Suc p * step))"
  proof (cases "p = i div step")
    case True
    have "live_bits (ws[i := ws ! i OR v]) (p * step) ?hi \<le> 64 * (?hi - p * step)" by (rule live_bits_bound)
    also have "\<dots> \<le> 64 * step" by (simp add: min_def le_diff_conv add.commute)
    finally have "unat (ps ! p) + card (bits_of v) < 2 ^ 16" using new old True iff step(2) by simp
    then have "unat (ps ! p + of_nat (card (bits_of v))) = unat (ps ! p) + card (bits_of v)"
      by (simp add: unat_word_ariths unat_of_nat)
    then show ?thesis using True iff old new p ok by (simp add: parts_ok_def)
  next
    case False
    then have "\<not> (p * step \<le> i \<and> i < ?hi)" using iff by blast
    then have "live_bits (ws[i := ws ! i OR v]) (p * step) ?hi = live_bits ws (p * step) ?hi"
      using new by (simp only: if_False add_0_right)
    then show ?thesis using False old by simp
  qed
qed

section \<open>Marking keeps the counts\<close>

text \<open>
  The invariant: the parts count the marked bits of their words. \<open>adds\<close> says that \<open>X\<close> has been
  marked on the way from \<open>b\<close> to \<open>b'\<close>, and nothing else changed.
\<close>

definition counts_ok :: "nat \<Rightarrow> region_bitmap \<Rightarrow> bool" where
  "counts_ok step b \<longleftrightarrow> parts_ok step (markWords b) (partLiveBytes b)"

abbreviation marks :: "region_bitmap \<Rightarrow> nat set" where
  "marks b \<equiv> marked_bits (markWords b)"

definition adds :: "nat \<Rightarrow> region_bitmap \<Rightarrow> nat set \<Rightarrow> region_bitmap \<Rightarrow> bool" where
  "adds step b X b' \<longleftrightarrow> counts_ok step b' \<and> marks b' = marks b \<union> X \<and>
     length (markWords b') = length (markWords b) \<and> wordCnt b' = wordCnt b \<and> liveBytes b' = liveBytes b"

lemma adds_refl: "counts_ok step b \<Longrightarrow> adds step b {} b"
  by (simp add: adds_def)

lemma adds_trans: "adds step b X b' \<Longrightarrow> adds step b' Y b'' \<Longrightarrow> adds step b (X \<union> Y) b''"
  by (auto simp: adds_def)

text \<open>The shape of a bitmap of \<open>n\<close> words with parts of \<open>step\<close> words.\<close>

definition shaped :: "nat \<Rightarrow> nat \<Rightarrow> bool" where
  "shaped n step \<longleftrightarrow> 0 < step \<and> step \<le> 1023 \<and> n \<le> 16 * step"

lemma shaped_part: "shaped n step \<Longrightarrow> i < n \<Longrightarrow> i div step < 16"
  using div_less_iff_less_mult [of step i 16] by (auto simp: shaped_def)

text \<open>A mask whose bits are unmarked meets no bit of its word.\<close>

lemma unmarked_apart:
  assumes i: "i < length (markWords b)" and apart: "word_bits i v \<inter> marks b = {}"
  shows "bits_of (markWords b ! i) \<inter> bits_of v = {}"
proof (rule ccontr)
  assume "bits_of (markWords b ! i) \<inter> bits_of v \<noteq> {}"
  then obtain k where k: "bit (markWords b ! i) k" "bit v k" by (auto simp: bits_of_def)
  then have "k < 64" using bits_of_less [of k v] by (simp add: bits_of_def)
  then have "64 * i + k \<in> word_bits i v \<inter> marks b" using k i by (auto simp: marked_iff word_bits_iff)
  with apart show False by simp
qed

lemma unmarked_and_zero:
  assumes "i < length (markWords b)" and "word_bits i v \<inter> marks b = {}"
  shows "markWords b ! i AND v = 0"
  using unmarked_apart [OF assms] by (metis bits_of_empty_iff bits_of_simps(3))

text \<open>Or-ing a mask into a word and adding its bits to the part of the word.\<close>

lemma word_add:
  assumes ok: "counts_ok step b" and sh: "shaped (length (markWords b)) step" and d: "unat d = step"
    and i: "unat i < length (markWords b)" and apart: "word_bits (unat i) v \<inter> marks b = {}"
  shows "\<exists>b1 b'. fetch_or_word i v b = Inr (markWords b ! unat i, b1) \<and> liveBytes b1 = liveBytes b \<and>
    (\<exists>old. fetch_add_part (i div d) (ucast (PopCount v)) b1 = Inr (old, b')) \<and> adds step b (word_bits (unat i) v) b'"
proof -
  let ?ws = "markWords b" and ?ps = "partLiveBytes b"
  let ?c = "of_nat (card (bits_of v)) :: u16"
  have p: "unat i div step < 16" by (rule shaped_part [OF sh i])
  have cast: "ucast (PopCount v) = ?c"
    using le_less_trans [OF card_bits_of, of "2 ^ 64" v]
    by (simp add: PopCount_card unsigned_of_nat take_bit_nat_eq_self)
  from parts_ok_mark [OF _ i p _ _ unmarked_apart [OF i apart]] ok sh
  have "parts_ok step (?ws[unat i := ?ws ! unat i OR v]) (?ps[unat i div step := ?ps ! (unat i div step) + ?c])"
    by (simp add: counts_ok_def shaped_def)
  then have parts: "counts_ok step (b\<lparr>markWords := ?ws[unat i := ?ws ! unat i OR v],
      partLiveBytes := ?ps[unat i div step := ?ps ! (unat i div step) + ?c]\<rparr>)" (is "counts_ok step ?b'")
    by (simp add: counts_ok_def)
  let ?b1 = "b\<lparr>markWords := ?ws[unat i := ?ws ! unat i OR v]\<rparr>"
  have "fetch_or_word i v b = Inr (?ws ! unat i, ?b1)" using i by (simp add: fetch_or_word_def load_word_def)
  moreover have "fetch_add_part (i div d) (ucast (PopCount v)) ?b1 = Inr (?ps ! (unat i div step), ?b')"
    using p ok d by (simp add: fetch_add_part_def unat_div cast counts_ok_def parts_ok_def Let_def)
  moreover have "adds step b (word_bits (unat i) v) ?b'"
    using parts i by (simp add: adds_def marked_update)
  moreover have "liveBytes ?b1 = liveBytes b" by simp
  ultimately have "fetch_or_word i v b = Inr (?ws ! unat i, ?b1) \<and> liveBytes ?b1 = liveBytes b \<and>
      (\<exists>old. fetch_add_part (i div d) (ucast (PopCount v)) ?b1 = Inr (old, ?b')) \<and>
      adds step b (word_bits (unat i) v) ?b'" by blast
  then show ?thesis by (rule exI [of _ ?b1, OF exI [of _ ?b']])
qed

lemma bits_of_minus_one: "bits_of (- 1) = {..<64}"
  by (auto simp: bits_of_def bit_simps)

lemma word_bits_full: "word_bits i (- 1) = {64 * i ..< 64 * Suc i}"
proof (rule set_eqI)
  fix m
  have "m div 64 = i \<longleftrightarrow> m \<in> {64 * i ..< 64 * Suc i}"
    using div_nat_eqI [of 64 i m] times_div_less_eq_dividend [of 64 m] dividend_less_times_div [of 64 m]
    by auto
  then show "m \<in> word_bits i (- 1) \<longleftrightarrow> m \<in> {64 * i ..< 64 * Suc i}" by (simp add: word_bits_iff)
qed

lemma PopCount_full: "ucast (PopCount (- 1)) = (64 :: u16)"
  by (simp add: PopCount_card bits_of_minus_one)

text \<open>The loops over the whole words of the tail.\<close>

lemma tail_loop_adds:
  assumes "counts_ok step b" and "shaped (length (markWords b)) step" and "unat d = step"
    and "unat idx + k \<le> length (markWords b)" and "length (markWords b) < 2 ^ 32"
    and "{64 * unat idx ..< 64 * (unat idx + k)} \<inter> marks b = {}"
    and "if inclusive then unat lastIdx + 1 = unat idx + k else unat lastIdx = unat idx + k"
  shows "\<exists>b'. tail_loop debug inclusive d lastIdx idx b = Some (Inr b') \<and>
    adds step b {64 * unat idx ..< 64 * (unat idx + k)} b'"
  using assms
proof (induction k arbitrary: idx b)
  case 0
  then have "\<not> (if inclusive then idx \<le> lastIdx else idx < lastIdx)"
    by (auto simp: word_le_nat_alt word_less_nat_alt)
  then show ?case using "0.prems"(1) by (simp add: tail_loop.simps [of _ _ _ _ idx] adds_refl)
next
  case (Suc k)
  have go: "if inclusive then idx \<le> lastIdx else idx < lastIdx"
    using Suc.prems(7) by (auto simp: word_le_nat_alt word_less_nat_alt split: if_splits)
  have i: "unat idx < length (markWords b)" using Suc.prems(4) by simp
  have "{64 * unat idx ..< 64 * Suc (unat idx)} \<subseteq> {64 * unat idx ..< 64 * (unat idx + Suc k)}" by auto
  then have apart: "word_bits (unat idx) (- 1) \<inter> marks b = {}" using Suc.prems(6) unfolding word_bits_full by blast
  from word_add [OF Suc.prems(1-3) i this] obtain b1 b' old where
    b': "fetch_or_word idx (- 1) b = Inr (markWords b ! unat idx, b1)"
      "fetch_add_part (idx div d) (ucast (PopCount (- 1))) b1 = Inr (old, b')"
      "adds step b {64 * unat idx ..< 64 * Suc (unat idx)} b'" by (auto simp: word_bits_full)
  have zero: "markWords b ! unat idx = 0" using unmarked_and_zero [OF i apart] by simp
  have next_idx: "unat (idx + 1) = unat idx + 1"
    using unat_add_offset [of idx 1] i Suc.prems(5) by simp
  have sub: "{64 * unat (idx + 1) ..< 64 * (unat (idx + 1) + k)} \<inter> marks b' = {}"
  proof -
    have "{64 * unat (idx + 1) ..< 64 * (unat (idx + 1) + k)} \<subseteq> {64 * unat idx ..< 64 * (unat idx + Suc k)}"
      by (auto simp: next_idx)
    moreover have "{64 * unat (idx + 1) ..< 64 * (unat (idx + 1) + k)} \<inter> {64 * unat idx ..< 64 * Suc (unat idx)} = {}"
      by (auto simp: next_idx)
    moreover have "marks b' = marks b \<union> {64 * unat idx ..< 64 * Suc (unat idx)}" using b'(3) by (simp add: adds_def)
    ultimately show ?thesis using Suc.prems(6) by blast
  qed
  have "\<exists>b''. tail_loop debug inclusive d lastIdx (idx + 1) b' = Some (Inr b'') \<and>
      adds step b' {64 * unat (idx + 1) ..< 64 * (unat (idx + 1) + k)} b''"
    using Suc.prems b'(3) by (intro Suc.IH sub) (simp_all add: adds_def next_idx split: if_splits)
  then obtain b'' where rest: "tail_loop debug inclusive d lastIdx (idx + 1) b' = Some (Inr b'')"
    "adds step b' {64 * unat (idx + 1) ..< 64 * (unat (idx + 1) + k)} b''" by blast
  have "{64 * unat idx ..< 64 * (unat idx + Suc k)} =
      {64 * unat idx ..< 64 * Suc (unat idx)} \<union> {64 * unat (idx + 1) ..< 64 * (unat (idx + 1) + k)}"
    by (auto simp: next_idx)
  with adds_trans [OF b'(3) rest(2)] have "adds step b {64 * unat idx ..< 64 * (unat idx + Suc k)} b''" by simp
  moreover have "tail_loop debug inclusive d lastIdx idx b = Some (Inr b'')"
    using go b'(1,2) rest(1) zero by (simp add: tail_loop.simps [of _ _ _ _ idx] CheckZero_def PopCount_full)
  ultimately show ?case by blast
qed

section \<open>Masks and parts\<close>

lemma bits_of_mask: "k \<le> 64 \<Longrightarrow> bits_of (mask k) = {..<k}"
  by (auto simp: bits_of_def bit_simps)

lemma wrappingShl_one: "unat s < 64 \<Longrightarrow> wrappingShl 1 s - 1 = mask (unat s)"
  by (simp add: wrappingShl_def unat_mod mask_eq_exp_minus_1)

lemma bits_of_high: "s < 64 \<Longrightarrow> bits_of ((- 1) XOR mask s) = {s ..< 64}"
  by (auto simp: bits_of_def bit_simps)

lemma bits_of_middle: "s \<le> e \<Longrightarrow> e < 64 \<Longrightarrow> bits_of (push_bit s (drop_bit s (mask e))) = {s ..< e}"
  by (auto simp: bits_of_def bit_simps)

lemma word_bits_range: "bits_of w = {x ..< y} \<Longrightarrow> word_bits h w = {64 * h + x ..< 64 * h + y}"
  by (simp add: word_bits_def add.commute)

definition step_of :: "nat \<Rightarrow> nat" where
  "step_of n = (if n < 16 then 1 else (n + 15) div 16)"

lemma shaped_step_of: "n \<le> 16368 \<Longrightarrow> shaped n (step_of n)"
  by (auto simp: shaped_def step_of_def)

lemma part_step_eq:
  assumes "unat regionSize div 512 = n" and "0 < n" and "n \<le> 16368"
  shows "\<exists>d. part_step regionSize = Inr d \<and> unat d = step_of n"
proof -
  define m where "m = regionSize div 512"
  have m: "unat m = n" using assms(1) by (simp add: m_def unat_div)
  have ps: "part_step regionSize = (let calFactor = (if m < 16 then m else 16) in
      if calFactor = 0 then Inl Trap
      else Inr ((if m mod calFactor \<noteq> 0 then m + (calFactor - m mod calFactor) else m) div calFactor))"
    by (simp add: part_step_def bitmap_consts m_def Let_def)
  show ?thesis
  proof (cases "n < 16")
    case True
    then have "m < 16" "m \<noteq> 0" "m div m = 1" "m mod m = 0"
      using m assms(2) by (auto simp: word_less_nat_alt word_unat_eq_iff unat_div unat_mod)
    then show ?thesis using True by (simp add: ps Let_def step_of_def)
  next
    case False
    then have "\<not> m < 16" using m by (simp add: word_less_nat_alt)
    then have eq: "part_step regionSize = Inr ((if m mod 16 \<noteq> 0 then m + (16 - m mod 16) else m) div 16)"
      by (simp add: ps Let_def)
    have r: "unat (m mod 16) = n mod 16" using m by (simp add: unat_mod)
    have "m mod 16 \<le> 16" using r by (simp add: word_le_nat_alt)
    then have s: "unat (16 - m mod 16) = 16 - n mod 16" using r by (simp add: unat_sub)
    have up: "unat (m + (16 - m mod 16)) = n + (16 - n mod 16)"
      using m s assms(3) by (simp add: unat_word_ariths)
    have zero: "m mod 16 = 0 \<longleftrightarrow> n mod 16 = 0" using r by (metis unat_0 unat_eq_zero)
    have split: "16 * (n div 16) + n mod 16 = n" "n mod 16 < 16" by simp_all
    show ?thesis
    proof (cases "n mod 16 = 0")
      case True
      then have "(n + 15) div 16 = n div 16" using split by (intro div_nat_eqI) simp_all
      then show ?thesis using m False zero True by (simp add: eq step_of_def unat_div)
    next
      case nz: False
      have "q * 16 + r + (16 - r) = 16 * (q + 1)" if "r < 16" for q r :: nat using that by simp
      from this [of "n mod 16" "n div 16"] split
      have "n + (16 - n mod 16) = 16 * (n div 16 + 1)" by (simp only: mult.commute)
      moreover have "16 * (n div 16) < n" "n < 16 * (n div 16) + 16"
        using nz split by (metis less_add_same_cancel1 neq0_conv, metis nat_add_left_cancel_less)
      then have "(n + 15) div 16 = n div 16 + 1" by (intro div_nat_eqI) simp_all
      ultimately show ?thesis using m False zero nz up by (simp add: eq step_of_def unat_div)
    qed
  qed
qed

section \<open>Marking a range\<close>

text \<open>
  The bits of an object at \<open>start\<close> of \<open>byteCnt\<close> bytes, and what the mask information says of them:
  the head word's share, whole words, and a last share.
\<close>

definition bit_no :: "u64 \<Rightarrow> nat" where
  "bit_no x = unat x div 8"

lemma mask_info:
  fixes start byteCnt :: u64
  defines "i \<equiv> bit_no start" and "k \<equiv> bit_no byteCnt" and "info \<equiv> RegionBitmapGetBitMaskInfo start byteCnt"
  shows "unat (headWordIdx info) = i div 64"
    and "word_bits (i div 64) (headMaskBits info) = {i ..< min (i + k) (64 * Suc (i div 64))}"
    and "i + k \<le> 64 * Suc (i div 64) \<Longrightarrow> tailWordCnt info = 0"
    and "64 * Suc (i div 64) < i + k \<Longrightarrow> unat (tailWordCnt info) = (i + k - 64 * Suc (i div 64) + 63) div 64 \<and>
      lastMaskBits info = mask ((i + k) mod 64)"
proof -
  let ?s = "start div 8 mod 64" and ?m = "byteCnt div 8"
  have s: "unat ?s = i mod 64" by (simp add: i_def bit_no_def unat_div unat_mod)
  have m: "unat ?m = k" by (simp add: k_def bit_no_def unat_div)
  have "unat byteCnt < 2 ^ 64" by (rule less_le_trans [OF unsigned_less]) simp
  then have k61: "k < 2 ^ 61" by (simp add: k_def bit_no_def)
  have s64: "i mod 64 < 64" by simp
  have hb: "unat (64 - ?s) = 64 - i mod 64" using s by (simp add: unat_sub word_le_nat_alt)
  have cond: "64 - ?s \<le> ?m \<longleftrightarrow> 64 - i mod 64 \<le> k" by (simp add: word_le_nat_alt hb m)
  have i_split: "64 * (i div 64) + i mod 64 = i" by simp
  have head: "headWordIdx info = start div 8 div 64"
    by (simp add: info_def RegionBitmapGetBitMaskInfo_def bitmap_consts Let_def)
  then show "unat (headWordIdx info) = i div 64" by (simp add: i_def bit_no_def unat_div)
  have shl: "wrappingShl 1 ?s - 1 = mask (i mod 64)" using wrappingShl_one [of ?s] s by simp
  show "word_bits (i div 64) (headMaskBits info) = {i ..< min (i + k) (64 * Suc (i div 64))}"
  proof (cases "64 - i mod 64 \<le> k")
    case True
    then have "headMaskBits info = (- 1) XOR mask (i mod 64)"
      using cond shl by (simp add: info_def RegionBitmapGetBitMaskInfo_def bitmap_consts Let_def)
    then have "word_bits (i div 64) (headMaskBits info) = {64 * (i div 64) + i mod 64 ..< 64 * (i div 64) + 64}"
      using bits_of_high [OF s64] by (simp add: word_bits_range)
    moreover have "64 * Suc (i div 64) \<le> i + k" using True i_split s64 unfolding mult_Suc_right by linarith
    then have "min (i + k) (64 * Suc (i div 64)) = 64 * (i div 64) + 64" by (simp add: min_absorb2)
    ultimately show ?thesis using i_split by simp
  next
    case False
    have e: "unat (?s + ?m) = i mod 64 + k" using s m False by (simp add: unat_word_ariths)
    then have "wrappingShl 1 (?s + ?m) - 1 = mask (i mod 64 + k)" using wrappingShl_one [of "?s + ?m"] False by simp
    then have "headMaskBits info = push_bit (i mod 64) (drop_bit (i mod 64) (mask (i mod 64 + k)))"
      using cond False s
      by (simp add: info_def RegionBitmapGetBitMaskInfo_def bitmap_consts Let_def wrappingShl_def wrappingShr_def unat_mod)
    then have "word_bits (i div 64) (headMaskBits info) = {64 * (i div 64) + i mod 64 ..< 64 * (i div 64) + (i mod 64 + k)}"
      using bits_of_middle [of "i mod 64" "i mod 64 + k"] False by (simp add: word_bits_range)
    moreover have "i + k \<le> 64 * Suc (i div 64)" using False i_split s64 unfolding mult_Suc_right by linarith
    then have "min (i + k) (64 * Suc (i div 64)) = 64 * (i div 64) + (i mod 64 + k)" using i_split by simp
    ultimately show ?thesis using i_split by simp
  qed
  have t: "unat (?m - (64 - ?s)) = k - (64 - i mod 64)" if "64 - i mod 64 \<le> k"
    using that cond hb m by (simp add: unat_sub)
  show "tailWordCnt info = 0" if le: "i + k \<le> 64 * Suc (i div 64)"
  proof (cases "64 - i mod 64 \<le> k")
    case True
    moreover have "k \<le> 64 - i mod 64" using le i_split s64 unfolding mult_Suc_right by linarith
    ultimately have "?m - (64 - ?s) = 0" using t by (simp add: unat_eq_zero [symmetric] del: unat_eq_zero)
    then show ?thesis using cond True by (simp add: info_def RegionBitmapGetBitMaskInfo_def bitmap_consts Let_def)
  next
    case False
    then show ?thesis using cond by (simp add: info_def RegionBitmapGetBitMaskInfo_def bitmap_consts Let_def)
  qed
  assume gt: "64 * Suc (i div 64) < i + k"
  then have gt': "64 * (i div 64) + 64 < i + k" by simp
  with i_split s64 have le: "64 - i mod 64 \<le> k" by linarith
  have "k - (64 - i mod 64) = i + k - (64 * (i div 64) + 64)" using i_split s64 le by linarith
  then have tt: "k - (64 - i mod 64) = i + k - 64 * Suc (i div 64)" by simp
  have "unat (?m - (64 - ?s) + of_nat 63) = k - (64 - i mod 64) + 63"
    using t [OF le] k61 by (subst unat_add_offset) simp_all
  then have "unat ((?m - (64 - ?s) + 64 - 1) div 64) = (i + k - 64 * Suc (i div 64) + 63) div 64"
    using tt by (simp add: unat_div)
  moreover have "(i + k - 64 * Suc (i div 64)) mod 64 = (i + k) mod 64"
    using gt mod_mult_self2 [of "i + k - 64 * Suc (i div 64)" 64 "Suc (i div 64)"] by (simp del: mod_mult_self2)
  then have "unat ((?m - (64 - ?s)) mod 64) = (i + k) mod 64"
    using t [OF le] tt by (simp add: unat_mod)
  then have "wrappingShl 1 ((?m - (64 - ?s)) mod 64) - 1 = mask ((i + k) mod 64)"
    using wrappingShl_one [of "(?m - (64 - ?s)) mod 64"] by simp
  ultimately show "unat (tailWordCnt info) = (i + k - 64 * Suc (i div 64) + 63) div 64 \<and>
      lastMaskBits info = mask ((i + k) mod 64)"
    using cond le by (simp add: info_def RegionBitmapGetBitMaskInfo_def bitmap_consts Let_def)
qed

text \<open>The words after the head: whole ones, and the share of the last.\<close>

lemma apply_tail_adds:
  assumes ok: "counts_ok step b" and sh: "shaped (length (markWords b)) step" and d: "unat d = step"
    and len: "length (markWords b) < 2 ^ 32" and h: "unat (headWordIdx info) = h"
    and e: "64 * Suc h < e" "e \<le> 64 * length (markWords b)"
    and t: "unat (tailWordCnt info) = (e - 64 * Suc h + 63) div 64" and l: "lastMaskBits info = mask (e mod 64)"
    and free: "{64 * Suc h ..< e} \<inter> marks b = {}"
  shows "\<exists>b'. apply_tail debug info d b = Some (Inr b') \<and> adds step b {64 * Suc h ..< e} b'"
proof -
  define q r where "q = e div 64" and "r = e mod 64"
  have qr: "e = 64 * q + r" "r < 64" by (simp_all add: q_def r_def)
  have lm: "lastMaskBits info = mask r" using l by (simp add: r_def)
  then have lb0: "bits_of (lastMaskBits info) = {0 ..< r}" using bits_of_mask [of r] qr(2) by (simp add: atLeast0LessThan)
  have hq: "Suc h \<le> q" using e(1) qr by simp
  have ql: "q \<le> length (markWords b)" "0 < r \<Longrightarrow> q < length (markWords b)" using e(2) qr by simp_all
  define last where "last = headWordIdx info + tailWordCnt info"
  have tail: "unat (tailWordCnt info) = (if r = 0 then q - Suc h else q - h)"
  proof -
    have "e - 64 * Suc h + 63 = 64 * (q - Suc h) + (r + 63)" using qr hq by (simp add: diff_mult_distrib2)
    then have "unat (tailWordCnt info) = q - Suc h + (r + 63) div 64" using t by simp
    moreover have "(r + 63) div 64 = (if r = 0 then 0 else 1)" using qr(2) by (auto intro!: div_nat_eqI)
    ultimately show ?thesis using hq by auto
  qed
  have pos: "0 < tailWordCnt info" using tail hq e(1) qr by (auto simp: word_gt_0_no unat_gt_0 word_neq_0_conv [symmetric] split: if_splits)
  have last: "unat last = (if r = 0 then q - 1 else q)"
    using tail h hq ql len by (simp add: last_def unat_word_ariths split: if_splits)
  have next_idx: "unat (headWordIdx info + 1) = Suc h"
    using h hq ql len by (simp add: unat_word_ariths)
  show ?thesis
  proof (cases "r = 0")
    case True
    then have "lastMaskBits info = 0" using lm by simp
    then have "apply_tail debug info d b = tail_loop debug True d last (headWordIdx info + 1) b"
      using pos by (simp add: apply_tail_def last_def Let_def)
    moreover have "\<exists>b'. tail_loop debug True d last (headWordIdx info + 1) b = Some (Inr b') \<and>
      adds step b {64 * unat (headWordIdx info + 1) ..< 64 * (unat (headWordIdx info + 1) + (q - Suc h))} b'"
      using True qr hq ql free next_idx last len by (intro tail_loop_adds [OF ok sh d]) simp_all
    ultimately show ?thesis using True qr hq next_idx by simp
  next
    case False
    then have nz: "lastMaskBits info \<noteq> 0" using lb0 by auto
    have sub: "{64 * Suc h ..< 64 * q} \<subseteq> {64 * Suc h ..< e}" "{64 * q ..< e} \<subseteq> {64 * Suc h ..< e}"
      and apart: "{64 * Suc h ..< 64 * q} \<inter> {64 * q ..< e} = {}"
      and un: "{64 * Suc h ..< 64 * q} \<union> {64 * q ..< e} = {64 * Suc h ..< e}"
      using qr hq by auto
    have "\<exists>b'. tail_loop debug False d last (headWordIdx info + 1) b = Some (Inr b') \<and>
      adds step b {64 * unat (headWordIdx info + 1) ..< 64 * (unat (headWordIdx info + 1) + (q - Suc h))} b'"
    proof (rule tail_loop_adds [OF ok sh d _ len])
      show "unat (headWordIdx info + 1) + (q - Suc h) \<le> length (markWords b)" using next_idx hq ql(1) by simp
      have "{64 * Suc h ..< 64 * q} \<inter> marks b = {}" using free sub(1) by blast
      then show "{64 * unat (headWordIdx info + 1) ..< 64 * (unat (headWordIdx info + 1) + (q - Suc h))} \<inter> marks b = {}"
        unfolding next_idx le_add_diff_inverse [OF hq] .
      show "if False then unat last + 1 = unat (headWordIdx info + 1) + (q - Suc h)
        else unat last = unat (headWordIdx info + 1) + (q - Suc h)"
        using last False unfolding next_idx le_add_diff_inverse [OF hq] by simp
    qed
    then obtain b1 where b1: "tail_loop debug False d last (headWordIdx info + 1) b = Some (Inr b1)"
      "adds step b {64 * Suc h ..< 64 * q} b1" unfolding next_idx le_add_diff_inverse [OF hq] by blast
    have lb: "word_bits q (lastMaskBits info) = {64 * q ..< e}"
      using word_bits_range [OF lb0, of q] qr(1) by simp
    have "\<exists>b2 b3. fetch_or_word last (lastMaskBits info) b1 = Inr (markWords b1 ! unat last, b2) \<and> liveBytes b2 = liveBytes b1 \<and>
      (\<exists>old. fetch_add_part (last div d) (ucast (PopCount (lastMaskBits info))) b2 = Inr (old, b3)) \<and>
      adds step b1 (word_bits (unat last) (lastMaskBits info)) b3"
    proof (rule word_add [OF _ _ d])
      show "counts_ok step b1" "shaped (length (markWords b1)) step" "unat last < length (markWords b1)"
        using b1(2) sh last False ql by (simp_all add: adds_def)
      have "marks b1 = marks b \<union> {64 * Suc h ..< 64 * q}" using b1(2) by (simp add: adds_def)
      moreover have "word_bits (unat last) (lastMaskBits info) = {64 * q ..< e}" using lb last False by simp
      ultimately show "word_bits (unat last) (lastMaskBits info) \<inter> marks b1 = {}"
        using free sub(2) apart by blast
    qed
    then obtain b2 b3 old where b3: "fetch_or_word last (lastMaskBits info) b1 = Inr (markWords b1 ! unat last, b2)"
      "fetch_add_part (last div d) (ucast (PopCount (lastMaskBits info))) b2 = Inr (old, b3)"
      "adds step b1 {64 * q ..< e} b3" using lb last False by auto
    have "apply_tail debug info d b = Some (Inr b3)"
      using nz pos b1(1) b3(1,2) by (simp add: apply_tail_def last_def [symmetric] Let_def)
    moreover have "adds step b {64 * Suc h ..< e} b3" using adds_trans [OF b1(2) b3(3)] un by simp
    ultimately show ?thesis by blast
  qed
qed

section \<open>The invariant and what keeps it\<close>

text \<open>
  A region of \<open>512 * n\<close> bytes and more has \<open>n\<close> words. The live bytes are those of the marked bits, and
  the parts count them.
\<close>

definition bitmap_ok :: "u64 \<Rightarrow> region_bitmap \<Rightarrow> bool" where
  "bitmap_ok regionSize b \<longleftrightarrow>
     (let n = unat regionSize div 512
      in 0 < n \<and> n \<le> 16368 \<and> length (markWords b) = n \<and> unat (wordCnt b) = n \<and>
         counts_ok (step_of n) b \<and> unat (liveBytes b) = 8 * card (marks b))"

lemma card_marks: "card (marked_bits ws) \<le> 64 * length ws"
  using card_mono [of "{..<64 * length ws}" "marked_bits ws"] marked_below by auto

lemma bitmap_ok_dest:
  assumes ok: "bitmap_ok regionSize b" and n: "length (markWords b) = n"
  obtains d where "unat regionSize div 512 = n" and "0 < n" and "n \<le> 16368" and "unat (wordCnt b) = n"
    and "counts_ok (step_of n) b" and "shaped n (step_of n)" and "part_step regionSize = Inr d"
    and "unat d = step_of n" and "unat (liveBytes b) = 8 * card (marks b)"
proof -
  have f: "unat regionSize div 512 = n" "0 < n" "n \<le> 16368" "unat (wordCnt b) = n"
    "counts_ok (step_of n) b" "unat (liveBytes b) = 8 * card (marks b)"
    using ok n by (simp_all add: bitmap_ok_def Let_def)
  from part_step_eq [OF f(1-3)] obtain d where "part_step regionSize = Inr d" "unat d = step_of n" by blast
  then show thesis using f shaped_step_of [OF f(3)] by (intro that)
qed

text \<open>The load and the \<open>fetch_or\<close> of the head word decide whether an object is marked.\<close>

lemma marked_head:
  assumes "unat (headWordIdx info) < length (markWords b)"
    and "word_bits (unat (headWordIdx info)) (headMaskBits info) \<inter> marks b \<noteq> {}"
  shows "RegionBitmapApplyBitMaskInfo debug info byteCnt regionSize b = Some (Inr (True, b))"
proof -
  from assms(2) obtain m where "m \<in> word_bits (unat (headWordIdx info)) (headMaskBits info)" "m \<in> marks b" by blast
  then have "m mod 64 \<in> bits_of (markWords b ! unat (headWordIdx info) AND headMaskBits info)"
    by (auto simp: marked_iff word_bits_iff bits_of_def bit_simps)
  then have "markWords b ! unat (headWordIdx info) AND headMaskBits info \<noteq> 0"
    using bits_of_empty_iff by (metis empty_iff)
  then show ?thesis using assms(1) by (simp add: RegionBitmapApplyBitMaskInfo_def load_word_def)
qed

lemma marks_unmarked:
  assumes ok: "bitmap_ok regionSize b" and bytes: "8 dvd unat byteCnt" "8 \<le> unat byteCnt"
    and i: "i = bit_no start" and k: "k = bit_no byteCnt"
    and inside: "i + k \<le> 64 * length (markWords b)" and free: "{i ..< i + k} \<inter> marks b = {}"
  shows "\<exists>b'. RegionBitmapMarkBits debug start byteCnt regionSize b = Some (Inr (False, b')) \<and>
    bitmap_ok regionSize b' \<and> marks b' = marks b \<union> {i ..< i + k}"
proof -
  define info where "info = RegionBitmapGetBitMaskInfo start byteCnt"
  obtain n where len: "length (markWords b) = n" by simp
  have kpos: "0 < k" and byteCnt: "unat byteCnt = 8 * k" using bytes by (auto simp: k bit_no_def)
  from bitmap_ok_dest [OF ok len] obtain d where n: "unat regionSize div 512 = n" "0 < n" "n \<le> 16368" "unat (wordCnt b) = n"
    and c: "counts_ok (step_of n) b" and sh: "shaped n (step_of n)" and d: "part_step regionSize = Inr d" "unat d = step_of n"
    and live: "unat (liveBytes b) = 8 * card (marks b)" by blast
  let ?h = "i div 64" and ?e = "min (i + k) (64 * Suc (i div 64))"
  note info = mask_info [of start byteCnt, folded i k info_def]
  have i_split: "64 * ?h \<le> i" "i < 64 * Suc ?h"
    using times_div_less_eq_dividend [of 64 i] dividend_less_times_div [of 64 i] by simp_all
  have h: "unat (headWordIdx info) < length (markWords b)" using info(1) inside kpos i_split by simp
  have hb: "word_bits (unat (headWordIdx info)) (headMaskBits info) = {i ..< ?e}" using info(1,2) by simp
  have sub: "{i ..< ?e} \<subseteq> {i ..< i + k}" by auto
  with free hb have apart: "word_bits (unat (headWordIdx info)) (headMaskBits info) \<inter> marks b = {}" by blast
  have zero: "markWords b ! unat (headWordIdx info) AND headMaskBits info = 0" by (rule unmarked_and_zero [OF h apart])
  from word_add [OF c _ d(2) h apart] sh len obtain b1 b2 old where
    b2: "fetch_or_word (headWordIdx info) (headMaskBits info) b = Inr (markWords b ! unat (headWordIdx info), b1)"
      "fetch_add_part (headWordIdx info div d) (ucast (PopCount (headMaskBits info))) b1 = Inr (old, b2)"
      "adds (step_of n) b {i ..< ?e} b2" by (auto simp: hb)
  let ?b3 = "b2\<lparr>liveBytes := liveBytes b2 + byteCnt\<rparr>"
  have b3: "counts_ok (step_of n) ?b3" "marks ?b3 = marks b \<union> {i ..< ?e}" "length (markWords ?b3) = n"
    "wordCnt ?b3 = wordCnt b" "liveBytes ?b3 = liveBytes b + byteCnt"
    using b2(3) len by (simp_all add: adds_def counts_ok_def)
  have "\<exists>b'. apply_tail debug info d ?b3 = Some (Inr b') \<and> adds (step_of n) ?b3 {?e ..< i + k} b'"
  proof (cases "i + k \<le> 64 * Suc ?h")
    case True
    then show ?thesis using info(3) adds_refl [OF b3(1)] by (simp add: apply_tail_def)
  next
    case False
    then have e: "?e = 64 * Suc ?h" "64 * Suc ?h < i + k" by simp_all
    have "{64 * Suc ?h ..< i + k} \<subseteq> {i ..< i + k}" "{64 * Suc ?h ..< i + k} \<inter> {i ..< ?e} = {}"
      using i_split by auto
    then have "{64 * Suc ?h ..< i + k} \<inter> marks ?b3 = {}" using free unfolding b3(2) by blast
    then have "\<exists>b'. apply_tail debug info d ?b3 = Some (Inr b') \<and> adds (step_of n) ?b3 {64 * Suc ?h ..< i + k} b'"
      using info(4) [OF e(2)] e(2) inside sh len b3(1,3) d(2) info(1) n(3)
      by (intro apply_tail_adds) simp_all
    then show ?thesis by (simp only: e(1))
  qed
  then obtain b' where b': "apply_tail debug info d ?b3 = Some (Inr b')" "adds (step_of n) ?b3 {?e ..< i + k} b'" by blast
  have "{i ..< ?e} \<union> {?e ..< i + k} = {i ..< i + k}" using i_split by auto
  then have m: "marks b' = marks b \<union> {i ..< i + k}" using b'(2) b3(2) by (auto simp: adds_def)
  have "RegionBitmapMarkBits debug start byteCnt regionSize b = Some (Inr (False, b'))"
    using h zero b2(1,2) d(1) b'(1)
    by (simp add: RegionBitmapMarkBits_def RegionBitmapApplyBitMaskInfo_def info_def [symmetric] load_word_def)
  moreover have "bitmap_ok regionSize b'"
  proof -
    have card: "card (marks b') = card (marks b) + k" using m free by (simp add: card_Un_disjoint Int_commute)
    have "card (marks b') \<le> 64 * n" using card_marks [of "markWords b'"] b'(2) b3(3) by (simp add: adds_def)
    then have "unat (liveBytes b') = 8 * card (marks b')"
      using b'(2) b3(5) live byteCnt card n(3) by (simp add: adds_def unat_word_ariths)
    then show ?thesis using n b'(2) b3 by (simp add: bitmap_ok_def adds_def Let_def)
  qed
  ultimately show ?thesis using m by blast
qed

text \<open>A freshly constructed bitmap over zeroed memory.\<close>

lemma construct_ok:
  assumes "0 < unat regionSize div 512" and "unat regionSize div 512 \<le> 16368"
    and "markWords b = replicate (unat regionSize div 512) 0" and "partLiveBytes b = replicate 16 0"
  shows "bitmap_ok regionSize (RegionBitmapConstruct regionSize b)" and "marks (RegionBitmapConstruct regionSize b) = {}"
proof -
  have none: "marks (RegionBitmapConstruct regionSize b) = {}"
    using assms by (auto simp: RegionBitmapConstruct_def marked_bits_def)
  have "live_bits (replicate (unat regionSize div 512) 0) lo hi = 0" if "hi \<le> unat regionSize div 512" for lo hi
    using that by (simp add: live_bits_def)
  then have "counts_ok (step_of (unat regionSize div 512)) (RegionBitmapConstruct regionSize b)"
    using assms by (simp add: counts_ok_def parts_ok_def RegionBitmapConstruct_def)
  then show "bitmap_ok regionSize (RegionBitmapConstruct regionSize b)"
    using assms none by (simp add: bitmap_ok_def RegionBitmapConstruct_def bitmap_consts unat_div)
  show "marks (RegionBitmapConstruct regionSize b) = {}" by (rule none)
qed

lemma is_marked:
  assumes "bit_no start < 64 * length (markWords b)"
  shows "RegionBitmapIsMarked start b = Inr (bit_no start \<in> marks b)"
proof -
  have i: "unat (start div 8 div 64) = bit_no start div 64" and n: "unat (start div 8 mod 64) = bit_no start mod 64"
    by (simp_all add: bit_no_def unat_div unat_mod)
  have "wrappingShl 1 (start div 8 mod 64) = (2 :: u64) ^ (bit_no start mod 64)"
    using n by (simp add: wrappingShl_def unat_mod)
  then have "w AND wrappingShl 1 (start div 8 mod 64) \<noteq> 0 \<longleftrightarrow> bit w (bit_no start mod 64)" for w :: u64
    by (simp add: and_exp_eq_0_iff_not_bit)
  then show ?thesis
    using assms i by (simp add: RegionBitmapIsMarked_def load_word_def bitmap_consts marked_bits_def Let_def)
qed

section \<open>Counting live bytes\<close>

lemma PopCount_add: "of_nat x + PopCount w = of_nat (x + card (bits_of w))"
  by (simp add: PopCount_card)

lemma recompute_loop_live:
  assumes "length (markWords b) = n" and "n < 2 ^ 32" and "unat cnt = n" and "unat index \<le> n"
  shows "recompute_loop b cnt index (of_nat x) = Inr (of_nat (x + live_bits (markWords b) (unat index) n))"
  using assms(4)
proof (induction "n - unat index" arbitrary: index x)
  case 0
  then have "\<not> index < cnt" using assms(3) by (simp add: word_less_nat_alt)
  then show ?case using 0 by (simp add: recompute_loop.simps [of b cnt index] live_bits_def)
next
  case (Suc m)
  then have less: "index < cnt" "unat index < n" using assms(3) by (simp_all add: word_less_nat_alt)
  have next_idx: "unat (index + 1) = unat index + 1" using less(2) assms(2) by (simp add: unat_word_ariths)
  have "recompute_loop b cnt (index + 1) (of_nat (x + card (bits_of (markWords b ! unat index)))) =
      Inr (of_nat (x + card (bits_of (markWords b ! unat index)) + live_bits (markWords b) (unat index + 1) n))"
    using Suc.hyps(1) [of "index + 1" "x + card (bits_of (markWords b ! unat index))"] Suc.hyps(2) next_idx less(2)
    by simp
  moreover have "live_bits (markWords b) (unat index) n =
      card (bits_of (markWords b ! unat index)) + live_bits (markWords b) (unat index + 1) n"
    using less(2) by (simp add: live_bits_def sum.atLeast_Suc_lessThan)
  ultimately show ?case
    using less assms(1) by (simp add: recompute_loop.simps [of b cnt index] load_word_def PopCount_card add.assoc)
qed

lemma live_bits_all: "live_bits ws 0 (length ws) = card (marked_bits ws)"
proof -
  have "{m \<in> marked_bits ws. 64 * 0 \<le> m \<and> m < 64 * length ws} = marked_bits ws" by (auto dest: marked_below)
  then show ?thesis using card_marked_range [of 0 "length ws" ws] by simp
qed

lemma recompute_live:
  assumes ok: "bitmap_ok regionSize b"
  shows "RegionBitmapRecomputeLiveBytes b = Inr (RegionBitmapGetLiveBytes b)"
proof -
  obtain n where len: "length (markWords b) = n" by simp
  from bitmap_ok_dest [OF ok len] have n: "n \<le> 16368" "unat (wordCnt b) = n"
    and live: "unat (liveBytes b) = 8 * card (marks b)" by blast+
  have "recompute_loop b (wordCnt b) 0 0 = Inr (of_nat (card (marks b)))"
    using recompute_loop_live [of b n "wordCnt b" 0 0] len n live_bits_all [of "markWords b"] by simp
  moreover have "liveBytes b = of_nat (card (marks b)) * 8"
    using live by (metis mult.commute of_nat_mult of_nat_numeral of_nat_unat ucast_id)
  ultimately show ?thesis
    by (simp add: RegionBitmapRecomputeLiveBytes_def RegionBitmapGetLiveBytes_def bitmap_consts)
qed

text \<open>The live bytes before an offset: the parts before its word, the words since, and its bits.\<close>

lemma pre_part_loop_eq:
  assumes "0 < unat step"
  shows "pre_part_loop step part remaining = Some (part + of_nat (unat remaining div unat step))"
proof (induction "unat remaining" arbitrary: part remaining rule: less_induct)
  case less
  show ?case
  proof (cases "step \<le> remaining")
    case True
    then have sub: "unat (remaining - step) = unat remaining - unat step" and le: "unat step \<le> unat remaining"
      by (simp_all add: unat_sub word_le_nat_alt)
    then have "pre_part_loop step (part + 1) (remaining - step) =
        Some (part + 1 + of_nat ((unat remaining - unat step) div unat step))"
      using less.hyps [of "remaining - step" "part + 1"] assms by simp
    then show ?thesis using True le assms
      by (simp add: pre_part_loop.simps [of step part remaining] le_div_geq)
  next
    case False
    then show ?thesis by (simp add: pre_part_loop.simps [of step part remaining] word_le_nat_alt)
  qed
qed

lemma fetch_add_zero:
  "p < 16 \<Longrightarrow> length (partLiveBytes b) = 16 \<Longrightarrow> unat i = p \<Longrightarrow> fetch_add_part i 0 b = Inr (partLiveBytes b ! p, b)"
  by (simp add: fetch_add_part_def)

lemma parts_loop_live:
  assumes ok: "counts_ok step b" and q: "q \<le> 16" "q * step \<le> length (markWords b)" and d: "unat d = step"
  shows "parts_loop b d (of_nat q - 1) (of_nat x) (of_nat y) =
    Inr (of_nat (x + live_bits (markWords b) 0 (q * step)), of_nat (y + q * step))"
  using q
proof (induction q arbitrary: x y)
  case 0
  then show ?case by (simp add: parts_loop.simps [of b d "- 1"] live_bits_def)
next
  case (Suc q)
  let ?p = "of_nat q :: u8"
  have u: "unat ?p = q" using Suc.prems(1) by (simp add: unat_of_nat)
  have "?p \<noteq> - 1" using u Suc.prems(1) unsigned_minus_1_eq_mask [where 'a = nat and 'b = 8]
    by (auto simp: mask_eq_exp_minus_1)
  moreover have "unat (ucast ?p :: u64) = q" using u Suc.prems(1) by (simp add: unsigned_ucast_eq take_bit_nat_eq_self)
  then have "fetch_add_part (ucast ?p) 0 b = Inr (partLiveBytes b ! q, b)"
    using Suc.prems(1) ok by (intro fetch_add_zero) (simp_all add: counts_ok_def parts_ok_def)
  moreover have "unat (partLiveBytes b ! q) = live_bits (markWords b) (q * step) (Suc q * step)"
    using ok Suc.prems by (simp add: counts_ok_def parts_ok_def min_absorb2)
  then have "ucast (partLiveBytes b ! q) = (of_nat (live_bits (markWords b) (q * step) (Suc q * step)) :: u64)"
    by (metis of_nat_unat)
  moreover have "d = of_nat step" using d by (metis ucast_id of_nat_unat)
  moreover have "live_bits (markWords b) 0 (Suc q * step) =
      live_bits (markWords b) 0 (q * step) + live_bits (markWords b) (q * step) (Suc q * step)"
    by (rule live_bits_append) simp_all
  ultimately show ?case
    using Suc.IH [of "x + live_bits (markWords b) (q * step) (Suc q * step)" "y + step"] Suc.prems
    by (simp add: parts_loop.simps [of b "of_nat step" ?p] add_ac)
qed

lemma words_loop_live:
  assumes "0 < lo" and "unat start = lo" and "lo \<le> hi" and "hi < length (markWords b)" and "unat index = hi"
  shows "words_loop index start (of_nat x) b = Some (Inr (of_nat (x + live_bits (markWords b) lo (Suc hi))))"
  using assms(3-5)
proof (induction hi arbitrary: x index rule: nat_induct_at_least)
  case base
  then have "index \<noteq> 0" using assms(1) by auto
  from unat_minus_one_Suc [OF this] have "start \<le> index" "\<not> start \<le> index - 1"
    using assms(2) base by (simp_all add: word_le_nat_alt)
  then show ?case
    using base by (simp add: words_loop.simps [of index] words_loop.simps [of "index - 1"] load_word_def PopCount_card live_bits_def)
next
  case (Suc hi)
  then have "start \<le> index" using assms(2) by (simp add: word_le_nat_alt)
  moreover have "unat (index - 1) = hi" using Suc.prems(2) by (metis diff_Suc_1 nat.simps(3) unat_0 unat_minus_one)
  then have "words_loop (index - 1) start (of_nat (x + card (bits_of (markWords b ! Suc hi)))) b =
      Some (Inr (of_nat (x + card (bits_of (markWords b ! Suc hi)) + live_bits (markWords b) lo (Suc hi))))"
    using Suc.IH [of "index - 1" "x + card (bits_of (markWords b ! Suc hi))"] Suc.prems by simp
  moreover have "live_bits (markWords b) lo (Suc (Suc hi)) = live_bits (markWords b) lo (Suc hi) + card (bits_of (markWords b ! Suc hi))"
    using Suc.hyps by (simp add: live_bits_def)
  ultimately show ?case
    using Suc.prems by (simp add: words_loop.simps [of index] load_word_def PopCount_card add_ac)
qed

text \<open>With a start of 0 the loop cannot end: no \<open>UInt64\<close> is below 0.\<close>

lemma words_loop_wraps:
  assumes "unat index < length (markWords b)" and "length (markWords b) < 2 ^ 32"
  shows "words_loop index 0 x b = Some (Inl OutOfBounds)"
  using assms(1)
proof (induction "unat index" arbitrary: x index)
  case 0
  then have "index = 0" by (simp add: unat_eq_zero)
  moreover have "\<not> unat (- 1 :: u64) < length (markWords b)"
    using assms(2) by (simp add: unsigned_minus_1_eq_mask mask_eq_exp_minus_1)
  ultimately show ?case using 0
    by (simp add: words_loop.simps [of 0] words_loop.simps [of "- 1"] load_word_def)
next
  case (Suc i)
  then have "unat (index - 1) = i" by (metis diff_Suc_1 nat.simps(3) unat_0 unat_minus_one)
  then show ?case using Suc by (simp add: words_loop.simps [of index] load_word_def)
qed

lemma pre_mask_info_eq:
  assumes "unat regionSize div 512 = n" and "0 < n" and "n \<le> 16368"
  shows "\<exists>pm. RegionBitmapGetPreMaskInfo offset regionSize = Some (Inr pm) \<and>
    partIndex pm = of_nat (bit_no offset div 64 div step_of n) - 1 \<and> pmMask pm = mask (bit_no offset mod 64) \<and>
    unat (stepSize pm) = step_of n \<and> unat (pmIndex pm) = bit_no offset div 64"
proof -
  from part_step_eq [OF assms] obtain d where d: "part_step regionSize = Inr d" "unat d = step_of n" by blast
  have idx: "unat (offset div 512) = bit_no offset div 64" by (simp add: bit_no_def unat_div div_mult2_eq [symmetric])
  have "unat (offset div 8 mod 64) = bit_no offset mod 64" by (simp add: bit_no_def unat_div unat_mod)
  then have "wrappingShl 1 (offset div 8 mod 64) - 1 = mask (bit_no offset mod 64)"
    using wrappingShl_one [of "offset div 8 mod 64"] by simp
  moreover have "0 < unat d" using d(2) shaped_step_of [OF assms(3)] by (simp add: shaped_def)
  then have "pre_part_loop d (- 1) (offset div 512) = Some (- 1 + of_nat (bit_no offset div 64 div step_of n))"
    using idx d(2) by (simp add: pre_part_loop_eq)
  ultimately show ?thesis using d idx
    by (simp add: RegionBitmapGetPreMaskInfo_def bitmap_consts Let_def)
qed

text \<open>The marked bits before an offset, cut at the start of its word.\<close>

lemma card_marks_before:
  assumes i: "o' div 64 = i" "i < length ws"
  shows "card {m \<in> marked_bits ws. m < o'} = live_bits ws 0 i + card (bits_of (ws ! i AND mask (o' mod 64)))"
proof -
  have o': "o' = 64 * i + o' mod 64" using i(1) mult_div_mod_eq [of 64 o'] by simp
  have "{m \<in> marked_bits ws. m < o'} = {m \<in> marked_bits ws. 64 * 0 \<le> m \<and> m < 64 * i} \<union> word_bits i (ws ! i AND mask (o' mod 64))"
  proof (rule set_eqI)
    fix m
    have "m < o' \<longleftrightarrow> m < 64 * i \<or> m div 64 = i \<and> m mod 64 < o' mod 64"
    proof (cases "m div 64 = i")
      case True
      then have "m = 64 * i + m mod 64" by auto
      then show ?thesis using True o' by linarith
    next
      case False
      then have "m div 64 < i \<or> i < m div 64" by auto
      moreover have "64 * (m div 64) \<le> m" "m < 64 * (m div 64) + 64" "o' < 64 * i + 64"
        using dividend_less_times_div [of 64 m] dividend_less_times_div [of 64 o'] i by simp_all
      ultimately show ?thesis using o' False by linarith
    qed
    moreover have "m < 64 * i \<Longrightarrow> m div 64 \<noteq> i" by auto
    ultimately show "m \<in> {m \<in> marked_bits ws. m < o'} \<longleftrightarrow>
        m \<in> {m \<in> marked_bits ws. 64 * 0 \<le> m \<and> m < 64 * i} \<union> word_bits i (ws ! i AND mask (o' mod 64))"
      using i(2) by (auto simp: marked_iff word_bits_iff bit_simps)
  qed
  moreover have "{m \<in> marked_bits ws. 64 * 0 \<le> m \<and> m < 64 * i} \<inter> word_bits i (ws ! i AND mask (o' mod 64)) = {}"
    by (auto simp: word_bits_iff)
  moreover have "finite (word_bits i (ws ! i AND mask (o' mod 64)))" by (simp add: word_bits_def)
  ultimately show ?thesis
    using card_marked_range [of 0 i ws] i(2) by (simp add: card_Un_disjoint card_word_bits)
qed

lemma pre_live:
  assumes ok: "bitmap_ok regionSize b" and len: "length (markWords b) = n" and inside: "bit_no offset < 64 * n"
    and pm: "RegionBitmapGetPreMaskInfo offset regionSize = Some (Inr pm)"
  shows "bit_no offset < 64 \<or> 64 * step_of n \<le> bit_no offset \<Longrightarrow>
      RegionBitmapGetPreLiveBytes b pm = Some (Inr (of_nat (8 * card {m \<in> marks b. m < bit_no offset})))"
    and "64 \<le> bit_no offset \<Longrightarrow> bit_no offset < 64 * step_of n \<Longrightarrow>
      RegionBitmapGetPreLiveBytes b pm = Some (Inl OutOfBounds)"
proof -
  from bitmap_ok_dest [OF ok len] have n: "unat regionSize div 512 = n" "0 < n" "n \<le> 16368"
    and c: "counts_ok (step_of n) b" and sh: "shaped n (step_of n)" by blast+
  define i s where "i = bit_no offset div 64" and "s = step_of n"
  define q where "q = i div s * s"
  define w where "w = card (bits_of (markWords b ! i AND mask (bit_no offset mod 64)))"
  note shorts = i_def s_def q_def w_def
  have pm: "partIndex pm = of_nat (i div s) - 1" "pmMask pm = mask (bit_no offset mod 64)"
    "unat (stepSize pm) = s" "unat (pmIndex pm) = i"
    using pre_mask_info_eq [OF n, of offset] pm by (auto simp: shorts)
  have i: "i < n" using inside by (simp add: i_def)
  have q: "i div s \<le> 16" "q \<le> i" using shaped_part [OF sh i] by (simp_all add: s_def q_def)
  have "parts_loop b (stepSize pm) (of_nat (i div s) - 1) (of_nat 0) (of_nat 0) =
      Inr (of_nat (0 + live_bits (markWords b) 0 q), of_nat (0 + q))"
    using c q(1) le_trans [OF q(2), of n] i len pm(3) unfolding q_def by (intro parts_loop_live) (simp_all add: s_def)
  then have parts: "parts_loop b (stepSize pm) (partIndex pm) 0 0 = Inr (of_nat (live_bits (markWords b) 0 q), of_nat q)"
    by (simp add: pm(1))
  have "load_word (pmIndex pm) b = Inr (markWords b ! i)" using pm(4) i len by (simp add: load_word_def)
  with parts have pre: "RegionBitmapGetPreLiveBytes b pm =
      (if pmIndex pm = of_nat q then Some (Inr (of_nat (8 * (live_bits (markWords b) 0 q + w))))
       else map_option (\<lambda>r. and_then r (\<lambda>liveBits. Inr ((of_nat (live_bits (markWords b) 0 q) + liveBits) * 8)))
         (words_loop (pmIndex pm - 1) (of_nat q) (of_nat w) b))"
    by (simp add: RegionBitmapGetPreLiveBytes_def bitmap_consts pm(2) PopCount_card w_def Let_def)
  have "q < 2 ^ LENGTH(64)" by (rule le_less_trans [OF q(2)]) (use i n(3) in simp)
  then have start: "unat (of_nat q :: u64) = q" by (simp only: unat_of_nat mod_less)
  have at_start: "pmIndex pm = of_nat q \<longleftrightarrow> i = q" using start pm(4) by (metis word_unat_eq_iff)
  show "RegionBitmapGetPreLiveBytes b pm = Some (Inr (of_nat (8 * card {m \<in> marks b. m < bit_no offset})))"
    if split: "bit_no offset < 64 \<or> 64 * step_of n \<le> bit_no offset"
  proof -
    have total: "card {m \<in> marks b. m < bit_no offset} = live_bits (markWords b) 0 q + live_bits (markWords b) q i + w"
      using card_marks_before [of "bit_no offset" i "markWords b"] i len live_bits_append [OF _ q(2), of 0 "markWords b"]
      by (simp add: i_def w_def)
    show ?thesis
    proof (cases "i = q")
      case True
      then show ?thesis using total at_start by (simp add: pre live_bits_def)
    next
      case False
      then have "s \<le> i" using split by (auto simp: shorts)
      then have pos: "0 < q" using sh by (simp add: q_def shaped_def div_greater_zero_iff s_def)
      have nz: "pmIndex pm \<noteq> 0" using pm(4) pos q(2) by auto
      have "words_loop (pmIndex pm - 1) (of_nat q) (of_nat w) b =
          Some (Inr (of_nat (w + live_bits (markWords b) q (Suc (i - 1)))))"
        using pos start i len False q(2) pm(4) unat_minus_one_Suc [OF nz] by (intro words_loop_live) simp_all
      moreover have "Suc (i - 1) = i" using pos q(2) by simp
      ultimately show ?thesis using total at_start False by (simp add: pre algebra_simps)
    qed
  qed
  show "RegionBitmapGetPreLiveBytes b pm = Some (Inl OutOfBounds)"
    if first: "64 \<le> bit_no offset" "bit_no offset < 64 * step_of n"
  proof -
    have zero: "q = 0" "0 < i" using first by (simp_all add: shorts)
    then have nz: "pmIndex pm \<noteq> 0" using pm(4) by auto
    then have "unat (pmIndex pm - 1) < length (markWords b)" using unat_minus_one_Suc [OF nz] pm(4) i len by simp
    then have "words_loop (pmIndex pm - 1) 0 (of_nat w) b = Some (Inl OutOfBounds)"
      using n(3) len by (intro words_loop_wraps) simp_all
    then show ?thesis using zero nz by (simp add: pre)
  qed
qed

section \<open>Properties\<close>

text \<open>
  C7. Marking an object that is not marked yet returns false, marks exactly its bits, adds its bytes
  to the live bytes and keeps the counts of the parts right; marking it again returns true and changes nothing.
\<close>

theorem MarkBits_marks_object:
  assumes "bitmap_ok regionSize b" and "8 dvd unat byteCnt" and "8 \<le> unat byteCnt"
    and "bit_no start + bit_no byteCnt \<le> 64 * length (markWords b)"
    and "{bit_no start ..< bit_no start + bit_no byteCnt} \<inter> marks b = {}"
  shows "\<exists>b'. RegionBitmapMarkBits debug start byteCnt regionSize b = Some (Inr (False, b')) \<and>
    bitmap_ok regionSize b' \<and> marks b' = marks b \<union> {bit_no start ..< bit_no start + bit_no byteCnt} \<and>
    unat (RegionBitmapGetLiveBytes b') = unat (RegionBitmapGetLiveBytes b) + unat byteCnt \<and>
    RegionBitmapMarkBits debug start byteCnt regionSize b' = Some (Inr (True, b'))"
proof -
  let ?i = "bit_no start" and ?k = "bit_no byteCnt"
  have k: "0 < ?k" "unat byteCnt = 8 * ?k" using assms(2,3) by (auto simp: bit_no_def)
  from marks_unmarked [OF assms(1-3) refl refl assms(4,5)] obtain b' where
    b': "RegionBitmapMarkBits debug start byteCnt regionSize b = Some (Inr (False, b'))" "bitmap_ok regionSize b'"
      "marks b' = marks b \<union> {?i ..< ?i + ?k}" by blast
  have live: "unat (liveBytes b) = 8 * card (marks b)" "unat (liveBytes b') = 8 * card (marks b')"
    and len: "length (markWords b') = length (markWords b)"
    using assms(1) b'(2) by (simp_all add: bitmap_ok_def Let_def)
  have "card (marks b') = card (marks b) + ?k" using b'(3) assms(5) by (simp add: card_Un_disjoint Int_commute)
  then have bytes: "unat (RegionBitmapGetLiveBytes b') = unat (RegionBitmapGetLiveBytes b) + unat byteCnt"
    using live k by (simp add: RegionBitmapGetLiveBytes_def)
  note info = mask_info [of start byteCnt]
  have "?i \<in> word_bits (?i div 64) (headMaskBits (RegionBitmapGetBitMaskInfo start byteCnt)) \<inter> marks b'"
    using info(2) k(1) dividend_less_times_div [of 64 ?i] b'(3) by simp
  then have "RegionBitmapMarkBits debug start byteCnt regionSize b' = Some (Inr (True, b'))"
    unfolding RegionBitmapMarkBits_def
    using info(1) assms(4) k(1) len by (intro marked_head) (simp_all, blast)
  with b' bytes show ?thesis by blast
qed

text \<open>What the two bitmaps of a region mark, and the live bytes before an offset by them.\<close>

definition bitmaps :: "live_info \<Rightarrow> region_bitmap set" where
  "bitmaps info = set_option (markBitmap info) \<union> set_option (resurrectBitmap info)"

definition bytes_before :: "nat \<Rightarrow> region_bitmap option \<Rightarrow> nat" where
  "bytes_before o' bm = (case bm of None \<Rightarrow> 0 | Some b \<Rightarrow> 8 * card {m \<in> marks b. m < o'})"

lemma pre_live_of_eq:
  assumes ok: "\<And>b. bm = Some b \<Longrightarrow> bitmap_ok regionSize b" and n: "unat regionSize div 512 = n" and inside: "bit_no offset < 64 * n"
    and pm: "RegionBitmapGetPreMaskInfo offset regionSize = Some (Inr pm)"
    and split: "bit_no offset < 64 \<or> 64 * step_of n \<le> bit_no offset"
  shows "pre_live_of bm pm = Some (Inr (of_nat (bytes_before (bit_no offset) bm)))"
proof (cases bm)
  case None
  then show ?thesis by (simp add: pre_live_of_def bytes_before_def)
next
  case (Some b)
  then have "length (markWords b) = n" using ok n by (simp add: bitmap_ok_def Let_def)
  from pre_live(1) [OF ok [OF Some] this inside pm split] show ?thesis
    using Some by (simp add: pre_live_of_def bytes_before_def)
qed

text \<open>
  C31. The live bytes before an offset in the first word, or not in the first part, of a region are
  those of the bits marked before it, in both bitmaps together.
\<close>

theorem LiveInfoGetPreLiveBytes_counts:
  assumes "\<forall>b \<in> bitmaps info. bitmap_ok regionSize b" and "n = unat regionSize div 512" and "0 < n" and "n \<le> 16368"
    and "bit_no offset < 64 * n" and "bit_no offset < 64 \<or> 64 * step_of n \<le> bit_no offset"
  shows "LiveInfoGetPreLiveBytes info offset regionSize =
    Some (Inr (of_nat (bytes_before (bit_no offset) (markBitmap info) + bytes_before (bit_no offset) (resurrectBitmap info))))"
proof -
  from pre_mask_info_eq [OF assms(2) [symmetric] assms(3,4), of offset] obtain pm
    where pm: "RegionBitmapGetPreMaskInfo offset regionSize = Some (Inr pm)" by blast
  have "pre_live_of bm pm = Some (Inr (of_nat (bytes_before (bit_no offset) bm)))" if "set_option bm \<subseteq> bitmaps info" for bm
    using assms(1) that by (intro pre_live_of_eq [OF _ assms(2) [symmetric] assms(5) pm assms(6)]) auto
  then show ?thesis by (simp add: LiveInfoGetPreLiveBytes_def pm bitmaps_def)
qed

text \<open>
  C37. The loop over the words compares unsigned words: for an offset behind the first word of the
  first part it passes 0 and reads outside the bitmap.
\<close>

theorem GetPreLiveBytes_first_part_out_of_bounds:
  assumes "bitmap_ok regionSize b" and "markBitmap info = Some b"
    and "64 \<le> bit_no offset" and "bit_no offset < 64 * step_of (length (markWords b))"
  shows "LiveInfoGetPreLiveBytes info offset regionSize = Some (Inl OutOfBounds)"
proof -
  obtain n where len: "length (markWords b) = n" by simp
  from bitmap_ok_dest [OF assms(1) len] have n: "unat regionSize div 512 = n" "0 < n" "n \<le> 16368" by blast+
  from pre_mask_info_eq [OF n, of offset] obtain pm
    where pm: "RegionBitmapGetPreMaskInfo offset regionSize = Some (Inr pm)" by blast
  have "step_of n \<le> n" using n(2) by (simp add: step_of_def) arith
  then have "bit_no offset < 64 * n" using assms(4) len by simp
  from pre_live(2) [OF assms(1) len this pm] assms(2-4) len show ?thesis
    by (simp add: LiveInfoGetPreLiveBytes_def pm pre_live_of_def)
qed

text \<open>
  Counting the marked bits again gives the live bytes that marking has added up.
\<close>

theorem LiveInfoRecompute_is_GetLiveBytes:
  assumes "\<forall>b \<in> bitmaps info. bitmap_ok regionSize b"
  shows "LiveInfoRecomputeBitmapLiveBytes info = Inr (LiveInfoGetBitmapLiveBytes info)"
proof -
  have "recomputed_of bm = Inr (live_bytes_of bm)" if "set_option bm \<subseteq> bitmaps info" for bm
    using assms that recompute_live by (cases bm) (auto simp: recomputed_of_def live_bytes_of_def)
  then show ?thesis by (simp add: LiveInfoRecomputeBitmapLiveBytes_def LiveInfoGetBitmapLiveBytes_def bitmaps_def)
qed

text \<open>An object survives when one of the two bitmaps marks its first bit.\<close>

lemma LiveInfoIsSurvivedObject_marked:
  assumes "\<forall>b \<in> bitmaps info. bit_no offset < 64 * length (markWords b)"
  shows "LiveInfoIsSurvivedObject info offset = Inr (\<exists>b \<in> bitmaps info. bit_no offset \<in> marks b)"
proof -
  have "marked_in bm offset = Inr (\<exists>b \<in> set_option bm. bit_no offset \<in> marks b)" if "set_option bm \<subseteq> bitmaps info" for bm
    using assms that by (cases bm) (auto simp: marked_in_def is_marked)
  then show ?thesis by (auto simp: LiveInfoIsSurvivedObject_def bitmaps_def)
qed

section \<open>Witnesses\<close>

text \<open>A region of 16 KiB: 32 words in parts of two.\<close>

definition demo_bitmap :: region_bitmap where
  "demo_bitmap = RegionBitmapConstruct 16384
     \<lparr>partLiveBytes = replicate 16 0, liveBytes = 7, wordCnt = 0, markWords = replicate 32 0\<rparr>"

lemma demo_bitmap: "bitmap_ok 16384 demo_bitmap" "marks demo_bitmap = {}" "length (markWords demo_bitmap) = 32"
proof -
  show "bitmap_ok 16384 demo_bitmap" "marks demo_bitmap = {}"
    using construct_ok [of 16384 "\<lparr>partLiveBytes = replicate 16 0, liveBytes = 7, wordCnt = 0, markWords = replicate 32 0\<rparr>"]
    by (simp_all add: demo_bitmap_def)
  show "length (markWords demo_bitmap) = 32" by (simp add: demo_bitmap_def RegionBitmapConstruct_def)
qed

definition demo_live_info :: live_info where
  "demo_live_info = \<lparr>markBitmap = Some demo_bitmap, resurrectBitmap = None\<rparr>"

lemma demo_bitmaps: "bitmaps demo_live_info = {demo_bitmap}"
  by (simp add: bitmaps_def demo_live_info_def)

theorem MarkBits_marks_object_witness:
  "\<exists>b'. RegionBitmapMarkBits True 1000 1600 16384 demo_bitmap = Some (Inr (False, b')) \<and> marks b' = {125 ..< 325}"
  using MarkBits_marks_object [of 16384 demo_bitmap 1600 1000 True] demo_bitmap
  by (auto simp: bit_no_def)

theorem LiveInfoGetPreLiveBytes_counts_witness: "LiveInfoGetPreLiveBytes demo_live_info 1032 16384 = Some (Inr 0)"
  using LiveInfoGetPreLiveBytes_counts [of demo_live_info 16384 32 1032] demo_bitmap demo_bitmaps
  by (simp add: bit_no_def step_of_def bytes_before_def demo_live_info_def)

theorem GetPreLiveBytes_first_part_out_of_bounds_witness:
  "LiveInfoGetPreLiveBytes demo_live_info 520 16384 = Some (Inl OutOfBounds)"
  using GetPreLiveBytes_first_part_out_of_bounds [of 16384 demo_bitmap demo_live_info 520] demo_bitmap
  by (simp add: bit_no_def step_of_def demo_live_info_def)

theorem LiveInfoRecompute_is_GetLiveBytes_witness:
  "LiveInfoRecomputeBitmapLiveBytes demo_live_info = Inr (LiveInfoGetBitmapLiveBytes demo_live_info)"
  using LiveInfoRecompute_is_GetLiveBytes [of demo_live_info 16384] demo_bitmap demo_bitmaps by simp

lemma LiveInfoIsSurvivedObject_demo: "LiveInfoIsSurvivedObject demo_live_info 1032 = Inr False"
  using LiveInfoIsSurvivedObject_marked [of demo_live_info 1032] demo_bitmap demo_bitmaps by (simp add: bit_no_def)

end
