(* ===== verification/CartesianTree.thy ===== *)
theory CartesianTree
  imports Prelude
begin

text \<open>
  The tree of free units, \<^verbatim>\<open>src/rt.heap.allocator/CartesianTree.cj\<close>: every operation of the
  release build. A node stands for the free units \<open>index\<close> to \<open>index + count - 1\<close>; the tree is
  ordered by index and is a heap on counts. The nodes reachable from the root are a
  datatype; a slot (\<open>Node**\<close>, the place a node is referenced from) is the path to it. The
  calls into \<open>RegionInfo\<close> are recorded in their order. Arithmetic on \<open>UInt32\<close> wraps, as the
  package is compiled with \<^verbatim>\<open>--int-overflow wrapping\<close>.
\<close>

section \<open>Nodes, slots and the tree\<close>

text \<open>\<open>CartesianNode\<close>: left child, index, count, right child; \<open>Null\<close> is the null pointer.\<close>

datatype cnode = Null | Node cnode u32 u32 cnode

text \<open>
  Field reads. The code reads fields of nodes it has tested against null, with the count of
  no node as 0 (\<open>IsProperNode\<close>).
\<close>

fun GetIndex :: "cnode \<Rightarrow> u32" where
  "GetIndex Null = 0"
| "GetIndex (Node l i c r) = i"

fun GetCount :: "cnode \<Rightarrow> u32" where
  "GetCount Null = 0"
| "GetCount (Node l i c r) = c"

fun left_of :: "cnode \<Rightarrow> cnode" where
  "left_of Null = Null"
| "left_of (Node l i c r) = l"

fun right_of :: "cnode \<Rightarrow> cnode" where
  "right_of Null = Null"
| "right_of (Node l i c r) = r"

datatype dir = L | R

type_synonym slot = "dir list"

text \<open>The node in a slot, and the tree with another node written to the slot.\<close>

fun read_slot :: "cnode \<Rightarrow> slot \<Rightarrow> cnode" where
  "read_slot t [] = t"
| "read_slot Null (d # p) = Null"
| "read_slot (Node l i c r) (L # p) = read_slot l p"
| "read_slot (Node l i c r) (R # p) = read_slot r p"

fun write_slot :: "cnode \<Rightarrow> slot \<Rightarrow> cnode \<Rightarrow> cnode" where
  "write_slot t [] n = n"
| "write_slot Null (d # p) n = Null"
| "write_slot (Node l i c r) (L # p) n = Node (write_slot l p n) i c r"
| "write_slot (Node l i c r) (R # p) n = Node l i c (write_slot r p n)"

text \<open>What the tree tells the region table.\<close>

datatype region_call = InitFreeRegion u32 u32 | ReleaseUnits u32 u32

record cartesian_tree =
  totalCount :: u32
  root :: cnode
  region_calls :: "region_call list"

definition call_region :: "region_call \<Rightarrow> cartesian_tree \<Rightarrow> cartesian_tree" where
  "call_region k s = s\<lparr>region_calls := region_calls s @ [k]\<rparr>"

definition IncTotalCount :: "u32 \<Rightarrow> cartesian_tree \<Rightarrow> cartesian_tree" where
  "IncTotalCount n s = s\<lparr>totalCount := totalCount s + n\<rparr>"

definition DecTotalCount :: "u32 \<Rightarrow> cartesian_tree \<Rightarrow> cartesian_tree res" where
  "DecTotalCount n s =
     (if totalCount s < n then Inl Abort else Inr (s\<lparr>totalCount := totalCount s - n\<rparr>))"

text \<open>
  Updates of a node: \<open>IncCount\<close>, \<open>UpdateNode\<close> and the constructor. Each tells the region table
  of the new range when asked to; the first two only for a range that is not empty.
\<close>

definition UpdateNode ::
  "u32 \<Rightarrow> u32 \<Rightarrow> bool \<Rightarrow> cnode \<Rightarrow> cartesian_tree \<Rightarrow> cnode \<times> cartesian_tree" where
  "UpdateNode idx n refresh node s =
     (Node (left_of node) idx n (right_of node),
      if refresh \<and> n > 0 then call_region (InitFreeRegion idx n) s else s)"

definition IncCount :: "u32 \<Rightarrow> bool \<Rightarrow> cnode \<Rightarrow> cartesian_tree \<Rightarrow> cnode \<times> cartesian_tree" where
  "IncCount n refresh node s =
     (let newCount = GetCount node + n in
      (Node (left_of node) (GetIndex node) newCount (right_of node),
       if refresh \<and> newCount > 0 then call_region (InitFreeRegion (GetIndex node) newCount) s else s))"

definition new_node :: "u32 \<Rightarrow> u32 \<Rightarrow> bool \<Rightarrow> cartesian_tree \<Rightarrow> cnode \<times> cartesian_tree" where
  "new_node idx n refresh s =
     (Node Null idx n Null, if refresh then call_region (InitFreeRegion idx n) s else s)"

definition IsProperNode :: "cnode \<Rightarrow> bool" where
  "IsProperNode n \<longleftrightarrow> GetCount n \<ge> GetCount (left_of n) \<and> GetCount n \<ge> GetCount (right_of n)"

section \<open>Rotations and lowering\<close>

fun RotateLeftChild :: "cnode \<Rightarrow> cnode" where
  "RotateLeftChild (Node (Node a i c b) j d r) = Node a i c (Node b j d r)"
| "RotateLeftChild t = t"

fun RotateRightChild :: "cnode \<Rightarrow> cnode" where
  "RotateRightChild (Node l i c (Node a j d b)) = Node (Node l i c a) j d b"
| "RotateRightChild t = t"

text \<open>The node in the slot goes down one level; the slot it is in afterwards.\<close>

definition LowerImproperNodeOnce :: "cnode \<Rightarrow> cnode \<times> slot" where
  "LowerImproperNodeOnce node =
     (if left_of node \<noteq> Null then
        if right_of node \<noteq> Null \<and> GetCount (right_of node) \<ge> GetCount (left_of node)
        then (RotateRightChild node, [L])
        else (RotateLeftChild node, [R])
      else if right_of node \<noteq> Null then (RotateRightChild node, [L])
      else (node, []))"

lemma LowerImproperNodeOnce_size:
  assumes "LowerImproperNodeOnce n = (n', q)" and "left_of n \<noteq> Null \<or> right_of n \<noteq> Null"
  shows "size (read_slot n' q) < size n"
proof (cases n)
  case (Node l i c r)
  with assms show ?thesis
    by (cases l; cases r) (auto simp: LowerImproperNodeOnce_def split: if_splits)
qed (use assms in simp)

text \<open>
  The two loops that move the node in a slot down: to a leaf, and to where it is proper. The
  result is the subtree of the slot and the slot of the node in it.
\<close>

function MaintainHeapPropertyForZeroNode :: "cnode \<Rightarrow> cnode \<times> slot" where
  "MaintainHeapPropertyForZeroNode node =
     (if left_of node \<noteq> Null \<or> right_of node \<noteq> Null then
        let (node', q) = LowerImproperNodeOnce node;
            (n, p) = MaintainHeapPropertyForZeroNode (read_slot node' q)
        in (write_slot node' q n, q @ p)
      else (node, []))"
  by pat_completeness auto
termination
  by (relation "measure size") (auto dest: LowerImproperNodeOnce_size [OF sym])

function MaintainHeapPropertyForNonZeroNode :: "cnode \<Rightarrow> cnode" where
  "MaintainHeapPropertyForNonZeroNode node =
     (if \<not> IsProperNode node then
        let (node', q) = LowerImproperNodeOnce node
        in write_slot node' q (MaintainHeapPropertyForNonZeroNode (read_slot node' q))
      else node)"
  by pat_completeness auto
termination
proof (relation "measure size")
  fix node x n' q
  assume "\<not> IsProperNode node" and x: "x = LowerImproperNodeOnce node" "(n', q) = x"
  then have "left_of node \<noteq> Null \<or> right_of node \<noteq> Null"
    by (auto simp: IsProperNode_def)
  from LowerImproperNodeOnce_size [OF _ this, of n' q] x
  show "(read_slot n' q, node) \<in> measure size" by simp
qed simp

declare MaintainHeapPropertyForZeroNode.simps [simp del]
declare MaintainHeapPropertyForNonZeroNode.simps [simp del]

text \<open>\<open>LowerNode\<close>, the recursive form, which prefers the left child on equal counts.\<close>

function LowerNode :: "cnode \<Rightarrow> cnode" where
  "LowerNode node =
     (let left = left_of node; right = right_of node in
      if left \<noteq> Null \<and> GetCount left > GetCount node then
        if right \<noteq> Null \<and> GetCount right > GetCount left
        then write_slot (RotateRightChild node) [L] (LowerNode (left_of (RotateRightChild node)))
        else write_slot (RotateLeftChild node) [R] (LowerNode (right_of (RotateLeftChild node)))
      else if right \<noteq> Null \<and> GetCount right > GetCount node
      then write_slot (RotateRightChild node) [L] (LowerNode (left_of (RotateRightChild node)))
      else node)"
  by pat_completeness auto
termination
proof (relation "measure size")
  fix node left right
  assume "left = left_of node" "right = right_of node" "left \<noteq> Null \<and> GetCount node < GetCount left"
  then show "(right_of (RotateLeftChild node), node) \<in> measure size"
    by (cases node; cases "left_of node") auto
next
  fix node left right :: cnode
  assume "right = right_of node" "right \<noteq> Null \<and> GetCount left < GetCount right"
  then show "(left_of (RotateRightChild node), node) \<in> measure size"
    by (cases node; cases "right_of node") auto
next
  fix node right
  assume "right = right_of node" "right \<noteq> Null \<and> GetCount node < GetCount right"
  then show "(left_of (RotateRightChild node), node) \<in> measure size"
    by (cases node; cases "right_of node") auto
qed simp

declare LowerNode.simps [simp del]

text \<open>Removing the node of a slot, once its count is 0; a leaf that has children aborts.\<close>

definition RemoveZeroNode :: "slot \<Rightarrow> cartesian_tree \<Rightarrow> cartesian_tree res" where
  "RemoveZeroNode p s =
     (let (n, q) = MaintainHeapPropertyForZeroNode (read_slot (root s) p);
          leaf = read_slot n q
      in if left_of leaf \<noteq> Null \<or> right_of leaf \<noteq> Null then Inl Abort
         else Inr (s\<lparr>root := write_slot (root s) p (write_slot n q Null)\<rparr>))"

definition LowerNonZeroNode :: "slot \<Rightarrow> cartesian_tree \<Rightarrow> cartesian_tree" where
  "LowerNonZeroNode p s =
     s\<lparr>root := write_slot (root s) p (MaintainHeapPropertyForNonZeroNode (read_slot (root s) p))\<rparr>"

definition ClearCount :: "cnode \<Rightarrow> cnode" where
  "ClearCount n = Node (left_of n) (GetIndex n) 0 (right_of n)"

definition RemoveNode :: "slot \<Rightarrow> cartesian_tree \<Rightarrow> cartesian_tree res" where
  "RemoveNode p s =
     and_then (DecTotalCount (GetCount (read_slot (root s) p)) s) (\<lambda>s.
       RemoveZeroNode p (s\<lparr>root := write_slot (root s) p (ClearCount (read_slot (root s) p))\<rparr>))"

text \<open>
  \<open>ReleaseRootNode\<close>: the memory of the root's units is given back and the node is removed. An
  empty tree would be a read through null.
\<close>

definition ReleaseRootNode :: "cartesian_tree \<Rightarrow> cartesian_tree res" where
  "ReleaseRootNode s =
     (if root s = Null then Inl OutOfBounds
      else RemoveNode [] (call_region (ReleaseUnits (GetIndex (root s)) (GetCount (root s))) s))"

section \<open>Insertion with merging\<close>

datatype merge_result = MERGE_SUCCESS | MERGE_MISS | MERGE_ERROR

text \<open>
  The search of \<open>MergeToRight\<close> for a run that starts at \<open>endIdx\<close>, down the left spine of the
  right subtree: the subtree without the node it finds and the count of that node; \<open>None\<close> when
  the new units overlap. \<open>MergeToLeft\<close> mirrors it.
\<close>

fun take_nearest_right :: "u32 \<Rightarrow> cnode \<Rightarrow> (cnode \<times> u32 option) option" where
  "take_nearest_right endIdx Null = Some (Null, None)"
| "take_nearest_right endIdx (Node l i c r) =
     (if i = endIdx then if l \<noteq> Null then None else Some (r, Some c)
      else if i < endIdx then None
      else map_option (\<lambda>(l', found). (Node l' i c r, found)) (take_nearest_right endIdx l))"

fun take_nearest_left :: "u32 \<Rightarrow> cnode \<Rightarrow> (cnode \<times> (u32 \<times> u32) option) option" where
  "take_nearest_left startIdx Null = Some (Null, None)"
| "take_nearest_left startIdx (Node l i c r) =
     (if i + c = startIdx then if r \<noteq> Null then None else Some (l, Some (i, c))
      else if i + c > startIdx then None
      else map_option (\<lambda>(r', found). (Node l i c r', found)) (take_nearest_left startIdx r))"

definition MergeToRight ::
  "cnode \<Rightarrow> u32 \<Rightarrow> u32 \<Rightarrow> bool \<Rightarrow> cartesian_tree \<Rightarrow> merge_result \<times> cnode \<times> cartesian_tree" where
  "MergeToRight node endIdx num refresh s =
     (case take_nearest_right endIdx (right_of node) of
        None \<Rightarrow> (MERGE_ERROR, node, s)
      | Some (r', nearest) \<Rightarrow>
          let (node1, s1) = IncCount num refresh node s;
              s2 = IncTotalCount num s1
          in case nearest of
               None \<Rightarrow> (MERGE_SUCCESS, node1, s2)
             | Some c \<Rightarrow>
                 let (node2, s3) = IncCount c refresh node1 s2
                 in (MERGE_SUCCESS, Node (left_of node2) (GetIndex node2) (GetCount node2) r', s3))"

definition MergeToLeft ::
  "cnode \<Rightarrow> u32 \<Rightarrow> u32 \<Rightarrow> bool \<Rightarrow> cartesian_tree \<Rightarrow> merge_result \<times> cnode \<times> cartesian_tree" where
  "MergeToLeft node startIdx num refresh s =
     (case take_nearest_left startIdx (left_of node) of
        None \<Rightarrow> (MERGE_ERROR, node, s)
      | Some (l', nearest) \<Rightarrow>
          let (node1, s1) = UpdateNode startIdx (GetCount node + num) refresh node s;
              s2 = IncTotalCount num s1
          in case nearest of
               None \<Rightarrow> (MERGE_SUCCESS, node1, s2)
             | Some (i, c) \<Rightarrow>
                 let (node2, s3) = UpdateNode i (GetCount node1 + c) refresh node1 s2
                 in (MERGE_SUCCESS, Node l' (GetIndex node2) (GetCount node2) (right_of node2), s3))"

definition MergeAt ::
  "cnode \<Rightarrow> u32 \<Rightarrow> u32 \<Rightarrow> bool \<Rightarrow> cartesian_tree \<Rightarrow> merge_result \<times> cnode \<times> cartesian_tree" where
  "MergeAt node idx num refresh s =
     (let endIdx = idx + num in
      if idx = GetIndex node + GetCount node then MergeToRight node endIdx num refresh s
      else if endIdx = GetIndex node then MergeToLeft node idx num refresh s
      else (MERGE_MISS, node, s))"

text \<open>
  The stack of slots of \<open>MergeInsertInternal\<close>: each entry is a node on the way down, less the
  child the way goes through.
\<close>

datatype frame = ViaLeft u32 u32 cnode | ViaRight cnode u32 u32

fun plug :: "frame \<Rightarrow> cnode \<Rightarrow> cnode" where
  "plug (ViaLeft i c r) t = Node t i c r"
| "plug (ViaRight l i c) t = Node l i c t"

text \<open>
  The first loop: the way down to a merge or an empty slot. \<open>None\<close> is \<open>return false\<close>, on which
  nothing has been written.
\<close>

fun merge_down ::
  "u32 \<Rightarrow> u32 \<Rightarrow> bool \<Rightarrow> cartesian_tree \<Rightarrow> frame list \<Rightarrow> cnode
    \<Rightarrow> (cnode \<times> frame list \<times> cartesian_tree) option" where
  "merge_down idx num refresh s fs Null =
     (let (node, s') = new_node idx num refresh s in Some (node, fs, IncTotalCount num s'))"
| "merge_down idx num refresh s fs (Node l i c r) =
     (case MergeAt (Node l i c r) idx num refresh s of
        (MERGE_SUCCESS, node', s') \<Rightarrow> Some (node', fs, s')
      | (MERGE_ERROR, _, _) \<Rightarrow> None
      | (MERGE_MISS, _, _) \<Rightarrow>
          if idx + num < i then merge_down idx num refresh s (ViaLeft i c r # fs) l
          else if idx > i + c then merge_down idx num refresh s (ViaRight l i c # fs) r
          else None)"

text \<open>
  The second loop: back up the stack, rotating while the child has the larger count, with the
  comparisons of the code. The result is the answer and the root.
\<close>

fun plug_all :: "frame list \<Rightarrow> cnode \<Rightarrow> cnode" where
  "plug_all [] t = t"
| "plug_all (f # fs) t = plug_all fs (plug f t)"

fun merge_up :: "u32 \<Rightarrow> u32 \<Rightarrow> frame list \<Rightarrow> cnode \<Rightarrow> bool \<times> cnode" where
  "merge_up idx num [] t = (True, t)"
| "merge_up idx num (f # fs) t =
     (let node = plug f t in
      if idx + num < GetIndex node then
        if GetCount node < GetCount (left_of node) then merge_up idx num fs (RotateLeftChild node)
        else (True, plug_all fs node)
      else if idx > GetIndex node + GetCount node then
        if GetCount node < GetCount (right_of node) then merge_up idx num fs (RotateRightChild node)
        else (True, plug_all fs node)
      else (False, plug_all fs node))"

definition MergeInsertInternal :: "u32 \<Rightarrow> u32 \<Rightarrow> bool \<Rightarrow> cartesian_tree \<Rightarrow> bool \<times> cartesian_tree" where
  "MergeInsertInternal idx num refresh s =
     (case merge_down idx num refresh s [] (root s) of
        None \<Rightarrow> (False, s)
      | Some (node, fs, s') \<Rightarrow>
          let (ok, t) = merge_up idx num fs node in (ok, s'\<lparr>root := t\<rparr>))"

definition MergeInsert :: "u32 \<Rightarrow> u32 \<Rightarrow> bool \<Rightarrow> cartesian_tree \<Rightarrow> bool \<times> cartesian_tree" where
  "MergeInsert idx num refresh s =
     (if root s = Null then
        let (node, s') = new_node idx num refresh s in (True, IncTotalCount num (s'\<lparr>root := node\<rparr>))
      else if num = 0 then (False, s)
      else MergeInsertInternal idx num refresh s)"

section \<open>Iterators\<close>

text \<open>
  Both iterators keep a queue: \<open>Iterator\<close> of nodes, \<open>ForwardIterator\<close> of slots. \<open>Next\<close> takes the
  front and enqueues its right child before its left one.
\<close>

definition child_list :: "cnode \<Rightarrow> cnode list" where
  "child_list n = (if n = Null then [] else [n])"

fun Iterator_Next :: "cnode list \<Rightarrow> cnode option \<times> cnode list" where
  "Iterator_Next [] = (None, [])"
| "Iterator_Next (n # q) = (Some n, q @ child_list (right_of n) @ child_list (left_of n))"

fun ForwardIterator_Next :: "cnode \<Rightarrow> slot list \<Rightarrow> slot option \<times> slot list" where
  "ForwardIterator_Next t [] = (None, [])"
| "ForwardIterator_Next t (p # q) =
     (let node = read_slot t p in
      (Some p, q @ (if right_of node \<noteq> Null then [p @ [R]] else [])
                 @ (if left_of node \<noteq> Null then [p @ [L]] else [])))"

definition queue_weight :: "cnode list \<Rightarrow> nat" where
  "queue_weight q = sum_list (map (\<lambda>n. Suc (2 * size n)) q)"

lemma queue_weight_simps [simp]:
  "queue_weight [] = 0"
  "queue_weight (n # q) = Suc (2 * size n) + queue_weight q"
  "queue_weight (q @ q') = queue_weight q + queue_weight q'"
  by (simp_all add: queue_weight_def)

lemma children_weight: "queue_weight (child_list (right_of n)) + queue_weight (child_list (left_of n)) < Suc (2 * size n)"
  by (cases n) (auto simp: child_list_def)

lemma Iterator_Next_weight: "Iterator_Next q = (Some n, q') \<Longrightarrow> queue_weight q' < queue_weight q"
  using children_weight by (cases q) auto

lemma read_slot_append: "read_slot t (p @ q) = read_slot (read_slot t p) q"
proof (induction t p rule: read_slot.induct)
  case (2 d p)
  show ?case by (cases q) simp_all
qed simp_all

lemma read_slot_child [simp]:
  "read_slot n [L] = left_of n"
  "read_slot n [R] = right_of n"
  by (cases n; simp)+

lemma read_slot_below [simp]:
  "read_slot t (p @ [L]) = left_of (read_slot t p)"
  "read_slot t (p @ [R]) = right_of (read_slot t p)"
  by (simp_all add: read_slot_append)

lemma ForwardIterator_Next_weight:
  assumes "ForwardIterator_Next t q = (Some p, q')"
  shows "queue_weight (map (read_slot t) q') < queue_weight (map (read_slot t) q)"
proof (cases q)
  case (Cons x xs)
  with assms children_weight [of "read_slot t p"] show ?thesis
    by (auto simp: Let_def child_list_def split: if_splits)
qed (use assms in simp)

text \<open>\<open>GetNodeCount\<close> and \<open>ClearTree\<close>, which hands every node to \<open>DeleteNode\<close> as it is dequeued.\<close>

function count_loop :: "cnode list \<Rightarrow> u64 \<Rightarrow> u64" where
  "count_loop q nodeCount =
     (case Iterator_Next q of
        (None, _) \<Rightarrow> nodeCount
      | (Some n, q') \<Rightarrow> count_loop q' (nodeCount + 1))"
  by pat_completeness auto
termination
  by (relation "measure (queue_weight \<circ> fst)") (auto dest: Iterator_Next_weight [OF sym])

definition GetNodeCount :: "cartesian_tree \<Rightarrow> u64" where
  "GetNodeCount s = count_loop (child_list (root s)) 0"

function clear_loop :: "cnode list \<Rightarrow> cnode list" where
  "clear_loop q =
     (case Iterator_Next q of
        (None, _) \<Rightarrow> []
      | (Some n, q') \<Rightarrow> n # clear_loop q')"
  by pat_completeness auto
termination
  by (relation "measure queue_weight") (auto dest: Iterator_Next_weight [OF sym])

declare count_loop.simps [simp del]
declare clear_loop.simps [simp del]

text \<open>The nodes deleted, in their order, and the tree after it.\<close>

definition ClearTree :: "cartesian_tree \<Rightarrow> cnode list \<times> cartesian_tree" where
  "ClearTree s = (clear_loop (child_list (root s)), s\<lparr>root := Null, totalCount := 0\<rparr>)"

section \<open>Taking units\<close>

text \<open>
  Taking \<open>num\<close> units from the front of the node in a slot, the common end of the three
  allocation functions: the first index of the node, and the tree with the node shrunk, and
  removed when nothing is left of it.
\<close>

definition take_front :: "slot \<Rightarrow> u32 \<Rightarrow> bool \<Rightarrow> cartesian_tree \<Rightarrow> (u32 option \<times> cartesian_tree) res" where
  "take_front p num refresh s =
     (let node = read_slot (root s) p;
          nodeIndex = GetIndex node;
          nodeCount = GetCount node;
          (node', s1) = UpdateNode (nodeIndex + num) (nodeCount - num) refresh node s
      in and_then (DecTotalCount num (s1\<lparr>root := write_slot (root s1) p node'\<rparr>)) (\<lambda>s2.
           if GetCount node' = 0
           then and_then (RemoveZeroNode p s2) (\<lambda>s3. Inr (Some nodeIndex, s3))
           else Inr (Some nodeIndex, LowerNonZeroNode p s2)))"

text \<open>
  \<open>TakeUnits\<close>: the last slot the forward iterator yields before the first node that is too small.
\<close>

function take_scan :: "cnode \<Rightarrow> u32 \<Rightarrow> slot list \<Rightarrow> slot \<Rightarrow> slot" where
  "take_scan t num q p =
     (case ForwardIterator_Next t q of
        (None, _) \<Rightarrow> p
      | (Some p', q') \<Rightarrow>
          if read_slot t p' \<noteq> Null \<and> GetCount (read_slot t p') < num then p
          else take_scan t num q' p')"
  by pat_completeness auto
termination
  by (relation "measure (\<lambda>(t, num, q, p). queue_weight (map (read_slot t) q))")
    (auto dest: ForwardIterator_Next_weight [OF sym])

declare take_scan.simps [simp del]

definition TakeUnitsImpl :: "u32 \<Rightarrow> bool \<Rightarrow> cartesian_tree \<Rightarrow> (u32 option \<times> cartesian_tree) res" where
  "TakeUnitsImpl num refresh s =
     (case ForwardIterator_Next (root s) (if root s \<noteq> Null then [[]] else []) of
        (None, _) \<Rightarrow> Inr (None, s)
      | (Some p, q) \<Rightarrow>
          if read_slot (root s) p \<noteq> Null \<and> GetCount (read_slot (root s) p) < num then Inr (None, s)
          else take_front (take_scan (root s) num q p) num refresh s)"

definition TakeUnits :: "u32 \<Rightarrow> bool \<Rightarrow> cartesian_tree \<Rightarrow> (u32 option \<times> cartesian_tree) res" where
  "TakeUnits num refresh s =
     (if root s = Null \<or> num = 0 then Inr (None, s) else TakeUnitsImpl num refresh s)"

text \<open>
  \<open>FindBestFitLowAddrPtr\<close>: a depth-first search over a stack of slots. Once the best slot fits
  exactly, only left children can improve on it.
\<close>

definition push_fit :: "cnode \<Rightarrow> u32 \<Rightarrow> slot \<Rightarrow> slot list \<Rightarrow> slot list" where
  "push_fit t num p stack =
     (if read_slot t p \<noteq> Null \<and> GetCount (read_slot t p) \<ge> num then p # stack else stack)"

definition better_fit :: "cnode \<Rightarrow> slot \<Rightarrow> slot option \<Rightarrow> slot" where
  "better_fit t p best =
     (case best of
        None \<Rightarrow> p
      | Some b \<Rightarrow>
          let node = read_slot t p; bestNode = read_slot t b in
          if GetCount node < GetCount bestNode \<or>
             GetCount node = GetCount bestNode \<and> GetIndex node < GetIndex bestNode
          then p else b)"

function best_fit_loop :: "cnode \<Rightarrow> u32 \<Rightarrow> slot list \<Rightarrow> slot option \<Rightarrow> slot option" where
  "best_fit_loop t num [] best = best"
| "best_fit_loop t num (p # stack) best =
     (if read_slot t p = Null \<or> GetCount (read_slot t p) < num then best_fit_loop t num stack best
      else
        let best' = better_fit t p best in
        if GetCount (read_slot t best') = num
        then best_fit_loop t num (push_fit t num (p @ [L]) stack) (Some best')
        else best_fit_loop t num (push_fit t num (p @ [L]) (push_fit t num (p @ [R]) stack)) (Some best'))"
  by pat_completeness auto
termination
proof (relation "measure (\<lambda>(t, num, stack, best). queue_weight (map (read_slot t) stack))")
  fix t num p stack best x
  assume "\<not> (read_slot t p = Null \<or> GetCount (read_slot t p) < num)"
  then show "((t, num, push_fit t num (p @ [L]) stack, Some x), t, num, p # stack, best)
      \<in> measure (\<lambda>(t, num, stack, best). queue_weight (map (read_slot t) stack))"
    and "((t, num, push_fit t num (p @ [L]) (push_fit t num (p @ [R]) stack), Some x), t, num, p # stack, best)
      \<in> measure (\<lambda>(t, num, stack, best). queue_weight (map (read_slot t) stack))"
    by (cases "read_slot t p"; simp add: push_fit_def)+
qed simp_all

definition FindBestFitLowAddrPtr :: "cnode \<Rightarrow> slot \<Rightarrow> u32 \<Rightarrow> slot option \<Rightarrow> slot option" where
  "FindBestFitLowAddrPtr t p num initialBest = best_fit_loop t num (push_fit t num p []) initialBest"

definition TakeUnitsLowAddrImpl :: "u32 \<Rightarrow> bool \<Rightarrow> cartesian_tree \<Rightarrow> (u32 option \<times> cartesian_tree) res" where
  "TakeUnitsLowAddrImpl num refresh s =
     (case FindBestFitLowAddrPtr (root s) [] num None of
        None \<Rightarrow> Inr (None, s)
      | Some p \<Rightarrow> take_front p num refresh s)"

definition TakeUnitsLowAddr :: "u32 \<Rightarrow> bool \<Rightarrow> cartesian_tree \<Rightarrow> (u32 option \<times> cartesian_tree) res" where
  "TakeUnitsLowAddr num refresh s =
     (if root s = Null \<or> num = 0 then Inr (None, s) else TakeUnitsLowAddrImpl num refresh s)"

definition AllocateLowestAddressFromNode ::
  "slot \<Rightarrow> u32 \<Rightarrow> cartesian_tree \<Rightarrow> (u32 option \<times> cartesian_tree) res" where
  "AllocateLowestAddressFromNode p num s =
     (if GetCount (read_slot (root s) p) < num then Inr (None, s) else take_front p num False s)"

end
