(* ===== verification/FreeUnits.thy ===== *)
theory FreeUnits
  imports CartesianTree
begin

text \<open>
  What the tree of \<open>CartesianTree\<close> stands for and the invariant it keeps: its nodes read in
  order are runs of free units, apart from each other and sorted; counts decrease downwards;
  the total is the sum of the counts. The lowering loops keep all of it. The abstract view of
  a tree is the set of its free units.
\<close>

section \<open>Runs of units\<close>

type_synonym span = "nat \<times> nat"

definition apart :: "span \<Rightarrow> span \<Rightarrow> bool" where
  "apart x y \<longleftrightarrow> fst x + snd x < fst y"

definition span_ok :: "span \<Rightarrow> bool" where
  "span_ok x \<longleftrightarrow> 0 < snd x \<and> fst x + snd x < 2 ^ 32"

definition spans_ok :: "span list \<Rightarrow> bool" where
  "spans_ok xs \<longleftrightarrow> sorted_wrt apart xs \<and> (\<forall>x \<in> set xs. span_ok x)"

definition span_units :: "span \<Rightarrow> nat set" where
  "span_units x = {fst x ..< fst x + snd x}"

definition cover :: "span list \<Rightarrow> nat set" where
  "cover xs = (\<Union>x \<in> set xs. span_units x)"

lemma cover_simps [simp]:
  "cover [] = {}"
  "cover (x # xs) = span_units x \<union> cover xs"
  "cover (xs @ ys) = cover xs \<union> cover ys"
  by (auto simp: cover_def)

lemma spans_ok_Nil [simp]: "spans_ok []"
  by (simp add: spans_ok_def)

lemma spans_ok_Cons: "spans_ok (x # xs) \<longleftrightarrow> span_ok x \<and> (\<forall>y \<in> set xs. apart x y) \<and> spans_ok xs"
  by (auto simp: spans_ok_def)

lemma spans_ok_append:
  "spans_ok (xs @ ys) \<longleftrightarrow> spans_ok xs \<and> spans_ok ys \<and> (\<forall>x \<in> set xs. \<forall>y \<in> set ys. apart x y)"
  by (auto simp: spans_ok_def sorted_wrt_append)

lemmas spans_ok_simps = spans_ok_Cons spans_ok_append

lemma apart_units: "apart x y \<Longrightarrow> u \<in> span_units x \<Longrightarrow> v \<in> span_units y \<Longrightarrow> u < v"
  by (auto simp: apart_def span_units_def)

definition span_total :: "span list \<Rightarrow> nat" where
  "span_total xs = sum_list (map snd xs)"

lemma total_simps [simp]:
  "span_total [] = 0"
  "span_total (x # xs) = snd x + span_total xs"
  "span_total (xs @ ys) = span_total xs + span_total ys"
  by (simp_all add: span_total_def)

text \<open>Runs below \<open>N\<close> that are apart have fewer than \<open>N\<close> units and gaps together.\<close>

lemma total_bound:
  assumes "spans_ok (x # xs)" and "\<And>y. y \<in> set (x # xs) \<Longrightarrow> fst y + snd y \<le> N"
  shows "fst x + span_total (x # xs) + length xs \<le> N"
  using assms
proof (induction xs arbitrary: x)
  case Nil
  then show ?case by simp
next
  case (Cons y ys)
  have "fst y + span_total (y # ys) + length ys \<le> N"
    by (rule Cons.IH) (use Cons.prems in \<open>auto simp: spans_ok_Cons\<close>)
  moreover have "fst x + snd x < fst y"
    using Cons.prems(1) by (simp add: spans_ok_Cons apart_def)
  ultimately show ?case by simp
qed

lemma total_less: "spans_ok xs \<Longrightarrow> span_total xs < 2 ^ 32"
  using total_bound [of "hd xs" "tl xs" "2 ^ 32 - 1"]
  by (cases xs) (fastforce simp: spans_ok_def span_ok_def)+

lemma length_le_total: "spans_ok xs \<Longrightarrow> length xs \<le> span_total xs"
  by (induction xs) (auto simp: spans_ok_Cons span_ok_def)

lemma length_bound:
  assumes "spans_ok xs" and "cover xs \<subseteq> {..<N}"
  shows "length xs \<le> (N + 1) div 2"
proof (cases xs)
  case (Cons x ys)
  have "fst y + snd y \<le> N" if "y \<in> set xs" for y
  proof -
    have y: "0 < snd y" using assms(1) that by (simp add: spans_ok_def span_ok_def)
    then have "fst y + snd y - 1 \<in> cover xs" using that by (force simp: cover_def span_units_def)
    with assms(2) y show ?thesis by auto
  qed
  then have "fst x + span_total xs + length ys \<le> N"
    using total_bound [of x ys N] assms(1) Cons by simp
  with length_le_total [OF assms(1)] Cons show ?thesis by simp
qed simp

lemma card_cover: "spans_ok xs \<Longrightarrow> card (cover xs) = span_total xs \<and> finite (cover xs)"
proof (induction xs)
  case (Cons x xs)
  then have "card (cover xs) = span_total xs" "finite (cover xs)" by (simp_all add: spans_ok_Cons)
  moreover have "span_units x \<inter> cover xs = {}"
    using Cons.prems by (fastforce simp: spans_ok_Cons cover_def dest: apart_units)
  ultimately show ?case by (simp add: card_Un_disjoint span_units_def)
qed simp

text \<open>The runs are determined by their units: no other list of runs that are apart covers the same.\<close>

lemma cover_hd_least:
  assumes "spans_ok (x # xs)"
  shows "fst x \<in> cover (x # xs)" and "\<And>u. u \<in> cover (x # xs) \<Longrightarrow> fst x \<le> u"
    and "fst x + snd x \<notin> cover (x # xs)"
    and "\<And>u. fst x \<le> u \<Longrightarrow> u < fst x + snd x \<Longrightarrow> u \<in> cover (x # xs)"
  using assms by (auto simp: spans_ok_Cons span_ok_def cover_def span_units_def apart_def)

lemma cover_hd_unique:
  assumes x: "spans_ok (x # xs)" and y: "spans_ok (y # ys)" and eq: "cover (x # xs) = cover (y # ys)"
  shows "x = y"
proof -
  have first: "fst x = fst y"
    using cover_hd_least(1,2) [OF x] cover_hd_least(1,2) [OF y] eq by (metis antisym)
  have "\<not> snd x < snd y"
    using cover_hd_least(3) [OF x] cover_hd_least(4) [OF y, of "fst x + snd x"] first eq by auto
  moreover have "\<not> snd y < snd x"
    using cover_hd_least(3) [OF y] cover_hd_least(4) [OF x, of "fst y + snd y"] first eq by auto
  ultimately show ?thesis using first by (simp add: prod_eq_iff)
qed

lemma cover_empty_iff: "spans_ok xs \<Longrightarrow> cover xs = {} \<longleftrightarrow> xs = []"
  using cover_hd_least(1) by (cases xs) (auto simp del: cover_simps, simp)

lemma cover_tl:
  assumes "spans_ok (x # xs)"
  shows "cover xs = cover (x # xs) - span_units x"
  using assms by (fastforce simp: spans_ok_Cons cover_def dest: apart_units)

lemma cover_unique:
  assumes "spans_ok xs" and "spans_ok ys" and "cover xs = cover ys"
  shows "xs = ys"
  using assms
proof (induction xs arbitrary: ys)
  case Nil
  then show ?case using cover_empty_iff [of ys] by simp
next
  case (Cons x xs)
  then obtain y ys' where ys: "ys = y # ys'"
    using cover_empty_iff [of ys] cover_hd_least(1) [of x xs] by (cases ys) auto
  with Cons.prems have "x = y" by (blast intro: cover_hd_unique)
  with Cons.prems ys have "cover xs = cover ys'" using cover_tl by metis
  with Cons ys \<open>x = y\<close> show ?case by (simp add: spans_ok_Cons)
qed

section \<open>The abstraction of a tree\<close>

fun spans :: "cnode \<Rightarrow> span list" where
  "spans Null = []"
| "spans (Node l i c r) = spans l @ (unat i, unat c) # spans r"

fun heap :: "cnode \<Rightarrow> bool" where
  "heap Null \<longleftrightarrow> True"
| "heap (Node l i c r) \<longleftrightarrow> heap l \<and> heap r \<and> GetCount l \<le> c \<and> GetCount r \<le> c"

definition tree_inv :: "cartesian_tree \<Rightarrow> bool" where
  "tree_inv s \<longleftrightarrow> spans_ok (spans (root s)) \<and> heap (root s) \<and>
     unat (totalCount s) = span_total (spans (root s))"

definition free_units :: "cartesian_tree \<Rightarrow> nat set" where
  "free_units s = cover (spans (root s))"

text \<open>
  What the region table has last been told of the free region at a unit, and the state in which
  it knows every run of the tree by its first unit.
\<close>

fun note_region :: "region_call \<Rightarrow> (nat \<rightharpoonup> nat) \<Rightarrow> (nat \<rightharpoonup> nat)" where
  "note_region (InitFreeRegion i c) f = f(unat i \<mapsto> unat c)"
| "note_region (ReleaseUnits i c) f = f"

definition free_region_info :: "region_call list \<Rightarrow> (nat \<rightharpoonup> nat)" where
  "free_region_info ks = fold note_region ks Map.empty"

definition regions_known :: "cartesian_tree \<Rightarrow> bool" where
  "regions_known s \<longleftrightarrow> (\<forall>x \<in> set (spans (root s)). free_region_info (region_calls s) (fst x) = Some (snd x))"

lemma free_region_info_snoc [simp]:
  "free_region_info (ks @ [k]) = note_region k (free_region_info ks)"
  by (simp add: free_region_info_def)

lemma free_region_info_Nil [simp]: "free_region_info [] = Map.empty"
  by (simp add: free_region_info_def)

lemma free_region_info_append: "free_region_info (ks @ js) = free_region_info ks ++ free_region_info js"
proof (induction js rule: rev_induct)
  case (snoc k js)
  then show ?case by (cases k) (simp_all add: fun_eq_iff map_add_def flip: append_assoc)
qed simp

text \<open>A call that makes a free region, of some of the given units.\<close>

fun call_on :: "nat set \<Rightarrow> region_call \<Rightarrow> bool" where
  "call_on S (InitFreeRegion i n) \<longleftrightarrow> 0 < unat n \<and> {unat i ..< unat i + unat n} \<subseteq> S"
| "call_on S (ReleaseUnits i n) \<longleftrightarrow> False"

lemma call_on_mono: "call_on S k \<Longrightarrow> S \<subseteq> S' \<Longrightarrow> call_on S' k"
  by (cases k) auto

lemma free_region_info_on:
  "\<forall>k \<in> set ks. call_on S k \<Longrightarrow> free_region_info ks u = Some n \<Longrightarrow> u \<in> S"
proof (induction ks arbitrary: n rule: rev_induct)
  case (snoc k ks)
  then show ?case by (cases k) (auto split: if_splits)
qed simp

lemma length_spans: "length (spans t) = size t"
  by (induction t) simp_all

lemma heap_max: "heap t \<Longrightarrow> x \<in> set (spans t) \<Longrightarrow> snd x \<le> unat (GetCount t)"
  by (induction t) (auto simp: word_le_nat_alt)

text \<open>What lies in the tree before and after a slot.\<close>

fun valid_slot :: "cnode \<Rightarrow> slot \<Rightarrow> bool" where
  "valid_slot t [] \<longleftrightarrow> True"
| "valid_slot Null (d # p) \<longleftrightarrow> False"
| "valid_slot (Node l i c r) (L # p) \<longleftrightarrow> valid_slot l p"
| "valid_slot (Node l i c r) (R # p) \<longleftrightarrow> valid_slot r p"

fun before :: "cnode \<Rightarrow> slot \<Rightarrow> span list" where
  "before t [] = []"
| "before Null (d # p) = []"
| "before (Node l i c r) (L # p) = before l p"
| "before (Node l i c r) (R # p) = spans l @ (unat i, unat c) # before r p"

fun after :: "cnode \<Rightarrow> slot \<Rightarrow> span list" where
  "after t [] = []"
| "after Null (d # p) = []"
| "after (Node l i c r) (L # p) = after l p @ (unat i, unat c) # spans r"
| "after (Node l i c r) (R # p) = after r p"

lemma spans_slot: "valid_slot t p \<Longrightarrow> spans t = before t p @ spans (read_slot t p) @ after t p"
  by (induction t p rule: valid_slot.induct) simp_all

lemma spans_write_slot:
  "valid_slot t p \<Longrightarrow> spans (write_slot t p n) = before t p @ spans n @ after t p"
  by (induction t p rule: valid_slot.induct) simp_all

lemma read_write_slot: "valid_slot t p \<Longrightarrow> read_slot (write_slot t p n) p = n"
  by (induction t p rule: valid_slot.induct) simp_all

lemma write_write_slot: "write_slot (write_slot t p n) p n' = write_slot t p n'"
  by (induction t p n rule: write_slot.induct) simp_all

lemma valid_write_slot: "valid_slot (write_slot t p n) p \<longleftrightarrow> valid_slot t p"
  by (induction t p n rule: write_slot.induct) simp_all

lemma before_after_write_slot:
  "before (write_slot t p n) p = before t p" "after (write_slot t p n) p = after t p"
  by (induction t p n rule: write_slot.induct) simp_all

lemma valid_nonnull: "read_slot t p \<noteq> Null \<Longrightarrow> valid_slot t p"
  by (induction t p rule: valid_slot.induct) simp_all

lemma GetCount_write_slot: "GetCount n \<le> GetCount (read_slot t p) \<Longrightarrow> GetCount (write_slot t p n) \<le> GetCount t"
  by (cases "(t, p)" rule: valid_slot.cases) auto

lemma heap_write_slot:
  "heap t \<Longrightarrow> heap n \<Longrightarrow> GetCount n \<le> GetCount (read_slot t p) \<Longrightarrow> heap (write_slot t p n)"
proof (induction t p rule: valid_slot.induct)
  case (3 l i c r p)
  then show ?case using GetCount_write_slot [of n l p] by auto
next
  case (4 l i c r p)
  then show ?case using GetCount_write_slot [of n r p] by auto
qed simp_all

lemma heap_read_slot: "heap t \<Longrightarrow> heap (read_slot t p)"
  by (induction t p rule: valid_slot.induct) simp_all

section \<open>Lowering\<close>

lemma spans_Rotate [simp]:
  "spans (RotateLeftChild t) = spans t"
  "spans (RotateRightChild t) = spans t"
  by (cases t rule: RotateLeftChild.cases; simp) (cases t rule: RotateRightChild.cases; simp)

lemma MaintainZero:
  assumes "MaintainHeapPropertyForZeroNode (Node l i c r) = (n, p)"
  shows "valid_slot n p \<and> read_slot n p = Node Null i c Null \<and>
    spans (write_slot n p Null) = spans l @ spans r \<and>
    (heap l \<and> heap r \<longrightarrow> heap (write_slot n p Null) \<and>
      GetCount (write_slot n p Null) = max (GetCount l) (GetCount r))"
  using assms
proof (induction "size l + size r" arbitrary: l r n p rule: less_induct)
  case less
  show ?case
  proof (cases "l = Null \<and> r = Null")
    case True
    with less.prems show ?thesis
      by (auto simp: MaintainHeapPropertyForZeroNode.simps [of "Node Null i c Null"])
  next
    case False
    show ?thesis
    proof (cases "l = Null \<or> r \<noteq> Null \<and> GetCount r \<ge> GetCount l")
      case True
      with False obtain a j d b where r: "r = Node a j d b" by (cases r) auto
      with True have "LowerImproperNodeOnce (Node l i c r) = (Node (Node l i c a) j d b, [L])"
        by (auto simp: LowerImproperNodeOnce_def)
      moreover obtain n' p' where rec: "MaintainHeapPropertyForZeroNode (Node l i c a) = (n', p')"
        by fastforce
      ultimately have np: "n = Node n' j d b" "p = L # p'"
        using less.prems False
        by (auto simp: MaintainHeapPropertyForZeroNode.simps [of "Node l i c r"])
      from less.hyps [OF _ rec] r True False show ?thesis
        by (auto simp: np max_def)
    next
      case no: False
      with False obtain a j d b where l: "l = Node a j d b" by (cases l) auto
      with no have "LowerImproperNodeOnce (Node l i c r) = (Node a j d (Node b i c r), [R])"
        by (auto simp: LowerImproperNodeOnce_def)
      moreover obtain n' p' where rec: "MaintainHeapPropertyForZeroNode (Node b i c r) = (n', p')"
        by fastforce
      ultimately have np: "n = Node a j d n'" "p = R # p'"
        using less.prems False
        by (auto simp: MaintainHeapPropertyForZeroNode.simps [of "Node l i c r"])
      from less.hyps [OF _ rec] l no show ?thesis
        by (cases r) (auto simp: np max_def)
    qed
  qed
qed

lemma MaintainNonZero:
  assumes "heap l" and "heap r"
  shows "spans (MaintainHeapPropertyForNonZeroNode (Node l i c r)) = spans (Node l i c r) \<and>
    heap (MaintainHeapPropertyForNonZeroNode (Node l i c r)) \<and>
    GetCount (MaintainHeapPropertyForNonZeroNode (Node l i c r)) = max c (max (GetCount l) (GetCount r))"
  using assms
proof (induction "size l + size r" arbitrary: l r rule: less_induct)
  case less
  let ?M = MaintainHeapPropertyForNonZeroNode
  show ?case
  proof (cases "IsProperNode (Node l i c r)")
    case True
    then have "?M (Node l i c r) = Node l i c r"
      by (simp add: MaintainHeapPropertyForNonZeroNode.simps [of "Node l i c r"])
    with True less.prems show ?thesis by (auto simp: IsProperNode_def max_def)
  next
    case improper: False
    show ?thesis
    proof (cases "l = Null \<or> r \<noteq> Null \<and> GetCount r \<ge> GetCount l")
      case True
      with improper obtain a j d b where r: "r = Node a j d b" by (cases r) (auto simp: IsProperNode_def)
      with True have "LowerImproperNodeOnce (Node l i c r) = (Node (Node l i c a) j d b, [L])"
        by (auto simp: LowerImproperNodeOnce_def)
      with improper have eq: "?M (Node l i c r) = Node (?M (Node l i c a)) j d b"
        by (simp add: MaintainHeapPropertyForNonZeroNode.simps [of "Node l i c r"])
      have "c < d" using improper True r by (auto simp: IsProperNode_def)
      with less.hyps [of l a] less.prems r True show ?thesis
        unfolding eq by (auto simp: max_def)
    next
      case no: False
      with improper obtain a j d b where l: "l = Node a j d b" by (cases l) auto
      with no have "LowerImproperNodeOnce (Node l i c r) = (Node a j d (Node b i c r), [R])"
        by (auto simp: LowerImproperNodeOnce_def)
      with improper have eq: "?M (Node l i c r) = Node a j d (?M (Node b i c r))"
        by (simp add: MaintainHeapPropertyForNonZeroNode.simps [of "Node l i c r"])
      have "c < d" "GetCount r \<le> d" using improper no l by (cases r; auto simp: IsProperNode_def)+
      with less.hyps [of b r] less.prems l show ?thesis
        unfolding eq by (auto simp: max_def)
    qed
  qed
qed

lemma LowerNode_correct:
  assumes "heap l" and "heap r"
  shows "spans (LowerNode (Node l i c r)) = spans (Node l i c r) \<and> heap (LowerNode (Node l i c r)) \<and>
    GetCount (LowerNode (Node l i c r)) = max c (max (GetCount l) (GetCount r))"
  using assms
proof (induction "size l + size r" arbitrary: l r rule: less_induct)
  case less
  show ?case
  proof (cases "l \<noteq> Null \<and> GetCount l > c \<and> \<not> (r \<noteq> Null \<and> GetCount r > GetCount l)")
    case True
    then obtain a j d b where l: "l = Node a j d b" by (cases l) auto
    with True have eq: "LowerNode (Node l i c r) = Node a j d (LowerNode (Node b i c r))"
      by (auto simp: LowerNode.simps [of "Node (Node a j d b) i c r"])
    have "GetCount r \<le> d" using True l by (cases r) auto
    with less.hyps [of b r] less.prems l True show ?thesis unfolding eq by (auto simp: max_def)
  next
    case no: False
    show ?thesis
    proof (cases "r \<noteq> Null \<and> GetCount r > c")
      case True
      then obtain a j d b where r: "r = Node a j d b" by (cases r) auto
      with True no have eq: "LowerNode (Node l i c r) = Node (LowerNode (Node l i c a)) j d b"
        by (subst LowerNode.simps) (auto simp: Let_def)
      have "GetCount l \<le> d" using True no r by (cases l) auto
      with less.hyps [of l a] less.prems r True show ?thesis unfolding eq by (auto simp: max_def)
    next
      case False
      with no have "LowerNode (Node l i c r) = Node l i c r"
        by (auto simp: LowerNode.simps [of "Node l i c r"])
      moreover have "GetCount l \<le> c" "GetCount r \<le> c" using no False by (cases l; cases r; auto)+
      ultimately show ?thesis using less.prems by (simp add: max_def)
    qed
  qed
qed

text \<open>Removing a node and lowering one, in the tree.\<close>

lemma RemoveZeroNode_correct:
  assumes slot: "read_slot (root s) p = Node l i c r" and "heap l" and "heap r"
  shows "\<exists>n. RemoveZeroNode p s = Inr (s\<lparr>root := write_slot (root s) p n\<rparr>) \<and>
    spans n = spans l @ spans r \<and> heap n \<and> GetCount n = max (GetCount l) (GetCount r)"
proof -
  obtain n q where M: "MaintainHeapPropertyForZeroNode (Node l i c r) = (n, q)" by fastforce
  from MaintainZero [OF this] assms show ?thesis
    by (intro exI [of _ "write_slot n q Null"]) (simp add: RemoveZeroNode_def M)
qed

lemma LowerNonZeroNode_correct:
  assumes slot: "read_slot (root s) p = Node l i c r" and "heap l" and "heap r"
  shows "\<exists>n. LowerNonZeroNode p s = s\<lparr>root := write_slot (root s) p n\<rparr> \<and>
    spans n = spans l @ (unat i, unat c) # spans r \<and> heap n \<and>
    GetCount n = max c (max (GetCount l) (GetCount r))"
  using MaintainNonZero [OF assms(2,3), of i c] slot
  by (intro exI [of _ "MaintainHeapPropertyForNonZeroNode (Node l i c r)"])
    (simp add: LowerNonZeroNode_def)

end
