(* ===== verification/MergeUnits.thy ===== *)
theory MergeUnits
  imports FreeUnits
begin

text \<open>
  The correctness of \<open>MergeInsert\<close>: it refuses units that overlap free ones and otherwise adds
  exactly the new units, joined with the runs they touch, and keeps the invariant of the tree.
\<close>

section \<open>Merging runs\<close>

lemma unat_add_u32:
  fixes x y :: u32
  shows "unat x + unat y < 2 ^ 32 \<Longrightarrow> unat (x + y) = unat x + unat y"
  by (simp add: unat_word_ariths)

lemmas u32_nat = word_less_nat_alt word_le_nat_alt word_unat_eq_iff

text \<open>The new units \<open>a .. a + n - 1\<close> and the runs \<open>mid\<close> make up one run of \<open>m\<close> units from \<open>b\<close>.\<close>

definition tile :: "nat \<Rightarrow> nat \<Rightarrow> span list \<Rightarrow> nat \<Rightarrow> nat \<Rightarrow> bool" where
  "tile a n mid b m \<longleftrightarrow> cover mid \<union> {a ..< a + n} = {b ..< b + m} \<and> cover mid \<inter> {a ..< a + n} = {} \<and>
     m = span_total mid + n \<and> 0 < n \<and> b + m < 2 ^ 32"

text \<open>\<open>ys\<close> is \<open>xs\<close> with the new units merged in.\<close>

definition merged :: "nat \<Rightarrow> nat \<Rightarrow> nat \<Rightarrow> nat \<Rightarrow> span list \<Rightarrow> span list \<Rightarrow> bool" where
  "merged a n b m xs ys \<longleftrightarrow> (\<exists>ls mid rs. xs = ls @ mid @ rs \<and> ys = ls @ (b, m) # rs \<and> tile a n mid b m \<and>
     (\<forall>x \<in> set ls. fst x + snd x < a) \<and> (\<forall>x \<in> set rs. a + n < fst x))"

lemma merged_context:
  assumes "merged a n b m xs ys" and "\<forall>x \<in> set pre. fst x + snd x < a" and "\<forall>x \<in> set post. a + n < fst x"
  shows "merged a n b m (pre @ xs @ post) (pre @ ys @ post)"
proof -
  from assms(1) obtain ls mid rs where "xs = ls @ mid @ rs" "ys = ls @ (b, m) # rs" "tile a n mid b m"
    "\<forall>x \<in> set ls. fst x + snd x < a" "\<forall>x \<in> set rs. a + n < fst x"
    unfolding merged_def by (elim exE conjE)
  with assms(2,3) show ?thesis
    unfolding merged_def
    by (intro exI [of _ "pre @ ls"] exI [of _ mid] exI [of _ "rs @ post"]) auto
qed

lemma tile_left:
  assumes "tile a n mid b m" and "\<forall>y \<in> set mid. apart x y" and "fst x + snd x < a"
  shows "fst x + snd x < b"
proof -
  have "b \<in> cover mid \<union> {a ..< a + n}" using assms(1) by (auto simp: tile_def)
  with assms(2,3) show ?thesis by (fastforce simp: cover_def span_units_def apart_def)
qed

lemma tile_right:
  assumes "tile a n mid b m" and "\<forall>y \<in> set mid. apart y x" and "a + n < fst x"
  shows "b + m < fst x"
proof -
  have "b + m - 1 \<in> cover mid \<union> {a ..< a + n}" "0 < m" using assms(1) by (auto simp: tile_def)
  with assms(2,3) show ?thesis by (fastforce simp: cover_def span_units_def apart_def)
qed

lemma merged_correct:
  assumes "merged a n b m xs ys" and ok: "spans_ok xs"
  shows "spans_ok ys" and "cover xs \<inter> {a ..< a + n} = {}" and "cover ys = cover xs \<union> {a ..< a + n}"
    and "span_total ys = span_total xs + n"
    and "\<And>x. x \<in> set ys \<Longrightarrow> x = (b, m) \<or> x \<in> set xs \<and> fst x \<noteq> a \<and> fst x \<noteq> b"
proof -
  from assms(1) obtain ls mid rs where xs: "xs = ls @ mid @ rs" and ys: "ys = ls @ (b, m) # rs"
    and t: "tile a n mid b m" and ls: "\<forall>x \<in> set ls. fst x + snd x < a" and rs: "\<forall>x \<in> set rs. a + n < fst x"
    unfolding merged_def by (elim exE conjE)
  have lb: "fst x + snd x < b" if "x \<in> set ls" for x
    using tile_left [OF t, of x] ok ls that by (auto simp: xs spans_ok_append)
  have rb: "b + m < fst x" if "x \<in> set rs" for x
    using tile_right [OF t, of x] ok rs that by (auto simp: xs spans_ok_append)
  show "spans_ok ys"
    using ok t lb rb by (auto simp: xs ys spans_ok_append spans_ok_Cons apart_def tile_def span_ok_def)
  have "span_units x \<inter> {a ..< a + n} = {}" if "x \<in> set ls \<or> x \<in> set rs" for x
    using that ls rs by (auto simp: span_units_def)
  with t show "cover xs \<inter> {a ..< a + n} = {}"
    by (fastforce simp: xs tile_def cover_def)
  show "cover ys = cover xs \<union> {a ..< a + n}"
    using t by (auto simp: xs ys tile_def span_units_def)
  show "span_total ys = span_total xs + n" using t by (simp add: xs ys tile_def)
  show "x = (b, m) \<or> x \<in> set xs \<and> fst x \<noteq> a \<and> fst x \<noteq> b" if "x \<in> set ys" for x
    using that ls rs lb [of x] rb [of x] by (auto simp: xs ys)
qed

section \<open>The neighbours of a run\<close>

lemma take_nearest_right_None:
  "spans_ok (spans t) \<Longrightarrow> take_nearest_right e t = None \<Longrightarrow> \<exists>x \<in> set (spans t). fst x < unat e"
proof (induction t)
  case (Node l i c r)
  show ?case
  proof (cases "i = e")
    case True
    with Node.prems obtain y where "y \<in> set (spans l)" by (cases l) auto
    with Node.prems(1) True have "fst y < unat e" by (force simp: spans_ok_simps apart_def)
    with \<open>y \<in> set (spans l)\<close> show ?thesis by auto
  next
    case False
    with Node show ?thesis by (cases "i < e") (auto simp: spans_ok_simps u32_nat)
  qed
qed simp

lemma take_nearest_right_none:
  "spans_ok (spans t) \<Longrightarrow> take_nearest_right e t = Some (t', None) \<Longrightarrow>
    t' = t \<and> (\<forall>x \<in> set (spans t). unat e < fst x)"
proof (induction t arbitrary: t')
  case (Node l i c r)
  then have "unat e < unat i" "unat i \<le> fst x" if "x \<in> set (spans r)" for x
    using that by (auto simp: spans_ok_simps apart_def u32_nat split: if_splits)
  with Node show ?case by (fastforce simp: spans_ok_simps u32_nat split: if_splits)
qed simp

lemma take_nearest_right_some:
  "take_nearest_right e t = Some (t', Some c) \<Longrightarrow>
    spans t = (unat e, unat c) # spans t' \<and> (heap t \<longrightarrow> heap t' \<and> GetCount t' \<le> GetCount t)"
  by (induction t arbitrary: t') (auto split: if_splits intro: order_trans)

lemma unat_end:
  "spans_ok (spans (Node l i c r)) \<Longrightarrow> unat (i + c) = unat i + unat c"
  by (simp add: spans_ok_simps span_ok_def unat_add_u32)

lemma take_nearest_left_None:
  "spans_ok (spans t) \<Longrightarrow> take_nearest_left e t = None \<Longrightarrow> \<exists>x \<in> set (spans t). unat e < fst x + snd x"
proof (induction t)
  case (Node l i c r)
  note u = unat_end [OF Node.prems(1)]
  show ?case
  proof (cases "i + c = e")
    case True
    with Node.prems obtain y where "y \<in> set (spans r)" by (cases r) auto
    with Node.prems(1) True u have "unat e < fst y + snd y" by (force simp: spans_ok_simps apart_def)
    with \<open>y \<in> set (spans r)\<close> show ?thesis by auto
  next
    case False
    with Node u show ?thesis by (cases "i + c > e") (auto simp: spans_ok_simps u32_nat)
  qed
qed simp

lemma take_nearest_left_none:
  "spans_ok (spans t) \<Longrightarrow> take_nearest_left e t = Some (t', None) \<Longrightarrow>
    t' = t \<and> (\<forall>x \<in> set (spans t). fst x + snd x < unat e)"
proof (induction t arbitrary: t')
  case (Node l i c r)
  note u = unat_end [OF Node.prems(1)]
  from Node.prems u have "unat i + unat c < unat e" by (auto simp: u32_nat split: if_splits)
  moreover have "fst x + snd x < unat i" if "x \<in> set (spans l)" for x
    using that Node.prems(1) by (auto simp: spans_ok_simps apart_def)
  ultimately show ?case using Node by (fastforce simp: spans_ok_simps split: if_splits)
qed simp

lemma take_nearest_left_some:
  "spans_ok (spans t) \<Longrightarrow> take_nearest_left e t = Some (t', Some (i, c)) \<Longrightarrow>
    spans t = spans t' @ [(unat i, unat c)] \<and> unat i + unat c = unat e \<and>
    (heap t \<longrightarrow> heap t' \<and> GetCount t' \<le> GetCount t)"
proof (induction t arbitrary: t')
  case (Node l j d r)
  note u = unat_end [OF Node.prems(1)]
  from Node u show ?case
    by (auto simp: spans_ok_simps split: if_splits intro: order_trans)
qed simp

section \<open>Merging at a node\<close>

text \<open>
  What a merge tells the region table: nothing, or of free regions among the units of the new run,
  that start where the run or the new units do, and at last of the run itself.
\<close>

definition informed :: "bool \<Rightarrow> nat \<Rightarrow> nat \<Rightarrow> nat \<Rightarrow> cartesian_tree \<Rightarrow> cartesian_tree \<Rightarrow> bool" where
  "informed refresh a b m s s' \<longleftrightarrow>
     (if refresh then \<exists>ks. region_calls s' = region_calls s @ ks \<and> (\<forall>k \<in> set ks. call_on {b ..< b + m} k) \<and>
        free_region_info ks b = Some m \<and> (\<forall>u. u \<noteq> a \<longrightarrow> u \<noteq> b \<longrightarrow> free_region_info ks u = None)
      else region_calls s' = region_calls s)"

lemma informed_one:
  assumes "region_calls s' = region_calls s @ (if refresh then [InitFreeRegion j n] else [])"
    and "unat j = b" and "unat n = m" and "0 < m"
  shows "informed refresh a b m s s'"
  using assms free_region_info_snoc [of "[]"] by (auto simp: informed_def)

lemma informed_two:
  assumes "region_calls s' = region_calls s @ (if refresh then [InitFreeRegion i k, InitFreeRegion j n] else [])"
    and "unat j = b" and "unat n = m" and "unat i = a \<or> unat i = b" and "0 < unat k"
    and "b \<le> unat i" and "unat i + unat k \<le> b + m"
  shows "informed refresh a b m s s'"
  using assms free_region_info_snoc [of "[]"] free_region_info_snoc [of "[InitFreeRegion i k]"]
  by (auto simp: informed_def)

lemma informed_root [simp]: "informed refresh a b m s (s'\<lparr>root := t\<rparr>) = informed refresh a b m s s'"
  by (simp add: informed_def)

text \<open>The outcome of a successful merge at a node that had the count \<open>c\<close>.\<close>

definition merge_outcome ::
  "u32 \<Rightarrow> u32 \<Rightarrow> bool \<Rightarrow> span list \<Rightarrow> u32 \<Rightarrow> cartesian_tree \<Rightarrow> cnode \<Rightarrow> cartesian_tree \<Rightarrow> bool" where
  "merge_outcome idx num refresh xs c s t s' \<longleftrightarrow>
     (\<exists>b m l' i' c' r'. t = Node l' i' c' r' \<and> merged (unat idx) (unat num) b m xs (spans t) \<and>
        heap l' \<and> heap r' \<and> GetCount l' \<le> c \<and> GetCount r' \<le> c \<and> c \<le> c' \<and>
        informed refresh (unat idx) b m s s' \<and> totalCount s' = totalCount s + num \<and> root s' = root s)"

lemma MergeToRight_outcome:
  assumes ok: "spans_ok (spans (Node l i c r))" and heap: "heap (Node l i c r)"
    and num: "0 < unat num" and bound: "unat idx + unat num < 2 ^ 32"
    and idx: "unat idx = unat i + unat c"
    and run: "MergeToRight (Node l i c r) (idx + num) num refresh s = (MERGE_SUCCESS, t, s')"
  shows "merge_outcome idx num refresh (spans (Node l i c r)) c s t s'"
proof -
  note e = unat_add_u32 [OF bound]
  from run obtain r' nearest where near: "take_nearest_right (idx + num) r = Some (r', nearest)"
    by (auto simp: MergeToRight_def split: option.splits)
  have oks: "spans_ok (spans r)" "\<forall>x \<in> set (spans l). fst x + snd x < unat i" "0 < unat c"
    using ok by (auto simp: spans_ok_simps apart_def span_ok_def)
  have cn: "unat (c + num) = unat c + unat num" by (rule unat_add_u32) (use idx bound in simp)
  show ?thesis
  proof (cases nearest)
    case None
    with take_nearest_right_none [OF oks(1), of "idx + num" r'] near
    have r': "r' = r" "\<forall>x \<in> set (spans r). unat (idx + num) < fst x" by simp_all
    have t: "t = Node l i (c + num) r" and s': "totalCount s' = totalCount s + num" "root s' = root s"
      "region_calls s' = region_calls s @ (if refresh then [InitFreeRegion i (c + num)] else [])"
      using run near None cn num r'(1)
      by (auto simp: MergeToRight_def IncCount_def IncTotalCount_def call_region_def u32_nat Let_def)
    have "merged (unat idx) (unat num) (unat i) (unat c + unat num) (spans (Node l i c r)) (spans t)"
      unfolding merged_def
      by (intro exI [of _ "spans l"] exI [of _ "[(unat i, unat c)]"] exI [of _ "spans r"])
        (use oks r'(2) idx bound num in \<open>auto simp: t cn e tile_def span_units_def\<close>)
    moreover have "c \<le> c + num" using cn by (simp add: u32_nat)
    ultimately show ?thesis
      unfolding merge_outcome_def
      using heap s'(1,2) informed_one [OF s'(3) refl cn _, of "unat idx"] num by (intro exI) (auto simp: t)
  next
    case (Some c2)
    with take_nearest_right_some [of "idx + num" r r' c2] near
    have r': "spans r = (unat (idx + num), unat c2) # spans r'" "heap r'" "GetCount r' \<le> c"
      using heap by auto
    have c2: "unat idx + unat num + unat c2 < 2 ^ 32" and rs: "\<forall>x \<in> set (spans r'). unat (idx + num) < fst x"
      using ok by (auto simp: r' spans_ok_simps span_ok_def e apart_def)
    have cn2: "unat (c + num + c2) = unat c + unat num + unat c2"
      using unat_add_u32 [of "c + num" c2] cn c2 idx by simp
    have t: "t = Node l i (c + num + c2) r'" and s': "totalCount s' = totalCount s + num" "root s' = root s"
      "region_calls s' = region_calls s @ (if refresh
         then [InitFreeRegion i (c + num), InitFreeRegion i (c + num + c2)] else [])"
      using run near Some cn num cn2
      by (auto simp: MergeToRight_def IncCount_def IncTotalCount_def call_region_def u32_nat Let_def)
    have "merged (unat idx) (unat num) (unat i) (unat (c + num + c2)) (spans (Node l i c r)) (spans t)"
      unfolding merged_def
      by (intro exI [of _ "spans l"] exI [of _ "[(unat i, unat c), (unat (idx + num), unat c2)]"]
          exI [of _ "spans r'"])
        (use oks r' rs idx bound num c2 in \<open>auto simp: t cn2 e tile_def span_units_def\<close>)
    moreover have "c \<le> c + num + c2" using cn2 by (simp add: u32_nat)
    moreover have "informed refresh (unat idx) (unat i) (unat (c + num + c2)) s s'"
      by (rule informed_two [OF s'(3)]) (use cn cn2 num in simp_all)
    ultimately show ?thesis
      unfolding merge_outcome_def
      using heap s' r' by (intro exI) (auto simp: t)
  qed
qed

lemma MergeToLeft_outcome:
  assumes ok: "spans_ok (spans (Node l i c r))" and heap: "heap (Node l i c r)"
    and num: "0 < unat num" and bound: "unat idx + unat num < 2 ^ 32"
    and idx: "unat idx + unat num = unat i"
    and run: "MergeToLeft (Node l i c r) idx num refresh s = (MERGE_SUCCESS, t, s')"
  shows "merge_outcome idx num refresh (spans (Node l i c r)) c s t s'"
proof -
  from run obtain l' nearest where near: "take_nearest_left idx l = Some (l', nearest)"
    by (auto simp: MergeToLeft_def split: option.splits)
  have oks: "spans_ok (spans l)" "\<forall>x \<in> set (spans r). unat i + unat c < fst x" "0 < unat c"
    and ic: "unat i + unat c < 2 ^ 32"
    using ok by (auto simp: spans_ok_simps apart_def span_ok_def)
  have cn: "unat (c + num) = unat c + unat num" by (rule unat_add_u32) (use idx ic in simp)
  show ?thesis
  proof (cases nearest)
    case None
    with take_nearest_left_none [OF oks(1), of idx l'] near
    have l': "l' = l" "\<forall>x \<in> set (spans l). fst x + snd x < unat idx" by simp_all
    have t: "t = Node l idx (c + num) r" and s': "totalCount s' = totalCount s + num" "root s' = root s"
      "region_calls s' = region_calls s @ (if refresh then [InitFreeRegion idx (c + num)] else [])"
      using run near None cn num l'(1)
      by (auto simp: MergeToLeft_def UpdateNode_def IncTotalCount_def call_region_def u32_nat Let_def)
    have "merged (unat idx) (unat num) (unat idx) (unat c + unat num) (spans (Node l i c r)) (spans t)"
      unfolding merged_def
      by (intro exI [of _ "spans l"] exI [of _ "[(unat i, unat c)]"] exI [of _ "spans r"])
        (use oks l'(2) idx ic num in \<open>auto simp: t cn tile_def span_units_def\<close>)
    moreover have "c \<le> c + num" using cn by (simp add: u32_nat)
    ultimately show ?thesis
      unfolding merge_outcome_def
      using heap s'(1,2) informed_one [OF s'(3) refl cn _, of "unat idx"] num by (intro exI) (auto simp: t)
  next
    case (Some n)
    then obtain j c2 where some: "nearest = Some (j, c2)" by (cases n) simp
    with take_nearest_left_some [OF oks(1), of idx l' j c2] near
    have l': "spans l = spans l' @ [(unat j, unat c2)]" "unat j + unat c2 = unat idx" "heap l'" "GetCount l' \<le> c"
      using heap by auto
    have c2: "0 < unat c2" and ls: "\<forall>x \<in> set (spans l'). fst x + snd x < unat j"
      using ok by (auto simp: l' spans_ok_simps span_ok_def apart_def)
    have cn2: "unat (c + num + c2) = unat c + unat num + unat c2"
      using unat_add_u32 [of "c + num" c2] cn ic idx l'(2) by simp
    have t: "t = Node l' j (c + num + c2) r" and s': "totalCount s' = totalCount s + num" "root s' = root s"
      "region_calls s' = region_calls s @ (if refresh
         then [InitFreeRegion idx (c + num), InitFreeRegion j (c + num + c2)] else [])"
      using run near some cn num cn2
      by (auto simp: MergeToLeft_def UpdateNode_def IncTotalCount_def call_region_def u32_nat Let_def)
    have "merged (unat idx) (unat num) (unat j) (unat (c + num + c2)) (spans (Node l i c r)) (spans t)"
      unfolding merged_def
      by (intro exI [of _ "spans l'"] exI [of _ "[(unat j, unat c2), (unat i, unat c)]"]
          exI [of _ "spans r"])
        (use oks l' ls idx ic num c2 in \<open>auto simp: t cn2 tile_def span_units_def\<close>)
    moreover have "c \<le> c + num + c2" using cn2 by (simp add: u32_nat)
    moreover have "informed refresh (unat idx) (unat j) (unat (c + num + c2)) s s'"
      by (rule informed_two [OF s'(3)]) (use cn cn2 num l'(2) in simp_all)
    ultimately show ?thesis
      unfolding merge_outcome_def
      using heap s' l' by (intro exI) (auto simp: t)
  qed
qed

definition overlaps :: "nat \<Rightarrow> nat \<Rightarrow> span list \<Rightarrow> bool" where
  "overlaps a n xs \<longleftrightarrow> cover xs \<inter> {a ..< a + n} \<noteq> {}"

lemma overlapsI: "x \<in> set xs \<Longrightarrow> u \<in> span_units x \<Longrightarrow> a \<le> u \<Longrightarrow> u < a + n \<Longrightarrow> overlaps a n xs"
  by (force simp: overlaps_def cover_def)

text \<open>The three results at a node.\<close>

lemma MergeAt_cases:
  assumes ok: "spans_ok (spans (Node l i c r))" and heap: "heap (Node l i c r)"
    and num: "0 < unat num" and bound: "unat idx + unat num < 2 ^ 32"
    and run: "MergeAt (Node l i c r) idx num refresh s = (res, t, s')"
  shows "case res of
      MERGE_SUCCESS \<Rightarrow> merge_outcome idx num refresh (spans (Node l i c r)) c s t s'
    | MERGE_ERROR \<Rightarrow> overlaps (unat idx) (unat num) (spans (Node l i c r))
    | MERGE_MISS \<Rightarrow> unat idx \<noteq> unat i + unat c \<and> unat idx + unat num \<noteq> unat i"
proof -
  note e = unat_add_u32 [OF bound] and ic = unat_end [OF ok]
  have oks: "spans_ok (spans l)" "spans_ok (spans r)"
    "\<forall>x \<in> set (spans l). fst x + snd x < unat i \<and> 0 < snd x"
    "\<forall>x \<in> set (spans r). unat i + unat c < fst x \<and> 0 < snd x"
    using ok by (auto simp: spans_ok_simps apart_def span_ok_def) (auto simp: spans_ok_def span_ok_def)
  consider (right) "idx = i + c" | (left) "idx \<noteq> i + c" "idx + num = i" | (miss) "idx \<noteq> i + c" "idx + num \<noteq> i"
    by blast
  then show ?thesis
  proof cases
    case right
    then have run': "MergeToRight (Node l i c r) (idx + num) num refresh s = (res, t, s')"
      using run by (simp add: MergeAt_def)
    show ?thesis
    proof (cases "take_nearest_right (idx + num) r")
      case None
      with take_nearest_right_None [OF oks(2) this] obtain x where x: "x \<in> set (spans r)" "fst x < unat (idx + num)"
        by blast
      have "overlaps (unat idx) (unat num) (spans (Node l i c r))"
        by (rule overlapsI [of x _ "fst x"]) (use x oks(4) right ic e in \<open>auto simp: span_units_def\<close>)
      with None run' show ?thesis by (auto simp: MergeToRight_def)
    next
      case (Some z)
      then have "res = MERGE_SUCCESS"
        using run' by (auto simp: MergeToRight_def IncCount_def Let_def split: prod.splits option.splits)
      with MergeToRight_outcome [OF ok heap num bound] run' right ic show ?thesis by simp
    qed
  next
    case left
    then have run': "MergeToLeft (Node l i c r) idx num refresh s = (res, t, s')"
      using run by (simp add: MergeAt_def)
    show ?thesis
    proof (cases "take_nearest_left idx l")
      case None
      with take_nearest_left_None [OF oks(1) this] obtain x where x: "x \<in> set (spans l)" "unat idx < fst x + snd x"
        by blast
      have "overlaps (unat idx) (unat num) (spans (Node l i c r))"
        by (rule overlapsI [of x _ "max (fst x) (unat idx)"]) (use x oks(3) left e num in \<open>auto simp: span_units_def\<close>)
      with None run' show ?thesis by (auto simp: MergeToLeft_def)
    next
      case (Some z)
      then have "res = MERGE_SUCCESS"
        using run' by (auto simp: MergeToLeft_def UpdateNode_def Let_def split: prod.splits option.splits)
      with MergeToLeft_outcome [OF ok heap num bound] run' left e show ?thesis by simp
    qed
  next
    case miss
    with run have "res = MERGE_MISS" by (simp add: MergeAt_def)
    with miss e ic show ?thesis by (simp add: u32_nat)
  qed
qed

section \<open>The way down and back\<close>

text \<open>What lies to the left and to the right of the slots on a stack.\<close>

fun frames_before :: "frame list \<Rightarrow> span list" where
  "frames_before [] = []"
| "frames_before (ViaLeft i c r # fs) = frames_before fs"
| "frames_before (ViaRight l i c # fs) = frames_before fs @ spans l @ [(unat i, unat c)]"

fun frames_after :: "frame list \<Rightarrow> span list" where
  "frames_after [] = []"
| "frames_after (ViaLeft i c r # fs) = (unat i, unat c) # spans r @ frames_after fs"
| "frames_after (ViaRight l i c # fs) = frames_after fs"

fun frames_heap :: "u32 \<Rightarrow> frame list \<Rightarrow> bool" where
  "frames_heap b [] \<longleftrightarrow> True"
| "frames_heap b (ViaLeft i c r # fs) \<longleftrightarrow> b \<le> c \<and> heap r \<and> GetCount r \<le> c \<and> frames_heap c fs"
| "frames_heap b (ViaRight l i c # fs) \<longleftrightarrow> b \<le> c \<and> heap l \<and> GetCount l \<le> c \<and> frames_heap c fs"

lemma spans_plug_all: "spans (plug_all fs t) = frames_before fs @ spans t @ frames_after fs"
proof (induction fs arbitrary: t)
  case (Cons f fs)
  then show ?case by (cases f) simp_all
qed simp

lemma heap_plug_all: "frames_heap (GetCount t) fs \<Longrightarrow> heap t \<Longrightarrow> heap (plug_all fs t)"
proof (induction fs arbitrary: t)
  case (Cons f fs)
  then show ?case by (cases f) simp_all
qed simp

text \<open>Everything on the stack keeps its distance from the new units.\<close>

definition clear_of :: "nat \<Rightarrow> nat \<Rightarrow> frame list \<Rightarrow> bool" where
  "clear_of a n fs \<longleftrightarrow>
     (\<forall>x \<in> set (frames_before fs). fst x + snd x < a) \<and> (\<forall>x \<in> set (frames_after fs). a + n < fst x)"

lemma merge_down_correct:
  assumes "spans_ok (spans t)" and "heap t" and "clear_of (unat idx) (unat num) fs"
    and "frames_heap (GetCount t) fs" and num: "0 < unat num" and bound: "unat idx + unat num < 2 ^ 32"
  shows "case merge_down idx num refresh s fs t of
      None \<Rightarrow> overlaps (unat idx) (unat num) (spans t)
    | Some (node, gs, s') \<Rightarrow> clear_of (unat idx) (unat num) gs \<and>
        (\<exists>xs c. frames_heap c gs \<and> merge_outcome idx num refresh xs c s node s' \<and>
          frames_before gs @ xs @ frames_after gs = spans (plug_all fs t))"
  using assms(1-4)
proof (induction t arbitrary: fs)
  case Null
  have "merged (unat idx) (unat num) (unat idx) (unat num) [] [(unat idx, unat num)]"
    unfolding merged_def
    by (intro exI [of _ "[]"]) (use num bound in \<open>auto simp: tile_def\<close>)
  then have "merge_outcome idx num refresh [] 0 s (Node Null idx num Null)
      (IncTotalCount num (snd (new_node idx num refresh s)))"
    unfolding merge_outcome_def
    by (intro exI) (use num in \<open>auto simp: new_node_def IncTotalCount_def call_region_def intro!: informed_one\<close>)
  with Null show ?case
    by (auto simp: new_node_def spans_plug_all intro: exI [of _ "[]"] exI [of _ 0])
next
  case (Node l i c r)
  obtain res t s' where at: "MergeAt (Node l i c r) idx num refresh s = (res, t, s')"
    by (cases "MergeAt (Node l i c r) idx num refresh s")
  note here = MergeAt_cases [OF Node.prems(1,2) num bound at]
  show ?case
  proof (cases res)
    case MERGE_SUCCESS
    with here at Node.prems(3,4) show ?thesis
      by (auto simp: spans_plug_all intro!: exI [of _ "spans (Node l i c r)"] exI [of _ c])
  next
    case MERGE_ERROR
    with here at show ?thesis by simp
  next
    case MERGE_MISS
    note ic = unat_end [OF Node.prems(1)] and e = unat_add_u32 [OF bound]
    have oks: "spans_ok (spans l)" "spans_ok (spans r)" "0 < unat c"
      "\<forall>x \<in> set (spans l). fst x + snd x < unat i" "\<forall>x \<in> set (spans r). unat i + unat c < fst x"
      using Node.prems(1) by (auto simp: spans_ok_simps apart_def span_ok_def)
    consider (left) "unat idx + unat num < unat i" | (right) "unat i + unat c < unat idx"
      | (inside) "unat i < unat idx + unat num" "unat idx < unat i + unat c"
      using MERGE_MISS here by fastforce
    then show ?thesis
    proof cases
      case left
      let ?fs = "ViaLeft i c r # fs"
      have "clear_of (unat idx) (unat num) ?fs" "frames_heap (GetCount l) ?fs"
        using left Node.prems oks(5) by (fastforce simp: clear_of_def)+
      from Node.IH(1) [OF oks(1) _ this] Node.prems(2) have IH: "case merge_down idx num refresh s ?fs l of
          None \<Rightarrow> overlaps (unat idx) (unat num) (spans l)
        | Some (node, gs, s') \<Rightarrow> clear_of (unat idx) (unat num) gs \<and>
            (\<exists>xs c. frames_heap c gs \<and> merge_outcome idx num refresh xs c s node s' \<and>
              frames_before gs @ xs @ frames_after gs = spans (plug_all ?fs l))" by simp
      have "merge_down idx num refresh s fs (Node l i c r) = merge_down idx num refresh s ?fs l"
        using at MERGE_MISS left e by (simp add: u32_nat)
      with IH show ?thesis by (auto simp: overlaps_def split: option.splits)
    next
      case right
      let ?fs = "ViaRight l i c # fs"
      have "clear_of (unat idx) (unat num) ?fs" "frames_heap (GetCount r) ?fs"
        using right Node.prems oks(4) by (fastforce simp: clear_of_def)+
      from Node.IH(2) [OF oks(2) _ this] Node.prems(2) have IH: "case merge_down idx num refresh s ?fs r of
          None \<Rightarrow> overlaps (unat idx) (unat num) (spans r)
        | Some (node, gs, s') \<Rightarrow> clear_of (unat idx) (unat num) gs \<and>
            (\<exists>xs c. frames_heap c gs \<and> merge_outcome idx num refresh xs c s node s' \<and>
              frames_before gs @ xs @ frames_after gs = spans (plug_all ?fs r))" by simp
      have "\<not> idx + num < i" using right e oks(3) by (simp add: u32_nat)
      then have "merge_down idx num refresh s fs (Node l i c r) = merge_down idx num refresh s ?fs r"
        using at MERGE_MISS right ic by (simp add: u32_nat)
      with IH show ?thesis by (auto simp: overlaps_def split: option.splits)
    next
      case inside
      have "overlaps (unat idx) (unat num) (spans (Node l i c r))"
        by (rule overlapsI [of "(unat i, unat c)" _ "max (unat i) (unat idx)"])
          (use inside num oks(3) in \<open>auto simp: span_units_def\<close>)
      moreover have "\<not> idx + num < i" "\<not> idx > i + c" using inside e ic by (simp_all add: u32_nat)
      then have "merge_down idx num refresh s fs (Node l i c r) = None"
        using at MERGE_MISS by simp
      ultimately show ?thesis by simp
    qed
  qed
qed

lemma merge_up_correct:
  assumes "clear_of (unat idx) (unat num) fs" and "frames_heap b fs"
    and "\<forall>x \<in> set (frames_before fs @ frames_after fs). fst x + snd x < 2 ^ 32"
    and "unat idx + unat num < 2 ^ 32"
    and "heap l" and "heap r" and "GetCount l \<le> b" and "GetCount r \<le> b" and "b \<le> c"
  shows "\<exists>t. merge_up idx num fs (Node l i c r) = (True, t) \<and> heap t \<and>
    spans t = spans (plug_all fs (Node l i c r))"
  using assms
proof (induction fs arbitrary: b l i c r)
  case Nil
  then show ?case by auto
next
  case (Cons f fs)
  note e = unat_add_u32 [OF Cons.prems(4)]
  have clear: "clear_of (unat idx) (unat num) fs"
    and small: "\<forall>x \<in> set (frames_before fs @ frames_after fs). fst x + snd x < 2 ^ 32"
    using Cons.prems(1,3) by (cases f; auto simp: clear_of_def)+
  have lc: "GetCount l \<le> c" "GetCount r \<le> c" using Cons.prems(7-9) by auto
  show ?case
  proof (cases f)
    case (ViaLeft j d q)
    have "unat idx + unat num < unat j" using Cons.prems(1) ViaLeft by (simp add: clear_of_def)
    then have cmp: "idx + num < j" using e by (simp add: u32_nat)
    show ?thesis
    proof (cases "d < c")
      case True
      with Cons.IH [OF clear _ small Cons.prems(4), of d l "Node r j d q" c i] Cons.prems(2,5-9) ViaLeft cmp
      show ?thesis by (auto simp: spans_plug_all)
    next
      case False
      with heap_plug_all [of "Node (Node l i c r) j d q" fs] Cons.prems(2,5,6) ViaLeft cmp lc
      show ?thesis by simp
    qed
  next
    case (ViaRight q j d)
    have jd: "unat j + unat d < unat idx" "unat j + unat d < 2 ^ 32"
      using Cons.prems(1,3) ViaRight by (auto simp: clear_of_def)
    then have cmp: "\<not> idx + num < j" "j + d < idx"
      using e unat_add_u32 [OF jd(2)] by (simp_all add: u32_nat)
    show ?thesis
    proof (cases "d < c")
      case True
      with Cons.IH [OF clear _ small Cons.prems(4), of d "Node q j d l" r c i] Cons.prems(2,5-9) ViaRight cmp
      show ?thesis by (auto simp: spans_plug_all)
    next
      case False
      with heap_plug_all [of "Node q j d (Node l i c r)" fs] Cons.prems(2,5,6) ViaRight cmp lc
      show ?thesis by simp
    qed
  qed
qed

section \<open>Insertion\<close>

lemma MergeInsert_cases:
  assumes inv: "tree_inv s" and num: "0 < unat num" and bound: "unat idx + unat num < 2 ^ 32"
    and run: "MergeInsert idx num refresh s = (ok, s')"
  shows "\<not> ok \<and> s' = s \<and> overlaps (unat idx) (unat num) (spans (root s)) \<or>
    ok \<and> (\<exists>b m. merged (unat idx) (unat num) b m (spans (root s)) (spans (root s')) \<and> heap (root s') \<and>
      informed refresh (unat idx) b m s s' \<and> totalCount s' = totalCount s + num)"
proof (cases "root s = Null")
  case True
  have "merged (unat idx) (unat num) (unat idx) (unat num) [] [(unat idx, unat num)]"
    unfolding merged_def
    by (intro exI [of _ "[]"]) (use num bound in \<open>auto simp: tile_def\<close>)
  moreover have ok and "root s' = Node Null idx num Null" "totalCount s' = totalCount s + num"
    "informed refresh (unat idx) (unat idx) (unat num) s s'"
    using True run
    by (auto simp: MergeInsert_def new_node_def IncTotalCount_def call_region_def intro!: informed_one num)
  ultimately show ?thesis
    using True by (intro disjI2 conjI) (simp, intro exI conjI, simp_all)
next
  case False
  then have run': "MergeInsertInternal idx num refresh s = (ok, s')"
    using run num by (cases "num = 0") (simp_all add: MergeInsert_def)
  have ok0: "spans_ok (spans (root s))" "heap (root s)" using inv by (simp_all add: tree_inv_def)
  have "clear_of (unat idx) (unat num) []" by (simp add: clear_of_def)
  from merge_down_correct [OF ok0 this _ num bound, of refresh s]
  have down: "case merge_down idx num refresh s [] (root s) of
      None \<Rightarrow> overlaps (unat idx) (unat num) (spans (root s))
    | Some (node, gs, s') \<Rightarrow> clear_of (unat idx) (unat num) gs \<and>
        (\<exists>xs c. frames_heap c gs \<and> merge_outcome idx num refresh xs c s node s' \<and>
          frames_before gs @ xs @ frames_after gs = spans (root s))"
    unfolding plug_all.simps frames_heap.simps by simp
  show ?thesis
  proof (cases "merge_down idx num refresh s [] (root s)")
    case None
    with down run' show ?thesis by (simp add: MergeInsertInternal_def)
  next
    case (Some z)
    obtain node gs s1 where z: "merge_down idx num refresh s [] (root s) = Some (node, gs, s1)"
      using Some by (cases z) auto
    with down obtain xs c where clear: "clear_of (unat idx) (unat num) gs" and fh: "frames_heap c gs"
      and out: "merge_outcome idx num refresh xs c s node s1"
      and split: "spans (root s) = frames_before gs @ xs @ frames_after gs" by auto
    from out obtain b m l' i' c' r' where node: "node = Node l' i' c' r'"
      and mg: "merged (unat idx) (unat num) b m xs (spans node)"
      and h: "heap l'" "heap r'" "GetCount l' \<le> c" "GetCount r' \<le> c" "c \<le> c'"
      and s1: "informed refresh (unat idx) b m s s1" "totalCount s1 = totalCount s + num"
      unfolding merge_outcome_def by (elim exE conjE)
    have small: "\<forall>x \<in> set (frames_before gs @ frames_after gs). fst x + snd x < 2 ^ 32"
      using ok0(1) split by (auto simp: spans_ok_def span_ok_def)
    from merge_up_correct [OF clear fh small bound h, of i'] obtain t where
      up: "merge_up idx num gs node = (True, t)" "heap t" "spans t = spans (plug_all gs node)"
      unfolding node by blast
    have "merged (unat idx) (unat num) b m (spans (root s)) (spans t)"
      using merged_context [OF mg, of "frames_before gs" "frames_after gs"] clear
      by (simp add: up(3) spans_plug_all split clear_of_def)
    moreover have ok "s' = s1\<lparr>root := t\<rparr>" using run' z up(1) by (auto simp: MergeInsertInternal_def)
    moreover have "informed refresh (unat idx) b m s (s1\<lparr>root := t\<rparr>)"
      using s1(1) by simp
    ultimately show ?thesis
      using up(2) s1(2) by (intro disjI2 conjI) (simp, intro exI conjI, simp_all)
  qed
qed

lemma merged_inv:
  assumes "tree_inv s" and "merged a (unat num) b m (spans (root s)) (spans (root s'))" and "heap (root s')"
    and "totalCount s' = totalCount s + num"
  shows "tree_inv s'"
proof -
  from assms(1) have ok: "spans_ok (spans (root s))" by (simp add: tree_inv_def)
  note m = merged_correct [OF assms(2) ok]
  have "unat (totalCount s) + unat num < 2 ^ 32"
    using total_less [OF m(1)] m(4) assms(1) by (simp add: tree_inv_def)
  from unat_add_u32 [OF this] m assms show ?thesis by (simp add: tree_inv_def)
qed

lemma MergeInsert_set_insert:
  assumes "tree_inv s" and "num \<noteq> 0" and "unat idx + unat num < 2 ^ 32"
    and "MergeInsert idx num refresh s = (ok, s')"
  shows "tree_inv s' \<and> (ok \<longleftrightarrow> free_units s \<inter> {unat idx ..< unat idx + unat num} = {}) \<and>
    (if ok then free_units s' = free_units s \<union> {unat idx ..< unat idx + unat num} else s' = s)"
proof -
  have num: "0 < unat num" using assms(2) by (simp add: unat_gt_0)
  from MergeInsert_cases [OF assms(1) num assms(3,4)] show ?thesis
  proof (elim disjE conjE exE)
    fix b m
    assume ok: ok and mg: "merged (unat idx) (unat num) b m (spans (root s)) (spans (root s'))"
      and "heap (root s')" "totalCount s' = totalCount s + num"
    from merged_inv [OF assms(1) mg this(3,4)] merged_correct(2,3) [OF mg] assms(1) ok show ?thesis
      by (simp add: free_units_def tree_inv_def)
  qed (use assms(1) in \<open>simp add: free_units_def overlaps_def\<close>)
qed

text \<open>
  What an operation that refreshes the region table tells it: only of free regions among the units
  free afterwards, and at last, of every run of the tree that it does not leave as it was, that run.
\<close>

definition told :: "cartesian_tree \<Rightarrow> cartesian_tree \<Rightarrow> bool" where
  "told s s' \<longleftrightarrow> (\<exists>ks. region_calls s' = region_calls s @ ks \<and> (\<forall>k \<in> set ks. call_on (free_units s') k) \<and>
     (\<forall>x \<in> set (spans (root s')). case free_region_info ks (fst x) of
        None \<Rightarrow> x \<in> set (spans (root s)) | Some m \<Rightarrow> m = snd x))"

lemma told_refl [simp]: "told s s"
  by (simp add: told_def)

lemma told_one:
  assumes "region_calls s' = region_calls s @ (if 0 < unat n then [InitFreeRegion i n] else [])"
    and "{unat i ..< unat i + unat n} \<subseteq> free_units s'"
    and "\<And>x. x \<in> set (spans (root s')) \<Longrightarrow> x \<in> set (spans (root s)) \<and> fst x \<noteq> unat i \<or> x = (unat i, unat n) \<and> 0 < unat n"
  shows "told s s'"
  using assms(1,2) assms(3) free_region_info_snoc [of "[]" "InitFreeRegion i n"]
  unfolding told_def by (intro exI [of _ "if 0 < unat n then [InitFreeRegion i n] else []"]) fastforce

lemma MergeInsert_told:
  assumes "tree_inv s" and "num \<noteq> 0" and "unat idx + unat num < 2 ^ 32"
    and "MergeInsert idx num True s = (ok, s')"
  shows "told s s'"
proof -
  have num: "0 < unat num" using assms(2) by (simp add: unat_gt_0)
  from MergeInsert_cases [OF assms(1) num assms(3,4)] show ?thesis
  proof (elim disjE conjE exE)
    fix b m
    assume mg: "merged (unat idx) (unat num) b m (spans (root s)) (spans (root s'))"
      and inf: "informed True (unat idx) b m s s'"
    from inf obtain ks where ks: "region_calls s' = region_calls s @ ks" "\<forall>k \<in> set ks. call_on {b ..< b + m} k"
      "free_region_info ks b = Some m" "\<And>u. u \<noteq> unat idx \<Longrightarrow> u \<noteq> b \<Longrightarrow> free_region_info ks u = None"
      by (auto simp: informed_def)
    have "(b, m) \<in> set (spans (root s'))" using mg by (auto simp: merged_def)
    then have "{b ..< b + m} \<subseteq> free_units s'" by (force simp: free_units_def cover_def span_units_def)
    with ks(2) have "\<forall>k \<in> set ks. call_on (free_units s') k" using call_on_mono by blast
    moreover have "case free_region_info ks (fst x) of None \<Rightarrow> x \<in> set (spans (root s)) | Some k \<Rightarrow> k = snd x"
      if "x \<in> set (spans (root s'))" for x
      using merged_correct(5) [OF mg _ that] assms(1) ks(3) ks(4) [of "fst x"] by (auto simp: tree_inv_def)
    ultimately show ?thesis using ks(1) unfolding told_def by blast
  qed simp
qed

text \<open>
  C1. \<open>MergeInsert\<close> refines the insertion of units into a set: it answers false, and changes
  nothing, exactly when one of the units is already free; otherwise the free units grow by exactly
  the new ones, and the tree keeps its invariant: runs sorted and apart (so neighbours have
  been joined), counts decreasing downwards, the total the number of free units.
\<close>

theorem MergeInsert_refines_set_insert:
  assumes "tree_inv s" and "num \<noteq> 0" and "unat idx + unat num < 2 ^ 32"
    and "MergeInsert idx num refresh s = (ok, s')"
  shows "tree_inv s' \<and> (ok \<longleftrightarrow> free_units s \<inter> {unat idx ..< unat idx + unat num} = {}) \<and>
    (if ok then free_units s' = free_units s \<union> {unat idx ..< unat idx + unat num} else s' = s)"
  using assms by (rule MergeInsert_set_insert)

text \<open>
  C30. The region table follows: if it knows every run of the tree by its first unit and length, it
  does so again after an insertion that refreshes it.
\<close>

theorem MergeInsert_regions_known:
  assumes "tree_inv s" and "regions_known s" and "num \<noteq> 0" and "unat idx + unat num < 2 ^ 32"
  shows "regions_known (snd (MergeInsert idx num True s))"
proof -
  obtain ok s' where run: "MergeInsert idx num True s = (ok, s')" by fastforce
  have num: "0 < unat num" using assms(3) by (simp add: unat_gt_0)
  from MergeInsert_cases [OF assms(1) num assms(4) run] show ?thesis
  proof (elim disjE conjE exE)
    fix b m
    assume mg: "merged (unat idx) (unat num) b m (spans (root s)) (spans (root s'))"
      and inf: "informed True (unat idx) b m s s'"
    have "free_region_info (region_calls s') (fst x) = Some (snd x)" if "x \<in> set (spans (root s'))" for x
      using merged_correct(5) [OF mg _ that] assms(1,2) inf
      by (auto simp: tree_inv_def informed_def regions_known_def free_region_info_append map_add_def split: option.splits)
    then show ?thesis by (simp add: run regions_known_def)
  qed (use assms(2) in \<open>simp add: run\<close>)
qed

end
