(* ===== verification/TakeUnitsSpec.thy ===== *)
theory TakeUnitsSpec
  imports MergeUnits
begin

text \<open>
  The correctness of the allocation functions of the tree: \<open>TakeUnitsLowAddr\<close> takes the front of
  the best-fitting run, the one at the lowest address among those, and \<open>TakeUnits\<close> of some
  run that fits; both remove exactly the units they return and keep the invariant.
\<close>

section \<open>Shrinking a run\<close>

definition shrunk :: "nat \<Rightarrow> nat \<Rightarrow> nat \<Rightarrow> span list" where
  "shrunk a k n = (if k = n then [] else [(a + n, k - n)])"

lemma shrunk_correct:
  assumes ok: "spans_ok (ps @ (a, k) # qs)" and "0 < n" and "n \<le> k"
  shows "spans_ok (ps @ shrunk a k n @ qs)"
    and "cover (ps @ shrunk a k n @ qs) = cover (ps @ (a, k) # qs) - {a ..< a + n}"
    and "{a ..< a + n} \<subseteq> cover (ps @ (a, k) # qs)"
    and "span_total (ps @ shrunk a k n @ qs) = span_total (ps @ (a, k) # qs) - n"
    and "\<And>x. x \<in> set ps \<or> x \<in> set qs \<Longrightarrow> fst x \<noteq> a + n"
proof -
  have ap: "\<And>x. x \<in> set ps \<Longrightarrow> fst x + snd x < a" "\<And>x. x \<in> set qs \<Longrightarrow> a + k < fst x"
    using ok by (auto simp: spans_ok_simps apart_def)
  show "spans_ok (ps @ shrunk a k n @ qs)"
    using assms by (fastforce simp: shrunk_def spans_ok_simps apart_def span_ok_def)
  have "span_units x \<inter> {a ..< a + n} = {}" if "x \<in> set ps \<or> x \<in> set qs" for x
    using that ap assms(3) by (fastforce simp: span_units_def)
  then have "cover ps \<inter> {a ..< a + n} = {}" "cover qs \<inter> {a ..< a + n} = {}"
    by (fastforce simp: cover_def)+
  then show "cover (ps @ shrunk a k n @ qs) = cover (ps @ (a, k) # qs) - {a ..< a + n}"
    using assms(2,3) by (auto simp: shrunk_def span_units_def)
  show "{a ..< a + n} \<subseteq> cover (ps @ (a, k) # qs)" using assms(3) by (auto simp: span_units_def)
  show "span_total (ps @ shrunk a k n @ qs) = span_total (ps @ (a, k) # qs) - n"
    using assms(3) by (simp add: shrunk_def)
  show "fst x \<noteq> a + n" if "x \<in> set ps \<or> x \<in> set qs" for x
    using that ap [of x] assms(3) by auto
qed

section \<open>Taking from a node\<close>

definition node_span :: "cnode \<Rightarrow> span" where
  "node_span n = (unat (GetIndex n), unat (GetCount n))"

lemma node_span_in: "read_slot t p \<noteq> Null \<Longrightarrow> node_span (read_slot t p) \<in> set (spans t)"
  using spans_slot [OF valid_nonnull, of t p] by (cases "read_slot t p") (auto simp: node_span_def)

text \<open>What every successful allocation of \<open>n\<close> units at \<open>a\<close> does.\<close>

definition taken :: "nat \<Rightarrow> nat \<Rightarrow> cartesian_tree \<Rightarrow> cartesian_tree \<Rightarrow> bool" where
  "taken a n s s' \<longleftrightarrow> tree_inv s' \<and> {a ..< a + n} \<subseteq> free_units s \<and> free_units s' = free_units s - {a ..< a + n}"

lemma take_front_correct:
  assumes inv: "tree_inv s" and node: "read_slot (root s) p = Node l i c r"
    and num: "0 < unat num" "num \<le> c"
  shows "\<exists>s'. take_front p num refresh s = Inr (Some i, s') \<and> taken (unat i) (unat num) s s' \<and>
    (refresh \<and> regions_known s \<longrightarrow> regions_known s') \<and> (refresh \<longrightarrow> told s s')"
proof -
  let ?bs = "before (root s) p @ spans l" and ?as = "spans r @ after (root s) p"
  have valid: "valid_slot (root s) p" using node by (intro valid_nonnull) simp
  have sp: "spans (root s) = ?bs @ (unat i, unat c) # ?as"
    using spans_slot [OF valid] node by simp
  have ok: "spans_ok (spans (root s))" and hp: "heap (root s)"
    and tot: "unat (totalCount s) = span_total (spans (root s))" using inv by (simp_all add: tree_inv_def)
  have hn: "heap l" "heap r" "GetCount l \<le> c" "GetCount r \<le> c"
    using heap_read_slot [OF hp, of p] node by simp_all
  have nc: "unat num \<le> unat c" using num(2) by (simp add: word_le_nat_alt)
  have cn: "unat (c - num) = unat c - unat num" using num(2) by (rule unat_sub)
  have ic: "unat i + unat c < 2 ^ 32" using ok by (simp add: sp spans_ok_simps span_ok_def)
  then have inn: "unat (i + num) = unat i + unat num" using nc by (intro unat_add_u32) simp
  note sh = shrunk_correct [OF ok [unfolded sp] num(1) nc]
  let ?node = "Node l (i + num) (c - num) r"
  define s1 where "s1 = (if refresh \<and> c - num > 0 then call_region (InitFreeRegion (i + num) (c - num)) s else s)"
  have enough: "num \<le> totalCount s" using nc tot by (simp add: word_le_nat_alt sp)
  define s2 where "s2 = s1\<lparr>root := write_slot (root s) p ?node, totalCount := totalCount s - num\<rparr>"
  have r2: "read_slot (root s2) p = ?node" by (simp add: s2_def read_write_slot [OF valid])
  have zero: "c - num = 0 \<longleftrightarrow> unat c = unat num" using nc by (auto simp: word_unat_eq_iff cn)
  have run: "take_front p num refresh s =
      (if c - num = 0 then and_then (RemoveZeroNode p s2) (\<lambda>s3. Inr (Some i, s3))
       else Inr (Some i, LowerNonZeroNode p s2))"
    using enough [unfolded not_less [symmetric]] by (simp add: take_front_def node UpdateNode_def DecTotalCount_def s1_def s2_def
        call_region_def Let_def)
  have w2: "write_slot (root s2) p n = write_slot (root s) p n" for n
    by (simp add: s2_def write_write_slot)
  obtain n s3 where s3: "take_front p num refresh s = Inr (Some i, s3)"
    "s3 = s2\<lparr>root := write_slot (root s) p n\<rparr>"
    and n: "spans n = spans l @ shrunk (unat i) (unat c) (unat num) @ spans r" "heap n" "GetCount n \<le> c"
  proof (cases "c - num = 0")
    case True
    from RemoveZeroNode_correct [OF r2 hn(1,2)] obtain n where
      "RemoveZeroNode p s2 = Inr (s2\<lparr>root := write_slot (root s2) p n\<rparr>)" "spans n = spans l @ spans r"
      "heap n" "GetCount n = max (GetCount l) (GetCount r)" by (elim exE conjE)
    with True zero hn(3,4) that [of "s2\<lparr>root := write_slot (root s) p n\<rparr>" n] show ?thesis
      by (simp add: run w2 shrunk_def)
  next
    case False
    from LowerNonZeroNode_correct [OF r2 hn(1,2)] obtain n where
      "LowerNonZeroNode p s2 = s2\<lparr>root := write_slot (root s2) p n\<rparr>"
      "spans n = spans l @ (unat (i + num), unat (c - num)) # spans r"
      "heap n" "GetCount n = max (c - num) (max (GetCount l) (GetCount r))" by (elim exE conjE)
    moreover have "c - num \<le> c" using cn by (simp add: word_le_nat_alt)
    ultimately show ?thesis
      using False zero hn(3,4) inn cn that [of "s2\<lparr>root := write_slot (root s) p n\<rparr>" n]
      by (simp add: run w2 shrunk_def)
  qed
  have sp3: "spans (root s3) = ?bs @ shrunk (unat i) (unat c) (unat num) @ ?as"
    by (simp add: s3(2) spans_write_slot [OF valid] n(1))
  have "heap (root s3)"
    using heap_write_slot [OF hp n(2), of p] n(3) node by (simp add: s3(2))
  moreover have "unat (totalCount s - num) = unat (totalCount s) - unat num" using enough by (rule unat_sub)
  moreover have tc: "totalCount s3 = totalCount s - num" by (simp add: s3(2) s2_def)
  ultimately have "taken (unat i) (unat num) s s3"
    using sh(1-4) tot by (simp add: taken_def tree_inv_def free_units_def sp3 sp tc)
  moreover have "regions_known s3" if "refresh" "regions_known s"
  proof -
    have "free_region_info (region_calls s3) (fst x) = Some (snd x)" if x: "x \<in> set (spans (root s3))" for x
    proof (cases "x \<in> set ?bs \<or> x \<in> set ?as")
      case True
      then have "free_region_info (region_calls s) (fst x) = Some (snd x)"
        using \<open>regions_known s\<close> by (auto simp: regions_known_def sp)
      with sh(5) [of x] True inn show ?thesis
        by (auto simp: s3(2) s2_def s1_def call_region_def)
    next
      case False
      with x have "x = (unat i + unat num, unat c - unat num)" "unat c \<noteq> unat num"
        by (auto simp: sp3 shrunk_def split: if_splits)
      with \<open>refresh\<close> zero inn cn show ?thesis
        by (auto simp: s3(2) s2_def s1_def call_region_def word_gt_0)
    qed
    then show ?thesis by (simp add: regions_known_def)
  qed
  moreover have "told s s3" if "refresh"
  proof (rule told_one)
    show "region_calls s3 = region_calls s @ (if 0 < unat (c - num) then [InitFreeRegion (i + num) (c - num)] else [])"
      using \<open>refresh\<close> by (simp add: s3(2) s2_def s1_def call_region_def word_less_nat_alt)
    show "{unat (i + num) ..< unat (i + num) + unat (c - num)} \<subseteq> free_units s3"
      using cn inn zero by (auto simp: free_units_def sp3 shrunk_def cover_def span_units_def)
    show "x \<in> set (spans (root s)) \<and> fst x \<noteq> unat (i + num) \<or> x = (unat (i + num), unat (c - num)) \<and> 0 < unat (c - num)"
      if "x \<in> set (spans (root s3))" for x
      using that sh(5) [of x] inn cn nc by (auto simp: sp3 sp shrunk_def split: if_splits)
  qed
  ultimately show ?thesis using s3(1) by blast
qed

section \<open>The best fit\<close>

text \<open>\<open>x\<close> is at least as good a fit as \<open>y\<close>: smaller, or as small and at no higher an address.\<close>

definition fit_le :: "span \<Rightarrow> span \<Rightarrow> bool" where
  "fit_le x y \<longleftrightarrow> snd x < snd y \<or> snd x = snd y \<and> fst x \<le> fst y"

lemma fit_le_trans: "fit_le x y \<Longrightarrow> fit_le y z \<Longrightarrow> fit_le x z"
  by (auto simp: fit_le_def)

lemma fit_le_refl [simp]: "fit_le x x"
  by (simp add: fit_le_def)

text \<open>The runs that fit in the subtrees of a stack of slots, from the top of the stack.\<close>

definition stack_spans :: "cnode \<Rightarrow> slot list \<Rightarrow> span list" where
  "stack_spans t stack = concat (map (\<lambda>p. spans (read_slot t p)) stack)"

lemma stack_spans_simps [simp]:
  "stack_spans t [] = []"
  "stack_spans t (p # stack) = spans (read_slot t p) @ stack_spans t stack"
  by (simp_all add: stack_spans_def)

abbreviation ascending :: "span list \<Rightarrow> bool" where
  "ascending \<equiv> sorted_wrt (\<lambda>x y. fst x < fst y)"

text \<open>
  The invariant of the search: the stack is in the order of addresses, and once the best fit is
  exact, what is left on the stack lies above it, except that the top may be what is below the
  best, where no run is larger.
\<close>

definition search_inv :: "cnode \<Rightarrow> nat \<Rightarrow> slot list \<Rightarrow> slot option \<Rightarrow> bool" where
  "search_inv t n stack best \<longleftrightarrow> ascending (stack_spans t stack) \<and>
     (case best of
        None \<Rightarrow> True
      | Some b \<Rightarrow> read_slot t b \<noteq> Null \<and> n \<le> snd (node_span (read_slot t b)) \<and>
          (snd (node_span (read_slot t b)) = n \<longrightarrow>
            (case stack of
               [] \<Rightarrow> True
             | p # rest \<Rightarrow>
                 ((\<forall>x \<in> set (spans (read_slot t p)). fst (node_span (read_slot t b)) < fst x) \<or>
                  (\<forall>x \<in> set (spans (read_slot t p)). snd x \<le> n)) \<and>
                 (\<forall>x \<in> set (stack_spans t rest). fst (node_span (read_slot t b)) < fst x))))"

lemma search_inv_rest:
  assumes "search_inv t n (p # stack) best"
  shows "search_inv t n stack best"
  using assms by (cases stack) (auto simp: search_inv_def sorted_wrt_append split: option.splits)

lemma push_fit_keeps: "x \<in> set (stack_spans t stack) \<Longrightarrow> x \<in> set (stack_spans t (push_fit t num p stack))"
  by (simp add: push_fit_def)

lemma push_fit_adds:
  assumes "heap t" and x: "x \<in> set (spans (read_slot t p))" "unat num \<le> snd x"
  shows "x \<in> set (stack_spans t (push_fit t num p stack))"
proof -
  have "unat num \<le> unat (GetCount (read_slot t p))"
    using heap_max [OF heap_read_slot [OF assms(1), of p] x(1)] x(2) by simp
  moreover have "read_slot t p \<noteq> Null" using x(1) by auto
  ultimately show ?thesis using x(1) by (simp add: push_fit_def u32_nat)
qed

lemma push_fit_ascending:
  "ascending (spans (read_slot t p) @ stack_spans t stack) \<Longrightarrow> ascending (stack_spans t (push_fit t num p stack))"
  by (simp add: push_fit_def sorted_wrt_append)

lemma push_fit_subset:
  "set (stack_spans t (push_fit t num p stack)) \<subseteq> set (spans (read_slot t p)) \<union> set (stack_spans t stack)"
  by (simp add: push_fit_def)

lemma better_fit_correct:
  assumes "q = better_fit t p best"
  shows "q = p \<or> best = Some q" and "fit_le (node_span (read_slot t q)) (node_span (read_slot t p))"
    and "best = Some b \<Longrightarrow> fit_le (node_span (read_slot t q)) (node_span (read_slot t b))"
  using assms by (auto simp: better_fit_def fit_le_def node_span_def u32_nat Let_def split: option.splits if_splits)

lemma search_inv_exact:
  assumes "heap t" and "ascending (spans (read_slot t p) @ stack_spans t stack)"
    and "read_slot t q \<noteq> Null" and "n = snd (node_span (read_slot t q))"
    and "(\<forall>x \<in> set (spans (read_slot t p)). fst (node_span (read_slot t q)) < fst x) \<or>
      (\<forall>x \<in> set (spans (read_slot t p)). snd x \<le> n)"
    and "\<forall>x \<in> set (stack_spans t stack). fst (node_span (read_slot t q)) < fst x"
  shows "search_inv t n (push_fit t num p stack) (Some q)"
proof (cases "push_fit t num p stack = p # stack")
  case True
  with assms show ?thesis by (simp add: search_inv_def)
next
  case False
  then have "push_fit t num p stack = stack" by (simp add: push_fit_def split: if_splits)
  with assms(2-4,6) show ?thesis
    by (cases stack) (auto simp: search_inv_def sorted_wrt_append)
qed

text \<open>\<open>res\<close> is the best of the runs \<open>X\<close> that fit and of the best slot so far.\<close>

definition best_among :: "cnode \<Rightarrow> nat \<Rightarrow> span set \<Rightarrow> slot option \<Rightarrow> slot option \<Rightarrow> bool" where
  "best_among t n X best res \<longleftrightarrow>
     (case res of
        None \<Rightarrow> best = None \<and> (\<forall>x \<in> X. snd x < n)
      | Some q \<Rightarrow> read_slot t q \<noteq> Null \<and> n \<le> snd (node_span (read_slot t q)) \<and>
          (\<forall>x \<in> X. n \<le> snd x \<longrightarrow> fit_le (node_span (read_slot t q)) x) \<and>
          (\<forall>b. best = Some b \<longrightarrow> fit_le (node_span (read_slot t q)) (node_span (read_slot t b))))"

lemma best_among_step:
  assumes "best_among t n X' (Some q) res"
    and "\<And>x. x \<in> X \<Longrightarrow> n \<le> snd x \<Longrightarrow> x \<in> X' \<or> fit_le (node_span (read_slot t q)) x"
    and "\<And>b. best = Some b \<Longrightarrow> fit_le (node_span (read_slot t q)) (node_span (read_slot t b))"
  shows "best_among t n X best res"
proof (cases res)
  case None
  with assms(1) show ?thesis by (simp add: best_among_def)
next
  case (Some r)
  with assms(1) have r: "read_slot t r \<noteq> Null" "n \<le> snd (node_span (read_slot t r))"
    "\<And>x. x \<in> X' \<Longrightarrow> n \<le> snd x \<Longrightarrow> fit_le (node_span (read_slot t r)) x"
    "fit_le (node_span (read_slot t r)) (node_span (read_slot t q))"
    by (simp_all add: best_among_def)
  have "fit_le (node_span (read_slot t r)) x" if "x \<in> X" "n \<le> snd x" for x
    using assms(2) [OF that] r(3) [OF _ that(2)] fit_le_trans [OF r(4)] by blast
  moreover have "fit_le (node_span (read_slot t r)) (node_span (read_slot t b))" if "best = Some b" for b
    by (rule fit_le_trans [OF r(4) assms(3) [OF that]])
  ultimately show ?thesis using Some r(1,2) by (simp add: best_among_def)
qed

lemma best_fit_loop_correct:
  assumes "heap t" and "search_inv t (unat num) stack best"
  shows "best_among t (unat num) (set (stack_spans t stack)) best (best_fit_loop t num stack best)"
  using assms
proof (induction t num stack best rule: best_fit_loop.induct)
  case (1 t num best)
  then show ?case by (auto simp: search_inv_def best_among_def split: option.splits)
next
  case (2 t num p stack best)
  let ?n = "read_slot t p"
  show ?case
  proof (cases "?n = Null \<or> GetCount ?n < num")
    case True
    have "\<forall>x \<in> set (spans ?n). snd x < unat num"
    proof
      fix x
      assume x: "x \<in> set (spans ?n)"
      then have "?n \<noteq> Null" by auto
      with True have "unat (GetCount ?n) < unat num" by (simp add: u32_nat)
      with heap_max [OF heap_read_slot [OF "2.prems"(1), of p] x] show "snd x < unat num" by simp
    qed
    with "2.IH"(1) [OF True "2.prems"(1)] search_inv_rest [OF "2.prems"(2)] True show ?thesis
      by (auto simp: best_among_def split: option.splits)
  next
    case False
    then obtain l i c r where n: "?n = Node l i c r" by (cases ?n) auto
    define q where "q = better_fit t p best"
    note bf = better_fit_correct [OF q_def]
    have hp: "GetCount l \<le> c" "GetCount r \<le> c" "heap l" "heap r"
      using heap_read_slot [OF "2.prems"(1), of p] n by simp_all
    have num: "unat num \<le> unat c" using False n by (simp add: u32_nat)
    have asc: "ascending (spans l @ (unat i, unat c) # spans r @ stack_spans t stack)"
      using "2.prems"(2) by (simp add: search_inv_def n)
    have q: "read_slot t q \<noteq> Null" "unat num \<le> snd (node_span (read_slot t q))"
      using bf(1) "2.prems"(2) False by (auto simp: search_inv_def node_span_def n num)
    have below: "fit_le (node_span (read_slot t q)) (unat i, unat c)"
      using bf(2) by (simp add: n node_span_def)
    show ?thesis
    proof (cases "GetCount (read_slot t q) = num")
      case True
      let ?b = "node_span (read_slot t q)"
      have b: "snd ?b = unat num" using True by (simp add: node_span_def)
      have lmax: "\<forall>x \<in> set (spans l). snd x \<le> unat c"
        using heap_max [OF hp(3)] hp(1) by (meson order_trans word_le_nat_alt)
      have "((\<forall>x \<in> set (spans l @ spans r). fst ?b < fst x) \<or>
          (\<forall>x \<in> set (spans l). snd x \<le> unat num)) \<and> (\<forall>x \<in> set (spans r). fst ?b < fst x) \<and>
          (\<forall>x \<in> set (stack_spans t stack). fst ?b < fst x)"
      proof (cases "q = p")
        case True
        then have "?b = (unat i, unat c)" by (simp add: node_span_def n)
        with lmax b asc show ?thesis by (auto simp: sorted_wrt_append)
      next
        case False
        with bf(1) "2.prems"(2) b have *: "((\<forall>x \<in> set (spans ?n). fst ?b < fst x) \<or>
            (\<forall>x \<in> set (spans ?n). snd x \<le> unat num)) \<and> (\<forall>x \<in> set (stack_spans t stack). fst ?b < fst x)"
          by (auto simp: search_inv_def)
        show ?thesis
        proof (cases "\<forall>x \<in> set (spans ?n). fst ?b < fst x")
          case True
          with * show ?thesis by (simp add: n)
        next
          case False
          with * have small: "\<forall>x \<in> set (spans ?n). snd x \<le> unat num" by blast
          then have "unat c = unat num" using num by (simp add: n)
          with below b have "fst ?b \<le> unat i" by (simp add: fit_le_def)
          with asc have "\<forall>x \<in> set (spans r). fst ?b < fst x" by (force simp: sorted_wrt_append)
          with small * show ?thesis by (simp add: n)
        qed
      qed
      then have side: "(\<forall>x \<in> set (spans l @ spans r). fst ?b < fst x) \<or>
          (\<forall>x \<in> set (spans l). snd x \<le> unat num)"
        and right: "\<forall>x \<in> set (spans r). fst ?b < fst x"
        and rest: "\<forall>x \<in> set (stack_spans t stack). fst ?b < fst x" by blast+
      have inv': "search_inv t (unat num) (push_fit t num (p @ [L]) stack) (Some q)"
        by (rule search_inv_exact [OF "2.prems"(1) _ q(1) b [symmetric]]) (use asc n side rest in \<open>auto simp: sorted_wrt_append\<close>)
      from "2.IH"(2) [OF False q_def True "2.prems"(1) inv']
      have "best_among t (unat num) (set (stack_spans t (push_fit t num (p @ [L]) stack))) (Some q)
          (best_fit_loop t num (p # stack) best)"
        using True False q_def by (simp add: Let_def)
      then show ?thesis
      proof (rule best_among_step)
        fix x
        assume x: "x \<in> set (stack_spans t (p # stack))" "unat num \<le> snd x"
        consider "x \<in> set (spans l)" | "x = (unat i, unat c)" | "x \<in> set (spans r)"
          | "x \<in> set (stack_spans t stack)" using x(1) n by auto
        then show "x \<in> set (stack_spans t (push_fit t num (p @ [L]) stack)) \<or> fit_le ?b x"
        proof cases
          case 1
          then show ?thesis using push_fit_adds [OF "2.prems"(1), of x "p @ [L]" num stack] x(2) n by simp
        next
          case 2
          then show ?thesis using below by simp
        next
          case 3
          then have "fst ?b < fst x" using right by blast
          then show ?thesis using x(2) b by (auto simp: fit_le_def)
        next
          case 4
          then show ?thesis by (intro disjI1 push_fit_keeps)
        qed
      qed (rule bf(3))
    next
      case no: False
      let ?stack = "push_fit t num (p @ [L]) (push_fit t num (p @ [R]) stack)"
      have "ascending (stack_spans t (push_fit t num (p @ [R]) stack))"
        by (rule push_fit_ascending) (use asc n in \<open>auto simp: sorted_wrt_append\<close>)
      moreover have "set (stack_spans t (push_fit t num (p @ [R]) stack)) \<subseteq> set (spans r) \<union> set (stack_spans t stack)"
        using push_fit_subset [of t num "p @ [R]" stack] n by simp
      ultimately have "ascending (spans l @ stack_spans t (push_fit t num (p @ [R]) stack))"
        using asc by (fastforce simp: sorted_wrt_append)
      then have "ascending (stack_spans t ?stack)"
        by (intro push_fit_ascending) (use n in simp)
      moreover have "snd (node_span (read_slot t q)) \<noteq> unat num"
        using no by (simp add: node_span_def word_unat_eq_iff)
      ultimately have inv': "search_inv t (unat num) ?stack (Some q)"
        using q by (simp add: search_inv_def)
      from "2.IH"(3) [OF False q_def no "2.prems"(1) inv']
      have "best_among t (unat num) (set (stack_spans t ?stack)) (Some q)
          (best_fit_loop t num (p # stack) best)"
        using no False q_def by (simp add: Let_def)
      then show ?thesis
      proof (rule best_among_step)
        fix x
        assume x: "x \<in> set (stack_spans t (p # stack))" "unat num \<le> snd x"
        consider "x \<in> set (spans l)" | "x = (unat i, unat c)" | "x \<in> set (spans r)"
          | "x \<in> set (stack_spans t stack)" using x(1) n by auto
        then show "x \<in> set (stack_spans t ?stack) \<or> fit_le (node_span (read_slot t q)) x"
        proof cases
          case 1
          then show ?thesis
            using push_fit_adds [OF "2.prems"(1), of x "p @ [L]" num] x(2) n by simp
        next
          case 2
          then show ?thesis using below by simp
        next
          case 3
          then have "x \<in> set (stack_spans t (push_fit t num (p @ [R]) stack))"
            using push_fit_adds [OF "2.prems"(1), of x "p @ [R]" num stack] x(2) n by simp
          then show ?thesis by (intro disjI1) (rule push_fit_keeps)
        next
          case 4
          then show ?thesis by (intro disjI1 push_fit_keeps)
        qed
      qed (rule bf(3))
    qed
  qed
qed

section \<open>Allocation\<close>

text \<open>A maximal run of a set of units.\<close>

definition is_run :: "nat set \<Rightarrow> nat \<Rightarrow> nat \<Rightarrow> bool" where
  "is_run S a k \<longleftrightarrow> 0 < k \<and> {a ..< a + k} \<subseteq> S \<and> a + k \<notin> S \<and> (0 < a \<longrightarrow> a - 1 \<notin> S)"

lemma apart_total:
  "sorted_wrt apart xs \<Longrightarrow> x \<in> set xs \<Longrightarrow> y \<in> set xs \<Longrightarrow> x = y \<or> apart x y \<or> apart y x"
  by (induction xs) auto

lemma is_run_unique: "is_run S a k \<Longrightarrow> is_run S b m \<Longrightarrow> b \<le> a \<Longrightarrow> a < b + m \<Longrightarrow> a = b \<and> k = m"
proof -
  assume a: "is_run S a k" and b: "is_run S b m" and ab: "b \<le> a" "a < b + m"
  have "a = b"
  proof (rule ccontr)
    assume "a \<noteq> b"
    with ab have "a - 1 \<in> {b ..< b + m}" "0 < a" by auto
    with a b show False by (auto simp: is_run_def)
  qed
  moreover have "a + k \<notin> {b ..< b + m}" "b + m \<notin> {a ..< a + k}"
    using a b unfolding is_run_def by blast+
  ultimately show "a = b \<and> k = m" by simp
qed

lemma spans_are_runs:
  assumes ok: "spans_ok xs"
  shows "(a, k) \<in> set xs \<longleftrightarrow> is_run (cover xs) a k"
proof -
  have run: "is_run (cover xs) (fst x) (snd x)" if x: "x \<in> set xs" for x
  proof -
    have others: "fst x + snd x \<notin> span_units y" "0 < fst x \<longrightarrow> fst x - 1 \<notin> span_units y" if "y \<in> set xs" for y
      using apart_total [of xs x y] ok x that by (auto simp: spans_ok_def apart_def span_units_def)
    have "0 < snd x" using ok x by (simp add: spans_ok_def span_ok_def)
    moreover have "{fst x ..< fst x + snd x} \<subseteq> cover xs" using x by (force simp: cover_def span_units_def)
    ultimately show ?thesis using others by (auto simp: is_run_def cover_def)
  qed
  show ?thesis
  proof
    show "is_run (cover xs) a k" if "(a, k) \<in> set xs" using run [OF that] by simp
    assume r: "is_run (cover xs) a k"
    then have "a \<in> cover xs" by (auto simp: is_run_def)
    then obtain x where x: "x \<in> set xs" "fst x \<le> a" "a < fst x + snd x"
      by (auto simp: cover_def span_units_def)
    from is_run_unique [OF r run [OF x(1)] x(2,3)] x(1) show "(a, k) \<in> set xs" by (metis prod.collapse)
  qed
qed

lemma runs_of_tree: "tree_inv s \<Longrightarrow> (a, k) \<in> set (spans (root s)) \<longleftrightarrow> is_run (free_units s) a k"
  by (simp add: tree_inv_def free_units_def spans_are_runs)

lemma FindBestFit_correct:
  assumes "tree_inv s"
  shows "best_among (root s) (unat num) (set (spans (root s))) None (FindBestFitLowAddrPtr (root s) [] num None)"
proof -
  have h: "heap (root s)" and ok: "spans_ok (spans (root s))" using assms by (simp_all add: tree_inv_def)
  let ?stack = "push_fit (root s) num [] []"
  have "ascending (spans (root s))"
    using ok by (auto simp: spans_ok_def apart_def elim!: sorted_wrt_mono_rel [rotated])
  then have "search_inv (root s) (unat num) ?stack None"
    by (simp add: search_inv_def push_fit_def)
  from best_fit_loop_correct [OF h this]
  have *: "best_among (root s) (unat num) (set (stack_spans (root s) ?stack)) None
      (FindBestFitLowAddrPtr (root s) [] num None)" by (simp add: FindBestFitLowAddrPtr_def)
  show ?thesis
  proof (cases "\<exists>x \<in> set (spans (root s)). unat num \<le> snd x")
    case True
    then obtain x where "x \<in> set (spans (root s))" "unat num \<le> snd x" by blast
    with push_fit_adds [OF h, of x "[]" num "[]"] have "?stack \<noteq> []" by auto
    with * show ?thesis by (auto simp: push_fit_def split: if_splits)
  next
    case False
    have "?stack = []"
    proof (cases "root s")
      case (Node l i c r)
      with False have "unat c < unat num" by auto
      with Node show ?thesis by (simp add: push_fit_def u32_nat)
    qed (simp add: push_fit_def)
    with False show ?thesis by (auto simp: FindBestFitLowAddrPtr_def best_among_def)
  qed
qed

lemma TakeUnitsLowAddr_cases:
  assumes "tree_inv s" and "num \<noteq> 0"
  shows "(\<forall>a k. is_run (free_units s) a k \<longrightarrow> k < unat num) \<and> TakeUnitsLowAddr num refresh s = Inr (None, s) \<or>
    (\<exists>i k s'. TakeUnitsLowAddr num refresh s = Inr (Some i, s') \<and> is_run (free_units s) (unat i) k \<and>
      unat num \<le> k \<and>
      (\<forall>a' k'. is_run (free_units s) a' k' \<and> unat num \<le> k' \<longrightarrow> k < k' \<or> k = k' \<and> unat i \<le> a') \<and>
      tree_inv s' \<and> free_units s' = free_units s - {unat i ..< unat i + unat num})"
proof (cases "FindBestFitLowAddrPtr (root s) [] num None")
  case None
  with FindBestFit_correct [OF assms(1), of num] have "\<forall>x \<in> set (spans (root s)). snd x < unat num"
    by (simp add: best_among_def)
  then have "k < unat num" if "is_run (free_units s) a k" for a k
    using runs_of_tree [OF assms(1), of a k] that by fastforce
  moreover have "TakeUnitsLowAddr num refresh s = Inr (None, s)"
    using None by (simp add: TakeUnitsLowAddr_def TakeUnitsLowAddrImpl_def)
  ultimately show ?thesis by blast
next
  case (Some p)
  have "best_among (root s) (unat num) (set (spans (root s))) None (Some p)"
    using FindBestFit_correct [OF assms(1), of num] by (simp only: Some)
  then have p: "read_slot (root s) p \<noteq> Null" "unat num \<le> snd (node_span (read_slot (root s) p))"
    and best: "\<And>x. x \<in> set (spans (root s)) \<Longrightarrow> unat num \<le> snd x \<Longrightarrow> fit_le (node_span (read_slot (root s) p)) x"
    by (simp_all add: best_among_def)
  from p(1) obtain l i c r where n: "read_slot (root s) p = Node l i c r" by (cases "read_slot (root s) p") auto
  have num: "0 < unat num" "num \<le> c" using assms(2) p(2) n by (simp_all add: unat_gt_0 node_span_def word_le_nat_alt)
  from take_front_correct [OF assms(1) n num, of refresh] obtain s' where
    s': "take_front p num refresh s = Inr (Some i, s')" "taken (unat i) (unat num) s s'" by blast
  have "root s \<noteq> Null" using n by (cases p) auto
  then have "TakeUnitsLowAddr num refresh s = Inr (Some i, s')"
    using Some s'(1) assms(2) by (simp add: TakeUnitsLowAddr_def TakeUnitsLowAddrImpl_def)
  moreover have "is_run (free_units s) (unat i) (unat c)"
    using node_span_in [OF p(1)] by (simp add: runs_of_tree [OF assms(1), symmetric] n node_span_def)
  moreover have "unat c < k' \<or> unat c = k' \<and> unat i \<le> a'" if "is_run (free_units s) a' k'" "unat num \<le> k'" for a' k'
    using best [of "(a', k')"] that by (simp add: runs_of_tree [OF assms(1), symmetric] n node_span_def fit_le_def)
  moreover have "unat num \<le> unat c" using num(2) by (simp add: u32_nat)
  ultimately show ?thesis using s'(2) unfolding taken_def by blast
qed

text \<open>
  C9. \<open>TakeUnitsLowAddr\<close> is best fit at the lowest address: when no run of free units is long
  enough it fails and changes nothing; otherwise it returns the start of a shortest run that is long
  enough, the lowest of these, exactly its first \<open>num\<close> units are no longer free, and the
  invariant of the tree holds again. It never aborts.
\<close>

theorem TakeUnitsLowAddr_best_fit:
  assumes "tree_inv s" and "num \<noteq> 0"
  shows "(\<forall>a k. is_run (free_units s) a k \<longrightarrow> k < unat num) \<and> TakeUnitsLowAddr num refresh s = Inr (None, s) \<or>
    (\<exists>i k s'. TakeUnitsLowAddr num refresh s = Inr (Some i, s') \<and> is_run (free_units s) (unat i) k \<and>
      unat num \<le> k \<and>
      (\<forall>a' k'. is_run (free_units s) a' k' \<and> unat num \<le> k' \<longrightarrow> k < k' \<or> k = k' \<and> unat i \<le> a') \<and>
      tree_inv s' \<and> free_units s' = free_units s - {unat i ..< unat i + unat num})"
  using assms by (rule TakeUnitsLowAddr_cases)

lemma TakeUnitsLowAddr_refreshes:
  assumes "tree_inv s" and "TakeUnitsLowAddr num True s = Inr (res, s')"
  shows "told s s'" and "regions_known s \<Longrightarrow> regions_known s'"
proof -
  have "told s s' \<and> (regions_known s \<longrightarrow> regions_known s')"
  proof (cases "root s = Null \<or> num = 0 \<or> FindBestFitLowAddrPtr (root s) [] num None = None")
    case True
    with assms show ?thesis by (auto simp: TakeUnitsLowAddr_def TakeUnitsLowAddrImpl_def split: if_splits)
  next
    case False
    then obtain p where p: "FindBestFitLowAddrPtr (root s) [] num None = Some p" by blast
    have "best_among (root s) (unat num) (set (spans (root s))) None (Some p)"
      using FindBestFit_correct [OF assms(1), of num] by (simp only: p)
    then have best: "read_slot (root s) p \<noteq> Null" "unat num \<le> snd (node_span (read_slot (root s) p))"
      by (simp_all add: best_among_def)
    then obtain l i c r where n: "read_slot (root s) p = Node l i c r" by (cases "read_slot (root s) p") auto
    have num: "0 < unat num" "num \<le> c" using False best(2) n by (simp_all add: unat_gt_0 node_span_def word_le_nat_alt)
    from take_front_correct [OF assms(1) n num, of True] obtain s1 where
      "take_front p num True s = Inr (Some i, s1)" "told s s1" "regions_known s \<longrightarrow> regions_known s1" by blast
    with assms(2) False p show ?thesis by (auto simp: TakeUnitsLowAddr_def TakeUnitsLowAddrImpl_def)
  qed
  then show "told s s'" and "regions_known s \<Longrightarrow> regions_known s'" by simp_all
qed

text \<open>
  With the region table refreshed, allocation keeps it exact too: every remaining run is known by
  its first unit and length.
\<close>

theorem TakeUnitsLowAddr_regions_known:
  assumes "tree_inv s" and "regions_known s" and "TakeUnitsLowAddr num True s = Inr (res, s')"
  shows "regions_known s'"
  using TakeUnitsLowAddr_refreshes(2) [OF assms(1,3,2)] .

lemma take_scan_fits:
  assumes "read_slot t p \<noteq> Null \<and> num \<le> GetCount (read_slot t p)" and "\<forall>p \<in> set q. read_slot t p \<noteq> Null"
  shows "read_slot t (take_scan t num q p) \<noteq> Null \<and> num \<le> GetCount (read_slot t (take_scan t num q p))"
  using assms
proof (induction t num q p rule: take_scan.induct)
  case (1 t num q p)
  show ?case
  proof (cases q)
    case Nil
    with "1.prems" show ?thesis by (simp add: take_scan.simps [of t num "[]"])
  next
    case (Cons p' q')
    define q1 where "q1 = snd (ForwardIterator_Next t q)"
    have nxt: "ForwardIterator_Next t q = (Some p', q1)" "\<forall>p \<in> set q1. read_slot t p \<noteq> Null"
      using "1.prems"(2) by (auto simp: Cons Let_def q1_def)
    show ?thesis
    proof (cases "GetCount (read_slot t p') < num")
      case True
      moreover have "read_slot t p' \<noteq> Null" using "1.prems"(2) Cons by simp
      ultimately have "take_scan t num q p = p"
        by (simp add: take_scan.simps [of t num q] nxt(1))
      with "1.prems"(1) show ?thesis by simp
    next
      case False
      then have "take_scan t num q p = take_scan t num q1 p'"
        by (simp add: take_scan.simps [of t num q] nxt(1))
      with "1.IH" [OF nxt(1) [symmetric] refl] False "1.prems"(2) nxt(2) Cons show ?thesis by simp
    qed
  qed
qed

lemma TakeUnits_cases:
  assumes "tree_inv s" and "num \<noteq> 0"
  shows "(\<forall>a k. is_run (free_units s) a k \<longrightarrow> k < unat num) \<and> TakeUnits num refresh s = Inr (None, s) \<or>
    (\<exists>i k s'. TakeUnits num refresh s = Inr (Some i, s') \<and> is_run (free_units s) (unat i) k \<and> unat num \<le> k \<and>
      tree_inv s' \<and> free_units s' = free_units s - {unat i ..< unat i + unat num})"
proof (cases "root s = Null \<or> GetCount (root s) < num")
  case True
  have "k < unat num" if "is_run (free_units s) a k" for a k
  proof -
    have x: "(a, k) \<in> set (spans (root s))" using that by (simp add: runs_of_tree [OF assms(1)])
    then have "root s \<noteq> Null" by auto
    with True have "unat (GetCount (root s)) < unat num" by (simp add: word_less_nat_alt)
    with heap_max [OF _ x] assms(1) show ?thesis by (simp add: tree_inv_def)
  qed
  moreover have "TakeUnits num refresh s = Inr (None, s)"
    using True by (auto simp: TakeUnits_def TakeUnitsImpl_def Let_def)
  ultimately show ?thesis by blast
next
  case False
  define q where "q = snd (ForwardIterator_Next (root s) [[]])"
  have q: "\<forall>p \<in> set q. read_slot (root s) p \<noteq> Null" by (auto simp: q_def Let_def)
  define p where "p = take_scan (root s) num q []"
  have p: "read_slot (root s) p \<noteq> Null \<and> num \<le> GetCount (read_slot (root s) p)"
    unfolding p_def by (rule take_scan_fits) (use False q in \<open>auto simp: not_less\<close>)
  then obtain l i c r where n: "read_slot (root s) p = Node l i c r" by (cases "read_slot (root s) p") auto
  have num: "0 < unat num" "num \<le> c" using assms(2) p n by (simp_all add: unat_gt_0)
  from take_front_correct [OF assms(1) n num, of refresh] obtain s' where
    s': "take_front p num refresh s = Inr (Some i, s')" "taken (unat i) (unat num) s s'" by blast
  have "TakeUnits num refresh s = Inr (Some i, s')"
    using False assms(2) s'(1) by (simp add: TakeUnits_def TakeUnitsImpl_def q_def p_def Let_def)
  moreover have "is_run (free_units s) (unat i) (unat c)"
    using node_span_in [of "root s" p] p by (simp add: runs_of_tree [OF assms(1), symmetric] n node_span_def)
  moreover have "unat num \<le> unat c" using num(2) by (simp add: word_le_nat_alt)
  ultimately show ?thesis using s'(2) unfolding taken_def by blast
qed

text \<open>
  \<open>TakeUnits\<close> fails exactly when no run is long enough, and otherwise takes the front of a run
  that is.
\<close>

theorem TakeUnits_takes_a_fit:
  assumes "tree_inv s" and "num \<noteq> 0"
  shows "(\<forall>a k. is_run (free_units s) a k \<longrightarrow> k < unat num) \<and> TakeUnits num refresh s = Inr (None, s) \<or>
    (\<exists>i k s'. TakeUnits num refresh s = Inr (Some i, s') \<and> is_run (free_units s) (unat i) k \<and> unat num \<le> k \<and>
      tree_inv s' \<and> free_units s' = free_units s - {unat i ..< unat i + unat num})"
  using assms by (rule TakeUnits_cases)

lemma ReleaseRootNode_correct:
  assumes "tree_inv s" and "root s \<noteq> Null"
  shows "\<exists>s' i c. ReleaseRootNode s = Inr s' \<and> i = GetIndex (root s) \<and> c = GetCount (root s) \<and>
    is_run (free_units s) (unat i) (unat c) \<and> (\<forall>a k. is_run (free_units s) a k \<longrightarrow> k \<le> unat c) \<and>
    tree_inv s' \<and> free_units s' = free_units s - {unat i ..< unat i + unat c} \<and>
    region_calls s' = region_calls s @ [ReleaseUnits i c]"
proof -
  obtain l i c r where n: "root s = Node l i c r" using assms(2) by (cases "root s") auto
  have ok: "spans_ok (spans (root s))" and hp: "heap (root s)"
    and tot: "unat (totalCount s) = span_total (spans (root s))" using assms(1) by (simp_all add: tree_inv_def)
  have c: "0 < unat c" using ok by (simp add: n spans_ok_simps span_ok_def)
  define s2 where "s2 = (call_region (ReleaseUnits i c) s)\<lparr>totalCount := totalCount s - c, root := Node l i 0 r\<rparr>"
  have enough: "c \<le> totalCount s" using tot by (simp add: n word_le_nat_alt)
  have "ReleaseRootNode s = RemoveZeroNode [] s2"
    using enough [unfolded not_less [symmetric]]
    by (simp add: ReleaseRootNode_def RemoveNode_def DecTotalCount_def ClearCount_def n s2_def call_region_def)
  moreover from RemoveZeroNode_correct [of s2 "[]" l i 0 r] hp obtain m where
    m: "RemoveZeroNode [] s2 = Inr (s2\<lparr>root := m\<rparr>)" "spans m = spans l @ spans r" "heap m"
    by (auto simp: s2_def n)
  moreover have sh: "shrunk (unat i) (unat c) (unat c) = []" by (simp add: shrunk_def)
  from ok have "spans_ok (spans l @ (unat i, unat c) # spans r)" by (simp add: n)
  from shrunk_correct [OF this c order_refl, unfolded sh]
  have "tree_inv (s2\<lparr>root := m\<rparr>)" "free_units (s2\<lparr>root := m\<rparr>) = free_units s - {unat i ..< unat i + unat c}"
    using m(2,3) tot enough by (simp_all add: tree_inv_def free_units_def n s2_def unat_sub)
  moreover have "region_calls (s2\<lparr>root := m\<rparr>) = region_calls s @ [ReleaseUnits i c]"
    by (simp add: s2_def call_region_def)
  moreover have "is_run (free_units s) (unat i) (unat c)"
    by (simp add: runs_of_tree [OF assms(1), symmetric] n)
  moreover have "k \<le> unat c" if "is_run (free_units s) a k" for a k
    using heap_max [OF hp, of "(a, k)"] that by (simp add: runs_of_tree [OF assms(1), symmetric] n)
  ultimately show ?thesis by (auto simp: n)
qed

text \<open>
  \<open>ReleaseRootNode\<close> gives back the memory of a longest run, tells the region table exactly that,
  and removes the run from the tree.
\<close>

theorem ReleaseRootNode_longest:
  assumes "tree_inv s" and "root s \<noteq> Null"
  shows "\<exists>s' i c. ReleaseRootNode s = Inr s' \<and> i = GetIndex (root s) \<and> c = GetCount (root s) \<and>
    is_run (free_units s) (unat i) (unat c) \<and> (\<forall>a k. is_run (free_units s) a k \<longrightarrow> k \<le> unat c) \<and>
    tree_inv s' \<and> free_units s' = free_units s - {unat i ..< unat i + unat c} \<and>
    region_calls s' = region_calls s @ [ReleaseUnits i c]"
  using assms by (rule ReleaseRootNode_correct)

section \<open>The interface of a store of units\<close>

text \<open>
  What the managers of regions and pages rely on, whatever the store is: \<open>put\<close> adds units unless
  one of them is there, \<open>take\<close> fails and changes nothing or hands out units that were there, and
  \<open>release\<close> removes the units it names.
\<close>

locale unit_store =
  fixes ok :: "'t \<Rightarrow> bool" and units :: "'t \<Rightarrow> nat set"
    and put :: "u32 \<Rightarrow> u32 \<Rightarrow> 't \<Rightarrow> bool \<times> 't" and take :: "u32 \<Rightarrow> 't \<Rightarrow> (u32 option \<times> 't) res"
  assumes put_law: "ok t \<Longrightarrow> num \<noteq> 0 \<Longrightarrow> unat idx + unat num < 2 ^ 32 \<Longrightarrow> put idx num t = (b, t') \<Longrightarrow>
      ok t' \<and> (b \<longleftrightarrow> units t \<inter> {unat idx ..< unat idx + unat num} = {}) \<and>
      (if b then units t' = units t \<union> {unat idx ..< unat idx + unat num} else t' = t)"
    and take_law: "ok t \<Longrightarrow> take num t = Inr (None, t) \<or>
      (\<exists>i t'. take num t = Inr (Some i, t') \<and> num \<noteq> 0 \<and> ok t' \<and>
        {unat i ..< unat i + unat num} \<subseteq> units t \<and> units t' = units t - {unat i ..< unat i + unat num})"
    and units_below: "ok t \<Longrightarrow> units t \<subseteq> {..< 2 ^ 32 - 1}"
begin

lemma in_range:
  assumes "ok t" and "num \<noteq> 0" and "{unat i ..< unat i + unat num} \<subseteq> units t"
  shows "unat (i :: u32) + unat (num :: u32) < 2 ^ 32"
proof -
  have pos: "0 < unat num" using assms(2) by (simp add: unat_gt_0)
  then have "unat i + unat num - 1 \<in> {unat i ..< unat i + unat num}" by simp
  with assms(3) units_below [OF assms(1)] have "unat i + unat num - 1 < 2 ^ 32 - 1" by blast
  with pos show ?thesis by simp
qed

lemma put_fresh:
  assumes "ok t" and "num \<noteq> 0" and "unat idx + unat num < 2 ^ 32"
    and "units t \<inter> {unat idx ..< unat idx + unat num} = {}"
  obtains t' where "put idx num t = (True, t')" and "ok t'" and "units t' = units t \<union> {unat idx ..< unat idx + unat num}"
  using put_law [OF assms(1-3)] assms(4) by (cases "put idx num t") auto

lemma take_cases:
  assumes "ok t"
  obtains (none) "take num t = Inr (None, t)"
  | (some) i t' where "take num t = Inr (Some i, t')" and "num \<noteq> 0" and "ok t'"
      and "unat i + unat num < 2 ^ 32" and "{unat i ..< unat i + unat num} \<subseteq> units t"
      and "units t' = units t - {unat i ..< unat i + unat num}"
  using take_law [OF assms, of num] in_range [OF assms] by metis

text \<open>Taking and putting back is a round trip on the units.\<close>

lemma take_put:
  assumes "ok t" and "take num t = Inr (Some i, t')"
  obtains t'' where "put i num t' = (True, t'')" and "ok t''" and "units t'' = units t"
proof (rule take_cases [OF assms(1), of num])
  fix j u
  assume j: "take num t = Inr (Some j, u)" "num \<noteq> 0" "ok u" "unat j + unat num < 2 ^ 32"
    "{unat j ..< unat j + unat num} \<subseteq> units t" "units u = units t - {unat j ..< unat j + unat num}"
  then have eq: "j = i" "u = t'" using assms(2) by auto
  have "units t' \<inter> {unat i ..< unat i + unat num} = {}" using j(6) eq by auto
  from put_fresh [OF _ j(2) _ this] j(3,4) eq obtain t''
    where t: "put i num t' = (True, t'')" "ok t''" "units t'' = units t' \<union> {unat i ..< unat i + unat num}"
    by auto
  have "units t'' = units t" using t(3) j(5,6) eq by auto
  with t(1,2) show thesis by (rule that)
qed (use assms(2) in simp)

end

lemma free_units_below: "tree_inv s \<Longrightarrow> free_units s \<subseteq> {..< 2 ^ 32 - 1}"
  by (fastforce simp: tree_inv_def spans_ok_def span_ok_def free_units_def cover_def span_units_def)

lemma free_units_card: "tree_inv s \<Longrightarrow> finite (free_units s) \<and> unat (totalCount s) = card (free_units s)"
  using card_cover by (simp add: tree_inv_def free_units_def)

text \<open>Taking zero units fails, and otherwise best fit takes the front of a run.\<close>

lemma TakeUnitsLowAddr_take_law:
  assumes "tree_inv s"
  shows "TakeUnitsLowAddr num refresh s = Inr (None, s) \<or>
    (\<exists>i s'. TakeUnitsLowAddr num refresh s = Inr (Some i, s') \<and> num \<noteq> 0 \<and> tree_inv s' \<and>
      {unat i ..< unat i + unat num} \<subseteq> free_units s \<and>
      free_units s' = free_units s - {unat i ..< unat i + unat num})"
proof (cases "num = 0")
  case False
  have sub: "{a ..< a + n} \<subseteq> free_units s" if "is_run (free_units s) a k" "n \<le> k" for a k n
    using that by (auto simp: is_run_def)
  from TakeUnitsLowAddr_cases [OF assms False, of refresh] False sub show ?thesis by blast
qed (simp add: TakeUnitsLowAddr_def)

lemma TakeUnits_take_law:
  assumes "tree_inv s"
  shows "TakeUnits num refresh s = Inr (None, s) \<or>
    (\<exists>i s'. TakeUnits num refresh s = Inr (Some i, s') \<and> num \<noteq> 0 \<and> tree_inv s' \<and>
      {unat i ..< unat i + unat num} \<subseteq> free_units s \<and>
      free_units s' = free_units s - {unat i ..< unat i + unat num})"
proof (cases "num = 0")
  case False
  have sub: "{a ..< a + n} \<subseteq> free_units s" if "is_run (free_units s) a k" "n \<le> k" for a k n
    using that by (auto simp: is_run_def)
  from TakeUnits_cases [OF assms False, of refresh] False sub show ?thesis by blast
qed (simp add: TakeUnits_def)

text \<open>The tree of free units is a store, by best fit at the lowest address and by first fit.\<close>

interpretation low: unit_store tree_inv free_units "\<lambda>idx num. MergeInsert idx num refresh"
    "\<lambda>num. TakeUnitsLowAddr num refresh"
  for refresh
  by unfold_locales (use MergeInsert_set_insert TakeUnitsLowAddr_take_law free_units_below in auto)

interpretation first: unit_store tree_inv free_units "\<lambda>idx num. MergeInsert idx num refresh"
    "\<lambda>num. TakeUnits num refresh"
  for refresh
  by unfold_locales (use MergeInsert_set_insert TakeUnits_take_law free_units_below in auto)

section \<open>Examples\<close>

definition demo_tree :: cartesian_tree where
  "demo_tree = \<lparr>totalCount = 7, root = Node (Node Null 2 1 Null) 8 4 (Node Null 14 2 Null),
    region_calls = [InitFreeRegion 2 1, InitFreeRegion 8 4, InitFreeRegion 14 2]\<rparr>"

lemma demo_tree_ok: "tree_inv demo_tree"
  by (simp add: demo_tree_def tree_inv_def spans_ok_def span_ok_def apart_def span_total_def)

lemma demo_tree_known: "regions_known demo_tree"
  by (simp add: demo_tree_def regions_known_def free_region_info_def)

theorem MergeInsert_refines_set_insert_witness:
  "fst (MergeInsert 12 2 True demo_tree) \<and>
    free_units (snd (MergeInsert 12 2 True demo_tree)) = free_units demo_tree \<union> {12 ..< 14}"
proof -
  obtain ok s' where r: "MergeInsert 12 2 True demo_tree = (ok, s')" by fastforce
  have "free_units demo_tree \<inter> {12 ..< 14} = {}"
    by (auto simp: demo_tree_def free_units_def cover_def span_units_def)
  with MergeInsert_refines_set_insert [OF demo_tree_ok _ _ r] r show ?thesis by simp
qed

theorem MergeInsert_regions_known_witness: "regions_known (snd (MergeInsert 12 2 True demo_tree))"
  by (rule MergeInsert_regions_known [OF demo_tree_ok demo_tree_known]) simp_all

theorem TakeUnitsLowAddr_best_fit_witness:
  "\<exists>i s'. TakeUnitsLowAddr 2 True demo_tree = Inr (Some i, s') \<and> tree_inv s'"
proof -
  have "is_run (free_units demo_tree) 14 2"
    by (auto simp: is_run_def demo_tree_def free_units_def cover_def span_units_def)
  with TakeUnitsLowAddr_best_fit [OF demo_tree_ok, of 2 True] show ?thesis by auto
qed

theorem TakeUnitsLowAddr_regions_known_witness:
  "\<exists>i s'. TakeUnitsLowAddr 2 True demo_tree = Inr (i, s') \<and> regions_known s'"
proof -
  obtain i s' where r: "TakeUnitsLowAddr 2 True demo_tree = Inr (i, s')"
    using low.take_law [OF demo_tree_ok, of 2 True] by blast
  with TakeUnitsLowAddr_regions_known [OF demo_tree_ok demo_tree_known r] show ?thesis by blast
qed

theorem TakeUnits_takes_a_fit_witness:
  "\<exists>i s'. TakeUnits 3 False demo_tree = Inr (Some i, s') \<and> tree_inv s'"
proof -
  have "is_run (free_units demo_tree) 8 4"
    by (auto simp: is_run_def demo_tree_def free_units_def cover_def span_units_def)
  with TakeUnits_takes_a_fit [OF demo_tree_ok, of 3 False] show ?thesis by fastforce
qed

theorem ReleaseRootNode_longest_witness:
  "\<exists>s'. ReleaseRootNode demo_tree = Inr s' \<and> free_units s' = free_units demo_tree - {8 ..< 12} \<and> tree_inv s'"
proof -
  have "root demo_tree \<noteq> Null" "GetIndex (root demo_tree) = 8" "GetCount (root demo_tree) = 4"
    by (simp_all add: demo_tree_def)
  with ReleaseRootNode_longest [OF demo_tree_ok] show ?thesis by auto
qed

end
