(* ===== verification/TreeMemory.thy ===== *)
theory TreeMemory
  imports FreeUnits "HOL-Library.Multiset"
begin

unbundle bit_operations_syntax

text \<open>
  The memory of a tree of free units: the sizes \<open>Init\<close> of \<^verbatim>\<open>src/rt.heap.allocator/CartesianTree.cj\<close>
  asks for, with the rounding of \<^verbatim>\<open>src/rt.base/AllocUtil.cj\<close>, and the nodes a tree can have. The
  allocator of nodes and the deque never look at the end of their mapping, so these sizes are what
  keeps them inside it.
\<close>

section \<open>Sizes\<close>

definition AllocUtilRndDown :: "u64 \<Rightarrow> u64 \<Rightarrow> u64" where
  "AllocUtilRndDown x n = x AND (0 - n)"

definition AllocUtilRndUp :: "u64 \<Rightarrow> u64 \<Rightarrow> u64" where
  "AllocUtilRndUp x n = AllocUtilRndDown (x + n - 1) n"

definition ALLOC_UTIL_PAGE_SIZE :: u32 where
  "ALLOC_UTIL_PAGE_SIZE = 4096"

definition ALLOCUTIL_PAGE_RND_UP :: "u64 \<Rightarrow> u64" where
  "ALLOCUTIL_PAGE_RND_UP x = (x + ucast ALLOC_UTIL_PAGE_SIZE - 1) AND (0 - ucast ALLOC_UTIL_PAGE_SIZE)"

text \<open>
  \<open>Init\<close>: the bytes mapped for nodes and for the deque. \<open>sizeOf\<close> and \<open>alignOf\<close> of the node (two
  pointers and two \<open>UInt32\<close>) are 24 and 8.
\<close>

definition tree_node_count :: "u64 \<Rightarrow> u64" where
  "tree_node_count memoryBlockCount = drop_bit 1 memoryBlockCount + 1"

definition tree_map_sizes :: "u64 \<Rightarrow> u64 \<times> u64" where
  "tree_map_sizes memoryBlockCount =
     (let nodeCount = tree_node_count memoryBlockCount;
          nodeSize = AllocUtilRndUp 24 8;
          nativeSize = (nodeCount + 7) * nodeSize;
          dequeSize = nodeCount * 8
      in (AllocUtilRndUp nativeSize (ucast ALLOC_UTIL_PAGE_SIZE), AllocUtilRndUp dequeSize (ucast ALLOC_UTIL_PAGE_SIZE)))"

lemma AND_minus_exp: "(x :: u64) AND (0 - 2 ^ k) = push_bit k (drop_bit k x)"
  by (rule bit_word_eqI) (auto simp: minus_exp_eq_not_mask bit_simps)

text \<open>Rounding up to pages, with room for it: the least multiple of a page that is enough.\<close>

lemma unat_page_RndUp:
  assumes "unat x + 4096 \<le> 2 ^ 64"
  shows "unat (AllocUtilRndUp x (ucast ALLOC_UTIL_PAGE_SIZE)) = (unat x + 4095) div 4096 * 4096"
proof -
  have page: "ucast ALLOC_UTIL_PAGE_SIZE = (2 ^ 12 :: u64)" by (simp add: ALLOC_UTIL_PAGE_SIZE_def)
  have "unat (x + of_nat 4095) = unat x + 4095" by (rule unat_add_offset) (use assms in simp)
  then have sum: "unat (x + 4095) = unat x + 4095" by simp
  have "(unat x + 4095) div 4096 * 4096 < 2 ^ 64"
    using div_times_less_eq_dividend [of "unat x + 4095" 4096] assms by simp
  moreover have "AllocUtilRndUp x (ucast ALLOC_UTIL_PAGE_SIZE) = push_bit 12 (drop_bit 12 (x + 4095))"
    unfolding AllocUtilRndUp_def AllocUtilRndDown_def page AND_minus_exp by (simp add: ac_simps)
  ultimately show ?thesis
    by (simp only: unsigned_push_bit_eq unat_drop_bit_eq sum)
      (simp add: take_bit_nat_def push_bit_eq_mult drop_bit_eq_div)
qed

lemma page_RndUp_enough:
  assumes "unat x + 4096 \<le> 2 ^ 64"
  shows "unat x \<le> unat (AllocUtilRndUp x (ucast ALLOC_UTIL_PAGE_SIZE))"
  unfolding unat_page_RndUp [OF assms] by linarith

lemma ALLOCUTIL_PAGE_RND_UP_eq: "ALLOCUTIL_PAGE_RND_UP x = AllocUtilRndUp x (ucast ALLOC_UTIL_PAGE_SIZE)"
  by (simp add: ALLOCUTIL_PAGE_RND_UP_def AllocUtilRndUp_def AllocUtilRndDown_def)

lemma unat_tree_node_count: "unat n < 2 ^ 32 \<Longrightarrow> unat (tree_node_count n) = unat n div 2 + 1"
proof -
  assume "unat n < 2 ^ 32"
  then have "unat (drop_bit 1 n + of_nat 1) = unat (drop_bit 1 n) + 1"
    by (intro unat_add_offset) (simp add: unat_drop_bit_eq drop_bit_eq_div unat_div)
  then show ?thesis by (simp add: tree_node_count_def drop_bit_eq_div unat_div)
qed

lemma tree_map_sizes_enough:
  assumes "unat n < 2 ^ 32" and "tree_map_sizes n = (nodeBytes, dequeBytes)"
  shows "24 * (unat n div 2 + 8) \<le> unat nodeBytes" and "8 * (unat n div 2 + 1) \<le> unat dequeBytes"
proof -
  have c: "unat (tree_node_count n) = unat n div 2 + 1" by (rule unat_tree_node_count [OF assms(1)])
  have n24: "AllocUtilRndUp 24 8 = 24"
    by (simp add: AllocUtilRndUp_def AllocUtilRndDown_def)
  have "unat (tree_node_count n + of_nat 7) = unat (tree_node_count n) + 7"
    by (rule unat_add_offset) (use assms(1) c in simp)
  then have x: "unat ((tree_node_count n + 7) * 24) = 24 * (unat n div 2 + 8)"
    using assms(1) c by (simp add: unat_word_ariths)
  have y: "unat (tree_node_count n * 8) = 8 * (unat n div 2 + 1)"
    using assms(1) c by (simp add: unat_word_ariths)
  from assms(2) have sizes: "nodeBytes = AllocUtilRndUp ((tree_node_count n + 7) * 24) (ucast ALLOC_UTIL_PAGE_SIZE)"
    "dequeBytes = AllocUtilRndUp (tree_node_count n * 8) (ucast ALLOC_UTIL_PAGE_SIZE)"
    by (simp_all add: tree_map_sizes_def Let_def n24)
  show "24 * (unat n div 2 + 8) \<le> unat nodeBytes"
    using page_RndUp_enough [of "(tree_node_count n + 7) * 24"] x assms(1) by (simp add: sizes)
  show "8 * (unat n div 2 + 1) \<le> unat dequeBytes"
    using page_RndUp_enough [of "tree_node_count n * 8"] y assms(1) by (simp add: sizes)
qed

section \<open>Nodes\<close>

fun nodes :: "cnode \<Rightarrow> cnode list" where
  "nodes Null = []"
| "nodes (Node l i c r) = Node l i c r # nodes r @ nodes l"

lemma length_nodes: "length (nodes t) = size t"
  by (induction t) simp_all

lemma nodes_children: "n \<noteq> Null \<Longrightarrow> nodes n = n # nodes (right_of n) @ nodes (left_of n)"
  by (cases n) simp_all

lemma nodes_child_list: "concat (map nodes (child_list n)) = nodes n"
  by (simp add: child_list_def)

text \<open>
  A traversal takes every node under the queue out exactly once; \<open>pushes\<close> counts the entries it
  writes to the deque, which never reuses an entry.
\<close>

lemma clear_loop_nodes:
  assumes "Null \<notin> set q"
  shows "mset (clear_loop q) = mset (concat (map nodes q))"
  using assms
proof (induction q rule: clear_loop.induct)
  case (1 q)
  show ?case
  proof (cases q)
    case Nil
    then show ?thesis by (simp add: clear_loop.simps [of "[]"])
  next
    case (Cons n rest)
    let ?q' = "rest @ child_list (right_of n) @ child_list (left_of n)"
    have it: "Iterator_Next q = (Some n, ?q')" by (simp add: Cons)
    have "Null \<notin> set ?q'" "n \<noteq> Null" using "1.prems" Cons by (auto simp: child_list_def)
    moreover have "clear_loop q = n # clear_loop ?q'" by (simp add: clear_loop.simps [of "n # rest"] Cons)
    moreover have "mset (clear_loop ?q') = mset (concat (map nodes ?q'))"
      by (rule "1.IH" [OF sym [OF it] refl]) (use calculation in simp_all)
    ultimately show ?thesis by (simp add: Cons nodes_child_list nodes_children [of n])
  qed
qed

lemma count_loop_nodes:
  assumes "Null \<notin> set q"
  shows "count_loop q k = k + of_nat (length (concat (map nodes q)))"
  using assms
proof (induction q k rule: count_loop.induct)
  case (1 q k)
  show ?case
  proof (cases q)
    case Nil
    then show ?thesis by (simp add: count_loop.simps [of "[]"])
  next
    case (Cons n rest)
    let ?q' = "rest @ child_list (right_of n) @ child_list (left_of n)"
    have it: "Iterator_Next q = (Some n, ?q')" by (simp add: Cons)
    have "Null \<notin> set ?q'" "n \<noteq> Null" using "1.prems" Cons by (auto simp: child_list_def)
    moreover have "count_loop q k = count_loop ?q' (k + 1)" by (simp add: count_loop.simps [of "n # rest"] Cons)
    moreover have "count_loop ?q' (k + 1) = k + 1 + of_nat (length (concat (map nodes ?q')))"
      by (rule "1.IH" [OF sym [OF it] refl]) (use calculation in simp_all)
    ultimately show ?thesis by (simp add: Cons nodes_child_list nodes_children [of n])
  qed
qed

text \<open>
  C32. The mappings \<open>Init\<close> asks for are enough: a tree over \<open>memoryBlockCount\<close> units has room in the
  mapping for all its nodes and seven more, and in the deque for an entry for each of its
  nodes, although neither the allocator of nodes nor the deque ever checks for the end.
\<close>

theorem tree_fits_mapping:
  assumes "tree_inv s" and "free_units s \<subseteq> {..< unat memoryBlockCount}" and "unat memoryBlockCount < 2 ^ 32"
    and "tree_map_sizes memoryBlockCount = (nodeBytes, dequeBytes)"
  shows "24 * (size (root s) + 7) \<le> unat nodeBytes \<and> 8 * size (root s) \<le> unat dequeBytes"
proof -
  have "length (spans (root s)) \<le> (unat memoryBlockCount + 1) div 2"
    using length_bound assms(1,2) by (simp add: tree_inv_def free_units_def)
  then have "size (root s) \<le> unat memoryBlockCount div 2 + 1" by (simp add: length_spans)
  with tree_map_sizes_enough [OF assms(3,4)] show ?thesis by auto
qed

theorem tree_fits_mapping_witness:
  "let s = \<lparr>totalCount = 3, root = Node Null 0 2 (Node Null 3 1 Null), region_calls = []\<rparr> in
    24 * (size (root s) + 7) \<le> unat (fst (tree_map_sizes 4)) \<and> 8 * size (root s) \<le> unat (snd (tree_map_sizes 4))"
proof -
  let ?s = "\<lparr>totalCount = 3, root = Node Null 0 2 (Node Null 3 1 Null), region_calls = []\<rparr>"
  have "tree_inv ?s" by (simp add: tree_inv_def spans_ok_def span_ok_def apart_def span_total_def)
  moreover have "free_units ?s \<subseteq> {..< unat (4 :: u64)}" by (auto simp: free_units_def cover_def span_units_def)
  ultimately show ?thesis
    using tree_fits_mapping [of ?s 4 "fst (tree_map_sizes 4)" "snd (tree_map_sizes 4)"] by (simp add: Let_def)
qed

text \<open>
  \<open>GetNodeCount\<close> and \<open>ClearTree\<close> visit every node exactly once: the count is the number of
  nodes, and each node is deleted once, after which the tree is empty.
\<close>

theorem tree_traversals_complete:
  "GetNodeCount s = of_nat (size (root s)) \<and> mset (fst (ClearTree s)) = mset (nodes (root s)) \<and>
    free_units (snd (ClearTree s)) = {} \<and> tree_inv (snd (ClearTree s))"
proof -
  have "Null \<notin> set (child_list (root s))" by (simp add: child_list_def)
  from count_loop_nodes [OF this] clear_loop_nodes [OF this] show ?thesis
    by (simp add: GetNodeCount_def ClearTree_def nodes_child_list length_nodes free_units_def tree_inv_def
        del: length_concat)
qed

end
