(* ===== verification/PagePool.thy ===== *)
theory PagePool
  imports TakeUnitsSpec TreeMemory NativeSync
begin

unbundle bit_operations_syntax

text \<open>
  The pool of pages, \<^verbatim>\<open>src/rt.common/PagePool.cj\<close>: one mapping, of which the pages up to
  \<open>usedZone\<close> have been handed out at some time, and a tree of those that came back. It is the second
  client of the tree, by first fit and without the region table. The calls to the system and to
  the mutex of \<open>NativeSync\<close> are recorded in their order; what the system answers is an argument of each operation.
\<close>

section \<open>The pool and the calls it makes\<close>

datatype pool_call =
    TreeInit u64 u64 | TreeFini "cnode list" | Lock | Unlock
  | Mmap u64 | Munmap u64 u64 | MmapFixed u64 u64 | Madvise u64 u64 nat | Prctl u64 u64 u64 | Memset u64 u64
  | VirtualAlloc u64 u64 u32 | VirtualFree u64 u64 u32 | Perror string | GetLastError

text \<open>An operation makes no call twice, so a function of the call can hold every answer.\<close>

type_synonym answers = "pool_call \<Rightarrow> u64"

record page_pool =
  freePagesTree :: cartesian_tree
  base :: u64
  totalSize :: u64
  usedZone :: u64
  tag :: u64
  smallPageUsed :: u32
  totalPageCount :: u32
  pool_calls :: "pool_call list"

definition pool_call :: "pool_call list \<Rightarrow> page_pool \<Rightarrow> page_pool" where
  "pool_call cs s = s\<lparr>pool_calls := pool_calls s @ cs\<rparr>"

text \<open>The constructor.\<close>

definition new_page_pool :: "u64 \<Rightarrow> page_pool" where
  "new_page_pool name = \<lparr>freePagesTree = \<lparr>totalCount = 0, root = Null, region_calls = []\<rparr>, base = 0,
     totalSize = 0, usedZone = 0, tag = name, smallPageUsed = 0, totalPageCount = 0, pool_calls = []\<rparr>"

section \<open>What differs between the systems\<close>

text \<open>\<open>MapMemory\<close>: a failed mapping ends the process.\<close>

definition MapMemory :: "os \<Rightarrow> answers \<Rightarrow> u64 \<Rightarrow> bool \<Rightarrow> page_pool \<Rightarrow> (u64 \<times> page_pool) res" where
  "MapMemory os ans sz isCommit s =
     (case os of
        Linux \<Rightarrow>
          let result = ans (Mmap sz) in
          if result = - 1 then Inl Fatal
          else Inr (result, pool_call [Mmap sz, Madvise result sz 15, Prctl result sz (tag s)] s)
      | Macos \<Rightarrow>
          let result = ans (Mmap sz) in
          if result = - 1 then Inl Fatal else Inr (result, pool_call [Mmap sz] s)
      | Windows \<Rightarrow>
          let allocationType = (if isCommit then 0x1000 else 0x2000);
              result = ans (VirtualAlloc 0 sz allocationType) in
          if result = 0 then Inl Fatal else Inr (result, pool_call [VirtualAlloc 0 sz allocationType] s))"

definition virtual_free :: "answers \<Rightarrow> u64 \<Rightarrow> u64 \<Rightarrow> u32 \<Rightarrow> page_pool \<Rightarrow> page_pool" where
  "virtual_free ans page sz freeType s =
     pool_call (VirtualFree page sz freeType #
       (if ans (VirtualFree page sz freeType) = 0 then [GetLastError] else [])) s"

definition munmap_or_report :: "answers \<Rightarrow> u64 \<Rightarrow> u64 \<Rightarrow> string \<Rightarrow> page_pool \<Rightarrow> page_pool" where
  "munmap_or_report ans page sz message s =
     pool_call (Munmap page sz # (if ans (Munmap page sz) \<noteq> 0 then [Perror message] else [])) s"

definition FiniImpl :: "os \<Rightarrow> answers \<Rightarrow> u64 \<Rightarrow> u64 \<Rightarrow> page_pool \<Rightarrow> page_pool" where
  "FiniImpl os ans page sz s =
     (if os = Windows then virtual_free ans page 0 0x8000 s
      else munmap_or_report ans page sz ''munmap failed in PagePool destruction'' s)"

definition GetPageImpl :: "os \<Rightarrow> answers \<Rightarrow> u64 \<Rightarrow> u64 \<Rightarrow> page_pool \<Rightarrow> page_pool" where
  "GetPageImpl os ans page sz s =
     (if os = Windows then
        pool_call (VirtualAlloc page sz 0x1000 #
          (if ans (VirtualAlloc page sz 0x1000) = 0 then [GetLastError] else [])) s
      else s)"

definition ReturnPageImpl :: "os \<Rightarrow> answers \<Rightarrow> u64 \<Rightarrow> u64 \<Rightarrow> page_pool \<Rightarrow> page_pool" where
  "ReturnPageImpl os ans page sz s =
     (if os = Windows then virtual_free ans page 0 0x8000 s
      else munmap_or_report ans page sz ''munmap failed in ReturnPage'' s)"

definition ReturnPagePart2 :: "os \<Rightarrow> answers \<Rightarrow> u64 \<Rightarrow> u64 \<Rightarrow> page_pool \<Rightarrow> page_pool" where
  "ReturnPagePart2 os ans page sz s =
     (case os of
        Linux \<Rightarrow> pool_call [Madvise page sz 4] s
      | Macos \<Rightarrow>
          let ret = ans (MmapFixed page sz)
          in pool_call ([Memset page sz, MmapFixed page sz] @
               (if ret = - 1 then [Perror ''page pool mmap fixed failed'']
                else if ret \<noteq> page then [Perror ''mmap fixed at wrong addr''] else [])) s
      | Windows \<Rightarrow> virtual_free ans page sz 0x4000 s)"

section \<open>Operations\<close>

text \<open>\<open>P\<close> is \<open>MRT_PAGE_SIZE\<close>, what \<open>getpagesize\<close> has answered.\<close>

definition Init :: "os \<Rightarrow> answers \<Rightarrow> u64 \<Rightarrow> u32 \<Rightarrow> page_pool \<Rightarrow> page_pool res" where
  "Init os ans P pageCount s =
     (let sz = ucast pageCount * P; (nodeBytes, dequeBytes) = tree_map_sizes (ucast pageCount)
      in and_then (MapMemory os ans sz False (pool_call [TreeInit nodeBytes dequeBytes] (s\<lparr>totalPageCount := pageCount\<rparr>)))
           (\<lambda>(result, s). Inr (s\<lparr>base := result, totalSize := sz\<rparr>)))"

definition Fini :: "os \<Rightarrow> answers \<Rightarrow> u64 \<Rightarrow> page_pool \<Rightarrow> page_pool" where
  "Fini os ans P s =
     (let (deleted, t) = ClearTree (freePagesTree s)
      in FiniImpl os ans (base s) (ucast (totalPageCount s) * P)
           (pool_call [TreeFini deleted] (s\<lparr>freePagesTree := t\<rparr>)))"

definition GetPage :: "os \<Rightarrow> answers \<Rightarrow> u64 \<Rightarrow> u64 \<Rightarrow> page_pool \<Rightarrow> (u64 \<times> page_pool) res" where
  "GetPage os ans P bytes s =
     (let cnt = (bytes + P - 1) div P; pageSize = (bytes + P - 1) AND (0 - P)
      in if cnt \<ge> 0xFFFFFFFF then Inl Abort
         else
           and_then (TakeUnits (ucast cnt) False (freePagesTree s)) (\<lambda>(res, t).
             let s = pool_call [Lock] (s\<lparr>freePagesTree := t\<rparr>)
             in case res of
                  Some idx \<Rightarrow>
                    let ret = base s + ucast idx * P
                    in Inr (ret, pool_call [Unlock] (GetPageImpl os ans ret pageSize s))
                | None \<Rightarrow>
                    if usedZone s + pageSize \<le> totalSize s \<and> base s \<noteq> 0 then
                      let ret = base s + usedZone s
                      in Inr (ret, pool_call [Unlock]
                           (GetPageImpl os ans ret pageSize (s\<lparr>usedZone := usedZone s + pageSize\<rparr>)))
                    else MapMemory os ans pageSize True (pool_call [Unlock] s)))"

definition ReturnPage :: "os \<Rightarrow> answers \<Rightarrow> u64 \<Rightarrow> u64 \<Rightarrow> u64 \<Rightarrow> page_pool \<Rightarrow> page_pool res" where
  "ReturnPage os ans P page bytes s =
     (let poolEnd = base s + totalSize s; num = (bytes + P - 1) div P
      in if page < base s \<or> page \<ge> poolEnd then Inr (ReturnPageImpl os ans page (num * P) s)
         else if num \<ge> 0xFFFFFFFF then Inl Abort
         else
           let idx = ucast ((page - base s) div P);
               s = pool_call [Lock] (ReturnPagePart2 os ans page (num * P) s);
               (inserted, t) = MergeInsert idx (ucast num) False (freePagesTree s);
               s = pool_call [Unlock] (s\<lparr>freePagesTree := t\<rparr>)
           in if inserted then Inr s else Inl Abort)"

lemma pool_call_simps [simp]:
  "freePagesTree (pool_call cs s) = freePagesTree s"
  "base (pool_call cs s) = base s"
  "totalSize (pool_call cs s) = totalSize s"
  "usedZone (pool_call cs s) = usedZone s"
  "totalPageCount (pool_call cs s) = totalPageCount s"
  by (simp_all add: pool_call_def)

section \<open>Pages\<close>

text \<open>A page size is a power of two, as the rounding by \<open>AND\<close> requires.\<close>

definition good_page :: "u64 \<Rightarrow> bool" where
  "good_page P \<longleftrightarrow> (\<exists>k \<in> {..20}. P = 2 ^ k)"

definition pages :: "u64 \<Rightarrow> u64 \<Rightarrow> nat" where
  "pages P bytes = (unat bytes + unat P - 1) div unat P"

text \<open>A request of at least one byte, whose pages a \<open>UInt32\<close> can count.\<close>

definition good_request :: "u64 \<Rightarrow> u64 \<Rightarrow> bool" where
  "good_request P bytes \<longleftrightarrow> 0 < unat bytes \<and> unat bytes \<le> unat P * (2 ^ 32 - 2)"

lemma unat_2p: "k < 64 \<Longrightarrow> unat (2 ^ k :: u64) = 2 ^ k"
  using unat_of_nat [of "2 ^ k", where 'a = 64] power_strict_increasing [of k 64 "2 :: nat"] by simp

lemma good_page_bounds: "good_page P \<Longrightarrow> 0 < unat P \<and> unat P \<le> 2 ^ 20"
proof -
  assume "good_page P"
  then obtain k where "k \<le> 20" "P = 2 ^ k" by (auto simp: good_page_def)
  moreover from this have "unat P = 2 ^ k" by (simp add: unat_2p)
  ultimately show ?thesis using power_increasing [of k 20 "2 :: nat"] by simp
qed

lemma request_pages:
  assumes P: "good_page P" and b: "good_request P bytes"
  defines "n \<equiv> pages P bytes"
  shows "0 < n" and "n < 2 ^ 32 - 1" and "unat bytes \<le> n * unat P" and "n * unat P < 2 ^ 53"
    and "unat ((bytes + P - 1) div P) = n" and "unat ((bytes + P - 1) AND (0 - P)) = n * unat P"
proof -
  obtain k where k: "k \<le> 20" "P = 2 ^ k" using P by (auto simp: good_page_def)
  then have p: "unat P = 2 ^ k" by (simp add: unat_2p)
  let ?p = "2 ^ k :: nat"
  have pp: "0 < ?p" "?p \<le> 2 ^ 20" using good_page_bounds [OF P] p by simp_all
  have bb: "0 < unat bytes" "unat bytes \<le> ?p * (2 ^ 32 - 2)" using b p by (simp_all add: good_request_def)
  have n: "n = (unat bytes + ?p - 1) div ?p" by (simp add: n_def pages_def p)
  have le: "unat bytes + ?p - 1 < ?p * (2 ^ 32 - 1)"
  proof -
    have "unat bytes + ?p \<le> ?p * (2 ^ 32 - 2) + ?p" using bb(2) by simp
    also have "\<dots> = ?p * (2 ^ 32 - 1)" by simp
    finally show ?thesis using bb(1) by simp
  qed
  show pos: "0 < n" using bb(1) pp(1) by (simp add: n div_greater_zero_iff)
  show n32: "n < 2 ^ 32 - 1" unfolding n using le by (metis less_mult_imp_div_less mult.commute)
  have split: "?p * n + (unat bytes + ?p - 1) mod ?p = unat bytes + ?p - 1" unfolding n by (rule mult_div_mod_eq)
  have "(unat bytes + ?p - 1) mod ?p < ?p" using pp(1) by simp
  with split have "unat bytes \<le> ?p * n" by linarith
  then show "unat bytes \<le> n * unat P" by (simp add: p mult.commute)
  have "n * ?p \<le> 2 ^ 32 * 2 ^ 20" using n32 pp(2) by (intro mult_le_mono) simp_all
  then show small: "n * unat P < 2 ^ 53" by (simp add: p)
  have "?p * (2 ^ 32 - 1) \<le> 2 ^ 20 * (2 ^ 32 - 1)" using pp(2) by (rule mult_le_mono1)
  then have room: "unat bytes + (?p - 1) < 2 ^ 64" using le pp(1) by simp
  have "bytes + P - 1 = bytes + of_nat (?p - 1)" using pp(1) by (simp add: k(2) of_nat_diff)
  moreover have "unat (bytes + of_nat (?p - 1)) = unat bytes + (?p - 1)" by (rule unat_add_offset) (use room in simp)
  ultimately have sum: "unat (bytes + P - 1) = unat bytes + ?p - 1" using pp(1) by (simp add: add_diff_eq)
  then show "unat ((bytes + P - 1) div P) = n" by (simp add: unat_div p n)
  have "unat (push_bit k (drop_bit k (bytes + P - 1))) = n * ?p"
    using sum small p by (simp only: unsigned_push_bit_eq unat_drop_bit_eq)
      (simp add: take_bit_nat_def push_bit_eq_mult drop_bit_eq_div n)
  then show "unat ((bytes + P - 1) AND (0 - P)) = n * unat P"
    unfolding k(2) AND_minus_exp using p k(2) by simp
qed

section \<open>What an operation does to the pages\<close>

text \<open>
  The mapping has \<open>totalPageCount\<close> pages and does not wrap around; those below \<open>usedZone\<close> have been
  handed out. A block is an address with the bytes asked for; one outside the mapping has no pages in it.
\<close>

definition used_pages :: "u64 \<Rightarrow> page_pool \<Rightarrow> nat" where
  "used_pages P s = unat (usedZone s) div unat P"

definition pool_ok :: "u64 \<Rightarrow> page_pool \<Rightarrow> bool" where
  "pool_ok P s \<longleftrightarrow> good_page P \<and> tree_inv (freePagesTree s) \<and> base s \<noteq> 0 \<and>
     unat (totalPageCount s) < 2 ^ 32 - 1 \<and> unat (totalSize s) = unat (totalPageCount s) * unat P \<and>
     unat (base s) + unat (totalSize s) < 2 ^ 64 \<and> unat (usedZone s) \<le> unat (totalSize s) \<and>
     unat P dvd unat (usedZone s) \<and> free_units (freePagesTree s) \<subseteq> {..< used_pages P s}"

definition in_pool :: "page_pool \<Rightarrow> u64 \<Rightarrow> bool" where
  "in_pool s a \<longleftrightarrow> base s \<le> a \<and> a < base s + totalSize s"

definition block_pages :: "u64 \<Rightarrow> page_pool \<Rightarrow> u64 \<times> u64 \<Rightarrow> nat set" where
  "block_pages P s b = (if in_pool s (fst b)
     then let i = (unat (fst b) - unat (base s)) div unat P in {i ..< i + pages P (snd b)} else {})"

definition block_ok :: "u64 \<Rightarrow> page_pool \<Rightarrow> u64 \<times> u64 \<Rightarrow> bool" where
  "block_ok P s b \<longleftrightarrow> good_request P (snd b) \<and> (in_pool s (fst b) \<longrightarrow> unat P dvd unat (fst b) - unat (base s))"

text \<open>The parts of the pool no operation changes.\<close>

definition same_mapping :: "page_pool \<Rightarrow> page_pool \<Rightarrow> bool" where
  "same_mapping s t \<longleftrightarrow> base t = base s \<and> totalSize t = totalSize s \<and> totalPageCount t = totalPageCount s"

lemma same_mapping_block:
  assumes "same_mapping s t"
  shows "in_pool t = in_pool s" and "block_pages P t = block_pages P s" and "block_ok P t = block_ok P s"
  using assms by (auto simp: same_mapping_def in_pool_def block_pages_def block_ok_def fun_eq_iff)

lemma impl_same [simp]:
  "freePagesTree (GetPageImpl os ans a n s) = freePagesTree s"
  "usedZone (GetPageImpl os ans a n s) = usedZone s"
  "base (GetPageImpl os ans a n s) = base s"
  "totalSize (GetPageImpl os ans a n s) = totalSize s"
  "totalPageCount (GetPageImpl os ans a n s) = totalPageCount s"
  "freePagesTree (ReturnPagePart2 os ans a n s) = freePagesTree s"
  "usedZone (ReturnPagePart2 os ans a n s) = usedZone s"
  "base (ReturnPagePart2 os ans a n s) = base s"
  "totalSize (ReturnPagePart2 os ans a n s) = totalSize s"
  "totalPageCount (ReturnPagePart2 os ans a n s) = totalPageCount s"
  "freePagesTree (ReturnPageImpl os ans a n s) = freePagesTree s"
  "usedZone (ReturnPageImpl os ans a n s) = usedZone s"
  "base (ReturnPageImpl os ans a n s) = base s"
  "totalSize (ReturnPageImpl os ans a n s) = totalSize s"
  "totalPageCount (ReturnPageImpl os ans a n s) = totalPageCount s"
  by (simp_all add: GetPageImpl_def ReturnPagePart2_def ReturnPageImpl_def virtual_free_def munmap_or_report_def
      Let_def split: os.split)

text \<open>The address of page \<open>i\<close>.\<close>

lemma page_address:
  assumes ok: "pool_ok P s" and i: "i < unat (totalPageCount s)" and x: "unat x = i * unat P"
  shows "in_pool s (base s + x)" and "unat (base s + x) = unat (base s) + i * unat P"
    and "block_pages P s (base s + x, n) = {i ..< i + pages P n}" and "unat P dvd unat (base s + x) - unat (base s)"
proof -
  have P: "0 < unat P" using ok good_page_bounds by (simp add: pool_ok_def)
  have less: "i * unat P < unat (totalSize s)" using ok i P by (simp add: pool_ok_def)
  have "unat (base s) + unat (totalSize s) < 2 ^ 64" using ok by (simp add: pool_ok_def)
  then have a: "unat (base s + x) = unat (base s) + i * unat P"
    and e: "unat (base s + totalSize s) = unat (base s) + unat (totalSize s)"
    using less x by (simp_all add: unat_word_ariths)
  show "in_pool s (base s + x)" using a e less by (simp add: in_pool_def word_le_nat_alt word_less_nat_alt)
  then show "block_pages P s (base s + x, n) = {i ..< i + pages P n}" using a P by (simp add: block_pages_def)
  show "unat (base s + x) = unat (base s) + i * unat P" "unat P dvd unat (base s + x) - unat (base s)" using a by simp_all
qed

lemma used_below: "pool_ok P s \<Longrightarrow> used_pages P s \<le> unat (totalPageCount s)"
proof -
  assume ok: "pool_ok P s"
  then have "0 < unat P" using good_page_bounds by (simp add: pool_ok_def)
  moreover have "unat (usedZone s) \<le> unat (totalPageCount s) * unat P" using ok by (simp add: pool_ok_def)
  ultimately show ?thesis using div_le_mono [of "unat (usedZone s)" "unat (totalPageCount s) * unat P" "unat P"]
    by (simp add: used_pages_def)
qed

text \<open>
  \<open>GetPage\<close>: from the tree, from the pages not used yet, or from a mapping of its own.
\<close>

lemma GetPage_cases:
  assumes ok: "pool_ok P s" and req: "good_request P bytes"
  obtains (tree) a s' where "GetPage os ans P bytes s = Inr (a, s')" and "pool_ok P s'" and "same_mapping s s'"
      and "in_pool s a" and "block_ok P s (a, bytes)" and "usedZone s' = usedZone s"
      and "block_pages P s (a, bytes) \<subseteq> free_units (freePagesTree s)"
      and "free_units (freePagesTree s') = free_units (freePagesTree s) - block_pages P s (a, bytes)"
  | (zone) a s' where "GetPage os ans P bytes s = Inr (a, s')" and "pool_ok P s'" and "same_mapping s s'"
      and "in_pool s a" and "block_ok P s (a, bytes)" and "used_pages P s' = used_pages P s + pages P bytes"
      and "block_pages P s (a, bytes) = {used_pages P s ..< used_pages P s + pages P bytes}"
      and "freePagesTree s' = freePagesTree s" and "TakeUnits (of_nat (pages P bytes)) False (freePagesTree s) = Inr (None, freePagesTree s)"
  | (map) "GetPage os ans P bytes s = MapMemory os ans (of_nat (pages P bytes * unat P)) True (pool_call [Lock, Unlock] s)"
      and "TakeUnits (of_nat (pages P bytes)) False (freePagesTree s) = Inr (None, freePagesTree s)"
proof -
  let ?n = "pages P bytes"
  have P: "good_page P" and inv: "tree_inv (freePagesTree s)" and below: "free_units (freePagesTree s) \<subseteq> {..< used_pages P s}"
    using ok by (simp_all add: pool_ok_def)
  note r = request_pages [OF P req]
  have pp: "0 < unat P" using good_page_bounds [OF P] by simp
  have cnt: "(bytes + P - 1) div P = of_nat ?n" using r(5) by (metis of_nat_unat ucast_id)
  have psz: "(bytes + P - 1) AND (0 - P) = of_nat (?n * unat P)" using r(6) by (metis of_nat_unat ucast_id)
  have un: "unat (of_nat ?n :: u32) = ?n" using r(2) by (simp add: unat_of_nat)
  have cast: "ucast (of_nat ?n :: u64) = (of_nat ?n :: u32)"
    by (rule word_unat_eq_iff [THEN iffD2]) (use r(2) in \<open>simp add: unsigned_ucast_eq unat_of_nat take_bit_nat_eq_self\<close>)
  have small: "\<not> (0xFFFFFFFF \<le> (of_nat ?n :: u64))" using r(2) by (simp add: word_le_nat_alt unat_of_nat)
  have get: "GetPage os ans P bytes s = and_then (TakeUnits (of_nat ?n) False (freePagesTree s)) (\<lambda>(res, t).
      let s = pool_call [Lock] (s\<lparr>freePagesTree := t\<rparr>)
      in case res of
           Some idx \<Rightarrow>
             let ret = base s + ucast idx * P
             in Inr (ret, pool_call [Unlock] (GetPageImpl os ans ret (of_nat (?n * unat P)) s))
         | None \<Rightarrow>
             if usedZone s + of_nat (?n * unat P) \<le> totalSize s \<and> base s \<noteq> 0 then
               let ret = base s + usedZone s
               in Inr (ret, pool_call [Unlock]
                    (GetPageImpl os ans ret (of_nat (?n * unat P)) (s\<lparr>usedZone := usedZone s + of_nat (?n * unat P)\<rparr>)))
             else MapMemory os ans (of_nat (?n * unat P)) True (pool_call [Unlock] s))"
    unfolding GetPage_def cnt psz Let_def cast using small by (simp del: of_nat_mult)
  show thesis
  proof (rule first.take_cases [OF inv, of "of_nat ?n" False])
    fix i t
    assume t: "TakeUnits (of_nat ?n) False (freePagesTree s) = Inr (Some i, t)" "tree_inv t"
      "{unat i ..< unat i + unat (of_nat ?n :: u32)} \<subseteq> free_units (freePagesTree s)"
      "free_units t = free_units (freePagesTree s) - {unat i ..< unat i + unat (of_nat ?n :: u32)}"
    have "unat i \<in> {unat i ..< unat i + unat (of_nat ?n :: u32)}" using r(1) un by simp
    then have "unat i < used_pages P s" using t(3) below by blast
    then have i: "unat i < unat (totalPageCount s)" using used_below [OF ok] by simp
    have "unat i * unat P \<le> unat (totalPageCount s) * unat P" using i by simp
    also have "\<dots> < 2 ^ 64" using ok by (simp add: pool_ok_def)
    finally have small: "unat i * unat P < 2 ^ 64" .
    have "unat (ucast i :: u64) = unat i" by transfer (simp add: take_bit_nat_def)
    with small have "unat (ucast i * P) = unat i * unat P" by (simp add: unat_word_ariths)
    note adr = page_address [OF ok i this]
    let ?s' = "pool_call [Unlock] (GetPageImpl os ans (base s + ucast i * P) (of_nat (?n * unat P)) (pool_call [Lock] (s\<lparr>freePagesTree := t\<rparr>)))"
    show thesis
    proof (rule tree [of "base s + ucast i * P" ?s'])
      show "GetPage os ans P bytes s = Inr (base s + ucast i * P, ?s')" by (simp add: get t(1) Let_def del: of_nat_mult)
      show "pool_ok P ?s'" using ok t(2,4) by (auto simp: pool_ok_def used_pages_def)
      show "same_mapping s ?s'" "usedZone ?s' = usedZone s" by (simp_all add: same_mapping_def)
      show "block_ok P s (base s + ucast i * P, bytes)" using adr(4) req by (simp add: block_ok_def)
      show "block_pages P s (base s + ucast i * P, bytes) \<subseteq> free_units (freePagesTree s)" using adr(3) t(3) un by simp
      show "free_units (freePagesTree ?s') = free_units (freePagesTree s) - block_pages P s (base s + ucast i * P, bytes)"
        using adr(3) t(4) un by simp
    qed (rule adr(1))
  next
    assume t: "TakeUnits (of_nat ?n) False (freePagesTree s) = Inr (None, freePagesTree s)"
    show thesis
    proof (cases "usedZone s + of_nat (?n * unat P) \<le> totalSize s")
      case False
      show ?thesis
        by (rule map [OF _ t]) (use False in \<open>simp add: get t Let_def pool_call_def del: of_nat_mult\<close>)
    next
      case True
      let ?z = "of_nat (?n * unat P) :: u64"
      have z: "unat ?z = ?n * unat P" using r(4) by (simp add: unat_of_nat del: of_nat_mult)
      have "unat (totalPageCount s) * unat P \<le> 2 ^ 32 * 2 ^ 20" using ok good_page_bounds [OF P]
        by (intro mult_le_mono) (simp_all add: pool_ok_def)
      then have tot: "unat (totalSize s) \<le> 2 ^ 52" using ok by (simp add: pool_ok_def)
      have uz: "unat (usedZone s + ?z) = unat (usedZone s) + ?n * unat P"
        using z tot r(4) ok by (simp add: unat_word_ariths pool_ok_def del: of_nat_mult)
      have dvd: "unat P dvd unat (usedZone s)" using ok by (simp add: pool_ok_def)
      then have x: "unat (usedZone s) = used_pages P s * unat P" by (simp add: used_pages_def)
      have le: "unat (usedZone s) + ?n * unat P \<le> unat (totalSize s)" using True uz by (simp add: word_le_nat_alt del: of_nat_mult)
      have i: "used_pages P s < unat (totalPageCount s)"
      proof -
        have "(used_pages P s + ?n) * unat P \<le> unat (totalPageCount s) * unat P"
          using le x ok by (simp add: pool_ok_def add_mult_distrib)
        then show ?thesis using pp r(1) by simp
      qed
      note adr = page_address [OF ok i x]
      let ?s' = "pool_call [Unlock] (GetPageImpl os ans (base s + usedZone s) ?z
        (pool_call [Lock] s\<lparr>usedZone := usedZone s + ?z\<rparr>))"
      have used: "used_pages P ?s' = used_pages P s + ?n"
      proof -
        have "usedZone ?s' = usedZone s + ?z" by simp
        then have "unat (usedZone ?s') = (used_pages P s + ?n) * unat P" by (simp only: uz x add_mult_distrib)
        then show ?thesis using pp by (simp only: used_pages_def [of P ?s']) simp
      qed
      show ?thesis
      proof (rule zone [of "base s + usedZone s" ?s'])
        show "GetPage os ans P bytes s = Inr (base s + usedZone s, ?s')"
          using True ok by (simp add: get t Let_def pool_ok_def del: of_nat_mult)
        show "pool_ok P ?s'"
        proof -
          have "free_units (freePagesTree ?s') \<subseteq> {..< used_pages P ?s'}" unfolding used using below by auto
          moreover have "unat (usedZone ?s') \<le> unat (totalSize s)" "unat P dvd unat (usedZone ?s')"
            using uz le dvd by (simp_all del: of_nat_mult)
          ultimately show ?thesis using ok by (simp add: pool_ok_def del: of_nat_mult)
        qed
        show "same_mapping s ?s'" "freePagesTree ?s' = freePagesTree s" by (simp_all add: same_mapping_def)
        show "block_ok P s (base s + usedZone s, bytes)" using adr(4) req by (simp add: block_ok_def)
      qed (rule adr(1), rule used, rule adr(3), rule t)
    qed
  qed
qed

text \<open>\<open>ReturnPage\<close> of a block: unmapped when it is not of the pool, else merged into the tree.\<close>

lemma ReturnPage_outside:
  "\<not> in_pool s a \<Longrightarrow>
    ReturnPage os ans P a bytes s = Inr (ReturnPageImpl os ans a ((bytes + P - 1) div P * P) s)"
  by (auto simp: ReturnPage_def in_pool_def Let_def not_le not_less)

lemma ReturnPage_inside:
  assumes ok: "pool_ok P s" and blk: "block_ok P s (a, bytes)" and a: "in_pool s a"
    and used: "block_pages P s (a, bytes) \<subseteq> {..< used_pages P s}"
    and apart: "free_units (freePagesTree s) \<inter> block_pages P s (a, bytes) = {}"
  obtains s' where "ReturnPage os ans P a bytes s = Inr s'" and "pool_ok P s'" and "same_mapping s s'"
    and "usedZone s' = usedZone s"
    and "free_units (freePagesTree s') = free_units (freePagesTree s) \<union> block_pages P s (a, bytes)"
proof -
  let ?n = "pages P bytes" and ?i = "(unat a - unat (base s)) div unat P"
  have P: "good_page P" and inv: "tree_inv (freePagesTree s)" using ok by (simp_all add: pool_ok_def)
  have req: "good_request P bytes" using blk by (simp add: block_ok_def)
  note r = request_pages [OF P req]
  have range: "\<not> a < base s" "\<not> base s + totalSize s \<le> a" using a by (simp_all add: in_pool_def not_less not_le)
  have bp: "block_pages P s (a, bytes) = {?i ..< ?i + ?n}" using a by (simp add: block_pages_def Let_def)
  have "?i + ?n - 1 \<in> block_pages P s (a, bytes)" using r(1) bp by simp
  then have "?i + ?n - 1 < used_pages P s" using used by blast
  moreover have "unat (totalPageCount s) < 2 ^ 32 - 1" using ok by (simp add: pool_ok_def)
  ultimately have i: "?i + ?n < 2 ^ 32" using used_below [OF ok] by linarith
  have n: "(bytes + P - 1) div P = of_nat ?n" using r(5) by (metis of_nat_unat ucast_id)
  have un: "unat (of_nat ?n :: u32) = ?n" using r(2) by (simp add: unat_of_nat)
  have "unat ((a - base s) div P) = ?i" using a by (simp add: in_pool_def unat_div unat_sub)
  then have "ucast ((a - base s) div P) = (of_nat ?i :: u32)" by (metis of_nat_unat)
  moreover have ui: "unat (of_nat ?i :: u32) = ?i" using i by (simp add: unat_of_nat)
  moreover have "ucast (of_nat ?n :: u64) = (of_nat ?n :: u32)"
    by (rule word_unat_eq_iff [THEN iffD2]) (use r(2) in \<open>simp add: unsigned_ucast_eq unat_of_nat take_bit_nat_eq_self\<close>)
  moreover have "\<not> (0xFFFFFFFF \<le> (of_nat ?n :: u64))" using r(2) by (simp add: word_le_nat_alt unat_of_nat)
  ultimately have ret: "ReturnPage os ans P a bytes s =
      (let s1 = pool_call [Lock] (ReturnPagePart2 os ans a (of_nat ?n * P) s);
           (inserted, t) = MergeInsert (of_nat ?i) (of_nat ?n) False (freePagesTree s1);
           s2 = pool_call [Unlock] (s1\<lparr>freePagesTree := t\<rparr>)
       in if inserted then Inr s2 else Inl Abort)"
    using n range by (simp add: ReturnPage_def Let_def)
  have nz: "(of_nat ?n :: u32) \<noteq> 0" using un r(1) by (metis less_irrefl unat_0)
  have room: "unat (of_nat ?i :: u32) + unat (of_nat ?n :: u32) < 2 ^ 32" using i ui un by simp
  have fresh: "free_units (freePagesTree s) \<inter> {unat (of_nat ?i :: u32) ..< unat (of_nat ?i :: u32) + unat (of_nat ?n :: u32)} = {}"
    using apart unfolding bp ui un .
  obtain t where t: "MergeInsert (of_nat ?i) (of_nat ?n) False (freePagesTree s) = (True, t)" "tree_inv t"
    "free_units t = free_units (freePagesTree s) \<union> {?i ..< ?i + ?n}"
    by (rule first.put_fresh [where refresh = False, OF inv nz room fresh]) (use ui un in simp)
  let ?s' = "pool_call [Unlock] (pool_call [Lock] (ReturnPagePart2 os ans a (of_nat ?n * P) s)\<lparr>freePagesTree := t\<rparr>)"
  show thesis
  proof (rule that [of ?s'])
    show "ReturnPage os ans P a bytes s = Inr ?s'" using t(1) by (simp add: ret Let_def)
    have "free_units t \<subseteq> {..< used_pages P s}" using t(3) used ok unfolding bp by (simp add: pool_ok_def)
    then show "pool_ok P ?s'" using ok t(2) by (simp add: pool_ok_def used_pages_def)
    show "same_mapping s ?s'" "usedZone ?s' = usedZone s" by (simp_all add: same_mapping_def)
    show "free_units (freePagesTree ?s') = free_units (freePagesTree s) \<union> block_pages P s (a, bytes)"
      using t(3) bp by simp
  qed
qed

section \<open>Blocks in the hands of threads\<close>

text \<open>
  Any number of threads get and return blocks; the mutex makes the section of an operation one
  step. A thread returns a block it holds, with the bytes it asked for, and asks for at least a byte. A
  mapping the system makes for a request is fresh: its address is not in the pool.
\<close>

record pool_world =
  pool :: page_pool
  blocks :: "nat \<Rightarrow> (u64 \<times> u64) option"

datatype pool_move = Get nat u64 answers | Return nat answers

inductive pool_step :: "os \<Rightarrow> u64 \<Rightarrow> pool_world \<Rightarrow> pool_move \<Rightarrow> pool_world \<Rightarrow> bool" for os P where
  get: "blocks w k = None \<Longrightarrow> good_request P bytes \<Longrightarrow> \<forall>n t. \<not> in_pool (pool w) (ans (Mmap n)) \<and> \<not> in_pool (pool w) (ans (VirtualAlloc 0 n t)) \<Longrightarrow>
    GetPage os ans P bytes (pool w) = Inr (a, s) \<Longrightarrow>
    pool_step os P w (Get k bytes ans) \<lparr>pool = s, blocks = (blocks w)(k \<mapsto> (a, bytes))\<rparr>"
| ret: "blocks w k = Some (a, bytes) \<Longrightarrow> ReturnPage os ans P a bytes (pool w) = Inr s \<Longrightarrow>
    pool_step os P w (Return k ans) \<lparr>pool = s, blocks = (blocks w)(k := None)\<rparr>"

datatype page_loc = Free | Held nat

fun page_place :: "u64 \<Rightarrow> pool_world \<Rightarrow> page_loc \<Rightarrow> nat set" where
  "page_place P w Free = free_units (freePagesTree (pool w))"
| "page_place P w (Held k) = (case blocks w k of None \<Rightarrow> {} | Some b \<Rightarrow> block_pages P (pool w) b)"

definition pool_world_inv :: "u64 \<Rightarrow> pool_world \<Rightarrow> bool" where
  "pool_world_inv P w \<longleftrightarrow> pool_ok P (pool w) \<and> parted (page_place P w) {..< used_pages P (pool w)} \<and>
     (\<forall>k a n. blocks w k = Some (a, n) \<longrightarrow> block_ok P (pool w) (a, n))"

lemma held_block:
  assumes inv: "pool_world_inv P w" and b: "blocks w k = Some b"
  shows "block_ok P (pool w) b" and "block_pages P (pool w) b \<subseteq> {..< used_pages P (pool w)}"
    and "free_units (freePagesTree (pool w)) \<inter> block_pages P (pool w) b = {}"
proof -
  have parted: "parted (page_place P w) {..< used_pages P (pool w)}" and k: "page_place P w (Held k) = block_pages P (pool w) b"
    using inv b by (simp_all add: pool_world_inv_def)
  show "block_ok P (pool w) b" using inv b by (cases b) (simp add: pool_world_inv_def)
  show "block_pages P (pool w) b \<subseteq> {..< used_pages P (pool w)}" using parted unfolding parted_def k [symmetric] by blast
  show "free_units (freePagesTree (pool w)) \<inter> block_pages P (pool w) b = {}"
    using parted_apart [OF parted, of Free "Held k"] unfolding k by simp
qed

lemma map_same:
  assumes "MapMemory os ans n commit s = Inr (a, s')"
  shows "same_mapping s s' \<and> freePagesTree s' = freePagesTree s \<and> usedZone s' = usedZone s \<and>
    (a \<in> {ans (Mmap n), ans (VirtualAlloc 0 n 0x1000), ans (VirtualAlloc 0 n 0x2000)})"
  using assms by (auto simp: MapMemory_def same_mapping_def Let_def split: os.splits if_splits)

lemma page_place_new:
  assumes "same_mapping (pool w) s"
  shows "page_place P \<lparr>pool = s, blocks = (blocks w)(k := bo)\<rparr> l =
    (if l = Free then free_units (freePagesTree s)
     else if l = Held k then (case bo of None \<Rightarrow> {} | Some b \<Rightarrow> block_pages P (pool w) b) else page_place P w l)"
  using same_mapping_block [OF assms] by (cases l) (auto split: option.split)

lemma pool_step_inv:
  assumes inv: "pool_world_inv P w" and step: "pool_step os P w m w'"
  shows "pool_world_inv P w'"
  using step
proof cases
  case (get k bytes ans a s)
  have ok: "pool_ok P (pool w)" and parted: "parted (page_place P w) {..< used_pages P (pool w)}"
    and blks: "\<And>k a n. blocks w k = Some (a, n) \<Longrightarrow> block_ok P (pool w) (a, n)" using inv by (simp_all add: pool_world_inv_def)
  have empty: "page_place P w (Held k) = {}" using get(3) by simp
  show ?thesis
  proof (rule GetPage_cases [OF ok get(4), of os ans])
    fix a' s'
    assume g: "GetPage os ans P bytes (pool w) = Inr (a', s')" "pool_ok P s'" "same_mapping (pool w) s'"
      "block_ok P (pool w) (a', bytes)" "usedZone s' = usedZone (pool w)"
      "block_pages P (pool w) (a', bytes) \<subseteq> free_units (freePagesTree (pool w))"
      "free_units (freePagesTree s') = free_units (freePagesTree (pool w)) - block_pages P (pool w) (a', bytes)"
    have eq: "a' = a" "s' = s" using g(1) get(6) by simp_all
    have "parted (page_place P w') {..< used_pages P (pool w)}"
      by (rule parted_move [OF parted, of "block_pages P (pool w) (a', bytes)" Free "Held k"])
        (use g empty eq in \<open>simp_all add: get(2) page_place_new\<close>)
    then show ?thesis using g eq blks same_mapping_block(3) [OF g(3)]
      by (simp add: pool_world_inv_def get(2) used_pages_def)
  next
    fix a' s'
    assume g: "GetPage os ans P bytes (pool w) = Inr (a', s')" "pool_ok P s'" "same_mapping (pool w) s'"
      "block_ok P (pool w) (a', bytes)" "used_pages P s' = used_pages P (pool w) + pages P bytes"
      "block_pages P (pool w) (a', bytes) = {used_pages P (pool w) ..< used_pages P (pool w) + pages P bytes}"
      "freePagesTree s' = freePagesTree (pool w)"
    have eq: "a' = a" "s' = s" using g(1) get(6) by simp_all
    have "parted (page_place P w') ({..< used_pages P (pool w)} \<union> block_pages P (pool w) (a', bytes))"
      by (rule parted_grow [OF parted, of _ _ "Held k"]) (use g empty eq in \<open>auto simp: get(2) page_place_new\<close>)
    moreover have "{..< used_pages P (pool w)} \<union> block_pages P (pool w) (a', bytes) = {..< used_pages P s}"
      using g(5,6) eq by auto
    ultimately show ?thesis using g eq blks same_mapping_block(3) [OF g(3)]
      by (simp add: pool_world_inv_def get(2))
  next
    assume "GetPage os ans P bytes (pool w) =
      MapMemory os ans (of_nat (pages P bytes * unat P)) True (pool_call [Lock, Unlock] (pool w))"
    with get(6) have m: "MapMemory os ans (of_nat (pages P bytes * unat P)) True (pool_call [Lock, Unlock] (pool w)) = Inr (a, s)"
      by simp
    have g: "same_mapping (pool w) s" "freePagesTree s = freePagesTree (pool w)" "usedZone s = usedZone (pool w)"
      using map_same [OF m] by (simp_all add: same_mapping_def)
    have out: "\<not> in_pool (pool w) a" using map_same [OF m] get(5) by auto
    then have none: "block_pages P (pool w) (a, bytes) = {}" "block_ok P (pool w) (a, bytes)"
      using get(4) by (simp_all add: block_pages_def block_ok_def)
    have "parted (page_place P w') {..< used_pages P (pool w)}"
      by (rule parted_same [OF parted]) (use g(1,2) none empty in \<open>auto simp: get(2) page_place_new\<close>)
    moreover have "pool_ok P s" using ok g by (simp add: pool_ok_def same_mapping_def used_pages_def)
    ultimately show ?thesis using g none blks same_mapping_block(3) [OF g(1)]
      by (simp add: pool_world_inv_def get(2) used_pages_def)
  qed
next
  case (ret k a bytes ans s)
  have ok: "pool_ok P (pool w)" and parted: "parted (page_place P w) {..< used_pages P (pool w)}"
    and blks: "\<And>k a n. blocks w k = Some (a, n) \<Longrightarrow> block_ok P (pool w) (a, n)" using inv by (simp_all add: pool_world_inv_def)
  note held = held_block [OF inv ret(3)]
  show ?thesis
  proof (cases "in_pool (pool w) a")
    case False
    then have "s = ReturnPageImpl os ans a ((bytes + P - 1) div P * P) (pool w)"
      using ret(4) by (simp add: ReturnPage_outside)
    then have g: "same_mapping (pool w) s" "freePagesTree s = freePagesTree (pool w)" "usedZone s = usedZone (pool w)"
      by (simp_all add: same_mapping_def)
    have "page_place P w (Held k) = {}" using False ret(3) by (simp add: block_pages_def)
    then have "parted (page_place P w') {..< used_pages P (pool w)}"
      by (intro parted_same [OF parted]) (use g(1,2) in \<open>auto simp: ret(2) page_place_new\<close>)
    moreover have "pool_ok P s" using ok g by (simp add: pool_ok_def same_mapping_def used_pages_def)
    ultimately show ?thesis using g blks same_mapping_block(3) [OF g(1)]
      by (auto simp: pool_world_inv_def ret(2) used_pages_def)
  next
    case True
    show ?thesis
    proof (rule ReturnPage_inside [OF ok held(1) True held(2,3), of os ans])
      fix s'
      assume g: "ReturnPage os ans P a bytes (pool w) = Inr s'" "pool_ok P s'" "same_mapping (pool w) s'"
        "usedZone s' = usedZone (pool w)"
        "free_units (freePagesTree s') = free_units (freePagesTree (pool w)) \<union> block_pages P (pool w) (a, bytes)"
      have eq: "s' = s" using g(1) ret(4) by simp
      have "parted (page_place P w') {..< used_pages P (pool w)}"
        by (rule parted_move [OF parted, of "block_pages P (pool w) (a, bytes)" "Held k" Free])
          (use g ret(3) eq in \<open>simp_all add: ret(2) page_place_new\<close>)
      then show ?thesis using g eq blks same_mapping_block(3) [OF g(3)]
        by (auto simp: pool_world_inv_def ret(2) used_pages_def)
    qed
  qed
qed

interpretation pages_kept: step_invariant "pool_step os P" "\<lambda>_. True" "pool_world_inv P" for os P
  by unfold_locales (rule pool_step_inv)

text \<open>A pool just made.\<close>

lemma Init_world:
  assumes P: "good_page P" and n: "pageCount \<noteq> - 1" and init: "Init os ans P pageCount (new_page_pool name) = Inr s"
    and base: "base s \<noteq> 0" "unat (base s) + unat pageCount * unat P < 2 ^ 64"
  shows "pool_world_inv P \<lparr>pool = s, blocks = \<lambda>_. None\<rparr>"
proof -
  have "unat (ucast pageCount :: u64) = unat pageCount" by transfer (simp add: take_bit_nat_def)
  moreover have "unat pageCount * unat P < 2 ^ 64" using base(2) by simp
  ultimately have sz: "unat (ucast pageCount * P) = unat pageCount * unat P" by (simp add: unat_word_ariths)
  have "unat pageCount \<noteq> unat (- 1 :: u32)" using n by (simp add: word_unat_eq_iff)
  moreover have "unat pageCount < 2 ^ 32" by (rule less_le_trans [OF unsigned_less]) simp
  ultimately have cnt: "unat pageCount < 2 ^ 32 - 1" by (simp add: unsigned_minus_1_eq_mask mask_eq_exp_minus_1)
  have s: "freePagesTree s = \<lparr>totalCount = 0, root = Null, region_calls = []\<rparr>" "usedZone s = 0"
    "totalPageCount s = pageCount" "totalSize s = ucast pageCount * P"
    using init by (auto simp: Init_def new_page_pool_def and_then_Inr_iff Let_def MapMemory_def pool_call_def
        split: prod.splits os.splits if_splits)
  have none: "free_units (freePagesTree s) = {}" by (simp add: s(1) free_units_def)
  have "pool_ok P s" using P base sz cnt none
    by (simp add: pool_ok_def s(2-4)) (simp add: s(1) tree_inv_def)
  moreover have "parted (page_place P \<lparr>pool = s, blocks = \<lambda>_. None\<rparr>) {..< used_pages P s}"
    unfolding parted_def
  proof (intro conjI allI impI)
    have empty: "page_place P \<lparr>pool = s, blocks = \<lambda>_. None\<rparr> l = {}" for l using none by (cases l) simp_all
    show "page_place P \<lparr>pool = s, blocks = \<lambda>_. None\<rparr> l \<inter> page_place P \<lparr>pool = s, blocks = \<lambda>_. None\<rparr> k = {}" for l k
      by (simp add: empty)
    show "(\<Union>l. page_place P \<lparr>pool = s, blocks = \<lambda>_. None\<rparr> l) = {..< used_pages P s}"
      by (simp add: empty used_pages_def s(2))
  qed
  ultimately show ?thesis by (simp add: pool_world_inv_def)
qed

text \<open>The tree has a run for every free block.\<close>

lemma TakeUnits_finds:
  assumes inv: "tree_inv t" and sub: "{i ..< i + n} \<subseteq> free_units t" and n: "0 < n" "n < 2 ^ 32"
  shows "TakeUnits (of_nat n) refresh t \<noteq> Inr (None, t)"
proof -
  have un: "unat (of_nat n :: u32) = n" using n(2) by (simp add: unat_of_nat)
  then have nz: "(of_nat n :: u32) \<noteq> 0" using n(1) by (metis less_irrefl unat_0)
  have "i \<in> free_units t" using sub n(1) by auto
  then obtain x where x: "x \<in> set (spans (root t))" "fst x \<le> i" "i < fst x + snd x"
    by (auto simp: free_units_def cover_def span_units_def)
  then have run: "is_run (free_units t) (fst x) (snd x)" using runs_of_tree [OF inv, of "fst x" "snd x"] by simp
  then have "fst x + snd x \<notin> {i ..< i + n}" using sub by (auto simp: is_run_def)
  then have "n \<le> snd x" using x(2,3) by auto
  then have "\<not> (\<forall>a k. is_run (free_units t) a k \<longrightarrow> k < unat (of_nat n :: u32))" using run un by (metis leD)
  with TakeUnits_cases [OF inv nz, of refresh] show ?thesis by auto
qed

text \<open>The bytes of a block of the pool lie in its pages.\<close>

lemma block_bytes:
  assumes inv: "pool_world_inv P w" and b: "blocks w k = Some (a, x)" and a: "in_pool (pool w) a"
    and c: "c \<in> {unat a ..< unat a + unat x}"
  shows "(c - unat (base (pool w))) div unat P \<in> block_pages P (pool w) (a, x)" and "unat (base (pool w)) \<le> c"
    and "c < unat (base (pool w)) + unat (usedZone (pool w))"
proof -
  let ?b = "unat (base (pool w))" and ?p = "unat P"
  have ok: "pool_ok P (pool w)" using inv by (simp add: pool_world_inv_def)
  have P: "good_page P" using ok by (simp add: pool_ok_def)
  have pp: "0 < ?p" using good_page_bounds [OF P] by simp
  note held = held_block [OF inv b]
  have req: "good_request P x" and dvd: "?p dvd unat a - ?b" using held(1) a by (simp_all add: block_ok_def)
  have ba: "?b \<le> unat a" using a by (simp add: in_pool_def word_le_nat_alt)
  then show low: "?b \<le> c" using c by simp
  obtain i where i: "unat a - ?b = i * ?p" using dvd by (auto simp: dvd_def mult.commute)
  have bp: "block_pages P (pool w) (a, x) = {i ..< i + pages P x}" using a i pp by (simp add: block_pages_def Let_def)
  have "c - ?b < i * ?p + unat x" using c ba i by auto
  also have "\<dots> \<le> (i + pages P x) * ?p" using request_pages(3) [OF P req] by (simp add: add_mult_distrib)
  finally have hi: "(c - ?b) div ?p < i + pages P x" by (rule less_mult_imp_div_less)
  have "i * ?p \<le> c - ?b" using c ba i by auto
  then have "i \<le> (c - ?b) div ?p" using pp by (simp add: less_eq_div_iff_mult_less_eq)
  with hi show "(c - ?b) div ?p \<in> block_pages P (pool w) (a, x)" using bp by simp
  then have "(c - ?b) div ?p < used_pages P (pool w)" using held(2) by blast
  then have "c - ?b < used_pages P (pool w) * ?p" using pp by (simp add: div_less_iff_less_mult)
  also have "\<dots> = unat (usedZone (pool w))" using ok by (simp add: used_pages_def pool_ok_def)
  finally show "c < ?b + unat (usedZone (pool w))" using low by simp
qed

section \<open>Properties\<close>

text \<open>
  C6. However threads get and return blocks, the blocks they hold in the pool lie within what has
  been used of it and share no byte.
\<close>

theorem pool_blocks_disjoint:
  assumes "good_page P" and "pageCount \<noteq> - 1" and "Init os ans P pageCount (new_page_pool name) = Inr s"
    and "base s \<noteq> 0" and "unat (base s) + unat pageCount * unat P < 2 ^ 64"
    and "runs (pool_step os P) \<lparr>pool = s, blocks = \<lambda>_. None\<rparr> moves w"
    and "blocks w k = Some (a, x)" and "in_pool (pool w) a"
    and "blocks w l = Some (b, y)" and "in_pool (pool w) b" and "k \<noteq> l"
  shows "{unat a ..< unat a + unat x} \<inter> {unat b ..< unat b + unat y} = {} \<and>
    {unat a ..< unat a + unat x} \<subseteq> {unat (base (pool w)) ..< unat (base (pool w)) + unat (usedZone (pool w))}"
proof -
  have inv: "pool_world_inv P w"
    by (rule pages_kept.inv_run [OF assms(6) Init_world [OF assms(1-5)]]) simp
  then have "parted (page_place P w) {..< used_pages P (pool w)}" by (simp add: pool_world_inv_def)
  from parted_apart [OF this, of "Held k" "Held l"] assms(7,9,11)
  have "block_pages P (pool w) (a, x) \<inter> block_pages P (pool w) (b, y) = {}" by simp
  then show ?thesis
    using block_bytes(1) [OF inv assms(7,8)] block_bytes(1) [OF inv assms(9,10)]
      block_bytes(2,3) [OF inv assms(7,8)] by fastforce
qed

text \<open>
  Returning a block that a thread holds never ends the process, whatever happened before.
\<close>

theorem ReturnPage_never_aborts:
  assumes "good_page P" and "pageCount \<noteq> - 1" and "Init os ans P pageCount (new_page_pool name) = Inr s"
    and "base s \<noteq> 0" and "unat (base s) + unat pageCount * unat P < 2 ^ 64"
    and "runs (pool_step os P) \<lparr>pool = s, blocks = \<lambda>_. None\<rparr> moves w" and "blocks w k = Some (a, x)"
  shows "\<exists>s'. ReturnPage os ans' P a x (pool w) = Inr s'"
proof -
  have inv: "pool_world_inv P w"
    by (rule pages_kept.inv_run [OF assms(6) Init_world [OF assms(1-5)]]) simp
  then have ok: "pool_ok P (pool w)" by (simp add: pool_world_inv_def)
  note held = held_block [OF inv assms(7)]
  show ?thesis
  proof (cases "in_pool (pool w) a")
    case True
    from ReturnPage_inside [OF ok held(1) True held(2,3), of os ans'] show ?thesis by metis
  qed (simp add: ReturnPage_outside)
qed

text \<open>
  Returned pages are used again: after a block has come back a request for as many bytes is
  served from the pool, and no further page of it is used.
\<close>

theorem GetPage_reuses_returned:
  assumes "pool_world_inv P w" and "blocks w k = Some (a, x)" and "in_pool (pool w) a"
    and "ReturnPage os ans P a x (pool w) = Inr s"
  shows "\<exists>a' s'. GetPage os ans' P x s = Inr (a', s') \<and> in_pool s a' \<and> usedZone s' = usedZone (pool w)"
proof -
  have ok: "pool_ok P (pool w)" using assms(1) by (simp add: pool_world_inv_def)
  note held = held_block [OF assms(1,2)]
  obtain s1 where s1: "ReturnPage os ans P a x (pool w) = Inr s1" "pool_ok P s1" "same_mapping (pool w) s1"
    "usedZone s1 = usedZone (pool w)"
    "free_units (freePagesTree s1) = free_units (freePagesTree (pool w)) \<union> block_pages P (pool w) (a, x)"
    by (rule ReturnPage_inside [OF ok held(1) assms(3) held(2,3)])
  then have eq: "s1 = s" using assms(4) by simp
  have req: "good_request P x" and P: "good_page P" using held(1) ok by (simp_all add: block_ok_def pool_ok_def)
  obtain i where i: "block_pages P (pool w) (a, x) = {i ..< i + pages P x}"
    using assms(3) by (simp add: block_pages_def Let_def)
  have sub: "{i ..< i + pages P x} \<subseteq> free_units (freePagesTree s)" using s1(5) eq i by simp
  have inv: "tree_inv (freePagesTree s)" using s1(2) eq by (simp add: pool_ok_def)
  have found: "TakeUnits (of_nat (pages P x)) False (freePagesTree s) \<noteq> Inr (None, freePagesTree s)"
    using TakeUnits_finds [OF inv sub] request_pages(1,2) [OF P req] by simp
  show ?thesis
  proof (rule GetPage_cases [OF s1(2) [unfolded eq] req, of os ans'])
    fix a' s'
    assume "GetPage os ans' P x s = Inr (a', s')" "in_pool s a'" "usedZone s' = usedZone s"
    then show ?thesis using s1(4) eq by auto
  qed (use found in simp_all)
qed

text \<open>
  C38. A request of no bytes, and one so large that rounding it up wraps around, reserves nothing: it is
  answered with the first page not used yet, which the next such request gets as well.
\<close>

theorem GetPage_wrapped_request:
  assumes "pool_ok P s" and "unat bytes = 0 \<or> 2 ^ 64 - unat P < unat bytes"
  shows "\<exists>s'. GetPage os ans P bytes s = Inr (base s + usedZone s, s') \<and> usedZone s' = usedZone s \<and>
    freePagesTree s' = freePagesTree s"
proof -
  obtain k where k: "k \<le> 20" "P = 2 ^ k" using assms(1) by (auto simp: pool_ok_def good_page_def)
  have p: "unat P = 2 ^ k" using k by (simp add: unat_2p)
  have pp: "0 < unat P" "unat P \<le> 2 ^ 20" using good_page_bounds assms(1) by (simp_all add: pool_ok_def)
  have "unat (bytes + P - 1) < unat P"
  proof (cases "unat bytes = 0")
    case True
    then have "bytes = 0" by (simp add: unat_eq_zero)
    moreover have "P \<noteq> 0" using pp by auto
    ultimately show ?thesis using unat_minus_one_Suc [of P] by simp
  next
    case False
    have b: "unat bytes < 2 ^ 64" by (rule less_le_trans [OF unsigned_less]) simp
    have "unat (bytes + P) = unat bytes + unat P - 2 ^ 64"
      using assms(2) False b pp by (simp add: unat_word_ariths mod_if)
    moreover from this assms(2) False pp have "bytes + P \<noteq> 0" by (auto simp: unat_eq_zero [symmetric] simp del: unat_eq_zero)
    ultimately show ?thesis using unat_minus_one_Suc [of "bytes + P"] b by simp
  qed
  then have zero: "(bytes + P - 1) div P = 0" "(bytes + P - 1) AND (0 - P) = 0"
    using p unfolding k(2) AND_minus_exp
    by (simp_all add: word_unat_eq_iff unat_div unsigned_push_bit_eq unat_drop_bit_eq drop_bit_eq_div)
  have "TakeUnits 0 False (freePagesTree s) = Inr (None, freePagesTree s)" by (simp add: TakeUnits_def)
  moreover have "usedZone s \<le> totalSize s" "base s \<noteq> 0" using assms(1) by (simp_all add: pool_ok_def word_le_nat_alt)
  ultimately show ?thesis unfolding GetPage_def zero Let_def by simp
qed

section \<open>Examples\<close>

text \<open>Two threads, on Linux with pages of 4 KiB, in a pool of eight.\<close>

definition demo_pool :: page_pool where
  "demo_pool = (case Init Linux (\<lambda>_. 0x10000) 4096 8 (new_page_pool 7) of Inr s \<Rightarrow> s | Inl _ \<Rightarrow> new_page_pool 7)"

lemma demo_init: "Init Linux (\<lambda>_. 0x10000) 4096 8 (new_page_pool 7) = Inr demo_pool"
  "base demo_pool = 0x10000" "totalSize demo_pool = 0x8000" "usedZone demo_pool = 0"
  "freePagesTree demo_pool = \<lparr>totalCount = 0, root = Null, region_calls = []\<rparr>"
  by (simp_all add: demo_pool_def Init_def new_page_pool_def MapMemory_def tree_map_sizes_def pool_call_def Let_def)

definition demo_pool1 :: page_pool where
  "demo_pool1 = demo_pool\<lparr>usedZone := 0x2000, pool_calls := pool_calls demo_pool @ [Lock, Unlock]\<rparr>"

lemma demo_pool1_facts: "base demo_pool1 = 0x10000" "totalSize demo_pool1 = 0x8000"
  by (simp_all add: demo_pool1_def demo_init)

definition demo_pool2 :: page_pool where
  "demo_pool2 = demo_pool1\<lparr>usedZone := 0x3000, pool_calls := pool_calls demo_pool1 @ [Lock, Unlock]\<rparr>"

lemma demo_gets:
  "GetPage Linux (\<lambda>_. 1) 4096 5000 demo_pool = Inr (0x10000, demo_pool1)"
  "GetPage Linux (\<lambda>_. 1) 4096 100 demo_pool1 = Inr (0x12000, demo_pool2)"
  by (simp_all add: GetPage_def demo_pool1_def demo_pool2_def demo_init TakeUnits_def GetPageImpl_def pool_call_def Let_def
      word_le_nat_alt)

definition demo_pool_world :: pool_world where
  "demo_pool_world = \<lparr>pool = demo_pool2, blocks = [0 \<mapsto> (0x10000, 5000), 1 \<mapsto> (0x12000, 100)]\<rparr>"

lemma demo_pool_run: "runs (pool_step Linux 4096) \<lparr>pool = demo_pool, blocks = \<lambda>_. None\<rparr>
    [Get 0 5000 (\<lambda>_. 1), Get 1 100 (\<lambda>_. 1)] demo_pool_world"
proof -
  let ?w0 = "\<lparr>pool = demo_pool, blocks = \<lambda>_. None\<rparr>" and ?w1 = "\<lparr>pool = demo_pool1, blocks = [0 \<mapsto> (0x10000, 5000)]\<rparr>"
  have "pool_step Linux 4096 ?w0 (Get 0 5000 (\<lambda>_. 1)) \<lparr>pool = demo_pool1, blocks = (blocks ?w0)(0 \<mapsto> (0x10000, 5000))\<rparr>"
    by (rule pool_step.get) (simp_all add: demo_gets good_request_def in_pool_def demo_init word_le_nat_alt)
  then have one: "pool_step Linux 4096 ?w0 (Get 0 5000 (\<lambda>_. 1)) ?w1" by simp
  have "pool_step Linux 4096 ?w1 (Get 1 100 (\<lambda>_. 1)) \<lparr>pool = demo_pool2, blocks = (blocks ?w1)(1 \<mapsto> (0x12000, 100))\<rparr>"
    by (rule pool_step.get) (simp_all add: demo_gets good_request_def in_pool_def demo_init demo_pool1_facts word_le_nat_alt)
  then have two: "pool_step Linux 4096 ?w1 (Get 1 100 (\<lambda>_. 1)) demo_pool_world" by (simp add: demo_pool_world_def)
  have "runs (pool_step Linux 4096) ?w1 [Get 1 100 (\<lambda>_. 1)] demo_pool_world" by (rule run_Cons [OF run_refl]) (rule two)
  then show ?thesis by (rule run_Cons) (rule one)
qed

lemma demo_page: "good_page 4096"
  unfolding good_page_def by (rule bexI [of _ 12]) simp_all

lemma demo_pool_world_inv: "pool_world_inv 4096 demo_pool_world"
  by (rule pages_kept.inv_run [OF demo_pool_run Init_world [OF demo_page _ demo_init(1)]]) (simp_all add: demo_init)

lemma demo_pool_world_simps: "blocks demo_pool_world 0 = Some (0x10000, 5000)" "blocks demo_pool_world 1 = Some (0x12000, 100)"
  "in_pool (pool demo_pool_world) 0x10000" "in_pool (pool demo_pool_world) 0x12000"
  by (simp_all add: demo_pool_world_def in_pool_def demo_pool2_def demo_pool1_def demo_init)

theorem pool_blocks_disjoint_witness:
  "\<exists>s w. Init Linux (\<lambda>_. 0x10000) 4096 8 (new_page_pool 7) = Inr s \<and>
    runs (pool_step Linux 4096) \<lparr>pool = s, blocks = \<lambda>_. None\<rparr> [Get 0 5000 (\<lambda>_. 1), Get 1 100 (\<lambda>_. 1)] w \<and>
    base (pool w) = 0x10000 \<and> usedZone (pool w) = 0x3000 \<and>
    blocks w 0 = Some (0x10000, 5000) \<and> in_pool (pool w) 0x10000 \<and>
    blocks w 1 = Some (0x12000, 100) \<and> in_pool (pool w) 0x12000 \<and>
    {unat (0x10000 :: addr) ..< unat (0x10000 :: addr) + unat (5000 :: u64)} \<inter>
      {unat (0x12000 :: addr) ..< unat (0x12000 :: addr) + unat (100 :: u64)} = {} \<and>
    {unat (0x10000 :: addr) ..< unat (0x10000 :: addr) + unat (5000 :: u64)}
      \<subseteq> {unat (base (pool w)) ..< unat (base (pool w)) + unat (usedZone (pool w))}"
proof (intro exI conjI)
  show "Init Linux (\<lambda>_. 0x10000) 4096 8 (new_page_pool 7) = Inr demo_pool" by (rule demo_init)
  show "runs (pool_step Linux 4096) \<lparr>pool = demo_pool, blocks = \<lambda>_. None\<rparr>
      [Get 0 5000 (\<lambda>_. 1), Get 1 100 (\<lambda>_. 1)] demo_pool_world" by (rule demo_pool_run)
  have "(8 :: u32) \<noteq> - 1" "base demo_pool \<noteq> 0"
    "unat (base demo_pool) + unat (8 :: u32) * unat (4096 :: u64) < 2 ^ 64" "(0 :: nat) \<noteq> 1"
    by (simp_all add: demo_init)
  note apart = pool_blocks_disjoint [OF demo_page this(1) demo_init(1) this(2,3) demo_pool_run demo_pool_world_simps(1,3,2,4) this(4)]
  show "{unat (0x10000 :: addr) ..< unat (0x10000 :: addr) + unat (5000 :: u64)} \<inter>
      {unat (0x12000 :: addr) ..< unat (0x12000 :: addr) + unat (100 :: u64)} = {}"
    by (rule conjunct1 [OF apart])
  show "{unat (0x10000 :: addr) ..< unat (0x10000 :: addr) + unat (5000 :: u64)}
      \<subseteq> {unat (base (pool demo_pool_world)) ..< unat (base (pool demo_pool_world)) + unat (usedZone (pool demo_pool_world))}"
    by (rule conjunct2 [OF apart])
qed (simp_all add: demo_pool_world_simps, simp_all add: demo_pool_world_def demo_pool2_def demo_pool1_facts)

theorem ReturnPage_never_aborts_witness: "\<exists>s'. ReturnPage Linux (\<lambda>_. 0) 4096 0x10000 5000 (pool demo_pool_world) = Inr s'"
  by (rule ReturnPage_never_aborts [OF demo_page _ demo_init(1) _ _ demo_pool_run demo_pool_world_simps(1)]) (simp_all add: demo_init)

lemma demo_return_page: "ReturnPage Linux (\<lambda>_. 0) 4096 0x10000 5000 demo_pool2 = Inr
    (demo_pool2\<lparr>freePagesTree := \<lparr>totalCount = 2, root = Node Null 0 2 Null, region_calls = []\<rparr>,
       pool_calls := pool_calls demo_pool2 @ [Madvise 0x10000 0x2000 4, Lock, Unlock]\<rparr>)"
  by (simp add: ReturnPage_def ReturnPagePart2_def demo_pool2_def demo_pool1_def demo_init pool_call_def MergeInsert_def
      new_node_def IncTotalCount_def Let_def)

theorem GetPage_reuses_returned_witness:
  "\<exists>s a' s'. ReturnPage Linux (\<lambda>_. 0) 4096 0x10000 5000 demo_pool2 = Inr s \<and>
    GetPage Linux (\<lambda>_. 0) 4096 5000 s = Inr (a', s') \<and> usedZone s' = 0x3000"
proof -
  from demo_return_page obtain s where s: "ReturnPage Linux (\<lambda>_. 0) 4096 0x10000 5000 demo_pool2 = Inr s" by blast
  then have "ReturnPage Linux (\<lambda>_. 0) 4096 0x10000 5000 (pool demo_pool_world) = Inr s" by (simp add: demo_pool_world_def)
  from GetPage_reuses_returned [OF demo_pool_world_inv demo_pool_world_simps(1,3) this, of "\<lambda>_. 0"] s
  show ?thesis by (auto simp: demo_pool_world_def demo_pool2_def)
qed

theorem GetPage_wrapped_request_witness:
  "\<exists>s'. GetPage Linux (\<lambda>_. 0) 4096 (- 1) demo_pool2 = Inr (0x13000, s') \<and> usedZone s' = 0x3000"
proof -
  have "pool_ok 4096 demo_pool2" using demo_pool_world_inv by (simp add: pool_world_inv_def demo_pool_world_def)
  from GetPage_wrapped_request [OF this, of "- 1" Linux "\<lambda>_. 0"] show ?thesis
    by (auto simp: demo_pool2_def demo_pool1_def demo_init unsigned_minus_1_eq_mask mask_eq_exp_minus_1)
qed

end
