(* ===== verification/StateWord.thy ===== *)
theory StateWord
  imports Atomics
begin

unbundle bit_operations_syntax

text \<open>
  The header word of an object, \<^verbatim>\<open>src/rt.common/StateWord.cj\<close>, over the byte memory: 48 bits of the
  address of the type information and 16 bits of state, the last two bytes, whose two low bits are the state
  code. The state is also a lock, taken and given back by the state-word swap of \<open>Atomics\<close>. The
  layout is that of the targets other than 32-bit ARM.
\<close>

section \<open>The state\<close>

definition NORMAL :: u8 where "NORMAL = 0"
definition LOCKED :: u8 where "LOCKED = 1"
definition FORWARDING :: u8 where "FORWARDING = 2"
definition FORWARDED :: u8 where "FORWARDED = 3"

lemmas state_codes = NORMAL_def LOCKED_def FORWARDING_def FORWARDED_def

record object_state =
  stateBits :: u16

definition ObjectState_of_code :: "u8 \<Rightarrow> object_state" where
  "ObjectState_of_code state = \<lparr>stateBits = ucast state\<rparr>"

text \<open>The plain and the atomic accesses to the state at an address.\<close>

definition GetStateBits :: "mem \<Rightarrow> addr \<Rightarrow> u16" where
  "GetStateBits m q = ucast (mload 2 m q)"

definition SetStateBits :: "mem \<Rightarrow> addr \<Rightarrow> u16 \<Rightarrow> mem" where
  "SetStateBits m q v = mstore 2 m q (ucast v)"

definition AtomicGetStateBits :: "mem \<Rightarrow> addr \<Rightarrow> u16" where
  "AtomicGetStateBits m q = cj_atomic_u16_load m q"

definition AtomicSetStateBits :: "mem \<Rightarrow> addr \<Rightarrow> u16 \<Rightarrow> mem" where
  "AtomicSetStateBits m q v = cj_atomic_u16_store m q v"

definition AtomicGetObjectState :: "mem \<Rightarrow> addr \<Rightarrow> object_state" where
  "AtomicGetObjectState m q = \<lparr>stateBits = AtomicGetStateBits m q\<rparr>"

text \<open>The swap of x86_64 is \<open>weak\<close>: it may fail for no reason, which \<open>spurious\<close> decides.\<close>

definition CompareExchangeStateBits :: "bool \<Rightarrow> bool \<Rightarrow> mem \<Rightarrow> addr \<Rightarrow> u16 \<Rightarrow> u16 \<Rightarrow> bool \<times> mem" where
  "CompareExchangeStateBits weak spurious m q expected newState =
     (let (r, m') = cj_stateword_u16_cas weak spurious m q expected newState in (r \<noteq> 0, m'))"

definition code_of :: "u16 \<Rightarrow> u8" where
  "code_of bits = ucast (bits AND 3)"

definition ObjectState_GetStateCode :: "mem \<Rightarrow> addr \<Rightarrow> u8" where
  "ObjectState_GetStateCode m q = code_of (GetStateBits m q)"

definition ObjectState_SetStateCode :: "mem \<Rightarrow> addr \<Rightarrow> u8 \<Rightarrow> mem" where
  "ObjectState_SetStateCode m q state =
     SetStateBits m q ((GetStateBits m q AND 0xFFFC) OR (ucast state AND 3))"

definition IsForwardableState :: "mem \<Rightarrow> addr \<Rightarrow> bool" where
  "IsForwardableState m q \<longleftrightarrow> ObjectState_GetStateCode m q = NORMAL"

definition IsForwardedState :: "mem \<Rightarrow> addr \<Rightarrow> bool" where
  "IsForwardedState m q \<longleftrightarrow> ObjectState_GetStateCode m q = FORWARDED"

definition IsLockedState :: "mem \<Rightarrow> addr \<Rightarrow> bool" where
  "IsLockedState m q \<longleftrightarrow> ObjectState_GetStateCode m q = LOCKED"

section \<open>The word\<close>

record state_word =
  typeInfoLow32 :: u32
  typeInfoHigh16 :: u16
  objectState :: object_state

definition GetTypeInfo :: "mem \<Rightarrow> addr \<Rightarrow> u64" where
  "GetTypeInfo m p =
     (let low = mload 4 m p; high = mload 2 m (p + 4) in push_bit 32 high OR low)"

definition SetTypeInfo :: "mem \<Rightarrow> addr \<Rightarrow> u64 \<Rightarrow> mem" where
  "SetTypeInfo m p typeInfo =
     (let low = ucast (drop_bit 0 typeInfo AND 0xFFFFFFFF) :: u32;
          high = ucast (drop_bit 32 typeInfo AND 0xFFFF) :: u16
      in mstore 2 (mstore 4 m p (ucast low)) (p + 4) (ucast high))"

definition GetObjectState :: "mem \<Rightarrow> addr \<Rightarrow> object_state" where
  "GetObjectState m p = AtomicGetObjectState m (p + 6)"

definition GetStateWord :: "mem \<Rightarrow> addr \<Rightarrow> state_word" where
  "GetStateWord m p = \<lparr>typeInfoLow32 = ucast (mload 4 m p), typeInfoHigh16 = ucast (mload 2 m (p + 4)),
     objectState = GetObjectState m p\<rparr>"

definition StateWord_GetStateCode :: "mem \<Rightarrow> addr \<Rightarrow> u8" where
  "StateWord_GetStateCode m p = ObjectState_GetStateCode m (p + 6)"

definition StateWord_SetStateCode :: "mem \<Rightarrow> addr \<Rightarrow> u8 \<Rightarrow> mem" where
  "StateWord_SetStateCode m p state = ObjectState_SetStateCode m (p + 6) state"

definition StateWord_IsForwardableState :: "mem \<Rightarrow> addr \<Rightarrow> bool" where
  "StateWord_IsForwardableState m p \<longleftrightarrow> IsForwardableState m (p + 6)"

definition StateWord_IsForwardedState :: "mem \<Rightarrow> addr \<Rightarrow> bool" where
  "StateWord_IsForwardedState m p \<longleftrightarrow> IsForwardedState m (p + 6)"

definition IsValidStateWord :: "mem \<Rightarrow> addr \<Rightarrow> bool" where
  "IsValidStateWord m p \<longleftrightarrow> GetTypeInfo m p \<noteq> 0"

definition IsLockedWord :: "mem \<Rightarrow> addr \<Rightarrow> bool" where
  "IsLockedWord m p \<longleftrightarrow> IsLockedState m (p + 6)"

definition TryLockStateWord :: "bool \<Rightarrow> bool \<Rightarrow> mem \<Rightarrow> addr \<Rightarrow> object_state \<Rightarrow> bool \<times> mem" where
  "TryLockStateWord weak spurious m p current =
     (if code_of (stateBits current) = LOCKED then (False, m)
      else CompareExchangeStateBits weak spurious m (p + 6) (stateBits current) (ucast LOCKED))"

text \<open>
  One round of \<open>UnlockStateWord\<close> and the loop; \<open>spurious\<close> says of every round whether its swap
  fails for no reason.
\<close>

definition unlock_round :: "bool \<Rightarrow> bool \<Rightarrow> mem \<Rightarrow> addr \<Rightarrow> object_state \<Rightarrow> (bool \<times> mem) res" where
  "unlock_round weak spurious m p newState =
     (let current = AtomicGetObjectState m (p + 6) in
      if code_of (stateBits current) \<noteq> LOCKED then Inl Fatal
      else Inr (CompareExchangeStateBits weak spurious m (p + 6) (stateBits current) (stateBits newState)))"

partial_function (option) UnlockStateWord ::
  "bool \<Rightarrow> (nat \<Rightarrow> bool) \<Rightarrow> nat \<Rightarrow> mem \<Rightarrow> addr \<Rightarrow> object_state \<Rightarrow> mem res option" where
  "UnlockStateWord weak spurious n m p newState =
     (case unlock_round weak (spurious n) m p newState of
        Inl e \<Rightarrow> Some (Inl e)
      | Inr (swapped, m') \<Rightarrow>
          if swapped then Some (Inr m') else UnlockStateWord weak spurious (n + 1) m' p newState)"

section \<open>Laws of the state cell\<close>

lemma swap_cases:
  "CompareExchangeStateBits x s m q e d =
    (if x \<and> s \<or> cj_atomic_u16_load m q \<noteq> e then (False, m) else (True, cj_atomic_u16_store m q d))"
  using stateword_cell.cas_spec [of x m q e d]
  by (auto simp: CompareExchangeStateBits_def cj_stateword_u16_cas_def split: if_splits)

lemma GetStateBits_atomic: "GetStateBits m q = cj_atomic_u16_load m q"
  by (simp add: GetStateBits_def cj_atomic_u16_load_def)

text \<open>The bytes of the type information and of the state are apart.\<close>

lemma header_apart:
  "disjoint_regions p 4 (p + 6) 2" "disjoint_regions (p + 4) 2 (p + 6) 2" "disjoint_regions p 4 (p + 4) 2"
  "disjoint_regions (p + 6) 2 p 4" "disjoint_regions (p + 6) 2 (p + 4) 2" "disjoint_regions (p + 4) 2 p 4"
proof -
  have "unat (- 6 :: u64) = 2 ^ 64 - 6" "unat (- 2 :: u64) = 2 ^ 64 - 2" "unat (- 4 :: u64) = 2 ^ 64 - 4"
    by (simp_all add: unat_word_ariths)
  then show "disjoint_regions p 4 (p + 6) 2" "disjoint_regions (p + 4) 2 (p + 6) 2" "disjoint_regions p 4 (p + 4) 2"
    "disjoint_regions (p + 6) 2 p 4" "disjoint_regions (p + 6) 2 (p + 4) 2" "disjoint_regions (p + 4) 2 p 4"
    by (simp_all add: disjoint_regions_def)
qed

lemma type_info_store [simp]: "GetTypeInfo (cj_atomic_u16_store m (p + 6) v) p = GetTypeInfo m p"
  by (simp add: GetTypeInfo_def cj_atomic_u16_store_def mem_simps header_apart)

lemma state_set_type_info [simp]: "cj_atomic_u16_load (SetTypeInfo m p t) (p + 6) = cj_atomic_u16_load m (p + 6)"
  by (simp add: SetTypeInfo_def cj_atomic_u16_load_def mem_simps header_apart Let_def)

section \<open>The lock, by any number of threads\<close>

text \<open>
  A thread reads the state and tries to lock with what it has read; it leaves the lock with a state
  that is not the locked one. One step is one access to the word. While threads do that, others write the
  type information. A weak swap may fail for no reason at any time.
\<close>

datatype lock_pc = Outside | Tries object_state | Inside | Unlocks object_state | Swaps object_state object_state

fun lock_access :: "bool \<Rightarrow> bool \<Rightarrow> addr \<Rightarrow> mem \<Rightarrow> lock_pc \<Rightarrow> (lock_pc \<times> mem) res" where
  "lock_access weak spurious p m (Tries current) =
     (let (locked, m') = TryLockStateWord weak spurious m p current
      in Inr (if locked then Inside else Outside, m'))"
| "lock_access weak spurious p m (Unlocks newState) =
     (let current = AtomicGetObjectState m (p + 6) in
      if code_of (stateBits current) \<noteq> LOCKED then Inl Fatal else Inr (Swaps newState current, m))"
| "lock_access weak spurious p m (Swaps newState current) =
     (let (swapped, m') =
        CompareExchangeStateBits weak spurious m (p + 6) (stateBits current) (stateBits newState)
      in Inr (if swapped then Outside else Unlocks newState, m'))"
| "lock_access weak spurious p m pc = Inr (pc, m)"

type_synonym lock_sys = "mem \<times> (nat \<Rightarrow> lock_pc)"

inductive lock_step :: "bool \<Rightarrow> addr \<Rightarrow> lock_sys \<Rightarrow> nat \<Rightarrow> lock_sys \<Rightarrow> bool" for weak p where
  read_state: "pcs t = Outside \<Longrightarrow> lock_step weak p (m, pcs) t (m, pcs(t := Tries (GetObjectState m p)))"
| begin_unlock: "pcs t = Inside \<Longrightarrow> code_of (stateBits newState) \<noteq> LOCKED \<Longrightarrow>
    lock_step weak p (m, pcs) t (m, pcs(t := Unlocks newState))"
| lock_access: "lock_access weak spurious p m (pcs t) = Inr (pc, m') \<Longrightarrow>
    lock_step weak p (m, pcs) t (m', pcs(t := pc))"
| set_type: "lock_step weak p (m, pcs) t (SetTypeInfo m p info, pcs)"

fun lock_holder :: "lock_pc \<Rightarrow> bool" where
  "lock_holder Outside = False"
| "lock_holder (Tries current) = False"
| "lock_holder Inside = True"
| "lock_holder (Unlocks newState) = True"
| "lock_holder (Swaps newState current) = True"

text \<open>What a thread has in its variables: the state it leaves is not the locked one, and it has read a locked one.\<close>

fun lock_locals :: "lock_pc \<Rightarrow> bool" where
  "lock_locals (Unlocks newState) \<longleftrightarrow> code_of (stateBits newState) \<noteq> LOCKED"
| "lock_locals (Swaps newState current) \<longleftrightarrow> code_of (stateBits newState) \<noteq> LOCKED"
| "lock_locals pc \<longleftrightarrow> True"

definition lock_holders :: "(nat \<Rightarrow> lock_pc) \<Rightarrow> nat set" where
  "lock_holders pcs = {t. lock_holder (pcs t)}"

lemma in_lock_holders [simp]: "t \<in> lock_holders pcs \<longleftrightarrow> lock_holder (pcs t)"
  by (simp add: lock_holders_def)

definition lock_inv :: "addr \<Rightarrow> lock_sys \<Rightarrow> bool" where
  "lock_inv p s \<longleftrightarrow> (case s of (m, pcs) \<Rightarrow>
     (\<forall>t. lock_locals (pcs t)) \<and>
     (lock_holders pcs = {} \<and> code_of (cj_atomic_u16_load m (p + 6)) \<noteq> LOCKED \<or>
      (\<exists>t. lock_holders pcs = {t}) \<and> code_of (cj_atomic_u16_load m (p + 6)) = LOCKED))"

lemma code_of_locked: "code_of (ucast LOCKED) = LOCKED"
  by (simp add: code_of_def LOCKED_def)

lemma lock_holders_upd:
  "lock_holders (pcs(t := pc)) = (if lock_holder pc then insert t (lock_holders pcs) else lock_holders pcs - {t})"
  by (auto simp: lock_holders_def)

lemma lock_inv_same:
  assumes "lock_inv p (m, pcs)" and "lock_holder pc = lock_holder (pcs t)" and "lock_locals pc"
    and "cj_atomic_u16_load m' (p + 6) = cj_atomic_u16_load m (p + 6)"
  shows "lock_inv p (m', pcs(t := pc))"
proof -
  have "lock_holders (pcs(t := pc)) = lock_holders pcs" using assms(2) by (auto simp: lock_holders_def)
  with assms(1,3,4) show ?thesis by (simp add: lock_inv_def)
qed

lemma lock_inv_take:
  "lock_inv p (m, pcs) \<Longrightarrow> code_of (cj_atomic_u16_load m (p + 6)) \<noteq> LOCKED \<Longrightarrow>
    lock_inv p (cj_atomic_u16_store m (p + 6) (ucast LOCKED), pcs(t := Inside))"
  by (simp add: lock_inv_def lock_holders_upd cell_simps code_of_locked)

lemma lock_inv_leave:
  assumes inv: "lock_inv p (m, pcs)" and t: "lock_holder (pcs t)" and v: "code_of v \<noteq> LOCKED"
  shows "lock_inv p (cj_atomic_u16_store m (p + 6) v, pcs(t := Outside))"
proof -
  have "t \<in> lock_holders pcs" using t by simp
  with inv have "lock_holders pcs = {t}" by (auto simp: lock_inv_def simp del: in_lock_holders)
  then have "lock_holders (pcs(t := Outside)) = {}" by (simp add: lock_holders_upd)
  with inv v show ?thesis by (simp add: lock_inv_def cell_simps)
qed

lemma lock_inv_holder:
  assumes "lock_inv p (m, pcs)" and "lock_holder (pcs t)"
  shows "code_of (cj_atomic_u16_load m (p + 6)) = LOCKED"
proof -
  have "t \<in> lock_holders pcs" using assms(2) by simp
  then show ?thesis using assms(1) by (auto simp: lock_inv_def simp del: in_lock_holders)
qed

text \<open>An access in a good state keeps it good, and is never fatal.\<close>

lemma lock_access_ok:
  assumes inv: "lock_inv p (m, pcs)"
  obtains pc m' where "lock_access weak spurious p m (pcs t) = Inr (pc, m')" and "lock_inv p (m', pcs(t := pc))"
proof (cases "pcs t")
  case (Tries current)
  show thesis
  proof (cases "code_of (stateBits current) = LOCKED \<or> weak \<and> spurious \<or> cj_atomic_u16_load m (p + 6) \<noteq> stateBits current")
    case True
    then have "lock_access weak spurious p m (pcs t) = Inr (Outside, m)"
      using Tries by (auto simp: TryLockStateWord_def swap_cases)
    moreover have "lock_inv p (m, pcs(t := Outside))" by (rule lock_inv_same [OF inv]) (simp_all add: Tries)
    ultimately show ?thesis by (rule that)
  next
    case False
    then have "lock_access weak spurious p m (pcs t) = Inr (Inside, cj_atomic_u16_store m (p + 6) (ucast LOCKED))"
      using Tries by (auto simp: TryLockStateWord_def swap_cases)
    moreover have "lock_inv p (cj_atomic_u16_store m (p + 6) (ucast LOCKED), pcs(t := Inside))"
      by (rule lock_inv_take [OF inv]) (use False in auto)
    ultimately show ?thesis by (rule that)
  qed
next
  case (Unlocks newState)
  have "code_of (cj_atomic_u16_load m (p + 6)) = LOCKED" by (rule lock_inv_holder [OF inv, of t]) (simp add: Unlocks)
  then have "lock_access weak spurious p m (pcs t) = Inr (Swaps newState (AtomicGetObjectState m (p + 6)), m)"
    using Unlocks by (simp add: AtomicGetObjectState_def AtomicGetStateBits_def Let_def)
  moreover have "lock_locals (pcs t)" using inv by (simp add: lock_inv_def)
  then have "lock_inv p (m, pcs(t := Swaps newState (AtomicGetObjectState m (p + 6))))"
    by (intro lock_inv_same [OF inv]) (simp_all add: Unlocks)
  ultimately show ?thesis by (rule that)
next
  case (Swaps newState current)
  have locals: "lock_locals (pcs t)" using inv by (simp add: lock_inv_def)
  show ?thesis
  proof (cases "weak \<and> spurious \<or> cj_atomic_u16_load m (p + 6) \<noteq> stateBits current")
    case True
    then have "lock_access weak spurious p m (pcs t) = Inr (Unlocks newState, m)"
      using Swaps by (auto simp: swap_cases)
    moreover have "lock_inv p (m, pcs(t := Unlocks newState))"
      by (rule lock_inv_same [OF inv]) (use Swaps locals in simp_all)
    ultimately show ?thesis by (rule that)
  next
    case False
    then have "lock_access weak spurious p m (pcs t) =
        Inr (Outside, cj_atomic_u16_store m (p + 6) (stateBits newState))"
      using Swaps by (auto simp: swap_cases)
    moreover have "lock_inv p (cj_atomic_u16_store m (p + 6) (stateBits newState), pcs(t := Outside))"
      by (rule lock_inv_leave [OF inv]) (use Swaps locals in simp_all)
    ultimately show ?thesis by (rule that)
  qed
qed (use inv in \<open>auto intro: that simp: fun_upd_idem\<close>)

lemma lock_inv_step:
  assumes inv: "lock_inv p s" and step: "lock_step weak p s t s'"
  shows "lock_inv p s'"
proof -
  obtain m pcs where s: "s = (m, pcs)" by (cases s)
  have here: "lock_inv p (m, pcs)" using inv s by simp
  from step [unfolded s] show ?thesis
  proof cases
    case read_state
    then show ?thesis using lock_inv_same [OF here, of "Tries (GetObjectState m p)" t m] by simp
  next
    case (begin_unlock newState)
    then show ?thesis using lock_inv_same [OF here, of "Unlocks newState" t m] by simp
  next
    case (lock_access spurious pc m')
    obtain pc2 m2 where "lock_access weak spurious p m (pcs t) = Inr (pc2, m2)" "lock_inv p (m2, pcs(t := pc2))"
      by (rule lock_access_ok [OF here])
    then show ?thesis using lock_access by simp
  next
    case (set_type info)
    then show ?thesis using here by (simp add: lock_inv_def)
  qed
qed

interpretation state_lock: step_invariant "lock_step weak p" "\<lambda>_. True" "lock_inv p" for weak p
  by unfold_locales (rule lock_inv_step)

definition lock_reach :: "bool \<Rightarrow> addr \<Rightarrow> lock_sys \<Rightarrow> bool" where
  "lock_reach weak p s \<longleftrightarrow> (\<exists>m ts. StateWord_GetStateCode m p \<noteq> LOCKED \<and> runs (lock_step weak p) (m, \<lambda>_. Outside) ts s)"

lemma lock_reach_inv: "lock_reach weak p s \<Longrightarrow> lock_inv p s"
  unfolding lock_reach_def
  by (elim exE conjE, erule state_lock.inv_run)
    (auto simp: lock_inv_def lock_holders_def StateWord_GetStateCode_def ObjectState_GetStateCode_def GetStateBits_atomic)

lemma GetSet_bits: "GetStateBits (SetStateBits m q v) q = v"
  using stateword_cell.load_store [of m q v] by (simp add: GetStateBits_atomic SetStateBits_def cj_atomic_u16_store_def)

lemma code_bits:
  fixes x :: u16 and state :: u8
  shows "code_of ((x AND 0xFFFC) OR (ucast state AND 3)) = state AND 3"
    and "((x AND 0xFFFC) OR (ucast state AND 3)) AND 0xFFFC = x AND 0xFFFC"
proof -
  have m: "(0xFFFC :: u16) = NOT (mask 2)" "(3 :: u16) = mask 2" "(3 :: u8) = mask 2"
    by (simp_all add: mask_eq_exp_minus_1)
  show "code_of ((x AND 0xFFFC) OR (ucast state AND 3)) = state AND 3"
    unfolding code_of_def m by (rule bit_word_eqI) (auto simp: bit_simps)
  show "((x AND 0xFFFC) OR (ucast state AND 3)) AND 0xFFFC = x AND 0xFFFC"
    unfolding m by (rule bit_word_eqI) (auto simp: bit_simps)
qed

section \<open>Properties\<close>

text \<open>
  C21. However threads interleave, at most one has the lock of an object; the state code is the locked one
  exactly while one has it; and no access of any of them is fatal.
\<close>

theorem StateWord_lock_exclusion:
  assumes "lock_reach weak p (m, pcs)"
  shows "(\<forall>t u. lock_holder (pcs t) \<longrightarrow> lock_holder (pcs u) \<longrightarrow> t = u) \<and>
    (IsLockedWord m p \<longleftrightarrow> (\<exists>t. lock_holder (pcs t))) \<and>
    (\<forall>t spurious. \<exists>pc m'. lock_access weak spurious p m (pcs t) = Inr (pc, m'))"
proof (intro conjI)
  have inv: "lock_inv p (m, pcs)" by (rule lock_reach_inv [OF assms])
  have locked: "IsLockedWord m p \<longleftrightarrow> code_of (cj_atomic_u16_load m (p + 6)) = LOCKED"
    by (simp add: IsLockedWord_def IsLockedState_def ObjectState_GetStateCode_def GetStateBits_atomic)
  show "\<forall>t u. lock_holder (pcs t) \<longrightarrow> lock_holder (pcs u) \<longrightarrow> t = u"
    using inv by (auto simp: lock_inv_def set_eq_iff)
  show "IsLockedWord m p \<longleftrightarrow> (\<exists>t. lock_holder (pcs t))"
    using inv unfolding locked by (auto simp: lock_inv_def set_eq_iff)
  show "\<forall>t spurious. \<exists>pc m'. lock_access weak spurious p m (pcs t) = Inr (pc, m')"
    using lock_access_ok [OF inv] by metis
qed

text \<open>
  The type information is read back as it was set, to 48 bits, and setting it leaves the state alone;
  setting the state code changes its two bits only; and neither that nor an attempt to lock touches the type
  information.
\<close>

theorem StateWord_fields_apart:
  "GetTypeInfo (SetTypeInfo m p info) p = take_bit 48 info \<and>
    GetObjectState (SetTypeInfo m p info) p = GetObjectState m p \<and>
    StateWord_GetStateCode (StateWord_SetStateCode m p state) p = state AND 3 \<and>
    GetStateBits (StateWord_SetStateCode m p state) (p + 6) AND 0xFFFC = GetStateBits m (p + 6) AND 0xFFFC \<and>
    GetTypeInfo (StateWord_SetStateCode m p state) p = GetTypeInfo m p \<and>
    GetTypeInfo (snd (TryLockStateWord weak spurious m p current)) p = GetTypeInfo m p"
proof (intro conjI)
  show "GetTypeInfo (SetTypeInfo m p info) p = take_bit 48 info"
  proof (rule bit_word_eqI)
    fix i :: nat
    assume "i < LENGTH(64)"
    have m: "(0xFFFFFFFF :: u64) = mask 32" "(0xFFFF :: u64) = mask 16" by (simp_all add: mask_eq_exp_minus_1)
    show "bit (GetTypeInfo (SetTypeInfo m p info) p) i \<longleftrightarrow> bit (take_bit 48 info) i"
      unfolding SetTypeInfo_def m by (auto simp: GetTypeInfo_def mem_simps header_apart Let_def bit_simps)
  qed
  show "GetObjectState (SetTypeInfo m p info) p = GetObjectState m p"
    by (simp add: GetObjectState_def AtomicGetObjectState_def AtomicGetStateBits_def)
  show "StateWord_GetStateCode (StateWord_SetStateCode m p state) p = state AND 3"
    using code_bits(1) by (simp add: StateWord_GetStateCode_def StateWord_SetStateCode_def ObjectState_GetStateCode_def
        ObjectState_SetStateCode_def GetSet_bits)
  show "GetStateBits (StateWord_SetStateCode m p state) (p + 6) AND 0xFFFC = GetStateBits m (p + 6) AND 0xFFFC"
    using code_bits(2) by (simp add: StateWord_SetStateCode_def ObjectState_SetStateCode_def GetSet_bits)
  show "GetTypeInfo (StateWord_SetStateCode m p state) p = GetTypeInfo m p"
    by (simp add: StateWord_SetStateCode_def ObjectState_SetStateCode_def SetStateBits_def GetTypeInfo_def mem_simps header_apart)
  show "GetTypeInfo (snd (TryLockStateWord weak spurious m p current)) p = GetTypeInfo m p"
    by (simp add: TryLockStateWord_def swap_cases)
qed

lemma unlock_round_locked:
  "IsLockedWord m p \<Longrightarrow> unlock_round x s m p newState =
    Inr (if x \<and> s then (False, m) else (True, cj_atomic_u16_store m (p + 6) (stateBits newState)))"
  by (simp add: unlock_round_def IsLockedWord_def IsLockedState_def ObjectState_GetStateCode_def GetStateBits_atomic
      AtomicGetObjectState_def AtomicGetStateBits_def swap_cases Let_def)

lemma UnlockStateWord_eventually:
  fixes spurious :: "nat \<Rightarrow> bool"
  assumes "IsLockedWord m p" and "\<not> weak \<or> \<not> spurious (n + k)"
  shows "UnlockStateWord weak spurious n m p newState = Some (Inr (cj_atomic_u16_store m (p + 6) (stateBits newState)))"
  using assms(2)
proof (induction k arbitrary: n)
  case 0
  then show ?case
    using unlock_round_locked [OF assms(1), of weak "spurious n" newState]
    by (subst UnlockStateWord.simps) auto
next
  case (Suc k)
  then show ?case
    using unlock_round_locked [OF assms(1), of weak "spurious n" newState] Suc.IH [of "n + 1"]
    by (subst UnlockStateWord.simps) auto
qed

lemma UnlockStateWord_returned:
  assumes "UnlockStateWord weak spurious n m p newState = Some r"
  shows "IsLockedWord m p \<Longrightarrow> weak \<Longrightarrow> \<exists>k. \<not> spurious k"
  using assms
proof (induction weak spurious n m p newState r rule: UnlockStateWord.raw_induct [rotated, consumes 1])
  case (1 f weak spurious n m p newState r)
  show ?case
  proof (cases "spurious n")
    case True
    then have "f weak spurious (n + 1) m p newState = Some r"
      using 1(2,3,4) unlock_round_locked [of m p weak "spurious n" newState] by simp
    from 1(1) [OF this] 1(3,4) show ?thesis by simp
  qed blast
qed

text \<open>
  Without other threads at work \<open>UnlockStateWord\<close> of a locked word returns exactly when the swap is not weak or
  some swap does not fail for no reason; the word then has the new state and the type information it had. Of a word
  that is not locked it is fatal.
\<close>

theorem UnlockStateWord_returns_iff:
  "(IsLockedWord m p \<longrightarrow> (if weak \<and> (\<forall>k. spurious k) then UnlockStateWord weak spurious 0 m p newState = None
      else \<exists>m'. UnlockStateWord weak spurious 0 m p newState = Some (Inr m') \<and> GetObjectState m' p = newState \<and>
        GetTypeInfo m' p = GetTypeInfo m p)) \<and>
    (\<not> IsLockedWord m p \<longrightarrow> UnlockStateWord weak spurious 0 m p newState = Some (Inl Fatal))"
proof (intro conjI impI)
  assume locked: "IsLockedWord m p"
  show "if weak \<and> (\<forall>k. spurious k) then UnlockStateWord weak spurious 0 m p newState = None
      else \<exists>m'. UnlockStateWord weak spurious 0 m p newState = Some (Inr m') \<and> GetObjectState m' p = newState \<and>
        GetTypeInfo m' p = GetTypeInfo m p"
  proof (cases "weak \<and> (\<forall>k. spurious k)")
    case True
    then have "UnlockStateWord weak spurious 0 m p newState = None"
      using UnlockStateWord_returned [of weak spurious 0 m p newState] locked
      by (cases "UnlockStateWord weak spurious 0 m p newState") auto
    with True show ?thesis by simp
  next
    case False
    then obtain k where "\<not> weak \<or> \<not> spurious (0 + k)" by auto
    with UnlockStateWord_eventually [OF locked, where weak = weak and spurious = spurious and n = 0 and k = k]
    have "UnlockStateWord weak spurious 0 m p newState = Some (Inr (cj_atomic_u16_store m (p + 6) (stateBits newState)))"
      by blast
    then show ?thesis using False
      by (auto simp: GetObjectState_def AtomicGetObjectState_def AtomicGetStateBits_def cell_simps)
  qed
next
  assume "\<not> IsLockedWord m p"
  then have "unlock_round weak (spurious 0) m p newState = Inl Fatal"
    by (simp add: unlock_round_def IsLockedWord_def IsLockedState_def ObjectState_GetStateCode_def GetStateBits_atomic
        AtomicGetObjectState_def AtomicGetStateBits_def Let_def)
  then show "UnlockStateWord weak spurious 0 m p newState = Some (Inl Fatal)"
    by (subst UnlockStateWord.simps) simp
qed

section \<open>Examples\<close>

text \<open>Thread 4 locks an object whose header is zero.\<close>

theorem StateWord_lock_exclusion_witness:
  "\<exists>m pcs. lock_reach True 0x40 (m, pcs) \<and> lock_holder (pcs 4) \<and> IsLockedWord m 0x40"
proof -
  let ?m = "\<lambda>_. 0 :: u8" and ?s = "\<lparr>stateBits = 0\<rparr>"
  have load: "cj_atomic_u16_load ?m 0x46 = 0" by (simp add: cj_atomic_u16_load_def mload_zero)
  let ?m' = "cj_atomic_u16_store ?m 0x46 (ucast LOCKED)"
  have "lock_step True 0x40 (?m, \<lambda>_. Outside) 4 (?m, (\<lambda>_. Outside)(4 := Tries (GetObjectState ?m 0x40)))"
    by (rule read_state) simp
  then have one: "lock_step True 0x40 (?m, \<lambda>_. Outside) 4 (?m, (\<lambda>_. Outside)(4 := Tries ?s))"
    using load by (simp add: GetObjectState_def AtomicGetObjectState_def AtomicGetStateBits_def)
  have "lock_access True False 0x40 ?m (((\<lambda>_. Outside)(4 := Tries ?s)) 4) = Inr (Inside, ?m')"
    using load by (simp add: TryLockStateWord_def swap_cases code_of_def LOCKED_def)
  from lock_step.lock_access [where t = 4 and pcs = "(\<lambda>_. Outside)(4 := Tries ?s)", OF this]
  have two: "lock_step True 0x40 (?m, (\<lambda>_. Outside)(4 := Tries ?s)) 4 (?m', (\<lambda>_. Outside)(4 := Inside))" by simp
  have "runs (lock_step True 0x40) (?m, (\<lambda>_. Outside)(4 := Tries ?s)) [4] (?m', (\<lambda>_. Outside)(4 := Inside))"
    by (rule run_Cons [OF run_refl]) (rule two)
  then have run: "runs (lock_step True 0x40) (?m, \<lambda>_. Outside) [4, 4] (?m', (\<lambda>_. Outside)(4 := Inside))"
    by (rule run_Cons) (rule one)
  have "StateWord_GetStateCode ?m 0x40 \<noteq> LOCKED"
    using load by (simp add: StateWord_GetStateCode_def ObjectState_GetStateCode_def GetStateBits_atomic code_of_def LOCKED_def)
  with run have reach: "lock_reach True 0x40 (?m', (\<lambda>_. Outside)(4 := Inside))" by (auto simp: lock_reach_def)
  have "lock_holder (((\<lambda>_. Outside)(4 := Inside)) 4)" by simp
  with StateWord_lock_exclusion [OF reach] reach show ?thesis by blast
qed

theorem UnlockStateWord_returns_iff_witness:
  "\<exists>m'. UnlockStateWord True (\<lambda>k. k < 3) 0 (cj_atomic_u16_store (\<lambda>_. 0) 0x46 1) 0x40 \<lparr>stateBits = 2\<rparr> = Some (Inr m') \<and>
    GetObjectState m' 0x40 = \<lparr>stateBits = 2\<rparr>"
proof -
  have "IsLockedWord (cj_atomic_u16_store (\<lambda>_. 0) 0x46 1) 0x40"
    by (simp add: IsLockedWord_def IsLockedState_def ObjectState_GetStateCode_def GetStateBits_atomic cell_simps
        code_of_def LOCKED_def)
  moreover have "(\<forall>k :: nat. k < 3) \<longleftrightarrow> False" by (auto intro: exI [of _ 3])
  ultimately show ?thesis
    using UnlockStateWord_returns_iff [of "cj_atomic_u16_store (\<lambda>_. 0) 0x46 1" "0x40" True "\<lambda>k. k < 3" "\<lparr>stateBits = 2\<rparr>"]
    by (simp only: simp_thms if_False) blast
qed

end
