(* ===== verification/LinkedLists.thy ===== *)
theory LinkedLists
  imports Prelude
begin

text \<open>
  Doubly linked lists threaded through a store. Two parts of the runtime keep such lists: the mark
  stack links its buffers by pointers, the region lists link regions by their indices in the region
  table. What both rely on is the locale \<open>link_store\<close>: nodes with a link each way and setters that
  change one link of one node. A list is a path through both links; joining two lists and cutting
  one in two are proved here once, in the orders in which the two clients set the links.
\<close>

section \<open>Paths\<close>

text \<open>
  The nodes \<open>xs\<close> follow each other along \<open>nx\<close> and precede each other along \<open>pv\<close>; before them is
  \<open>p\<close>, after them \<open>q\<close>.
\<close>

fun path :: "('a \<Rightarrow> 'a) \<Rightarrow> ('a \<Rightarrow> 'a) \<Rightarrow> 'a \<Rightarrow> 'a list \<Rightarrow> 'a \<Rightarrow> bool" where
  "path nx pv p [] q \<longleftrightarrow> True"
| "path nx pv p (x # xs) q \<longleftrightarrow> pv x = p \<and> nx x = hd (xs @ [q]) \<and> path nx pv x xs q"

lemma path_append:
  "path nx pv p (xs @ ys) q \<longleftrightarrow> path nx pv p xs (hd (ys @ [q])) \<and> path nx pv (last (p # xs)) ys q"
  by (induction xs arbitrary: p) (auto simp: hd_append)

lemma hd_snoc2 [simp]: "hd (xs @ [x, q]) = hd (xs @ [x])"
  by (cases xs) simp_all

lemma path_upd_outside [simp]:
  "a \<notin> set xs \<Longrightarrow> path (nx(a := b)) pv p xs q = path nx pv p xs q"
  "a \<notin> set xs \<Longrightarrow> path nx (pv(a := b)) p xs q = path nx pv p xs q"
  by (induction xs arbitrary: p) auto

lemma path_set_next:
  assumes "path nx pv p xs q" and "distinct xs" and "xs \<noteq> []"
  shows "path (nx(last xs := r)) pv p xs r"
proof -
  obtain ys x where xs: "xs = ys @ [x]" using assms(3) by (metis rev_exhaust)
  with assms show ?thesis by (auto simp: path_append)
qed

lemma path_set_prev:
  assumes "path nx pv p xs q" and "distinct xs" and "xs \<noteq> []"
  shows "path nx (pv(hd xs := r)) r xs q"
  using assms by (cases xs) auto

lemma path_links:
  assumes "path nx pv p (xs @ x # ys) q"
  shows "pv x = last (p # xs)" and "nx x = hd (ys @ [q])"
  using assms by (simp_all add: path_append)

text \<open>Addresses are 64 bits wide, so no list of nodes named by them is too long for a 64-bit count.\<close>

lemma distinct_addr_length:
  assumes "distinct bs" and "0 \<notin> set bs"
  shows "length (bs :: addr list) < 2 ^ 64"
proof -
  have "set bs \<subset> (UNIV :: addr set)" using assms(2) by blast
  then have "card (set bs) < CARD(64 word)" by (intro psubset_card_mono) simp_all
  with assms(1) show ?thesis by (simp add: distinct_card card_word)
qed

section \<open>Stores of links\<close>

text \<open>
  \<open>rest\<close> is all of the store but the links; \<open>fit\<close> are the links a setter can store. A setter may
  fail elsewhere, but not at a node.
\<close>

locale link_store =
  fixes node :: "'s \<Rightarrow> 'a \<Rightarrow> bool" and null :: 'a
    and nxt prv :: "'s \<Rightarrow> 'a \<Rightarrow> 'a" and rest :: "'s \<Rightarrow> 'r"
    and set_nxt set_prv :: "'a \<Rightarrow> 'a \<Rightarrow> 's \<Rightarrow> 's res"
  assumes null: "\<not> node s null"
    and set_nxt: "node s a \<Longrightarrow> b = null \<or> node s b \<Longrightarrow>
      \<exists>s'. set_nxt a b s = Inr s' \<and> nxt s' = (nxt s)(a := b) \<and> prv s' = prv s \<and> rest s' = rest s"
    and set_prv: "node s a \<Longrightarrow> b = null \<or> node s b \<Longrightarrow>
      \<exists>s'. set_prv a b s = Inr s' \<and> prv s' = (prv s)(a := b) \<and> nxt s' = nxt s \<and> rest s' = rest s"
    and node_rest: "rest s' = rest s \<Longrightarrow> node s' = node s"
begin

definition linked :: "'s \<Rightarrow> 'a list \<Rightarrow> bool" where
  "linked s xs \<longleftrightarrow> path (nxt s) (prv s) null xs null \<and> distinct xs \<and> (\<forall>x\<in>set xs. node s x)"

definition framed :: "'a set \<Rightarrow> 's \<Rightarrow> 's \<Rightarrow> bool" where
  "framed A s s' \<longleftrightarrow> rest s' = rest s \<and> (\<forall>zs. set zs \<inter> A = {} \<longrightarrow> linked s' zs = linked s zs)"

lemma linked_Nil [simp]: "linked s []"
  by (simp add: linked_def)

lemma linked_null: "linked s xs \<Longrightarrow> null \<notin> set xs"
  using null by (auto simp: linked_def)

lemma linked_node: "linked s xs \<Longrightarrow> x \<in> set xs \<Longrightarrow> node s x"
  by (simp add: linked_def)

lemma linked_distinct: "linked s xs \<Longrightarrow> distinct xs"
  by (simp add: linked_def)

lemma linked_single: "node s x \<Longrightarrow> nxt s x = null \<Longrightarrow> prv s x = null \<Longrightarrow> linked s [x]"
  by (simp add: linked_def)

lemma linked_nxt: "linked s (xs @ x # ys) \<Longrightarrow> nxt s x = hd (ys @ [null])"
  by (auto simp: linked_def dest: path_links)

lemma linked_prv: "linked s (xs @ x # ys) \<Longrightarrow> prv s x = last (null # xs)"
  unfolding linked_def by (blast dest: path_links)

lemma linked_hd_node: "linked s (xs @ ys) \<Longrightarrow> ys \<noteq> [] \<Longrightarrow> node s (hd ys) \<and> hd ys \<noteq> null"
  using linked_null [of s "xs @ ys"] hd_in_set [of ys] by (auto simp: linked_def)

lemma linked_last_node: "linked s (xs @ ys) \<Longrightarrow> xs \<noteq> [] \<Longrightarrow> node s (last xs) \<and> last xs \<noteq> null"
  using linked_null [of s "xs @ ys"] last_in_set [of xs] by (auto simp: linked_def)

lemma linked_hd: "linked s xs \<Longrightarrow> hd (xs @ [null]) = null \<longleftrightarrow> xs = []"
  using null by (cases xs) (auto simp: linked_def)

lemma linked_last: "linked s xs \<Longrightarrow> last (null # xs) = null \<longleftrightarrow> xs = []"
  using linked_null [of s xs] last_in_set [of xs] by auto

lemma framed_refl: "framed A s s"
  by (simp add: framed_def)

lemma framed_trans: "framed A s t \<Longrightarrow> framed B t u \<Longrightarrow> framed (A \<union> B) s u"
  by (auto simp: framed_def Int_Un_distrib)

lemma framed_mono: "framed A s t \<Longrightarrow> A \<subseteq> B \<Longrightarrow> framed B s t"
  unfolding framed_def by blast

lemma framed_linked: "framed A s t \<Longrightarrow> linked s zs \<Longrightarrow> set zs \<inter> A = {} \<Longrightarrow> linked t zs"
  by (simp add: framed_def)

lemma framed_rest: "framed A s t \<Longrightarrow> rest t = rest s"
  by (simp add: framed_def)

text \<open>One link changed each way, as every operation of the clients does at least once.\<close>

definition relinked :: "'a \<Rightarrow> 'a \<Rightarrow> 'a \<Rightarrow> 'a \<Rightarrow> 's \<Rightarrow> 's \<Rightarrow> bool" where
  "relinked a b c d s t \<longleftrightarrow> nxt t = (nxt s)(a := b) \<and> prv t = (prv s)(c := d) \<and> rest t = rest s"

lemma nxt_then_prv:
  assumes "node s a" and "b = null \<or> node s b" and "node s c" and "d = null \<or> node s d"
  obtains s1 t where "set_nxt a b s = Inr s1" and "set_prv c d s1 = Inr t" and "relinked a b c d s t"
proof -
  obtain s1 where s1: "set_nxt a b s = Inr s1" "nxt s1 = (nxt s)(a := b)" "prv s1 = prv s"
    "rest s1 = rest s" using set_nxt [OF assms(1,2)] by blast
  with assms obtain t where "set_prv c d s1 = Inr t" "prv t = (prv s1)(c := d)" "nxt t = nxt s1"
    "rest t = rest s1" using set_prv [of s1 c d] node_rest [OF s1(4)] by auto
  with s1 that show ?thesis by (simp add: relinked_def)
qed

lemma prv_then_nxt:
  assumes "node s a" and "b = null \<or> node s b" and "node s c" and "d = null \<or> node s d"
  obtains s1 t where "set_prv c d s = Inr s1" and "set_nxt a b s1 = Inr t" and "relinked a b c d s t"
proof -
  obtain s1 where s1: "set_prv c d s = Inr s1" "prv s1 = (prv s)(c := d)" "nxt s1 = nxt s"
    "rest s1 = rest s" using set_prv [OF assms(3,4)] by blast
  with assms obtain t where "set_nxt a b s1 = Inr t" "nxt t = (nxt s1)(a := b)" "prv t = prv s1"
    "rest t = rest s1" using set_nxt [of s1 a b] node_rest [OF s1(4)] by auto
  with s1 that show ?thesis by (simp add: relinked_def)
qed

lemma relinked_node: "relinked a b c d s t \<Longrightarrow> node t = node s"
  by (rule node_rest) (simp add: relinked_def)

lemma relinked_frame: "relinked a b c d s t \<Longrightarrow> framed {a, c} s t"
  using relinked_node [of a b c d s t] by (simp add: relinked_def framed_def linked_def)

text \<open>Two lists become one: the last node of the first and the first of the second are linked.\<close>

lemma relinked_join:
  assumes "linked s xs" and "linked s ys" and "xs \<noteq> []" and "ys \<noteq> []" and "set xs \<inter> set ys = {}"
    and t: "relinked (last xs) (hd ys) (hd ys) (last xs) s t"
  shows "linked t (xs @ ys)"
proof -
  have "hd ys \<notin> set xs" "last xs \<notin> set ys" using assms by (auto simp: disjoint_iff)
  then have "path (nxt t) (prv t) null (xs @ ys) null"
    using assms path_set_next [of "nxt s" "prv s" null xs null "hd ys"]
      path_set_prev [of "nxt s" "prv s" null ys null "last xs"]
    by (simp add: path_append linked_def relinked_def)
  with assms relinked_node [OF t] show ?thesis by (auto simp: linked_def)
qed

text \<open>A list becomes two: the links between a node and the next are cut.\<close>

lemma relinked_cut:
  assumes "linked s (xs @ ys)" and "xs \<noteq> []" and "ys \<noteq> []"
    and t: "relinked (last xs) null (hd ys) null s t"
  shows "linked t xs" and "linked t ys"
proof -
  have p: "path (nxt s) (prv s) null xs (hd ys)" "path (nxt s) (prv s) (last xs) ys null"
    and d: "distinct xs" "distinct ys" "set xs \<inter> set ys = {}" and n: "\<forall>x\<in>set xs \<union> set ys. node s x"
    using assms by (auto simp: linked_def path_append)
  then have "hd ys \<notin> set xs" "last xs \<notin> set ys" using assms by (auto simp: disjoint_iff)
  with p d n assms relinked_node [OF t] show "linked t xs" "linked t ys"
    using path_set_next [of "nxt s" "prv s" null xs "hd ys" null]
      path_set_prev [of "nxt s" "prv s" "last xs" ys null null]
    by (simp_all add: linked_def relinked_def)
qed

text \<open>A node put before a list, and a node taken out of one.\<close>

lemma linked_cons:
  assumes "linked s xs" and "node s x" and "x \<notin> set xs"
    and "nxt t = (nxt s)(x := hd (xs @ [null]))"
    and "prv t = (if xs = [] then (prv s)(x := null) else (prv s)(x := null, hd xs := x))" and "rest t = rest s"
  shows "linked t (x # xs)"
proof -
  have "path (nxt t) (prv t) null (x # xs) null"
  proof (cases xs)
    case Nil
    with assms show ?thesis by simp
  next
    case (Cons y ys)
    with assms show ?thesis by (auto simp: linked_def)
  qed
  with assms node_rest [OF assms(6)] show ?thesis by (simp add: linked_def)
qed

lemma linked_unlink:
  assumes "linked s (xs @ x # ys)"
    and "nxt t = (if xs = [] then (nxt s)(x := null) else (nxt s)(x := null, last xs := hd (ys @ [null])))"
    and "prv t = (if ys = [] then (prv s)(x := null) else (prv s)(x := null, hd ys := last (null # xs)))"
    and "rest t = rest s"
  shows "linked t (xs @ ys)"
proof -
  have l: "path (nxt s) (prv s) null xs x" "path (nxt s) (prv s) x ys null" "distinct xs" "distinct ys"
    "x \<notin> set xs" "x \<notin> set ys" "set xs \<inter> set ys = {}" "\<forall>y\<in>set xs \<union> set ys. node s y"
    using assms(1) by (auto simp: linked_def path_append)
  have "last xs \<notin> set ys" if "xs \<noteq> []" using l(7) last_in_set [OF that] by blast
  then have n: "path (nxt t) (prv s) q ys null" if "path (nxt s) (prv s) q ys null" for q
    using that l(6) assms(2) by auto
  have "hd ys \<notin> set xs" if "ys \<noteq> []" using l(7) hd_in_set [OF that] by blast
  then have p: "path (nxt s) (prv t) q xs r" if "path (nxt s) (prv s) q xs r" for q r
    using that l(5) assms(3) by auto
  have "path (nxt t) (prv t) null xs (hd (ys @ [null]))"
  proof (cases "xs = []")
    case False
    have "path ((nxt s)(last xs := hd (ys @ [null]))) (prv t) null xs (hd (ys @ [null]))"
      by (rule path_set_next [OF p [OF l(1)] l(3) False])
    moreover have "last xs \<noteq> x" using l(5) last_in_set [OF False] by auto
    then have "nxt t = (nxt s)(last xs := hd (ys @ [null]), x := null)"
      using False assms(2) fun_upd_twist [of x "last xs" "nxt s" null "hd (ys @ [null])"] by simp
    ultimately show ?thesis using l(5) by simp
  qed simp
  moreover have "path (nxt t) (prv t) (last (null # xs)) ys null"
  proof (cases "ys = []")
    case False
    have "path (nxt t) ((prv s)(hd ys := last (null # xs))) (last (null # xs)) ys null"
      by (rule path_set_prev [OF n [OF l(2)] l(4) False])
    moreover have "hd ys \<noteq> x" using l(6) hd_in_set [OF False] by auto
    then have "prv t = (prv s)(hd ys := last (null # xs), x := null)"
      using False assms(3) fun_upd_twist [of x "hd ys" "prv s" null "last (null # xs)"] by simp
    ultimately show ?thesis using l(6) by simp
  qed simp
  ultimately have "path (nxt t) (prv t) null (xs @ ys) null" by (simp add: path_append)
  with l node_rest [OF assms(4)] show ?thesis by (simp add: linked_def)
qed

end

end
