(* ===== verification/MarkStacks.thy ===== *)
theory MarkStacks
  imports LinkedLists "HOL-Library.Multiset"
begin

text \<open>
  The mark stack of the collector, \<^verbatim>\<open>rt.gc/MarkWorkStack.cj\<close>: a doubly linked list of buffers of 64
  objects each, so that a collector thread can take over whole buffers of another one. The buffers
  live in an explicit store, a map from the addresses that \<open>operator new\<close> gave out and \<open>delete\<close> has
  not taken back; a read or write through another address, the null pointer included, is
  \<open>OutOfBounds\<close>. What \<open>operator new\<close> returns is a parameter: an address, and what the memory there
  holds. The owner records are passed as values; a call with two owners is a call with two different
  ones.
\<close>

section \<open>Buffers\<close>

record mark_buf =
  buf_next :: addr
  buf_pre :: addr
  buf_count :: u64
  buf_stack :: "addr list"

type_synonym mark_heap = "addr \<Rightarrow> mark_buf option"

definition MARK_MAX :: u64 where
  "MARK_MAX = 64"

definition read_buf :: "addr \<Rightarrow> mark_heap \<Rightarrow> mark_buf res" where
  "read_buf b hp = (case hp b of None \<Rightarrow> Inl OutOfBounds | Some x \<Rightarrow> Inr x)"

definition write_buf :: "addr \<Rightarrow> (mark_buf \<Rightarrow> mark_buf) \<Rightarrow> mark_heap \<Rightarrow> mark_heap res" where
  "write_buf b f hp = (case hp b of None \<Rightarrow> Inl OutOfBounds | Some x \<Rightarrow> Inr (hp(b \<mapsto> f x)))"

definition set_buf_next :: "addr \<Rightarrow> addr \<Rightarrow> mark_heap \<Rightarrow> mark_heap res" where
  "set_buf_next b n = write_buf b (buf_next_update (\<lambda>_. n))"

definition set_buf_pre :: "addr \<Rightarrow> addr \<Rightarrow> mark_heap \<Rightarrow> mark_heap res" where
  "set_buf_pre b p = write_buf b (buf_pre_update (\<lambda>_. p))"

text \<open>
  The memory a new buffer is built in is what \<open>operator new\<close> returned; only links and count are
  initialised.
\<close>

type_synonym op_new = "mark_heap \<Rightarrow> addr \<times> mark_buf"

definition NewBuffer :: "op_new \<Rightarrow> mark_heap \<Rightarrow> addr \<times> mark_heap" where
  "NewBuffer new hp = (let (b, x) = new hp in
    (b, hp(b \<mapsto> x\<lparr>buf_next := 0, buf_pre := 0, buf_count := 0\<rparr>)))"

text \<open>Deleting the null pointer does nothing; deleting what is not allocated is undefined.\<close>

definition DeleteBuffer :: "addr \<Rightarrow> mark_heap \<Rightarrow> mark_heap res" where
  "DeleteBuffer b hp = (if b = 0 then Inr hp else if hp b = None then Inl OutOfBounds else Inr (hp(b := None)))"

definition MarkStackBufFull :: "addr \<Rightarrow> mark_heap \<Rightarrow> bool res" where
  "MarkStackBufFull b hp = and_then (read_buf b hp) (\<lambda>x. Inr (buf_count x = MARK_MAX))"

definition MarkStackBufEmpty :: "addr \<Rightarrow> mark_heap \<Rightarrow> bool res" where
  "MarkStackBufEmpty b hp = and_then (read_buf b hp) (\<lambda>x. Inr (buf_count x = 0))"

definition MarkStackBufPushBack :: "addr \<Rightarrow> addr \<Rightarrow> mark_heap \<Rightarrow> mark_heap res" where
  "MarkStackBufPushBack b v hp = and_then (read_buf b hp) (\<lambda>x.
    if buf_count x = MARK_MAX then Inl Abort
    else if unat (buf_count x) < length (buf_stack x) then
      Inr (hp(b \<mapsto> x\<lparr>buf_stack := (buf_stack x)[unat (buf_count x) := v], buf_count := buf_count x + 1\<rparr>))
    else Inl OutOfBounds)"

definition MarkStackBufBack :: "addr \<Rightarrow> mark_heap \<Rightarrow> addr res" where
  "MarkStackBufBack b hp = and_then (read_buf b hp) (\<lambda>x.
    if buf_count x = 0 then Inl Abort
    else if unat (buf_count x - 1) < length (buf_stack x) then Inr (buf_stack x ! unat (buf_count x - 1))
    else Inl OutOfBounds)"

definition MarkStackBufPopBack :: "addr \<Rightarrow> mark_heap \<Rightarrow> mark_heap res" where
  "MarkStackBufPopBack b hp = and_then (read_buf b hp) (\<lambda>x.
    if buf_count x = 0 then Inl Abort
    else Inr (hp(b \<mapsto> x\<lparr>buf_count := buf_count x - 1\<rparr>)))"

section \<open>Stacks\<close>

record mark_stack =
  stack_h :: addr
  stack_t :: addr
  stack_s :: u64

definition MarkStackConstruct :: mark_stack where
  "MarkStackConstruct = \<lparr>stack_h = 0, stack_t = 0, stack_s = 0\<rparr>"

definition MarkStackEmpty :: "mark_stack \<Rightarrow> bool" where
  "MarkStackEmpty st \<longleftrightarrow> stack_s st = 0 \<and> stack_h st = 0 \<and> stack_t st = 0"

definition MarkStackClean :: "mark_stack \<Rightarrow> mark_stack" where
  "MarkStackClean st = (if MarkStackEmpty st then st else MarkStackConstruct)"

text \<open>The destination of a move, and what is left of the source.\<close>

definition MarkStackMoveConstruct :: "mark_stack \<Rightarrow> mark_stack \<times> mark_stack" where
  "MarkStackMoveConstruct source =
    (\<lparr>stack_h = stack_h source, stack_t = stack_t source, stack_s = stack_s source\<rparr>, MarkStackClean source)"

text \<open>The walk of \<open>MarkStackConstructFromBuffer\<close> would not end on a cycle: its result is optional.\<close>

partial_function (option) construct_walk :: "addr \<Rightarrow> mark_stack \<Rightarrow> mark_heap \<Rightarrow> mark_stack res option" where
  "construct_walk current st hp =
    (if current = 0 then Some (Inr st)
     else case read_buf current hp of Inl e \<Rightarrow> Some (Inl e)
       | Inr x \<Rightarrow> construct_walk (buf_next x)
           (st\<lparr>stack_s := stack_s st + 1, stack_t := (if buf_next x = 0 then current else stack_t st)\<rparr>) hp)"

definition MarkStackConstructFromBuffer :: "addr \<Rightarrow> mark_heap \<Rightarrow> mark_stack res option" where
  "MarkStackConstructFromBuffer b hp = construct_walk b (MarkStackConstruct\<lparr>stack_h := b\<rparr>) hp"

partial_function (option) clear_walk :: "mark_stack \<Rightarrow> mark_heap \<Rightarrow> (mark_stack \<times> mark_heap) res option" where
  "clear_walk st hp =
    (if MarkStackEmpty st then Some (Inr (st, hp))
     else case read_buf (stack_h st) hp of Inl e \<Rightarrow> Some (Inl e)
       | Inr x \<Rightarrow> (case and_then (if buf_next x \<noteq> 0 then set_buf_pre (buf_next x) 0 hp else Inr hp)
           (DeleteBuffer (stack_h st)) of
             Inl e \<Rightarrow> Some (Inl e)
           | Inr hp' \<Rightarrow> clear_walk (st\<lparr>stack_h := buf_next x, stack_s := stack_s st - 1\<rparr>) hp'))"

definition MarkStackClear :: "mark_stack \<Rightarrow> mark_heap \<Rightarrow> (mark_stack \<times> mark_heap) res option" where
  "MarkStackClear st hp = map_option (\<lambda>r. and_then r (\<lambda>(st, hp). Inr (st\<lparr>stack_t := 0\<rparr>, hp))) (clear_walk st hp)"

definition MarkStackDestroy :: "mark_stack \<Rightarrow> mark_heap \<Rightarrow> (mark_stack \<times> mark_heap) res option" where
  "MarkStackDestroy st hp = MarkStackClear st hp"

definition MarkStackPushBuffer :: "mark_stack \<Rightarrow> addr \<Rightarrow> mark_heap \<Rightarrow> (mark_stack \<times> mark_heap) res" where
  "MarkStackPushBuffer st b hp =
    (if MarkStackEmpty st then Inr (\<lparr>stack_h = b, stack_t = b, stack_s = stack_s st + 1\<rparr>, hp)
     else and_then (set_buf_pre b (stack_t st) hp) (\<lambda>hp.
       and_then (set_buf_next (stack_t st) b hp) (\<lambda>hp.
       Inr (st\<lparr>stack_t := b, stack_s := stack_s st + 1\<rparr>, hp))))"

definition MarkStackPopBuffer :: "mark_stack \<Rightarrow> mark_heap \<Rightarrow> (addr \<times> mark_stack \<times> mark_heap) res" where
  "MarkStackPopBuffer st hp =
    (if MarkStackEmpty st then Inr (0, st, hp)
     else and_then (read_buf (stack_t st) hp) (\<lambda>x.
       and_then (if buf_pre x \<noteq> 0 then set_buf_next (buf_pre x) 0 hp else Inr hp) (\<lambda>hp.
       and_then (set_buf_pre (stack_t st) 0 hp) (\<lambda>hp.
       Inr (stack_t st, st\<lparr>stack_t := buf_pre x, stack_h := (if buf_pre x \<noteq> 0 then stack_h st else 0),
         stack_s := stack_s st - 1\<rparr>, hp)))))"

definition MarkStackPushBack :: "op_new \<Rightarrow> mark_stack \<Rightarrow> addr \<Rightarrow> mark_heap \<Rightarrow> (mark_stack \<times> mark_heap) res" where
  "MarkStackPushBack new st v hp =
    and_then (if stack_t st = 0 then Inr True else MarkStackBufFull (stack_t st) hp) (\<lambda>full.
    and_then (if full then (let (b, hp) = NewBuffer new hp in MarkStackPushBuffer st b hp) else Inr (st, hp))
      (\<lambda>(st, hp). and_then (MarkStackBufPushBack (stack_t st) v hp) (\<lambda>hp. Inr (st, hp))))"

definition MarkStackBack :: "mark_stack \<Rightarrow> mark_heap \<Rightarrow> addr res" where
  "MarkStackBack st hp = (if stack_t st = 0 then Inr 0 else MarkStackBufBack (stack_t st) hp)"

definition MarkStackPopBack :: "mark_stack \<Rightarrow> mark_heap \<Rightarrow> (mark_stack \<times> mark_heap) res" where
  "MarkStackPopBack st hp =
    (if MarkStackEmpty st then Inl Abort
     else and_then (MarkStackBufPopBack (stack_t st) hp) (\<lambda>hp.
       and_then (MarkStackBufEmpty (stack_t st) hp) (\<lambda>e.
       if e then and_then (MarkStackPopBuffer st hp) (\<lambda>(b, st, hp).
         and_then (DeleteBuffer b hp) (\<lambda>hp. Inr (st, hp)))
       else Inr (st, hp))))"

definition MarkStackInsert ::
  "mark_stack \<Rightarrow> mark_stack \<Rightarrow> mark_heap \<Rightarrow> (mark_stack \<times> mark_stack \<times> mark_heap) res" where
  "MarkStackInsert st other hp =
    (if MarkStackEmpty other then Inr (st, other, hp)
     else if stack_h st = 0 then
       Inr (\<lparr>stack_h = stack_h other, stack_t = stack_t other, stack_s = stack_s other\<rparr>, MarkStackClean other, hp)
     else and_then (set_buf_next (stack_t st) (stack_h other) hp) (\<lambda>hp.
       and_then (set_buf_pre (stack_h other) (stack_t st) hp) (\<lambda>hp.
       Inr (st\<lparr>stack_t := stack_t other, stack_s := stack_s st + stack_s other\<rparr>, MarkStackClean other, hp))))"

function split_walk :: "u64 \<Rightarrow> u64 \<Rightarrow> mark_stack \<Rightarrow> mark_heap \<Rightarrow> (mark_stack \<times> mark_heap) res" where
  "split_walk splitNum num st hp =
    (if num < splitNum then
       and_then (read_buf (stack_h st) hp) (\<lambda>x.
       and_then (if num = splitNum - 1
           then and_then (if buf_next x \<noteq> 0 then set_buf_pre (buf_next x) 0 hp else Inr hp)
             (set_buf_next (stack_h st) 0)
           else Inr hp) (\<lambda>hp.
       if buf_next x = 0 then Inr (st\<lparr>stack_h := 0, stack_s := stack_s st - 1, stack_t := 0\<rparr>, hp)
       else split_walk splitNum (num + 1) (st\<lparr>stack_h := buf_next x, stack_s := stack_s st - 1\<rparr>) hp))
     else Inr (st, hp))"
  by pat_completeness auto

termination
proof (relation "measure (\<lambda>(splitNum, num, _, _). unat (splitNum - num))")
  fix splitNum num :: u64
  assume "num < splitNum"
  then have "unat (splitNum - num) = Suc (unat (splitNum - num - 1))"
    by (intro unat_minus_one_Suc) auto
  moreover have "splitNum - (num + 1) = splitNum - num - 1" by simp
  ultimately show "((splitNum, num + 1, st', hp'), (splitNum, num, st, hp))
      \<in> measure (\<lambda>(splitNum, num, _, _). unat (splitNum - num))" for st st' :: mark_stack and hp hp'
    by (simp only: in_measure prod.case)
qed simp

declare split_walk.simps [simp del]

text \<open>The buffers split off, as the address of the first, and what is left.\<close>

definition MarkStackSplit :: "mark_stack \<Rightarrow> u64 \<Rightarrow> mark_heap \<Rightarrow> (addr \<times> mark_stack \<times> mark_heap) res" where
  "MarkStackSplit st splitNum hp =
    (if splitNum = 0 \<or> stack_s st = 0 then Inr (0, st, hp)
     else and_then (split_walk splitNum 0 st hp) (\<lambda>(st', hp). Inr (stack_h st, st', hp)))"

section \<open>The buffers as a store of links\<close>

definition buf_at :: "mark_heap \<Rightarrow> addr \<Rightarrow> mark_buf" where
  "buf_at hp b = the (hp b)"

definition is_buf :: "mark_heap \<Rightarrow> addr \<Rightarrow> bool" where
  "is_buf hp b \<longleftrightarrow> b \<noteq> 0 \<and> hp b \<noteq> None"

text \<open>What the links are not: the counts and the objects of the buffers.\<close>

definition buf_rest :: "mark_heap \<Rightarrow> addr \<Rightarrow> (u64 \<times> addr list) option" where
  "buf_rest hp b = map_option (\<lambda>x. (buf_count x, buf_stack x)) (hp b)"

abbreviation bnext :: "mark_heap \<Rightarrow> addr \<Rightarrow> addr" where
  "bnext hp b \<equiv> buf_next (buf_at hp b)"

abbreviation bpre :: "mark_heap \<Rightarrow> addr \<Rightarrow> addr" where
  "bpre hp b \<equiv> buf_pre (buf_at hp b)"

lemma is_bufD: "is_buf hp b \<Longrightarrow> b \<noteq> 0 \<and> hp b \<noteq> None"
  by (simp add: is_buf_def)

lemma read_buf_at: "is_buf hp b \<Longrightarrow> read_buf b hp = Inr (buf_at hp b)"
  by (auto simp: is_buf_def read_buf_def buf_at_def)

lemma is_buf_rest: "is_buf hp b \<longleftrightarrow> b \<noteq> 0 \<and> buf_rest hp b \<noteq> None"
  by (simp add: is_buf_def buf_rest_def)

lemma set_buf_next_spec:
  assumes "is_buf hp a"
  shows "\<exists>hp'. set_buf_next a b hp = Inr hp' \<and> bnext hp' = (bnext hp)(a := b) \<and> bpre hp' = bpre hp \<and>
    buf_rest hp' = buf_rest hp"
proof -
  from assms obtain x where "hp a = Some x" by (auto simp: is_buf_def)
  then show ?thesis
    by (intro exI [of _ "hp(a \<mapsto> x\<lparr>buf_next := b\<rparr>)"])
      (simp add: set_buf_next_def write_buf_def buf_at_def buf_rest_def fun_eq_iff)
qed

lemma set_buf_pre_spec:
  assumes "is_buf hp a"
  shows "\<exists>hp'. set_buf_pre a b hp = Inr hp' \<and> bpre hp' = (bpre hp)(a := b) \<and> bnext hp' = bnext hp \<and>
    buf_rest hp' = buf_rest hp"
proof -
  from assms obtain x where "hp a = Some x" by (auto simp: is_buf_def)
  then show ?thesis
    by (intro exI [of _ "hp(a \<mapsto> x\<lparr>buf_pre := b\<rparr>)"])
      (simp add: set_buf_pre_def write_buf_def buf_at_def buf_rest_def fun_eq_iff)
qed

interpretation bufs: link_store is_buf 0 bnext bpre buf_rest set_buf_next set_buf_pre
proof unfold_locales
  show "\<not> is_buf s 0" for s by (simp add: is_buf_def)
  show "is_buf s' = is_buf s" if "buf_rest s' = buf_rest s" for s s'
    by (rule ext) (simp add: is_buf_rest that)
qed (auto dest: set_buf_next_spec set_buf_pre_spec)

lemma set_buf_other:
  "set_buf_next a b hp = Inr hp' \<Longrightarrow> c \<noteq> a \<Longrightarrow> hp' c = hp c"
  "set_buf_pre a b hp = Inr hp' \<Longrightarrow> c \<noteq> a \<Longrightarrow> hp' c = hp c"
  by (auto simp: set_buf_next_def set_buf_pre_def write_buf_def split: option.splits)

lemma linked_agree:
  assumes "\<And>b. b \<in> set bs \<Longrightarrow> hp' b = hp b"
  shows "bufs.linked hp' bs = bufs.linked hp bs"
proof -
  have "path (bnext hp') (bpre hp') p bs q = path (bnext hp) (bpre hp) p bs q" for p q
    using assms by (induction bs arbitrary: p) (simp_all add: buf_at_def)
  with assms show ?thesis by (simp add: bufs.linked_def is_buf_def)
qed

lemma linked_content:
  assumes "hp b = Some x" and "buf_next y = buf_next x" and "buf_pre y = buf_pre x"
  shows "bufs.linked (hp(b \<mapsto> y)) zs = bufs.linked hp zs"
proof -
  have "bnext (hp(b \<mapsto> y)) = bnext hp" "bpre (hp(b \<mapsto> y)) = bpre hp" "is_buf (hp(b \<mapsto> y)) = is_buf hp"
    using assms by (auto simp: buf_at_def is_buf_def fun_eq_iff)
  then show ?thesis by (simp add: bufs.linked_def)
qed

section \<open>What an owner holds\<close>

text \<open>
  The objects of a buffer, and the buffers of an owner: \<open>bs\<close> are their addresses, \<open>cs\<close> the objects
  in them, in the order of the stack. No buffer of an owner is empty.
\<close>

definition chunk :: "(u64 \<times> addr list) option \<Rightarrow> addr list \<Rightarrow> bool" where
  "chunk r c \<longleftrightarrow> (\<exists>os. r = Some (of_nat (length c), os) \<and> length os = 64 \<and> c \<noteq> [] \<and> length c \<le> 64 \<and>
    take (length c) os = c)"

definition stack_rep :: "mark_heap \<Rightarrow> mark_stack \<Rightarrow> addr list \<Rightarrow> addr list list \<Rightarrow> bool" where
  "stack_rep hp st bs cs \<longleftrightarrow> bufs.linked hp bs \<and> stack_h st = hd (bs @ [0]) \<and> stack_t st = last (0 # bs) \<and>
    stack_s st = of_nat (length bs) \<and> list_all2 (\<lambda>b c. chunk (buf_rest hp b) c) bs cs"

lemma stack_rep_agree:
  assumes "\<And>b. b \<in> set bs \<Longrightarrow> hp' b = hp b"
  shows "stack_rep hp' st bs cs = stack_rep hp st bs cs"
proof -
  have "list_all2 (\<lambda>b c. chunk (buf_rest hp' b) c) bs cs = list_all2 (\<lambda>b c. chunk (buf_rest hp b) c) bs cs"
    using assms by (intro list.rel_cong) (simp_all add: buf_rest_def)
  with linked_agree [OF assms] show ?thesis by (simp add: stack_rep_def)
qed

lemma stack_rep_length: "stack_rep hp st bs cs \<Longrightarrow> length bs < 2 ^ 64"
  unfolding stack_rep_def by (intro distinct_addr_length) (blast dest: bufs.linked_distinct bufs.linked_null)+

lemma stack_rep_Nil: "stack_rep hp st bs cs \<Longrightarrow> bs = [] \<longleftrightarrow> cs = []"
  by (auto simp: stack_rep_def)

lemma stack_rep_empty: "stack_rep hp st bs cs \<Longrightarrow> MarkStackEmpty st \<longleftrightarrow> bs = []"
  using bufs.linked_last [of hp bs] by (auto simp: stack_rep_def MarkStackEmpty_def)

lemma stack_rep_Construct: "stack_rep hp MarkStackConstruct [] []"
  by (simp add: stack_rep_def MarkStackConstruct_def)

lemma stack_rep_size: "stack_rep hp st bs cs \<Longrightarrow> unat (stack_s st) = length cs"
  using stack_rep_length [of hp st bs cs]
  by (auto simp: stack_rep_def unat_of_nat_addr dest: list_all2_lengthD)

lemma stack_rep_dom: "stack_rep hp st bs cs \<Longrightarrow> set bs \<subseteq> dom hp"
  by (auto simp: stack_rep_def bufs.linked_def is_buf_def)

lemma stack_rep_chunks: "stack_rep hp st bs cs \<Longrightarrow> list_all2 (\<lambda>b. chunk (buf_rest hp b)) bs cs"
  by (simp add: stack_rep_def)

lemma stack_rep_snocE:
  assumes "stack_rep hp st bs cs" and "cs \<noteq> []"
  obtains bs0 b cs0 c where "bs = bs0 @ [b]" and "cs = cs0 @ [c]" and "stack_t st = b" and "is_buf hp b"
    and "chunk (buf_rest hp b) c" and "list_all2 (\<lambda>b. chunk (buf_rest hp b)) bs0 cs0" and "b \<notin> set bs0"
proof -
  obtain cs0 c where c: "cs = cs0 @ [c]" using assms(2) by (metis rev_exhaust)
  with assms(1) obtain bs0 b where b: "bs = bs0 @ [b]" "list_all2 (\<lambda>b. chunk (buf_rest hp b)) bs0 cs0"
    "chunk (buf_rest hp b) c" by (auto simp: stack_rep_def list_all2_append2 list_all2_Cons2)
  with assms(1) have "bufs.linked hp (bs0 @ [b])" "stack_t st = b" by (simp_all add: stack_rep_def)
  with b c that show ?thesis by (simp add: bufs.linked_def)
qed

text \<open>What an operation changes: the buffers an owner had and the ones it has now.\<close>

definition changes :: "addr set \<Rightarrow> mark_heap \<Rightarrow> addr set \<Rightarrow> mark_heap \<Rightarrow> bool" where
  "changes A hp B hp' \<longleftrightarrow> (\<forall>b. b \<notin> A \<union> B \<longrightarrow> hp' b = hp b) \<and> (\<forall>b\<in>A - B. hp' b = None)"

lemma changes_dom: "changes A hp B hp' \<Longrightarrow> A \<union> B \<subseteq> insert b (dom hp) \<Longrightarrow> dom hp' \<subseteq> insert b (dom hp)"
proof
  fix a
  assume ch: "changes A hp B hp'" and sub: "A \<union> B \<subseteq> insert b (dom hp)" and a: "a \<in> dom hp'"
  show "a \<in> insert b (dom hp)"
  proof (cases "a \<in> A \<union> B")
    case False
    with ch have "hp' a = hp a" by (simp add: changes_def)
    with a show ?thesis by (simp add: domIff)
  qed (use sub in blast)
qed

section \<open>Pushing and popping objects\<close>

definition push_chunk :: "'a \<Rightarrow> 'a list list \<Rightarrow> 'a list list" where
  "push_chunk v cs = (if cs = [] \<or> length (last cs) = 64 then cs @ [[v]] else butlast cs @ [last cs @ [v]])"

definition pop_chunk :: "'a list list \<Rightarrow> 'a list list" where
  "pop_chunk cs = (if length (last cs) = 1 then butlast cs else butlast cs @ [butlast (last cs)])"

lemma concat_push_chunk: "concat (push_chunk v cs) = concat cs @ [v]"
  by (cases cs rule: rev_cases) (simp_all add: push_chunk_def)

lemma concat_pop_chunk: "cs \<noteq> [] \<Longrightarrow> last cs \<noteq> [] \<Longrightarrow> concat (pop_chunk cs) = butlast (concat cs)"
  by (cases cs rule: rev_cases) (auto simp: pop_chunk_def butlast_append length_Suc_conv)

text \<open>
  A buffer that is being filled may be empty, unlike the ones of an owner.
\<close>

lemma MarkStackBufPushBack_fills:
  assumes "buf_rest hp b = Some (of_nat (length c), os)" and "length os = 64" and "length c < 64"
    and "take (length c) os = c"
  obtains hp' where "MarkStackBufPushBack b v hp = Inr hp'" and "chunk (buf_rest hp' b) (c @ [v])"
    and "\<And>zs. bufs.linked hp' zs = bufs.linked hp zs" and "\<And>a. a \<noteq> b \<Longrightarrow> hp' a = hp a"
proof -
  from assms obtain x where x: "hp b = Some x" "buf_count x = of_nat (length c)" "buf_stack x = os"
    by (auto simp: buf_rest_def)
  have n: "unat (of_nat (length c) :: u64) = length c" using assms(3) by (simp add: unat_of_nat)
  then have full: "buf_count x \<noteq> MARK_MAX"
    using assms(3) x(2) by (auto simp: MARK_MAX_def dest: arg_cong [where f = unat])
  define hp' where "hp' = hp(b \<mapsto> x\<lparr>buf_stack := os[length c := v], buf_count := of_nat (length c) + 1\<rparr>)"
  have "MarkStackBufPushBack b v hp = Inr hp'"
    using assms x full n by (simp add: MarkStackBufPushBack_def read_buf_def hp'_def)
  moreover have "chunk (buf_rest hp' b) (c @ [v])"
    using assms by (simp add: chunk_def buf_rest_def hp'_def take_Suc_conv_app_nth take_update_cancel add.commute)
  moreover have "bufs.linked hp' zs = bufs.linked hp zs" for zs
    unfolding hp'_def using x by (intro linked_content) simp_all
  ultimately show ?thesis using that by (simp add: hp'_def)
qed

lemma buf_rest_agree: "hp' b = hp b \<Longrightarrow> buf_rest hp' b = buf_rest hp b"
  by (simp add: buf_rest_def)

lemma list_all2_rest_agree:
  assumes "list_all2 (\<lambda>b. chunk (buf_rest hp b)) bs cs" and "\<And>b. b \<in> set bs \<Longrightarrow> buf_rest hp' b = buf_rest hp b"
  shows "list_all2 (\<lambda>b. chunk (buf_rest hp' b)) bs cs"
  using assms by (induction rule: list_all2_induct) auto

text \<open>Objects are pushed to the last buffer when it has room.\<close>

lemma MarkStackPushBack_room:
  assumes "stack_rep hp st (bs @ [b]) (cs @ [c])" and "length c < 64"
  obtains hp' where "MarkStackPushBack new st v hp = Inr (st, hp')"
    and "stack_rep hp' st (bs @ [b]) (cs @ [c @ [v]])" and "\<And>a. a \<noteq> b \<Longrightarrow> hp' a = hp a"
proof -
  have r: "bufs.linked hp (bs @ [b])" "stack_h st = hd (bs @ [b])" "stack_t st = b"
    "stack_s st = of_nat (length (bs @ [b]))" "list_all2 (\<lambda>b. chunk (buf_rest hp b)) bs cs"
    "chunk (buf_rest hp b) c"
    using assms(1) by (auto simp: stack_rep_def list_all2_append2 hd_append list_all2_Cons2)
  then obtain os where os: "buf_rest hp b = Some (of_nat (length c), os)" "length os = 64"
    "take (length c) os = c" by (auto simp: chunk_def)
  have b: "is_buf hp b" using r(1) by (simp add: bufs.linked_def)
  then have full: "MarkStackBufFull b hp = Inr False"
    using os assms(2) by (auto simp: MarkStackBufFull_def read_buf_at MARK_MAX_def buf_rest_def buf_at_def
        unat_of_nat dest!: arg_cong [where f = unat])
  from MarkStackBufPushBack_fills [OF os(1,2) assms(2) os(3)] obtain hp' where
    hp': "MarkStackBufPushBack b v hp = Inr hp'" "chunk (buf_rest hp' b) (c @ [v])"
    "\<And>zs. bufs.linked hp' zs = bufs.linked hp zs" "\<And>a. a \<noteq> b \<Longrightarrow> hp' a = hp a" by blast
  have "b \<notin> set bs" using bufs.linked_distinct [OF r(1)] by simp
  then have "list_all2 (\<lambda>b. chunk (buf_rest hp' b)) bs cs"
    by (intro list_all2_rest_agree [OF r(5)] buf_rest_agree hp'(4)) blast
  with r hp' have "stack_rep hp' st (bs @ [b]) (cs @ [c @ [v]])"
    by (simp add: stack_rep_def list_all2_appendI)
  moreover have "MarkStackPushBack new st v hp = Inr (st, hp')"
    using r(3) b full hp'(1) by (simp add: MarkStackPushBack_def is_buf_def)
  ultimately show ?thesis using that hp'(4) by blast
qed

definition allocates :: "op_new \<Rightarrow> mark_heap \<Rightarrow> bool" where
  "allocates new hp \<longleftrightarrow> fst (new hp) \<noteq> 0 \<and> hp (fst (new hp)) = None \<and> length (buf_stack (snd (new hp))) = 64"

text \<open>Otherwise a new buffer is appended.\<close>

lemma MarkStackPushBuffer_appends:
  assumes "stack_rep hp st bs cs" and "is_buf hp b" and "b \<notin> set bs" and "bnext hp b = 0" and "bpre hp b = 0"
  obtains st' hp' where "MarkStackPushBuffer st b hp = Inr (st', hp')" and "bufs.linked hp' (bs @ [b])"
    and "stack_h st' = hd (bs @ [b])" and "stack_t st' = b" and "stack_s st' = of_nat (length bs) + 1"
    and "buf_rest hp' = buf_rest hp" and "\<And>a. a \<notin> set (bs @ [b]) \<Longrightarrow> hp' a = hp a"
proof (cases "bs = []")
  case True
  with assms that [of "\<lparr>stack_h = b, stack_t = b, stack_s = stack_s st + 1\<rparr>" hp] show ?thesis
    by (simp add: MarkStackPushBuffer_def stack_rep_empty) (simp add: stack_rep_def bufs.linked_single)
next
  case False
  have l: "bufs.linked hp bs" "stack_t st = last bs" "stack_h st = hd bs" "stack_s st = of_nat (length bs)"
    using assms(1) False by (auto simp: stack_rep_def)
  have b: "bufs.linked hp [b]" using assms by (simp add: bufs.linked_single)
  have n: "is_buf hp (last bs)" using l(1) False by (auto simp: bufs.linked_def)
  from bufs.prv_then_nxt [of hp "last bs" b b "last bs"] n assms(2) obtain hp1 hp2 where
    h: "set_buf_pre b (last bs) hp = Inr hp1" "set_buf_next (last bs) b hp1 = Inr hp2"
    "bufs.relinked (last bs) b b (last bs) hp hp2" by blast
  have "bufs.linked hp2 (bs @ [b])"
    using bufs.relinked_join [OF l(1) b False] h(3) assms(3) by simp
  moreover have "MarkStackPushBuffer st b hp = Inr (st\<lparr>stack_t := b, stack_s := stack_s st + 1\<rparr>, hp2)"
    using assms(1) False h l by (simp add: MarkStackPushBuffer_def stack_rep_empty)
  moreover have "hp2 a = hp a" if "a \<notin> set (bs @ [b])" for a
    using that False set_buf_other(2) [OF h(1)] set_buf_other(1) [OF h(2)] last_in_set [of bs]
    by (metis in_set_conv_decomp Un_iff set_append)
  ultimately show ?thesis using h(3) l False
    by (intro that [of "st\<lparr>stack_t := b, stack_s := stack_s st + 1\<rparr>" hp2]) (simp_all add: bufs.relinked_def)
qed

lemma MarkStackPushBack_grows:
  assumes rep: "stack_rep hp st bs cs" and full: "cs = [] \<or> length (last cs) = 64" and new: "allocates new hp"
  obtains st' hp' where "MarkStackPushBack new st v hp = Inr (st', hp')"
    and "stack_rep hp' st' (bs @ [fst (new hp)]) (cs @ [[v]])"
    and "\<And>a. a \<notin> set (bs @ [fst (new hp)]) \<Longrightarrow> hp' a = hp a"
proof -
  let ?b = "fst (new hp)"
  define hp1 where "hp1 = hp(?b \<mapsto> (snd (new hp))\<lparr>buf_next := 0, buf_pre := 0, buf_count := 0\<rparr>)"
  have b: "?b \<noteq> 0" "hp ?b = None" "length (buf_stack (snd (new hp))) = 64"
    using new by (auto simp: allocates_def)
  have "?b \<notin> set bs" using stack_rep_dom [OF rep] b(2) by auto
  have rep1: "stack_rep hp1 st bs cs"
    using rep \<open>?b \<notin> set bs\<close> by (subst stack_rep_agree) (auto simp: hp1_def)
  have "is_buf hp1 ?b" "bnext hp1 ?b = 0" "bpre hp1 ?b = 0"
    using b by (simp_all add: hp1_def is_buf_def buf_at_def)
  from MarkStackPushBuffer_appends [OF rep1 this(1) \<open>?b \<notin> set bs\<close> this(2,3)] obtain st' hp2 where
    p: "MarkStackPushBuffer st ?b hp1 = Inr (st', hp2)" "bufs.linked hp2 (bs @ [?b])"
    "stack_h st' = hd (bs @ [?b])" "stack_t st' = ?b" "stack_s st' = of_nat (length bs) + 1"
    "buf_rest hp2 = buf_rest hp1" "\<And>a. a \<notin> set (bs @ [?b]) \<Longrightarrow> hp2 a = hp1 a" by blast
  have "buf_rest hp2 ?b = Some (of_nat (length ([] :: addr list)), buf_stack (snd (new hp)))"
    by (simp add: p(6) hp1_def buf_rest_def)
  from MarkStackBufPushBack_fills [OF this b(3)] obtain hp' where
    hp': "MarkStackBufPushBack ?b v hp2 = Inr hp'" "chunk (buf_rest hp' ?b) [v]"
    "\<And>zs. bufs.linked hp' zs = bufs.linked hp2 zs" "\<And>a. a \<noteq> ?b \<Longrightarrow> hp' a = hp2 a" by auto
  have "buf_rest hp' a = buf_rest hp1 a" if "a \<noteq> ?b" for a
    using that hp'(4) fun_cong [OF p(6), of a] by (simp add: buf_rest_def)
  then have "list_all2 (\<lambda>b. chunk (buf_rest hp' b)) bs cs"
    using \<open>?b \<notin> set bs\<close> by (intro list_all2_rest_agree [OF stack_rep_chunks [OF rep1]]) metis
  with p hp' have "stack_rep hp' st' (bs @ [?b]) (cs @ [[v]])"
    by (simp add: stack_rep_def list_all2_appendI)
  moreover have "MarkStackPushBack new st v hp = Inr (st', hp')"
  proof (cases "bs = []")
    case True
    with rep p(1,4) hp'(1) show ?thesis
      by (simp add: MarkStackPushBack_def NewBuffer_def stack_rep_def split_beta Let_def flip: hp1_def)
  next
    case False
    with rep have "cs \<noteq> []" by (simp add: stack_rep_Nil)
    with rep obtain b where "stack_t st = b" "is_buf hp b" "chunk (buf_rest hp b) (last cs)"
      by (rule stack_rep_snocE) auto
    with full \<open>cs \<noteq> []\<close> have "MarkStackBufFull (stack_t st) hp = Inr True" "stack_t st \<noteq> 0"
      by (auto simp: chunk_def MarkStackBufFull_def read_buf_def buf_rest_def MARK_MAX_def is_buf_def)
    with p(1,4) hp'(1) show ?thesis
      by (simp add: MarkStackPushBack_def NewBuffer_def split_beta Let_def flip: hp1_def)
  qed
  moreover have "hp' a = hp a" if "a \<notin> set (bs @ [?b])" for a
    using that hp'(4) p(7) by (simp add: hp1_def)
  ultimately show ?thesis using that by blast
qed

theorem MarkStackPushBack_rep:
  assumes "stack_rep hp st bs cs" and "allocates new hp"
  obtains st' hp' bs' where "MarkStackPushBack new st v hp = Inr (st', hp')"
    and "stack_rep hp' st' bs' (push_chunk v cs)" and "changes (set bs) hp (set bs') hp'"
    and "set bs' \<inter> dom hp \<subseteq> set bs" and "set bs' \<subseteq> insert (fst (new hp)) (set bs)"
proof (cases "cs = [] \<or> length (last cs) = 64")
  case True
  from MarkStackPushBack_grows [OF assms(1) True assms(2)] obtain st' hp' where
    "MarkStackPushBack new st v hp = Inr (st', hp')"
    "stack_rep hp' st' (bs @ [fst (new hp)]) (cs @ [[v]])"
    "\<And>a. a \<notin> set (bs @ [fst (new hp)]) \<Longrightarrow> hp' a = hp a" by blast
  with True assms(2) show ?thesis
    by (intro that [of st' hp' "bs @ [fst (new hp)]"]) (auto simp: push_chunk_def changes_def allocates_def)
next
  case False
  then have "cs \<noteq> []" by simp
  with assms(1) obtain bs0 b cs0 c where
    e: "bs = bs0 @ [b]" "cs = cs0 @ [c]" "chunk (buf_rest hp b) c"
    by (rule stack_rep_snocE)
  with False have "length c < 64" by (auto simp: chunk_def)
  from MarkStackPushBack_room [OF assms(1) [unfolded e] this] obtain hp' where
    "MarkStackPushBack new st v hp = Inr (st, hp')" "stack_rep hp' st (bs0 @ [b]) (cs0 @ [c @ [v]])"
    "\<And>a. a \<noteq> b \<Longrightarrow> hp' a = hp a" by blast
  with False e show ?thesis
    by (intro that [of st hp' "bs0 @ [b]"]) (auto simp: push_chunk_def changes_def)
qed

lemma chunk_count:
  assumes "c \<noteq> []" and "length c \<le> 64"
  shows "(of_nat (length c) :: u64) \<noteq> 0" and "(of_nat (length c) - 1 :: u64) = of_nat (length c - Suc 0)"
    and "unat (of_nat (length c - Suc 0) :: u64) = length c - Suc 0"
proof -
  have "unat (of_nat (length c) :: u64) = length c" using assms(2) by (simp add: unat_of_nat)
  with assms(1) show "(of_nat (length c) :: u64) \<noteq> 0" by auto
  show "(of_nat (length c) - 1 :: u64) = of_nat (length c - Suc 0)" using assms(1) by (cases c) simp_all
  show "unat (of_nat (length c - Suc 0) :: u64) = length c - Suc 0" using assms(2) by (simp add: unat_of_nat)
qed

lemma MarkStackBack_rep:
  assumes "stack_rep hp st bs cs"
  shows "MarkStackBack st hp = Inr (if cs = [] then 0 else last (concat cs))"
proof (cases "cs = []")
  case True
  with assms show ?thesis by (simp add: MarkStackBack_def stack_rep_def)
next
  case False
  from assms False obtain bs0 b cs0 c where
    e: "bs = bs0 @ [b]" "cs = cs0 @ [c]" "stack_t st = b" "is_buf hp b" "chunk (buf_rest hp b) c"
    by (rule stack_rep_snocE)
  then obtain x where x: "hp b = Some x" "buf_count x = of_nat (length c)" "length (buf_stack x) = 64"
    "c \<noteq> []" "length c \<le> 64" "take (length c) (buf_stack x) = c"
    by (auto simp: chunk_def buf_rest_def)
  then have "buf_count x \<noteq> 0" "unat (buf_count x - 1) = length c - 1" by (simp_all add: chunk_count)
  moreover have "buf_stack x ! (length c - 1) = last c"
    using x(4,6) by (metis diff_less last_conv_nth length_greater_0_conv nth_take zero_less_one)
  ultimately show ?thesis
    using e x by (simp add: MarkStackBack_def MarkStackBufBack_def read_buf_def is_buf_def)
qed

text \<open>The last buffer of an owner comes off its list.\<close>

lemma MarkStackPopBuffer_cuts:
  assumes l: "bufs.linked hp (bs @ [b])" and h: "stack_h st = hd (bs @ [b])" and t: "stack_t st = b"
    and n: "stack_s st = of_nat (length (bs @ [b]))"
  obtains st' hp' where "MarkStackPopBuffer st hp = Inr (b, st', hp')" and "bufs.linked hp' bs"
    and "stack_h st' = hd (bs @ [0])" and "stack_t st' = last (0 # bs)" and "stack_s st' = of_nat (length bs)"
    and "buf_rest hp' = buf_rest hp" and "\<And>a. a \<notin> set (bs @ [b]) \<Longrightarrow> hp' a = hp a"
proof -
  have b: "is_buf hp b" "b \<noteq> 0" using l by (auto simp: bufs.linked_def dest: is_bufD)
  have pre: "bpre hp b = last (0 # bs)" using bufs.linked_prv [of hp bs b "[]"] l by simp
  show ?thesis
  proof (cases "bs = []")
    case True
    from bufs.set_prv [OF b(1), of 0] obtain hp' where
      hp': "set_buf_pre b 0 hp = Inr hp'" "buf_rest hp' = buf_rest hp" by blast
    then have "MarkStackPopBuffer st hp = Inr (b, st\<lparr>stack_t := 0, stack_h := 0, stack_s := stack_s st - 1\<rparr>, hp')"
      using True b t pre by (simp add: MarkStackPopBuffer_def MarkStackEmpty_def read_buf_at)
    with True hp' n set_buf_other(2) [OF hp'(1)] show ?thesis
      by (intro that [of "st\<lparr>stack_t := 0, stack_h := 0, stack_s := stack_s st - 1\<rparr>" hp']) simp_all
  next
    case False
    have q: "last bs \<noteq> 0" "is_buf hp (last bs)" using bufs.linked_last_node [OF l False] by auto
    from bufs.nxt_then_prv [of hp "last bs" 0 b 0] b q obtain hp1 hp2 where
      hp: "set_buf_next (last bs) 0 hp = Inr hp1" "set_buf_pre b 0 hp1 = Inr hp2"
      "bufs.relinked (last bs) 0 b 0 hp hp2" by blast
    let ?st = "st\<lparr>stack_t := last bs, stack_s := stack_s st - 1\<rparr>"
    have "MarkStackPopBuffer st hp = Inr (b, ?st, hp2)"
      using False b q t pre hp(1,2) by (simp add: MarkStackPopBuffer_def MarkStackEmpty_def read_buf_at)
    moreover have "bufs.linked hp2 bs" using bufs.relinked_cut(1) [OF l False] hp(3) by simp
    moreover have "hp2 a = hp a" if "a \<notin> set (bs @ [b])" for a
      using that False set_buf_other(1) [OF hp(1)] set_buf_other(2) [OF hp(2)] last_in_set [of bs]
      by (metis in_set_conv_decomp Un_iff set_append)
    ultimately show ?thesis using False hp(3) h n
      by (intro that [of ?st hp2]) (simp_all add: bufs.relinked_def)
  qed
qed

lemma MarkStackBufPopBack_drops:
  assumes "is_buf hp b" and "chunk (buf_rest hp b) c"
  obtains hp' os where "MarkStackBufPopBack b hp = Inr hp'"
    and "buf_rest hp' b = Some (of_nat (length (butlast c)), os)" and "length os = 64"
    and "take (length (butlast c)) os = butlast c"
    and "MarkStackBufEmpty b hp' = Inr (length c = 1)" and "\<And>zs. bufs.linked hp' zs = bufs.linked hp zs"
    and "\<And>a. a \<noteq> b \<Longrightarrow> hp' a = hp a" and "hp' b \<noteq> None"
proof -
  from assms obtain x where x: "hp b = Some x" "buf_count x = of_nat (length c)" "length (buf_stack x) = 64"
    "c \<noteq> []" "length c \<le> 64" "take (length c) (buf_stack x) = c"
    by (auto simp: chunk_def buf_rest_def)
  define hp' where "hp' = hp(b \<mapsto> x\<lparr>buf_count := of_nat (length c - 1)\<rparr>)"
  have "MarkStackBufPopBack b hp = Inr hp'"
    using x by (simp add: MarkStackBufPopBack_def read_buf_def chunk_count hp'_def)
  moreover have "take (length c - 1) (buf_stack x) = butlast c"
    using x(6) by (metis butlast_conv_take diff_le_self min.absorb1 take_take)
  moreover have "MarkStackBufEmpty b hp' = Inr (length c = 1)"
    using x(4) chunk_count(3) [OF x(4,5)]
    by (cases c) (auto simp: MarkStackBufEmpty_def read_buf_def hp'_def dest: arg_cong [where f = unat])
  moreover have "bufs.linked hp' zs = bufs.linked hp zs" for zs
    unfolding hp'_def using x(1) by (intro linked_content) simp_all
  ultimately show ?thesis using x(3) by (intro that [of hp' "buf_stack x"]) (simp_all add: hp'_def buf_rest_def)
qed

theorem MarkStackPopBack_rep:
  assumes rep: "stack_rep hp st bs cs" and ne: "cs \<noteq> []"
  obtains st' hp' bs' where "MarkStackPopBack st hp = Inr (st', hp')"
    and "stack_rep hp' st' bs' (pop_chunk cs)" and "changes (set bs) hp (set bs') hp'" and "set bs' \<subseteq> set bs"
proof -
  from rep ne obtain bs0 b cs0 c where e: "bs = bs0 @ [b]" "cs = cs0 @ [c]" "stack_t st = b" "is_buf hp b"
    "chunk (buf_rest hp b) c" "list_all2 (\<lambda>b. chunk (buf_rest hp b)) bs0 cs0" "b \<notin> set bs0"
    by (rule stack_rep_snocE)
  from MarkStackBufPopBack_drops [OF e(4,5)] obtain hp1 os where
    p: "MarkStackBufPopBack b hp = Inr hp1" "buf_rest hp1 b = Some (of_nat (length (butlast c)), os)"
    "length os = 64" "take (length (butlast c)) os = butlast c"
    "MarkStackBufEmpty b hp1 = Inr (length c = 1)" "\<And>zs. bufs.linked hp1 zs = bufs.linked hp zs"
    "\<And>a. a \<noteq> b \<Longrightarrow> hp1 a = hp a" "hp1 b \<noteq> None" by blast
  have ne': "\<not> MarkStackEmpty st" using rep e(1) by (simp add: stack_rep_empty)
  have l1: "bufs.linked hp1 (bs0 @ [b])" using rep e(1) p(6) by (simp add: stack_rep_def)
  have c0: "list_all2 (\<lambda>b. chunk (buf_rest hp1 b)) bs0 cs0"
    using e(7) p(7) by (intro list_all2_rest_agree [OF e(6)] buf_rest_agree) metis
  show ?thesis
  proof (cases "length c = 1")
    case False
    then have "butlast c \<noteq> []" using e(5) by (cases c rule: rev_cases) (auto simp: chunk_def)
    then have "chunk (buf_rest hp1 b) (butlast c)"
      using e(5) p(2-4) by (auto simp: chunk_def)
    with rep e l1 c0 have "stack_rep hp1 st bs (cs0 @ [butlast c])"
      by (simp add: stack_rep_def list_all2_appendI)
    with False e ne' p(1,5,7) show ?thesis
      by (intro that [of st hp1 bs]) (auto simp: MarkStackPopBack_def pop_chunk_def changes_def)
  next
    case True
    have "stack_h st = hd (bs0 @ [b])" "stack_s st = of_nat (length (bs0 @ [b]))"
      using rep e(1) by (simp_all add: stack_rep_def)
    from MarkStackPopBuffer_cuts [OF l1 this(1) e(3) this(2)] obtain st' hp2 where
      q: "MarkStackPopBuffer st hp1 = Inr (b, st', hp2)" "bufs.linked hp2 bs0"
      "stack_h st' = hd (bs0 @ [0])" "stack_t st' = last (0 # bs0)" "stack_s st' = of_nat (length bs0)"
      "buf_rest hp2 = buf_rest hp1" "\<And>a. a \<notin> set (bs0 @ [b]) \<Longrightarrow> hp2 a = hp1 a" by blast
    have "hp2 b \<noteq> None" using p(8) fun_cong [OF q(6), of b] by (auto simp: buf_rest_def)
    with True e ne' p(1,5) q(1) have "MarkStackPopBack st hp = Inr (st', hp2(b := None))"
      by (simp add: MarkStackPopBack_def DeleteBuffer_def is_buf_def)
    moreover have "stack_rep hp2 st' bs0 cs0" using c0 q by (simp add: stack_rep_def)
    then have "stack_rep (hp2(b := None)) st' bs0 cs0"
      using e(7) by (subst stack_rep_agree) auto
    ultimately show ?thesis using True e(1,2) p(7) q(7)
      by (intro that [of st' "hp2(b := None)" bs0]) (auto simp: pop_chunk_def changes_def)
  qed
qed

section \<open>Handing buffers over\<close>

lemma stack_rep_hd_last:
  assumes "stack_rep hp st bs cs" and "bs \<noteq> []"
  shows "stack_h st = hd bs" and "stack_t st = last bs" and "hd bs \<noteq> 0" and "is_buf hp (hd bs)"
    and "is_buf hp (last bs)"
proof -
  show "stack_h st = hd bs" "stack_t st = last bs" using assms by (simp_all add: stack_rep_def)
  have "bufs.linked hp bs" using assms(1) by (simp add: stack_rep_def)
  with assms(2) show "is_buf hp (hd bs)" "is_buf hp (last bs)" by (simp_all add: bufs.linked_def)
  then show "hd bs \<noteq> 0" by (simp add: is_buf_def)
qed

theorem MarkStackInsert_rep:
  assumes rep: "stack_rep hp st bs cs" and rep2: "stack_rep hp other bs2 cs2"
    and dis: "set bs \<inter> set bs2 = {}"
  obtains st' hp' where "MarkStackInsert st other hp = Inr (st', MarkStackConstruct, hp')"
    and "stack_rep hp' st' (bs @ bs2) (cs @ cs2)" and "changes (set bs \<union> set bs2) hp (set bs \<union> set bs2) hp'"
proof -
  have empty: "other = MarkStackConstruct" if "MarkStackEmpty other"
    using that by (simp add: MarkStackEmpty_def MarkStackConstruct_def)
  show ?thesis
  proof (cases "bs2 = []")
    case True
    then show ?thesis using rep rep2 empty stack_rep_empty [OF rep2] stack_rep_Nil [OF rep2]
      by (intro that [of st hp]) (simp_all add: MarkStackInsert_def changes_def)
  next
    case False
    have ne: "\<not> MarkStackEmpty other" using False stack_rep_empty [OF rep2] by simp
    note o2 = stack_rep_hd_last [OF rep2 False]
    show ?thesis
    proof (cases "bs = []")
      case True
      let ?st = "\<lparr>stack_h = stack_h other, stack_t = stack_t other, stack_s = stack_s other\<rparr>"
      have "MarkStackInsert st other hp = Inr (?st, MarkStackConstruct, hp)"
        using True rep ne by (simp add: MarkStackInsert_def MarkStackClean_def stack_rep_def)
      with True rep rep2 show ?thesis
        by (intro that [of ?st hp]) (simp_all add: stack_rep_def changes_def)
    next
      case ne1: False
      note o1 = stack_rep_hd_last [OF rep ne1]
      from bufs.nxt_then_prv [of hp "last bs" "hd bs2" "hd bs2" "last bs"] o1(5) o2(4) obtain hp1 hp2 where
        hp: "set_buf_next (last bs) (hd bs2) hp = Inr hp1" "set_buf_pre (hd bs2) (last bs) hp1 = Inr hp2"
        "bufs.relinked (last bs) (hd bs2) (hd bs2) (last bs) hp hp2" by blast
      let ?st = "st\<lparr>stack_t := stack_t other, stack_s := stack_s st + stack_s other\<rparr>"
      have "MarkStackInsert st other hp = Inr (?st, MarkStackConstruct, hp2)"
        using o1 o2 ne hp(1,2) by (simp add: MarkStackInsert_def MarkStackClean_def)
      moreover have "bufs.linked hp bs" "bufs.linked hp bs2" using rep rep2 by (simp_all add: stack_rep_def)
      then have "bufs.linked hp2 (bs @ bs2)" using bufs.relinked_join ne1 False dis hp(3) by blast
      moreover have "buf_rest hp2 = buf_rest hp" using hp(3) by (simp add: bufs.relinked_def)
      moreover have "hp2 a = hp a" if "a \<notin> set bs \<union> set bs2" for a
        using that ne1 False set_buf_other(1) [OF hp(1)] set_buf_other(2) [OF hp(2)] hd_in_set last_in_set
        by (metis Un_iff)
      ultimately show ?thesis using rep rep2 ne1 False
        by (intro that [of ?st hp2]) (simp_all add: stack_rep_def changes_def list_all2_appendI)
    qed
  qed
qed

text \<open>
  The loop of \<open>MarkStackSplit\<close>: \<open>xs\<close> are the buffers passed, \<open>ys\<close> the ones the owner still has.
\<close>

lemma num_steps:
  assumes "num < n" and "num \<noteq> n - 1"
  shows "num + 1 < (n :: u64)" and "unat (num + 1) = Suc (unat num)"
proof -
  have "unat num < unat n" using assms(1) by (simp add: word_less_nat_alt)
  moreover have "unat n < 2 ^ 64" using unsigned_less [of n] by simp
  ultimately show s: "unat (num + 1) = Suc (unat num)" by (simp add: unat_word_ariths)
  have "Suc (unat num) \<noteq> unat n"
  proof
    assume "Suc (unat num) = unat n"
    with s have "num + 1 = n" by (simp add: word_unat_eq_iff)
    with assms(2) show False by auto
  qed
  with s \<open>unat num < unat n\<close> show "num + 1 < n" by (simp add: word_less_nat_alt)
qed

lemma split_last_step:
  assumes l: "bufs.linked hp (xs @ y # ys)" and s: "stack_h st = y" "stack_s st = of_nat (length (y # ys))"
    "stack_t st = last (y # ys)" and n: "num < n" "num = n - 1"
  obtains st' hp' where "split_walk n num st hp = Inr (st', hp')" and "bufs.linked hp' (xs @ [y])"
    and "bufs.linked hp' ys" and "stack_h st' = hd (ys @ [0])" and "stack_t st' = last (0 # ys)"
    and "stack_s st' = of_nat (length ys)" and "buf_rest hp' = buf_rest hp"
    and "\<And>a. a \<notin> set (xs @ y # ys) \<Longrightarrow> hp' a = hp a"
proof -
  have y: "is_buf hp y" using l by (simp add: bufs.linked_def)
  have nx: "bnext hp y = hd (ys @ [0])" using bufs.linked_nxt [OF l] .
  have stop: "\<not> num + 1 < n" using n by (auto simp: word_less_nat_alt)
  show ?thesis
  proof (cases "ys = []")
    case True
    from bufs.set_nxt [OF y, of 0] obtain hp' where hp': "set_buf_next y 0 hp = Inr hp'"
      "bnext hp' = (bnext hp)(y := 0)" "bpre hp' = bpre hp" "buf_rest hp' = buf_rest hp" by blast
    let ?st = "st\<lparr>stack_h := 0, stack_s := stack_s st - 1, stack_t := 0\<rparr>"
    have "split_walk n num st hp = Inr (?st, hp')"
      using True n s(1) y nx hp'(1) by (subst split_walk.simps) (simp add: read_buf_at)
    moreover have "bnext hp' = bnext hp" using hp'(2) nx True by auto
    then have "bufs.linked hp' (xs @ [y])"
      using l True hp'(3) bufs.node_rest [OF hp'(4)] by (simp add: bufs.linked_def)
    ultimately show ?thesis using True s hp'(4) set_buf_other(1) [OF hp'(1)]
      by (intro that [of ?st hp']) simp_all
  next
    case False
    have h: "is_buf hp (hd ys)" "hd ys \<noteq> 0" using bufs.linked_hd_node [of hp "xs @ [y]" ys] l False by auto
    from bufs.prv_then_nxt [of hp y 0 "hd ys" 0] y h obtain hp1 hp2 where
      hp: "set_buf_pre (hd ys) 0 hp = Inr hp1" "set_buf_next y 0 hp1 = Inr hp2"
      "bufs.relinked y 0 (hd ys) 0 hp hp2" by blast
    let ?st = "st\<lparr>stack_h := hd ys, stack_s := stack_s st - 1\<rparr>"
    have "split_walk n num st hp = split_walk n (num + 1) ?st hp2"
      using False n s(1) y nx h hp(1,2) by (subst split_walk.simps) (simp add: read_buf_at)
    also have "\<dots> = Inr (?st, hp2)" using stop by (subst split_walk.simps) simp
    finally have w: "split_walk n num st hp = Inr (?st, hp2)" .
    have "bufs.linked hp ((xs @ [y]) @ ys)" using l by simp
    from bufs.relinked_cut [OF this _ False] hp(3)
    have "bufs.linked hp2 (xs @ [y])" "bufs.linked hp2 ys" by simp_all
    moreover have "hp2 a = hp a" if "a \<notin> set (xs @ y # ys)" for a
    proof -
      have "a \<noteq> y" "a \<noteq> hd ys" using that hd_in_set [OF False] by auto
      then show ?thesis using set_buf_other(2) [OF hp(1)] set_buf_other(1) [OF hp(2)] by simp
    qed
    ultimately show ?thesis using False w s hp(3)
      by (intro that [of ?st hp2]) (simp_all add: bufs.relinked_def)
  qed
qed

lemma split_walk_cuts:
  assumes "bufs.linked hp (xs @ ys)" and "ys \<noteq> []" and "num < n" and "stack_h st = hd ys"
    and "stack_s st = of_nat (length ys)" and "stack_t st = last ys"
  defines "k \<equiv> unat n - unat num"
  shows "\<exists>st' hp'. split_walk n num st hp = Inr (st', hp') \<and> bufs.linked hp' (xs @ take k ys) \<and>
    bufs.linked hp' (drop k ys) \<and> stack_h st' = hd (drop k ys @ [0]) \<and> stack_t st' = last (0 # drop k ys) \<and>
    stack_s st' = of_nat (length (drop k ys)) \<and> buf_rest hp' = buf_rest hp \<and>
    (\<forall>a. a \<notin> set (xs @ ys) \<longrightarrow> hp' a = hp a)"
  using assms(1-6) unfolding k_def
proof (induction ys arbitrary: xs num st)
  case (Cons y ys)
  show ?case
  proof (cases "num = n - 1")
    case True
    then have "unat n - unat num = 1" using Cons.prems(3) unat_minus_one_Suc [of n] by (cases "n = 0") auto
    moreover obtain st' hp' where "split_walk n num st hp = Inr (st', hp')" "bufs.linked hp' (xs @ [y])"
      "bufs.linked hp' ys" "stack_h st' = hd (ys @ [0])" "stack_t st' = last (0 # ys)"
      "stack_s st' = of_nat (length ys)" "buf_rest hp' = buf_rest hp" "\<And>a. a \<notin> set (xs @ y # ys) \<Longrightarrow> hp' a = hp a"
      by (rule split_last_step [OF Cons.prems(1) _ _ _ Cons.prems(3) True, of st]) (use Cons.prems in simp_all)
    ultimately show ?thesis by auto
  next
    case False
    note w = num_steps [OF Cons.prems(3) False]
    have k: "unat n - unat num = Suc (unat n - unat (num + 1))"
      using w Cons.prems(3) by (simp add: word_less_nat_alt)
    have y: "is_buf hp y" using Cons.prems(1) by (simp add: bufs.linked_def)
    have nx: "bnext hp y = hd (ys @ [0])" using bufs.linked_nxt [OF Cons.prems(1)] .
    show ?thesis
    proof (cases "ys = []")
      case True
      have "split_walk n num st hp = Inr (st\<lparr>stack_h := 0, stack_s := stack_s st - 1, stack_t := 0\<rparr>, hp)"
        using True False Cons.prems(3,4) y nx by (subst split_walk.simps) (simp add: read_buf_at)
      with True k Cons.prems show ?thesis by auto
    next
      case ne: False
      then have "hd ys \<noteq> 0" using bufs.linked_hd_node [of hp "xs @ [y]" ys] Cons.prems(1) by auto
      let ?st = "st\<lparr>stack_h := hd ys, stack_s := stack_s st - 1\<rparr>"
      have "split_walk n num st hp = split_walk n (num + 1) ?st hp"
        using ne False \<open>hd ys \<noteq> 0\<close> Cons.prems(3,4) y nx
        by (subst split_walk.simps) (simp add: read_buf_at)
      moreover have "bufs.linked hp ((xs @ [y]) @ ys)" using Cons.prems(1) by simp
      note Cons.IH [OF this ne w(1), of ?st]
      ultimately show ?thesis using k Cons.prems(5,6) ne by simp
    qed
  qed
qed simp

theorem MarkStackSplit_rep:
  assumes rep: "stack_rep hp st bs cs"
  obtains st' hp' where "MarkStackSplit st n hp = Inr (hd (take (unat n) bs @ [0]), st', hp')"
    and "bufs.linked hp' (take (unat n) bs)"
    and "list_all2 (\<lambda>b. chunk (buf_rest hp' b)) (take (unat n) bs) (take (unat n) cs)"
    and "stack_rep hp' st' (drop (unat n) bs) (drop (unat n) cs)" and "changes (set bs) hp (set bs) hp'"
proof (cases "n = 0 \<or> bs = []")
  case True
  then have "MarkStackSplit st n hp = Inr (0, st, hp)"
    using rep by (auto simp: MarkStackSplit_def stack_rep_def)
  with True rep show ?thesis by (intro that [of st hp]) (auto simp: changes_def stack_rep_def)
next
  case False
  then have "0 < n" by (simp add: word_gt_0)
  have r: "bufs.linked hp ([] @ bs)" "stack_h st = hd bs" "stack_s st = of_nat (length bs)" "stack_t st = last bs"
    using rep False by (simp_all add: stack_rep_def)
  have "stack_s st \<noteq> 0" using stack_rep_size [OF rep] stack_rep_Nil [OF rep] False by auto
  with split_walk_cuts [OF r(1) _ \<open>0 < n\<close> r(2-4)] False obtain st' hp' where
    s: "MarkStackSplit st n hp = Inr (hd bs, st', hp')" "bufs.linked hp' (take (unat n) bs)"
    "bufs.linked hp' (drop (unat n) bs)" "stack_h st' = hd (drop (unat n) bs @ [0])"
    "stack_t st' = last (0 # drop (unat n) bs)" "stack_s st' = of_nat (length (drop (unat n) bs))"
    "buf_rest hp' = buf_rest hp" "\<And>a. a \<notin> set bs \<Longrightarrow> hp' a = hp a"
    using r(2) by (auto simp: MarkStackSplit_def)
  have "list_all2 (\<lambda>b. chunk (buf_rest hp' b)) bs cs" using stack_rep_chunks [OF rep] s(7) by simp
  moreover have "hd (take (unat n) bs @ [0]) = hd bs" using False by (cases bs) (auto simp: take_Cons' unat_eq_0)
  ultimately show ?thesis using s
    by (intro that [of st' hp']) (simp_all add: stack_rep_def changes_def list_all2_takeI list_all2_dropI)
qed

lemma construct_walk_counts:
  "bufs.linked hp (xs @ ys) \<Longrightarrow> construct_walk (hd (ys @ [0])) st hp = Some (Inr
    (st\<lparr>stack_s := stack_s st + of_nat (length ys), stack_t := (if ys = [] then stack_t st else last ys)\<rparr>))"
proof (induction ys arbitrary: xs st)
  case Nil
  show ?case by (subst construct_walk.simps) simp
next
  case (Cons y ys)
  have y: "is_buf hp y" using Cons.prems by (simp add: bufs.linked_def)
  have nx: "bnext hp y = hd (ys @ [0])" using bufs.linked_nxt [OF Cons.prems] .
  have z: "hd (ys @ [0]) = 0 \<longleftrightarrow> ys = []"
    using Cons.prems by (cases ys) (auto simp: bufs.linked_def dest: is_bufD)
  have "bufs.linked hp ((xs @ [y]) @ ys)" using Cons.prems by simp
  from Cons.IH [OF this, of "st\<lparr>stack_s := stack_s st + 1, stack_t := (if ys = [] then y else stack_t st)\<rparr>"]
  show ?case using y is_bufD [OF y] nx z
    by (subst construct_walk.simps) (simp add: read_buf_at add.assoc split: if_splits)
qed

lemma MarkStackConstructFromBuffer_rep:
  assumes "bufs.linked hp bs" and "list_all2 (\<lambda>b. chunk (buf_rest hp b)) bs cs"
  obtains st where "MarkStackConstructFromBuffer (hd (bs @ [0])) hp = Some (Inr st)" and "stack_rep hp st bs cs"
  using assms construct_walk_counts [of hp "[]" bs "MarkStackConstruct\<lparr>stack_h := hd (bs @ [0])\<rparr>"]
  by (auto simp: MarkStackConstructFromBuffer_def stack_rep_def MarkStackConstruct_def intro!: that)

section \<open>Clearing\<close>

text \<open>
  The loop ends only when the tail is null, and nothing in it sets the tail: after the last buffer
  it reads the link of the null pointer.
\<close>

lemma clear_walk_out_of_bounds:
  assumes "bufs.linked hp bs" and "hp 0 = None" and "stack_h st = hd (bs @ [0])" and "stack_t st \<noteq> 0"
  shows "clear_walk st hp = Some (Inl OutOfBounds)"
  using assms
proof (induction bs arbitrary: st hp)
  case Nil
  then show ?case by (subst clear_walk.simps) (simp add: MarkStackEmpty_def read_buf_def)
next
  case (Cons b bs)
  have b: "is_buf hp b" "b \<noteq> 0" and d: "b \<notin> set bs" using Cons.prems(1) by (auto simp: bufs.linked_def dest: is_bufD)
  have nx: "bnext hp b = hd (bs @ [0])" using bufs.linked_nxt [of hp "[]"] Cons.prems(1) by simp
  let ?st = "st\<lparr>stack_h := hd (bs @ [0]), stack_s := stack_s st - 1\<rparr>"
  obtain hp' where hp': "(if hd (bs @ [0]) \<noteq> 0 then set_buf_pre (hd (bs @ [0])) 0 hp else Inr hp) = Inr hp'"
    "hp' b \<noteq> None" "hp' 0 = None" "bufs.linked hp' bs"
  proof (cases "bs = []")
    case True
    with b Cons.prems(2) that [of hp] show ?thesis by (simp add: is_buf_def)
  next
    case False
    have h: "is_buf hp (hd bs)" "hd bs \<noteq> 0" "hd bs \<noteq> b"
      using bufs.linked_hd_node [of hp "[b]" bs] hd_in_set [OF False] Cons.prems(1) False d by auto
    from bufs.set_prv [OF h(1), of 0] obtain hp' where hp': "set_buf_pre (hd bs) 0 hp = Inr hp'"
      "bpre hp' = (bpre hp)(hd bs := 0)" "bnext hp' = bnext hp" "buf_rest hp' = buf_rest hp" by blast
    have "bufs.linked hp' bs"
      using Cons.prems(1) False hp'(2,3) bufs.node_rest [OF hp'(4)]
        path_set_prev [of "bnext hp" "bpre hp" b bs 0 0] by (simp add: bufs.linked_def)
    with that [of hp'] False h b hp'(1) Cons.prems(2) set_buf_other(2) [OF hp'(1)] show ?thesis
      by (auto simp: is_buf_def)
  qed
  have "clear_walk st hp = clear_walk ?st (hp'(b := None))"
    using Cons.prems(3,4) b nx hp'(1,2)
    by (cases "hd (bs @ [0]) = 0";
        subst clear_walk.simps, force simp: MarkStackEmpty_def read_buf_at DeleteBuffer_def dest: is_bufD)
  moreover have "bufs.linked (hp'(b := None)) bs" using hp'(4) d by (subst linked_agree) auto
  then have "clear_walk ?st (hp'(b := None)) = Some (Inl OutOfBounds)"
    by (rule Cons.IH) (use hp'(3) Cons.prems(4) in simp_all)
  ultimately show ?case by simp
qed

section \<open>Several owners\<close>

text \<open>
  The collector threads have a stack each. They push and pop objects on their own, add all of another
  stack to their own, and take a number of buffers of another stack into an empty one of their own,
  as the source's comments on splitting have it.
\<close>

datatype mark_op =
  PushObject nat addr
| PopObject nat
| InsertAll nat nat
| TakeBuffers nat nat u64

type_synonym owners = "nat \<Rightarrow> mark_stack"

definition mark_op_step :: "op_new \<Rightarrow> mark_op \<Rightarrow> owners \<Rightarrow> mark_heap \<Rightarrow> (owners \<times> mark_heap) res option" where
  "mark_op_step new x sts hp = (case x of
      PushObject i v \<Rightarrow> Some (and_then (MarkStackPushBack new (sts i) v hp) (\<lambda>(st, hp). Inr (sts(i := st), hp)))
    | PopObject i \<Rightarrow> Some (and_then (MarkStackPopBack (sts i) hp) (\<lambda>(st, hp). Inr (sts(i := st), hp)))
    | InsertAll i j \<Rightarrow> Some (and_then (MarkStackInsert (sts i) (sts j) hp)
        (\<lambda>(st, other, hp). Inr (sts(i := st, j := other), hp)))
    | TakeBuffers i j n \<Rightarrow> (case MarkStackSplit (sts i) n hp of Inl e \<Rightarrow> Some (Inl e)
        | Inr (b, st, hp) \<Rightarrow> map_option (\<lambda>r. and_then r (\<lambda>st'. Inr (sts(i := st, j := st'), hp)))
            (MarkStackConstructFromBuffer b hp)))"

fun mark_run :: "op_new \<Rightarrow> mark_op list \<Rightarrow> owners \<Rightarrow> mark_heap \<Rightarrow> (owners \<times> mark_heap) res option" where
  "mark_run new [] sts hp = Some (Inr (sts, hp))"
| "mark_run new (x # xs) sts hp = (case mark_op_step new x sts hp of None \<Rightarrow> None
    | Some (Inl e) \<Rightarrow> Some (Inl e) | Some (Inr (sts, hp)) \<Rightarrow> mark_run new xs sts hp)"

text \<open>The same on lists of objects, without a store. \<open>None\<close> is a call that no owner may make.\<close>

type_synonym contents = "nat \<Rightarrow> addr list list"

definition spec_step :: "mark_op \<Rightarrow> contents \<Rightarrow> contents option" where
  "spec_step x css = (case x of
      PushObject i v \<Rightarrow> Some (css(i := push_chunk v (css i)))
    | PopObject i \<Rightarrow> if css i = [] then None else Some (css(i := pop_chunk (css i)))
    | InsertAll i j \<Rightarrow> if i = j then None else Some (css(i := css i @ css j, j := []))
    | TakeBuffers i j n \<Rightarrow> if i = j \<or> css j \<noteq> [] then None
        else Some (css(i := drop (unat n) (css i), j := take (unat n) (css i))))"

fun spec_run :: "mark_op list \<Rightarrow> contents \<Rightarrow> contents option" where
  "spec_run [] css = Some css"
| "spec_run (x # xs) css = (case spec_step x css of None \<Rightarrow> None | Some css \<Rightarrow> spec_run xs css)"

text \<open>
  The store holds the owners' buffers and nothing else: none is shared, none is lost.
\<close>

definition owners_rep :: "mark_heap \<Rightarrow> owners \<Rightarrow> (nat \<Rightarrow> addr list) \<Rightarrow> contents \<Rightarrow> bool" where
  "owners_rep hp sts bss css \<longleftrightarrow> (\<forall>i. stack_rep hp (sts i) (bss i) (css i)) \<and>
    (\<forall>i j. i \<noteq> j \<longrightarrow> set (bss i) \<inter> set (bss j) = {}) \<and> dom hp = (\<Union>i. set (bss i))"

lemma owners_rep_start: "owners_rep Map.empty (\<lambda>_. MarkStackConstruct) (\<lambda>_. []) (\<lambda>_. [])"
  by (simp add: owners_rep_def stack_rep_Construct)

lemma owners_rep_stack: "owners_rep hp sts bss css \<Longrightarrow> stack_rep hp (sts i) (bss i) (css i)"
  by (simp add: owners_rep_def)

lemma owners_rep_null: "owners_rep hp sts bss css \<Longrightarrow> hp 0 = None"
  using bufs.linked_null unfolding owners_rep_def stack_rep_def by (metis UN_E domIff)

text \<open>A call that changes the buffers of the owners in \<open>I\<close>.\<close>

lemma owners_rep_change:
  assumes rep: "owners_rep hp sts bss css"
    and new: "\<And>i. i \<in> I \<Longrightarrow> stack_rep hp' (sts' i) (bss' i) (css' i)"
    and old: "\<And>i. i \<notin> I \<Longrightarrow> sts' i = sts i \<and> bss' i = bss i \<and> css' i = css i"
    and dis: "\<And>i j. i \<in> I \<Longrightarrow> j \<in> I \<Longrightarrow> i \<noteq> j \<Longrightarrow> set (bss' i) \<inter> set (bss' j) = {}"
    and ch: "changes (\<Union>i\<in>I. set (bss i)) hp (\<Union>i\<in>I. set (bss' i)) hp'"
    and own: "(\<Union>i\<in>I. set (bss' i)) \<inter> dom hp \<subseteq> (\<Union>i\<in>I. set (bss i))"
  shows "owners_rep hp' sts' bss' css'"
proof -
  have apart: "set (bss i) \<inter> set (bss j) = {}" if "i \<noteq> j" for i j
    using rep that by (simp add: owners_rep_def)
  have d: "dom hp = (\<Union>i. set (bss i))" using rep by (simp add: owners_rep_def)
  have other: "set (bss k) \<inter> (\<Union>i\<in>I. set (bss' i)) = {}" "set (bss k) \<inter> (\<Union>i\<in>I. set (bss i)) = {}"
    if "k \<notin> I" for k
  proof -
    have "set (bss k) \<inter> set (bss i) = {}" if "i \<in> I" for i
      using that \<open>k \<notin> I\<close> by (intro apart) auto
    then show *: "set (bss k) \<inter> (\<Union>i\<in>I. set (bss i)) = {}" by (simp add: Int_UN_distrib)
    have "set (bss k) \<subseteq> dom hp" unfolding d by (rule UN_upper) simp
    with * own show "set (bss k) \<inter> (\<Union>i\<in>I. set (bss' i)) = {}" by (simp add: disjoint_iff subset_iff) metis
  qed
  have "stack_rep hp' (sts' k) (bss' k) (css' k)" for k
  proof (cases "k \<in> I")
    case False
    have "hp' b = hp b" if "b \<in> set (bss k)" for b
      using that other [OF False] ch by (simp add: changes_def disjoint_iff)
    then have "stack_rep hp' (sts k) (bss k) (css k)"
      using owners_rep_stack [OF rep] by (subst stack_rep_agree)
    with old [OF False] show ?thesis by simp
  qed (rule new)
  moreover have "set (bss' i) \<inter> set (bss' j) = {}" if "i \<noteq> j" for i j
  proof (cases "i \<in> I"; cases "j \<in> I")
    assume "i \<in> I" "j \<notin> I"
    with other(1) [of j] old [of j] show ?thesis by auto
  next
    assume "i \<notin> I" "j \<in> I"
    with other(1) [of i] old [of i] show ?thesis by auto
  qed (use that dis old apart in auto)
  moreover have "dom hp' = (\<Union>i. set (bss' i))"
  proof (rule set_eqI)
    fix a
    have in_dom: "a \<in> dom hp'" if "a \<in> set (bss' i)" for i
      using that \<open>stack_rep hp' (sts' i) (bss' i) (css' i)\<close> stack_rep_dom by blast
    show "a \<in> dom hp' \<longleftrightarrow> a \<in> (\<Union>i. set (bss' i))"
    proof
      assume a: "a \<in> dom hp'"
      show "a \<in> (\<Union>i. set (bss' i))"
      proof (cases "a \<in> (\<Union>i\<in>I. set (bss i)) \<union> (\<Union>i\<in>I. set (bss' i))")
        case True
        have "a \<in> (\<Union>i\<in>I. set (bss' i))"
        proof (rule ccontr)
          assume "a \<notin> (\<Union>i\<in>I. set (bss' i))"
          with True ch have "hp' a = None" unfolding changes_def by blast
          with a show False by blast
        qed
        then show ?thesis by blast
      next
        case False
        with a ch have "a \<in> dom hp" by (auto simp: changes_def)
        with d obtain k where k: "a \<in> set (bss k)" by auto
        with False have "k \<notin> I" by auto
        with k have "a \<in> set (bss' k)" using old [of k] by simp
        then show ?thesis by blast
      qed
    qed (use in_dom in blast)
  qed
  ultimately show ?thesis by (simp add: owners_rep_def)
qed

text \<open>Every call an owner may make is answered as on the lists.\<close>

lemma mark_op_step_refines:
  assumes rep: "owners_rep hp sts bss css" and spec: "spec_step x css = Some css'" and new: "allocates new hp"
  obtains sts' hp' bss' where "mark_op_step new x sts hp = Some (Inr (sts', hp'))"
    and "owners_rep hp' sts' bss' css'" and "dom hp' \<subseteq> insert (fst (new hp)) (dom hp)"
proof -
  have d: "set (bss i) \<subseteq> insert b (dom hp)" for i b
    using stack_rep_dom [OF owners_rep_stack [OF rep]] by blast
  show ?thesis
  proof (cases x)
    case (PushObject i v)
    from MarkStackPushBack_rep [OF owners_rep_stack [OF rep] new] obtain st' hp' bs' where
      p: "MarkStackPushBack new (sts i) v hp = Inr (st', hp')" "stack_rep hp' st' bs' (push_chunk v (css i))"
      "changes (set (bss i)) hp (set bs') hp'" "set bs' \<inter> dom hp \<subseteq> set (bss i)"
      "set bs' \<subseteq> insert (fst (new hp)) (set (bss i))" by blast
    have "dom hp' \<subseteq> insert (fst (new hp)) (dom hp)" using d [of i] p(5) by (intro changes_dom [OF p(3)]) blast
    have "owners_rep hp' (sts(i := st')) (bss(i := bs')) (css(i := push_chunk v (css i)))"
      by (rule owners_rep_change [OF rep, where I = "{i}"]) (use p in auto)
    with that p(1) spec PushObject \<open>dom hp' \<subseteq> _\<close> show ?thesis by (simp add: mark_op_step_def spec_step_def)
  next
    case (PopObject i)
    with spec have ne: "css i \<noteq> []" and css': "css' = css(i := pop_chunk (css i))"
      by (auto simp: spec_step_def split: if_splits)
    from MarkStackPopBack_rep [OF owners_rep_stack [OF rep] ne] obtain st' hp' bs' where
      p: "MarkStackPopBack (sts i) hp = Inr (st', hp')" "stack_rep hp' st' bs' (pop_chunk (css i))"
      "changes (set (bss i)) hp (set bs') hp'" "set bs' \<subseteq> set (bss i)" by blast
    have "dom hp' \<subseteq> insert (fst (new hp)) (dom hp)" using d [of i] p(4) by (intro changes_dom [OF p(3)]) blast
    have "owners_rep hp' (sts(i := st')) (bss(i := bs')) css'"
      unfolding css' by (rule owners_rep_change [OF rep, where I = "{i}"]) (use p in auto)
    with that p(1) PopObject \<open>dom hp' \<subseteq> _\<close> show ?thesis by (simp add: mark_op_step_def)
  next
    case (InsertAll i j)
    with spec have ne: "i \<noteq> j" and css': "css' = css(i := css i @ css j, j := [])"
      by (auto simp: spec_step_def split: if_splits)
    have "set (bss i) \<inter> set (bss j) = {}" using rep ne by (simp add: owners_rep_def)
    from MarkStackInsert_rep [OF owners_rep_stack [OF rep] owners_rep_stack [OF rep] this] obtain st' hp' where
      p: "MarkStackInsert (sts i) (sts j) hp = Inr (st', MarkStackConstruct, hp')"
      "stack_rep hp' st' (bss i @ bss j) (css i @ css j)"
      "changes (set (bss i) \<union> set (bss j)) hp (set (bss i) \<union> set (bss j)) hp'" by blast
    have "dom hp' \<subseteq> insert (fst (new hp)) (dom hp)" using d [of i] d [of j] by (intro changes_dom [OF p(3)]) blast
    have "owners_rep hp' (sts(i := st', j := MarkStackConstruct)) (bss(i := bss i @ bss j, j := [])) css'"
      unfolding css'
      by (rule owners_rep_change [OF rep, where I = "{i, j}"]) (use p ne stack_rep_Construct in auto)
    with that p(1) InsertAll \<open>dom hp' \<subseteq> _\<close> show ?thesis by (simp add: mark_op_step_def)
  next
    case (TakeBuffers i j n)
    with spec have ne: "i \<noteq> j" and e: "css j = []"
      and css': "css' = css(i := drop (unat n) (css i), j := take (unat n) (css i))"
      by (auto simp: spec_step_def split: if_splits)
    have bj: "bss j = []" using stack_rep_Nil [OF owners_rep_stack [OF rep]] e by blast
    let ?xs = "take (unat n) (bss i)" and ?ys = "drop (unat n) (bss i)"
    from MarkStackSplit_rep [OF owners_rep_stack [OF rep]] obtain st hp' where
      p: "MarkStackSplit (sts i) n hp = Inr (hd (?xs @ [0]), st, hp')" "bufs.linked hp' ?xs"
      "list_all2 (\<lambda>b. chunk (buf_rest hp' b)) ?xs (take (unat n) (css i))"
      "stack_rep hp' st ?ys (drop (unat n) (css i))" "changes (set (bss i)) hp (set (bss i)) hp'" by blast
    have "dom hp' \<subseteq> insert (fst (new hp)) (dom hp)" using d [of i] by (intro changes_dom [OF p(5)]) blast
    from MarkStackConstructFromBuffer_rep [OF p(2,3)] obtain st2 where
      q: "MarkStackConstructFromBuffer (hd (?xs @ [0])) hp' = Some (Inr st2)"
      "stack_rep hp' st2 ?xs (take (unat n) (css i))" by blast
    have un: "set ?xs \<union> set ?ys = set (bss i)" by (metis append_take_drop_id set_append)
    have "distinct (?xs @ ?ys)"
      using owners_rep_stack [OF rep] by (simp add: stack_rep_def bufs.linked_def)
    then have dis: "set ?xs \<inter> set ?ys = {}" by (simp only: distinct_append)
    have "owners_rep hp' (sts(i := st, j := st2)) (bss(i := ?ys, j := ?xs)) css'"
      unfolding css' using ne bj un dis p(4,5) q(2)
      by (intro owners_rep_change [OF rep, where I = "{i, j}"]) (auto simp: Un_commute)
    with that p(1) q(1) TakeBuffers \<open>dom hp' \<subseteq> _\<close> show ?thesis by (simp add: mark_op_step_def)
  qed
qed

lemma mark_run_refines:
  assumes "owners_rep hp sts bss css" and "spec_run ops css = Some css'"
    and "\<And>hp. card (dom hp) < k \<Longrightarrow> allocates new hp" and "card (dom hp) + length ops \<le> k"
  shows "\<exists>sts' hp' bss'. mark_run new ops sts hp = Some (Inr (sts', hp')) \<and> owners_rep hp' sts' bss' css'"
  using assms
proof (induction ops arbitrary: hp sts bss css)
  case (Cons x ops)
  then obtain css1 where s: "spec_step x css = Some css1" "spec_run ops css1 = Some css'"
    by (auto split: option.splits)
  have new: "allocates new hp" using Cons.prems(4) by (intro Cons.prems(3)) simp
  from mark_op_step_refines [OF Cons.prems(1) s(1) new] obtain sts1 hp1 bss1 where
    r: "mark_op_step new x sts hp = Some (Inr (sts1, hp1))" "owners_rep hp1 sts1 bss1 css1"
    "dom hp1 \<subseteq> insert (fst (new hp)) (dom hp)" by blast
  have "card (dom hp1) \<le> card (insert (fst (new hp)) (dom hp))" using r(3) by (intro card_mono) simp_all
  also have "\<dots> \<le> Suc (card (dom hp))" by (simp add: card_insert_if)
  finally have "card (dom hp1) + length ops \<le> k" using Cons.prems(4) by simp
  from Cons.IH [OF r(2) s(2) Cons.prems(3) this] r(1) show ?case by simp
qed auto

text \<open>
  C10. However owners push and pop objects, add each other's stacks and take each other's buffers, every
  call returns, reads and writes only buffers that are allocated, and leaves the stacks with the
  objects the lists have; no buffer is shared between owners, freed twice or leaked.
\<close>

theorem mark_stacks_refine_lists:
  assumes "spec_run ops (\<lambda>_. []) = Some css" and "\<And>hp. card (dom hp) < length ops \<Longrightarrow> allocates new hp"
  shows "\<exists>sts hp bss. mark_run new ops (\<lambda>_. MarkStackConstruct) Map.empty = Some (Inr (sts, hp)) \<and>
    owners_rep hp sts bss css \<and>
    (\<forall>i. MarkStackBack (sts i) hp = Inr (if css i = [] then 0 else last (concat (css i))))"
proof -
  have "card (dom (Map.empty :: mark_heap)) + length ops \<le> length ops" by simp
  from mark_run_refines [OF owners_rep_start assms this] obtain sts hp bss where
    r: "mark_run new ops (\<lambda>_. MarkStackConstruct) Map.empty = Some (Inr (sts, hp))" "owners_rep hp sts bss css"
    by blast
  have "MarkStackBack (sts i) hp = Inr (if css i = [] then 0 else last (concat (css i)))" for i
    by (rule MarkStackBack_rep [OF owners_rep_stack [OF r(2)]])
  with r show ?thesis by blast
qed

text \<open>
  C40. Clearing a stack that is not empty reads the link of the null pointer, and it returns only
  from an empty one.
\<close>

theorem MarkStackClear_nonempty_out_of_bounds:
  assumes "owners_rep hp sts bss css"
  shows "MarkStackClear (sts i) hp = (if css i = [] then Some (Inr (sts i, hp)) else Some (Inl OutOfBounds))"
proof -
  note rep = owners_rep_stack [OF assms, of i]
  show ?thesis
  proof (cases "css i = []")
    case True
    with rep have "MarkStackEmpty (sts i)" "stack_t (sts i) = 0"
      using stack_rep_empty [OF rep] stack_rep_Nil [OF rep] by (simp_all add: stack_rep_def)
    then show ?thesis using True by (simp add: MarkStackClear_def clear_walk.simps)
  next
    case False
    then have ne: "bss i \<noteq> []" using stack_rep_Nil [OF rep] by simp
    have l: "bufs.linked hp (bss i)" "stack_h (sts i) = hd (bss i @ [0])" using rep by (simp_all add: stack_rep_def)
    have "stack_t (sts i) \<noteq> 0" using stack_rep_hd_last(2,5) [OF rep ne] by (auto dest: is_bufD)
    from clear_walk_out_of_bounds [OF l(1) owners_rep_null [OF assms] l(2) this] False show ?thesis
      by (simp add: MarkStackClear_def)
  qed
qed

section \<open>Witnesses\<close>

definition demo_new :: op_new where
  "demo_new hp = (if hp 4096 = None then 4096 else if hp 8192 = None then 8192 else 12288,
    \<lparr>buf_next = 7, buf_pre = 7, buf_count = 7, buf_stack = replicate 64 7\<rparr>)"

lemma demo_new_allocates:
  assumes "card (dom hp) < 3"
  shows "allocates demo_new hp"
proof (rule ccontr)
  assume "\<not> ?thesis"
  then have "{4096, 8192, 12288} \<subseteq> dom hp" by (auto simp: allocates_def demo_new_def split: if_splits)
  then have "card {4096, 8192, 12288 :: addr} \<le> card (dom hp)" by (intro card_mono) simp_all
  with assms show False by simp
qed

lemmas demo_specs = spec_step_def push_chunk_def pop_chunk_def fun_upd_def

theorem mark_stacks_refine_lists_witness:
  "\<exists>sts hp bss. mark_run demo_new [PushObject 0 16, PushObject 1 32, InsertAll 0 1] (\<lambda>_. MarkStackConstruct)
      Map.empty = Some (Inr (sts, hp)) \<and> owners_rep hp sts bss ((\<lambda>_. [])(0 := [[16], [32]])) \<and>
    (\<forall>i. MarkStackBack (sts i) hp = Inr (if i = 0 then 32 else 0))"
proof -
  have s: "spec_run [PushObject 0 16, PushObject 1 32, InsertAll 0 1] (\<lambda>_. []) = Some ((\<lambda>_. [])(0 := [[16], [32]]))"
    by (simp add: spec_step_def push_chunk_def fun_eq_iff)
  from mark_stacks_refine_lists [OF s, of demo_new] demo_new_allocates show ?thesis
    by (simp add: fun_upd_def if_distrib cong: if_cong)
qed

theorem MarkStackClear_nonempty_out_of_bounds_witness:
  "\<exists>sts hp bss. MarkStackClear (sts 0) hp = Some (Inl OutOfBounds) \<and>
    mark_run demo_new [PushObject 0 16] (\<lambda>_. MarkStackConstruct) Map.empty = Some (Inr (sts, hp))"
proof -
  have s: "spec_run [PushObject 0 16] (\<lambda>_. []) = Some ((\<lambda>_. [])(0 := [[16]]))"
    by (simp add: spec_step_def push_chunk_def)
  have "card (dom (Map.empty :: mark_heap)) + length [PushObject 0 16] \<le> 3" by simp
  from mark_run_refines [OF owners_rep_start s demo_new_allocates this] obtain sts hp bss where
    r: "mark_run demo_new [PushObject 0 16] (\<lambda>_. MarkStackConstruct) Map.empty = Some (Inr (sts, hp))"
    "owners_rep hp sts bss ((\<lambda>_. [])(0 := [[16]]))" by blast
  from MarkStackClear_nonempty_out_of_bounds [OF r(2), of 0] r(1) show ?thesis by auto
qed

end
