(* ===== verification/RegionTable.thy ===== *)
theory RegionTable
  imports Prelude
begin

text \<open>
  The region table, \<^verbatim>\<open>rt.heap.allocator/RegionInfo.cj\<close>: a record of 88 bytes for every unit of 4096
  bytes of the heap. The records lie below the start of the heap in reverse order, so that the index
  of a unit and the address of its record give each other. A region is some consecutive units; the
  record of the first describes it, the others point to that one. The table is a store of records by
  address; an access elsewhere, the null pointer included, is \<open>OutOfBounds\<close>. \<open>RtFatal\<close>
  and \<open>abort\<close> are \<open>Abort\<close>. Left out are the fields of the collector's second
  generation of records (\<open>liveInfo0\<close>, \<open>regionEnd0\<close>, \<open>routeInfo\<close>, \<open>nextRegionIdx0\<close>, \<open>routeState\<close>,
  \<open>rwLock\<close>), which what is modelled does not touch, and the many operations whose body only reports
  that they are not ported yet.
\<close>

section \<open>Bit fields\<close>

text \<open>
  \<open>BitField\<close>: some bits of a field, at a position. Positions and lengths are constants below 64. The
  value read is not shifted back. \<open>SetAtomicValue\<close> repeats a strong compare-and-swap, which succeeds at
  once when nobody else writes the field.
\<close>

definition bitMask :: "nat \<Rightarrow> nat \<Rightarrow> u64" where
  "bitMask pos bitLen = push_bit pos (push_bit bitLen 1 - 1)"

definition SetAtomicValuePart2 :: "u64 \<Rightarrow> nat \<Rightarrow> nat \<Rightarrow> u64 \<Rightarrow> u64 \<Rightarrow> u64" where
  "SetAtomicValuePart2 oldValue pos bitLen newValue widthMask =
    (let unchangedBitMask = widthMask XOR bitMask pos bitLen;
         changedBits = push_bit pos newValue AND bitMask pos bitLen;
         unchangedBits = oldValue AND unchangedBitMask
     in changedBits OR unchangedBits)"

definition GetAtomicValueU8 :: "u8 \<Rightarrow> nat \<Rightarrow> nat \<Rightarrow> u8" where
  "GetAtomicValueU8 v pos bitLen = v AND ucast (bitMask pos bitLen)"

definition SetAtomicValueU8 :: "nat \<Rightarrow> nat \<Rightarrow> u8 \<Rightarrow> u8 \<Rightarrow> u8" where
  "SetAtomicValueU8 pos bitLen newValue v =
    ucast (SetAtomicValuePart2 (ucast v) pos bitLen (ucast newValue) 0xff)"

definition GetAtomicValueU16 :: "u16 \<Rightarrow> nat \<Rightarrow> nat \<Rightarrow> u16" where
  "GetAtomicValueU16 v pos bitLen = v AND ucast (bitMask pos bitLen)"

definition SetAtomicValueU16 :: "nat \<Rightarrow> nat \<Rightarrow> u16 \<Rightarrow> u16 \<Rightarrow> u16" where
  "SetAtomicValueU16 pos bitLen newValue v =
    ucast (SetAtomicValuePart2 (ucast v) pos bitLen (ucast newValue) 0xffff)"

lemma bit_bitMask: "bit (bitMask pos bitLen) i \<longleftrightarrow> pos \<le> i \<and> i < pos + bitLen \<and> i < 64"
proof -
  have "push_bit bitLen 1 - 1 = (mask bitLen :: u64)" by (simp add: mask_eq_exp_minus_1)
  then show ?thesis by (auto simp: bitMask_def bit_push_bit_iff bit_mask_iff)
qed

lemma bit_SetAtomicValuePart2:
  "bit (SetAtomicValuePart2 old pos bitLen new w) i \<longleftrightarrow>
    (if pos \<le> i \<and> i < pos + bitLen then i < 64 \<and> (bit new (i - pos) \<or> bit old i \<and> \<not> bit w i)
     else bit old i \<and> bit w i)"
  by (auto simp: SetAtomicValuePart2_def Let_def bit_or_iff bit_and_iff bit_xor_iff bit_push_bit_iff bit_bitMask
      dest: bit_imp_le_length)

lemma bit_SetAtomicValueU16:
  "bit (SetAtomicValueU16 pos bitLen new v) i \<longleftrightarrow>
    i < 16 \<and> (if pos \<le> i \<and> i < pos + bitLen then bit new (i - pos) else bit v i)"
proof -
  have "bit (0xffff :: u64) i \<longleftrightarrow> i < 16" using bit_mask_iff [of 16 i, where 'a = u64]
    by (auto simp: mask_eq_exp_minus_1)
  then show ?thesis
    by (auto simp: SetAtomicValueU16_def bit_ucast_iff bit_SetAtomicValuePart2 dest: bit_imp_le_length)
qed

lemma bit_SetAtomicValueU8:
  "bit (SetAtomicValueU8 pos bitLen new v) i \<longleftrightarrow>
    i < 8 \<and> (if pos \<le> i \<and> i < pos + bitLen then bit new (i - pos) else bit v i)"
proof -
  have "bit (0xff :: u64) i \<longleftrightarrow> i < 8" using bit_mask_iff [of 8 i, where 'a = u64]
    by (auto simp: mask_eq_exp_minus_1)
  then show ?thesis
    by (auto simp: SetAtomicValueU8_def bit_ucast_iff bit_SetAtomicValuePart2 dest: bit_imp_le_length)
qed

lemma bit_GetAtomicValueU16:
  "bit (GetAtomicValueU16 v pos bitLen) i \<longleftrightarrow> bit v i \<and> pos \<le> i \<and> i < pos + bitLen"
  by (auto simp: GetAtomicValueU16_def bit_and_iff bit_ucast_iff bit_bitMask dest: bit_imp_le_length)

lemma bit_GetAtomicValueU8:
  "bit (GetAtomicValueU8 v pos bitLen) i \<longleftrightarrow> bit v i \<and> pos \<le> i \<and> i < pos + bitLen"
  by (auto simp: GetAtomicValueU8_def bit_and_iff bit_ucast_iff bit_bitMask dest: bit_imp_le_length)

text \<open>A field of the lowest bits is read back; another field is as before.\<close>

lemma U16_get_set_low:
  assumes "take_bit n new = new"
  shows "GetAtomicValueU16 (SetAtomicValueU16 0 n new v) 0 n = new"
proof (rule bit_word_eqI)
  fix i assume "i < LENGTH(16)"
  moreover have "bit new i \<longleftrightarrow> i < n \<and> bit new i" by (subst assms [symmetric]) (simp add: bit_take_bit_iff)
  ultimately show "bit (GetAtomicValueU16 (SetAtomicValueU16 0 n new v) 0 n) i = bit new i"
    by (auto simp: bit_GetAtomicValueU16 bit_SetAtomicValueU16)
qed

lemma U16_get_set_apart:
  assumes "pos + n \<le> pos' \<or> pos' + n' \<le> pos"
  shows "GetAtomicValueU16 (SetAtomicValueU16 pos n new v) pos' n' = GetAtomicValueU16 v pos' n'"
  by (rule bit_word_eqI) (use assms in \<open>auto simp: bit_GetAtomicValueU16 bit_SetAtomicValueU16\<close>)

lemma U8_get_set_low:
  assumes "take_bit n new = new"
  shows "GetAtomicValueU8 (SetAtomicValueU8 0 n new v) 0 n = new"
proof (rule bit_word_eqI)
  fix i assume "i < LENGTH(8)"
  moreover have "bit new i \<longleftrightarrow> i < n \<and> bit new i" by (subst assms [symmetric]) (simp add: bit_take_bit_iff)
  ultimately show "bit (GetAtomicValueU8 (SetAtomicValueU8 0 n new v) 0 n) i = bit new i"
    by (auto simp: bit_GetAtomicValueU8 bit_SetAtomicValueU8)
qed

section \<open>Records and their addresses\<close>

text \<open>Roles of units and types of regions, as the source numbers them.\<close>

definition FREE_UNITS :: u8 where "FREE_UNITS = 0"
definition SMALL_SIZED_UNITS :: u8 where "SMALL_SIZED_UNITS = 1"
definition LARGE_SIZED_UNITS :: u8 where "LARGE_SIZED_UNITS = 2"
definition SUBORDINATE_UNIT :: u8 where "SUBORDINATE_UNIT = 3"

definition FREE_REGION :: u8 where "FREE_REGION = 0"
definition GARBAGE_REGION :: u8 where "GARBAGE_REGION = 14"

definition BIT_LENGTH :: nat where "BIT_LENGTH = 4"
definition REGION_TYPE_FLAG :: nat where "REGION_TYPE_FLAG = 0"
definition TRACE_REGION_FLAG :: nat where "TRACE_REGION_FLAG = BIT_LENGTH"
definition MARKED_REGION_FLAG :: nat where "MARKED_REGION_FLAG = 6"
definition ENQUEUED_REGION_FLAG :: nat where "ENQUEUED_REGION_FLAG = 7"
definition RESURRECTED_REGION_FLAG :: nat where "RESURRECTED_REGION_FLAG = 8"

text \<open>\<open>sizeOf<UnitInfo>()\<close>.\<close>

definition UNIT_INFO_SIZE :: u64 where
  "UNIT_INFO_SIZE = 88"

definition INVALID_IDX :: u32 where
  "INVALID_IDX = 0xffffffff"

record unit_metadata =
  allocPtr :: addr
  regionEnd :: addr
  nextRegionIdx :: u32
  prevRegionIdx :: u32
  liveByteCount :: u32
  rawPointerObjectCount :: u32
  liveInfo :: addr
  unitRoleBitField :: u8
  regionStateBitField :: u16

record region_table =
  heapStartAddress :: addr
  totalUnitCount :: u64
  units :: "addr \<Rightarrow> unit_metadata option"

definition RegionInfo_Initialize :: "u64 \<Rightarrow> addr \<Rightarrow> region_table \<Rightarrow> region_table" where
  "RegionInfo_Initialize nUnit heapAddress T = T\<lparr>totalUnitCount := nUnit, heapStartAddress := heapAddress\<rparr>"

definition GetUnitIdxAt :: "region_table \<Rightarrow> addr \<Rightarrow> u64 res" where
  "GetUnitIdxAt T allocAddr =
    (if heapStartAddress T \<le> allocAddr \<and> allocAddr < heapStartAddress T + totalUnitCount T * UNIT_SIZE
     then Inr ((allocAddr - heapStartAddress T) div 4096) else Inl Abort)"

definition GetUnitAddress :: "region_table \<Rightarrow> u64 \<Rightarrow> addr res" where
  "GetUnitAddress T idx = (if idx \<ge> totalUnitCount T then Inl Abort else Inr (heapStartAddress T + idx * UNIT_SIZE))"

definition GetUnitInfo :: "region_table \<Rightarrow> u64 \<Rightarrow> addr res" where
  "GetUnitInfo T idx =
    (if idx \<ge> totalUnitCount T then Inl Abort else Inr (heapStartAddress T - (idx + 1) * UNIT_INFO_SIZE))"

definition GetUnitInfoAt :: "region_table \<Rightarrow> addr \<Rightarrow> addr res" where
  "GetUnitInfoAt T allocAddr = and_then (GetUnitIdxAt T allocAddr) (GetUnitInfo T)"

definition GetUnitIdx :: "region_table \<Rightarrow> addr \<Rightarrow> u64 res" where
  "GetUnitIdx T p =
    (if p < heapStartAddress T then Inr ((heapStartAddress T - p) div UNIT_INFO_SIZE - 1) else Inl Abort)"

definition read_unit :: "addr \<Rightarrow> region_table \<Rightarrow> unit_metadata res" where
  "read_unit p T = (case units T p of None \<Rightarrow> Inl OutOfBounds | Some m \<Rightarrow> Inr m)"

definition write_unit :: "addr \<Rightarrow> (unit_metadata \<Rightarrow> unit_metadata) \<Rightarrow> region_table \<Rightarrow> region_table res" where
  "write_unit p f T = (case units T p of None \<Rightarrow> Inl OutOfBounds | Some m \<Rightarrow> Inr (T\<lparr>units := (units T)(p \<mapsto> f m)\<rparr>))"

section \<open>Operations on a record\<close>

definition SetUnitRole :: "addr \<Rightarrow> u8 \<Rightarrow> region_table \<Rightarrow> region_table res" where
  "SetUnitRole p role = write_unit p
    (\<lambda>m. m\<lparr>unitRoleBitField := SetAtomicValueU8 0 BIT_LENGTH role (unitRoleBitField m)\<rparr>)"

definition set_state :: "nat \<Rightarrow> nat \<Rightarrow> u8 \<Rightarrow> addr \<Rightarrow> region_table \<Rightarrow> region_table res" where
  "set_state pos bitLen v p = write_unit p
    (\<lambda>m. m\<lparr>regionStateBitField := SetAtomicValueU16 pos bitLen (ucast v) (regionStateBitField m)\<rparr>)"

definition SetRegionType :: "addr \<Rightarrow> u8 \<Rightarrow> region_table \<Rightarrow> region_table res" where
  "SetRegionType p regionType = set_state REGION_TYPE_FLAG BIT_LENGTH regionType p"

definition SetTraceRegionFlag :: "addr \<Rightarrow> u8 \<Rightarrow> region_table \<Rightarrow> region_table res" where
  "SetTraceRegionFlag p flag = set_state TRACE_REGION_FLAG 1 flag p"

definition SetMarkedRegionFlag :: "addr \<Rightarrow> u8 \<Rightarrow> region_table \<Rightarrow> region_table res" where
  "SetMarkedRegionFlag p flag = set_state MARKED_REGION_FLAG 1 flag p"

definition SetEnqueuedRegionFlag :: "addr \<Rightarrow> u8 \<Rightarrow> region_table \<Rightarrow> region_table res" where
  "SetEnqueuedRegionFlag p flag = set_state ENQUEUED_REGION_FLAG 1 flag p"

definition SetResurrectedRegionFlag :: "addr \<Rightarrow> u8 \<Rightarrow> region_table \<Rightarrow> region_table res" where
  "SetResurrectedRegionFlag p flag = set_state RESURRECTED_REGION_FLAG 1 flag p"

definition GetRegionType :: "addr \<Rightarrow> region_table \<Rightarrow> u8 res" where
  "GetRegionType p T = and_then (read_unit p T)
    (\<lambda>m. Inr (ucast (GetAtomicValueU16 (regionStateBitField m) REGION_TYPE_FLAG BIT_LENGTH)))"

definition GetUnitRole :: "addr \<Rightarrow> region_table \<Rightarrow> u8 res" where
  "GetUnitRole p T = and_then (read_unit p T) (\<lambda>m. Inr (GetAtomicValueU8 (unitRoleBitField m) 0 BIT_LENGTH))"

definition IsTraceRegion :: "addr \<Rightarrow> region_table \<Rightarrow> bool res" where
  "IsTraceRegion p T = and_then (read_unit p T)
    (\<lambda>m. Inr (regionStateBitField m AND push_bit TRACE_REGION_FLAG 1 \<noteq> 0))"

definition IsSmallRegion :: "addr \<Rightarrow> region_table \<Rightarrow> bool res" where
  "IsSmallRegion p T = and_then (GetUnitRole p T) (\<lambda>role. Inr (role = SMALL_SIZED_UNITS))"

definition IsLargeRegion :: "addr \<Rightarrow> region_table \<Rightarrow> bool res" where
  "IsLargeRegion p T = and_then (GetUnitRole p T) (\<lambda>role. Inr (role = LARGE_SIZED_UNITS))"

definition IsFreeRegion :: "addr \<Rightarrow> region_table \<Rightarrow> bool res" where
  "IsFreeRegion p T = and_then (GetUnitRole p T) (\<lambda>role. Inr (role = FREE_UNITS))"

definition GetRegionStart :: "addr \<Rightarrow> region_table \<Rightarrow> addr res" where
  "GetRegionStart p T =
    (if p \<ge> heapStartAddress T then Inl Abort
     else let idx = (heapStartAddress T - p) div 88 - 1
       in if idx \<ge> totalUnitCount T then Inl Abort else Inr (idx * UNIT_SIZE + heapStartAddress T))"

definition GetRegionSize :: "addr \<Rightarrow> region_table \<Rightarrow> u64 res" where
  "GetRegionSize p T = and_then (GetRegionStart p T) (\<lambda>regionStart. and_then (read_unit p T) (\<lambda>m.
    if regionEnd m \<le> regionStart then Inl Abort else Inr (regionEnd m - regionStart)))"

definition GetUnitCount :: "addr \<Rightarrow> region_table \<Rightarrow> u64 res" where
  "GetUnitCount p T = and_then (GetRegionSize p T) (\<lambda>sz. Inr (sz div UNIT_SIZE))"

definition GetRegionAllocPtr :: "addr \<Rightarrow> region_table \<Rightarrow> addr res" where
  "GetRegionAllocPtr p T = and_then (read_unit p T) (\<lambda>m. Inr (allocPtr m))"

text \<open>Bump allocation: the address of the new object, 0 when the region is full.\<close>

definition RegionInfo_Alloc :: "addr \<Rightarrow> u64 \<Rightarrow> region_table \<Rightarrow> (addr \<times> region_table) res" where
  "RegionInfo_Alloc p sz T = and_then (read_unit p T) (\<lambda>m.
    let nxt = allocPtr m + sz
    in if nxt \<le> regionEnd m then and_then (write_unit p (\<lambda>m. m\<lparr>allocPtr := nxt\<rparr>) T) (\<lambda>T. Inr (allocPtr m, T))
       else Inr (0, T))"

definition RegionInfo_IsEmpty :: "addr \<Rightarrow> region_table \<Rightarrow> bool res" where
  "RegionInfo_IsEmpty p T = and_then (IsSmallRegion p T) (\<lambda>small.
    if \<not> small then Inl Abort
    else and_then (GetRegionAllocPtr p T) (\<lambda>a. and_then (GetRegionStart p T) (\<lambda>s. Inr (a = s))))"

definition GetAddressOffset :: "addr \<Rightarrow> addr \<Rightarrow> region_table \<Rightarrow> u64 res" where
  "GetAddressOffset p a T = and_then (GetRegionStart p T) (\<lambda>s. Inr (a - s))"

definition CheckAndClearLiveInfo :: "addr \<Rightarrow> addr \<Rightarrow> region_table \<Rightarrow> region_table res" where
  "CheckAndClearLiveInfo p info T = and_then (GetRegionType p T) (\<lambda>ty.
    if ty = GARBAGE_REGION then Inr T
    else and_then (read_unit p T) (\<lambda>m.
      if liveInfo m = info then write_unit p (\<lambda>m. m\<lparr>liveInfo := 0, liveByteCount := 0\<rparr>) T else Inr T))"

section \<open>Making regions\<close>

definition InitSubordinateUnit :: "addr \<Rightarrow> addr \<Rightarrow> region_table \<Rightarrow> region_table res" where
  "InitSubordinateUnit u owner T =
    and_then (SetUnitRole u SUBORDINATE_UNIT T) (write_unit u (\<lambda>m. m\<lparr>liveInfo := owner\<rparr>))"

definition InitRegionInfo :: "addr \<Rightarrow> u64 \<Rightarrow> u8 \<Rightarrow> region_table \<Rightarrow> region_table res" where
  "InitRegionInfo p nUnit uClass T = and_then (GetRegionStart p T) (\<lambda>start.
    and_then (write_unit p (\<lambda>m. m\<lparr>allocPtr := start, regionEnd := start + nUnit * UNIT_SIZE,
      prevRegionIdx := INVALID_IDX, nextRegionIdx := INVALID_IDX, liveByteCount := 0, liveInfo := 0\<rparr>) T) (\<lambda>T.
    and_then (SetRegionType p FREE_REGION T) (\<lambda>T.
    and_then (SetUnitRole p uClass T) (\<lambda>T.
    and_then (SetTraceRegionFlag p 0 T) (\<lambda>T.
    and_then (SetMarkedRegionFlag p 0 T) (\<lambda>T.
    and_then (SetEnqueuedRegionFlag p 0 T) (\<lambda>T.
    and_then (SetResurrectedRegionFlag p 0 T)
      (write_unit p (\<lambda>m. m\<lparr>rawPointerObjectCount := 0\<rparr>)))))))))"

record unit_info_array =
  unitArray :: addr
  array_size :: u64

definition UnitInfoArray :: "addr \<Rightarrow> u64 \<Rightarrow> unit_info_array" where
  "UnitInfoArray u n = \<lparr>unitArray = u - (n - 1) * UNIT_INFO_SIZE, array_size = n\<rparr>"

definition array_at :: "unit_info_array \<Rightarrow> u64 \<Rightarrow> addr res" where
  "array_at A index = (if index \<ge> array_size A then Inl Abort
    else Inr (unitArray A + (array_size A - index - 1) * UNIT_INFO_SIZE))"

fun init_subordinates :: "unit_info_array \<Rightarrow> addr \<Rightarrow> nat list \<Rightarrow> region_table \<Rightarrow> region_table res" where
  "init_subordinates A owner [] T = Inr T"
| "init_subordinates A owner (i # is) T = and_then (array_at A (of_nat i)) (\<lambda>u.
    and_then (InitSubordinateUnit u owner T) (init_subordinates A owner is))"

definition RegionInfo_InitRegion :: "addr \<Rightarrow> u64 \<Rightarrow> u8 \<Rightarrow> region_table \<Rightarrow> region_table res" where
  "RegionInfo_InitRegion p nUnit uClass T = and_then (InitRegionInfo p nUnit uClass T)
    (init_subordinates (UnitInfoArray p nUnit) p [1..<unat nUnit])"

text \<open>The static entry points, by the index of the first unit and by an address in it.\<close>

definition InitFreeRegion_at :: "u64 \<Rightarrow> u64 \<Rightarrow> region_table \<Rightarrow> region_table res" where
  "InitFreeRegion_at unitIdx nUnit T = and_then (GetUnitInfo T unitIdx) (\<lambda>p. InitRegionInfo p nUnit FREE_UNITS T)"

definition InitRegion_at :: "u64 \<Rightarrow> u64 \<Rightarrow> u8 \<Rightarrow> region_table \<Rightarrow> (addr \<times> region_table) res" where
  "InitRegion_at unitIdx nUnit uclass T = and_then (GetUnitInfo T unitIdx) (\<lambda>p.
    and_then (RegionInfo_InitRegion p nUnit uclass T) (\<lambda>T. Inr (p, T)))"

definition InitRegionAt :: "addr \<Rightarrow> u64 \<Rightarrow> u8 \<Rightarrow> region_table \<Rightarrow> (addr \<times> region_table) res" where
  "InitRegionAt a nUnit uclass T = and_then (GetUnitIdxAt T a) (\<lambda>idx. InitRegion_at idx nUnit uclass T)"

text \<open>The region a unit belongs to.\<close>

definition region_of :: "addr \<Rightarrow> region_table \<Rightarrow> addr res" where
  "region_of u T = and_then (read_unit u T) (\<lambda>m.
    Inr (if unitRoleBitField m AND 0x0f = SUBORDINATE_UNIT then liveInfo m else u))"

definition GetRegionInfo :: "u32 \<Rightarrow> region_table \<Rightarrow> addr res" where
  "GetRegionInfo idx T = and_then (GetUnitInfo T (ucast idx)) (\<lambda>u. region_of u T)"

definition GetRegionInfoAt :: "addr \<Rightarrow> region_table \<Rightarrow> addr res" where
  "GetRegionInfoAt a T = and_then (GetUnitInfoAt T a) (\<lambda>u. region_of u T)"

section \<open>Indices and addresses give each other\<close>

text \<open>
  The table is mapped: a record for every unit, the records below the heap and the heap itself within
  the address space. Units are counted in 32 bits, with one value left for \<open>INVALID_IDX\<close>.
\<close>

definition unit_at :: "region_table \<Rightarrow> nat \<Rightarrow> addr" where
  "unit_at T i = heapStartAddress T - (of_nat i + 1) * UNIT_INFO_SIZE"

definition table_ok :: "region_table \<Rightarrow> bool" where
  "table_ok T \<longleftrightarrow> unat (totalUnitCount T) < 2 ^ 32 \<and> 88 * unat (totalUnitCount T) < unat (heapStartAddress T) \<and>
    unat (heapStartAddress T) + 4096 * unat (totalUnitCount T) < 2 ^ 64 \<and>
    (\<forall>i<unat (totalUnitCount T). units T (unit_at T i) \<noteq> None)"

definition unit_ok :: "region_table \<Rightarrow> nat \<Rightarrow> bool" where
  "unit_ok T i \<longleftrightarrow> table_ok T \<and> i < unat (totalUnitCount T)"

lemma unat_unit_at:
  assumes "unit_ok T i"
  shows "unat (unit_at T i) = unat (heapStartAddress T) - 88 * Suc i"
proof -
  have i: "i < 2 ^ 32" "88 * Suc i \<le> unat (heapStartAddress T)" using assms by (auto simp: unit_ok_def table_ok_def)
  have "(of_nat i + 1) * UNIT_INFO_SIZE = of_nat (88 * Suc i)" by (simp add: UNIT_INFO_SIZE_def algebra_simps)
  moreover have "unat (of_nat (88 * Suc i) :: addr) = 88 * Suc i" using i(1) by (intro unat_of_nat_addr) simp
  ultimately show ?thesis using i(2) unfolding unit_at_def
    by (subst unat_sub) (simp_all only: word_le_nat_alt)
qed

lemma unit_at_below:
  assumes "unit_ok T i"
  shows "unit_at T i < heapStartAddress T" and "unat (heapStartAddress T - unit_at T i) = 88 * Suc i"
proof -
  have le: "88 * Suc i \<le> unat (heapStartAddress T)" using assms by (auto simp: unit_ok_def table_ok_def)
  with unat_unit_at [OF assms] show lt: "unit_at T i < heapStartAddress T" by (simp add: word_less_nat_alt)
  with unat_unit_at [OF assms] le show "unat (heapStartAddress T - unit_at T i) = 88 * Suc i"
    by (simp add: unat_sub less_imp_le)
qed

lemma unit_at_inj:
  assumes "unit_ok T i" and "unit_ok T j" and "unit_at T i = unit_at T j"
  shows "i = j"
proof -
  have "88 * Suc i = 88 * Suc j"
    using unit_at_below(2) [OF assms(1)] unit_at_below(2) [OF assms(2)] assms(3) by (simp only:)
  then show ?thesis by simp
qed

lemma unat_index: "unit_ok T i \<Longrightarrow> unat (of_nat i :: u64) = i"
  by (auto simp: unit_ok_def table_ok_def intro: unat_of_nat_addr)

lemma index_less: "unit_ok T i \<Longrightarrow> (of_nat i :: u64) < totalUnitCount T"
  by (simp add: word_less_nat_alt unat_index) (simp add: unit_ok_def)

lemma unit_index:
  assumes "unit_ok T i"
  shows "(heapStartAddress T - unit_at T i) div 88 - 1 = of_nat i"
proof -
  have "i < 2 ^ 32" using assms by (auto simp: unit_ok_def table_ok_def)
  then have "unat (of_nat (Suc i) :: u64) = Suc i" by (intro unat_of_nat_addr) simp
  then have "(heapStartAddress T - unit_at T i) div 88 = of_nat (Suc i)"
    using unit_at_below(2) [OF assms] by (simp add: word_unat_eq_iff unat_div)
  then show ?thesis by simp
qed

lemma unit_not_null: "unit_ok T i \<Longrightarrow> unit_at T i \<noteq> 0"
proof -
  assume i: "unit_ok T i"
  then have "88 * Suc i < unat (heapStartAddress T)" by (auto simp: unit_ok_def table_ok_def)
  with unat_unit_at [OF i] have "0 < unat (unit_at T i)" by simp
  then show "unit_at T i \<noteq> 0" by auto
qed

lemma unit_mapped: "unit_ok T i \<Longrightarrow> units T (unit_at T i) \<noteq> None"
  by (simp add: unit_ok_def table_ok_def)

lemma GetUnitInfo_unit: "unit_ok T i \<Longrightarrow> GetUnitInfo T (of_nat i) = Inr (unit_at T i)"
  using index_less [of T i] by (simp add: GetUnitInfo_def unit_at_def)

lemma GetUnitIdx_unit: "unit_ok T i \<Longrightarrow> GetUnitIdx T (unit_at T i) = Inr (of_nat i)"
  using unit_at_below(1) [of T i] unit_index [of T i] by (simp add: GetUnitIdx_def UNIT_INFO_SIZE_def)

lemma GetRegionStart_unit:
  "unit_ok T i \<Longrightarrow> GetRegionStart (unit_at T i) T = Inr (heapStartAddress T + of_nat i * UNIT_SIZE)"
  using unit_at_below(1) [of T i] unit_index [of T i] index_less [of T i]
  by (simp add: GetRegionStart_def Let_def add.commute not_le)

lemma GetUnitAddress_unit:
  "unit_ok T i \<Longrightarrow> GetUnitAddress T (of_nat i) = Inr (heapStartAddress T + of_nat i * UNIT_SIZE)"
  using index_less [of T i] by (simp add: GetUnitAddress_def)

text \<open>Every address of a unit, first byte or not.\<close>

lemma unat_unit_address:
  assumes "unit_ok T i" and "d < 4096"
  shows "unat (heapStartAddress T + of_nat (4096 * i + d)) = unat (heapStartAddress T) + 4096 * i + d"
proof -
  have "unat (heapStartAddress T) + (4096 * i + d) < 2 ^ 64"
    using assms by (auto simp: unit_ok_def table_ok_def)
  from unat_add_offset [OF this] show ?thesis by simp
qed

lemma GetUnitIdxAt_unit:
  assumes "unit_ok T i" and "d < 4096"
  shows "GetUnitIdxAt T (heapStartAddress T + of_nat (4096 * i + d)) = Inr (of_nat i)"
proof -
  let ?a = "heapStartAddress T + of_nat (4096 * i + d)"
  note a = unat_unit_address [OF assms]
  have t: "unat (heapStartAddress T) + 4096 * unat (totalUnitCount T) < 2 ^ 64" and i: "i < unat (totalUnitCount T)"
    using assms(1) by (simp_all add: unit_ok_def table_ok_def)
  have "totalUnitCount T * UNIT_SIZE = of_nat (4096 * unat (totalUnitCount T))" by (simp add: UNIT_SIZE_def)
  then have "unat (heapStartAddress T + totalUnitCount T * UNIT_SIZE) =
      unat (heapStartAddress T) + 4096 * unat (totalUnitCount T)"
    using unat_add_offset [OF t] by simp
  then have "heapStartAddress T \<le> ?a" "?a < heapStartAddress T + totalUnitCount T * UNIT_SIZE"
    using a i assms(2) by (simp_all add: word_le_nat_alt word_less_nat_alt del: of_nat_add of_nat_mult)
  moreover have "unat (of_nat (4096 * i + d) :: u64) = 4096 * i + d"
    using t i assms(2) by (intro unat_of_nat_addr) linarith
  then have "unat ((of_nat (4096 * i + d) :: u64) div 4096) = i"
    using assms(2) by (simp add: unat_div del: of_nat_add of_nat_mult)
  then have "(?a - heapStartAddress T) div 4096 = of_nat i"
    using unat_index [OF assms(1)] by (simp add: word_unat_eq_iff del: of_nat_add of_nat_mult)
  ultimately show ?thesis by (simp add: GetUnitIdxAt_def del: of_nat_add of_nat_mult)
qed

section \<open>What the writes do\<close>

text \<open>
  Writing a record leaves the frame of the table and the other records; \<open>rewrites\<close> says which record
  is written, and to what.
\<close>

definition with_unit :: "addr \<Rightarrow> unit_metadata \<Rightarrow> region_table \<Rightarrow> region_table" where
  "with_unit p m T = T\<lparr>units := (units T)(p \<mapsto> m)\<rparr>"

lemma with_unit_simps [simp]:
  "heapStartAddress (with_unit p m T) = heapStartAddress T"
  "totalUnitCount (with_unit p m T) = totalUnitCount T"
  "units (with_unit p m T) = (units T)(p \<mapsto> m)"
  "with_unit p m' (with_unit p m T) = with_unit p m' T"
  "unit_at (with_unit p m T) = unit_at T"
  by (simp_all add: with_unit_def unit_at_def fun_eq_iff)

lemma table_ok_with_unit [simp]: "table_ok T \<Longrightarrow> table_ok (with_unit p m T)"
  by (simp add: table_ok_def)

lemma unit_ok_with_unit [simp]: "unit_ok T i \<Longrightarrow> unit_ok (with_unit p m T) i"
  by (simp add: unit_ok_def)

lemma write_unit_at: "units T p = Some m \<Longrightarrow> write_unit p f T = Inr (with_unit p (f m) T)"
  by (simp add: write_unit_def with_unit_def)

lemma GetRegionStart_with_unit [simp]: "GetRegionStart p (with_unit q m T) = GetRegionStart p T"
  by (simp add: GetRegionStart_def Let_def)

lemmas setter_defs = SetRegionType_def SetTraceRegionFlag_def SetMarkedRegionFlag_def SetEnqueuedRegionFlag_def
  SetResurrectedRegionFlag_def SetUnitRole_def set_state_def

definition cleared_state :: "u16 \<Rightarrow> u16" where
  "cleared_state st = SetAtomicValueU16 RESURRECTED_REGION_FLAG 1 0 (SetAtomicValueU16 ENQUEUED_REGION_FLAG 1 0
    (SetAtomicValueU16 MARKED_REGION_FLAG 1 0 (SetAtomicValueU16 TRACE_REGION_FLAG 1 0
    (SetAtomicValueU16 REGION_TYPE_FLAG BIT_LENGTH (ucast FREE_REGION) st))))"

lemma InitRegionInfo_unit:
  assumes "unit_ok T i" and "units T (unit_at T i) = Some m"
  shows "InitRegionInfo (unit_at T i) n role T = Inr (with_unit (unit_at T i)
    (m\<lparr>allocPtr := heapStartAddress T + of_nat i * UNIT_SIZE,
      regionEnd := heapStartAddress T + of_nat i * UNIT_SIZE + n * UNIT_SIZE,
      prevRegionIdx := INVALID_IDX, nextRegionIdx := INVALID_IDX, liveByteCount := 0, liveInfo := 0,
      unitRoleBitField := SetAtomicValueU8 0 BIT_LENGTH role (unitRoleBitField m),
      regionStateBitField := cleared_state (regionStateBitField m), rawPointerObjectCount := 0\<rparr>) T)"
  using assms(2) by (simp add: InitRegionInfo_def GetRegionStart_unit [OF assms(1)] write_unit_at setter_defs
      cleared_state_def)

text \<open>The units of a region are \<open>first\<close> and the next ones: their records lie one below the other.\<close>

lemma array_at_unit:
  assumes "unit_ok T (i + j)" and "j < unat n"
  shows "array_at (UnitInfoArray (unit_at T i) n) (of_nat j) = Inr (unit_at T (i + j))"
proof -
  have "unat n < 2 ^ 64" using unsigned_less [of n] by simp
  with assms(2) have "unat (of_nat j :: u64) = j" by (intro unat_of_nat_addr) simp
  with assms(2) have "\<not> n \<le> of_nat j" by (simp add: word_le_nat_alt)
  then show ?thesis by (simp add: array_at_def UnitInfoArray_def unit_at_def algebra_simps)
qed

definition subordinate :: "addr \<Rightarrow> unit_metadata \<Rightarrow> bool" where
  "subordinate owner m \<longleftrightarrow> unitRoleBitField m AND 0x0f = SUBORDINATE_UNIT \<and> liveInfo m = owner"

lemma role_and_set: "role AND 0x0f = role \<Longrightarrow> SetAtomicValueU8 0 BIT_LENGTH role v AND 0x0f = role"
proof -
  assume "role AND 0x0f = role"
  then have "take_bit 4 role = role" by (simp add: take_bit_eq_mask mask_eq_exp_minus_1)
  from U8_get_set_low [OF this, of v] show ?thesis
    by (simp add: GetAtomicValueU8_def bitMask_def BIT_LENGTH_def push_bit_eq_mult)
qed

lemma InitSubordinateUnit_unit:
  assumes "unit_ok T k"
  obtains m where "InitSubordinateUnit (unit_at T k) owner T = Inr (with_unit (unit_at T k) m T)"
    and "subordinate owner m"
proof -
  from unit_mapped [OF assms] obtain m where m: "units T (unit_at T k) = Some m" by auto
  let ?m = "m\<lparr>unitRoleBitField := SetAtomicValueU8 0 BIT_LENGTH SUBORDINATE_UNIT (unitRoleBitField m), liveInfo := owner\<rparr>"
  have "InitSubordinateUnit (unit_at T k) owner T = Inr (with_unit (unit_at T k) ?m T)"
    using m by (simp add: InitSubordinateUnit_def setter_defs write_unit_at)
  moreover have "subordinate owner ?m"
    using role_and_set [of SUBORDINATE_UNIT "unitRoleBitField m"] by (simp add: subordinate_def SUBORDINATE_UNIT_def)
  ultimately show ?thesis by (rule that)
qed

lemma init_subordinates_marks:
  assumes "distinct js" and "\<And>j. j \<in> set js \<Longrightarrow> unit_ok T (i + j) \<and> j < unat n"
  shows "\<exists>T'. init_subordinates (UnitInfoArray (unit_at T i) n) owner js T = Inr T' \<and>
    heapStartAddress T' = heapStartAddress T \<and> totalUnitCount T' = totalUnitCount T \<and> table_ok T' = table_ok T \<and>
    (\<forall>j\<in>set js. \<exists>m. units T' (unit_at T (i + j)) = Some m \<and> subordinate owner m) \<and>
    (\<forall>u. u \<notin> (\<lambda>j. unit_at T (i + j)) ` set js \<longrightarrow> units T' u = units T u)"
  using assms
proof (induction js arbitrary: T)
  case (Cons j js)
  then have ok: "unit_ok T (i + j)" "j < unat n" by simp_all
  from InitSubordinateUnit_unit [OF ok(1)] obtain m where
    m: "InitSubordinateUnit (unit_at T (i + j)) owner T = Inr (with_unit (unit_at T (i + j)) m T)"
    "subordinate owner m" by blast
  let ?T = "with_unit (unit_at T (i + j)) m T"
  have "unit_ok ?T (i + k) \<and> k < unat n" if "k \<in> set js" for k using Cons.prems(2) [of k] that by simp
  from Cons.IH [OF _ this] Cons.prems(1) obtain T' where
    T': "init_subordinates (UnitInfoArray (unit_at T i) n) owner js ?T = Inr T'"
    "heapStartAddress T' = heapStartAddress T" "totalUnitCount T' = totalUnitCount T" "table_ok T' = table_ok ?T"
    "\<forall>k\<in>set js. \<exists>m. units T' (unit_at T (i + k)) = Some m \<and> subordinate owner m"
    "\<forall>u. u \<notin> (\<lambda>k. unit_at T (i + k)) ` set js \<longrightarrow> units T' u = units ?T u" by auto
  have "unit_at T (i + j) \<noteq> unit_at T (i + k)" if "k \<in> set js" for k
  proof
    assume "unit_at T (i + j) = unit_at T (i + k)"
    then have "i + j = i + k" using Cons.prems(2) [of k] that by (intro unit_at_inj [OF ok(1)]) simp_all
    with Cons.prems(1) that show False by simp
  qed
  then have "unit_at T (i + j) \<notin> (\<lambda>k. unit_at T (i + k)) ` set js" by blast
  with T'(5,6) m(2) have "\<forall>k\<in>set (j # js). \<exists>m. units T' (unit_at T (i + k)) = Some m \<and> subordinate owner m"
    by simp
  moreover have "table_ok T' = table_ok T" using T'(4) ok(1) by (simp add: unit_ok_def)
  ultimately show ?case using T' m(1) array_at_unit [OF ok] by simp
qed simp

section \<open>A region is found from every address in it\<close>

lemma region_address_split:
  fixes a h :: addr
  assumes "unat h + 4096 * i \<le> unat a" and "unat a < unat h + 4096 * (i + n)"
  obtains k d where "a = h + of_nat (4096 * (i + k) + d)" and "k < n" and "d < 4096"
proof -
  define e where "e = unat a - unat h - 4096 * i"
  have e: "unat a = unat h + 4096 * (i + e div 4096) + e mod 4096" using assms(1) by (simp add: e_def)
  have "e < n * 4096" using assms by (simp add: e_def distrib_left)
  then have "e div 4096 < n" by (rule less_mult_imp_div_less)
  moreover have "a = of_nat (unat h + (4096 * (i + e div 4096) + e mod 4096))"
    unfolding add.assoc [symmetric] e [symmetric] by simp
  then have "a = h + of_nat (4096 * (i + e div 4096) + e mod 4096)" by simp
  ultimately show ?thesis by (intro that [of "e div 4096" "e mod 4096"]) simp_all
qed

lemma region_size_units:
  fixes s :: addr and n :: u64
  assumes "unat s + 4096 * unat n < 2 ^ 64" and "1 \<le> n"
  shows "s < s + n * UNIT_SIZE" and "n * UNIT_SIZE div UNIT_SIZE = n"
proof -
  have n: "unat (n * UNIT_SIZE) = 4096 * unat n" using assms(1) by (simp add: UNIT_SIZE_def unat_word_ariths)
  then have "unat (s + n * UNIT_SIZE) = unat s + 4096 * unat n" using assms(1) by (simp add: unat_word_ariths)
  moreover have "0 < unat n" using assms(2) by (simp add: word_le_nat_alt)
  ultimately show "s < s + n * UNIT_SIZE" by (simp add: word_less_nat_alt)
  show "n * UNIT_SIZE div UNIT_SIZE = n" using n by (simp add: word_unat_eq_iff unat_div UNIT_SIZE_def)
qed

lemma unit_ok_same:
  "unit_ok T i \<Longrightarrow> table_ok T' \<Longrightarrow> totalUnitCount T' = totalUnitCount T \<Longrightarrow> unit_ok T' i"
  by (simp add: unit_ok_def)

lemma unit_at_same: "heapStartAddress T' = heapStartAddress T \<Longrightarrow> unit_at T' = unit_at T"
  by (simp add: unit_at_def fun_eq_iff)

text \<open>The records \<open>InitRegion\<close> leaves.\<close>

lemma RegionInfo_InitRegion_records:
  assumes ok: "table_ok T" and n: "1 \<le> n" "i + unat n \<le> unat (totalUnitCount T)"
  obtains T' m where "RegionInfo_InitRegion (unit_at T i) n role T = Inr T'" and "table_ok T'"
    and "heapStartAddress T' = heapStartAddress T" and "totalUnitCount T' = totalUnitCount T"
    and "units T' (unit_at T i) = Some m"
    and "regionEnd m = heapStartAddress T + of_nat i * UNIT_SIZE + n * UNIT_SIZE"
    and "\<exists>v. unitRoleBitField m = SetAtomicValueU8 0 BIT_LENGTH role v"
    and "\<exists>v. regionStateBitField m = cleared_state v"
    and "\<And>k. 0 < k \<Longrightarrow> k < unat n \<Longrightarrow> \<exists>m. units T' (unit_at T (i + k)) = Some m \<and> subordinate (unit_at T i) m"
    and "\<And>k. k < unat (totalUnitCount T) \<Longrightarrow> k < i \<or> i + unat n \<le> k \<Longrightarrow> units T' (unit_at T k) = units T (unit_at T k)"
proof -
  have u: "unit_ok T k" if "k < unat (totalUnitCount T)" for k using ok that by (simp add: unit_ok_def)
  have n0: "0 < unat n" using n(1) by (simp add: word_le_nat_alt)
  have i: "unit_ok T i" using n(2) n0 by (intro u) simp
  from unit_mapped [OF i] obtain m0 where m0: "units T (unit_at T i) = Some m0" by auto
  from InitRegionInfo_unit [OF i m0, of n role] obtain m where
    m: "InitRegionInfo (unit_at T i) n role T = Inr (with_unit (unit_at T i) m T)"
    "regionEnd m = heapStartAddress T + of_nat i * UNIT_SIZE + n * UNIT_SIZE"
    "\<exists>v. unitRoleBitField m = SetAtomicValueU8 0 BIT_LENGTH role v"
    "\<exists>v. regionStateBitField m = cleared_state v" by force
  let ?T = "with_unit (unit_at T i) m T"
  have js: "unit_ok ?T (i + j) \<and> j < unat n" if "j \<in> set [1..<unat n]" for j
    using that n(2) by (auto intro!: u unit_ok_with_unit)
  from init_subordinates_marks [OF distinct_upt [of 1 "unat n"] js, where owner = "unit_at T i"] obtain T' where
    T': "init_subordinates (UnitInfoArray (unit_at T i) n) (unit_at T i) [1..<unat n] ?T = Inr T'"
    "heapStartAddress T' = heapStartAddress T" "totalUnitCount T' = totalUnitCount T" "table_ok T'"
    "\<forall>j\<in>{1..<unat n}. \<exists>m. units T' (unit_at T (i + j)) = Some m \<and> subordinate (unit_at T i) m"
    "\<forall>v. v \<notin> (\<lambda>j. unit_at T (i + j)) ` {1..<unat n} \<longrightarrow> units T' v = units ?T v"
    using ok by auto
  have apart: "unit_at T k \<notin> (\<lambda>j. unit_at T (i + j)) ` {1..<unat n}"
    if "k < unat (totalUnitCount T)" "k \<le> i \<or> i + unat n \<le> k" for k
  proof
    assume "unit_at T k \<in> (\<lambda>j. unit_at T (i + j)) ` {1..<unat n}"
    then obtain j where j: "1 \<le> j" "j < unat n" "unit_at T k = unit_at T (i + j)" by auto
    then have "k = i + j" using n(2) by (intro unit_at_inj [OF u [OF that(1)] u]) simp_all
    with that j show False by simp
  qed
  have "units T' (unit_at T i) = Some m" using apart [of i] T'(6) i by (simp add: unit_ok_def)
  moreover have "units T' (unit_at T k) = units T (unit_at T k)"
    if k: "k < unat (totalUnitCount T)" "k < i \<or> i + unat n \<le> k" for k
  proof -
    have "unit_at T k \<noteq> unit_at T i" using unit_at_inj [OF u [OF k(1)] i] k(2) n0 by auto
    moreover have "units T' (unit_at T k) = units ?T (unit_at T k)"
      using apart [OF k(1)] k(2) T'(6) by (metis less_imp_le)
    ultimately show ?thesis by simp
  qed
  ultimately show ?thesis using m T' by (intro that [of T' m]) (auto simp: RegionInfo_InitRegion_def)
qed

lemma role_of_set: "role AND 0x0f = role \<Longrightarrow> GetAtomicValueU8 (SetAtomicValueU8 0 BIT_LENGTH role v) 0 BIT_LENGTH = role"
  using role_and_set [of role v] by (simp add: GetAtomicValueU8_def bitMask_def BIT_LENGTH_def push_bit_eq_mult)

lemma type_of_cleared: "GetAtomicValueU16 (cleared_state v) REGION_TYPE_FLAG BIT_LENGTH = 0"
proof -
  have "GetAtomicValueU16 (cleared_state v) REGION_TYPE_FLAG BIT_LENGTH =
      GetAtomicValueU16 (SetAtomicValueU16 0 4 (ucast FREE_REGION) v) 0 4"
    by (simp add: cleared_state_def U16_get_set_apart REGION_TYPE_FLAG_def BIT_LENGTH_def TRACE_REGION_FLAG_def
        MARKED_REGION_FLAG_def ENQUEUED_REGION_FLAG_def RESURRECTED_REGION_FLAG_def)
  also have "\<dots> = 0" by (simp add: U16_get_set_low FREE_REGION_def)
  finally show ?thesis .
qed

text \<open>All \<open>InitRegion\<close> does, in one statement.\<close>

lemma InitRegion_at_makes:
  assumes ok: "table_ok T" and n: "1 \<le> n" "unat idx + unat n \<le> unat (totalUnitCount T)"
    and role: "role \<in> {FREE_UNITS, SMALL_SIZED_UNITS, LARGE_SIZED_UNITS}"
  shows "\<exists>T'. InitRegion_at idx n role T = Inr (unit_at T (unat idx), T') \<and> table_ok T' \<and>
    heapStartAddress T' = heapStartAddress T \<and> totalUnitCount T' = totalUnitCount T \<and>
    GetUnitIdx T' (unit_at T (unat idx)) = Inr idx \<and>
    (\<forall>a. unat (heapStartAddress T) + 4096 * unat idx \<le> unat a \<and>
      unat a < unat (heapStartAddress T) + 4096 * (unat idx + unat n) \<longrightarrow> GetRegionInfoAt a T' = Inr (unit_at T (unat idx))) \<and>
    GetUnitCount (unit_at T (unat idx)) T' = Inr n \<and> GetUnitRole (unit_at T (unat idx)) T' = Inr role \<and> GetRegionType (unit_at T (unat idx)) T' = Inr FREE_REGION \<and>
    (\<forall>k<unat (totalUnitCount T). k < unat idx \<or> unat idx + unat n \<le> k \<longrightarrow>
      units T' (unit_at T k) = units T (unit_at T k))"
proof -
  let ?i = "unat idx" and ?p = "unit_at T (unat idx)" and ?h = "heapStartAddress T"
  have r: "role AND 0x0f = role" "role \<noteq> SUBORDINATE_UNIT"
    using role by (auto simp: FREE_UNITS_def SMALL_SIZED_UNITS_def LARGE_SIZED_UNITS_def SUBORDINATE_UNIT_def)
  obtain T' m where T': "RegionInfo_InitRegion ?p n role T = Inr T'" "table_ok T'" "heapStartAddress T' = ?h"
    "totalUnitCount T' = totalUnitCount T" "units T' ?p = Some m" "regionEnd m = ?h + idx * UNIT_SIZE + n * UNIT_SIZE"
    "\<exists>v. unitRoleBitField m = SetAtomicValueU8 0 BIT_LENGTH role v" "\<exists>v. regionStateBitField m = cleared_state v"
    and sub: "\<And>k. 0 < k \<Longrightarrow> k < unat n \<Longrightarrow> \<exists>m. units T' (unit_at T (?i + k)) = Some m \<and> subordinate ?p m"
    and other: "\<And>k. k < unat (totalUnitCount T) \<Longrightarrow> k < ?i \<or> ?i + unat n \<le> k \<Longrightarrow>
      units T' (unit_at T k) = units T (unit_at T k)"
    by (rule RegionInfo_InitRegion_records [OF ok n, of role]) simp
  have u: "unit_ok T' (?i + k)" if "k < unat n" for k using that n(2) T'(2,4) by (simp add: unit_ok_def)
  have n0: "0 < unat n" using n(1) by (simp add: word_le_nat_alt)
  have u0: "unit_ok T ?i" "unit_ok T' ?i" using ok n(2) n0 u [of 0] by (simp_all add: unit_ok_def)
  note at = unit_at_same [OF T'(3)]
  have found: "GetRegionInfoAt a T' = Inr ?p"
    if a: "unat ?h + 4096 * ?i \<le> unat a" "unat a < unat ?h + 4096 * (?i + unat n)" for a
  proof -
    from region_address_split [OF a] obtain k d where
      k: "a = ?h + of_nat (4096 * (?i + k) + d)" "k < unat n" "d < 4096" by blast
    then have "GetUnitInfoAt T' a = Inr (unit_at T (?i + k))"
      using GetUnitIdxAt_unit [OF u [OF k(2)] k(3)] GetUnitInfo_unit [OF u [OF k(2)]] T'(3) at
      by (simp add: GetUnitInfoAt_def del: of_nat_add of_nat_mult)
    moreover have "region_of (unit_at T (?i + k)) T' = Inr ?p"
    proof (cases "k = 0")
      case True
      with T'(5,7) r show ?thesis by (auto simp: region_of_def read_unit_def role_and_set)
    next
      case False
      with sub [OF _ k(2)] show ?thesis by (auto simp: region_of_def read_unit_def subordinate_def)
    qed
    ultimately show ?thesis by (simp add: GetRegionInfoAt_def)
  qed
  have "unat (?h + idx * UNIT_SIZE) = unat ?h + 4096 * ?i"
    using unat_unit_address [OF u0(1), of 0] by (simp add: UNIT_SIZE_def mult.commute)
  then have "unat (?h + idx * UNIT_SIZE) + 4096 * unat n < 2 ^ 64" using ok n(2) by (simp add: table_ok_def)
  note sz = region_size_units [OF this n(1)]
  have "GetRegionStart ?p T' = Inr (?h + idx * UNIT_SIZE)" using GetRegionStart_unit [OF u0(2)] at T'(3) by simp
  with T'(5,6) sz have "GetUnitCount ?p T' = Inr n"
    by (simp add: GetUnitCount_def GetRegionSize_def read_unit_def not_le)
  moreover have "GetUnitRole ?p T' = Inr role" "GetRegionType ?p T' = Inr FREE_REGION"
    using T'(5,7,8) r by (auto simp: GetUnitRole_def GetRegionType_def read_unit_def role_of_set type_of_cleared FREE_REGION_def)
  moreover have "InitRegion_at idx n role T = Inr (?p, T')"
    using GetUnitInfo_unit [OF u0(1)] T'(1) by (simp add: InitRegion_at_def)
  moreover have "GetUnitIdx T' ?p = Inr idx" using GetUnitIdx_unit [OF u0(2)] at by simp
  ultimately show ?thesis using found other T'(2-4) by blast
qed

text \<open>
  C17. Making a region of some units: from every address in them the region is found, its number of units
  and its role are the ones asked for, its type is that of a free region, and the records of all other
  units are as before.
\<close>

theorem InitRegion_found:
  assumes ok: "table_ok T" and n: "1 \<le> n" "unat idx + unat n \<le> unat (totalUnitCount T)"
    and role: "role \<in> {FREE_UNITS, SMALL_SIZED_UNITS, LARGE_SIZED_UNITS}"
  shows "\<exists>p T'. InitRegion_at idx n role T = Inr (p, T') \<and> table_ok T' \<and> GetUnitIdx T' p = Inr idx \<and>
    (\<forall>a. unat (heapStartAddress T) + 4096 * unat idx \<le> unat a \<and>
      unat a < unat (heapStartAddress T) + 4096 * (unat idx + unat n) \<longrightarrow> GetRegionInfoAt a T' = Inr p) \<and>
    GetUnitCount p T' = Inr n \<and> GetUnitRole p T' = Inr role \<and> GetRegionType p T' = Inr FREE_REGION \<and>
    (\<forall>k<unat (totalUnitCount T). k < unat idx \<or> unat idx + unat n \<le> k \<longrightarrow>
      units T' (unit_at T k) = units T (unit_at T k))"
  using InitRegion_at_makes [OF assms] by blast

section \<open>Allocation in a region\<close>

text \<open>
  Objects are allocated one after the other and within the region, as long as the size does not carry
  the pointer past the end of the address space. A larger size is answered with the current pointer
  and moves it backwards, so that the next objects overlay earlier ones.
\<close>

theorem RegionInfo_Alloc_bump:
  assumes m: "units T p = Some m" and le: "allocPtr m \<le> regionEnd m"
  shows "unat (allocPtr m) + unat sz < 2 ^ 64 \<longrightarrow> RegionInfo_Alloc p sz T =
      (if unat (allocPtr m) + unat sz \<le> unat (regionEnd m)
       then Inr (allocPtr m, with_unit p (m\<lparr>allocPtr := allocPtr m + sz\<rparr>) T) else Inr (0, T))"
    and "2 ^ 64 \<le> unat (allocPtr m) + unat sz \<longrightarrow> allocPtr m + sz < allocPtr m \<and>
      RegionInfo_Alloc p sz T = Inr (allocPtr m, with_unit p (m\<lparr>allocPtr := allocPtr m + sz\<rparr>) T)"
proof -
  have r: "RegionInfo_Alloc p sz T = (if allocPtr m + sz \<le> regionEnd m
      then Inr (allocPtr m, with_unit p (m\<lparr>allocPtr := allocPtr m + sz\<rparr>) T) else Inr (0, T))"
    using m by (simp add: RegionInfo_Alloc_def read_unit_def write_unit_at Let_def)
  show "unat (allocPtr m) + unat sz < 2 ^ 64 \<longrightarrow> RegionInfo_Alloc p sz T =
      (if unat (allocPtr m) + unat sz \<le> unat (regionEnd m)
       then Inr (allocPtr m, with_unit p (m\<lparr>allocPtr := allocPtr m + sz\<rparr>) T) else Inr (0, T))"
    unfolding r by (simp add: word_le_nat_alt unat_word_ariths)
  show "2 ^ 64 \<le> unat (allocPtr m) + unat sz \<longrightarrow> allocPtr m + sz < allocPtr m \<and>
      RegionInfo_Alloc p sz T = Inr (allocPtr m, with_unit p (m\<lparr>allocPtr := allocPtr m + sz\<rparr>) T)"
  proof
    assume w: "2 ^ 64 \<le> unat (allocPtr m) + unat sz"
    have lt: "unat (allocPtr m) < 2 ^ 64" "unat sz < 2 ^ 64"
      using unsigned_less [of "allocPtr m"] unsigned_less [of sz] by simp_all
    have "unat (allocPtr m + sz) = unat (allocPtr m) + unat sz - 2 ^ 64"
      using w lt by (simp add: unat_word_ariths mod_if)
    with lt(2) w have "allocPtr m + sz < allocPtr m" by (simp add: word_less_nat_alt)
    moreover from this le have "allocPtr m + sz \<le> regionEnd m" by simp
    ultimately show "allocPtr m + sz < allocPtr m \<and>
        RegionInfo_Alloc p sz T = Inr (allocPtr m, with_unit p (m\<lparr>allocPtr := allocPtr m + sz\<rparr>) T)"
      unfolding r by simp
  qed
qed

section \<open>Type and flags of a region\<close>

text \<open>
  Setting the type and setting the flag of traced regions each leave the other: they are bits of one
  field.
\<close>

theorem region_type_flag_apart:
  assumes m: "units T p = Some m" and ty: "ty AND 0x0f = ty" and f: "flag AND 1 = flag"
  shows "\<exists>T1. SetRegionType p ty T = Inr T1 \<and> GetRegionType p T1 = Inr ty \<and>
      IsTraceRegion p T1 = IsTraceRegion p T \<and>
    (\<exists>T2. SetTraceRegionFlag p flag T = Inr T2 \<and> IsTraceRegion p T2 = Inr (flag = 1) \<and>
      GetRegionType p T2 = GetRegionType p T)"
proof -
  let ?s = "regionStateBitField m"
  have trace: "IsTraceRegion p (with_unit p m' T) = Inr (bit (regionStateBitField m') 4)" for m'
    by (simp add: IsTraceRegion_def read_unit_def TRACE_REGION_FLAG_def BIT_LENGTH_def bit_iff_and_push_bit_not_eq_0)
  have trace0: "IsTraceRegion p T = Inr (bit ?s 4)"
    using m by (simp add: IsTraceRegion_def read_unit_def TRACE_REGION_FLAG_def BIT_LENGTH_def bit_iff_and_push_bit_not_eq_0)
  have "take_bit 4 ty = ty" using ty by (simp add: take_bit_eq_mask mask_eq_exp_minus_1)
  then have t: "take_bit 4 (ucast ty :: u16) = ucast ty" by (metis unsigned_take_bit_eq)
  have "bit flag 0 \<longleftrightarrow> flag = 1"
  proof
    assume o: "bit flag 0"
    have "flag = of_bool (odd flag)" using f unfolding and_one_eq mod_2_eq_odd by (rule sym)
    also have "odd flag" using o by (simp add: bit_0)
    then have "of_bool (odd flag) = (1 :: u8)" by simp
    finally show "flag = 1" .
  qed simp
  then have b: "bit (ucast flag :: u16) 0 \<longleftrightarrow> flag = 1" by (simp add: bit_ucast_iff)
  let ?T1 = "with_unit p (m\<lparr>regionStateBitField := SetAtomicValueU16 0 4 (ucast ty) ?s\<rparr>) T"
  let ?T2 = "with_unit p (m\<lparr>regionStateBitField := SetAtomicValueU16 4 1 (ucast flag) ?s\<rparr>) T"
  have "SetRegionType p ty T = Inr ?T1"
    using m by (simp add: setter_defs write_unit_at REGION_TYPE_FLAG_def BIT_LENGTH_def)
  moreover have "ucast (ucast ty :: u16) = ty" by (rule bit_word_eqI) (simp add: bit_ucast_iff)
  then have "GetRegionType p ?T1 = Inr ty"
    by (simp add: GetRegionType_def read_unit_def U16_get_set_low [OF t] REGION_TYPE_FLAG_def BIT_LENGTH_def)
  moreover have "IsTraceRegion p ?T1 = IsTraceRegion p T" by (simp add: trace trace0 bit_SetAtomicValueU16)
  moreover have "SetTraceRegionFlag p flag T = Inr ?T2"
    using m by (simp add: setter_defs write_unit_at TRACE_REGION_FLAG_def BIT_LENGTH_def)
  moreover have "IsTraceRegion p ?T2 = Inr (flag = 1)" using b by (simp add: trace bit_SetAtomicValueU16)
  moreover have "GetRegionType p ?T2 = GetRegionType p T"
    using m by (simp add: GetRegionType_def read_unit_def U16_get_set_apart REGION_TYPE_FLAG_def BIT_LENGTH_def)
  ultimately show ?thesis by blast
qed

section \<open>Witnesses\<close>

definition demo_unit_table :: region_table where
  "demo_unit_table = \<lparr>heapStartAddress = 65536, totalUnitCount = 4, units = (\<lambda>_. Some
    \<lparr>allocPtr = 1, regionEnd = 1, nextRegionIdx = 1, prevRegionIdx = 1, liveByteCount = 1,
     rawPointerObjectCount = 1, liveInfo = 1, unitRoleBitField = 0xff, regionStateBitField = 0xffff\<rparr>)\<rparr>"

lemma demo_unit_table_ok: "table_ok demo_unit_table"
  by (simp add: table_ok_def demo_unit_table_def)

theorem InitRegion_found_witness:
  "\<exists>p T'. InitRegion_at 1 2 SMALL_SIZED_UNITS demo_unit_table = Inr (p, T') \<and> GetRegionInfoAt 0x12fff T' = Inr p \<and>
    GetUnitCount p T' = Inr 2"
proof -
  have "\<exists>p T'. InitRegion_at 1 2 SMALL_SIZED_UNITS demo_unit_table = Inr (p, T') \<and> table_ok T' \<and> GetUnitIdx T' p = Inr 1 \<and>
    (\<forall>a. unat (heapStartAddress demo_unit_table) + 4096 * unat (1 :: u64) \<le> unat a \<and>
      unat a < unat (heapStartAddress demo_unit_table) + 4096 * (unat (1 :: u64) + unat (2 :: u64)) \<longrightarrow>
      GetRegionInfoAt a T' = Inr p) \<and>
    GetUnitCount p T' = Inr 2 \<and> GetUnitRole p T' = Inr SMALL_SIZED_UNITS \<and> GetRegionType p T' = Inr FREE_REGION \<and>
    (\<forall>k<unat (totalUnitCount demo_unit_table). k < unat (1 :: u64) \<or> unat (1 :: u64) + unat (2 :: u64) \<le> k \<longrightarrow>
      units T' (unit_at demo_unit_table k) = units demo_unit_table (unit_at demo_unit_table k))"
    by (rule InitRegion_found [OF demo_unit_table_ok]) (simp_all add: demo_unit_table_def)
  then obtain p T' where "InitRegion_at 1 2 SMALL_SIZED_UNITS demo_unit_table = Inr (p, T')"
    "\<forall>a. unat (heapStartAddress demo_unit_table) + 4096 * unat (1 :: u64) \<le> unat a \<and>
      unat a < unat (heapStartAddress demo_unit_table) + 4096 * (unat (1 :: u64) + unat (2 :: u64)) \<longrightarrow>
      GetRegionInfoAt a T' = Inr p" "GetUnitCount p T' = Inr 2" by (elim exE conjE) (rule that)
  note r = this
  have "GetRegionInfoAt 0x12fff T' = Inr p" by (rule r(2) [rule_format]) (simp add: demo_unit_table_def)
  with r(1,3) show ?thesis by (intro exI conjI)
qed

theorem RegionInfo_Alloc_bump_witness:
  "RegionInfo_Alloc 7 0 demo_unit_table = Inr (1, demo_unit_table) \<and> RegionInfo_Alloc 7 1 demo_unit_table = Inr (0, demo_unit_table) \<and>
    fst (projr (RegionInfo_Alloc 7 0xffffffffffffffff demo_unit_table)) = 1"
proof -
  obtain m where m: "units demo_unit_table 7 = Some m" "allocPtr m = 1" "regionEnd m = 1"
    "with_unit 7 (m\<lparr>allocPtr := 1\<rparr>) demo_unit_table = demo_unit_table"
    by (rule that [of "the (units demo_unit_table 7)"]) (simp_all add: demo_unit_table_def with_unit_def fun_eq_iff)
  have le: "allocPtr m \<le> regionEnd m" using m by simp
  from RegionInfo_Alloc_bump [OF m(1) le, of 0] RegionInfo_Alloc_bump [OF m(1) le, of 1]
    RegionInfo_Alloc_bump [OF m(1) le, of "0xffffffffffffffff"] m show ?thesis
    by simp
qed

theorem region_type_flag_apart_witness:
  "\<exists>T1. SetRegionType 7 3 demo_unit_table = Inr T1 \<and> GetRegionType 7 T1 = Inr 3 \<and> IsTraceRegion 7 T1 = Inr True"
proof -
  obtain m where m: "units demo_unit_table 7 = Some m" by (simp add: demo_unit_table_def)
  have "IsTraceRegion 7 demo_unit_table = Inr True"
    by (simp add: IsTraceRegion_def read_unit_def demo_unit_table_def TRACE_REGION_FLAG_def BIT_LENGTH_def)
  with region_type_flag_apart [OF m, of 3 1] show ?thesis by auto
qed

end
