(* ===== verification/RegionLists.thy ===== *)
theory RegionLists
  imports LinkedLists RegionTable "HOL-Library.Multiset"
begin

text \<open>
  The lists of regions, \<^verbatim>\<open>rt.heap.allocator/RegionList.cj\<close>: doubly linked lists threaded through the
  region table by 32-bit indices, each with the number of its regions and of their units. Every
  operation works under the mutex of its list; what is modelled is that section, one at a time, in
  the release build, where assertions and log lines are empty. The name of a list and the lists of
  the collector's second generation of records (\<open>VisitAllGhostRegions\<close>) are left out.
\<close>

section \<open>Links between regions\<close>

definition GetPrevRegion :: "addr \<Rightarrow> region_table \<Rightarrow> addr res" where
  "GetPrevRegion region T = and_then (read_unit region T) (\<lambda>m.
    if prevRegionIdx m = INVALID_IDX then Inr 0 else GetUnitInfo T (ucast (prevRegionIdx m)))"

definition SetPrevRegion :: "addr \<Rightarrow> addr \<Rightarrow> region_table \<Rightarrow> region_table res" where
  "SetPrevRegion region p T =
    (if p = 0 then write_unit region (\<lambda>m. m\<lparr>prevRegionIdx := INVALID_IDX\<rparr>) T
     else and_then (GetUnitIdx T p) (\<lambda>idx. write_unit region (\<lambda>m. m\<lparr>prevRegionIdx := ucast idx\<rparr>) T))"

definition GetNextRegion :: "addr \<Rightarrow> region_table \<Rightarrow> addr res" where
  "GetNextRegion region T = and_then (read_unit region T) (\<lambda>m.
    if nextRegionIdx m = INVALID_IDX then Inr 0 else GetUnitInfo T (ucast (nextRegionIdx m)))"

definition SetNextRegion :: "addr \<Rightarrow> addr \<Rightarrow> region_table \<Rightarrow> region_table res" where
  "SetNextRegion region n T =
    (if n = 0 then write_unit region (\<lambda>m. m\<lparr>nextRegionIdx := INVALID_IDX\<rparr>) T
     else and_then (GetUnitIdx T n) (\<lambda>idx. write_unit region (\<lambda>m. m\<lparr>nextRegionIdx := ucast idx\<rparr>) T))"

definition GetRegionAllocatedSize :: "addr \<Rightarrow> region_table \<Rightarrow> u64 res" where
  "GetRegionAllocatedSize region T = and_then (GetRegionAllocPtr region T) (\<lambda>a.
    and_then (GetRegionStart region T) (\<lambda>s. Inr (a - s)))"

section \<open>Lists\<close>

record region_list =
  regionCount :: u64
  unitCount :: u64
  listHead :: addr
  listTail :: addr

definition RegionList_Construct :: region_list where
  "RegionList_Construct = \<lparr>regionCount = 0, unitCount = 0, listHead = 0, listTail = 0\<rparr>"

definition DecCounts :: "u64 \<Rightarrow> u64 \<Rightarrow> region_list \<Rightarrow> region_list res" where
  "DecCounts nRegion nUnit l =
    (if nRegion \<le> regionCount l \<and> nUnit \<le> unitCount l
     then Inr (l\<lparr>regionCount := regionCount l - nRegion, unitCount := unitCount l - nUnit\<rparr>) else Inl Abort)"

definition IncCounts :: "u64 \<Rightarrow> u64 \<Rightarrow> region_list \<Rightarrow> region_list res" where
  "IncCounts nRegion nUnit l =
    (if nRegion > - 1 - regionCount l \<or> nUnit > - 1 - unitCount l then Inl Abort
     else Inr (l\<lparr>regionCount := regionCount l + nRegion, unitCount := unitCount l + nUnit\<rparr>))"

definition ClearList :: "region_list \<Rightarrow> region_list" where
  "ClearList l = l\<lparr>listHead := 0, listTail := 0, regionCount := 0, unitCount := 0\<rparr>"

definition PrependRegionLocked ::
  "region_list \<Rightarrow> addr \<Rightarrow> u8 \<Rightarrow> region_table \<Rightarrow> (region_list \<times> region_table) res" where
  "PrependRegionLocked l region regionType T =
    (if region = 0 then Inr (l, T)
     else and_then (SetRegionType region regionType T) (\<lambda>T.
       and_then (SetPrevRegion region 0 T) (\<lambda>T.
       and_then (GetUnitCount region T) (\<lambda>c.
       and_then (IncCounts 1 c l) (\<lambda>l.
       and_then (SetNextRegion region (listHead l) T) (\<lambda>T.
       if listHead l = 0 then Inr (l\<lparr>listTail := region, listHead := region\<rparr>, T)
       else and_then (SetPrevRegion (listHead l) region T) (\<lambda>T. Inr (l\<lparr>listHead := region\<rparr>, T))))))))"

text \<open>The end of \<open>DeleteRegionLocked\<close>: the neighbours \<open>p\<close> and \<open>n\<close> are linked, head and tail moved.\<close>

definition relink_neighbours ::
  "region_list \<Rightarrow> addr \<Rightarrow> addr \<Rightarrow> addr \<Rightarrow> region_table \<Rightarrow> (region_list \<times> region_table) res" where
  "relink_neighbours l del p n T =
    (if listHead l = del \<and> n = 0 then Inr (l\<lparr>listHead := n, listTail := 0\<rparr>, T)
     else and_then (if listHead l = del then Inr (l\<lparr>listHead := n\<rparr>, T)
         else and_then (SetNextRegion p n T) (\<lambda>T. Inr (l, T))) (\<lambda>(l, T).
       if listTail l = del then
         if p = 0 then Inr (l\<lparr>listTail := p, listHead := 0\<rparr>, T) else Inr (l\<lparr>listTail := p\<rparr>, T)
       else and_then (SetPrevRegion n p T) (\<lambda>T. Inr (l, T))))"

definition DeleteRegionLocked :: "region_list \<Rightarrow> addr \<Rightarrow> region_table \<Rightarrow> (region_list \<times> region_table) res" where
  "DeleteRegionLocked l del T =
    and_then (GetPrevRegion del T) (\<lambda>p.
    and_then (GetNextRegion del T) (\<lambda>n.
    and_then (SetNextRegion del 0 T) (\<lambda>T.
    and_then (SetPrevRegion del 0 T) (\<lambda>T.
    and_then (GetUnitCount del T) (\<lambda>c.
    and_then (DecCounts 1 c l) (\<lambda>l.
    relink_neighbours l del p n T))))))"

definition DeleteRegion :: "region_list \<Rightarrow> addr \<Rightarrow> region_table \<Rightarrow> (region_list \<times> region_table) res" where
  "DeleteRegion l del T = (if del = 0 then Inr (l, T) else DeleteRegionLocked l del T)"

definition TryDeleteRegion ::
  "region_list \<Rightarrow> addr \<Rightarrow> u8 \<Rightarrow> u8 \<Rightarrow> region_table \<Rightarrow> (bool \<times> region_list \<times> region_table) res" where
  "TryDeleteRegion l del oldType newType T =
    (if del = 0 then Inr (False, l, T)
     else if oldType = newType then Inl Abort
     else and_then (GetRegionType del T) (\<lambda>ty.
       if ty = oldType then and_then (DeleteRegionLocked l del T) (\<lambda>(l, T).
         and_then (SetRegionType del newType T) (\<lambda>T. Inr (True, l, T)))
       else Inr (False, l, T)))"

definition TakeHeadRegion :: "region_list \<Rightarrow> region_table \<Rightarrow> (addr \<times> region_list \<times> region_table) res" where
  "TakeHeadRegion l T =
    (if listHead l = 0 then Inr (0, l, T)
     else and_then (DeleteRegionLocked l (listHead l) T) (\<lambda>(l', T). Inr (listHead l, l', T)))"

definition TakeHeadRegion_as ::
  "u8 \<Rightarrow> region_list \<Rightarrow> region_table \<Rightarrow> (addr \<times> region_list \<times> region_table) res" where
  "TakeHeadRegion_as newType l T =
    (if listHead l = 0 then Inr (0, l, T)
     else and_then (DeleteRegionLocked l (listHead l) T) (\<lambda>(l', T).
       and_then (SetRegionType (listHead l) newType T) (\<lambda>T. Inr (listHead l, l', T))))"

text \<open>
  The loops over a list end at the null pointer, so not on a list that runs in a circle: their result
  is optional. The first does something at each region and then goes on to the next.
\<close>

partial_function (option) each_region ::
  "(addr \<Rightarrow> region_table \<Rightarrow> region_table res) \<Rightarrow> addr \<Rightarrow> region_table \<Rightarrow> region_table res option" where
  "each_region f node T =
    (if node = 0 then Some (Inr T)
     else case f node T of Inl e \<Rightarrow> Some (Inl e)
       | Inr T' \<Rightarrow> (case GetNextRegion node T' of Inl e \<Rightarrow> Some (Inl e)
           | Inr n \<Rightarrow> each_region f n T'))"

definition SetElementType :: "u8 \<Rightarrow> region_list \<Rightarrow> region_table \<Rightarrow> region_table res option" where
  "SetElementType regionType l T = each_region (\<lambda>p. SetRegionType p regionType) (listHead l) T"

definition ClearTraceRegionFlag :: "region_list \<Rightarrow> region_table \<Rightarrow> region_table res option" where
  "ClearTraceRegionFlag l T = each_region (\<lambda>p. SetTraceRegionFlag p 0) (listHead l) T"

text \<open>\<open>VisitAllRegions\<close> reads the next region first, so that a visitor may take the region off the list.\<close>

partial_function (option) visit_regions ::
  "(addr \<Rightarrow> region_table \<Rightarrow> region_table res) \<Rightarrow> addr \<Rightarrow> region_table \<Rightarrow> region_table res option" where
  "visit_regions visitor node T =
    (if node = 0 then Some (Inr T)
     else case GetNextRegion node T of Inl e \<Rightarrow> Some (Inl e)
       | Inr n \<Rightarrow> (case visitor node T of Inl e \<Rightarrow> Some (Inl e)
           | Inr T' \<Rightarrow> visit_regions visitor n T'))"

definition VisitAllRegions ::
  "(addr \<Rightarrow> region_table \<Rightarrow> region_table res) \<Rightarrow> region_list \<Rightarrow> region_table \<Rightarrow> region_table res option" where
  "VisitAllRegions visitor l T = visit_regions visitor (listHead l) T"

partial_function (option) count_allocated :: "u64 \<Rightarrow> addr \<Rightarrow> region_table \<Rightarrow> u64 res option" where
  "count_allocated allocated region T =
    (if region = 0 then Some (Inr allocated)
     else case GetRegionAllocatedSize region T of Inl e \<Rightarrow> Some (Inl e)
       | Inr a \<Rightarrow> (case GetNextRegion region T of Inl e \<Rightarrow> Some (Inl e)
           | Inr n \<Rightarrow> count_allocated (allocated + a) n T))"

definition GetAllocatedSize :: "bool \<Rightarrow> region_list \<Rightarrow> region_table \<Rightarrow> u64 res option" where
  "GetAllocatedSize exact l T =
    (if \<not> exact then Some (Inr (unitCount l * UNIT_SIZE)) else count_allocated 0 (listHead l) T)"

text \<open>\<open>AssignWith\<close>, \<open>MoveTo\<close> (source and target) and \<open>CopyListTo\<close>.\<close>

definition AssignWith :: "region_list \<Rightarrow> region_list \<Rightarrow> region_list" where
  "AssignWith l src = l\<lparr>listHead := listHead src, listTail := listTail src,
    regionCount := regionCount src, unitCount := unitCount src\<rparr>"

definition MoveTo :: "region_list \<Rightarrow> region_list \<Rightarrow> region_list \<times> region_list" where
  "MoveTo l targetList = (ClearList l, AssignWith targetList l)"

definition CopyListTo :: "region_list \<Rightarrow> region_list \<Rightarrow> region_list" where
  "CopyListTo l dstList = AssignWith dstList l"

text \<open>This list and the source after a merge. The whole source goes before the first region.\<close>

definition MergeRegionList ::
  "region_list \<Rightarrow> region_list \<Rightarrow> u8 \<Rightarrow> region_table \<Rightarrow> (region_list \<times> region_list \<times> region_table) res option" where
  "MergeRegionList l srcList regionType T =
    (let (src, cache) = MoveTo srcList RegionList_Construct in
     if listHead cache = 0 then Some (Inr (l, src, T))
     else map_option (\<lambda>r. and_then r (\<lambda>T.
       and_then (IncCounts (regionCount cache) (unitCount cache) l) (\<lambda>l.
       if listHead l = 0 then Inr (l\<lparr>listHead := listHead cache, listTail := listTail cache\<rparr>, src, T)
       else and_then (SetNextRegion (listTail cache) (listHead l) T) (\<lambda>T.
         and_then (SetPrevRegion (listHead l) (listTail cache) T) (\<lambda>T.
         Inr (l\<lparr>listHead := listHead cache\<rparr>, src, T))))))
       (SetElementType regionType cache T))"

section \<open>Caches\<close>

record region_cache =
  regionList :: region_list
  active :: bool

definition RegionCache_Construct :: region_cache where
  "RegionCache_Construct = \<lparr>regionList = RegionList_Construct, active = False\<rparr>"

definition TryPrependRegion ::
  "region_cache \<Rightarrow> addr \<Rightarrow> u8 \<Rightarrow> region_table \<Rightarrow> (bool \<times> region_cache \<times> region_table) res" where
  "TryPrependRegion c region regionType T =
    (if active c then and_then (PrependRegionLocked (regionList c) region regionType T)
       (\<lambda>(l, T). Inr (True, c\<lparr>regionList := l\<rparr>, T))
     else Inr (False, c, T))"

definition ActivateRegionCache :: "region_cache \<Rightarrow> region_cache" where
  "ActivateRegionCache c = c\<lparr>active := True\<rparr>"

definition DeactivateRegionCache :: "region_cache \<Rightarrow> region_table \<Rightarrow> (region_cache \<times> region_table) res option" where
  "DeactivateRegionCache c T = map_option (\<lambda>r. and_then r (\<lambda>T. Inr (c\<lparr>active := False\<rparr>, T)))
    (each_region (\<lambda>p. SetTraceRegionFlag p 0) (listHead (regionList c)) T)"

section \<open>The table as a store of links\<close>

text \<open>
  A region is the first unit of some; its record says how many. Where a link holds no index of the
  table, its value is an address that no record has.
\<close>

definition is_region :: "region_table \<Rightarrow> addr \<Rightarrow> bool" where
  "is_region T p \<longleftrightarrow> (\<exists>i. unit_ok T i \<and> p = unit_at T i) \<and> (\<exists>c. GetUnitCount p T = Inr c)"

definition link_of :: "region_table \<Rightarrow> u32 \<Rightarrow> addr" where
  "link_of T idx = (if idx = INVALID_IDX then 0 else case GetUnitInfo T (ucast idx) of
    Inl _ \<Rightarrow> heapStartAddress T | Inr q \<Rightarrow> q)"

definition next_of :: "region_table \<Rightarrow> addr \<Rightarrow> addr" where
  "next_of T p = link_of T (nextRegionIdx (the (units T p)))"

definition prev_of :: "region_table \<Rightarrow> addr \<Rightarrow> addr" where
  "prev_of T p = link_of T (prevRegionIdx (the (units T p)))"

definition region_rest :: "region_table \<Rightarrow> addr \<times> u64 \<times> (addr \<Rightarrow> unit_metadata option)" where
  "region_rest T = (heapStartAddress T, totalUnitCount T,
    \<lambda>p. map_option (\<lambda>m. m\<lparr>nextRegionIdx := 0, prevRegionIdx := 0\<rparr>) (units T p))"

lemma region_rest_eq:
  "region_rest T' = region_rest T \<longleftrightarrow> heapStartAddress T' = heapStartAddress T \<and>
    totalUnitCount T' = totalUnitCount T \<and> (\<forall>p. map_option (\<lambda>m. m\<lparr>nextRegionIdx := 0, prevRegionIdx := 0\<rparr>) (units T' p) =
      map_option (\<lambda>m. m\<lparr>nextRegionIdx := 0, prevRegionIdx := 0\<rparr>) (units T p))"
  by (auto simp: region_rest_def fun_eq_iff)

text \<open>What is_region and the number of units depend on: bounds and ends of regions.\<close>

definition same_regions :: "region_table \<Rightarrow> region_table \<Rightarrow> bool" where
  "same_regions T T' \<longleftrightarrow> heapStartAddress T' = heapStartAddress T \<and> totalUnitCount T' = totalUnitCount T \<and>
    (\<forall>p. map_option regionEnd (units T' p) = map_option regionEnd (units T p))"

lemma same_regions_rest: "region_rest T' = region_rest T \<Longrightarrow> same_regions T T'"
proof -
  assume r: "region_rest T' = region_rest T"
  have "map_option regionEnd (units T' p) = map_option regionEnd (units T p)" for p
  proof -
    have "map_option regionEnd (map_option (\<lambda>m. m\<lparr>nextRegionIdx := 0, prevRegionIdx := 0\<rparr>) (units T' p)) =
        map_option regionEnd (map_option (\<lambda>m. m\<lparr>nextRegionIdx := 0, prevRegionIdx := 0\<rparr>) (units T p))"
      using r by (simp add: region_rest_eq del: option.map_comp)
    then show ?thesis by (simp add: option.map_comp o_def)
  qed
  with r show ?thesis by (simp add: same_regions_def region_rest_eq)
qed

lemma same_regions_facts:
  assumes "same_regions T T'"
  shows "unit_at T' = unit_at T" and "table_ok T' = table_ok T" and "unit_ok T' i = unit_ok T i"
    and "GetUnitInfo T' idx = GetUnitInfo T idx" and "GetUnitIdx T' p = GetUnitIdx T p"
    and "GetUnitCount p T' = GetUnitCount p T" and "is_region T' = is_region T" and "link_of T' = link_of T"
proof -
  have s: "heapStartAddress T' = heapStartAddress T" "totalUnitCount T' = totalUnitCount T"
    "map_option regionEnd (units T' p) = map_option regionEnd (units T p)" for p
    using assms by (simp_all add: same_regions_def)
  show at: "unit_at T' = unit_at T" by (rule unit_at_same [OF s(1)])
  have "units T' p = None \<longleftrightarrow> units T p = None" for p using s(3) [of p] by (metis option.map_disc_iff)
  then show ok: "table_ok T' = table_ok T" using s at by (simp add: table_ok_def)
  then show u: "unit_ok T' i = unit_ok T i" for i using s by (simp add: unit_ok_def)
  show g: "GetUnitInfo T' idx = GetUnitInfo T idx" for idx using s by (simp add: GetUnitInfo_def)
  show "GetUnitIdx T' p = GetUnitIdx T p" using s by (simp add: GetUnitIdx_def)
  have "GetRegionStart p T' = GetRegionStart p T" for p using s by (simp add: GetRegionStart_def Let_def)
  then show c: "GetUnitCount p T' = GetUnitCount p T" for p
    using s(3) [of p] by (cases "units T' p"; cases "units T p")
      (auto simp: GetUnitCount_def GetRegionSize_def read_unit_def intro!: arg_cong2 [where f = and_then])
  show "is_region T' = is_region T" by (simp add: is_region_def at u c fun_eq_iff)
  show "link_of T' = link_of T" using s(1) by (simp add: link_of_def g fun_eq_iff split: sum.split)
qed

lemma is_region_unit: "is_region T p \<Longrightarrow> \<exists>i. unit_ok T i \<and> p = unit_at T i"
  by (simp add: is_region_def)

lemma is_regionD:
  assumes "is_region T p"
  shows "p \<noteq> 0" and "\<exists>m. units T p = Some m" and "p \<noteq> heapStartAddress T"
proof -
  from assms obtain i where i: "unit_ok T i" "p = unit_at T i" by (auto simp: is_region_def)
  show "p \<noteq> 0" using unit_not_null [OF i(1)] i(2) by simp
  show "\<exists>m. units T p = Some m" using unit_mapped [OF i(1)] i(2) by auto
  show "p \<noteq> heapStartAddress T" using unit_at_below(1) [OF i(1)] i(2) by auto
qed

text \<open>The index of a region fits in 32 bits, and the address comes back from it.\<close>

lemma unat_of_nat_u32: "i < 2 ^ 32 \<Longrightarrow> unat (of_nat i :: u32) = i"
  by (simp add: unat_of_nat)

lemma region_index:
  assumes "is_region T b"
  obtains idx where "GetUnitIdx T b = Inr idx" and "(ucast idx :: u32) \<noteq> INVALID_IDX"
    and "GetUnitInfo T (ucast (ucast idx :: u32)) = Inr b"
proof -
  from assms obtain i where i: "unit_ok T i" "b = unit_at T i" by (auto simp: is_region_def)
  then have lt: "i < 2 ^ 32 - 1" by (auto simp: unit_ok_def table_ok_def)
  have e: "(ucast (of_nat i :: u64) :: u32) = of_nat i" "(ucast (of_nat i :: u32) :: u64) = of_nat i"
    using lt by (simp_all add: word_unat_eq_iff unsigned_ucast_eq take_bit_nat_eq_self unat_of_nat take_bit_eq_mod)
  have "(of_nat i :: u32) \<noteq> INVALID_IDX"
  proof
    assume "(of_nat i :: u32) = INVALID_IDX"
    then have "unat (of_nat i :: u32) = unat INVALID_IDX" by simp
    with lt show False by (simp add: unat_of_nat_u32 INVALID_IDX_def)
  qed
  with i e GetUnitIdx_unit [OF i(1)] GetUnitInfo_unit [OF i(1)] show ?thesis
    by (intro that [of "of_nat i"]) simp_all
qed

lemma SetNextRegion_spec:
  assumes a: "is_region T a" and b: "b = 0 \<or> is_region T b"
  shows "\<exists>T'. SetNextRegion a b T = Inr T' \<and> next_of T' = (next_of T)(a := b) \<and> prev_of T' = prev_of T \<and>
    region_rest T' = region_rest T"
proof -
  from is_regionD [OF a] obtain m where m: "units T a = Some m" by auto
  have "\<exists>idx. SetNextRegion a b T = Inr (with_unit a (m\<lparr>nextRegionIdx := idx\<rparr>) T) \<and> link_of T idx = b"
  proof (cases "b = 0")
    case True
    then show ?thesis using m by (auto simp: SetNextRegion_def write_unit_at link_of_def)
  next
    case False
    with b obtain idx where "GetUnitIdx T b = Inr idx" "(ucast idx :: u32) \<noteq> INVALID_IDX"
      "GetUnitInfo T (ucast (ucast idx :: u32)) = Inr b" using region_index by blast
    with False m show ?thesis
      by (intro exI [of _ "ucast idx :: u32"]) (simp add: SetNextRegion_def write_unit_at link_of_def)
  qed
  then obtain idx where s: "SetNextRegion a b T = Inr (with_unit a (m\<lparr>nextRegionIdx := idx\<rparr>) T)" "link_of T idx = b"
    by blast
  let ?T = "with_unit a (m\<lparr>nextRegionIdx := idx\<rparr>) T"
  have r: "region_rest ?T = region_rest T" using m by (simp add: region_rest_eq)
  note l = same_regions_facts(8) [OF same_regions_rest [OF r]]
  have "next_of ?T = (next_of T)(a := b)" using s(2) by (simp add: next_of_def l fun_eq_iff)
  moreover have "prev_of ?T = prev_of T" using m by (simp add: prev_of_def l fun_eq_iff)
  ultimately show ?thesis using s(1) r by blast
qed

lemma SetPrevRegion_spec:
  assumes a: "is_region T a" and b: "b = 0 \<or> is_region T b"
  shows "\<exists>T'. SetPrevRegion a b T = Inr T' \<and> prev_of T' = (prev_of T)(a := b) \<and> next_of T' = next_of T \<and>
    region_rest T' = region_rest T"
proof -
  from is_regionD [OF a] obtain m where m: "units T a = Some m" by auto
  have "\<exists>idx. SetPrevRegion a b T = Inr (with_unit a (m\<lparr>prevRegionIdx := idx\<rparr>) T) \<and> link_of T idx = b"
  proof (cases "b = 0")
    case True
    then show ?thesis using m by (auto simp: SetPrevRegion_def write_unit_at link_of_def)
  next
    case False
    with b obtain idx where "GetUnitIdx T b = Inr idx" "(ucast idx :: u32) \<noteq> INVALID_IDX"
      "GetUnitInfo T (ucast (ucast idx :: u32)) = Inr b" using region_index by blast
    with False m show ?thesis
      by (intro exI [of _ "ucast idx :: u32"]) (simp add: SetPrevRegion_def write_unit_at link_of_def)
  qed
  then obtain idx where s: "SetPrevRegion a b T = Inr (with_unit a (m\<lparr>prevRegionIdx := idx\<rparr>) T)" "link_of T idx = b"
    by blast
  let ?T = "with_unit a (m\<lparr>prevRegionIdx := idx\<rparr>) T"
  have r: "region_rest ?T = region_rest T" using m by (simp add: region_rest_eq)
  note l = same_regions_facts(8) [OF same_regions_rest [OF r]]
  have "prev_of ?T = (prev_of T)(a := b)" using s(2) by (simp add: prev_of_def l fun_eq_iff)
  moreover have "next_of ?T = next_of T" using m by (simp add: next_of_def l fun_eq_iff)
  ultimately show ?thesis using s(1) r by blast
qed

interpretation regions: link_store is_region 0 next_of prev_of region_rest SetNextRegion SetPrevRegion
proof unfold_locales
  show "\<not> is_region s 0" for s using is_regionD(1) by blast
  show "is_region s' = is_region s" if "region_rest s' = region_rest s" for s s'
    by (rule same_regions_facts(7) [OF same_regions_rest [OF that]])
qed (fact SetNextRegion_spec SetPrevRegion_spec)+

text \<open>What is read back is the link.\<close>

lemma link_read:
  assumes "table_ok T" and "link_of T idx = 0 \<or> is_region T (link_of T idx)"
  shows "(if idx = INVALID_IDX then Inr 0 else GetUnitInfo T (ucast idx)) = Inr (link_of T idx)"
proof (cases "idx = INVALID_IDX")
  case False
  show ?thesis
  proof (cases "GetUnitInfo T (ucast idx)")
    case (Inl e)
    with False have "link_of T idx = heapStartAddress T" by (simp add: link_of_def)
    moreover have "heapStartAddress T \<noteq> 0" using assms(1) by (auto simp: table_ok_def)
    ultimately show ?thesis using assms(2) is_regionD(3) by metis
  next
    case (Inr q)
    with False show ?thesis by (simp add: link_of_def)
  qed
qed (simp add: link_of_def)

lemma is_region_table: "is_region T p \<Longrightarrow> table_ok T"
  by (auto simp: is_region_def unit_ok_def)

lemma GetNextRegion_reads:
  assumes "is_region T p" and "next_of T p = 0 \<or> is_region T (next_of T p)"
  shows "GetNextRegion p T = Inr (next_of T p)"
proof -
  from is_regionD(2) [OF assms(1)] obtain m where "units T p = Some m" by blast
  with assms(2) link_read [OF is_region_table [OF assms(1)], of "nextRegionIdx m"] show ?thesis
    by (simp add: GetNextRegion_def read_unit_def next_of_def)
qed

lemma GetPrevRegion_reads:
  assumes "is_region T p" and "prev_of T p = 0 \<or> is_region T (prev_of T p)"
  shows "GetPrevRegion p T = Inr (prev_of T p)"
proof -
  from is_regionD(2) [OF assms(1)] obtain m where "units T p = Some m" by blast
  with assms(2) link_read [OF is_region_table [OF assms(1)], of "prevRegionIdx m"] show ?thesis
    by (simp add: GetPrevRegion_def read_unit_def prev_of_def)
qed

lemma linked_reads:
  assumes "regions.linked T (xs @ p # ys)"
  shows "GetNextRegion p T = Inr (hd (ys @ [0]))" and "GetPrevRegion p T = Inr (last (0 # xs))"
proof -
  have p: "is_region T p" using assms by (simp add: regions.linked_def)
  have n: "next_of T p = hd (ys @ [0])" "prev_of T p = last (0 # xs)"
    using regions.linked_nxt [OF assms] regions.linked_prv [OF assms] by simp_all
  have "hd (ys @ [0]) = 0 \<or> is_region T (hd (ys @ [0]))"
    using regions.linked_hd_node [of T "xs @ [p]" ys] assms by (cases "ys = []") simp_all
  with GetNextRegion_reads [OF p] n show "GetNextRegion p T = Inr (hd (ys @ [0]))" by simp
  have "last (0 # xs) = 0 \<or> is_region T (last (0 # xs))"
    using regions.linked_last_node [of T xs "p # ys"] assms by (cases "xs = []") simp_all
  with GetPrevRegion_reads [OF p] n show "GetPrevRegion p T = Inr (last (0 # xs))" by simp
qed

section \<open>What a list holds\<close>

definition units_in :: "region_table \<Rightarrow> addr \<Rightarrow> nat" where
  "units_in T p = (case GetUnitCount p T of Inr c \<Rightarrow> unat c | Inl _ \<Rightarrow> 0)"

definition list_rep :: "region_table \<Rightarrow> region_list \<Rightarrow> addr list \<Rightarrow> bool" where
  "list_rep T l rs \<longleftrightarrow> regions.linked T rs \<and> listHead l = hd (rs @ [0]) \<and> listTail l = last (0 # rs) \<and>
    unat (regionCount l) = length rs \<and> unat (unitCount l) = sum_list (map (units_in T) rs)"

lemma list_rep_empty: "list_rep T RegionList_Construct []" "list_rep T (ClearList l) []"
  by (simp_all add: list_rep_def RegionList_Construct_def ClearList_def)

lemma units_in_same: "same_regions T T' \<Longrightarrow> units_in T' = units_in T"
  by (simp add: units_in_def same_regions_facts(6) fun_eq_iff)

lemma GetUnitCount_units: "is_region T p \<Longrightarrow> \<exists>c. GetUnitCount p T = Inr c \<and> unat c = units_in T p"
  by (auto simp: is_region_def units_in_def)

text \<open>
  The effect of an operation: some regions get a type, only links of nodes in \<open>A\<close> change. Lists
  without such nodes are as before.
\<close>

definition typed :: "u8 \<Rightarrow> unit_metadata \<Rightarrow> unit_metadata" where
  "typed ty m = m\<lparr>regionStateBitField := SetAtomicValueU16 0 4 (ucast ty) (regionStateBitField m)\<rparr>"

definition retyped :: "addr set \<Rightarrow> u8 \<Rightarrow> addr \<times> u64 \<times> (addr \<Rightarrow> unit_metadata option) \<Rightarrow>
    addr \<times> u64 \<times> (addr \<Rightarrow> unit_metadata option)" where
  "retyped S ty = (\<lambda>(h, n, f). (h, n, \<lambda>p. map_option (\<lambda>m. if p \<in> S then typed ty m else m) (f p)))"

definition effect :: "addr set \<Rightarrow> addr set \<Rightarrow> u8 \<Rightarrow> region_table \<Rightarrow> region_table \<Rightarrow> bool" where
  "effect A S ty T T' \<longleftrightarrow> region_rest T' = retyped S ty (region_rest T) \<and>
    (\<forall>p. p \<notin> A \<longrightarrow> next_of T' p = next_of T p \<and> prev_of T' p = prev_of T p)"

lemma retyped_none [simp]: "retyped {} ty r = r"
  by (simp add: retyped_def option.map_ident split: prod.split)

lemma effect_same_regions: "effect A S ty T T' \<Longrightarrow> same_regions T T'"
proof -
  assume "effect A S ty T T'"
  then have r: "heapStartAddress T' = heapStartAddress T" "totalUnitCount T' = totalUnitCount T"
    "map_option (\<lambda>m. m\<lparr>nextRegionIdx := 0, prevRegionIdx := 0\<rparr>) (units T' p) =
      map_option (\<lambda>m. if p \<in> S then typed ty m else m)
        (map_option (\<lambda>m. m\<lparr>nextRegionIdx := 0, prevRegionIdx := 0\<rparr>) (units T p))" for p
    by (auto simp: effect_def region_rest_def retyped_def fun_eq_iff)
  have "map_option regionEnd (units T' p) = map_option regionEnd (units T p)" for p
    using arg_cong [OF r(3) [of p], where f = "map_option regionEnd"]
    by (auto simp: option.map_comp o_def typed_def if_distrib cong: if_cong)
  with r show ?thesis by (simp add: same_regions_def)
qed

lemma linked_off:
  assumes "effect A S ty T T'" and "regions.linked T zs" and "set zs \<inter> A = {}"
  shows "regions.linked T' zs"
proof -
  have e: "next_of T' p = next_of T p" "prev_of T' p = prev_of T p" if "p \<in> set zs" for p
    using assms(1,3) that by (auto simp: effect_def)
  have "path (next_of T') (prev_of T') p zs q = path (next_of T) (prev_of T) p zs q" for p q
    using e by (induction zs arbitrary: p) simp_all
  with assms(2) same_regions_facts(7) [OF effect_same_regions [OF assms(1)]] show ?thesis
    by (simp add: regions.linked_def)
qed

lemma list_rep_off:
  "effect A S ty T T' \<Longrightarrow> list_rep T l rs \<Longrightarrow> set rs \<inter> A = {} \<Longrightarrow> list_rep T' l rs"
  using linked_off units_in_same [OF effect_same_regions] by (simp add: list_rep_def)

lemma effect_type:
  assumes "effect A S ty T T'" and "is_region T p" and "take_bit 4 ty = ty"
  shows "GetRegionType p T' = (if p \<in> S then Inr ty else GetRegionType p T)"
proof -
  from is_regionD(2) [OF assms(2)] obtain m where m: "units T p = Some m" by blast
  have "map_option (\<lambda>m. m\<lparr>nextRegionIdx := 0, prevRegionIdx := 0\<rparr>) (units T' p) =
      Some ((if p \<in> S then typed ty (m\<lparr>nextRegionIdx := 0, prevRegionIdx := 0\<rparr>)
        else m\<lparr>nextRegionIdx := 0, prevRegionIdx := 0\<rparr>))"
    using assms(1) m by (auto simp: effect_def region_rest_def retyped_def fun_eq_iff)
  then obtain m' where m': "units T' p = Some m'" "m'\<lparr>nextRegionIdx := 0, prevRegionIdx := 0\<rparr> =
      (if p \<in> S then typed ty (m\<lparr>nextRegionIdx := 0, prevRegionIdx := 0\<rparr>)
        else m\<lparr>nextRegionIdx := 0, prevRegionIdx := 0\<rparr>)" by (auto simp: map_option_eq_Some)
  have s: "regionStateBitField m' = (if p \<in> S then SetAtomicValueU16 0 4 (ucast ty) (regionStateBitField m)
      else regionStateBitField m)"
    using arg_cong [OF m'(2), where f = regionStateBitField] by (simp add: typed_def split: if_splits)
  have "take_bit 4 (ucast ty :: u16) = ucast ty" using assms(3) by (metis unsigned_take_bit_eq)
  moreover have "ucast (ucast ty :: u16) = ty" by (rule bit_word_eqI) (simp add: bit_ucast_iff)
  ultimately show ?thesis using m m'(1) s
    by (simp add: GetRegionType_def read_unit_def REGION_TYPE_FLAG_def BIT_LENGTH_def U16_get_set_low)
qed

section \<open>Each operation on one list\<close>

lemma SetRegionType_effect:
  assumes "is_region T p"
  obtains T' where "SetRegionType p ty T = Inr T'" and "effect {} {p} ty T T'"
    and "next_of T' = next_of T" and "prev_of T' = prev_of T"
proof -
  from is_regionD(2) [OF assms] obtain m where m: "units T p = Some m" by blast
  let ?T = "with_unit p (typed ty m) T"
  have "SetRegionType p ty T = Inr ?T"
    using m by (simp add: setter_defs write_unit_at typed_def REGION_TYPE_FLAG_def BIT_LENGTH_def)
  moreover have r: "region_rest ?T = retyped {p} ty (region_rest T)"
    using m by (auto simp: region_rest_def retyped_def fun_eq_iff typed_def option.map_ident)
  have "link_of ?T = link_of T"
    using m by (intro same_regions_facts(8)) (simp add: same_regions_def typed_def)
  then have "next_of ?T = next_of T" "prev_of ?T = prev_of T"
    using m by (auto simp: next_of_def prev_of_def typed_def fun_eq_iff)
  ultimately show ?thesis using that r by (simp add: effect_def)
qed

lemma IncCounts_fits:
  assumes "unat (regionCount l) + unat a < 2 ^ 64" and "unat (unitCount l) + unat b < 2 ^ 64"
  shows "IncCounts a b l = Inr (l\<lparr>regionCount := regionCount l + a, unitCount := unitCount l + b\<rparr>)"
    and "unat (regionCount l + a) = unat (regionCount l) + unat a"
    and "unat (unitCount l + b) = unat (unitCount l) + unat b"
proof -
  have le: "y \<le> - 1 - x" if "unat x + unat y < 2 ^ 64" for x y :: u64
  proof -
    have m: "unat (- 1 :: u64) = 2 ^ 64 - 1" by (simp add: unsigned_minus_1_eq_mask mask_eq_exp_minus_1)
    have "unat x < 2 ^ 64" using unsigned_less [of x] by simp
    then have "x \<le> - 1" using m by (simp add: word_le_nat_alt)
    from unat_sub [OF this] m have "unat (- 1 - x) = 2 ^ 64 - 1 - unat x" by simp
    with that show ?thesis by (simp add: word_le_nat_alt)
  qed
  from le [OF assms(1)] le [OF assms(2)]
  show "IncCounts a b l = Inr (l\<lparr>regionCount := regionCount l + a, unitCount := unitCount l + b\<rparr>)"
    by (simp add: IncCounts_def not_less)
  show "unat (regionCount l + a) = unat (regionCount l) + unat a"
    "unat (unitCount l + b) = unat (unitCount l) + unat b"
    using assms by (simp_all add: unat_word_ariths)
qed

theorem PrependRegionLocked_rep:
  assumes rep: "list_rep T l rs" and p: "is_region T p" "p \<notin> set rs"
    and fits: "Suc (length rs) < 2 ^ 64" "units_in T p + sum_list (map (units_in T) rs) < 2 ^ 64"
  obtains l' T' where "PrependRegionLocked l p ty T = Inr (l', T')" and "list_rep T' l' (p # rs)"
    and "effect (set (p # rs)) {p} ty T T'"
proof -
  have l: "regions.linked T rs" "listHead l = hd (rs @ [0])" "listTail l = last (0 # rs)"
    "unat (regionCount l) = length rs" "unat (unitCount l) = sum_list (map (units_in T) rs)"
    using rep by (simp_all add: list_rep_def)
  from SetRegionType_effect [OF p(1)] obtain T1 where
    T1: "SetRegionType p ty T = Inr T1" "effect {} {p} ty T T1" "next_of T1 = next_of T" "prev_of T1 = prev_of T" by blast
  note s1 = same_regions_facts [OF effect_same_regions [OF T1(2)]]
  have l1: "regions.linked T1 rs" using linked_off [OF T1(2) l(1)] by simp
  have p1: "is_region T1 p" using p(1) s1(7) by simp
  from SetPrevRegion_spec [OF p1, of 0] obtain T2 where
    T2: "SetPrevRegion p 0 T1 = Inr T2" "prev_of T2 = (prev_of T1)(p := 0)" "next_of T2 = next_of T1"
    "region_rest T2 = region_rest T1" by blast
  note s2 = same_regions_facts [OF same_regions_rest [OF T2(4)]]
  from GetUnitCount_units [OF p(1)] obtain c where c: "GetUnitCount p T2 = Inr c" "unat c = units_in T p"
    using s1(6) s2(6) by auto
  let ?l = "l\<lparr>regionCount := regionCount l + 1, unitCount := unitCount l + c\<rparr>"
  have inc: "IncCounts 1 c l = Inr ?l" "unat (regionCount l + 1) = Suc (length rs)"
    "unat (unitCount l + c) = units_in T p + sum_list (map (units_in T) rs)"
    using IncCounts_fits [of l 1 c] fits l(4,5) c(2) by simp_all
  have h: "listHead l = 0 \<longleftrightarrow> rs = []" using regions.linked_hd [OF l(1)] l(2) by simp
  have "listHead l = 0 \<or> is_region T2 (listHead l)"
    using regions.linked_hd_node [of T "[]" rs] l(1,2) h s1(7) s2(7) by (cases "rs = []") simp_all
  from SetNextRegion_spec [OF _ this, of p] p1 s2(7) obtain T3 where
    T3: "SetNextRegion p (listHead l) T2 = Inr T3" "next_of T3 = (next_of T2)(p := listHead l)"
    "prev_of T3 = prev_of T2" "region_rest T3 = region_rest T2" by auto
  note s3 = same_regions_facts [OF same_regions_rest [OF T3(4)]]
  obtain l' T4 where T4: "(if listHead l = 0 then Inr (?l\<lparr>listTail := p, listHead := p\<rparr>, T3)
      else and_then (SetPrevRegion (listHead l) p T3) (\<lambda>T. Inr (?l\<lparr>listHead := p\<rparr>, T))) = Inr (l', T4)"
    "listHead l' = p" "listTail l' = last (p # rs)" "regionCount l' = regionCount l + 1" "unitCount l' = unitCount l + c"
    "prev_of T4 = (if rs = [] then prev_of T3 else (prev_of T3)(hd rs := p))" "next_of T4 = next_of T3"
    "region_rest T4 = region_rest T3"
  proof (cases "rs = []")
    case True
    with that [of "?l\<lparr>listTail := p, listHead := p\<rparr>" T3] h show ?thesis by simp
  next
    case False
    have "is_region T3 (hd rs)" using regions.linked_hd_node [of T "[]" rs] l(1) False s1(7) s2(7) s3(7) by simp
    from SetPrevRegion_spec [OF this, of p] p1 s2(7) s3(7) obtain T4 where
      "SetPrevRegion (hd rs) p T3 = Inr T4" "prev_of T4 = (prev_of T3)(hd rs := p)" "next_of T4 = next_of T3"
      "region_rest T4 = region_rest T3" by auto
    with that [of "?l\<lparr>listHead := p\<rparr>" T4] h False l(2,3) show ?thesis by simp
  qed
  have rest: "region_rest T4 = region_rest T1" using T4(8) T3(4) T2(4) by simp
  have "regions.linked T4 (p # rs)"
    by (rule regions.linked_cons [OF l1 p1 p(2) _ _ rest]) (use T4 T3 T2 l(2) in auto)
  moreover have "units_in T4 = units_in T"
    using units_in_same [OF same_regions_rest [OF rest]] units_in_same [OF effect_same_regions [OF T1(2)]] by simp
  ultimately have "list_rep T4 l' (p # rs)" using T4 inc by (simp add: list_rep_def)
  moreover have "effect (set (p # rs)) {p} ty T T4"
    using T1(2-4) T2 T3 T4 rest by (auto simp: effect_def)
  moreover have "PrependRegionLocked l p ty T = Inr (l', T4)"
    using is_regionD(1) [OF p(1)] T1(1) T2(1) c(1) inc(1) T3(1) T4(1)
    by (cases "listHead l = 0") (simp_all add: PrependRegionLocked_def)
  ultimately show ?thesis using that by blast
qed

lemma DecCounts_fits:
  assumes "unat a \<le> unat (regionCount l)" and "unat b \<le> unat (unitCount l)"
  shows "DecCounts a b l = Inr (l\<lparr>regionCount := regionCount l - a, unitCount := unitCount l - b\<rparr>)"
    and "unat (regionCount l - a) = unat (regionCount l) - unat a"
    and "unat (unitCount l - b) = unat (unitCount l) - unat b"
proof -
  have le: "a \<le> regionCount l" "b \<le> unitCount l" using assms by (simp_all add: word_le_nat_alt)
  then show "DecCounts a b l = Inr (l\<lparr>regionCount := regionCount l - a, unitCount := unitCount l - b\<rparr>)"
    by (simp add: DecCounts_def)
  show "unat (regionCount l - a) = unat (regionCount l) - unat a" using le(1) by (rule unat_sub)
  show "unat (unitCount l - b) = unat (unitCount l) - unat b" using le(2) by (rule unat_sub)
qed

text \<open>The last part of a deletion, when the region's own links have been cleared.\<close>

lemma relink_neighbours_links:
  fixes l :: region_list
  assumes dist: "distinct (xs @ d # ys)" and ok: "\<And>x. x \<in> set xs \<union> set ys \<Longrightarrow> is_region T x"
    and h: "listHead l = hd (xs @ [d])" and t: "listTail l = last (d # ys)"
  defines "p \<equiv> last (0 # xs)" and "n \<equiv> hd (ys @ [0])"
  obtains l' T' where "relink_neighbours l d p n T = Inr (l', T')"
    and "listHead l' = hd (xs @ ys @ [0])" and "listTail l' = last (0 # xs @ ys)"
    and "regionCount l' = regionCount l" and "unitCount l' = unitCount l"
    and "next_of T' = (if xs = [] then next_of T else (next_of T)(last xs := n))"
    and "prev_of T' = (if ys = [] then prev_of T else (prev_of T)(hd ys := p))"
    and "region_rest T' = region_rest T"
proof -
  have d: "d \<notin> set xs" "d \<notin> set ys" using dist by simp_all
  have n: "n = 0 \<longleftrightarrow> ys = []" "n = 0 \<or> is_region T n"
    using ok [of "hd ys"] is_regionD(1) [of T "hd ys"] by (cases "ys = []"; auto simp: n_def)+
  have p: "p = 0 \<longleftrightarrow> xs = []" "p = 0 \<or> is_region T p"
    using ok [of "last xs"] is_regionD(1) [of T "last xs"] by (cases "xs = []"; auto simp: p_def)+
  have hd: "listHead l = d \<longleftrightarrow> xs = []" using h d(1) by (cases xs) auto
  have tl: "listTail l = d \<longleftrightarrow> ys = []" using t d(2) last_in_set [of ys] by (cases "ys = []") auto
  obtain T1 where T1: "(if xs = [] then Inr T else SetNextRegion p n T) = Inr T1"
    "next_of T1 = (if xs = [] then next_of T else (next_of T)(last xs := n))" "prev_of T1 = prev_of T"
    "region_rest T1 = region_rest T"
  proof (cases "xs = []")
    case False
    then have "p = last xs" "is_region T p" using p by (simp_all add: p_def)
    with SetNextRegion_spec [OF _ n(2), of p] that False show ?thesis by auto
  qed (use that in simp)
  note s1 = same_regions_facts [OF same_regions_rest [OF T1(4)]]
  obtain T2 where T2: "(if ys = [] then Inr T1 else SetPrevRegion n p T1) = Inr T2"
    "prev_of T2 = (if ys = [] then prev_of T1 else (prev_of T1)(hd ys := p))" "next_of T2 = next_of T1"
    "region_rest T2 = region_rest T1"
  proof (cases "ys = []")
    case False
    then have "n = hd ys" "is_region T1 n" "p = 0 \<or> is_region T1 p" using n p s1(7) by (simp_all add: n_def)
    with SetPrevRegion_spec [of T1 n p] that False show ?thesis by auto
  qed (use that in simp)
  show ?thesis
  proof (cases "xs = []")
    case True
    show ?thesis
    proof (cases "ys = []")
      assume "ys = []"
      with True hd n T1 T2 show ?thesis by (intro that [of "l\<lparr>listHead := n, listTail := 0\<rparr>" T]) (simp_all add: relink_neighbours_def)
    next
      assume ne: "ys \<noteq> []"
      with True hd tl n T1 T2 show ?thesis
        by (intro that [of "l\<lparr>listHead := n\<rparr>" T2]) (simp_all add: n_def t relink_neighbours_def)
    qed
  next
    case False
    show ?thesis
    proof (cases "ys = []")
      assume "ys = []"
      with False hd tl p T1 T2 h show ?thesis
        by (intro that [of "l\<lparr>listTail := p\<rparr>" T2]) (simp_all add: p_def relink_neighbours_def)
    next
      assume ne: "ys \<noteq> []"
      with False hd tl p T1 T2 h t show ?thesis by (intro that [of l T2]) (simp_all add: relink_neighbours_def)
    qed
  qed
qed

theorem DeleteRegionLocked_rep:
  assumes rep: "list_rep T l (xs @ d # ys)"
  obtains l' T' where "DeleteRegionLocked l d T = Inr (l', T')" and "list_rep T' l' (xs @ ys)"
    and "effect (set (xs @ d # ys)) {} 0 T T'"
proof -
  have l: "regions.linked T (xs @ d # ys)" "listHead l = hd (xs @ [d])" "listTail l = last (d # ys)"
    "unat (regionCount l) = Suc (length (xs @ ys))"
    "unat (unitCount l) = units_in T d + sum_list (map (units_in T) (xs @ ys))"
    using rep by (simp_all add: list_rep_def hd_append)
  have d: "is_region T d" using l(1) by (simp add: regions.linked_def)
  from regions.nxt_then_prv [OF d _ d, of 0 0] obtain T1 T2 where
    T2: "SetNextRegion d 0 T = Inr T1" "SetPrevRegion d 0 T1 = Inr T2" "regions.relinked d 0 d 0 T T2" by auto
  have r2: "region_rest T2 = region_rest T" "next_of T2 = (next_of T)(d := 0)" "prev_of T2 = (prev_of T)(d := 0)"
    using T2(3) by (simp_all add: regions.relinked_def)
  note s2 = same_regions_facts [OF same_regions_rest [OF r2(1)]]
  from GetUnitCount_units [OF d] obtain c where c: "GetUnitCount d T2 = Inr c" "unat c = units_in T d"
    using s2(6) by auto
  let ?l = "l\<lparr>regionCount := regionCount l - 1, unitCount := unitCount l - c\<rparr>"
  have dec: "DecCounts 1 c l = Inr ?l" "unat (regionCount l - 1) = length (xs @ ys)"
    "unat (unitCount l - c) = sum_list (map (units_in T) (xs @ ys))"
    using DecCounts_fits [of 1 l c] l(4,5) c(2) by simp_all
  let ?p = "last (0 # xs)" and ?n = "hd (ys @ [0])"
  have dist: "distinct (xs @ d # ys)" by (rule regions.linked_distinct [OF l(1)])
  have ok: "is_region T2 x" if "x \<in> set xs \<union> set ys" for x using that l(1) s2(7) by (auto simp: regions.linked_def)
  have h: "listHead ?l = hd (xs @ [d])" "listTail ?l = last (d # ys)" using l(2,3) by simp_all
  obtain l' T' where f: "relink_neighbours ?l d ?p ?n T2 = Inr (l', T')"
    and l': "listHead l' = hd (xs @ ys @ [0])" "listTail l' = last (0 # xs @ ys)"
      "regionCount l' = regionCount ?l" "unitCount l' = unitCount ?l"
    and T': "next_of T' = (if xs = [] then next_of T2 else (next_of T2)(last xs := ?n))"
      "prev_of T' = (if ys = [] then prev_of T2 else (prev_of T2)(hd ys := ?p))" "region_rest T' = region_rest T2"
    by (rule relink_neighbours_links [OF dist ok h]) blast+
  have rest: "region_rest T' = region_rest T" using T'(3) r2(1) by simp
  have "regions.linked T' (xs @ ys)"
    by (rule regions.linked_unlink [OF l(1) _ _ rest]) (simp_all add: T'(1,2) r2(2,3))
  with l' dec(2,3) units_in_same [OF same_regions_rest [OF rest]] have "list_rep T' l' (xs @ ys)"
    by (simp add: list_rep_def)
  moreover have "effect (set (xs @ d # ys)) {} 0 T T'"
    using rest T'(1,2) r2(2,3) by (auto simp: effect_def)
  moreover have "DeleteRegionLocked l d T = Inr (l', T')"
    using linked_reads [OF l(1)] T2(1,2) c(1) dec(1) f by (simp add: DeleteRegionLocked_def)
  ultimately show ?thesis using that by blast
qed

section \<open>Whole lists\<close>

lemma typed_typed [simp]: "typed ty (typed ty m) = typed ty m"
proof -
  have "SetAtomicValueU16 0 4 v (SetAtomicValueU16 0 4 v w) = SetAtomicValueU16 0 4 v w" for v w
    by (rule bit_word_eqI) (simp add: bit_SetAtomicValueU16)
  then show ?thesis by (simp add: typed_def)
qed

lemma effect_trans:
  assumes "effect A S ty T T1" and "effect B S' ty T1 T2"
  shows "effect (A \<union> B) (S \<union> S') ty T T2"
proof -
  obtain h n g where r: "region_rest T = (h, n, g)" by (cases "region_rest T")
  have "map_option (\<lambda>m. if p \<in> S' then typed ty m else m) (map_option (\<lambda>m. if p \<in> S then typed ty m else m) x) =
      map_option (\<lambda>m. if p \<in> S \<union> S' then typed ty m else m) x" for p x
    by (cases x) auto
  then have "retyped S' ty (retyped S ty (region_rest T)) = retyped (S \<union> S') ty (region_rest T)"
    unfolding r retyped_def prod.case by (intro arg_cong2 [where f = Pair] refl ext)
  with assms show ?thesis by (auto simp: effect_def)
qed

text \<open>A loop that leaves the links ends, and does its thing at every region of the list.\<close>

lemma each_region_walks:
  assumes "regions.linked T (xs @ ys)"
    and "\<And>T p. is_region T p \<Longrightarrow> \<exists>T'. f p T = Inr T' \<and> effect {} {p} ty T T'"
  shows "\<exists>T'. each_region f (hd (ys @ [0])) T = Some (Inr T') \<and> effect {} (set ys) ty T T'"
  using assms(1)
proof (induction ys arbitrary: xs T)
  case Nil
  show ?case by (subst each_region.simps) (simp add: effect_def)
next
  case (Cons y ys)
  have y: "is_region T y" "y \<noteq> 0" using Cons.prems is_regionD(1) by (auto simp: regions.linked_def)
  from assms(2) [OF y(1)] obtain T1 where T1: "f y T = Inr T1" "effect {} {y} ty T T1" by blast
  have l1: "regions.linked T1 (xs @ y # ys)" using linked_off [OF T1(2) Cons.prems] by simp
  then have "regions.linked T1 ((xs @ [y]) @ ys)" by simp
  from Cons.IH [OF this] obtain T' where
    T': "each_region f (hd (ys @ [0])) T1 = Some (Inr T')" "effect {} (set ys) ty T1 T'" by blast
  have "each_region f (hd ((y # ys) @ [0])) T = Some (Inr T')"
    using y(2) T1(1) linked_reads(1) [OF l1] T'(1) by (subst each_region.simps) simp
  moreover have "effect {} (set (y # ys)) ty T T'" using effect_trans [OF T1(2) T'(2)] by simp
  ultimately show ?case by blast
qed

theorem SetElementType_rep:
  assumes "list_rep T l rs"
  obtains T' where "SetElementType ty l T = Some (Inr T')" and "effect {} (set rs) ty T T'"
proof -
  have l: "regions.linked T ([] @ rs)" "listHead l = hd (rs @ [0])" using assms by (simp_all add: list_rep_def)
  have "\<exists>T'. SetRegionType p ty T = Inr T' \<and> effect {} {p} ty T T'" if "is_region T p" for T p
    using SetRegionType_effect [OF that, of ty] by metis
  from each_region_walks [OF l(1) this] l(2) that show ?thesis by (auto simp: SetElementType_def)
qed

theorem MergeRegionList_rep:
  assumes rep: "list_rep T l rs" and src: "list_rep T src rs2" and dis: "set rs \<inter> set rs2 = {}"
    and fits: "length rs + length rs2 < 2 ^ 64"
      "sum_list (map (units_in T) rs) + sum_list (map (units_in T) rs2) < 2 ^ 64"
  obtains l' T' where "MergeRegionList l src ty T = Some (Inr (l', ClearList src, T'))"
    and "list_rep T' l' (rs2 @ rs)" and "effect (set rs \<union> set rs2) (set rs2) ty T T'"
proof -
  let ?c = "AssignWith RegionList_Construct src"
  have c: "list_rep T ?c rs2" "listHead ?c = listHead src" "listTail ?c = listTail src"
    "regionCount ?c = regionCount src" "unitCount ?c = unitCount src"
    using src by (simp_all add: list_rep_def AssignWith_def)
  have l: "regions.linked T rs" "listHead l = hd (rs @ [0])" "listTail l = last (0 # rs)"
    and l2: "regions.linked T rs2" "listHead src = hd (rs2 @ [0])" "listTail src = last (0 # rs2)"
    using rep src by (simp_all add: list_rep_def)
  show ?thesis
  proof (cases "rs2 = []")
    case True
    then have "MergeRegionList l src ty T = Some (Inr (l, ClearList src, T))"
      using l2 c by (simp add: MergeRegionList_def MoveTo_def)
    with True rep show ?thesis by (intro that [of l T]) (simp_all add: effect_def)
  next
    case ne: False
    then have h: "listHead ?c \<noteq> 0" using regions.linked_hd [OF l2(1)] l2(2) c(2) by simp
    from SetElementType_rep [OF c(1), of ty] obtain T1 where
      T1: "SetElementType ty ?c T = Some (Inr T1)" "effect {} (set rs2) ty T T1" by blast
    note s1 = effect_same_regions [OF T1(2)]
    let ?l = "l\<lparr>regionCount := regionCount l + regionCount src, unitCount := unitCount l + unitCount src\<rparr>"
    have inc: "IncCounts (regionCount src) (unitCount src) l = Inr ?l"
      "unat (regionCount l + regionCount src) = length (rs2 @ rs)"
      "unat (unitCount l + unitCount src) = sum_list (map (units_in T) (rs2 @ rs))"
      using IncCounts_fits [of l "regionCount src" "unitCount src"] fits rep src
      by (simp_all add: list_rep_def add.commute)
    have k: "regions.linked T1 rs" "regions.linked T1 rs2"
      using linked_off [OF T1(2)] l(1) l2(1) by simp_all
    show ?thesis
    proof (cases "rs = []")
      case True
      let ?l' = "?l\<lparr>listHead := listHead src, listTail := listTail src\<rparr>"
      have "MergeRegionList l src ty T = Some (Inr (?l', ClearList src, T1))"
        using h c T1(1) inc(1) l(2) True by (simp add: MergeRegionList_def MoveTo_def)
      moreover have "list_rep T1 ?l' (rs2 @ rs)"
        using True k(2) l2 inc(2,3) units_in_same [OF s1] by (simp add: list_rep_def)
      moreover have "effect (set rs \<union> set rs2) (set rs2) ty T T1" using T1(2) by (simp add: effect_def)
      ultimately show ?thesis by (rule that)
    next
      case False
      have n: "is_region T1 (last rs2)" "is_region T1 (hd rs)"
        using regions.linked_last_node [of T1 rs2 "[]"] regions.linked_hd_node [of T1 "[]" rs] k ne False by simp_all
      from regions.nxt_then_prv [of T1 "last rs2" "hd rs" "hd rs" "last rs2"] n obtain T2 T3 where
        T3: "SetNextRegion (last rs2) (hd rs) T1 = Inr T2" "SetPrevRegion (hd rs) (last rs2) T2 = Inr T3"
        "regions.relinked (last rs2) (hd rs) (hd rs) (last rs2) T1 T3" by blast
      have r: "region_rest T3 = region_rest T1" using T3(3) by (simp add: regions.relinked_def)
      have "listHead l = hd rs" "hd rs \<noteq> 0" "listTail src = last rs2"
        using l(2) l2(3) False ne is_regionD(1) [OF n(2)] by simp_all
      then have "MergeRegionList l src ty T = Some (Inr (?l\<lparr>listHead := listHead src\<rparr>, ClearList src, T3))"
        using h c T1(1) inc(1) T3(1,2) by (simp add: MergeRegionList_def MoveTo_def)
      moreover have "set rs2 \<inter> set rs = {}" using dis by blast
      then have "regions.linked T3 (rs2 @ rs)" using regions.relinked_join [OF k(2,1) ne False _ T3(3)] by blast
      then have "list_rep T3 (?l\<lparr>listHead := listHead src\<rparr>) (rs2 @ rs)"
        using l(3) l2(2) ne False inc(2,3) units_in_same [OF s1] units_in_same [OF same_regions_rest [OF r]]
        by (simp add: list_rep_def hd_append)
      moreover have "effect (set rs \<union> set rs2) {} ty T1 T3"
        using T3(3) ne False r by (auto simp: effect_def regions.relinked_def)
      then have "effect (set rs \<union> set rs2) (set rs2) ty T T3" using effect_trans [OF T1(2)] by fastforce
      ultimately show ?thesis by (rule that)
    qed
  qed
qed

section \<open>Several lists over one table\<close>

text \<open>
  The regions do not overlap and lie in the heap, so that the units of some of them are never more
  than the heap has, and the counts do not wrap.
\<close>

definition region_span :: "region_table \<Rightarrow> addr \<Rightarrow> nat set" where
  "region_span T p = {k. \<exists>i. unit_ok T i \<and> p = unit_at T i \<and> i \<le> k \<and> k < i + units_in T p}"

definition regions_apart :: "region_table \<Rightarrow> addr set \<Rightarrow> bool" where
  "regions_apart T R \<longleftrightarrow> (\<forall>p\<in>R. is_region T p \<and> region_span T p \<subseteq> {..<unat (totalUnitCount T)}) \<and>
    (\<forall>p\<in>R. \<forall>q\<in>R. p \<noteq> q \<longrightarrow> region_span T p \<inter> region_span T q = {})"

lemma region_span_unit:
  assumes "unit_ok T i"
  shows "region_span T (unit_at T i) = {i..<i + units_in T (unit_at T i)}"
proof -
  have uniq: "unit_ok T j \<and> unit_at T i = unit_at T j \<longleftrightarrow> j = i" for j
    using unit_at_inj [OF _ assms, of j] assms by metis
  have "region_span T (unit_at T i) =
      {k. \<exists>j. (unit_ok T j \<and> unit_at T i = unit_at T j) \<and> j \<le> k \<and> k < j + units_in T (unit_at T i)}"
    by (simp add: region_span_def)
  also have "\<dots> = {i..<i + units_in T (unit_at T i)}" unfolding uniq by auto
  finally show ?thesis .
qed

lemma card_region_span:
  assumes "is_region T p"
  shows "finite (region_span T p)" and "card (region_span T p) = units_in T p"
  using assms region_span_unit by (auto simp: is_region_def)

lemma regions_apart_card:
  assumes "regions_apart T R" and "distinct rs" and "set rs \<subseteq> R"
  shows "finite (\<Union>p\<in>set rs. region_span T p) \<and> card (\<Union>p\<in>set rs. region_span T p) = sum_list (map (units_in T) rs)"
  using assms(2,3)
proof (induction rs)
  case (Cons p rs)
  have p: "is_region T p" using assms(1) Cons.prems by (simp add: regions_apart_def)
  have "region_span T p \<inter> region_span T q = {}" if "q \<in> set rs" for q
  proof -
    have "p \<in> R" "q \<in> R" "p \<noteq> q" using Cons.prems that by auto
    with assms(1) show ?thesis unfolding regions_apart_def by blast
  qed
  then have "region_span T p \<inter> (\<Union>q\<in>set rs. region_span T q) = {}" by blast
  with Cons card_region_span [OF p] show ?case by (simp add: card_Un_disjoint)
qed simp

lemma regions_apart_units:
  assumes "regions_apart T R" and "distinct rs" and "set rs \<subseteq> R"
  shows "length rs < 2 ^ 64" and "sum_list (map (units_in T) rs) < 2 ^ 64"
proof -
  have r: "is_region T p" if "p \<in> set rs" for p using assms(1,3) that by (auto simp: regions_apart_def)
  then have "0 \<notin> set rs" using is_regionD(1) by blast
  with assms(2) show "length rs < 2 ^ 64" by (rule distinct_addr_length)
  have "(\<Union>p\<in>set rs. region_span T p) \<subseteq> {..<unat (totalUnitCount T)}"
    using assms(1,3) by (auto simp: regions_apart_def)
  then have "card (\<Union>p\<in>set rs. region_span T p) \<le> card {..<unat (totalUnitCount T)}"
    by (intro card_mono) simp_all
  with regions_apart_card [OF assms] have "sum_list (map (units_in T) rs) \<le> unat (totalUnitCount T)" by simp
  also have "\<dots> < 2 ^ 64" using unsigned_less [of "totalUnitCount T"] by simp
  finally show "sum_list (map (units_in T) rs) < 2 ^ 64" .
qed

lemma regions_apart_same:
  assumes "same_regions T T'"
  shows "regions_apart T' R = regions_apart T R"
proof -
  have "totalUnitCount T' = totalUnitCount T" using assms by (simp add: same_regions_def)
  moreover have "region_span T' p = region_span T p" for p
    by (simp add: region_span_def same_regions_facts [OF assms] units_in_same [OF assms])
  ultimately show ?thesis by (simp add: regions_apart_def same_regions_facts(7) [OF assms])
qed

text \<open>
  The calls of the allocator, on lists named by their number. A call takes a region on a list,
  off it, or moves regions to another one.
\<close>

datatype list_op =
  PrependOp nat addr u8
| DeleteOp nat addr
| TryDeleteOp nat addr u8 u8
| TakeHeadOp nat
| TakeHeadAsOp nat u8
| MergeOp nat nat u8
| MoveOp nat nat

definition list_op_step ::
  "list_op \<Rightarrow> region_list list \<Rightarrow> region_table \<Rightarrow> (region_list list \<times> region_table) res option" where
  "list_op_step x ls T = (case x of
      PrependOp i p ty \<Rightarrow> Some (and_then (PrependRegionLocked (ls ! i) p ty T) (\<lambda>(l, T). Inr (ls[i := l], T)))
    | DeleteOp i p \<Rightarrow> Some (and_then (DeleteRegion (ls ! i) p T) (\<lambda>(l, T). Inr (ls[i := l], T)))
    | TryDeleteOp i p old new \<Rightarrow>
        Some (and_then (TryDeleteRegion (ls ! i) p old new T) (\<lambda>(b, l, T). Inr (ls[i := l], T)))
    | TakeHeadOp i \<Rightarrow> Some (and_then (TakeHeadRegion (ls ! i) T) (\<lambda>(p, l, T). Inr (ls[i := l], T)))
    | TakeHeadAsOp i ty \<Rightarrow> Some (and_then (TakeHeadRegion_as ty (ls ! i) T) (\<lambda>(p, l, T). Inr (ls[i := l], T)))
    | MergeOp i j ty \<Rightarrow> map_option (\<lambda>r. and_then r (\<lambda>(l, src, T). Inr (ls[i := l, j := src], T)))
        (MergeRegionList (ls ! i) (ls ! j) ty T)
    | MoveOp i j \<Rightarrow> (let (src, target) = MoveTo (ls ! i) (ls ! j) in Some (Inr (ls[i := src, j := target], T))))"

fun list_op_run ::
  "list_op list \<Rightarrow> region_list list \<Rightarrow> region_table \<Rightarrow> (region_list list \<times> region_table) res option" where
  "list_op_run [] ls T = Some (Inr (ls, T))"
| "list_op_run (x # xs) ls T = (case list_op_step x ls T of None \<Rightarrow> None | Some (Inl e) \<Rightarrow> Some (Inl e)
    | Some (Inr (ls, T)) \<Rightarrow> list_op_run xs ls T)"

text \<open>
  The same on lists of regions and a type for each. \<open>None\<close> is a call nobody may make: on a list that
  does not exist, with a region that is elsewhere, with a type of more than four bits.
\<close>

definition type_ok :: "u8 \<Rightarrow> bool" where
  "type_ok ty \<longleftrightarrow> take_bit 4 ty = ty"

definition spec_op :: "addr set \<Rightarrow> list_op \<Rightarrow> addr list list \<Rightarrow> (addr \<Rightarrow> u8) \<Rightarrow> (addr list list \<times> (addr \<Rightarrow> u8)) option" where
  "spec_op R x css tys = (case x of
      PrependOp i p ty \<Rightarrow> if i < length css \<and> p \<in> R \<and> p \<notin> set (concat css) \<and> type_ok ty
        then Some (css[i := p # css ! i], tys(p := ty)) else None
    | DeleteOp i p \<Rightarrow> if i < length css \<and> p \<in> set (css ! i) then Some (css[i := remove1 p (css ! i)], tys) else None
    | TryDeleteOp i p old new \<Rightarrow>
        if i < length css \<and> p \<in> R \<and> old \<noteq> new \<and> type_ok new \<and> (tys p = old \<longrightarrow> p \<in> set (css ! i)) then
          if tys p = old then Some (css[i := remove1 p (css ! i)], tys(p := new)) else Some (css, tys)
        else None
    | TakeHeadOp i \<Rightarrow> if i < length css then Some (css[i := tl (css ! i)], tys) else None
    | TakeHeadAsOp i ty \<Rightarrow> if i < length css \<and> type_ok ty
        then Some (css[i := tl (css ! i)], if css ! i = [] then tys else tys(hd (css ! i) := ty)) else None
    | MergeOp i j ty \<Rightarrow> if i < length css \<and> j < length css \<and> i \<noteq> j \<and> type_ok ty
        then Some (css[i := css ! j @ css ! i, j := []], \<lambda>p. if p \<in> set (css ! j) then ty else tys p) else None
    | MoveOp i j \<Rightarrow> if i < length css \<and> j < length css \<and> i \<noteq> j \<and> css ! j = []
        then Some (css[i := [], j := css ! i], tys) else None)"

fun spec_ops :: "addr set \<Rightarrow> list_op list \<Rightarrow> addr list list \<Rightarrow> (addr \<Rightarrow> u8) \<Rightarrow> (addr list list \<times> (addr \<Rightarrow> u8)) option" where
  "spec_ops R [] css tys = Some (css, tys)"
| "spec_ops R (x # xs) css tys = (case spec_op R x css tys of None \<Rightarrow> None | Some (css, tys) \<Rightarrow> spec_ops R xs css tys)"

definition lists_rep :: "addr set \<Rightarrow> region_table \<Rightarrow> region_list list \<Rightarrow> addr list list \<Rightarrow> (addr \<Rightarrow> u8) \<Rightarrow> bool" where
  "lists_rep R T ls css tys \<longleftrightarrow> length ls = length css \<and> (\<forall>i<length css. list_rep T (ls ! i) (css ! i)) \<and>
    distinct (concat css) \<and> set (concat css) \<subseteq> R \<and> regions_apart T R \<and>
    (\<forall>p\<in>R. GetRegionType p T = Inr (tys p))"

lemma concat_nth_disjoint:
  assumes "distinct (concat css)" and "i < length css" and "j < length css" and "i \<noteq> j"
  shows "set (css ! i) \<inter> set (css ! j) = {}"
  using assms
proof (induction css arbitrary: i j)
  case (Cons cs css)
  have c: "set cs \<inter> set (css ! k) = {}" if "k < length css" for k
    using Cons.prems(1) nth_mem [OF that] by auto
  show ?case
  proof (cases i; cases j)
    fix i' assume "i = Suc i'" "j = 0"
    with c [of i'] Cons.prems show ?thesis by auto
  qed (use c Cons in auto)
qed simp

lemma mset_concat_update:
  "i < length css \<Longrightarrow> mset (concat (css[i := xs])) + mset (css ! i) = mset (concat css) + mset xs"
proof (induction css arbitrary: i)
  case (Cons cs css)
  then show ?case by (cases i) (auto simp: ac_simps)
qed simp

lemma set_nth_concat: "i < length css \<Longrightarrow> set (css ! i) \<subseteq> set (concat css)"
  using nth_mem by fastforce

text \<open>A call that touches the lists in \<open>I\<close> and regions that are on no other list.\<close>

lemma lists_rep_change:
  assumes rep: "lists_rep R T ls css tys" and len: "length ls' = length ls" "length css' = length css"
    and new: "\<And>i. i \<in> I \<Longrightarrow> i < length css \<Longrightarrow> list_rep T' (ls' ! i) (css' ! i)"
    and old: "\<And>i. i \<notin> I \<Longrightarrow> ls' ! i = ls ! i \<and> css' ! i = css ! i"
    and off: "\<And>i. i \<notin> I \<Longrightarrow> i < length css \<Longrightarrow> set (css ! i) \<inter> A = {}"
    and eff: "effect A S ty T T'" and ty: "type_ok ty"
    and dist: "distinct (concat css')" and sub: "set (concat css') \<subseteq> R"
    and tys: "\<And>p. p \<in> R \<Longrightarrow> tys' p = (if p \<in> S then ty else tys p)"
  shows "lists_rep R T' ls' css' tys'"
proof -
  note same = effect_same_regions [OF eff]
  have "list_rep T' (ls' ! i) (css' ! i)" if i: "i < length css" for i
  proof (cases "i \<in> I")
    case False
    have "list_rep T (ls ! i) (css ! i)" using rep i by (simp add: lists_rep_def)
    from list_rep_off [OF eff this off [OF False i]] old [OF False] show ?thesis by simp
  qed (use new i in blast)
  moreover have "regions_apart T' R" using rep regions_apart_same [OF same] by (simp add: lists_rep_def)
  moreover have "GetRegionType p T' = Inr (tys' p)" if p: "p \<in> R" for p
  proof -
    have "is_region T p" using rep p by (auto simp: lists_rep_def regions_apart_def)
    from effect_type [OF eff this ty [unfolded type_ok_def]] tys [OF p] rep p show ?thesis
      by (simp add: lists_rep_def)
  qed
  ultimately show ?thesis using rep len dist sub by (simp add: lists_rep_def)
qed

lemma effect_untyped: "effect A {} ty T T' \<Longrightarrow> effect A {} ty' T T'"
  by (simp add: effect_def)

lemma lists_rep_nth: "lists_rep R T ls css tys \<Longrightarrow> i < length css \<Longrightarrow> list_rep T (ls ! i) (css ! i)"
  by (simp add: lists_rep_def)

lemma lists_rep_other:
  "lists_rep R T ls css tys \<Longrightarrow> i < length css \<Longrightarrow> j < length css \<Longrightarrow> i \<noteq> j \<Longrightarrow> set (css ! j) \<inter> set (css ! i) = {}"
  unfolding lists_rep_def by (metis concat_nth_disjoint)

lemma list_rep_head: "list_rep T l rs \<Longrightarrow> listHead l = (if rs = [] then 0 else hd rs) \<and> (listHead l = 0 \<longleftrightarrow> rs = [])"
  using regions.linked_hd [of T rs] by (auto simp: list_rep_def)

text \<open>Taking a region off its list.\<close>

lemma lists_rep_delete:
  assumes rep: "lists_rep R T ls css tys" and i: "i < length css" and p: "p \<in> set (css ! i)"
  obtains l' T' where "DeleteRegionLocked (ls ! i) p T = Inr (l', T')"
    and "list_rep T' l' (remove1 p (css ! i))" and "effect (set (css ! i)) {} 0 T T'"
    and "p \<in> R" and "distinct (concat (css[i := remove1 p (css ! i)]))"
    and "set (concat (css[i := remove1 p (css ! i)])) \<subseteq> R" and "is_region T' p"
proof -
  from split_list_first [OF p] obtain xs ys where e: "css ! i = xs @ p # ys" "p \<notin> set xs" by blast
  then have r: "remove1 p (css ! i) = xs @ ys" by (simp add: remove1_append)
  from DeleteRegionLocked_rep [OF lists_rep_nth [OF rep i, unfolded e(1)]] obtain l' T' where
    d: "DeleteRegionLocked (ls ! i) p T = Inr (l', T')" "list_rep T' l' (xs @ ys)"
    "effect (set (xs @ p # ys)) {} 0 T T'" by blast
  have "p \<in> R" using set_nth_concat [OF i] p rep by (auto simp: lists_rep_def)
  moreover have "mset (p # concat (css[i := xs @ ys])) = mset (concat css)"
    using mset_concat_update [OF i, of "xs @ ys"] e(1) by simp
  then have "distinct (p # concat (css[i := xs @ ys]))" "set (p # concat (css[i := xs @ ys])) = set (concat css)"
    using rep by (metis lists_rep_def mset_eq_imp_distinct_iff, metis mset_eq_setD)
  moreover from this have "distinct (concat (css[i := xs @ ys]))" by simp
  moreover have "set (concat (css[i := xs @ ys])) \<subseteq> set (concat css)"
    using \<open>set (p # concat (css[i := xs @ ys])) = set (concat css)\<close> by (metis set_subset_Cons)
  then have "set (concat (css[i := xs @ ys])) \<subseteq> R" using rep unfolding lists_rep_def by blast
  moreover have "is_region T p" using rep \<open>p \<in> R\<close> by (auto simp: lists_rep_def regions_apart_def)
  then have "is_region T' p" using same_regions_facts(7) [OF effect_same_regions [OF d(3)]] by simp
  ultimately show ?thesis using that d r e(1) by simp
qed

lemma lists_rep_deleted:
  assumes rep: "lists_rep R T ls css tys" and i: "i < length css" and p: "p \<in> set (css ! i)"
  obtains l' T' where "DeleteRegionLocked (ls ! i) p T = Inr (l', T')"
    and "lists_rep R T' (ls[i := l']) (css[i := remove1 p (css ! i)]) tys"
    and "\<And>ty. type_ok ty \<Longrightarrow> \<exists>T''. SetRegionType p ty T' = Inr T'' \<and>
      lists_rep R T'' (ls[i := l']) (css[i := remove1 p (css ! i)]) (tys(p := ty))"
proof -
  have len: "i < length ls" using rep i by (simp add: lists_rep_def)
  from lists_rep_delete [OF rep i p] obtain l' T' where d: "DeleteRegionLocked (ls ! i) p T = Inr (l', T')"
    "list_rep T' l' (remove1 p (css ! i))" "effect (set (css ! i)) {} 0 T T'" "p \<in> R"
    "distinct (concat (css[i := remove1 p (css ! i)]))" "set (concat (css[i := remove1 p (css ! i)])) \<subseteq> R"
    "is_region T' p" by blast
  have rep': "lists_rep R T' (ls[i := l']) (css[i := remove1 p (css ! i)]) tys"
    by (rule lists_rep_change [OF rep, where I = "{i}" and A = "set (css ! i)" and S = "{}" and ty = 0])
      (use d i len lists_rep_other [OF rep i] in \<open>auto simp: type_ok_def\<close>)
  moreover have "\<exists>T''. SetRegionType p ty T' = Inr T'' \<and>
      lists_rep R T'' (ls[i := l']) (css[i := remove1 p (css ! i)]) (tys(p := ty))" if ty: "type_ok ty" for ty
  proof -
    from SetRegionType_effect [OF d(7), of ty] obtain T'' where
      t: "SetRegionType p ty T' = Inr T''" "effect {} {p} ty T' T''" by metis
    have "lists_rep R T'' (ls[i := l']) (css[i := remove1 p (css ! i)]) (tys(p := ty))"
      by (rule lists_rep_change [OF rep', where I = "{}" and A = "{}" and S = "{p}" and ty = ty])
        (use t(2) ty d(5,6) in auto)
    with t(1) show ?thesis by blast
  qed
  ultimately show ?thesis using that d(1) by blast
qed

text \<open>Merging and moving whole lists.\<close>

lemma lists_rep_merge:
  assumes rep: "lists_rep R T ls css tys" and ij: "i < length css" "j < length css" "i \<noteq> j" and ty: "type_ok ty"
  obtains l' T' where "MergeRegionList (ls ! i) (ls ! j) ty T = Some (Inr (l', ClearList (ls ! j), T'))"
    and "lists_rep R T' (ls[i := l', j := ClearList (ls ! j)]) (css[i := css ! j @ css ! i, j := []])
      (\<lambda>p. if p \<in> set (css ! j) then ty else tys p)"
proof -
  have len: "length ls = length css" and apart: "regions_apart T R" and dist: "distinct (concat css)"
    and sub: "set (concat css) \<subseteq> R" using rep by (simp_all add: lists_rep_def)
  have dj: "set (css ! i) \<inter> set (css ! j) = {}" using lists_rep_other [OF rep ij(2,1)] ij(3) by blast
  have di: "distinct (css ! i)" "distinct (css ! j)" using dist ij(1,2) by (simp_all add: distinct_concat_iff)
  have d: "distinct (css ! j @ css ! i)" "set (css ! j @ css ! i) \<subseteq> R"
    using di dj set_nth_concat [OF ij(1)] set_nth_concat [OF ij(2)] sub by auto
  note u = regions_apart_units [OF apart d]
  obtain l' T' where m: "MergeRegionList (ls ! i) (ls ! j) ty T = Some (Inr (l', ClearList (ls ! j), T'))"
    "list_rep T' l' (css ! j @ css ! i)" "effect (set (css ! i) \<union> set (css ! j)) (set (css ! j)) ty T T'"
    by (rule MergeRegionList_rep [OF lists_rep_nth [OF rep ij(1)] lists_rep_nth [OF rep ij(2)] dj, of ty])
      (use u in \<open>simp_all add: add.commute\<close>)
  let ?css = "css[i := css ! j @ css ! i, j := []]"
  have "mset (concat ?css) + mset (css ! j) = mset (concat (css[i := css ! j @ css ! i]))"
    using mset_concat_update [of j "css[i := css ! j @ css ! i]" "[]"] ij by simp
  moreover have "mset (concat (css[i := css ! j @ css ! i])) = mset (concat css) + mset (css ! j)"
    using mset_concat_update [OF ij(1), of "css ! j @ css ! i"] by (simp add: ac_simps)
  ultimately have c: "mset (concat ?css) = mset (concat css)" by simp
  have "lists_rep R T' (ls[i := l', j := ClearList (ls ! j)]) ?css (\<lambda>p. if p \<in> set (css ! j) then ty else tys p)"
  proof (rule lists_rep_change [OF rep, where I = "{i, j}" and A = "set (css ! i) \<union> set (css ! j)"
        and S = "set (css ! j)" and ty = ty])
    fix k assume "k \<in> {i, j}" "k < length css"
    then show "list_rep T' (ls[i := l', j := ClearList (ls ! j)] ! k) (?css ! k)"
      using m(2) ij len list_rep_empty(2) by auto
  next
    fix k assume k: "k \<notin> {i, j}" "k < length css"
    then show "set (css ! k) \<inter> (set (css ! i) \<union> set (css ! j)) = {}"
      using lists_rep_other [OF rep ij(1) k(2)] lists_rep_other [OF rep ij(2) k(2)] by auto
  next
    show "distinct (concat ?css)" using c dist by (metis mset_eq_imp_distinct_iff)
    show "set (concat ?css) \<subseteq> R" using c sub by (metis mset_eq_setD)
  qed (use m(3) ty in auto)
  with m(1) that show ?thesis by blast
qed

lemma lists_rep_move:
  assumes rep: "lists_rep R T ls css tys" and ij: "i < length css" "j < length css" "i \<noteq> j" and e: "css ! j = []"
  shows "lists_rep R T (ls[i := ClearList (ls ! i), j := AssignWith (ls ! j) (ls ! i)])
    (css[i := [], j := css ! i]) tys"
proof -
  have len: "length ls = length css" and dist: "distinct (concat css)" and sub: "set (concat css) \<subseteq> R"
    using rep by (simp_all add: lists_rep_def)
  let ?css = "css[i := [], j := css ! i]"
  have a: "list_rep T (AssignWith (ls ! j) (ls ! i)) (css ! i)"
    using lists_rep_nth [OF rep ij(1)] by (simp add: list_rep_def AssignWith_def)
  have "mset (concat ?css) = mset (concat (css[i := []])) + mset (css ! i)"
    using mset_concat_update [of j "css[i := []]" "css ! i"] ij e by simp
  moreover have "mset (concat (css[i := []])) + mset (css ! i) = mset (concat css)"
    using mset_concat_update [OF ij(1), of "[]"] by simp
  ultimately have c: "mset (concat ?css) = mset (concat css)" by simp
  show ?thesis
  proof (rule lists_rep_change [OF rep, where I = "{i, j}" and A = "{}" and S = "{}" and ty = 0])
    fix k assume "k \<in> {i, j}" "k < length css"
    then show "list_rep T (ls[i := ClearList (ls ! i), j := AssignWith (ls ! j) (ls ! i)] ! k) (?css ! k)"
      using a ij len list_rep_empty(2) by auto
  next
    show "distinct (concat ?css)" using c dist by (metis mset_eq_imp_distinct_iff)
    show "set (concat ?css) \<subseteq> R" using c sub by (metis mset_eq_setD)
  qed (auto simp: effect_def type_ok_def)
qed

lemma list_op_step_refines:
  assumes rep: "lists_rep R T ls css tys" and spec: "spec_op R x css tys = Some (css', tys')"
  shows "\<exists>ls' T'. list_op_step x ls T = Some (Inr (ls', T')) \<and> lists_rep R T' ls' css' tys'"
proof (cases x)
  case (PrependOp i p ty)
  with spec have g: "i < length css" "p \<in> R" "p \<notin> set (concat css)" "type_ok ty" and
    r: "css' = css[i := p # css ! i]" "tys' = tys(p := ty)" by (auto simp: spec_op_def split: if_splits)
  have len: "i < length ls" using rep g(1) by (simp add: lists_rep_def)
  have dist: "distinct (concat css')" "set (concat css') = insert p (set (concat css))"
  proof -
    have m: "mset (concat css') = mset (p # concat css)"
      using mset_concat_update [OF g(1), of "p # css ! i"] r(1) by simp
    then show "set (concat css') = insert p (set (concat css))" by (metis list.simps(15) mset_eq_setD)
    have "distinct (p # concat css)" using rep g(3) by (simp add: lists_rep_def)
    with m show "distinct (concat css')" by (metis mset_eq_imp_distinct_iff)
  qed
  have sub: "p \<notin> set (css ! i)" "set (p # css ! i) \<subseteq> R" "distinct (p # css ! i)"
    using set_nth_concat [OF g(1)] rep g by (auto simp: lists_rep_def distinct_concat_iff)
  have apart: "regions_apart T R" using rep by (simp add: lists_rep_def)
  then have "is_region T p" using g(2) by (simp add: regions_apart_def)
  from PrependRegionLocked_rep [OF lists_rep_nth [OF rep g(1)] this sub(1)]
    regions_apart_units [OF apart sub(3,2)] obtain l' T' where
    d: "PrependRegionLocked (ls ! i) p ty T = Inr (l', T')" "list_rep T' l' (p # css ! i)"
    "effect (set (p # css ! i)) {p} ty T T'" by (metis length_Cons list.map(2) sum_list.Cons)
  have off: "set (css ! j) \<inter> set (p # css ! i) = {}" if "j \<noteq> i" "j < length css" for j
    using lists_rep_other [OF rep g(1) that(2)] that(1) set_nth_concat [OF that(2)] g(3) by auto
  have "lists_rep R T' (ls[i := l']) css' tys'"
    by (rule lists_rep_change [OF rep, where I = "{i}" and A = "set (p # css ! i)" and S = "{p}" and ty = ty])
      (use d off g r len dist rep in \<open>auto simp: lists_rep_def\<close>)
  with PrependOp d(1) show ?thesis by (simp add: list_op_step_def)
next
  case (DeleteOp i p)
  with spec have g: "i < length css" "p \<in> set (css ! i)" and r: "css' = css[i := remove1 p (css ! i)]" "tys' = tys"
    by (auto simp: spec_op_def split: if_splits)
  from lists_rep_deleted [OF rep g] obtain l' T' where
    d: "DeleteRegionLocked (ls ! i) p T = Inr (l', T')" "lists_rep R T' (ls[i := l']) css' tys" using r by metis
  have "is_region T p" using lists_rep_nth [OF rep g(1)] g(2) by (auto simp: list_rep_def regions.linked_def)
  with DeleteOp d r show ?thesis by (simp add: list_op_step_def DeleteRegion_def is_regionD(1))
next
  case (TryDeleteOp i p old new)
  with spec have g: "i < length css" "p \<in> R" "old \<noteq> new" "type_ok new" "tys p = old \<longrightarrow> p \<in> set (css ! i)"
    and r: "css' = (if tys p = old then css[i := remove1 p (css ! i)] else css)"
      "tys' = (if tys p = old then tys(p := new) else tys)" by (auto simp: spec_op_def split: if_splits)
  have "is_region T p" using rep g(2) by (simp add: lists_rep_def regions_apart_def)
  then have p: "GetRegionType p T = Inr (tys p)" "p \<noteq> 0"
    using rep g(2) is_regionD(1) by (simp_all add: lists_rep_def)
  show ?thesis
  proof (cases "tys p = old")
    case True
    with g(5) have "p \<in> set (css ! i)" by simp
    from lists_rep_deleted [OF rep g(1) this] g(4) obtain l' T' T'' where
      d: "DeleteRegionLocked (ls ! i) p T = Inr (l', T')" "SetRegionType p new T' = Inr T''"
      "lists_rep R T'' (ls[i := l']) (css[i := remove1 p (css ! i)]) (tys(p := new))" by metis
    with TryDeleteOp p g(3) r True show ?thesis by (simp add: list_op_step_def TryDeleteRegion_def)
  next
    case False
    with TryDeleteOp p g(3) r rep show ?thesis by (simp add: list_op_step_def TryDeleteRegion_def)
  qed
next
  case (TakeHeadOp i)
  with spec have g: "i < length css" and r: "css' = css[i := tl (css ! i)]" "tys' = tys"
    by (auto simp: spec_op_def split: if_splits)
  note h = list_rep_head [OF lists_rep_nth [OF rep g]]
  show ?thesis
  proof (cases "css ! i")
    case Nil
    with TakeHeadOp h r rep show ?thesis
      by (simp add: list_op_step_def TakeHeadRegion_def list_update_same_conv lists_rep_def) (metis list_update_id)
  next
    case (Cons p rs)
    with lists_rep_deleted [OF rep g, of p] obtain l' T' where
      "DeleteRegionLocked (ls ! i) p T = Inr (l', T')" "lists_rep R T' (ls[i := l']) (css[i := rs]) tys"
      by (metis list.set_intros(1) remove1.simps(2))
    with TakeHeadOp h r Cons show ?thesis by (auto simp: list_op_step_def TakeHeadRegion_def)
  qed
next
  case (TakeHeadAsOp i ty)
  with spec have g: "i < length css" "type_ok ty" and r: "css' = css[i := tl (css ! i)]"
    "tys' = (if css ! i = [] then tys else tys(hd (css ! i) := ty))"
    by (auto simp: spec_op_def split: if_splits)
  note h = list_rep_head [OF lists_rep_nth [OF rep g(1)]]
  show ?thesis
  proof (cases "css ! i")
    case Nil
    with TakeHeadAsOp h r rep show ?thesis
      by (simp add: list_op_step_def TakeHeadRegion_as_def lists_rep_def) (metis list_update_id)
  next
    case (Cons p rs)
    with lists_rep_deleted [OF rep g(1), of p] g(2) obtain l' T' T'' where
      "DeleteRegionLocked (ls ! i) p T = Inr (l', T')" "SetRegionType p ty T' = Inr T''"
      "lists_rep R T'' (ls[i := l']) (css[i := rs]) (tys(p := ty))"
      by (metis list.set_intros(1) remove1.simps(2))
    with TakeHeadAsOp h r Cons show ?thesis by (auto simp: list_op_step_def TakeHeadRegion_as_def)
  qed
next
  case (MergeOp i j ty)
  with spec have g: "i < length css" "j < length css" "i \<noteq> j" "type_ok ty"
    and r: "css' = css[i := css ! j @ css ! i, j := []]" "tys' = (\<lambda>p. if p \<in> set (css ! j) then ty else tys p)"
    by (auto simp: spec_op_def split: if_splits)
  obtain l' T' where "MergeRegionList (ls ! i) (ls ! j) ty T = Some (Inr (l', ClearList (ls ! j), T'))"
    "lists_rep R T' (ls[i := l', j := ClearList (ls ! j)]) css' tys'"
    unfolding r by (rule lists_rep_merge [OF rep g])
  with MergeOp show ?thesis by (simp add: list_op_step_def)
next
  case (MoveOp i j)
  with spec have g: "i < length css" "j < length css" "i \<noteq> j" "css ! j = []"
    and r: "css' = css[i := [], j := css ! i]" "tys' = tys" by (auto simp: spec_op_def split: if_splits)
  from MoveOp lists_rep_move [OF rep g] r show ?thesis by (simp add: list_op_step_def MoveTo_def)
qed

lemma list_op_run_refines:
  assumes "lists_rep R T ls css tys" and "spec_ops R ops css tys = Some (css', tys')"
  shows "\<exists>ls' T'. list_op_run ops ls T = Some (Inr (ls', T')) \<and> lists_rep R T' ls' css' tys'"
  using assms
proof (induction ops arbitrary: T ls css tys)
  case (Cons x ops)
  from Cons.prems(2) obtain css1 tys1 where s: "spec_op R x css tys = Some (css1, tys1)"
    "spec_ops R ops css1 tys1 = Some (css', tys')" by (auto split: option.splits)
  from list_op_step_refines [OF Cons.prems(1) s(1)] obtain ls1 T1 where
    t: "list_op_step x ls T = Some (Inr (ls1, T1))" "lists_rep R T1 ls1 css1 tys1" by blast
  from Cons.IH [OF t(2) s(2)] obtain ls' T' where
    r: "list_op_run ops ls1 T1 = Some (Inr (ls', T'))" "lists_rep R T' ls' css' tys'" by blast
  with t(1) have "list_op_run (x # ops) ls T = Some (Inr (ls', T'))" by simp
  with r(2) show ?case by blast
qed simp

lemma lists_rep_start:
  assumes "regions_apart T R" and "\<forall>p\<in>R. GetRegionType p T = Inr (tys p)"
  shows "lists_rep R T (replicate k RegionList_Construct) (replicate k []) tys"
  using assms list_rep_empty(1) by (simp add: lists_rep_def)

section \<open>Regions made from free units\<close>

text \<open>A record that stays, in a table of the same place and length, is the same region.\<close>

lemma kept_region:
  assumes "heapStartAddress T' = heapStartAddress T" and "totalUnitCount T' = totalUnitCount T" and "table_ok T'"
    and "units T' p = units T p" and "is_region T p"
  shows "is_region T' p" and "region_span T' p = region_span T p" and "GetRegionType p T' = GetRegionType p T"
proof -
  note at = unit_at_same [OF assms(1)]
  have ok: "unit_ok T' i = unit_ok T i" for i
    using assms(2,3) is_region_table [OF assms(5)] by (simp add: unit_ok_def)
  have start: "GetRegionStart p T' = GetRegionStart p T"
    using assms(1,2) by (simp add: GetRegionStart_def Let_def)
  have "GetUnitCount p T' = GetUnitCount p T"
    using assms(4) start by (simp add: GetUnitCount_def GetRegionSize_def read_unit_def)
  with assms(5) show "is_region T' p" "region_span T' p = region_span T p"
    by (simp_all add: is_region_def region_span_def units_in_def at ok)
  show "GetRegionType p T' = GetRegionType p T" using assms(4) by (simp add: GetRegionType_def read_unit_def)
qed

text \<open>A region made of units no region has.\<close>

lemma InitRegion_joins:
  assumes ok: "table_ok T" and n: "1 \<le> n" "unat idx + unat n \<le> unat (totalUnitCount T)"
    and role: "role \<in> {FREE_UNITS, SMALL_SIZED_UNITS, LARGE_SIZED_UNITS}" and R: "regions_apart T R"
    and free: "\<forall>q\<in>R. region_span T q \<inter> {unat idx..<unat idx + unat n} = {}"
      "\<forall>k\<in>{unat idx..<unat idx + unat n}. unit_at T k \<notin> R"
  shows "\<exists>p T'. InitRegion_at idx n role T = Inr (p, T') \<and> p \<notin> R \<and> table_ok T' \<and> regions_apart T' (insert p R) \<and>
    region_span T' p = {unat idx..<unat idx + unat n} \<and> GetRegionType p T' = Inr FREE_REGION \<and>
    (\<forall>q\<in>R. region_span T' q = region_span T q \<and> GetRegionType q T' = GetRegionType q T)"
proof -
  let ?i = "unat idx" and ?p = "unit_at T (unat idx)"
  from InitRegion_at_makes [OF ok n role] obtain T' where T': "InitRegion_at idx n role T = Inr (?p, T')"
    "table_ok T'" "heapStartAddress T' = heapStartAddress T" "totalUnitCount T' = totalUnitCount T"
    "GetUnitCount ?p T' = Inr n" "GetRegionType ?p T' = Inr FREE_REGION"
    and other: "\<forall>k<unat (totalUnitCount T). k < ?i \<or> ?i + unat n \<le> k \<longrightarrow> units T' (unit_at T k) = units T (unit_at T k)"
    by blast
  note at = unit_at_same [OF T'(3)]
  have n0: "0 < unat n" using n(1) by (simp add: word_le_nat_alt)
  have u: "unit_ok T' ?i" using T'(2,4) n(2) n0 by (simp add: unit_ok_def)
  have p: "is_region T' ?p" using u T'(5) at unfolding is_region_def by metis
  have span: "region_span T' ?p = {?i..<?i + unat n}"
    using region_span_unit [OF u] T'(5) at by (simp add: units_in_def)
  have kept: "is_region T' q \<and> region_span T' q = region_span T q \<and> GetRegionType q T' = GetRegionType q T"
    if q: "q \<in> R" for q
  proof -
    have r: "is_region T q" using R q by (simp add: regions_apart_def)
    then obtain k where k: "unit_ok T k" "q = unit_at T k" using is_region_unit by blast
    have "k \<notin> {?i..<?i + unat n}" using free(2) q k(2) by blast
    with other k have "units T' q = units T q" by (auto simp: unit_ok_def)
    from kept_region [OF T'(3,4,2) this r] show ?thesis by simp
  qed
  have "?p \<notin> R" using free(2) n0 by simp
  moreover have "regions_apart T' (insert ?p R)"
    using R p span kept free(1) n(2) T'(4) unfolding regions_apart_def by auto
  ultimately show ?thesis using T' span kept by blast
qed

text \<open>
  C18. A region made of units that no listed region has joins the regions: it is in the heap, shares no unit
  with another one and covers exactly its units, it is free, and the others keep their units and types.
\<close>

theorem InitRegion_joins_apart:
  assumes ok: "table_ok T" and n: "1 \<le> n" "unat idx + unat n \<le> unat (totalUnitCount T)"
    and role: "role \<in> {FREE_UNITS, SMALL_SIZED_UNITS, LARGE_SIZED_UNITS}" and R: "regions_apart T R"
    and free: "\<forall>q\<in>R. region_span T q \<inter> {unat idx..<unat idx + unat n} = {}"
      "\<forall>k\<in>{unat idx..<unat idx + unat n}. unit_at T k \<notin> R"
  shows "\<exists>p T'. InitRegion_at idx n role T = Inr (p, T') \<and> p \<notin> R \<and> table_ok T' \<and> regions_apart T' (insert p R) \<and>
    region_span T' p = {unat idx..<unat idx + unat n} \<and> GetRegionType p T' = Inr FREE_REGION \<and>
    (\<forall>q\<in>R. region_span T' q = region_span T q \<and> GetRegionType q T' = GetRegionType q T)"
  using InitRegion_joins [OF assms] .

section \<open>Runs of the allocator\<close>

text \<open>
  C5. From empty lists over regions that do not overlap, every sequence of permitted calls runs to its end:
  no call aborts, reads outside the table or loops. The lists are then the ones of the specification,
  linked in both directions, with exact counts, and every region has the type it was last given.
\<close>

theorem region_lists_refine:
  assumes "regions_apart T R" and "\<forall>p\<in>R. GetRegionType p T = Inr (tys p)"
    and "spec_ops R ops (replicate k []) tys = Some (css', tys')"
  shows "\<exists>ls' T'. list_op_run ops (replicate k RegionList_Construct) T = Some (Inr (ls', T')) \<and>
    lists_rep R T' ls' css' tys'"
  using list_op_run_refines [OF lists_rep_start [OF assms(1,2)] assms(3)] .

lemma sum_list_concat: "sum_list (map f (concat css)) = sum_list (map (\<lambda>rs. sum_list (map f rs)) css)"
  by (induction css) simp_all

lemma lists_rep_units:
  assumes "lists_rep R T ls css tys"
  shows "sum_list (map (unat \<circ> unitCount) ls) = sum_list (map (units_in T) (concat css))"
    and "sum_list (map (unat \<circ> regionCount) ls) = length (concat css)"
proof -
  have l: "length ls = length css" "list_rep T (ls ! i) (css ! i)" if "i < length css" for i
    using assms that by (simp_all add: lists_rep_def)
  have len: "length ls = length css" using assms by (simp add: lists_rep_def)
  have "map (unat \<circ> unitCount) ls = map (\<lambda>rs. sum_list (map (units_in T) rs)) css"
    using l len by (intro nth_equalityI) (auto simp: list_rep_def)
  then show "sum_list (map (unat \<circ> unitCount) ls) = sum_list (map (units_in T) (concat css))"
    by (simp add: sum_list_concat)
  have "map (unat \<circ> regionCount) ls = map length css"
    using l len by (intro nth_equalityI) (auto simp: list_rep_def)
  then show "sum_list (map (unat \<circ> regionCount) ls) = length (concat css)" by (simp add: length_concat)
qed

lemma lists_rep_bounds:
  assumes "lists_rep R T ls css tys" and "finite R"
  shows "sum_list (map (unat \<circ> unitCount) ls) \<le> unat (totalUnitCount T)"
    and "sum_list (map (unat \<circ> regionCount) ls) \<le> card R"
proof -
  have a: "regions_apart T R" "distinct (concat css)" "set (concat css) \<subseteq> R"
    using assms(1) by (simp_all add: lists_rep_def)
  have "(\<Union>p\<in>set (concat css). region_span T p) \<subseteq> {..<unat (totalUnitCount T)}"
    using a(1,3) unfolding regions_apart_def by blast
  then have "card (\<Union>p\<in>set (concat css). region_span T p) \<le> card {..<unat (totalUnitCount T)}"
    by (intro card_mono) simp_all
  with regions_apart_card [OF a] lists_rep_units(1) [OF assms(1)]
  show "sum_list (map (unat \<circ> unitCount) ls) \<le> unat (totalUnitCount T)" by simp
  show "sum_list (map (unat \<circ> regionCount) ls) \<le> card R"
    using card_mono [OF assms(2) a(3)] distinct_card [OF a(2)] lists_rep_units(2) [OF assms(1)] by simp
qed

text \<open>
  C27. After such a run all lists together never count more units than the heap has, nor more regions than
  there are: a region is on one list at most, and none is counted twice.
\<close>

theorem region_lists_bounded:
  assumes "regions_apart T R" and "finite R" and "\<forall>p\<in>R. GetRegionType p T = Inr (tys p)"
    and "spec_ops R ops (replicate k []) tys \<noteq> None"
  shows "\<exists>ls' T'. list_op_run ops (replicate k RegionList_Construct) T = Some (Inr (ls', T')) \<and>
    sum_list (map (unat \<circ> unitCount) ls') \<le> unat (totalUnitCount T') \<and>
    sum_list (map (unat \<circ> regionCount) ls') \<le> card R"
proof -
  from assms(4) obtain css' tys' where "spec_ops R ops (replicate k []) tys = Some (css', tys')" by auto
  from list_op_run_refines [OF lists_rep_start [OF assms(1,3)] this] lists_rep_bounds [OF _ assms(2)]
  show ?thesis by metis
qed

section \<open>Witnesses\<close>

text \<open>Four regions of one unit each.\<close>

definition four_regions :: region_table where
  "four_regions = \<lparr>heapStartAddress = 65536, totalUnitCount = 4, units = (\<lambda>p. Some
    \<lparr>allocPtr = 0, regionEnd = 65536 + (65536 - p) div 88 * 4096, nextRegionIdx = 7, prevRegionIdx = 7,
     liveByteCount = 0, rawPointerObjectCount = 0, liveInfo = 0, unitRoleBitField = 1, regionStateBitField = 0\<rparr>)\<rparr>"

lemma four_regions_at: "unit_ok four_regions i \<longleftrightarrow> i < 4" "unit_at four_regions 0 = 65448" "unit_at four_regions 1 = 65360"
  by (simp_all add: unit_ok_def table_ok_def four_regions_def unit_at_def UNIT_INFO_SIZE_def)

lemma four_regions_counts: "GetUnitCount 65448 four_regions = Inr 1" "GetUnitCount 65360 four_regions = Inr 1"
  by (simp_all add: GetUnitCount_def GetRegionSize_def GetRegionStart_def read_unit_def four_regions_def UNIT_SIZE_def
      word_le_nat_alt)

lemma four_regions_apart: "regions_apart four_regions {65448, 65360}"
proof -
  have "is_region four_regions 65448" "is_region four_regions 65360"
    using four_regions_at(1) [of 0] four_regions_at(1) [of 1] four_regions_at(2,3) four_regions_counts
    unfolding is_region_def by (metis zero_less_numeral, metis one_less_numeral_iff semiring_norm(76,78))
  moreover have "region_span four_regions 65448 = {0}" "region_span four_regions 65360 = {1}"
    using region_span_unit [of four_regions 0] region_span_unit [of four_regions 1] four_regions_at
      four_regions_counts by (auto simp: units_in_def)
  moreover have "unat (totalUnitCount four_regions) = 4" by (simp add: four_regions_def)
  ultimately show ?thesis by (simp add: regions_apart_def)
qed

lemma four_regions_types: "\<forall>p\<in>{65448, 65360}. GetRegionType p four_regions = Inr 0"
  by (simp add: GetRegionType_def read_unit_def four_regions_def GetAtomicValueU16_def)

definition list_calls :: "list_op list" where
  "list_calls = [PrependOp 0 65448 3, PrependOp 0 65360 3, MergeOp 1 0 5, TryDeleteOp 1 65448 5 14,
    TakeHeadAsOp 1 2, PrependOp 0 65448 1, MoveOp 0 1]"

lemma list_calls_spec:
  "spec_ops {65448, 65360} list_calls (replicate 2 []) (\<lambda>_. 0) = Some ([[], [65448]], (\<lambda>_. 0)(65448 := 1, 65360 := 2))"
  by (simp add: list_calls_def spec_op_def type_ok_def take_bit_eq_mod fun_eq_iff numeral_2_eq_2)

theorem region_lists_refine_witness:
  "\<exists>ls T. list_op_run list_calls [RegionList_Construct, RegionList_Construct] four_regions = Some (Inr (ls, T)) \<and>
    lists_rep {65448, 65360} T ls [[], [65448]] ((\<lambda>_. 0)(65448 := 1, 65360 := 2))"
  using region_lists_refine [OF four_regions_apart four_regions_types list_calls_spec]
  by (simp add: numeral_2_eq_2)

theorem region_lists_bounded_witness:
  "\<exists>ls T. list_op_run list_calls [RegionList_Construct, RegionList_Construct] four_regions = Some (Inr (ls, T)) \<and>
    sum_list (map (unat \<circ> regionCount) ls) \<le> 2"
proof -
  have "spec_ops {65448, 65360} list_calls (replicate 2 []) (\<lambda>_. 0) \<noteq> None" by (simp add: list_calls_spec)
  from region_lists_bounded [OF four_regions_apart _ four_regions_types this] obtain ls T where
    "list_op_run list_calls (replicate 2 RegionList_Construct) four_regions = Some (Inr (ls, T))"
    "sum_list (map (unat \<circ> regionCount) ls) \<le> card {65448, 65360 :: addr}" by blast
  moreover have "card {65448, 65360 :: addr} = 2" by simp
  moreover have "replicate 2 RegionList_Construct = [RegionList_Construct, RegionList_Construct]"
    by (simp add: numeral_2_eq_2)
  ultimately show ?thesis by metis
qed

theorem InitRegion_joins_apart_witness:
  "\<exists>p T. InitRegion_at 2 2 LARGE_SIZED_UNITS four_regions = Inr (p, T) \<and> regions_apart T {p, 65448, 65360} \<and>
    region_span T p = {2, 3}"
proof -
  have span: "region_span four_regions 65448 = {0}" "region_span four_regions 65360 = {1}"
    using region_span_unit [of four_regions 0] region_span_unit [of four_regions 1] four_regions_at
      four_regions_counts by (auto simp: units_in_def)
  have off: "unit_at four_regions 2 = 65272" "unit_at four_regions 3 = 65184"
    by (simp_all add: four_regions_def unit_at_def UNIT_INFO_SIZE_def)
  have two: "{2..<4} = {2, 3 :: nat}" by auto
  have "table_ok four_regions" using four_regions_at(1) [of 0] by (simp add: unit_ok_def)
  from InitRegion_joins_apart [OF this _ _ _ four_regions_apart, of 2 2 LARGE_SIZED_UNITS]
  show ?thesis using span off two by (auto simp: four_regions_def)
qed

end
