(* ===== verification/FreeRegions.thy ===== *)
theory FreeRegions
  imports TakeUnitsSpec TreeMemory
begin

text \<open>
  The manager of free regions, \<^verbatim>\<open>src/rt.heap.allocator/FreeRegionManager.cj\<close>: a tree of dirty
  units (freed, memory still mapped) and a tree of released units (memory given back), each under
  its mutex. First the operations of one thread, then any number of threads, with every
  acquisition of a mutex, every critical section and every step between them interleaved.
\<close>

section \<open>The state and the critical sections\<close>

text \<open>The calls into \<open>RegionInfo\<close> and \<open>MemMap\<close> for units that leave a tree, recorded in order.\<close>

datatype unit_call = ClearUnits u64 u64 | InitRegion u64 u64 u8 | CommitMemory u64 u64

record free_regions =
  releasedTree :: cartesian_tree
  dirtyTree :: cartesian_tree
  unit_calls :: "unit_call list"

definition unit_call :: "unit_call list \<Rightarrow> free_regions \<Rightarrow> free_regions" where
  "unit_call ks s = s\<lparr>unit_calls := unit_calls s @ ks\<rparr>"

text \<open>
  \<open>Construct\<close> makes two empty trees, \<open>Initialize\<close> maps their memory (the sizes asked for, the released
  tree's first), and \<open>Destroy\<close> clears the trees, the dirty one first; the nodes it deletes are the
  first result.
\<close>

definition Construct :: free_regions where
  "Construct = \<lparr>releasedTree = \<lparr>totalCount = 0, root = Null, region_calls = []\<rparr>,
    dirtyTree = \<lparr>totalCount = 0, root = Null, region_calls = []\<rparr>, unit_calls = []\<rparr>"

definition Initialize :: "u64 \<Rightarrow> free_regions \<Rightarrow> (u64 \<times> u64) list \<times> free_regions" where
  "Initialize regionCnt s = ([tree_map_sizes regionCnt, tree_map_sizes regionCnt], s)"

definition Destroy :: "free_regions \<Rightarrow> cnode list \<times> free_regions" where
  "Destroy s =
     (let (dirty, d) = ClearTree (dirtyTree s); (released, r) = ClearTree (releasedTree s)
      in (dirty @ released, s\<lparr>dirtyTree := d, releasedTree := r\<rparr>))"

text \<open>
  The two sections of \<open>TakeRegion\<close>, under the dirty and under the released mutex. \<open>UInt32(num)\<close>
  truncates. A region is named by its first unit. \<open>FreeRegionCommitMemory\<close> does something on
  Windows only.
\<close>

definition take_dirty :: "u64 \<Rightarrow> u8 \<Rightarrow> free_regions \<Rightarrow> (u32 option \<times> free_regions) res" where
  "take_dirty num uclass s =
     and_then (TakeUnitsLowAddr (ucast num) True (dirtyTree s)) (\<lambda>(res, t).
       case res of
         None \<Rightarrow> Inr (None, s\<lparr>dirtyTree := t\<rparr>)
       | Some idx \<Rightarrow> Inr (Some idx,
           unit_call [ClearUnits (ucast idx) num, InitRegion (ucast idx) num uclass] (s\<lparr>dirtyTree := t\<rparr>)))"

definition FreeRegionCommitMemory :: "bool \<Rightarrow> u64 \<Rightarrow> u64 \<Rightarrow> unit_call list" where
  "FreeRegionCommitMemory windows idx num = (if windows then [CommitMemory idx num] else [])"

definition take_released :: "bool \<Rightarrow> u64 \<Rightarrow> u8 \<Rightarrow> free_regions \<Rightarrow> (u32 option \<times> free_regions) res" where
  "take_released windows num uclass s =
     and_then (TakeUnitsLowAddr (ucast num) True (releasedTree s)) (\<lambda>(res, t).
       case res of
         None \<Rightarrow> Inr (None, s\<lparr>releasedTree := t\<rparr>)
       | Some idx \<Rightarrow> Inr (Some idx,
           unit_call (FreeRegionCommitMemory windows (ucast idx) num @ [InitRegion (ucast idx) num uclass])
             (s\<lparr>releasedTree := t\<rparr>)))"

definition PrehandleReleasedUnit :: "bool \<Rightarrow> u64 \<Rightarrow> u64 \<Rightarrow> free_regions \<Rightarrow> free_regions" where
  "PrehandleReleasedUnit expectPhysicalMem idx num s =
     (if expectPhysicalMem then unit_call [ClearUnits idx num] s else s)"

text \<open>The sections of \<open>AddGarbageUnits\<close> and \<open>AddReleaseUnits\<close>: a failed merge is fatal.\<close>

definition add_dirty :: "u32 \<Rightarrow> u32 \<Rightarrow> free_regions \<Rightarrow> free_regions res" where
  "add_dirty idx num s =
     (let (ok, t) = MergeInsert idx num True (dirtyTree s) in
      if ok then Inr (s\<lparr>dirtyTree := t\<rparr>) else Inl Fatal)"

definition add_released :: "u32 \<Rightarrow> u32 \<Rightarrow> free_regions \<Rightarrow> free_regions res" where
  "add_released idx num s =
     (let (ok, t) = MergeInsert idx num True (releasedTree s) in
      if ok then Inr (s\<lparr>releasedTree := t\<rparr>) else Inl Fatal)"

text \<open>
  The first section of a round of \<open>ReleaseGarbageRegions\<close>: index and count of the root of the
  dirty tree, which is released; \<open>None\<close> when the tree is empty and the loop breaks.
\<close>

definition release_root :: "free_regions \<Rightarrow> ((u32 \<times> u32) option \<times> free_regions) res" where
  "release_root s =
     (let node = root (dirtyTree s) in
      if node = Null then Inr (None, s)
      else and_then (ReleaseRootNode (dirtyTree s)) (\<lambda>t.
        Inr (Some (GetIndex node, GetCount node), s\<lparr>dirtyTree := t\<rparr>)))"

definition dirty_bytes :: "free_regions \<Rightarrow> u64" where
  "dirty_bytes s = ucast (totalCount (dirtyTree s)) * UNIT_SIZE"

text \<open>The counts, each read under its mutex.\<close>

definition GetDirtyUnitCount :: "free_regions \<Rightarrow> u32" where
  "GetDirtyUnitCount s = totalCount (dirtyTree s)"

definition GetReleasedUnitCount :: "free_regions \<Rightarrow> u32" where
  "GetReleasedUnitCount s = totalCount (releasedTree s)"

definition GetReleasedMaxBlock :: "free_regions \<Rightarrow> u32" where
  "GetReleasedMaxBlock s =
     (let node = root (releasedTree s) in if node = Null then 0 else GetCount node)"

definition GetDirtyMaxBlock :: "free_regions \<Rightarrow> u32" where
  "GetDirtyMaxBlock s = (let node = root (dirtyTree s) in if node = Null then 0 else GetCount node)"

definition GetReleasedNodeCount :: "free_regions \<Rightarrow> u64" where
  "GetReleasedNodeCount s = GetNodeCount (releasedTree s)"

definition GetDirtyNodeCount :: "free_regions \<Rightarrow> u64" where
  "GetDirtyNodeCount s = GetNodeCount (dirtyTree s)"

section \<open>The operations of one thread\<close>

text \<open>
  \<open>TakeRegion\<close> alone with the trees: each round tries the mutexes of the trees that are still to
  be tried, and \<open>locks\<close> lists whether the dirty and the released mutex are there to be had. With the
  list at its end the loop still runs, and the value is \<open>None\<close>. The result is the first unit of the
  region, or the null pointer.
\<close>

fun take_loop :: "bool \<Rightarrow> u64 \<Rightarrow> u8 \<Rightarrow> bool \<Rightarrow> bool \<Rightarrow> bool \<Rightarrow> (bool \<times> bool) list \<Rightarrow> free_regions
    \<Rightarrow> (u32 option \<times> free_regions) res option" where
  "take_loop windows num uclass expectPhysicalMem tryDirtyTree tryReleasedTree locks s =
     (if \<not> tryDirtyTree \<and> \<not> tryReleasedTree then Some (Inr (None, s))
      else case locks of
        [] \<Rightarrow> None
      | (dirtyFree, releasedFree) # rest \<Rightarrow>
          (case if tryDirtyTree \<and> dirtyFree then take_dirty num uclass s else Inr (None, s) of
             Inl e \<Rightarrow> Some (Inl e)
           | Inr (Some idx, s1) \<Rightarrow> Some (Inr (Some idx, s1))
           | Inr (None, s1) \<Rightarrow>
               (case if tryReleasedTree \<and> releasedFree then take_released windows num uclass s1 else Inr (None, s1) of
                  Inl e \<Rightarrow> Some (Inl e)
                | Inr (Some idx, s2) \<Rightarrow>
                    Some (Inr (Some idx, PrehandleReleasedUnit expectPhysicalMem (ucast idx) num s2))
                | Inr (None, s2) \<Rightarrow>
                    take_loop windows num uclass expectPhysicalMem (tryDirtyTree \<and> \<not> dirtyFree)
                      (tryReleasedTree \<and> \<not> releasedFree) rest s2)))"

declare take_loop.simps [simp del]

definition TakeRegion :: "bool \<Rightarrow> u64 \<Rightarrow> u8 \<Rightarrow> bool \<Rightarrow> (bool \<times> bool) list \<Rightarrow> free_regions
    \<Rightarrow> (u32 option \<times> free_regions) res option" where
  "TakeRegion windows num uclass expectPhysicalMem locks s =
     take_loop windows num uclass expectPhysicalMem True True locks s"

lemma release_root_smaller:
  assumes "release_root s = Inr (Some x, s')"
  shows "size (root (dirtyTree s')) < size (root (dirtyTree s))"
proof -
  from assms have full: "root (dirtyTree s) \<noteq> Null" by (auto simp: release_root_def Let_def)
  then obtain l i c r where n: "root (dirtyTree s) = Node l i c r" by (cases "root (dirtyTree s)") auto
  obtain k q where M: "MaintainHeapPropertyForZeroNode (Node l i 0 r) = (k, q)" by fastforce
  from MaintainZero [OF M] have "size (write_slot k q Null) = size l + size r"
    by (simp flip: length_spans)
  with assms full show ?thesis
    by (auto simp: release_root_def Let_def ReleaseRootNode_def RemoveNode_def RemoveZeroNode_def M n
        DecTotalCount_def ClearCount_def call_region_def and_then_Inr_iff split: if_splits)
qed

function release_loop :: "u64 \<Rightarrow> u64 \<Rightarrow> u64 \<Rightarrow> free_regions \<Rightarrow> (u64 \<times> free_regions) res" where
  "release_loop targetCachedSize releasedBytes dirtyBytes s =
     (if dirtyBytes > targetCachedSize then
        (case release_root s of
           Inl e \<Rightarrow> Inl e
         | Inr (None, s1) \<Rightarrow> Inr (releasedBytes, s1)
         | Inr (Some (idx, num), s1) \<Rightarrow>
             (case add_released idx num s1 of
                Inl e \<Rightarrow> Inl e
              | Inr s2 \<Rightarrow>
                  release_loop targetCachedSize (releasedBytes + ucast num * UNIT_SIZE) (dirty_bytes s2) s2))
      else Inr (releasedBytes, s))"
  by pat_completeness auto
termination
proof (relation "measure (\<lambda>(_, _, _, s). size (root (dirtyTree s)))", goal_cases)
  case (2 target released dirty s x p s1 y idx num s2)
  then have "size (root (dirtyTree s1)) < size (root (dirtyTree s))"
    using release_root_smaller by metis
  moreover have "dirtyTree s2 = dirtyTree s1"
    using 2 by (auto simp: add_released_def Let_def split: prod.splits if_splits)
  ultimately show ?case by simp
qed simp

declare release_loop.simps [simp del]

definition ReleaseGarbageRegions :: "u64 \<Rightarrow> free_regions \<Rightarrow> (u64 \<times> free_regions) res" where
  "ReleaseGarbageRegions targetCachedSize s =
     (if dirty_bytes s \<le> targetCachedSize then Inr (0, s)
      else release_loop targetCachedSize 0 (dirty_bytes s) s)"

section \<open>What the sections do to the units\<close>

definition units_of :: "u32 \<Rightarrow> u32 \<Rightarrow> nat set" where
  "units_of idx num = {unat idx ..< unat idx + unat num}"

abbreviation dirty_units :: "free_regions \<Rightarrow> nat set" where
  "dirty_units s \<equiv> free_units (dirtyTree s)"

abbreviation released_units :: "free_regions \<Rightarrow> nat set" where
  "released_units s \<equiv> free_units (releasedTree s)"

definition trees_ok :: "free_regions \<Rightarrow> bool" where
  "trees_ok s \<longleftrightarrow> tree_inv (dirtyTree s) \<and> tree_inv (releasedTree s)"

lemma trees_ok_updates [simp]:
  "trees_ok (s\<lparr>dirtyTree := t\<rparr>) \<longleftrightarrow> tree_inv t \<and> tree_inv (releasedTree s)"
  "trees_ok (s\<lparr>releasedTree := t\<rparr>) \<longleftrightarrow> tree_inv (dirtyTree s) \<and> tree_inv t"
  "trees_ok (unit_call ks s) = trees_ok s"
  "trees_ok (PrehandleReleasedUnit e idx num s) = trees_ok s"
  by (simp_all add: trees_ok_def unit_call_def PrehandleReleasedUnit_def)

lemma unit_call_trees [simp]:
  "dirtyTree (unit_call ks s) = dirtyTree s" "releasedTree (unit_call ks s) = releasedTree s"
  "dirtyTree (PrehandleReleasedUnit e idx num s) = dirtyTree s"
  "releasedTree (PrehandleReleasedUnit e idx num s) = releasedTree s"
  by (simp_all add: unit_call_def PrehandleReleasedUnit_def)

lemma take_dirty_cases:
  assumes "trees_ok s"
  obtains (none) "take_dirty num uclass s = Inr (None, s)"
  | (some) idx s' where "take_dirty num uclass s = Inr (Some idx, s')" and "trees_ok s'" and "ucast num \<noteq> (0 :: u32)"
      and "unat idx + unat (ucast num :: u32) < 2 ^ 32" and "units_of idx (ucast num) \<subseteq> dirty_units s"
      and "dirty_units s' = dirty_units s - units_of idx (ucast num)" and "releasedTree s' = releasedTree s"
proof (rule low.take_cases [of "dirtyTree s" "ucast num" True])
  show "tree_inv (dirtyTree s)" using assms by (simp add: trees_ok_def)
qed (use assms that in \<open>auto simp: take_dirty_def units_of_def trees_ok_def\<close>)

lemma take_released_cases:
  assumes "trees_ok s"
  obtains (none) "take_released windows num uclass s = Inr (None, s)"
  | (some) idx s' where "take_released windows num uclass s = Inr (Some idx, s')" and "trees_ok s'" and "ucast num \<noteq> (0 :: u32)"
      and "unat idx + unat (ucast num :: u32) < 2 ^ 32" and "units_of idx (ucast num) \<subseteq> released_units s"
      and "released_units s' = released_units s - units_of idx (ucast num)" and "dirtyTree s' = dirtyTree s"
proof (rule low.take_cases [of "releasedTree s" "ucast num" True])
  show "tree_inv (releasedTree s)" using assms by (simp add: trees_ok_def)
qed (use assms that in \<open>auto simp: take_released_def units_of_def trees_ok_def\<close>)

lemma add_dirty_fresh:
  assumes "trees_ok s" and "num \<noteq> 0" and "unat idx + unat num < 2 ^ 32" and "dirty_units s \<inter> units_of idx num = {}"
  obtains s' where "add_dirty idx num s = Inr s'" and "trees_ok s'"
    and "dirty_units s' = dirty_units s \<union> units_of idx num" and "releasedTree s' = releasedTree s"
proof (rule low.put_fresh [of "dirtyTree s" num idx True])
  show "tree_inv (dirtyTree s)" using assms(1) by (simp add: trees_ok_def)
qed (use assms that in \<open>auto simp: add_dirty_def units_of_def trees_ok_def\<close>)

lemma add_released_fresh:
  assumes "trees_ok s" and "num \<noteq> 0" and "unat idx + unat num < 2 ^ 32" and "released_units s \<inter> units_of idx num = {}"
  obtains s' where "add_released idx num s = Inr s'" and "trees_ok s'"
    and "released_units s' = released_units s \<union> units_of idx num" and "dirtyTree s' = dirtyTree s"
proof (rule low.put_fresh [of "releasedTree s" num idx True])
  show "tree_inv (releasedTree s)" using assms(1) by (simp add: trees_ok_def)
qed (use assms that in \<open>auto simp: add_released_def units_of_def trees_ok_def\<close>)

lemma release_root_cases:
  assumes "trees_ok s"
  obtains (none) "release_root s = Inr (None, s)" and "dirty_units s = {}"
  | (some) idx num s' where "release_root s = Inr (Some (idx, num), s')" and "trees_ok s'" and "num \<noteq> 0"
      and "unat idx + unat num < 2 ^ 32" and "units_of idx num \<subseteq> dirty_units s"
      and "dirty_units s' = dirty_units s - units_of idx num" and "releasedTree s' = releasedTree s"
proof (cases "root (dirtyTree s) = Null")
  case True
  with that(1) show thesis by (simp add: release_root_def Let_def free_units_def)
next
  case False
  have inv: "tree_inv (dirtyTree s)" using assms by (simp add: trees_ok_def)
  from ReleaseRootNode_correct [OF inv False] obtain t where t: "ReleaseRootNode (dirtyTree s) = Inr t" "tree_inv t"
    and r: "is_run (dirty_units s) (unat (GetIndex (root (dirtyTree s)))) (unat (GetCount (root (dirtyTree s))))"
    and u: "free_units t = dirty_units s - units_of (GetIndex (root (dirtyTree s))) (GetCount (root (dirtyTree s)))"
    by (auto simp: units_of_def)
  from r have sub: "units_of (GetIndex (root (dirtyTree s))) (GetCount (root (dirtyTree s))) \<subseteq> dirty_units s"
    and n0: "GetCount (root (dirtyTree s)) \<noteq> 0"
    by (simp_all add: is_run_def units_of_def unat_gt_0)
  have "release_root s = Inr (Some (GetIndex (root (dirtyTree s)), GetCount (root (dirtyTree s))), s\<lparr>dirtyTree := t\<rparr>)"
    using False t(1) by (simp add: release_root_def Let_def)
  from that(2) [OF this] show thesis
    using t(2) assms n0 sub u low.in_range [OF inv n0] by (auto simp: trees_ok_def units_of_def)
qed

section \<open>Releasing garbage, alone\<close>

declare unat_ucast_u32 [simp]

lemma card_units_of: "card (units_of idx num) = unat num"
  by (simp add: units_of_def)

lemma dirty_bytes_card:
  assumes "trees_ok s"
  shows "unat (dirty_bytes s) = 4096 * card (dirty_units s)"
proof -
  have "card (dirty_units s) = unat (totalCount (dirtyTree s))"
    using free_units_card assms by (simp add: trees_ok_def)
  moreover have "unat (totalCount (dirtyTree s)) < 2 ^ 32" by (rule less_le_trans [OF unsigned_less]) simp
  ultimately show ?thesis
    by (simp add: dirty_bytes_def UNIT_SIZE_def unat_word_ariths unat_ucast_u32)
qed

text \<open>One round: the units of the root change trees.\<close>

lemma release_round:
  assumes ok: "trees_ok s" and apart: "dirty_units s \<inter> released_units s = {}"
  obtains (none) "release_root s = Inr (None, s)" and "dirty_units s = {}"
  | (some) idx num s1 s2 where "release_root s = Inr (Some (idx, num), s1)" and "add_released idx num s1 = Inr s2"
      and "trees_ok s2" and "units_of idx num \<subseteq> dirty_units s" and "dirty_units s2 = dirty_units s - units_of idx num"
      and "released_units s2 = released_units s \<union> units_of idx num"
proof (rule release_root_cases [OF ok])
  fix idx num s1
  assume r: "release_root s = Inr (Some (idx, num), s1)" "trees_ok s1" "num \<noteq> 0" "unat idx + unat num < 2 ^ 32"
    "units_of idx num \<subseteq> dirty_units s" "dirty_units s1 = dirty_units s - units_of idx num"
    "releasedTree s1 = releasedTree s"
  have "released_units s1 \<inter> units_of idx num = {}" using apart r(5,7) by auto
  from add_released_fresh [OF r(2-4) this] obtain s2 where "add_released idx num s1 = Inr s2" "trees_ok s2"
    "released_units s2 = released_units s1 \<union> units_of idx num" "dirtyTree s2 = dirtyTree s1" .
  with r show thesis by (intro that(2) [of idx num s1 s2]) simp_all
qed (rule that(1))

lemma release_loop_correct:
  assumes "trees_ok s" and "dirty_units s \<inter> released_units s = {}" and "dirtyBytes = dirty_bytes s"
    and "unat done + 4096 * card (dirty_units s) < 2 ^ 64"
  shows "\<exists>bytes s'. release_loop target done dirtyBytes s = Inr (bytes, s') \<and> trees_ok s' \<and>
    dirty_units s' \<inter> released_units s' = {} \<and> dirty_units s' \<union> released_units s' = dirty_units s \<union> released_units s \<and>
    dirty_units s' \<subseteq> dirty_units s \<and> dirty_bytes s' \<le> target \<and>
    unat bytes + 4096 * card (dirty_units s') = unat done + 4096 * card (dirty_units s)"
  using assms
proof (induction target "done" dirtyBytes s rule: release_loop.induct)
  case (1 target dn bytes s)
  note ok = "1.prems"(1) and apart = "1.prems"(2) and now = "1.prems"(3) and small = "1.prems"(4)
  show ?case
  proof (cases "bytes > target")
    case False
    then have "release_loop target dn bytes s = Inr (dn, s)" by (simp add: release_loop.simps [of target dn bytes s])
    with "1.prems" False show ?thesis by (intro exI [of _ dn] exI [of _ s]) simp
  next
    case True
    show ?thesis
    proof (rule release_round [OF ok apart])
      assume none: "release_root s = Inr (None, s)" "dirty_units s = {}"
      then have "unat bytes = 0" using dirty_bytes_card [OF ok] now by simp
      then show ?thesis using True by (simp add: word_less_nat_alt)
    next
      fix idx num s1 s2
      assume r: "release_root s = Inr (Some (idx, num), s1)" and a: "add_released idx num s1 = Inr s2"
        and ok2: "trees_ok s2" and sub: "units_of idx num \<subseteq> dirty_units s"
        and d: "dirty_units s2 = dirty_units s - units_of idx num"
        and rel: "released_units s2 = released_units s \<union> units_of idx num"
      let ?dn = "dn + ucast num * UNIT_SIZE"
      have fin: "finite (dirty_units s)" using free_units_card ok by (simp add: trees_ok_def)
      have split: "card (dirty_units s) = card (dirty_units s2) + unat num"
        using card_Diff_subset [OF _ sub] card_mono [OF fin sub] fin d by (simp add: card_units_of units_of_def)
      have num: "unat (ucast num * UNIT_SIZE) = 4096 * unat num"
        using less_le_trans [OF unsigned_less [of num, where 'a = nat]]
        by (simp add: UNIT_SIZE_def unat_word_ariths unat_ucast_u32)
      have dn: "unat ?dn = unat dn + 4096 * unat num"
        using small split num by (simp add: unat_word_ariths)
      have step: "release_loop target dn bytes s = release_loop target ?dn (dirty_bytes s2) s2"
        by (simp add: release_loop.simps [of target dn bytes s] True r a)
      have "dirty_units s2 \<inter> released_units s2 = {}" using apart d rel sub by auto
      from "1.IH" [OF True r refl refl refl a ok2 this refl] small split dn obtain bs s' where
        run: "release_loop target ?dn (dirty_bytes s2) s2 = Inr (bs, s')" and
        "trees_ok s'" "dirty_units s' \<inter> released_units s' = {}" "dirty_bytes s' \<le> target" and
        all: "dirty_units s' \<union> released_units s' = dirty_units s2 \<union> released_units s2"
          "dirty_units s' \<subseteq> dirty_units s2" and
        sum: "unat bs + 4096 * card (dirty_units s') = unat ?dn + 4096 * card (dirty_units s2)"
        by auto
      moreover have "dirty_units s2 \<union> released_units s2 = dirty_units s \<union> released_units s" using d rel sub by auto
      ultimately show ?thesis
        using d dn split by (intro exI [of _ bs] exI [of _ s']) (auto simp: step)
    qed
  qed
qed

text \<open>The whole of \<open>ReleaseGarbageRegions\<close>.\<close>

lemma ReleaseGarbage_moves:
  assumes "trees_ok s" and "dirty_units s \<inter> released_units s = {}"
  shows "\<exists>bytes s'. ReleaseGarbageRegions targetCachedSize s = Inr (bytes, s') \<and> trees_ok s' \<and>
    dirty_bytes s' \<le> targetCachedSize \<and> dirty_units s' \<subseteq> dirty_units s \<and>
    released_units s' = released_units s \<union> (dirty_units s - dirty_units s') \<and>
    unat bytes = 4096 * card (dirty_units s - dirty_units s')"
proof (cases "dirty_bytes s \<le> targetCachedSize")
  case True
  with assms show ?thesis by (simp add: ReleaseGarbageRegions_def)
next
  case False
  have fin: "finite (dirty_units s)" and "card (dirty_units s) = unat (totalCount (dirtyTree s))"
    using free_units_card assms(1) by (simp_all add: trees_ok_def)
  then have "card (dirty_units s) < 2 ^ 32" using unsigned_less [of "totalCount (dirtyTree s)", where 'a = nat] by simp
  then have "unat (0 :: u64) + 4096 * card (dirty_units s) < 2 ^ 64" by simp
  from release_loop_correct [OF assms refl this, of targetCachedSize] obtain bytes s' where
    run: "release_loop targetCachedSize 0 (dirty_bytes s) s = Inr (bytes, s')" and ok: "trees_ok s'" and
    set: "dirty_units s' \<inter> released_units s' = {}" "dirty_units s' \<union> released_units s' = dirty_units s \<union> released_units s"
      "dirty_units s' \<subseteq> dirty_units s" and le: "dirty_bytes s' \<le> targetCachedSize" and
    sum: "unat bytes + 4096 * card (dirty_units s') = 4096 * card (dirty_units s)"
    by (simp del: split_paired_Ex) blast
  have "released_units s' = released_units s \<union> (dirty_units s - dirty_units s')" using set assms(2) by auto
  moreover have "unat bytes = 4096 * card (dirty_units s - dirty_units s')"
    using sum set(3) fin by (simp add: card_Diff_subset finite_subset card_mono diff_mult_distrib2)
  ultimately show ?thesis using run ok le set(3) False by (auto simp: ReleaseGarbageRegions_def)
qed

text \<open>
  C23. \<open>ReleaseGarbageRegions\<close> always comes back, without a fatal merge: afterwards no more than the
  target is dirty, the units it took out of the dirty tree are in the released tree and all others
  where they were, and it returns their number of bytes, with no wrap-around.
\<close>

theorem ReleaseGarbageRegions_releases:
  assumes "trees_ok s" and "dirty_units s \<inter> released_units s = {}"
  shows "\<exists>bytes s'. ReleaseGarbageRegions targetCachedSize s = Inr (bytes, s') \<and> trees_ok s' \<and>
    dirty_bytes s' \<le> targetCachedSize \<and> dirty_units s' \<subseteq> dirty_units s \<and>
    released_units s' = released_units s \<union> (dirty_units s - dirty_units s') \<and>
    unat bytes = 4096 * card (dirty_units s - dirty_units s')"
  using ReleaseGarbage_moves [OF assms] .

section \<open>Taking a region, alone\<close>

text \<open>
  A best fit of a store: the lowest shortest maximal run with room for \<open>n\<close> units.
\<close>

definition best_run :: "nat set \<Rightarrow> nat \<Rightarrow> nat \<Rightarrow> bool" where
  "best_run S n a \<longleftrightarrow> (\<exists>k. is_run S a k \<and> n \<le> k \<and>
     (\<forall>a' k'. is_run S a' k' \<and> n \<le> k' \<longrightarrow> k < k' \<or> k = k' \<and> a \<le> a'))"

definition no_run :: "nat set \<Rightarrow> nat \<Rightarrow> bool" where
  "no_run S n \<longleftrightarrow> (\<forall>a k. is_run S a k \<longrightarrow> k < n)"

lemma take_dirty_best:
  assumes "trees_ok s" and "ucast num \<noteq> (0 :: u32)"
  obtains (none) "take_dirty num uclass s = Inr (None, s)" and "no_run (dirty_units s) (unat (ucast num :: u32))"
  | (some) idx s' where "take_dirty num uclass s = Inr (Some idx, s')" and "best_run (dirty_units s) (unat (ucast num :: u32)) (unat idx)"
      and "trees_ok s'" and "dirty_units s' = dirty_units s - units_of idx (ucast num)"
      and "releasedTree s' = releasedTree s"
      and "unit_calls s' = unit_calls s @ [ClearUnits (ucast idx) num, InitRegion (ucast idx) num uclass]"
proof -
  have inv: "tree_inv (dirtyTree s)" using assms(1) by (simp add: trees_ok_def)
  from TakeUnitsLowAddr_cases [OF inv assms(2), of True] show thesis
  proof (elim disjE exE conjE)
    assume "TakeUnitsLowAddr (ucast num) True (dirtyTree s) = Inr (None, dirtyTree s)"
      "\<forall>a k. is_run (dirty_units s) a k \<longrightarrow> k < unat (ucast num :: u32)"
    with that(1) show thesis by (simp add: take_dirty_def no_run_def)
  next
    fix i k t
    assume r: "TakeUnitsLowAddr (ucast num) True (dirtyTree s) = Inr (Some i, t)" "tree_inv t"
      "is_run (dirty_units s) (unat i) k" "unat (ucast num :: u32) \<le> k"
      "\<forall>a' k'. is_run (dirty_units s) a' k' \<and> unat (ucast num :: u32) \<le> k' \<longrightarrow> k < k' \<or> k = k' \<and> unat i \<le> a'"
      "free_units t = dirty_units s - {unat i..<unat i + unat (ucast num :: u32)}"
    from r(3-5) have "best_run (dirty_units s) (unat (ucast num :: u32)) (unat i)"
      unfolding best_run_def by blast
    from that(2) [OF _ this] show thesis
      using r assms(1) by (simp add: take_dirty_def trees_ok_def units_of_def unit_call_def)
  qed
qed

lemma take_released_best:
  assumes "trees_ok s" and "ucast num \<noteq> (0 :: u32)"
  obtains (none) "take_released windows num uclass s = Inr (None, s)" and "no_run (released_units s) (unat (ucast num :: u32))"
  | (some) idx s' where "take_released windows num uclass s = Inr (Some idx, s')" and "best_run (released_units s) (unat (ucast num :: u32)) (unat idx)"
      and "trees_ok s'" and "released_units s' = released_units s - units_of idx (ucast num)"
      and "dirtyTree s' = dirtyTree s"
      and "unit_calls s' = unit_calls s @ FreeRegionCommitMemory windows (ucast idx) num @ [InitRegion (ucast idx) num uclass]"
proof -
  have inv: "tree_inv (releasedTree s)" using assms(1) by (simp add: trees_ok_def)
  from TakeUnitsLowAddr_cases [OF inv assms(2), of True] show thesis
  proof (elim disjE exE conjE)
    assume "TakeUnitsLowAddr (ucast num) True (releasedTree s) = Inr (None, releasedTree s)"
      "\<forall>a k. is_run (released_units s) a k \<longrightarrow> k < unat (ucast num :: u32)"
    with that(1) show thesis by (simp add: take_released_def no_run_def)
  next
    fix i k t
    assume r: "TakeUnitsLowAddr (ucast num) True (releasedTree s) = Inr (Some i, t)" "tree_inv t"
      "is_run (released_units s) (unat i) k" "unat (ucast num :: u32) \<le> k"
      "\<forall>a' k'. is_run (released_units s) a' k' \<and> unat (ucast num :: u32) \<le> k' \<longrightarrow> k < k' \<or> k = k' \<and> unat i \<le> a'"
      "free_units t = released_units s - {unat i..<unat i + unat (ucast num :: u32)}"
    from r(3-5) have "best_run (released_units s) (unat (ucast num :: u32)) (unat i)"
      unfolding best_run_def by blast
    from that(2) [OF _ this] show thesis
      using r assms(1) by (simp add: take_released_def trees_ok_def units_of_def unit_call_def)
  qed
qed

text \<open>\<open>TakeRegion\<close> with both mutexes there to be had.\<close>

lemma TakeRegion_round:
  assumes "trees_ok s" and "0 < unat num" and "unat num < 2 ^ 32"
  shows "(\<exists>idx s'. TakeRegion windows num uclass expectPhysicalMem ((True, True) # locks) s = Some (Inr (Some idx, s')) \<and>
      trees_ok s' \<and> best_run (dirty_units s) (unat num) (unat idx) \<and>
      dirty_units s' = dirty_units s - {unat idx ..< unat idx + unat num} \<and> releasedTree s' = releasedTree s \<and>
      unit_calls s' = unit_calls s @ [ClearUnits (ucast idx) num, InitRegion (ucast idx) num uclass]) \<or>
    no_run (dirty_units s) (unat num) \<and>
    ((\<exists>idx s'. TakeRegion windows num uclass expectPhysicalMem ((True, True) # locks) s = Some (Inr (Some idx, s')) \<and>
        trees_ok s' \<and> best_run (released_units s) (unat num) (unat idx) \<and>
        released_units s' = released_units s - {unat idx ..< unat idx + unat num} \<and> dirtyTree s' = dirtyTree s \<and>
        unit_calls s' = unit_calls s @ FreeRegionCommitMemory windows (ucast idx) num @
          [InitRegion (ucast idx) num uclass] @ (if expectPhysicalMem then [ClearUnits (ucast idx) num] else [])) \<or>
      no_run (released_units s) (unat num) \<and>
        TakeRegion windows num uclass expectPhysicalMem ((True, True) # locks) s = Some (Inr (None, s)))"
proof -
  have nat: "unat (ucast num :: u32) = unat num" using assms(3) by (simp add: unsigned_ucast_eq take_bit_nat_eq_self)
  then have n0: "ucast num \<noteq> (0 :: u32)" using assms(2) by (metis unat_0 less_irrefl)
  show ?thesis
  proof (rule take_dirty_best [OF assms(1) n0, of uclass])
    fix idx s'
    assume "take_dirty num uclass s = Inr (Some idx, s')" "trees_ok s'"
      "best_run (dirty_units s) (unat (ucast num :: u32)) (unat idx)"
      "dirty_units s' = dirty_units s - units_of idx (ucast num)" "releasedTree s' = releasedTree s"
      "unit_calls s' = unit_calls s @ [ClearUnits (ucast idx) num, InitRegion (ucast idx) num uclass]"
    then show ?thesis
      by (intro disjI1 exI [of _ idx] exI [of _ s']) (simp add: TakeRegion_def take_loop.simps nat units_of_def)
  next
    assume d: "take_dirty num uclass s = Inr (None, s)" "no_run (dirty_units s) (unat (ucast num :: u32))"
    show ?thesis
    proof (rule take_released_best [OF assms(1) n0, of windows uclass])
      fix idx s'
      assume r: "take_released windows num uclass s = Inr (Some idx, s')" "trees_ok s'"
        "best_run (released_units s) (unat (ucast num :: u32)) (unat idx)"
        "released_units s' = released_units s - units_of idx (ucast num)" "dirtyTree s' = dirtyTree s"
        "unit_calls s' = unit_calls s @ FreeRegionCommitMemory windows (ucast idx) num @ [InitRegion (ucast idx) num uclass]"
      show ?thesis
        by (insert d r, rule disjI2, rule conjI, simp add: nat, rule disjI1,
            intro exI [of _ idx] exI [of _ "PrehandleReleasedUnit expectPhysicalMem (ucast idx) num s'"])
          (simp add: TakeRegion_def take_loop.simps nat units_of_def PrehandleReleasedUnit_def unit_call_def trees_ok_def)
    next
      assume "take_released windows num uclass s = Inr (None, s)" "no_run (released_units s) (unat (ucast num :: u32))"
      with d show ?thesis by (simp add: TakeRegion_def take_loop.simps nat)
    qed
  qed
qed

text \<open>
  C25. With the mutexes there to be had, \<open>TakeRegion\<close> is over in one round: the best fit of the
  dirty tree, its memory cleared; else the best fit of the released tree, cleared when physical
  memory is expected; else null, with nothing changed, and then neither tree has a run long enough.
\<close>

theorem TakeRegion_uncontended:
  assumes "trees_ok s" and "0 < unat num" and "unat num < 2 ^ 32"
  shows "(\<exists>idx s'. TakeRegion windows num uclass expectPhysicalMem ((True, True) # locks) s = Some (Inr (Some idx, s')) \<and>
      trees_ok s' \<and> best_run (dirty_units s) (unat num) (unat idx) \<and>
      dirty_units s' = dirty_units s - {unat idx ..< unat idx + unat num} \<and> releasedTree s' = releasedTree s \<and>
      unit_calls s' = unit_calls s @ [ClearUnits (ucast idx) num, InitRegion (ucast idx) num uclass]) \<or>
    no_run (dirty_units s) (unat num) \<and>
    ((\<exists>idx s'. TakeRegion windows num uclass expectPhysicalMem ((True, True) # locks) s = Some (Inr (Some idx, s')) \<and>
        trees_ok s' \<and> best_run (released_units s) (unat num) (unat idx) \<and>
        released_units s' = released_units s - {unat idx ..< unat idx + unat num} \<and> dirtyTree s' = dirtyTree s \<and>
        unit_calls s' = unit_calls s @ FreeRegionCommitMemory windows (ucast idx) num @
          [InitRegion (ucast idx) num uclass] @ (if expectPhysicalMem then [ClearUnits (ucast idx) num] else [])) \<or>
      no_run (released_units s) (unat num) \<and>
        TakeRegion windows num uclass expectPhysicalMem ((True, True) # locks) s = Some (Inr (None, s)))"
  using TakeRegion_round [OF assms] .

section \<open>Taking a region, contended\<close>

lemma take_loop_returns:
  assumes "trees_ok s" and "td \<longrightarrow> (\<exists>l \<in> set locks. fst l)" and "tr \<longrightarrow> (\<exists>l \<in> set locks. snd l)"
  shows "\<exists>res s'. take_loop windows num uclass e td tr locks s = Some (Inr (res, s')) \<and> trees_ok s'"
  using assms
proof (induction locks arbitrary: td tr s)
  case Nil
  then show ?case by (simp add: take_loop.simps)
next
  case (Cons l rest)
  obtain d r where l: "l = (d, r)" by (cases l)
  show ?case
  proof (cases "td \<or> tr")
    case False
    with Cons.prems show ?thesis by (simp add: take_loop.simps)
  next
    case True
    let ?one = "if td \<and> d then take_dirty num uclass s else Inr (None, s)"
    let ?two = "if tr \<and> r then take_released windows num uclass s else Inr (None, s)"
    have one: "?one = Inr (None, s) \<or> (\<exists>i s'. ?one = Inr (Some i, s') \<and> trees_ok s')"
      by (rule take_dirty_cases [OF Cons.prems(1), of num uclass]) auto
    have two: "?two = Inr (None, s) \<or> (\<exists>i s'. ?two = Inr (Some i, s') \<and> trees_ok s')"
      by (rule take_released_cases [OF Cons.prems(1), of windows num uclass]) auto
    have rest: "\<exists>res s'. take_loop windows num uclass e (td \<and> \<not> d) (tr \<and> \<not> r) rest s = Some (Inr (res, s')) \<and> trees_ok s'"
      using Cons.prems l by (intro Cons.IH) auto
    note unf = take_loop.simps [of windows num uclass e td tr "(d, r) # rest" s]
    from one show ?thesis
    proof
      assume 1: "?one = Inr (None, s)"
      from two show ?thesis
      proof
        assume "?two = Inr (None, s)"
        with 1 have "take_loop windows num uclass e td tr (l # rest) s =
            take_loop windows num uclass e (td \<and> \<not> d) (tr \<and> \<not> r) rest s"
          using True by (simp add: unf l) blast
        with rest show ?thesis by simp
      qed (use 1 True in \<open>auto simp: unf l\<close>)
    qed (use True in \<open>auto simp: unf l\<close>)
  qed
qed

text \<open>
  \<open>TakeRegion\<close> returns, and never aborts, as soon as each of the two mutexes could be had in
  some round, in the same or in different ones: a tree that has been searched in vain is not tried
  again.
\<close>

theorem TakeRegion_returns:
  assumes "trees_ok s" and "\<exists>l \<in> set locks. fst l" and "\<exists>l \<in> set locks. snd l"
  shows "\<exists>res s'. TakeRegion windows num uclass expectPhysicalMem locks s = Some (Inr (res, s')) \<and> trees_ok s'"
  unfolding TakeRegion_def by (rule take_loop_returns) (use assms in auto)

section \<open>Examples\<close>

definition demo_regions :: free_regions where
  "demo_regions = \<lparr>releasedTree = \<lparr>totalCount = 2, root = Node Null 20 2 Null, region_calls = []\<rparr>,
    dirtyTree = \<lparr>totalCount = 7, root = Node Null 8 4 (Node Null 14 3 Null), region_calls = []\<rparr>, unit_calls = []\<rparr>"

lemma demo_regions_ok: "trees_ok demo_regions" "dirty_units demo_regions \<inter> released_units demo_regions = {}"
  by (auto simp: demo_regions_def trees_ok_def tree_inv_def spans_ok_def span_ok_def apart_def span_total_def
      free_units_def cover_def span_units_def)

theorem ReleaseGarbageRegions_releases_witness:
  "\<exists>bytes s'. ReleaseGarbageRegions 0 demo_regions = Inr (bytes, s') \<and> dirty_bytes s' \<le> 0 \<and> trees_ok s'"
  using ReleaseGarbageRegions_releases [OF demo_regions_ok, of 0] by blast

theorem TakeRegion_uncontended_witness:
  "\<exists>idx s'. TakeRegion False 3 1 True [(True, True)] demo_regions = Some (Inr (Some idx, s')) \<and> trees_ok s'"
proof -
  have "is_run (dirty_units demo_regions) 14 3"
    by (auto simp: is_run_def demo_regions_def free_units_def cover_def span_units_def)
  then have "\<not> no_run (dirty_units demo_regions) (unat (3 :: u64))" by (auto simp: no_run_def)
  with TakeRegion_uncontended [OF demo_regions_ok(1), of 3 False 1 True "[]"] show ?thesis by auto
qed

theorem TakeRegion_returns_witness:
  "\<exists>res s'. TakeRegion True 9 1 False [(False, False), (False, True), (True, False)] demo_regions = Some (Inr (res, s')) \<and> trees_ok s'"
  by (rule TakeRegion_returns [OF demo_regions_ok(1)]) simp_all

end
