(* ===== verification/RegionThreads.thy ===== *)
theory RegionThreads
  imports FreeRegions
begin

text \<open>
  Threads in the manager of free regions. A thread is at a place in \<open>TakeRegion\<close>,
  \<open>AddGarbageUnits\<close>, \<open>AddReleaseUnits\<close> or \<open>ReleaseGarbageRegions\<close> of
  \<^verbatim>\<open>src/rt.heap.allocator/FreeRegionManager.cj\<close>; it takes a mutex, runs a critical section of
  \<open>FreeRegions\<close> and gives the mutex back, or does a step without one, in any interleaving.
\<close>

section \<open>Threads\<close>

datatype mutex = DirtyMutex | ReleasedMutex

text \<open>\<open>TakeRegion(num, uclass, expectPhysicalMem)\<close>\<close>

type_synonym request = "u64 \<times> u8 \<times> bool"

text \<open>
  Places: \<open>TakeHead\<close> is the head of the loop and \<open>TakeNext\<close> its second test, with what is still
  to be tried; \<open>TakeDirty\<close>, \<open>TakeReleased\<close>, \<open>AddHold\<close>, \<open>ReleaseHold\<close> and \<open>MoveHold\<close> hold a mutex;
  \<open>ReleaseHead\<close> reads the dirty total without one, as the code does.
\<close>

datatype region_pc =
    Idle
  | TakeHead request bool bool
  | TakeDirty request bool
  | TakeNext request bool bool
  | TakeReleased request bool
  | Prehandle request u32
  | TakeDone request "u32 option"
  | AddWait mutex u32 u32
  | AddHold mutex u32 u32
  | ReleaseHead u64 u64
  | ReleaseWait u64 u64
  | ReleaseHold u64 u64
  | MoveWait u64 u64 u32 u32
  | MoveHold u64 u64 u32 u32

text \<open>The mutex a thread takes next, and its place then.\<close>

fun acquire :: "region_pc \<Rightarrow> (mutex \<times> region_pc) option" where
  "acquire (TakeHead q True tryReleased) = Some (DirtyMutex, TakeDirty q tryReleased)"
| "acquire (TakeNext q tryDirty True) = Some (ReleasedMutex, TakeReleased q tryDirty)"
| "acquire (AddWait m idx num) = Some (m, AddHold m idx num)"
| "acquire (ReleaseWait target released) = Some (DirtyMutex, ReleaseHold target released)"
| "acquire (MoveWait target released idx num) = Some (ReleasedMutex, MoveHold target released idx num)"
| "acquire _ = None"

fun holds :: "region_pc \<Rightarrow> mutex option" where
  "holds (TakeDirty _ _) = Some DirtyMutex"
| "holds (TakeReleased _ _) = Some ReleasedMutex"
| "holds (AddHold m _ _) = Some m"
| "holds (ReleaseHold _ _) = Some DirtyMutex"
| "holds (MoveHold _ _ _ _) = Some ReleasedMutex"
| "holds _ = None"

text \<open>
  Steps without a mutex. \<open>try_lock\<close> may fail whoever has the mutex, so \<open>TakeHead\<close> and \<open>TakeNext\<close>
  can always move on.
\<close>

fun local_step :: "region_pc \<Rightarrow> free_regions \<Rightarrow> (region_pc \<times> free_regions) option" where
  "local_step (TakeHead q tryDirty tryReleased) s =
     Some (if \<not> tryDirty \<and> \<not> tryReleased then TakeDone q None else TakeNext q tryDirty tryReleased, s)"
| "local_step (TakeNext q tryDirty tryReleased) s = Some (TakeHead q tryDirty tryReleased, s)"
| "local_step (Prehandle (num, uclass, expectPhysicalMem) idx) s =
     Some (TakeDone (num, uclass, expectPhysicalMem) (Some idx),
       PrehandleReleasedUnit expectPhysicalMem (ucast idx) num s)"
| "local_step (ReleaseHead target released) s =
     Some (if dirty_bytes s > target then ReleaseWait target released else Idle, s)"
| "local_step _ s = None"

text \<open>The critical section of a place that holds a mutex, and the place after it.\<close>

fun section_step :: "bool \<Rightarrow> region_pc \<Rightarrow> free_regions \<Rightarrow> (region_pc \<times> free_regions) res" where
  "section_step windows (TakeDirty (num, uclass, e) tryReleased) s =
     and_then (take_dirty num uclass s) (\<lambda>(res, s').
       Inr (case res of None \<Rightarrow> TakeNext (num, uclass, e) False tryReleased
                      | Some idx \<Rightarrow> TakeDone (num, uclass, e) (Some idx), s'))"
| "section_step windows (TakeReleased (num, uclass, e) tryDirty) s =
     and_then (take_released windows num uclass s) (\<lambda>(res, s').
       Inr (case res of None \<Rightarrow> TakeHead (num, uclass, e) tryDirty False
                      | Some idx \<Rightarrow> Prehandle (num, uclass, e) idx, s'))"
| "section_step windows (AddHold DirtyMutex idx num) s = and_then (add_dirty idx num s) (\<lambda>s'. Inr (Idle, s'))"
| "section_step windows (AddHold ReleasedMutex idx num) s = and_then (add_released idx num s) (\<lambda>s'. Inr (Idle, s'))"
| "section_step windows (ReleaseHold target released) s =
     and_then (release_root s) (\<lambda>(res, s').
       Inr (case res of None \<Rightarrow> Idle | Some (idx, num) \<Rightarrow> MoveWait target released idx num, s'))"
| "section_step windows (MoveHold target released idx num) s =
     and_then (add_released idx num s) (\<lambda>s'.
       Inr (ReleaseHead target (released + ucast num * UNIT_SIZE), s'))"
| "section_step windows _ s = Inl Trap"

text \<open>
  The world: the two trees, who has each mutex, the place of every thread, the units of the regions
  the mutators hold, and whether some thread has ended the process.
\<close>

record region_world =
  trees :: free_regions
  owners :: "mutex \<Rightarrow> nat option"
  pcs :: "nat \<Rightarrow> region_pc"
  held :: "nat set"
  failed :: bool

definition goto :: "nat \<Rightarrow> region_pc \<Rightarrow> region_world \<Rightarrow> region_world" where
  "goto t pc w = w\<lparr>pcs := (pcs w)(t := pc)\<rparr>"

fun region_units :: "request \<Rightarrow> u32 option \<Rightarrow> nat set" where
  "region_units (num, uclass, e) None = {}"
| "region_units (num, uclass, e) (Some idx) = units_of idx (ucast num)"

text \<open>A thread that gives units back gives units of regions that are held, and at least one.\<close>

inductive region_step :: "bool \<Rightarrow> region_world \<Rightarrow> nat \<Rightarrow> region_world \<Rightarrow> bool" for windows where
  call_take: "pcs w t = Idle \<Longrightarrow> region_step windows w t (goto t (TakeHead q True True) w)"
| return_take: "pcs w t = TakeDone q res \<Longrightarrow>
    region_step windows w t (goto t Idle (w\<lparr>held := held w \<union> region_units q res\<rparr>))"
| call_add: "pcs w t = Idle \<Longrightarrow> num \<noteq> 0 \<Longrightarrow> unat idx + unat num < 2 ^ 32 \<Longrightarrow> units_of idx num \<subseteq> held w \<Longrightarrow>
    region_step windows w t (goto t (AddWait m idx num) (w\<lparr>held := held w - units_of idx num\<rparr>))"
| call_release: "pcs w t = Idle \<Longrightarrow> region_step windows w t (goto t (ReleaseHead target 0) w)"
| take_mutex: "acquire (pcs w t) = Some (m, pc) \<Longrightarrow> owners w m = None \<Longrightarrow>
    region_step windows w t (goto t pc (w\<lparr>owners := (owners w)(m := Some t)\<rparr>))"
| do_local: "local_step (pcs w t) (trees w) = Some (pc, s) \<Longrightarrow>
    region_step windows w t (goto t pc (w\<lparr>trees := s\<rparr>))"
| do_section: "holds (pcs w t) = Some m \<Longrightarrow> section_step windows (pcs w t) (trees w) = Inr (pc, s) \<Longrightarrow>
    region_step windows w t (goto t pc (w\<lparr>trees := s, owners := (owners w)(m := None)\<rparr>))"
| do_fail: "holds (pcs w t) = Some m \<Longrightarrow> section_step windows (pcs w t) (trees w) = Inl e \<Longrightarrow>
    region_step windows w t (w\<lparr>failed := True\<rparr>)"

section \<open>Where the units are\<close>

text \<open>The units a thread has between two trees, or between a tree and a mutator.\<close>

fun carried :: "region_pc \<Rightarrow> nat set" where
  "carried (Prehandle q idx) = region_units q (Some idx)"
| "carried (TakeDone q res) = region_units q res"
| "carried (AddWait m idx num) = units_of idx num"
| "carried (AddHold m idx num) = units_of idx num"
| "carried (MoveWait target released idx num) = units_of idx num"
| "carried (MoveHold target released idx num) = units_of idx num"
| "carried _ = {}"

datatype loc = DirtyLoc | ReleasedLoc | HeldLoc | ThreadLoc nat

fun place :: "free_regions \<Rightarrow> nat set \<Rightarrow> (nat \<Rightarrow> region_pc) \<Rightarrow> loc \<Rightarrow> nat set" where
  "place s h ps DirtyLoc = dirty_units s"
| "place s h ps ReleasedLoc = released_units s"
| "place s h ps HeldLoc = h"
| "place s h ps (ThreadLoc t) = carried (ps t)"

fun valid_pc :: "region_pc \<Rightarrow> bool" where
  "valid_pc (AddWait m idx num) \<longleftrightarrow> num \<noteq> 0 \<and> unat idx + unat num < 2 ^ 32"
| "valid_pc (AddHold m idx num) \<longleftrightarrow> num \<noteq> 0 \<and> unat idx + unat num < 2 ^ 32"
| "valid_pc (MoveWait target released idx num) \<longleftrightarrow> num \<noteq> 0 \<and> unat idx + unat num < 2 ^ 32"
| "valid_pc (MoveHold target released idx num) \<longleftrightarrow> num \<noteq> 0 \<and> unat idx + unat num < 2 ^ 32"
| "valid_pc _ \<longleftrightarrow> True"

definition world_inv :: "nat set \<Rightarrow> region_world \<Rightarrow> bool" where
  "world_inv U w \<longleftrightarrow> \<not> failed w \<and> trees_ok (trees w) \<and> (\<forall>t. valid_pc (pcs w t)) \<and>
     (\<forall>m t. owners w m = Some t \<longleftrightarrow> holds (pcs w t) = Some m) \<and>
     parted (place (trees w) (held w) (pcs w)) U"

section \<open>Every step keeps the units parted\<close>

text \<open>A critical section entered in a good world succeeds, and moves at most one set of units.\<close>

lemma place_moves:
  assumes "parted (place s h ps) U"
  shows "X \<subseteq> dirty_units s \<Longrightarrow> carried (ps t) = {} \<Longrightarrow> carried pc = X \<Longrightarrow> dirty_units s' = dirty_units s - X \<Longrightarrow>
      releasedTree s' = releasedTree s \<Longrightarrow> parted (place s' h (ps(t := pc))) U"
    and "X \<subseteq> released_units s \<Longrightarrow> carried (ps t) = {} \<Longrightarrow> carried pc = X \<Longrightarrow> released_units s' = released_units s - X \<Longrightarrow>
      dirtyTree s' = dirtyTree s \<Longrightarrow> parted (place s' h (ps(t := pc))) U"
    and "carried pc = {} \<Longrightarrow> dirty_units s' = dirty_units s \<union> carried (ps t) \<Longrightarrow>
      releasedTree s' = releasedTree s \<Longrightarrow> parted (place s' h (ps(t := pc))) U"
    and "carried pc = {} \<Longrightarrow> released_units s' = released_units s \<union> carried (ps t) \<Longrightarrow>
      dirtyTree s' = dirtyTree s \<Longrightarrow> parted (place s' h (ps(t := pc))) U"
    and "carried pc = carried (ps t) \<Longrightarrow> dirtyTree s' = dirtyTree s \<Longrightarrow> releasedTree s' = releasedTree s \<Longrightarrow>
      parted (place s' h (ps(t := pc))) U"
    and "carried pc = {} \<Longrightarrow> h' = h \<union> carried (ps t) \<Longrightarrow> parted (place s h' (ps(t := pc))) U"
    and "X \<subseteq> h \<Longrightarrow> carried (ps t) = {} \<Longrightarrow> carried pc = X \<Longrightarrow> h' = h - X \<Longrightarrow> parted (place s h' (ps(t := pc))) U"
proof -
  have all: "Q = Q'" if "Q DirtyLoc = Q' DirtyLoc" "Q ReleasedLoc = Q' ReleasedLoc" "Q HeldLoc = Q' HeldLoc"
    "\<And>t. Q (ThreadLoc t) = Q' (ThreadLoc t)" for Q Q' :: "loc \<Rightarrow> nat set"
    by (rule ext) (metis that loc.exhaust)
  show "X \<subseteq> dirty_units s \<Longrightarrow> carried (ps t) = {} \<Longrightarrow> carried pc = X \<Longrightarrow> dirty_units s' = dirty_units s - X \<Longrightarrow>
      releasedTree s' = releasedTree s \<Longrightarrow> parted (place s' h (ps(t := pc))) U"
    by (rule parted_move [OF assms, of X DirtyLoc "ThreadLoc t"]) (simp, simp, rename_tac l, case_tac l, auto)
  show "X \<subseteq> released_units s \<Longrightarrow> carried (ps t) = {} \<Longrightarrow> carried pc = X \<Longrightarrow> released_units s' = released_units s - X \<Longrightarrow>
      dirtyTree s' = dirtyTree s \<Longrightarrow> parted (place s' h (ps(t := pc))) U"
    by (rule parted_move [OF assms, of X ReleasedLoc "ThreadLoc t"]) (simp, simp, rename_tac l, case_tac l, auto)
  show "carried pc = {} \<Longrightarrow> dirty_units s' = dirty_units s \<union> carried (ps t) \<Longrightarrow>
      releasedTree s' = releasedTree s \<Longrightarrow> parted (place s' h (ps(t := pc))) U"
    by (rule parted_move [OF assms, of "carried (ps t)" "ThreadLoc t" DirtyLoc]) (simp, simp, rename_tac l, case_tac l, auto)
  show "carried pc = {} \<Longrightarrow> released_units s' = released_units s \<union> carried (ps t) \<Longrightarrow>
      dirtyTree s' = dirtyTree s \<Longrightarrow> parted (place s' h (ps(t := pc))) U"
    by (rule parted_move [OF assms, of "carried (ps t)" "ThreadLoc t" ReleasedLoc]) (simp, simp, rename_tac l, case_tac l, auto)
  show "carried pc = carried (ps t) \<Longrightarrow> dirtyTree s' = dirtyTree s \<Longrightarrow> releasedTree s' = releasedTree s \<Longrightarrow>
      parted (place s' h (ps(t := pc))) U"
    by (rule parted_same [OF assms], rename_tac l, case_tac l) auto
  show "carried pc = {} \<Longrightarrow> h' = h \<union> carried (ps t) \<Longrightarrow> parted (place s h' (ps(t := pc))) U"
    by (rule parted_move [OF assms, of "carried (ps t)" "ThreadLoc t" HeldLoc]) (simp, simp, rename_tac l, case_tac l, auto)
  show "X \<subseteq> h \<Longrightarrow> carried (ps t) = {} \<Longrightarrow> carried pc = X \<Longrightarrow> h' = h - X \<Longrightarrow> parted (place s h' (ps(t := pc))) U"
    by (rule parted_move [OF assms, of X HeldLoc "ThreadLoc t"]) (simp, simp, rename_tac l, case_tac l, auto)
qed

lemma section_ok:
  assumes ok: "trees_ok s" and valid: "valid_pc (ps t)" and holds: "holds (ps t) = Some m"
    and parted: "parted (place s h ps) U"
  obtains pc s' where "section_step windows (ps t) s = Inr (pc, s')" and "trees_ok s'" and "valid_pc pc"
    and "holds pc = None" and "parted (place s' h (ps(t := pc))) U"
proof -
  note move = place_moves [OF parted]
  have d: "dirty_units s \<inter> carried (ps t) = {}" using parted_apart [OF parted, of DirtyLoc "ThreadLoc t"] by simp
  have r: "released_units s \<inter> carried (ps t) = {}" using parted_apart [OF parted, of ReleasedLoc "ThreadLoc t"] by simp
  show thesis
  proof (cases "ps t")
    case (TakeDirty q tr)
    obtain num uc e where q: "q = (num, uc, e)" by (cases q)
    show ?thesis
    proof (rule take_dirty_cases [OF ok, of num uc])
      assume "take_dirty num uc s = Inr (None, s)"
      then show ?thesis
        using TakeDirty q ok by (intro that [of "TakeNext q False tr" s]) (simp_all add: move(5))
    next
      fix idx s'
      assume "take_dirty num uc s = Inr (Some idx, s')" "trees_ok s'" "units_of idx (ucast num) \<subseteq> dirty_units s"
        "dirty_units s' = dirty_units s - units_of idx (ucast num)" "releasedTree s' = releasedTree s"
      then show ?thesis
        using TakeDirty q by (intro that [of "TakeDone q (Some idx)" s']) (simp_all add: move(1))
    qed
  next
    case (TakeReleased q td)
    obtain num uc e where q: "q = (num, uc, e)" by (cases q)
    show ?thesis
    proof (rule take_released_cases [OF ok, of windows num uc])
      assume "take_released windows num uc s = Inr (None, s)"
      then show ?thesis
        using TakeReleased q ok by (intro that [of "TakeHead q td False" s]) (simp_all add: move(5))
    next
      fix idx s'
      assume "take_released windows num uc s = Inr (Some idx, s')" "trees_ok s'" "units_of idx (ucast num) \<subseteq> released_units s"
        "released_units s' = released_units s - units_of idx (ucast num)" "dirtyTree s' = dirtyTree s"
      then show ?thesis
        using TakeReleased q by (intro that [of "Prehandle q idx" s']) (simp_all add: move(2))
    qed
  next
    case (AddHold m' idx num)
    show ?thesis
    proof (cases m')
      case DirtyMutex
      show ?thesis
      proof (rule add_dirty_fresh [OF ok, of num idx])
        fix s'
        assume "add_dirty idx num s = Inr s'" "trees_ok s'" "dirty_units s' = dirty_units s \<union> units_of idx num"
          "releasedTree s' = releasedTree s"
        then show ?thesis
          using AddHold DirtyMutex by (intro that [of Idle s']) (simp_all add: move(3))
      qed (use valid d AddHold in auto)
    next
      case ReleasedMutex
      show ?thesis
      proof (rule add_released_fresh [OF ok, of num idx])
        fix s'
        assume "add_released idx num s = Inr s'" "trees_ok s'" "released_units s' = released_units s \<union> units_of idx num"
          "dirtyTree s' = dirtyTree s"
        then show ?thesis
          using AddHold ReleasedMutex by (intro that [of Idle s']) (simp_all add: move(4))
      qed (use valid r AddHold in auto)
    qed
  next
    case (ReleaseHold target dn)
    show ?thesis
    proof (rule release_root_cases [OF ok])
      assume "release_root s = Inr (None, s)"
      then show ?thesis
        using ReleaseHold ok by (intro that [of Idle s]) (simp_all add: move(5))
    next
      fix idx num s'
      assume "release_root s = Inr (Some (idx, num), s')" "trees_ok s'" "num \<noteq> 0" "unat idx + unat num < 2 ^ 32"
        "units_of idx num \<subseteq> dirty_units s" "dirty_units s' = dirty_units s - units_of idx num"
        "releasedTree s' = releasedTree s"
      then show ?thesis
        using ReleaseHold by (intro that [of "MoveWait target dn idx num" s']) (simp_all add: move(1))
    qed
  next
    case (MoveHold target dn idx num)
    show ?thesis
    proof (rule add_released_fresh [OF ok, of num idx])
      fix s'
      assume "add_released idx num s = Inr s'" "trees_ok s'" "released_units s' = released_units s \<union> units_of idx num"
        "dirtyTree s' = dirtyTree s"
      then show ?thesis
        using MoveHold by (intro that [of "ReleaseHead target (dn + ucast num * UNIT_SIZE)" s']) (simp_all add: move(4))
    qed (use valid r MoveHold in auto)
  qed (use holds in auto)
qed

lemma acquire_pc: "acquire pc = Some (m, pc') \<Longrightarrow> holds pc = None \<and> holds pc' = Some m \<and> carried pc' = carried pc \<and> (valid_pc pc \<longrightarrow> valid_pc pc')"
  by (cases pc rule: acquire.cases) auto

lemma local_step_pc:
  "local_step pc s = Some (pc', s') \<Longrightarrow> holds pc = None \<and> holds pc' = None \<and> carried pc' = carried pc \<and> valid_pc pc' \<and>
    dirtyTree s' = dirtyTree s \<and> releasedTree s' = releasedTree s"
  by (cases "(pc, s)" rule: local_step.cases) (auto split: if_splits)

lemma goto_simps [simp]:
  "trees (goto t pc w) = trees w" "owners (goto t pc w) = owners w" "pcs (goto t pc w) = (pcs w)(t := pc)"
  "held (goto t pc w) = held w" "failed (goto t pc w) = failed w"
  by (simp_all add: goto_def)

lemma world_inv_step:
  assumes inv: "world_inv U w" and step: "region_step windows w t w'"
  shows "world_inv U w'"
proof -
  have ok: "trees_ok (trees w)" and valid: "\<And>t. valid_pc (pcs w t)" and nf: "\<not> failed w"
    and own: "\<And>m t. owners w m = Some t \<longleftrightarrow> holds (pcs w t) = Some m"
    and parted: "parted (place (trees w) (held w) (pcs w)) U"
    using inv by (simp_all add: world_inv_def)
  note move = place_moves [OF parted]
  from step show ?thesis
  proof cases
    case (call_take q)
    with ok valid nf own show ?thesis by (auto simp: world_inv_def intro: move(5))
  next
    case (return_take q res)
    have "parted (place (trees w) (held w \<union> region_units q res) ((pcs w)(t := Idle))) U"
      by (rule move(6)) (simp_all add: return_take)
    with return_take ok valid nf own show ?thesis by (auto simp: world_inv_def)
  next
    case (call_add num idx m)
    have "parted (place (trees w) (held w - units_of idx num) ((pcs w)(t := AddWait m idx num))) U"
      by (rule move(7)) (simp_all add: call_add)
    with call_add ok valid nf own show ?thesis by (auto simp: world_inv_def)
  next
    case (call_release target)
    with ok valid nf own show ?thesis by (auto simp: world_inv_def intro: move(5))
  next
    case (take_mutex m pc)
    note a = acquire_pc [OF take_mutex(2)]
    have "parted (place (trees w) (held w) ((pcs w)(t := pc))) U" by (rule move(5)) (simp_all add: a)
    moreover have "\<And>t'. holds (pcs w t') \<noteq> Some m" using own [of m] take_mutex(3) by simp
    ultimately show ?thesis using take_mutex a ok valid nf own by (auto simp: world_inv_def)
  next
    case (do_local pc s)
    note a = local_step_pc [OF do_local(2)]
    have "parted (place s (held w) ((pcs w)(t := pc))) U" by (rule move(5)) (simp_all add: a)
    moreover have "trees_ok s" using ok a by (simp add: trees_ok_def)
    ultimately show ?thesis using do_local a valid nf own by (auto simp: world_inv_def)
  next
    case (do_section m pc s)
    obtain pc' s' where "section_step windows (pcs w t) (trees w) = Inr (pc', s')" "trees_ok s'" "valid_pc pc'"
      "holds pc' = None" "parted (place s' (held w) ((pcs w)(t := pc'))) U"
      by (rule section_ok [OF ok valid do_section(2) parted])
    moreover have "\<And>t' m'. t' \<noteq> t \<Longrightarrow> owners w m' = Some t' \<Longrightarrow> m' \<noteq> m" using own do_section(2) by (metis option.inject)
    moreover have "\<And>m'. m' \<noteq> m \<Longrightarrow> owners w m' \<noteq> Some t" using own do_section(2) by auto
    ultimately show ?thesis using do_section valid nf own by (auto simp: world_inv_def)
  next
    case (do_fail m e)
    obtain pc' s' where "section_step windows (pcs w t) (trees w) = Inr (pc', s')"
      by (rule section_ok [OF ok valid do_fail(2) parted])
    with do_fail show ?thesis by simp
  qed
qed

interpretation threads: step_invariant "region_step windows" "\<lambda>_. True" "world_inv U"
  for windows U
  by unfold_locales (rule world_inv_step)

section \<open>Every run\<close>

text \<open>At the start no thread is in the manager, and the units lie in the two trees and with the mutators.\<close>

definition region_start :: "nat set \<Rightarrow> region_world \<Rightarrow> bool" where
  "region_start U w \<longleftrightarrow> trees_ok (trees w) \<and> \<not> failed w \<and> owners w = (\<lambda>_. None) \<and> pcs w = (\<lambda>_. Idle) \<and>
     dirty_units (trees w) \<inter> released_units (trees w) = {} \<and>
     (dirty_units (trees w) \<union> released_units (trees w)) \<inter> held w = {} \<and>
     dirty_units (trees w) \<union> released_units (trees w) \<union> held w = U"

lemma world_inv_start:
  assumes "region_start U w"
  shows "world_inv U w"
proof -
  have "place (trees w) (held w) (pcs w) l \<inter> place (trees w) (held w) (pcs w) k = {}" if "l \<noteq> k" for l k
    using assms that unfolding region_start_def by (cases l; cases k) auto
  moreover have "(\<Union>l. place (trees w) (held w) (pcs w) l) = U"
  proof
    show "(\<Union>l. place (trees w) (held w) (pcs w) l) \<subseteq> U"
    proof
      fix u assume "u \<in> (\<Union>l. place (trees w) (held w) (pcs w) l)"
      then obtain l where "u \<in> place (trees w) (held w) (pcs w) l" by blast
      then show "u \<in> U" using assms by (cases l) (auto simp: region_start_def)
    qed
    have "place (trees w) (held w) (pcs w) DirtyLoc \<union> place (trees w) (held w) (pcs w) ReleasedLoc \<union>
        place (trees w) (held w) (pcs w) HeldLoc = U"
      using assms by (simp add: region_start_def)
    then show "U \<subseteq> (\<Union>l. place (trees w) (held w) (pcs w) l)" by blast
  qed
  ultimately show ?thesis using assms by (simp add: world_inv_def region_start_def parted_def)
qed

lemma world_inv_run:
  "region_start U w0 \<Longrightarrow> runs (region_step windows) w0 ts w \<Longrightarrow> world_inv U w"
  using threads.inv_run world_inv_start by simp

text \<open>
  C2. However the threads interleave, no merge is ever fatal and no step aborts, and no unit is lost
  or handed out twice: at every moment each unit is in exactly one of the dirty tree, the released
  tree, the regions the mutators hold, and what one single thread carries between these.
\<close>

theorem region_units_conserved:
  assumes "region_start U w0" and "runs (region_step windows) w0 ts w"
  shows "\<not> failed w \<and> dirty_units (trees w) \<inter> released_units (trees w) = {} \<and>
    (dirty_units (trees w) \<union> released_units (trees w)) \<inter> held w = {} \<and>
    (\<forall>t. carried (pcs w t) \<inter> (dirty_units (trees w) \<union> released_units (trees w) \<union> held w) = {}) \<and>
    (\<forall>t t'. t = t' \<or> carried (pcs w t) \<inter> carried (pcs w t') = {}) \<and>
    dirty_units (trees w) \<union> released_units (trees w) \<union> held w \<union> (\<Union>t. carried (pcs w t)) = U"
proof -
  have inv: "world_inv U w" by (rule world_inv_run [OF assms])
  define P where "P = place (trees w) (held w) (pcs w)"
  have apart: "l \<noteq> k \<Longrightarrow> P l \<inter> P k = {}" for l k using inv by (simp add: world_inv_def parted_def P_def)
  have all: "(\<Union>l. P l) = U" using inv by (simp add: world_inv_def parted_def P_def)
  have P: "P DirtyLoc = dirty_units (trees w)" "P ReleasedLoc = released_units (trees w)" "P HeldLoc = held w"
    "\<And>t. P (ThreadLoc t) = carried (pcs w t)" by (simp_all add: P_def)
  have "(\<Union>l. P l) = P DirtyLoc \<union> P ReleasedLoc \<union> P HeldLoc \<union> (\<Union>t. P (ThreadLoc t))" (is "?A = ?B")
  proof
    show "?A \<subseteq> ?B"
    proof
      fix u assume "u \<in> ?A"
      then obtain l where "u \<in> P l" by blast
      then show "u \<in> ?B" by (cases l) blast+
    qed
  qed blast
  moreover have "t = t' \<or> P (ThreadLoc t) \<inter> P (ThreadLoc t') = {}" for t t'
    using apart [of "ThreadLoc t" "ThreadLoc t'"] by blast
  moreover have "P (ThreadLoc t) \<inter> (P DirtyLoc \<union> P ReleasedLoc \<union> P HeldLoc) = {}" for t
    using apart [of "ThreadLoc t" DirtyLoc] apart [of "ThreadLoc t" ReleasedLoc] apart [of "ThreadLoc t" HeldLoc] by blast
  moreover have "P DirtyLoc \<inter> P ReleasedLoc = {}" "(P DirtyLoc \<union> P ReleasedLoc) \<inter> P HeldLoc = {}"
    using apart [of DirtyLoc ReleasedLoc] apart [of DirtyLoc HeldLoc] apart [of ReleasedLoc HeldLoc] by auto
  ultimately show ?thesis using inv all unfolding P by (simp add: world_inv_def)
qed

lemma world_section:
  assumes "world_inv U w" and "holds (pcs w t) = Some m"
  obtains pc s where "section_step windows (pcs w t) (trees w) = Inr (pc, s)"
proof (rule section_ok [of "trees w" "pcs w" t m "held w" U windows])
  fix pc s
  assume "section_step windows (pcs w t) (trees w) = Inr (pc, s)"
  then show thesis by (rule that)
qed (use assms in \<open>simp_all add: world_inv_def\<close>)

text \<open>
  C34. There is no deadlock: a thread in the manager can take a step, or it waits for one mutex whose
  owner, another thread, can finish its critical section and give it back.
\<close>

theorem region_threads_progress:
  assumes "region_start U w0" and "runs (region_step windows) w0 ts w" and "pcs w t \<noteq> Idle"
  shows "(\<exists>w'. region_step windows w t w') \<or>
    (\<exists>m pc t' w'. acquire (pcs w t) = Some (m, pc) \<and> owners w m = Some t' \<and> t' \<noteq> t \<and>
      region_step windows w t' w' \<and> owners w' m = None \<and> \<not> failed w')"
proof (cases "acquire (pcs w t)")
  case None
  have inv: "world_inv U w" by (rule world_inv_run [OF assms(1,2)])
  show ?thesis
  proof (cases "holds (pcs w t)")
    case (Some m)
    obtain pc s where "section_step windows (pcs w t) (trees w) = Inr (pc, s)"
      by (rule world_section [OF inv Some])
    with Some show ?thesis by (blast intro: do_section)
  next
    case none: None
    show ?thesis
    proof (cases "pcs w t" rule: region_pc.exhaust)
      case (TakeDone q res)
      then show ?thesis by (blast intro: return_take)
    next
      case (Prehandle q idx)
      obtain num uc e where "q = (num, uc, e)" by (cases q)
      then have "\<exists>pc s. local_step (pcs w t) (trees w) = Some (pc, s)" using Prehandle by simp
      then show ?thesis by (blast intro: do_local)
    qed (use none None assms(3) in \<open>auto intro!: do_local exI\<close>)
  qed
next
  case (Some a)
  have inv: "world_inv U w" by (rule world_inv_run [OF assms(1,2)])
  obtain m pc where a: "acquire (pcs w t) = Some (m, pc)" using Some by (cases a) auto
  show ?thesis
  proof (cases "owners w m")
    case None
    with a show ?thesis by (blast intro: take_mutex)
  next
    case (Some t')
    then have h: "holds (pcs w t') = Some m" using inv by (simp add: world_inv_def)
    then have "t' \<noteq> t" using acquire_pc [OF a] by auto
    obtain pc' s where "section_step windows (pcs w t') (trees w) = Inr (pc', s)"
      by (rule world_section [OF inv h])
    from do_section [OF h this] \<open>t' \<noteq> t\<close> Some a inv show ?thesis
      by (intro disjI2 exI conjI) (auto simp: world_inv_def)
  qed
qed

section \<open>A start\<close>

definition region_demo :: region_world where
  "region_demo = \<lparr>trees = \<lparr>releasedTree = \<lparr>totalCount = 0, root = Null, region_calls = []\<rparr>,
      dirtyTree = \<lparr>totalCount = 4, root = Node Null 8 4 Null, region_calls = []\<rparr>, unit_calls = []\<rparr>,
    owners = (\<lambda>_. None), pcs = (\<lambda>_. Idle), held = {20 ..< 24}, failed = False\<rparr>"

lemma region_demo_start: "region_start ({8 ..< 12} \<union> {20 ..< 24}) region_demo"
  by (auto simp: region_start_def region_demo_def trees_ok_def tree_inv_def spans_ok_def span_ok_def
      free_units_def cover_def span_units_def)

theorem region_units_conserved_witness:
  "\<exists>w. runs (region_step True) region_demo [3, 5] w \<and> \<not> failed w \<and> carried (pcs w 3) = {20 ..< 22} \<and>
    carried (pcs w 3) \<inter> held w = {}"
proof -
  let ?w1 = "goto 3 (AddWait DirtyMutex 20 2) (region_demo\<lparr>held := held region_demo - units_of 20 2\<rparr>)"
  let ?w2 = "goto 5 (TakeHead (2, 1, True) True True) ?w1"
  have "region_step True region_demo 3 ?w1"
    by (rule call_add) (auto simp: region_demo_def units_of_def)
  moreover have "region_step True ?w1 5 ?w2" by (rule call_take) (simp add: region_demo_def)
  ultimately have run: "runs (region_step True) region_demo [3, 5] ?w2" by (meson run_Cons run_refl)
  have "\<not> failed ?w2 \<and> carried (pcs ?w2 3) \<inter> held ?w2 = {}"
    using region_units_conserved [OF region_demo_start run] by blast
  with run show ?thesis by (intro exI [of _ ?w2]) (simp add: units_of_def)
qed

theorem region_threads_progress_witness:
  "(\<exists>w. region_step False (goto 3 (ReleaseHead 0 0) region_demo) 3 w)"
proof -
  let ?w = "goto 3 (ReleaseHead 0 0) region_demo"
  have "region_step False region_demo 3 ?w" by (rule call_release) (simp add: region_demo_def)
  then have run: "runs (region_step False) region_demo [3] ?w" by (meson run_Cons run_refl)
  from region_threads_progress [OF region_demo_start run, of 3] show ?thesis by simp
qed

end
