(* ===== verification/HeapRegions.thy ===== *)
theory HeapRegions
  imports RegionLists RegionThreads
begin

text \<open>
  The manager of free regions together with the region table: \<open>TakeRegion\<close>, \<open>AddGarbageUnits\<close> for the
  units of a region as the table has them, and \<open>ReleaseGarbageRegions\<close>, in any order, one at a time, with
  every call into \<^verbatim>\<open>RegionInfo\<close> that the two trees and the manager make carried out on one table:
  \<open>InitFreeRegion\<close>, \<open>ReleaseUnits\<close>, \<open>ClearUnits\<close>, \<open>InitRegion\<close> and, on Windows, the commit.
\<close>

section \<open>The calls carried out\<close>

text \<open>
  \<open>ClearUnits\<close> and \<open>ReleaseUnits\<close> work on the memory of the units, from the address of the first one, which is
  fatal for an index past the heap; the result is the memory meant, and the table stays as it is. On
  Windows \<open>ReleaseUnits\<close> is fatal when \<open>VirtualFree\<close> fails; \<open>decommit\<close> is its answer there, and true in the
  other builds, which do not look at the answer of the system.
\<close>

definition RegionInfo_ClearUnits :: "u64 \<Rightarrow> u64 \<Rightarrow> region_table \<Rightarrow> (addr \<times> u64) res" where
  "RegionInfo_ClearUnits idx cnt T = and_then (GetUnitAddress T idx) (\<lambda>a. Inr (a, cnt * UNIT_SIZE))"

definition RegionInfo_ReleaseUnits ::
  "(addr \<Rightarrow> u64 \<Rightarrow> bool) \<Rightarrow> u64 \<Rightarrow> u64 \<Rightarrow> region_table \<Rightarrow> (addr \<times> u64) res" where
  "RegionInfo_ReleaseUnits decommit idx cnt T = and_then (GetUnitAddress T idx) (\<lambda>a.
     if decommit a (cnt * UNIT_SIZE) then Inr (a, cnt * UNIT_SIZE) else Inl Fatal)"

text \<open>\<open>RefreshFreeRegionInfo\<close> and \<open>ReleaseMemory\<close> of the nodes of a tree.\<close>

fun exec_region_calls ::
  "(addr \<Rightarrow> u64 \<Rightarrow> bool) \<Rightarrow> region_call list \<Rightarrow> region_table \<Rightarrow> region_table res" where
  "exec_region_calls decommit [] T = Inr T"
| "exec_region_calls decommit (InitFreeRegion i n # ks) T =
     and_then (InitFreeRegion_at (ucast i) (ucast n) T) (exec_region_calls decommit ks)"
| "exec_region_calls decommit (ReleaseUnits i n # ks) T =
     and_then (RegionInfo_ReleaseUnits decommit (ucast i) (ucast n) T) (\<lambda>_. exec_region_calls decommit ks T)"

text \<open>The calls of the manager; the result has the regions made, in order. A failed commit is logged only.\<close>

fun exec_unit_calls :: "unit_call list \<Rightarrow> region_table \<Rightarrow> (addr list \<times> region_table) res" where
  "exec_unit_calls [] T = Inr ([], T)"
| "exec_unit_calls (InitRegion idx num uclass # ks) T = and_then (InitRegion_at idx num uclass T) (\<lambda>(p, T).
     and_then (exec_unit_calls ks T) (\<lambda>(ps, T). Inr (p # ps, T)))"
| "exec_unit_calls (ClearUnits idx num # ks) T =
     and_then (RegionInfo_ClearUnits idx num T) (\<lambda>_. exec_unit_calls ks T)"
| "exec_unit_calls (CommitMemory idx num # ks) T =
     and_then (GetUnitAddress T idx) (\<lambda>_. exec_unit_calls ks T)"

text \<open>The heap: the free units, the table, and the regions in use.\<close>

record region_heap =
  free_mgr :: free_regions
  unit_table :: region_table
  in_use :: "addr list"

text \<open>
  What a section of the manager that leaves it in \<open>s\<close> calls, carried out. A section works on one tree, whose
  calls come before those of the manager; the regions made are in use from then on.
\<close>

definition new_region_calls :: "cartesian_tree \<Rightarrow> cartesian_tree \<Rightarrow> region_call list" where
  "new_region_calls t t' = drop (length (region_calls t)) (region_calls t')"

definition new_unit_calls :: "free_regions \<Rightarrow> free_regions \<Rightarrow> unit_call list" where
  "new_unit_calls s s' = drop (length (unit_calls s)) (unit_calls s')"

definition carry_out ::
  "(addr \<Rightarrow> u64 \<Rightarrow> bool) \<Rightarrow> free_regions \<Rightarrow> region_heap \<Rightarrow> (addr list \<times> region_heap) res" where
  "carry_out decommit s H =
     and_then (exec_region_calls decommit (new_region_calls (dirtyTree (free_mgr H)) (dirtyTree s)) (unit_table H)) (\<lambda>T.
     and_then (exec_region_calls decommit (new_region_calls (releasedTree (free_mgr H)) (releasedTree s)) T) (\<lambda>T.
     and_then (exec_unit_calls (new_unit_calls (free_mgr H) s) T) (\<lambda>(ps, T).
     Inr (ps, H\<lparr>free_mgr := s, unit_table := T, in_use := ps @ in_use H\<rparr>))))"

text \<open>The only section of \<open>TakeRegion\<close> that calls anything is the last one, which finds the units.\<close>

definition TakeRegion_heap :: "(addr \<Rightarrow> u64 \<Rightarrow> bool) \<Rightarrow> bool \<Rightarrow> u64 \<Rightarrow> u8 \<Rightarrow> bool \<Rightarrow> (bool \<times> bool) list
    \<Rightarrow> region_heap \<Rightarrow> (addr \<times> region_heap) res option" where
  "TakeRegion_heap decommit windows num uclass e locks H =
    (case TakeRegion windows num uclass e locks (free_mgr H) of
       None \<Rightarrow> None
     | Some (Inl x) \<Rightarrow> Some (Inl x)
     | Some (Inr (res, s)) \<Rightarrow> Some (and_then (carry_out decommit s H) (\<lambda>(ps, H). Inr (hd (ps @ [0]), H))))"

text \<open>
  A client gives back the region \<open>p\<close>: it passes the index and the number of units that the table has for
  the region to \<open>AddGarbageUnits\<close>, and has the region no longer.
\<close>

definition AddGarbage_heap :: "(addr \<Rightarrow> u64 \<Rightarrow> bool) \<Rightarrow> addr \<Rightarrow> region_heap \<Rightarrow> region_heap res" where
  "AddGarbage_heap decommit p H = and_then (GetUnitIdx (unit_table H) p) (\<lambda>idx.
     and_then (GetUnitCount p (unit_table H)) (\<lambda>num.
     and_then (add_dirty (ucast idx) (ucast num) (free_mgr H)) (\<lambda>s.
     and_then (carry_out decommit s H) (\<lambda>(ps, H).
       Inr (H\<lparr>in_use := remove1 p (in_use H)\<rparr>)))))"

text \<open>\<open>ReleaseGarbageRegions\<close>, section by section.\<close>

function release_heap_loop ::
  "(addr \<Rightarrow> u64 \<Rightarrow> bool) \<Rightarrow> u64 \<Rightarrow> u64 \<Rightarrow> u64 \<Rightarrow> region_heap \<Rightarrow> (u64 \<times> region_heap) res" where
  "release_heap_loop decommit target releasedBytes dirtyBytes H =
     (if dirtyBytes > target then
        (case release_root (free_mgr H) of
           Inl e \<Rightarrow> Inl e
         | Inr (None, s) \<Rightarrow> Inr (releasedBytes, H\<lparr>free_mgr := s\<rparr>)
         | Inr (Some (idx, num), s) \<Rightarrow>
             (case carry_out decommit s H of
                Inl e \<Rightarrow> Inl e
              | Inr (ps, H1) \<Rightarrow>
                  (case add_released idx num (free_mgr H1) of
                     Inl e \<Rightarrow> Inl e
                   | Inr s2 \<Rightarrow>
                       (case carry_out decommit s2 H1 of
                          Inl e \<Rightarrow> Inl e
                        | Inr (qs, H2) \<Rightarrow>
                            release_heap_loop decommit target (releasedBytes + ucast num * UNIT_SIZE)
                              (dirty_bytes (free_mgr H2)) H2))))
      else Inr (releasedBytes, H))"
  by pat_completeness auto
termination
proof (relation "measure (\<lambda>(_, _, _, _, H). size (root (dirtyTree (free_mgr H))))", goal_cases)
  case (2 decommit target released dirty H x y s z idx num w ps H1 s2 v qs H2)
  have mgr: "free_mgr H' = s'" if "carry_out d s' K = Inr (l, H')" for d s' K l H'
    using that by (auto simp: carry_out_def and_then_Inr_iff)
  have "size (root (dirtyTree s)) < size (root (dirtyTree (free_mgr H)))"
    using 2 release_root_smaller by metis
  moreover have "dirtyTree s2 = dirtyTree (free_mgr H1)"
    using 2 by (auto simp: add_released_def Let_def split: prod.splits if_splits)
  moreover have "free_mgr H1 = s" "free_mgr H2 = s2" using 2 mgr by blast+
  ultimately show ?case by simp
qed simp

declare release_heap_loop.simps [simp del]

definition ReleaseGarbage_heap :: "(addr \<Rightarrow> u64 \<Rightarrow> bool) \<Rightarrow> u64 \<Rightarrow> region_heap \<Rightarrow> (u64 \<times> region_heap) res" where
  "ReleaseGarbage_heap decommit target H =
     (if dirty_bytes (free_mgr H) \<le> target then Inr (0, H)
      else release_heap_loop decommit target 0 (dirty_bytes (free_mgr H)) H)"

text \<open>A client gives back a region by its place among those in use.\<close>

datatype heap_call = Take bool u64 u8 bool | GiveBack nat | Release u64

fun heap_run :: "(addr \<Rightarrow> u64 \<Rightarrow> bool) \<Rightarrow> heap_call list \<Rightarrow> region_heap \<Rightarrow> region_heap res option" where
  "heap_run decommit [] H = Some (Inr H)"
| "heap_run decommit (Take windows num uclass e # cs) H =
     (case TakeRegion_heap decommit windows num uclass e [(True, True)] H of
        None \<Rightarrow> None | Some (Inl x) \<Rightarrow> Some (Inl x) | Some (Inr (p, H)) \<Rightarrow> heap_run decommit cs H)"
| "heap_run decommit (GiveBack i # cs) H = (if i < length (in_use H)
     then case AddGarbage_heap decommit (in_use H ! i) H of Inl x \<Rightarrow> Some (Inl x) | Inr H \<Rightarrow> heap_run decommit cs H
     else heap_run decommit cs H)"
| "heap_run decommit (Release target # cs) H = (case ReleaseGarbage_heap decommit target H of
     Inl x \<Rightarrow> Some (Inl x) | Inr (bytes, H) \<Rightarrow> heap_run decommit cs H)"

fun heap_call_ok :: "heap_call \<Rightarrow> bool" where
  "heap_call_ok (Take windows num uclass e) \<longleftrightarrow> 0 < unat num \<and> unat num < 2 ^ 32 \<and>
     uclass \<in> {FREE_UNITS, SMALL_SIZED_UNITS, LARGE_SIZED_UNITS}"
| "heap_call_ok _ \<longleftrightarrow> True"

section \<open>What the calls do to the table\<close>

text \<open>\<open>T'\<close> is \<open>T\<close> with other records for some of the units \<open>S\<close>.\<close>

definition table_kept :: "region_table \<Rightarrow> nat set \<Rightarrow> region_table \<Rightarrow> bool" where
  "table_kept T S T' \<longleftrightarrow> heapStartAddress T' = heapStartAddress T \<and> totalUnitCount T' = totalUnitCount T \<and> table_ok T' \<and>
    (\<forall>k<unat (totalUnitCount T). k \<notin> S \<longrightarrow> units T' (unit_at T k) = units T (unit_at T k))"

lemma table_keptD:
  assumes "table_kept T S T'"
  shows "heapStartAddress T' = heapStartAddress T" "totalUnitCount T' = totalUnitCount T" "table_ok T'"
    "\<And>k. k < unat (totalUnitCount T) \<Longrightarrow> k \<notin> S \<Longrightarrow> units T' (unit_at T k) = units T (unit_at T k)"
    "unit_at T' = unit_at T"
  using assms unit_at_same [of T' T] unfolding table_kept_def by blast+

lemma table_kept_refl: "table_ok T \<Longrightarrow> table_kept T S T"
  by (simp add: table_kept_def)

lemma table_kept_trans: "table_kept T S T' \<Longrightarrow> table_kept T' S' T'' \<Longrightarrow> table_kept T (S \<union> S') T''"
  using table_keptD(5) [of T S T'] by (simp add: table_kept_def)

lemma table_kept_mono: "table_kept T S T' \<Longrightarrow> S \<subseteq> S' \<Longrightarrow> table_kept T S' T'"
  by (auto simp: table_kept_def)

text \<open>The record of the first of \<open>n\<close> units that are free.\<close>

definition free_record :: "region_table \<Rightarrow> nat \<Rightarrow> nat \<Rightarrow> bool" where
  "free_record T u n \<longleftrightarrow> GetUnitCount (unit_at T u) T = Inr (of_nat n) \<and> GetUnitRole (unit_at T u) T = Inr FREE_UNITS"

lemma free_record_same:
  assumes "heapStartAddress T' = heapStartAddress T" and "totalUnitCount T' = totalUnitCount T"
    and "units T' (unit_at T u) = units T (unit_at T u)"
  shows "free_record T' u n = free_record T u n"
proof -
  have "GetRegionStart p T' = GetRegionStart p T" for p
    using assms(1,2) by (simp add: GetRegionStart_def Let_def)
  then show ?thesis
    using assms(3) unit_at_same [OF assms(1)]
    by (simp add: free_record_def GetUnitCount_def GetRegionSize_def GetUnitRole_def read_unit_def)
qed

lemma free_record_kept:
  assumes "table_kept T S T'" and "u < unat (totalUnitCount T)" and "u \<notin> S"
  shows "free_record T' u n = free_record T u n"
  using table_keptD [OF assms(1)] assms(2,3) by (intro free_record_same) simp_all

lemma ucast_index: "(ucast (i :: u32) :: u64) = of_nat (unat i)"
  by simp

lemma InitFreeRegion_writes:
  assumes ok: "table_ok T" and n: "0 < unat n" "unat i + unat n \<le> unat (totalUnitCount T)"
  shows "\<exists>T'. InitFreeRegion_at (ucast (i :: u32)) (ucast (n :: u32)) T = Inr T' \<and> table_kept T {unat i} T' \<and>
    free_record T' (unat i) (unat n)"
proof -
  let ?i = "unat i" and ?p = "unit_at T (unat i)" and ?start = "heapStartAddress T + of_nat (unat i) * UNIT_SIZE"
  have u: "unit_ok T ?i" using ok n by (simp add: unit_ok_def)
  from unit_mapped [OF u] obtain m0 where m0: "units T ?p = Some m0" by auto
  from InitRegionInfo_unit [OF u m0, of "ucast n" FREE_UNITS] obtain m v where
    run: "InitRegionInfo ?p (ucast n) FREE_UNITS T = Inr (with_unit ?p m T)"
    and m: "regionEnd m = ?start + ucast n * UNIT_SIZE"
      "unitRoleBitField m = SetAtomicValueU8 0 BIT_LENGTH FREE_UNITS v" by force
  let ?T = "with_unit ?p m T"
  have "InitFreeRegion_at (ucast i) (ucast n) T = Inr ?T"
    using GetUnitInfo_unit [OF u] run by (simp add: InitFreeRegion_at_def)
  moreover have "table_kept T {?i} ?T"
    using ok unit_at_inj [OF _ u] by (auto simp: table_kept_def unit_ok_def)
  moreover have "free_record ?T ?i (unat n)"
  proof -
    have "unat ?start = unat (heapStartAddress T) + 4096 * ?i"
      using unat_unit_address [OF u, of 0] by (simp add: UNIT_SIZE_def mult.commute)
    then have "unat ?start + 4096 * unat (ucast n :: u64) < 2 ^ 64"
      using ok n(2) by (simp add: table_ok_def)
    moreover have "1 \<le> (ucast n :: u64)" using n(1) by (simp add: word_le_nat_alt)
    ultimately have sz: "?start < ?start + ucast n * UNIT_SIZE" "ucast n * UNIT_SIZE div UNIT_SIZE = (ucast n :: u64)"
      by (rule region_size_units)+
    have "GetRegionStart ?p ?T = Inr ?start" using GetRegionStart_unit [OF u] by simp
    then have "GetUnitCount ?p ?T = Inr (ucast n)"
      using m(1) sz by (simp add: GetUnitCount_def GetRegionSize_def read_unit_def not_le)
    moreover have "GetUnitRole ?p ?T = Inr FREE_UNITS"
      using m(2) by (simp add: GetUnitRole_def read_unit_def role_of_set FREE_UNITS_def)
    ultimately show ?thesis by (simp add: free_record_def)
  qed
  ultimately show ?thesis by blast
qed

lemma exec_region_calls_on:
  assumes "table_ok T" and "\<forall>k\<in>set ks. call_on S k" and "S \<subseteq> {..<unat (totalUnitCount T)}"
  shows "\<exists>T'. exec_region_calls decommit ks T = Inr T' \<and> table_kept T S T' \<and>
    (\<forall>u<unat (totalUnitCount T). case free_region_info ks u of
       None \<Rightarrow> units T' (unit_at T u) = units T (unit_at T u) | Some n \<Rightarrow> free_record T' u n)"
  using assms
proof (induction ks arbitrary: T)
  case Nil
  then show ?case by (simp add: table_kept_refl)
next
  case (Cons k ks)
  then obtain i n where k: "k = InitFreeRegion i n" "0 < unat n" "{unat i..<unat i + unat n} \<subseteq> S"
    by (cases k) auto
  have "unat i + unat n - 1 \<in> {unat i..<unat i + unat n}" using k(2) by simp
  with k(3) Cons.prems(3) have "unat i + unat n - 1 < unat (totalUnitCount T)" by blast
  then have "unat i + unat n \<le> unat (totalUnitCount T)" by simp
  from InitFreeRegion_writes [OF Cons.prems(1) k(2) this] obtain T1 where
    T1: "InitFreeRegion_at (ucast i) (ucast n) T = Inr T1" "table_kept T {unat i} T1" "free_record T1 (unat i) (unat n)"
    by blast
  note kept = table_keptD [OF T1(2)]
  have "\<forall>k\<in>set ks. call_on S k" "S \<subseteq> {..<unat (totalUnitCount T1)}" using Cons.prems(2,3) kept(2) by simp_all
  from Cons.IH [OF kept(3) this, unfolded kept(2,5)] obtain T' where T': "exec_region_calls decommit ks T1 = Inr T'"
    "table_kept T1 S T'" and info: "\<forall>u<unat (totalUnitCount T). case free_region_info ks u of
       None \<Rightarrow> units T' (unit_at T u) = units T1 (unit_at T u) | Some n \<Rightarrow> free_record T' u n"
    by blast
  have "{unat i} \<subseteq> S" using k(2,3) by auto
  then have all: "table_kept T S T'" using table_kept_trans [OF T1(2) T'(2)] by (simp add: insert_absorb)
  have "case free_region_info (k # ks) u of
      None \<Rightarrow> units T' (unit_at T u) = units T (unit_at T u) | Some n \<Rightarrow> free_record T' u n"
    if u: "u < unat (totalUnitCount T)" for u
  proof -
    have i: "free_region_info (k # ks) = [unat i \<mapsto> unat n] ++ free_region_info ks"
      using free_region_info_append [of "[k]" ks] free_region_info_snoc [of "[]" k] k(1) by simp
    have same: "free_record T' u m = free_record T1 u m" if "units T' (unit_at T u) = units T1 (unit_at T u)" for m
      using that table_keptD(1,2) [OF T'(2)] kept(5) by (intro free_record_same) simp_all
    show ?thesis
      using info [rule_format, OF u] same T1(3) kept(4) [OF u]
      by (auto simp: i map_add_def split: option.splits)
  qed
  with all T1(1) T'(1) k(1) show ?case by auto
qed

text \<open>An operation of a tree that refreshes the table, with its calls carried out.\<close>

definition tree_recorded :: "region_table \<Rightarrow> cartesian_tree \<Rightarrow> bool" where
  "tree_recorded T t \<longleftrightarrow> (\<forall>x\<in>set (spans (root t)). free_record T (fst x) (snd x))"

lemma span_start: "tree_inv t \<Longrightarrow> x \<in> set (spans (root t)) \<Longrightarrow> fst x \<in> free_units t"
  by (force simp: tree_inv_def spans_ok_def span_ok_def free_units_def cover_def span_units_def)

lemma tree_recorded_kept:
  assumes "tree_recorded T t" and "tree_inv t" and "table_kept T S T'" and "free_units t \<subseteq> {..<unat (totalUnitCount T)} - S"
  shows "tree_recorded T' t"
  using assms span_start [OF assms(2)] free_record_kept [OF assms(3)] unfolding tree_recorded_def by blast

lemma exec_told:
  assumes "told t t'" and "tree_inv t'" and "table_ok T" and "free_units t' \<subseteq> {..<unat (totalUnitCount T)}"
  shows "\<exists>T'. exec_region_calls decommit (new_region_calls t t') T = Inr T' \<and> table_kept T (free_units t') T' \<and>
    (tree_recorded T t \<longrightarrow> tree_recorded T' t')"
proof -
  from assms(1) obtain ks where ks: "region_calls t' = region_calls t @ ks" "\<forall>k\<in>set ks. call_on (free_units t') k"
    and runs: "\<forall>x\<in>set (spans (root t')). case free_region_info ks (fst x) of
        None \<Rightarrow> x \<in> set (spans (root t)) | Some m \<Rightarrow> m = snd x" by (auto simp: told_def)
  from exec_region_calls_on [OF assms(3) ks(2) assms(4), of decommit] obtain T' where
    T': "exec_region_calls decommit ks T = Inr T'" "table_kept T (free_units t') T'" and
    info: "\<forall>u<unat (totalUnitCount T). case free_region_info ks u of
       None \<Rightarrow> units T' (unit_at T u) = units T (unit_at T u) | Some n \<Rightarrow> free_record T' u n" by blast
  have "free_record T' (fst x) (snd x)" if rec: "tree_recorded T t" and x: "x \<in> set (spans (root t'))" for x
  proof (cases "free_region_info ks (fst x)")
    case None
    have u: "fst x < unat (totalUnitCount T)" using span_start [OF assms(2) x] assms(4) by blast
    from None x runs have "free_record T (fst x) (snd x)" using rec by (auto simp: tree_recorded_def)
    moreover have "units T' (unit_at T (fst x)) = units T (unit_at T (fst x))" using info [rule_format, OF u] None by simp
    ultimately show ?thesis using free_record_same [OF table_keptD(1,2) [OF T'(2)]] by simp
  next
    case (Some m)
    have "fst x < unat (totalUnitCount T)" using span_start [OF assms(2) x] assms(4) by blast
    with info Some runs x show ?thesis by (metis option.simps(5))
  qed
  with T' ks(1) show ?thesis by (auto simp: new_region_calls_def tree_recorded_def)
qed

section \<open>The units of the heap\<close>

definition used_units :: "region_heap \<Rightarrow> nat set" where
  "used_units H = (\<Union>p\<in>set (in_use H). region_span (unit_table H) p)"

definition spare_units :: "region_heap \<Rightarrow> nat set" where
  "spare_units H = dirty_units (free_mgr H) \<union> released_units (free_mgr H)"

definition heap_inv :: "region_heap \<Rightarrow> bool" where
  "heap_inv H \<longleftrightarrow> table_ok (unit_table H) \<and> trees_ok (free_mgr H) \<and>
    dirty_units (free_mgr H) \<inter> released_units (free_mgr H) = {} \<and> distinct (in_use H) \<and>
    regions_apart (unit_table H) (set (in_use H)) \<and> (\<forall>p\<in>set (in_use H). region_span (unit_table H) p \<noteq> {}) \<and>
    spare_units H \<subseteq> {..<unat (totalUnitCount (unit_table H))} \<and> used_units H \<inter> spare_units H = {}"

lemma heap_invD:
  assumes "heap_inv H"
  shows "table_ok (unit_table H)" "trees_ok (free_mgr H)" "dirty_units (free_mgr H) \<inter> released_units (free_mgr H) = {}"
    "distinct (in_use H)" "regions_apart (unit_table H) (set (in_use H))"
    "\<And>p. p \<in> set (in_use H) \<Longrightarrow> region_span (unit_table H) p \<noteq> {}"
    "spare_units H \<subseteq> {..<unat (totalUnitCount (unit_table H))}" "used_units H \<inter> spare_units H = {}"
  using assms by (simp_all add: heap_inv_def)

text \<open>A region in use: its first unit, its units, and what giving it back passes on.\<close>

lemma in_use_region:
  assumes H: "heap_inv H" and p: "p \<in> set (in_use H)"
  obtains i n where "unit_ok (unit_table H) i" and "p = unit_at (unit_table H) i" and "0 < n"
    and "i + n \<le> unat (totalUnitCount (unit_table H))" and "region_span (unit_table H) p = {i..<i + n}"
    and "GetUnitIdx (unit_table H) p = Inr (of_nat i)" and "GetUnitCount p (unit_table H) = Inr (of_nat n)"
proof -
  let ?T = "unit_table H"
  have r: "is_region ?T p" and sub: "region_span ?T p \<subseteq> {..<unat (totalUnitCount ?T)}"
    using heap_invD(5) [OF H] p by (auto simp: regions_apart_def)
  from is_region_unit [OF r] obtain i where i: "unit_ok ?T i" "p = unit_at ?T i" by blast
  from GetUnitCount_units [OF r] obtain c where c: "GetUnitCount p ?T = Inr c" "unat c = units_in ?T p" by blast
  have span: "region_span ?T p = {i..<i + units_in ?T p}" using region_span_unit [OF i(1)] i(2) by simp
  have n: "0 < units_in ?T p" using heap_invD(6) [OF H p] span by (cases "units_in ?T p") simp_all
  have "i + units_in ?T p - 1 \<in> region_span ?T p" using span n by simp
  with sub have "i + units_in ?T p \<le> unat (totalUnitCount ?T)" by auto
  moreover have "GetUnitCount p ?T = Inr (of_nat (units_in ?T p))" unfolding c(2) [symmetric] using c(1) by simp
  ultimately show thesis using that i n span GetUnitIdx_unit [OF i(1)] by simp
qed

lemma spare_not_in_use:
  assumes H: "heap_inv H" and k: "k \<in> spare_units H"
  shows "unit_at (unit_table H) k \<notin> set (in_use H)"
proof
  assume p: "unit_at (unit_table H) k \<in> set (in_use H)"
  from in_use_region [OF H p] obtain i n where i: "unit_ok (unit_table H) i" "unit_at (unit_table H) k = unit_at (unit_table H) i"
    "0 < n" "region_span (unit_table H) (unit_at (unit_table H) k) = {i..<i + n}" by metis
  have "unit_ok (unit_table H) k" using heap_invD(1,7) [OF H] k by (auto simp: unit_ok_def)
  with i have "k = i" using unit_at_inj by blast
  with i(3,4) p have "k \<in> used_units H" by (auto simp: used_units_def)
  with k heap_invD(8) [OF H] show False by blast
qed

section \<open>The operations keep the heap\<close>

definition same_units :: "region_heap \<Rightarrow> region_heap \<Rightarrow> bool" where
  "same_units H H' \<longleftrightarrow> used_units H' \<union> spare_units H' = used_units H \<union> spare_units H \<and>
    totalUnitCount (unit_table H') = totalUnitCount (unit_table H)"

lemma same_units_trans: "same_units H H' \<Longrightarrow> same_units H' H'' \<Longrightarrow> same_units H H''"
  by (simp add: same_units_def)

text \<open>Other records for units of no region in use change nothing about the regions.\<close>

lemma heap_inv_table:
  assumes H: "heap_inv H" and T: "table_kept (unit_table H) S T" and S: "\<forall>k\<in>S. unit_at (unit_table H) k \<notin> set (in_use H)"
  shows "heap_inv (H\<lparr>unit_table := T\<rparr>)" and "same_units H (H\<lparr>unit_table := T\<rparr>)"
    and "\<forall>q\<in>set (in_use H). region_span T q = region_span (unit_table H) q"
proof -
  note inv = heap_invD [OF H] and t = table_keptD [OF T]
  have kept: "is_region T q \<and> region_span T q = region_span (unit_table H) q" if q: "q \<in> set (in_use H)" for q
  proof -
    have r: "is_region (unit_table H) q" using inv(5) q by (simp add: regions_apart_def)
    then obtain k where k: "unit_ok (unit_table H) k" "q = unit_at (unit_table H) k" using is_region_unit by blast
    with S q have "k \<notin> S" by blast
    with t(4) k have "units T q = units (unit_table H) q" by (simp add: unit_ok_def)
    from kept_region [OF t(1-3) this r] show ?thesis by simp
  qed
  then show span: "\<forall>q\<in>set (in_use H). region_span T q = region_span (unit_table H) q" by blast
  then have used: "used_units (H\<lparr>unit_table := T\<rparr>) = used_units H" by (simp add: used_units_def)
  have spare: "spare_units (H\<lparr>unit_table := T\<rparr>) = spare_units H" by (simp add: spare_units_def)
  have "regions_apart T (set (in_use H))" using inv(5) kept t(2) unfolding regions_apart_def by metis
  then show "heap_inv (H\<lparr>unit_table := T\<rparr>)"
    unfolding heap_inv_def used spare using inv t(2,3) span by simp
  show "same_units H (H\<lparr>unit_table := T\<rparr>)" unfolding same_units_def used spare using t(2) by simp
qed

lemma heap_inv_spare_table:
  assumes "heap_inv H" and "table_kept (unit_table H) S T" and "S \<subseteq> spare_units H"
  shows "heap_inv (H\<lparr>unit_table := T\<rparr>)" and "same_units H (H\<lparr>unit_table := T\<rparr>)"
    and "\<forall>q\<in>set (in_use H). region_span T q = region_span (unit_table H) q"
proof -
  have "\<forall>k\<in>S. unit_at (unit_table H) k \<notin> set (in_use H)" using spare_not_in_use [OF assms(1)] assms(3) by blast
  from heap_inv_table [OF assms(1,2) this]
  show "heap_inv (H\<lparr>unit_table := T\<rparr>)" and "same_units H (H\<lparr>unit_table := T\<rparr>)"
    and "\<forall>q\<in>set (in_use H). region_span T q = region_span (unit_table H) q" .
qed

text \<open>The record of every run of a tree says that it is a free region of as many units.\<close>

definition heap_recorded :: "region_heap \<Rightarrow> bool" where
  "heap_recorded H \<longleftrightarrow> tree_recorded (unit_table H) (dirtyTree (free_mgr H)) \<and>
    tree_recorded (unit_table H) (releasedTree (free_mgr H))"

text \<open>The tree calls of a section that leaves the manager in \<open>s\<close>.\<close>

lemma carry_out_trees:
  assumes H: "heap_inv H" and told: "told (dirtyTree (free_mgr H)) (dirtyTree s)" "told (releasedTree (free_mgr H)) (releasedTree s)"
    and s: "trees_ok s" "dirty_units s \<inter> released_units s = {}"
      "dirty_units s \<union> released_units s \<subseteq> {..<unat (totalUnitCount (unit_table H))}"
    and apart: "released_units (free_mgr H) \<inter> dirty_units s = {}"
  obtains T where "table_kept (unit_table H) (dirty_units s \<union> released_units s) T"
    and "carry_out decommit s H = and_then (exec_unit_calls (new_unit_calls (free_mgr H) s) T) (\<lambda>(ps, T).
      Inr (ps, H\<lparr>free_mgr := s, unit_table := T, in_use := ps @ in_use H\<rparr>))"
    and "heap_recorded H \<Longrightarrow> tree_recorded T (dirtyTree s) \<and> tree_recorded T (releasedTree s)"
proof -
  let ?T = "unit_table H"
  have ok: "tree_inv (dirtyTree s)" "tree_inv (releasedTree s)" using s(1) by (simp_all add: trees_ok_def)
  from exec_told [OF told(1) ok(1) heap_invD(1) [OF H], of decommit] s(3) obtain T1 where
    T1: "exec_region_calls decommit (new_region_calls (dirtyTree (free_mgr H)) (dirtyTree s)) ?T = Inr T1"
    "table_kept ?T (dirty_units s) T1" "tree_recorded ?T (dirtyTree (free_mgr H)) \<longrightarrow> tree_recorded T1 (dirtyTree s)" by blast
  note k1 = table_keptD [OF T1(2)]
  have "released_units s \<subseteq> {..<unat (totalUnitCount T1)}" using s(3) k1(2) by auto
  from exec_told [OF told(2) ok(2) k1(3) this, of decommit] obtain T2 where
    T2: "exec_region_calls decommit (new_region_calls (releasedTree (free_mgr H)) (releasedTree s)) T1 = Inr T2"
    "table_kept T1 (released_units s) T2" "tree_recorded T1 (releasedTree (free_mgr H)) \<longrightarrow> tree_recorded T2 (releasedTree s)"
    by blast
  have "tree_recorded T2 (dirtyTree s) \<and> tree_recorded T2 (releasedTree s)" if "heap_recorded H"
  proof
    have old: "tree_inv (releasedTree (free_mgr H))" "released_units (free_mgr H) \<subseteq> {..<unat (totalUnitCount ?T)} - dirty_units s"
      using heap_invD(2,7) [OF H] apart by (auto simp: trees_ok_def spare_units_def)
    from that have "tree_recorded T1 (releasedTree (free_mgr H))"
      using tree_recorded_kept [OF _ old(1) T1(2) old(2)] by (simp add: heap_recorded_def)
    with T2(3) show "tree_recorded T2 (releasedTree s)" by blast
    have "tree_recorded T1 (dirtyTree s)" using T1(3) that by (simp add: heap_recorded_def)
    moreover have "dirty_units s \<subseteq> {..<unat (totalUnitCount T1)} - released_units s" using s(2,3) k1(2) by auto
    ultimately show "tree_recorded T2 (dirtyTree s)" using tree_recorded_kept [OF _ ok(1) T2(2)] by blast
  qed
  with T1 T2 table_kept_trans [OF T1(2) T2(2)] show thesis by (intro that [of T2]) (simp_all add: carry_out_def)
qed

text \<open>A region made of spare units that have been taken out of the trees.\<close>

lemma make_region:
  assumes H: "heap_inv H" and n: "0 < unat num" and role: "role \<in> {FREE_UNITS, SMALL_SIZED_UNITS, LARGE_SIZED_UNITS}"
    and U: "{unat idx..<unat idx + unat num} \<subseteq> spare_units H"
    and s: "trees_ok s" "dirty_units s \<inter> released_units s = {}"
      "dirty_units s \<union> released_units s = spare_units H - {unat (idx :: u32)..<unat idx + unat num}"
  shows "\<exists>p T. InitRegion_at (ucast idx) num role (unit_table H) = Inr (p, T) \<and> p \<noteq> 0 \<and> p \<notin> set (in_use H) \<and>
    (let H' = H\<lparr>free_mgr := s, unit_table := T, in_use := p # in_use H\<rparr> in heap_inv H' \<and> same_units H H' \<and>
      region_span T p = {unat idx..<unat idx + unat num} \<and>
      (\<forall>q\<in>set (in_use H). region_span T q = region_span (unit_table H) q)) \<and>
    table_kept (unit_table H) {unat idx..<unat idx + unat num} T"
proof -
  let ?T = "unit_table H" and ?U = "{unat idx..<unat idx + unat num}" and ?R = "set (in_use H)"
  note inv = heap_invD [OF H]
  have last_unit: "unat idx + unat num - 1 \<in> ?U" using n by simp
  then have "unat idx + unat num - 1 < unat (totalUnitCount ?T)" using U inv(7) by blast
  then have le: "unat idx + unat num \<le> unat (totalUnitCount ?T)" using n by simp
  have n1: "1 \<le> num" using n by (simp add: word_le_nat_alt)
  have free: "\<forall>q\<in>?R. region_span ?T q \<inter> ?U = {}" using U inv(8) by (auto simp: used_units_def)
  have "\<forall>k\<in>?U. unit_at ?T k \<notin> ?R" using U spare_not_in_use [OF H] by blast
  with InitRegion_joins [OF inv(1) n1 _ role inv(5), of "ucast idx"] free le obtain p T where
    i: "InitRegion_at (ucast idx) num role ?T = Inr (p, T)" "p \<notin> ?R" "table_ok T" "regions_apart T (insert p ?R)"
    and span: "region_span T p = ?U" "\<forall>q\<in>?R. region_span T q = region_span ?T q" by auto
  from InitRegion_at_makes [OF inv(1) n1 _ role, of "ucast idx"] le i(1) have
    kept: "table_kept ?T ?U T" by (auto simp: table_kept_def)
  note total = table_keptD(2) [OF kept]
  have "is_region T p" using i(4) by (simp add: regions_apart_def)
  then have p0: "p \<noteq> 0" by (rule is_regionD)
  let ?H = "H\<lparr>free_mgr := s, unit_table := T, in_use := p # in_use H\<rparr>"
  have used: "used_units ?H = ?U \<union> used_units H" using span by (simp add: used_units_def)
  have spare: "spare_units ?H = spare_units H - ?U" using s(3) by (simp add: spare_units_def)
  have "heap_inv ?H"
    unfolding heap_inv_def used spare
    using i s(1,2) inv(4,6,7,8) span last_unit total by auto
  moreover have "same_units H ?H" unfolding same_units_def used spare using U total by auto
  ultimately show ?thesis using i p0 span kept by (auto simp: Let_def)
qed

text \<open>What taking a region has done: nothing, for null, or there is one more region, of spare units.\<close>

definition took :: "region_heap \<Rightarrow> nat \<Rightarrow> addr \<Rightarrow> region_heap \<Rightarrow> bool" where
  "took H n p H' \<longleftrightarrow> heap_inv H' \<and> same_units H H' \<and>
    (if p = 0 then H' = H \<and> no_run (dirty_units (free_mgr H)) n \<and> no_run (released_units (free_mgr H)) n
     else p \<notin> set (in_use H) \<and> in_use H' = p # in_use H \<and> region_span (unit_table H') p \<subseteq> spare_units H \<and>
       card (region_span (unit_table H') p) = n \<and>
       (\<forall>q\<in>set (in_use H). region_span (unit_table H') q = region_span (unit_table H) q)) \<and>
    (heap_recorded H \<longrightarrow> heap_recorded H')"

text \<open>Taking units tells the table of what is left of the run.\<close>

lemma take_dirty_told:
  assumes "trees_ok s" and "take_dirty num uclass s = Inr (res, s')"
  shows "told (dirtyTree s) (dirtyTree s') \<and> releasedTree s' = releasedTree s"
  using assms TakeUnitsLowAddr_refreshes(1) [of "dirtyTree s"]
  by (auto simp: take_dirty_def trees_ok_def and_then_Inr_iff unit_call_def split: option.splits)

lemma take_released_told:
  assumes "trees_ok s" and "take_released windows num uclass s = Inr (res, s')"
  shows "told (releasedTree s) (releasedTree s') \<and> dirtyTree s' = dirtyTree s"
  using assms TakeUnitsLowAddr_refreshes(1) [of "releasedTree s"]
  by (auto simp: take_released_def trees_ok_def and_then_Inr_iff unit_call_def split: option.splits)

lemma take_loop_told:
  assumes "trees_ok s" and "take_loop windows num uclass e td tr locks s = Some (Inr (res, s'))"
  shows "told (dirtyTree s) (dirtyTree s') \<and> told (releasedTree s) (releasedTree s')"
  using assms
proof (induction locks arbitrary: td tr)
  case Nil
  then show ?case by (simp add: take_loop.simps split: if_splits)
next
  case (Cons l rest)
  obtain d r where l: "l = (d, r)" by (cases l)
  let ?one = "if td \<and> d then take_dirty num uclass s else Inr (None, s)"
  let ?two = "if tr \<and> r then take_released windows num uclass s else Inr (None, s)"
  have one: "?one = Inr (None, s) \<or> (\<exists>i s1. ?one = Inr (Some i, s1) \<and> told (dirtyTree s) (dirtyTree s1) \<and> releasedTree s1 = releasedTree s)"
  proof (rule take_dirty_cases [OF Cons.prems(1), of num uclass])
    fix i s1
    assume "take_dirty num uclass s = Inr (Some i, s1)"
    with take_dirty_told [OF Cons.prems(1) this] show ?thesis by simp
  qed simp
  have two: "?two = Inr (None, s) \<or> (\<exists>i s1. ?two = Inr (Some i, s1) \<and> told (releasedTree s) (releasedTree s1) \<and> dirtyTree s1 = dirtyTree s)"
  proof (rule take_released_cases [OF Cons.prems(1), of windows num uclass])
    fix i s1
    assume "take_released windows num uclass s = Inr (Some i, s1)"
    with take_released_told [OF Cons.prems(1) this] show ?thesis by simp
  qed simp
  show ?case
  proof (cases "td \<or> tr")
    case False
    with Cons.prems(2) show ?thesis by (simp add: take_loop.simps)
  next
    case True
    then have c: "(\<not> td \<and> \<not> tr) = False" by blast
    note run = Cons.prems(2) [unfolded l take_loop.simps [of windows num uclass e td tr "(d, r) # rest" s] c if_False
      list.case prod.case]
    from one show ?thesis
    proof
      assume "?one = Inr (None, s)"
      note run1 = run [unfolded this sum.case prod.case option.case]
      from two show ?thesis
      proof
        assume "?two = Inr (None, s)"
        from Cons.IH [OF Cons.prems(1) run1 [unfolded this sum.case prod.case option.case]] show ?thesis .
      next
        assume "\<exists>i s1. ?two = Inr (Some i, s1) \<and> told (releasedTree s) (releasedTree s1) \<and> dirtyTree s1 = dirtyTree s"
        then obtain i s1 where two: "?two = Inr (Some i, s1)" and t: "told (releasedTree s) (releasedTree s1)" "dirtyTree s1 = dirtyTree s"
          by blast
        from run1 [unfolded two sum.case prod.case option.case] t show ?thesis by auto
      qed
    next
      assume "\<exists>i s1. ?one = Inr (Some i, s1) \<and> told (dirtyTree s) (dirtyTree s1) \<and> releasedTree s1 = releasedTree s"
      then obtain i s1 where one: "?one = Inr (Some i, s1)" and t: "told (dirtyTree s) (dirtyTree s1)" "releasedTree s1 = releasedTree s"
        by blast
      from run [unfolded one sum.case prod.case option.case] t show ?thesis by simp
    qed
  qed
qed

lemma took_region:
  assumes H: "heap_inv H" and n: "0 < unat num" and role: "uclass \<in> {FREE_UNITS, SMALL_SIZED_UNITS, LARGE_SIZED_UNITS}"
    and U: "{unat (idx :: u32)..<unat idx + unat num} \<subseteq> spare_units H"
    and s: "trees_ok s" "dirty_units s \<inter> released_units s = {}"
      "dirty_units s \<union> released_units s = spare_units H - {unat idx..<unat idx + unat num}"
      "released_units (free_mgr H) \<inter> dirty_units s = {}"
    and take: "TakeRegion windows num uclass e locks (free_mgr H) = Some (Inr (Some idx, s))"
    and calls: "unit_calls s = unit_calls (free_mgr H) @ ks"
    and exec: "\<And>T p T'. ucast idx < totalUnitCount T \<Longrightarrow> InitRegion_at (ucast idx) num uclass T = Inr (p, T') \<Longrightarrow>
      totalUnitCount T' = totalUnitCount T \<Longrightarrow> exec_unit_calls ks T = Inr ([p], T')"
  shows "\<exists>p H'. TakeRegion_heap decommit windows num uclass e locks H = Some (Inr (p, H')) \<and> took H (unat num) p H'"
proof -
  let ?U = "{unat idx..<unat idx + unat num}" and ?S = "dirty_units s \<union> released_units s"
  have told: "told (dirtyTree (free_mgr H)) (dirtyTree s)" "told (releasedTree (free_mgr H)) (releasedTree s)"
    using take_loop_told [OF heap_invD(2) [OF H] take [unfolded TakeRegion_def]] by simp_all
  have sub: "?S \<subseteq> spare_units H" using s(3) by blast
  then have "?S \<subseteq> {..<unat (totalUnitCount (unit_table H))}" using heap_invD(7) [OF H] by blast
  from carry_out_trees [OF H told s(1,2) this s(4)] obtain T where
    T: "table_kept (unit_table H) ?S T" "carry_out decommit s H = and_then (exec_unit_calls (new_unit_calls (free_mgr H) s) T) (\<lambda>(ps, T).
      Inr (ps, H\<lparr>free_mgr := s, unit_table := T, in_use := ps @ in_use H\<rparr>))"
    and rec: "heap_recorded H \<Longrightarrow> tree_recorded T (dirtyTree s) \<and> tree_recorded T (releasedTree s)" by blast
  let ?H = "H\<lparr>unit_table := T\<rparr>"
  note H1 = heap_inv_spare_table [OF H T(1) sub]
  have U1: "?U \<subseteq> spare_units ?H" and s1: "?S = spare_units ?H - ?U" using U s(3) by (simp_all add: spare_units_def)
  from make_region [OF H1(1) n role U1 s(1,2) s1] obtain p T' where
    i: "InitRegion_at (ucast idx) num uclass T = Inr (p, T')" "p \<noteq> 0" "p \<notin> set (in_use H)"
    and H': "heap_inv (H\<lparr>free_mgr := s, unit_table := T', in_use := p # in_use H\<rparr>)"
      "same_units ?H (H\<lparr>free_mgr := s, unit_table := T', in_use := p # in_use H\<rparr>)"
      "region_span T' p = ?U" "\<forall>q\<in>set (in_use H). region_span T' q = region_span T q" and k: "table_kept T ?U T'"
    by (auto simp: Let_def)
  have total: "totalUnitCount T = totalUnitCount (unit_table H)" using table_keptD(2) [OF T(1)] .
  have "unat idx \<in> spare_units H" using U n by auto
  then have "unat idx < unat (totalUnitCount T)" using heap_invD(7) [OF H] total by auto
  then have "ucast idx < totalUnitCount T" by (simp add: word_less_nat_alt)
  from exec [OF this i(1) table_keptD(2) [OF k]] have run: "exec_unit_calls ks T = Inr ([p], T')" .
  let ?H' = "H\<lparr>free_mgr := s, unit_table := T', in_use := p # in_use H\<rparr>"
  have "TakeRegion_heap decommit windows num uclass e locks H = Some (Inr (p, ?H'))"
    using run by (simp add: TakeRegion_heap_def take T(2) new_unit_calls_def calls)
  moreover have "heap_recorded ?H'" if "heap_recorded H"
  proof -
    have "dirty_units s \<subseteq> {..<unat (totalUnitCount T)} - ?U" "released_units s \<subseteq> {..<unat (totalUnitCount T)} - ?U"
      using s(3) heap_invD(7) [OF H] total by auto
    with rec [OF that] s(1) k tree_recorded_kept show ?thesis by (auto simp: heap_recorded_def trees_ok_def)
  qed
  moreover have "same_units H ?H'" using same_units_trans [OF H1(2) H'(2)] .
  ultimately show ?thesis using i H' H1(3) U by (auto simp: took_def)
qed

lemma best_run_units: "best_run S n a \<Longrightarrow> {a..<a + n} \<subseteq> S"
  by (auto simp: best_run_def is_run_def)

lemma TakeRegion_heap_takes:
  assumes H: "heap_inv H" and c: "heap_call_ok (Take windows num uclass e)"
  shows "\<exists>p H'. TakeRegion_heap decommit windows num uclass e ((True, True) # locks) H = Some (Inr (p, H')) \<and> took H (unat num) p H'"
proof -
  let ?s = "free_mgr H"
  note inv = heap_invD [OF H]
  have n: "0 < unat num" "unat num < 2 ^ 32" and role: "uclass \<in> {FREE_UNITS, SMALL_SIZED_UNITS, LARGE_SIZED_UNITS}"
    using c by simp_all
  from TakeRegion_round [OF inv(2) n, of windows uclass e locks] show ?thesis
  proof (elim disjE exE conjE)
    fix idx s
    assume t: "TakeRegion windows num uclass e ((True, True) # locks) ?s = Some (Inr (Some idx, s))" "trees_ok s"
      "best_run (dirty_units ?s) (unat num) (unat idx)"
      "dirty_units s = dirty_units ?s - {unat idx..<unat idx + unat num}" "releasedTree s = releasedTree ?s"
      "unit_calls s = unit_calls ?s @ [ClearUnits (ucast idx) num, InitRegion (ucast idx) num uclass]"
    note b = best_run_units [OF t(3)]
    show ?thesis
      by (rule took_region [OF H n(1) role _ t(2) _ _ _ t(1) t(6)])
        (use b t(4,5) inv(3) in \<open>auto simp: spare_units_def RegionInfo_ClearUnits_def GetUnitAddress_def\<close>)
  next
    fix idx s
    assume t: "TakeRegion windows num uclass e ((True, True) # locks) ?s = Some (Inr (Some idx, s))" "trees_ok s"
      "best_run (released_units ?s) (unat num) (unat idx)"
      "released_units s = released_units ?s - {unat idx..<unat idx + unat num}" "dirtyTree s = dirtyTree ?s"
      "unit_calls s = unit_calls ?s @ FreeRegionCommitMemory windows (ucast idx) num @
        [InitRegion (ucast idx) num uclass] @ (if e then [ClearUnits (ucast idx) num] else [])"
    note b = best_run_units [OF t(3)]
    show ?thesis
      by (rule took_region [OF H n(1) role _ t(2) _ _ _ t(1) t(6)])
        (use b t(4,5) inv(3) in \<open>auto simp: spare_units_def FreeRegionCommitMemory_def RegionInfo_ClearUnits_def GetUnitAddress_def\<close>)
  next
    assume t: "no_run (dirty_units ?s) (unat num)" "no_run (released_units ?s) (unat num)"
      "TakeRegion windows num uclass e ((True, True) # locks) ?s = Some (Inr (None, ?s))"
    then have "TakeRegion_heap decommit windows num uclass e ((True, True) # locks) H = Some (Inr (0, H))"
      by (simp add: TakeRegion_heap_def carry_out_def new_region_calls_def new_unit_calls_def)
    moreover have "took H (unat num) 0 H" using H t by (simp add: took_def same_units_def)
    ultimately show ?thesis by blast
  qed
qed

lemma carry_out_no_unit_calls:
  assumes "unit_calls s = unit_calls (free_mgr H)"
    and "carry_out decommit s H = and_then (exec_unit_calls (new_unit_calls (free_mgr H) s) T) (\<lambda>(ps, T).
      Inr (ps, H\<lparr>free_mgr := s, unit_table := T, in_use := ps @ in_use H\<rparr>))"
  shows "carry_out decommit s H = Inr ([], H\<lparr>free_mgr := s, unit_table := T\<rparr>)"
  using assms by (simp add: new_unit_calls_def)

lemma AddGarbage_heap_gives:
  assumes H: "heap_inv H" and p: "p \<in> set (in_use H)"
  shows "\<exists>H'. AddGarbage_heap decommit p H = Inr H' \<and> heap_inv H' \<and> same_units H H' \<and> in_use H' = remove1 p (in_use H) \<and>
    spare_units H' = spare_units H \<union> region_span (unit_table H) p \<and> (heap_recorded H \<longrightarrow> heap_recorded H')"
proof -
  let ?T = "unit_table H" and ?s = "free_mgr H"
  note inv = heap_invD [OF H]
  from in_use_region [OF H p] obtain i n where i: "unit_ok ?T i" "p = unit_at ?T i" "0 < n"
    "i + n \<le> unat (totalUnitCount ?T)" "region_span ?T p = {i..<i + n}"
    and g: "GetUnitIdx ?T p = Inr (of_nat i)" "GetUnitCount p ?T = Inr (of_nat n)" .
  have lt: "i + n < 2 ^ 32" using i(4) inv(1) by (simp add: table_ok_def)
  let ?i = "ucast (of_nat i :: u64) :: u32" and ?n = "ucast (of_nat n :: u64) :: u32"
  have u: "unat ?i = i" "unat ?n = n" using lt by (simp_all add: unsigned_ucast_eq unat_of_nat take_bit_nat_eq_self)
  have n0: "?n \<noteq> 0" using u(2) i(3) by auto
  have un: "units_of ?i ?n = region_span ?T p" by (simp add: units_of_def u i(5))
  have sub: "region_span ?T p \<subseteq> used_units H" using p by (auto simp: used_units_def)
  have fresh: "dirty_units ?s \<inter> units_of ?i ?n = {}" using inv(8) sub unfolding un spare_units_def by blast
  have bound: "unat ?i + unat ?n < 2 ^ 32" using lt by (simp only: u)
  from add_dirty_fresh [OF inv(2) n0 bound fresh] obtain s where s: "add_dirty ?i ?n ?s = Inr s" "trees_ok s"
    "dirty_units s = dirty_units ?s \<union> units_of ?i ?n" "releasedTree s = releasedTree ?s" .
  let ?H = "H\<lparr>free_mgr := s, in_use := remove1 p (in_use H)\<rparr>"
  have set: "set (remove1 p (in_use H)) = set (in_use H) - {p}" using inv(4) by simp
  have "region_span ?T q \<inter> region_span ?T p = {}" if "q \<in> set (in_use H)" "q \<noteq> p" for q
    using inv(5) p that unfolding regions_apart_def by blast
  then have used: "used_units ?H = used_units H - region_span ?T p" using p set unfolding used_units_def by auto
  have spare: "spare_units ?H = spare_units H \<union> region_span ?T p"
    using s(3,4) un by (auto simp: spare_units_def)
  have H0: "heap_inv ?H"
    unfolding heap_inv_def used spare using s inv sub i(4,5) set un
    by (auto simp: regions_apart_def spare_units_def distinct_remove1)
  have same: "same_units H ?H" unfolding same_units_def used spare using sub by auto
  have "tree_inv (dirtyTree ?s)" using inv(2) by (simp add: trees_ok_def)
  then have told: "told (dirtyTree ?s) (dirtyTree s)" and calls: "unit_calls s = unit_calls ?s"
    using s(1) MergeInsert_told [OF _ n0 bound] by (auto simp: add_dirty_def Let_def split: prod.splits if_splits)
  have sp: "dirty_units s \<union> released_units s = spare_units ?H" by (simp add: spare_units_def)
  have apart: "released_units ?s \<inter> dirty_units s = {}" "dirty_units s \<inter> released_units s = {}"
    using heap_invD(3) [OF H0] s(4) by auto
  have "dirty_units s \<union> released_units s \<subseteq> {..<unat (totalUnitCount ?T)}" unfolding sp using heap_invD(7) [OF H0] by simp
  note bound_s = this
  have told': "told (releasedTree ?s) (releasedTree s)" by (simp add: s(4))
  from carry_out_trees [OF H told told' s(2) apart(2) bound_s apart(1), where decommit = decommit] obtain T where
    T: "table_kept ?T (dirty_units s \<union> released_units s) T" "carry_out decommit s H = and_then (exec_unit_calls (new_unit_calls ?s s) T) (\<lambda>(ps, T).
      Inr (ps, H\<lparr>free_mgr := s, unit_table := T, in_use := ps @ in_use H\<rparr>))"
    and rec: "heap_recorded H \<Longrightarrow> tree_recorded T (dirtyTree s) \<and> tree_recorded T (releasedTree s)"
    by blast
  let ?H' = "?H\<lparr>unit_table := T\<rparr>"
  have "AddGarbage_heap decommit p H = Inr ?H'"
    using carry_out_no_unit_calls [OF calls T(2)] by (simp add: AddGarbage_heap_def g s(1))
  moreover have "heap_inv ?H'" "same_units ?H ?H'"
    using heap_inv_spare_table [OF H0, of "dirty_units s \<union> released_units s" T] T(1) sp by simp_all
  moreover have "heap_recorded H \<longrightarrow> heap_recorded ?H'" using rec by (simp add: heap_recorded_def)
  moreover have "spare_units ?H' = spare_units H \<union> region_span ?T p" using spare by (simp add: spare_units_def)
  ultimately show ?thesis using same_units_trans [OF same] by (intro exI [of _ ?H']) simp
qed

lemma heap_inv_trees:
  assumes H: "heap_inv H" and s: "trees_ok s" "dirty_units s \<inter> released_units s = {}"
    "dirty_units s \<union> released_units s \<subseteq> spare_units H"
  shows "heap_inv (H\<lparr>free_mgr := s\<rparr>)"
    and "dirty_units s \<union> released_units s = spare_units H \<Longrightarrow> same_units H (H\<lparr>free_mgr := s\<rparr>)"
proof -
  have used: "used_units (H\<lparr>free_mgr := s\<rparr>) = used_units H" by (simp add: used_units_def)
  have spare: "spare_units (H\<lparr>free_mgr := s\<rparr>) = dirty_units s \<union> released_units s" by (simp add: spare_units_def)
  show "heap_inv (H\<lparr>free_mgr := s\<rparr>)"
    unfolding heap_inv_def used spare using heap_invD [OF H] s by auto
  show "dirty_units s \<union> released_units s = spare_units H \<Longrightarrow> same_units H (H\<lparr>free_mgr := s\<rparr>)"
    by (simp add: same_units_def used spare)
qed

lemma is_run_Diff:
  assumes run: "is_run S i c" and r: "is_run (S - {i..<i + c}) a k"
  shows "is_run S a k"
proof -
  have k: "0 < k" and sub: "{a..<a + k} \<subseteq> S - {i..<i + c}" using r by (simp_all add: is_run_def)
  have ends: "a + k - 1 \<in> S - {i..<i + c}" "a \<in> S - {i..<i + c}"
    by (rule subsetD [OF sub], use k in simp)+
  have "a + k \<notin> S"
  proof
    assume in_S: "a + k \<in> S"
    from r in_S have "i \<le> a + k" "a + k < i + c" by (auto simp: is_run_def)
    with ends(1) k have eq: "a + k = i" by auto
    with ends(1) k have "i - 1 \<in> S" "0 < i" by auto
    with run show False by (auto simp: is_run_def)
  qed
  moreover have "a = 0 \<or> a - 1 \<notin> S"
  proof (rule ccontr)
    assume c: "\<not> (a = 0 \<or> a - 1 \<notin> S)"
    from r c have "i \<le> a - 1" "a - 1 < i + c" by (auto simp: is_run_def)
    with ends(2) c have eq: "a = i + c" by auto
    with ends(2) have "i + c \<in> S" by simp
    with run show False by (auto simp: is_run_def)
  qed
  ultimately show ?thesis using r by (auto simp: is_run_def)
qed

text \<open>Giving back the memory of the root: a call that leaves the table, and no run of the tree is new.\<close>

lemma release_root_heap:
  assumes H: "heap_inv H" and d: "\<forall>a n. decommit a n" and r: "release_root (free_mgr H) = Inr (Some (idx, num), s)"
  shows "carry_out decommit s H = Inr ([], H\<lparr>free_mgr := s\<rparr>)" and "releasedTree s = releasedTree (free_mgr H)"
    and "heap_recorded H \<Longrightarrow> heap_recorded (H\<lparr>free_mgr := s\<rparr>)"
proof -
  let ?s = "free_mgr H" and ?d = "dirtyTree (free_mgr H)"
  have inv: "tree_inv ?d" using heap_invD(2) [OF H] by (simp add: trees_ok_def)
  from r have full: "root ?d \<noteq> Null" by (auto simp: release_root_def Let_def)
  from ReleaseRootNode_correct [OF inv full] obtain t where t: "ReleaseRootNode ?d = Inr t" "tree_inv t"
    and run: "is_run (free_units ?d) (unat (GetIndex (root ?d))) (unat (GetCount (root ?d)))"
    and u: "free_units t = free_units ?d - {unat (GetIndex (root ?d))..<unat (GetIndex (root ?d)) + unat (GetCount (root ?d))}"
    and calls: "region_calls t = region_calls ?d @ [ReleaseUnits (GetIndex (root ?d)) (GetCount (root ?d))]" by blast
  have s: "s = ?s\<lparr>dirtyTree := t\<rparr>" using r t(1) full by (simp add: release_root_def Let_def)
  show "releasedTree s = releasedTree ?s" by (simp add: s)
  have "unat (GetIndex (root ?d)) \<in> spare_units H" using run by (auto simp: is_run_def spare_units_def)
  then have "unat (GetIndex (root ?d)) < unat (totalUnitCount (unit_table H))" using heap_invD(7) [OF H] by blast
  then have "\<not> totalUnitCount (unit_table H) \<le> ucast (GetIndex (root ?d))" by (simp add: word_le_nat_alt)
  then show "carry_out decommit s H = Inr ([], H\<lparr>free_mgr := s\<rparr>)"
    using d by (simp add: s carry_out_def new_region_calls_def new_unit_calls_def calls RegionInfo_ReleaseUnits_def GetUnitAddress_def)
  have "x \<in> set (spans (root ?d))" if "x \<in> set (spans (root t))" for x
  proof -
    obtain a k where x: "x = (a, k)" by (cases x)
    with that have "is_run (free_units t) a k" by (simp add: runs_of_tree [OF t(2)])
    then have "is_run (free_units ?d) a k" using is_run_Diff [OF run] by (simp only: u)
    then show ?thesis by (simp add: x runs_of_tree [OF inv])
  qed
  then show "heap_recorded H \<Longrightarrow> heap_recorded (H\<lparr>free_mgr := s\<rparr>)" by (auto simp: heap_recorded_def tree_recorded_def s)
qed

lemma release_heap_round:
  assumes H: "heap_inv H" and d: "\<forall>a n. decommit a n" and r: "release_root (free_mgr H) = Inr (Some (idx, num), s)"
  obtains s2 H2 where "add_released idx num s = Inr s2" and "carry_out decommit s2 (H\<lparr>free_mgr := s\<rparr>) = Inr ([], H2)"
    and "heap_inv H2" and "same_units H H2" and "in_use H2 = in_use H" and "free_mgr H2 = s2"
    and "heap_recorded H \<Longrightarrow> heap_recorded H2"
proof -
  let ?s = "free_mgr H" and ?H1 = "H\<lparr>free_mgr := s\<rparr>"
  note inv = heap_invD [OF H]
  have s: "trees_ok s" "num \<noteq> 0" "unat idx + unat num < 2 ^ 32" "units_of idx num \<subseteq> dirty_units ?s"
      "dirty_units s = dirty_units ?s - units_of idx num" "releasedTree s = releasedTree ?s"
    by (rule release_root_cases [OF inv(2)], use r in simp, use r in simp)+
  have "released_units s \<inter> units_of idx num = {}" using inv(3) s(4,6) by auto
  from add_released_fresh [OF s(1-3) this] obtain s2 where s2: "add_released idx num s = Inr s2" "trees_ok s2"
    "released_units s2 = released_units s \<union> units_of idx num" "dirtyTree s2 = dirtyTree s" .
  have "tree_inv (releasedTree s)" using s(1) by (simp add: trees_ok_def)
  then have told: "told (releasedTree s) (releasedTree s2)" and calls: "unit_calls s2 = unit_calls s"
    using s2(1) MergeInsert_told [OF _ s(2,3)] by (auto simp: add_released_def Let_def split: prod.splits if_splits)
  have all: "dirty_units s2 \<union> released_units s2 = spare_units H" "dirty_units s2 \<inter> released_units s2 = {}"
    "released_units s \<inter> dirty_units s2 = {}" "dirty_units s \<union> released_units s \<subseteq> spare_units H" "dirty_units s \<inter> released_units s = {}"
    using s(4-6) s2(3,4) inv(3) by (auto simp: spare_units_def)
  have H1: "heap_inv ?H1" using heap_inv_trees(1) [OF H s(1)] all(4,5) by blast
  have H0: "heap_inv (H\<lparr>free_mgr := s2\<rparr>)" "same_units H (H\<lparr>free_mgr := s2\<rparr>)"
    using heap_inv_trees [OF H s2(2) all(2)] all(1) by blast+
  have "dirty_units s2 \<union> released_units s2 \<subseteq> {..<unat (totalUnitCount (unit_table ?H1))}" using all(1) inv(7) by simp
  note bound_s = this
  have told': "told (dirtyTree (free_mgr ?H1)) (dirtyTree s2)" "told (releasedTree (free_mgr ?H1)) (releasedTree s2)"
    and apart: "released_units (free_mgr ?H1) \<inter> dirty_units s2 = {}" using told s2(4) all(3) by simp_all
  from carry_out_trees [OF H1 told' s2(2) all(2) bound_s apart, where decommit = decommit] obtain T where
    T: "table_kept (unit_table ?H1) (dirty_units s2 \<union> released_units s2) T" "carry_out decommit s2 ?H1 = and_then (exec_unit_calls (new_unit_calls (free_mgr ?H1) s2) T) (\<lambda>(ps, T).
      Inr (ps, ?H1\<lparr>free_mgr := s2, unit_table := T, in_use := ps @ in_use ?H1\<rparr>))"
    and rec: "heap_recorded ?H1 \<Longrightarrow> tree_recorded T (dirtyTree s2) \<and> tree_recorded T (releasedTree s2)"
    by blast
  let ?H2 = "H\<lparr>free_mgr := s2, unit_table := T\<rparr>"
  have "unit_calls s2 = unit_calls (free_mgr ?H1)" using calls by simp
  from carry_out_no_unit_calls [OF this T(2)] have run: "carry_out decommit s2 ?H1 = Inr ([], ?H2)" by simp
  have "spare_units (H\<lparr>free_mgr := s2\<rparr>) = dirty_units s2 \<union> released_units s2" by (simp add: spare_units_def)
  with heap_inv_spare_table [OF H0(1), of "dirty_units s2 \<union> released_units s2" T] T(1)
  have "heap_inv ?H2" "same_units (H\<lparr>free_mgr := s2\<rparr>) ?H2" by simp_all
  moreover have "heap_recorded ?H2" if "heap_recorded H"
    using rec [OF release_root_heap(3) [OF H d r that]] by (simp add: heap_recorded_def)
  ultimately show thesis using same_units_trans [OF H0(2)] by (intro that [OF s2(1) run]) simp_all
qed

text \<open>The loop on the heap does to the manager what the loop of the manager alone does.\<close>

lemma release_heap_loop_correct:
  assumes "heap_inv H" and "\<forall>a n. decommit a n"
  shows "\<exists>bytes H'. release_heap_loop decommit target dn dirtyBytes H = Inr (bytes, H') \<and> heap_inv H' \<and> same_units H H' \<and>
    in_use H' = in_use H \<and> (heap_recorded H \<longrightarrow> heap_recorded H') \<and>
    release_loop target dn dirtyBytes (free_mgr H) = Inr (bytes, free_mgr H')"
  using assms
proof (induction "size (root (dirtyTree (free_mgr H)))" arbitrary: dn dirtyBytes H rule: less_induct)
  case less
  note H = less.prems(1) and d = less.prems(2)
  note unf = release_heap_loop.simps [of decommit target dn dirtyBytes H] release_loop.simps [of target dn dirtyBytes "free_mgr H"]
  show ?case
  proof (cases "dirtyBytes > target")
    case False
    with H show ?thesis by (intro exI [of _ dn] exI [of _ H]) (simp add: unf same_units_def)
  next
    case True
    show ?thesis
    proof (rule release_root_cases [OF heap_invD(2) [OF H]])
      assume "release_root (free_mgr H) = Inr (None, free_mgr H)"
      with True H show ?thesis by (intro exI [of _ dn] exI [of _ H]) (simp add: unf same_units_def)
    next
      fix idx num s
      assume r: "release_root (free_mgr H) = Inr (Some (idx, num), s)"
      from release_heap_round [OF H d r] obtain s2 H2 where s2: "add_released idx num s = Inr s2"
        "carry_out decommit s2 (H\<lparr>free_mgr := s\<rparr>) = Inr ([], H2)" "heap_inv H2" "same_units H H2" "in_use H2 = in_use H"
        "free_mgr H2 = s2" "heap_recorded H \<Longrightarrow> heap_recorded H2" by blast
      have "dirtyTree s2 = dirtyTree s" using s2(1) by (auto simp: add_released_def Let_def split: prod.splits if_splits)
      with release_root_smaller [OF r] s2(6) have "size (root (dirtyTree (free_mgr H2))) < size (root (dirtyTree (free_mgr H)))"
        by simp
      from less.hyps [OF this s2(3) d, of "dn + ucast num * UNIT_SIZE" "dirty_bytes s2"] obtain bytes H' where
        H': "release_heap_loop decommit target (dn + ucast num * UNIT_SIZE) (dirty_bytes s2) H2 = Inr (bytes, H')"
        "heap_inv H'" "same_units H2 H'" "in_use H' = in_use H2" "heap_recorded H2 \<longrightarrow> heap_recorded H'"
        "release_loop target (dn + ucast num * UNIT_SIZE) (dirty_bytes s2) s2 = Inr (bytes, free_mgr H')"
        unfolding s2(6) by blast
      have "release_heap_loop decommit target dn dirtyBytes H = Inr (bytes, H')"
        using True r release_root_heap(1) [OF H d r] s2(1,2,6) H'(1) by (simp add: unf)
      moreover have "release_loop target dn dirtyBytes (free_mgr H) = Inr (bytes, free_mgr H')"
        using True r s2(1) H'(6) by (simp add: unf)
      ultimately show ?thesis using H' s2(4,5,7) same_units_trans [OF s2(4) H'(3)] by (intro exI [of _ bytes] exI [of _ H']) simp
    qed
  qed
qed

lemma ReleaseGarbage_heap_releases:
  assumes H: "heap_inv H" and d: "\<forall>a n. decommit a n"
  shows "\<exists>bytes H'. ReleaseGarbage_heap decommit target H = Inr (bytes, H') \<and> heap_inv H' \<and> same_units H H' \<and>
    in_use H' = in_use H \<and> (heap_recorded H \<longrightarrow> heap_recorded H') \<and>
    ReleaseGarbageRegions target (free_mgr H) = Inr (bytes, free_mgr H')"
proof (cases "dirty_bytes (free_mgr H) \<le> target")
  case True
  with H show ?thesis by (intro exI [of _ 0] exI [of _ H]) (simp add: ReleaseGarbage_heap_def ReleaseGarbageRegions_def same_units_def)
next
  case False
  with release_heap_loop_correct [OF H d, of target 0 "dirty_bytes (free_mgr H)"] show ?thesis
    by (simp add: ReleaseGarbage_heap_def ReleaseGarbageRegions_def)
qed

section \<open>Any calls\<close>

lemma heap_recorded_runs:
  assumes "trees_ok (free_mgr H)"
  shows "heap_recorded H \<longleftrightarrow> (\<forall>a k. is_run (dirty_units (free_mgr H)) a k \<or> is_run (released_units (free_mgr H)) a k \<longrightarrow>
    free_record (unit_table H) a k)"
  using assms by (fastforce simp: heap_recorded_def tree_recorded_def trees_ok_def simp flip: runs_of_tree)

text \<open>
  C4. The manager of free regions and the region table together, with every call the trees and the manager
  make into the table carried out on it. From a heap in which the regions in use are
  made of units of their own and the trees hold other units, any calls that take regions, give back regions
  in use and release garbage run to their end, if the system takes back the memory it is given: no call aborts,
  initialises a record past the table, merges units that are free already or
  reads outside the table. The heap is then like that again: the regions in use share no unit with each other or with
  the trees, and together they still have all its units. And if the record of each run of free units
  said that it is a free region of as many units, it does so again.
\<close>

theorem heap_regions_conserved:
  assumes "heap_inv H" and "\<forall>c\<in>set cs. heap_call_ok c" and "\<forall>a n. decommit a n"
  shows "\<exists>H'. heap_run decommit cs H = Some (Inr H') \<and> heap_inv H' \<and>
    used_units H' \<union> spare_units H' = used_units H \<union> spare_units H \<and>
    (\<forall>p\<in>set (in_use H'). \<forall>q\<in>set (in_use H'). p \<noteq> q \<longrightarrow> region_span (unit_table H') p \<inter> region_span (unit_table H') q = {}) \<and>
    (heap_recorded H \<longrightarrow>
      (\<forall>a k. is_run (dirty_units (free_mgr H')) a k \<or> is_run (released_units (free_mgr H')) a k \<longrightarrow>
        GetUnitCount (unit_at (unit_table H') a) (unit_table H') = Inr (of_nat k) \<and>
        GetUnitRole (unit_at (unit_table H') a) (unit_table H') = Inr FREE_UNITS))"
proof -
  have "\<exists>H'. heap_run decommit cs H = Some (Inr H') \<and> heap_inv H' \<and> same_units H H' \<and> (heap_recorded H \<longrightarrow> heap_recorded H')"
    using assms(1,2)
  proof (induction cs arbitrary: H)
    case Nil
    then show ?case by (simp add: same_units_def)
  next
    case (Cons c cs)
    have ok: "\<forall>c\<in>set cs. heap_call_ok c" "heap_call_ok c" using Cons.prems(2) by simp_all
    have rest: "\<exists>H'. heap_run decommit cs H1 = Some (Inr H') \<and> heap_inv H' \<and> same_units H H' \<and> (heap_recorded H \<longrightarrow> heap_recorded H')"
      if "heap_inv H1" "same_units H H1" "heap_recorded H \<longrightarrow> heap_recorded H1" for H1
      using Cons.IH [OF that(1) ok(1)] that(2,3) same_units_trans by blast
    show ?case
    proof (cases c)
      case (Take windows num uclass e)
      from TakeRegion_heap_takes [OF Cons.prems(1) ok(2) [unfolded Take], of decommit "[]"] obtain p H1 where
        "TakeRegion_heap decommit windows num uclass e [(True, True)] H = Some (Inr (p, H1))" "took H (unat num) p H1" by blast
      with rest [of H1] show ?thesis by (simp add: Take took_def)
    next
      case (GiveBack i)
      show ?thesis
      proof (cases "i < length (in_use H)")
        case True
        with AddGarbage_heap_gives [OF Cons.prems(1), of "in_use H ! i" decommit] rest show ?thesis by (fastforce simp: GiveBack)
      next
        case False
        with rest [OF Cons.prems(1)] show ?thesis by (simp add: GiveBack same_units_def)
      qed
    next
      case (Release target)
      from ReleaseGarbage_heap_releases [OF Cons.prems(1) assms(3), of target] rest show ?thesis by (fastforce simp: Release)
    qed
  qed
  then obtain H' where H': "heap_run decommit cs H = Some (Inr H')" "heap_inv H'" "same_units H H'"
    "heap_recorded H \<longrightarrow> heap_recorded H'" by blast
  then show ?thesis
    using heap_recorded_runs [OF heap_invD(2) [OF H'(2)]] heap_invD(5) [OF H'(2)]
    unfolding same_units_def regions_apart_def free_record_def by blast
qed

text \<open>
  C22. Taking a region from the heap, with the record it gets. With both mutexes there to be had the call is over
  in one round and never aborts. It gives null only when neither tree has a run that is long enough, and
  then nothing has changed; otherwise a region that was not in use, made of exactly as many units, all of them
  taken from the trees, and the units of the other regions stay theirs. What is left of the run the units came
  from is a free region again, with a record of its own: if all runs had one, they all have one afterwards.
\<close>

theorem TakeRegion_makes_region:
  assumes "heap_inv H" and "0 < unat num" and "unat num < 2 ^ 32"
    and "uclass \<in> {FREE_UNITS, SMALL_SIZED_UNITS, LARGE_SIZED_UNITS}"
  shows "\<exists>p H'. TakeRegion_heap decommit windows num uclass e ((True, True) # locks) H = Some (Inr (p, H')) \<and> heap_inv H' \<and>
    (if p = 0 then H' = H \<and> no_run (dirty_units (free_mgr H)) (unat num) \<and> no_run (released_units (free_mgr H)) (unat num)
     else p \<notin> set (in_use H) \<and> in_use H' = p # in_use H \<and> GetUnitCount p (unit_table H') = Inr num \<and>
       region_span (unit_table H') p \<subseteq> spare_units H \<and> card (region_span (unit_table H') p) = unat num \<and>
       spare_units H' = spare_units H - region_span (unit_table H') p \<and>
       (\<forall>q\<in>set (in_use H). region_span (unit_table H') q = region_span (unit_table H) q)) \<and>
    (heap_recorded H \<longrightarrow> heap_recorded H')"
proof -
  have "heap_call_ok (Take windows num uclass e)" using assms(2-4) by simp
  from TakeRegion_heap_takes [OF assms(1) this, of decommit locks] obtain p H' where
    t: "TakeRegion_heap decommit windows num uclass e ((True, True) # locks) H = Some (Inr (p, H'))" and k: "took H (unat num) p H'" by blast
  have "GetUnitCount p (unit_table H') = Inr num \<and> spare_units H' = spare_units H - region_span (unit_table H') p" if "p \<noteq> 0"
  proof -
    have i: "heap_inv H'" "same_units H H'" "p \<notin> set (in_use H)" "in_use H' = p # in_use H"
      "region_span (unit_table H') p \<subseteq> spare_units H" "card (region_span (unit_table H') p) = unat num"
      "\<forall>q\<in>set (in_use H). region_span (unit_table H') q = region_span (unit_table H) q"
      using k that by (simp_all add: took_def)
    have p: "p \<in> set (in_use H')" using i(4) by simp
    from in_use_region [OF i(1) p] obtain n where "card (region_span (unit_table H') p) = n"
      "GetUnitCount p (unit_table H') = Inr (of_nat n)" by (metis card_atLeastLessThan diff_add_inverse)
    with i(6) have c: "GetUnitCount p (unit_table H') = Inr num" by simp
    have "used_units H' = region_span (unit_table H') p \<union> used_units H" using i(4,7) by (simp add: used_units_def)
    then have "spare_units H' = spare_units H - region_span (unit_table H') p"
      using i(2,5) heap_invD(8) [OF i(1)] heap_invD(8) [OF assms(1)] unfolding same_units_def by auto
    with c show ?thesis by simp
  qed
  with t k show ?thesis unfolding took_def by (cases "p = 0") auto
qed

section \<open>Examples\<close>

text \<open>
  A heap of four units: two regions of one unit each, and two dirty units, of which the third record says that they
  are free.
\<close>

definition demo_heap0 :: region_heap where
  "demo_heap0 = \<lparr>free_mgr = \<lparr>releasedTree = \<lparr>totalCount = 0, root = Null, region_calls = []\<rparr>,
      dirtyTree = \<lparr>totalCount = 2, root = Node Null 2 2 Null, region_calls = []\<rparr>, unit_calls = []\<rparr>,
    unit_table = four_regions, in_use = [65448, 65360]\<rparr>"

definition demo_record :: unit_metadata where
  "demo_record = \<lparr>allocPtr = 0x12000, regionEnd = 0x14000, nextRegionIdx = INVALID_IDX, prevRegionIdx = INVALID_IDX,
     liveByteCount = 0, rawPointerObjectCount = 0, liveInfo = 0, unitRoleBitField = FREE_UNITS, regionStateBitField = 0\<rparr>"

definition demo_heap :: region_heap where
  "demo_heap = demo_heap0\<lparr>unit_table := with_unit 65272 demo_record four_regions\<rparr>"

lemma demo_heap0_inv: "heap_inv demo_heap0" "spare_units demo_heap0 = {2, 3}"
proof -
  have span: "region_span four_regions 65448 = {0}" "region_span four_regions 65360 = {1}"
    using region_span_unit [of four_regions 0] region_span_unit [of four_regions 1] four_regions_at
      four_regions_counts by (auto simp: units_in_def)
  have d: "trees_ok (free_mgr demo_heap0)" "dirty_units (free_mgr demo_heap0) = {2, 3}" "released_units (free_mgr demo_heap0) = {}"
    by (auto simp: demo_heap0_def trees_ok_def tree_inv_def spans_ok_def span_ok_def apart_def span_total_def
        free_units_def cover_def span_units_def)
  then show "spare_units demo_heap0 = {2, 3}" by (simp add: spare_units_def)
  have "table_ok four_regions" using four_regions_at(1) [of 0] by (simp add: unit_ok_def)
  moreover have "regions_apart four_regions {65448, 65360}" by (rule four_regions_apart)
  ultimately show "heap_inv demo_heap0"
    using span d by (simp add: heap_inv_def demo_heap0_def used_units_def spare_units_def four_regions_def)
qed

lemma demo_heap_inv: "heap_inv demo_heap"
proof -
  have u: "unit_at four_regions 2 = 65272" by (simp add: unit_at_def four_regions_def UNIT_INFO_SIZE_def)
  have "table_ok four_regions" using four_regions_at(1) [of 0] by (simp add: unit_ok_def)
  then have "table_kept four_regions {2} (with_unit 65272 demo_record four_regions)"
    using unit_at_inj [of four_regions _ 2] four_regions_at(1)
    by (auto simp: table_kept_def unit_ok_def u [symmetric])
  with heap_inv_spare_table(1) [OF demo_heap0_inv(1), of "{2}"] demo_heap0_inv(2) show ?thesis
    by (simp add: demo_heap_def demo_heap0_def)
qed

lemma demo_heap_recorded: "heap_recorded demo_heap"
  by (simp add: heap_recorded_def tree_recorded_def free_record_def demo_heap_def demo_heap0_def four_regions_def with_unit_def
      demo_record_def unit_at_def GetUnitCount_def GetRegionSize_def GetRegionStart_def GetUnitRole_def read_unit_def
      UNIT_SIZE_def UNIT_INFO_SIZE_def GetAtomicValueU8_def bitMask_def BIT_LENGTH_def FREE_UNITS_def word_le_nat_alt)

theorem heap_regions_conserved_witness:
  "\<exists>H. heap_run (\<lambda>_ _. True) [GiveBack 0, Take False 2 LARGE_SIZED_UNITS True, Release 0, GiveBack 1] demo_heap = Some (Inr H) \<and>
    used_units H \<union> spare_units H = used_units demo_heap \<union> spare_units demo_heap \<and>
    (\<forall>a k. is_run (dirty_units (free_mgr H)) a k \<longrightarrow>
      GetUnitCount (unit_at (unit_table H) a) (unit_table H) = Inr (of_nat k))"
  using heap_regions_conserved [OF demo_heap_inv,
      of "[GiveBack 0, Take False 2 LARGE_SIZED_UNITS True, Release 0, GiveBack 1]" "\<lambda>_ _. True"] demo_heap_recorded by auto

theorem TakeRegion_makes_region_witness:
  "\<exists>p H. TakeRegion_heap (\<lambda>_ _. False) False 1 SMALL_SIZED_UNITS False [(True, True)] demo_heap = Some (Inr (p, H)) \<and>
    heap_inv H \<and> heap_recorded H"
  using TakeRegion_makes_region [OF demo_heap_inv, of 1 SMALL_SIZED_UNITS "\<lambda>_ _. False" False False "[]"] demo_heap_recorded
  by auto

end
