(* ===== verification/StackMaps.thy ===== *)
theory StackMaps
  imports Prelude
begin

text \<open>
  The decoder of compressed stack maps, \<^verbatim>\<open>rt.stackmap/stackmap.cj\<close>: from the bytes of one function's
  map it writes events (where the references of a frame are) into an array of the caller, or only
  counts them when the array is null. The bytes are a list; a read past its end is \<open>OutOfBounds\<close>, as
  is a write past the end of the array. Codes and kinds are the numbers of the source. The targets
  are the 64-bit ones; \<open>x86\<close> says which of the two register numberings is compiled in.
\<close>

section \<open>Codes, results\<close>

definition STACKMAP_OK :: u32 where "STACKMAP_OK = 0"
definition STACKMAP_INVALID_ARGUMENT :: u32 where "STACKMAP_INVALID_ARGUMENT = 1"
definition STACKMAP_TRUNCATED :: u32 where "STACKMAP_TRUNCATED = 2"
definition STACKMAP_MALFORMED :: u32 where "STACKMAP_MALFORMED = 3"
definition STACKMAP_NO_SPACE :: u32 where "STACKMAP_NO_SPACE = 4"

definition STACKMAP_EVENT_HEADER :: u32 where "STACKMAP_EVENT_HEADER = 1"
definition STACKMAP_EVENT_PROLOGUE :: u32 where "STACKMAP_EVENT_PROLOGUE = 2"
definition STACKMAP_EVENT_ROW :: u32 where "STACKMAP_EVENT_ROW = 3"
definition STACKMAP_EVENT_REG_ROOT :: u32 where "STACKMAP_EVENT_REG_ROOT = 4"
definition STACKMAP_EVENT_SLOT_ROOT :: u32 where "STACKMAP_EVENT_SLOT_ROOT = 5"
definition STACKMAP_EVENT_DERIVED_REG_ROOT :: u32 where "STACKMAP_EVENT_DERIVED_REG_ROOT = 6"
definition STACKMAP_EVENT_DERIVED_SLOT_ROOT :: u32 where "STACKMAP_EVENT_DERIVED_SLOT_ROOT = 7"
definition STACKMAP_EVENT_STACK_REG_ROOT :: u32 where "STACKMAP_EVENT_STACK_REG_ROOT = 8"
definition STACKMAP_EVENT_STACK_SLOT_ROOT :: u32 where "STACKMAP_EVENT_STACK_SLOT_ROOT = 9"

definition PURE_COMPRESSED_STACKMAP :: u32 where "PURE_COMPRESSED_STACKMAP = 0"
definition SLOT_BYTES :: u64 where "SLOT_BYTES = - 8"

definition registerNumber :: "bool \<Rightarrow> u32 \<Rightarrow> u32" where
  "registerNumber x86 b = (if x86 \<and> \<not> b < 16 then b + 1 else b)"

definition registerSlotCount :: "bool \<Rightarrow> u32 \<Rightarrow> u32" where
  "registerSlotCount x86 b = (if x86 \<and> \<not> b < 16 then 2 else 1)"

definition isBaseRegister :: "bool \<Rightarrow> u32 \<Rightarrow> bool" where
  "isBaseRegister x86 b = (\<not> x86 \<or> b < 16)"

record stack_event =
  ev_kind :: u32
  ev_row :: u32
  ev_value0 :: u64
  ev_value1 :: u64

record word_result =
  wr_code :: u32
  wr_value :: u32
  wr_nextBit :: u64

definition WordResult :: "u32 \<Rightarrow> u32 \<Rightarrow> u64 \<Rightarrow> word_result" where
  "WordResult c v b = \<lparr>wr_code = c, wr_value = v, wr_nextBit = b\<rparr>"

text \<open>The last field is a number of roots; the loop over the prologue returns its position there.\<close>

record root_result =
  rr_code :: u32
  rr_nextEvent :: u64
  rr_baseRoots :: u64

definition RootResult :: "u32 \<Rightarrow> u64 \<Rightarrow> u64 \<Rightarrow> root_result" where
  "RootResult c i r = \<lparr>rr_code = c, rr_nextEvent = i, rr_baseRoots = r\<rparr>"

lemma result_sel [simp]:
  "wr_code (WordResult c v b) = c" "wr_value (WordResult c v b) = v" "wr_nextBit (WordResult c v b) = b"
  "rr_code (RootResult c i r) = c" "rr_nextEvent (RootResult c i r) = i" "rr_baseRoots (RootResult c i r) = r"
  by (simp_all add: WordResult_def RootResult_def)

lemma RootResult_inject [simp]: "RootResult c i r = RootResult c' i' r' \<longleftrightarrow> c = c' \<and> i = i' \<and> r = r'"
  by (auto simp: RootResult_def)

lemma WordResult_inject [simp]: "WordResult c v b = WordResult c' v' b' \<longleftrightarrow> c = c' \<and> v = v' \<and> b = b'"
  by (auto simp: WordResult_def)

record index_set =
  ix_reg :: u32
  ix_slot :: u32
  ix_line :: u32
  ix_derived :: u32
  ix_stackReg :: u32
  ix_stackSlot :: u32

record layout =
  stackMapData :: u64
  stackMapRecords :: u32
  stackMapRowBits :: u32
  regIndexBits :: u32
  slotIndexBits :: u32
  lineIndexBits :: u32
  derivedIndexBits :: u32
  stackRegIndexBits :: u32
  stackSlotIndexBits :: u32
  regData :: u64
  regRecords :: u32
  regBits :: u32
  slotData :: u64
  slotRecords :: u32
  slotBaseBits :: u32
  slotBitmapBits :: u32
  lineData :: u64
  lineRecords :: u32
  lineBits :: u32
  derivedData :: u64
  derivedRecords :: u32

definition Layout :: layout where
  "Layout = \<lparr>stackMapData = 0, stackMapRecords = 0, stackMapRowBits = 0, regIndexBits = 0, slotIndexBits = 0,
    lineIndexBits = 0, derivedIndexBits = 0, stackRegIndexBits = 0, stackSlotIndexBits = 0, regData = 0,
    regRecords = 0, regBits = 0, slotData = 0, slotRecords = 0, slotBaseBits = 0, slotBitmapBits = 0,
    lineData = 0, lineRecords = 0, lineBits = 0, derivedData = 0, derivedRecords = 0\<rparr>"

section \<open>Bits\<close>

definition read_byte :: "u8 list \<Rightarrow> u64 \<Rightarrow> u8 res" where
  "read_byte data i = (if unat i < length data then Inr (data ! unat i) else Inl OutOfBounds)"

fun read_bits_loop :: "u8 list \<Rightarrow> u64 \<Rightarrow> nat list \<Rightarrow> u32 \<Rightarrow> u32 res" where
  "read_bits_loop data b [] v = Inr v"
| "read_bits_loop data b (i # is) v = (let absolute = b + of_nat i in
     and_then (read_byte data (drop_bit 3 absolute)) (\<lambda>byteValue.
     read_bits_loop data b is (v OR push_bit i (drop_bit (unat (absolute AND 7)) (ucast byteValue) AND 1))))"

definition readBits :: "u8 list \<Rightarrow> u64 \<Rightarrow> u64 \<Rightarrow> u32 \<Rightarrow> word_result res" where
  "readBits data sz b bitLen =
    (if bitLen > 32 \<or> sz > 0x1fffffffffffffff then Inr (WordResult STACKMAP_MALFORMED 0 b)
     else let totalBits = sz * 8 in
       if b > totalBits \<or> ucast bitLen > totalBits - b then Inr (WordResult STACKMAP_TRUNCATED 0 b)
       else and_then (read_bits_loop data b [0..<unat bitLen] 0) (\<lambda>v.
         Inr (WordResult STACKMAP_OK v (b + ucast bitLen))))"

definition readVarInt :: "u8 list \<Rightarrow> u64 \<Rightarrow> u64 \<Rightarrow> word_result res" where
  "readVarInt data sz b = and_then (readBits data sz b 4) (\<lambda>tag.
    if wr_code tag \<noteq> STACKMAP_OK then Inr tag
    else if wr_value tag \<le> 11 then Inr tag
    else readBits data sz (wr_nextBit tag)
      (if wr_value tag = 12 then 8 else if wr_value tag = 13 then 16 else if wr_value tag = 14 then 24 else 32))"

text \<open>A result that is not good is returned as it is; \<open>fail\<close> makes the caller's result of its code.\<close>

definition ok_then :: "word_result res \<Rightarrow> (u32 \<Rightarrow> 'b) \<Rightarrow> (u32 \<Rightarrow> u64 \<Rightarrow> 'b res) \<Rightarrow> 'b res" where
  "ok_then r fail k = and_then r (\<lambda>w.
    if wr_code w \<noteq> STACKMAP_OK then Inr (fail (wr_code w)) else k (wr_value w) (wr_nextBit w))"

section \<open>Tables\<close>

definition checkedEnd :: "u64 \<Rightarrow> u32 \<Rightarrow> u32 \<Rightarrow> u64 \<Rightarrow> word_result" where
  "checkedEnd start rows rowBits sz =
    (if sz > 0x1fffffffffffffff then WordResult STACKMAP_MALFORMED 0 start
     else let totalBits = sz * 8; span = ucast rows * ucast rowBits in
       if start > totalBits \<or> span > totalBits - start then WordResult STACKMAP_TRUNCATED 0 start
       else WordResult STACKMAP_OK 0 (start + span))"

text \<open>The parts of \<open>parseLayout\<close>: each returns a code, the layout so far and its position.\<close>

type_synonym parsed = "u32 \<times> layout \<times> u64"

definition parsed_then :: "parsed res \<Rightarrow> (layout \<Rightarrow> u64 \<Rightarrow> parsed res) \<Rightarrow> parsed res" where
  "parsed_then r k = and_then r (\<lambda>(c, l, cur). if c \<noteq> STACKMAP_OK then Inr (c, l, cur) else k l cur)"

text \<open>The widths of the stack map and where it lies, for at least one row.\<close>

definition parse_map :: "u8 list \<Rightarrow> u64 \<Rightarrow> bool \<Rightarrow> u32 \<Rightarrow> layout \<Rightarrow> u64 \<Rightarrow> parsed res" where
  "parse_map data sz grow smRecords l cur = (let fail = (\<lambda>c. (c, l, cur)) in
    ok_then (readVarInt data sz cur) fail (\<lambda>regIB cur.
    ok_then (readVarInt data sz cur) fail (\<lambda>slotIB cur.
    ok_then (readVarInt data sz cur) fail (\<lambda>lineIB cur.
    ok_then (readVarInt data sz cur) fail (\<lambda>derivedIB cur.
    ok_then (if grow then readVarInt data sz cur else Inr (WordResult STACKMAP_OK 0 cur)) fail (\<lambda>stackRegB cur.
    ok_then (if grow then readVarInt data sz cur else Inr (WordResult STACKMAP_OK 0 cur)) fail (\<lambda>stackSlotB cur.
    ok_then (readVarInt data sz cur) fail (\<lambda>padding cur.
    if regIB > 32 \<or> slotIB > 32 \<or> lineIB > 32 \<or> derivedIB > 32 \<or> stackRegB > 32 \<or> stackSlotB > 32
    then Inr (fail STACKMAP_MALFORMED)
    else let smRowBits64 = 32 + ucast regIB + ucast slotIB + ucast lineIB + ucast derivedIB + ucast stackRegB +
           ucast stackSlotB :: u64 in
      if smRowBits64 > 0xffffffff then Inr (fail STACKMAP_MALFORMED)
      else let smData = cur + ucast padding in
        if smData < cur then Inr (fail STACKMAP_MALFORMED)
        else ok_then (Inr (checkedEnd smData smRecords (ucast smRowBits64) sz)) fail (\<lambda>_ cur.
          Inr (STACKMAP_OK, l\<lparr>stackMapData := smData, stackMapRecords := smRecords,
            stackMapRowBits := ucast smRowBits64, regIndexBits := regIB, slotIndexBits := slotIB,
            lineIndexBits := lineIB, derivedIndexBits := derivedIB, stackRegIndexBits := stackRegB,
            stackSlotIndexBits := stackSlotB\<rparr>, cur))))))))))"

definition parse_regs :: "u8 list \<Rightarrow> u64 \<Rightarrow> layout \<Rightarrow> u64 \<Rightarrow> parsed res" where
  "parse_regs data sz l cur = (let fail = (\<lambda>c. (c, l, cur)) in
    ok_then (readVarInt data sz cur) fail (\<lambda>records cur.
    ok_then (readVarInt data sz cur) fail (\<lambda>bits cur.
    if bits > 32 then Inr (fail STACKMAP_MALFORMED)
    else ok_then (Inr (checkedEnd cur records bits sz)) fail (\<lambda>_ end.
      Inr (STACKMAP_OK, l\<lparr>regData := cur, regRecords := records, regBits := bits\<rparr>, end)))))"

definition parse_slots :: "u8 list \<Rightarrow> u64 \<Rightarrow> layout \<Rightarrow> u64 \<Rightarrow> parsed res" where
  "parse_slots data sz l cur = (let fail = (\<lambda>c. (c, l, cur)) in
    ok_then (readVarInt data sz cur) fail (\<lambda>records cur.
    ok_then (readVarInt data sz cur) fail (\<lambda>base cur.
    ok_then (readVarInt data sz cur) fail (\<lambda>bitmap cur.
    if (base \<noteq> 8 \<and> base \<noteq> 16 \<and> base \<noteq> 32) \<or> bitmap > 0x7fffffff then Inr (fail STACKMAP_MALFORMED)
    else let slotRowBits64 = ucast base + ucast bitmap :: u64 in
      if slotRowBits64 > 0xffffffff then Inr (fail STACKMAP_MALFORMED)
      else ok_then (Inr (checkedEnd cur records (ucast slotRowBits64) sz)) fail (\<lambda>_ end.
        Inr (STACKMAP_OK, l\<lparr>slotData := cur, slotRecords := records, slotBaseBits := base,
          slotBitmapBits := bitmap\<rparr>, end))))))"

definition parse_lines :: "u8 list \<Rightarrow> u64 \<Rightarrow> layout \<Rightarrow> u64 \<Rightarrow> parsed res" where
  "parse_lines data sz l cur = (let fail = (\<lambda>c. (c, l, cur)) in
    ok_then (readVarInt data sz cur) fail (\<lambda>records cur.
    ok_then (readVarInt data sz cur) fail (\<lambda>bits cur.
    if bits > 32 then Inr (fail STACKMAP_MALFORMED)
    else ok_then (Inr (checkedEnd cur records bits sz)) fail (\<lambda>_ end.
      Inr (STACKMAP_OK, l\<lparr>lineData := cur, lineRecords := records, lineBits := bits\<rparr>, end)))))"

definition parse_derived :: "u8 list \<Rightarrow> u64 \<Rightarrow> layout \<Rightarrow> u64 \<Rightarrow> parsed res" where
  "parse_derived data sz l cur = (let fail = (\<lambda>c. (c, l, cur)) in
    ok_then (readVarInt data sz cur) fail (\<lambda>records cur.
    let derivedRowBits = ucast (regIndexBits l) + ucast (slotIndexBits l) :: u64 in
    if derivedRowBits > 0xffffffff then Inr (fail STACKMAP_MALFORMED)
    else ok_then (Inr (checkedEnd cur records (ucast derivedRowBits) sz)) fail (\<lambda>_ end.
      Inr (STACKMAP_OK, l\<lparr>derivedData := cur, derivedRecords := records\<rparr>, end))))"

definition parseLayout :: "u8 list \<Rightarrow> u64 \<Rightarrow> u64 \<Rightarrow> bool \<Rightarrow> (u32 \<times> layout) res" where
  "parseLayout data sz bitStart grow = ok_then (readVarInt data sz bitStart) (\<lambda>c. (c, Layout)) (\<lambda>smRecords cur.
    let l = Layout\<lparr>stackMapRecords := smRecords\<rparr> in
    if smRecords = 0 then Inr (STACKMAP_OK, l)
    else and_then (parsed_then (parse_map data sz grow smRecords l cur) (\<lambda>l cur.
      parsed_then (parse_regs data sz l cur) (\<lambda>l cur.
      parsed_then (parse_slots data sz l cur) (\<lambda>l cur.
      parsed_then (parse_lines data sz l cur) (parse_derived data sz)))))
      (\<lambda>(c, l, cur). Inr (c, l)))"

definition index_set_empty :: index_set where
  "index_set_empty = \<lparr>ix_reg = 0, ix_slot = 0, ix_line = 0, ix_derived = 0, ix_stackReg = 0, ix_stackSlot = 0\<rparr>"

definition readIndexSet :: "u8 list \<Rightarrow> u64 \<Rightarrow> layout \<Rightarrow> u32 \<Rightarrow> (u32 \<times> u32 \<times> index_set) res" where
  "readIndexSet data sz l row = (let fail = (\<lambda>c. (c, 0, index_set_empty)) in
    ok_then (readBits data sz (stackMapData l + ucast row * ucast (stackMapRowBits l)) 32) fail (\<lambda>pc cur.
    ok_then (readBits data sz cur (regIndexBits l)) fail (\<lambda>reg cur.
    ok_then (readBits data sz cur (slotIndexBits l)) fail (\<lambda>slot cur.
    ok_then (readBits data sz cur (lineIndexBits l)) fail (\<lambda>line cur.
    ok_then (readBits data sz cur (derivedIndexBits l)) fail (\<lambda>derived cur.
    ok_then (readBits data sz cur (stackRegIndexBits l)) fail (\<lambda>stackReg cur.
    ok_then (readBits data sz cur (stackSlotIndexBits l)) fail (\<lambda>stackSlot cur.
    Inr (STACKMAP_OK, pc, \<lparr>ix_reg = reg, ix_slot = slot, ix_line = line, ix_derived = derived,
      ix_stackReg = stackReg, ix_stackSlot = stackSlot\<rparr>)))))))))"

definition readTableRow :: "u8 list \<Rightarrow> u64 \<Rightarrow> u64 \<Rightarrow> u32 \<Rightarrow> u32 \<Rightarrow> u32 \<Rightarrow> word_result res" where
  "readTableRow data sz tableData recordCount rowBits oneBasedIndex =
    (if oneBasedIndex = 0 then Inr (WordResult STACKMAP_OK 0 tableData)
     else if oneBasedIndex > recordCount then Inr (WordResult STACKMAP_MALFORMED 0 tableData)
     else readBits data sz (tableData + ucast (oneBasedIndex - 1) * ucast rowBits) rowBits)"

section \<open>Events\<close>

type_synonym event_array = "stack_event list option"

definition emitEvent ::
  "u64 \<Rightarrow> u32 \<Rightarrow> u32 \<Rightarrow> u64 \<Rightarrow> u64 \<Rightarrow> event_array \<Rightarrow> u64 \<Rightarrow> (root_result \<times> event_array) res" where
  "emitEvent cap kind row v0 v1 events i = (case events of
      None \<Rightarrow> Inr (RootResult STACKMAP_OK (i + 1) 0, None)
    | Some A \<Rightarrow>
        if i \<ge> cap \<or> i > 0x7fffffffffffffff then Inr (RootResult STACKMAP_NO_SPACE i 0, events)
        else if unat i < length A then
          Inr (RootResult STACKMAP_OK (i + 1) 0,
            Some (A[unat i := \<lparr>ev_kind = kind, ev_row = row, ev_value0 = v0, ev_value1 = v1\<rparr>]))
        else Inl OutOfBounds)"

definition root_then :: "(root_result \<times> event_array) res \<Rightarrow> (root_result \<Rightarrow> u64) \<Rightarrow>
    (root_result \<Rightarrow> event_array \<Rightarrow> (root_result \<times> event_array) res) \<Rightarrow> (root_result \<times> event_array) res" where
  "root_then m roots k = and_then m (\<lambda>(r, events).
    if rr_code r \<noteq> STACKMAP_OK then Inr (RootResult (rr_code r) (rr_nextEvent r) (roots r), events) else k r events)"

section \<open>Roots\<close>

lemma u_step: "(b :: 'a::len word) < n \<Longrightarrow> unat (n - (b + 1)) < unat (n - b)"
proof -
  assume "b < n"
  then have "unat (n - b) = Suc (unat (n - b - 1))" by (intro unat_minus_one_Suc) auto
  moreover have "n - (b + 1) = n - b - 1" by simp
  ultimately show ?thesis by (simp only:)
qed

fun sub_slots :: "u32 \<Rightarrow> u32 \<Rightarrow> u64 \<Rightarrow> u64 \<Rightarrow> u32 \<Rightarrow> u64 \<Rightarrow> nat list \<Rightarrow> event_array \<Rightarrow> u64 \<Rightarrow>
    (root_result \<times> event_array) res" where
  "sub_slots kind row derivedBase cap reg roots [] events i = Inr (RootResult STACKMAP_OK i roots, events)"
| "sub_slots kind row derivedBase cap reg roots (s # ss) events i = root_then
     (emitEvent cap kind row
       (if kind = STACKMAP_EVENT_DERIVED_REG_ROOT then derivedBase else ucast reg)
       (if kind = STACKMAP_EVENT_DERIVED_REG_ROOT then ucast (reg * 2 + of_nat s) else of_nat s) events i) (\<lambda>_. roots)
     (\<lambda>r events. sub_slots kind row derivedBase cap reg roots ss events (rr_nextEvent r))"

function reg_loop :: "bool \<Rightarrow> u32 \<Rightarrow> u32 \<Rightarrow> u64 \<Rightarrow> u64 \<Rightarrow> u32 \<Rightarrow> u32 \<Rightarrow> u32 \<Rightarrow> u64 \<Rightarrow> event_array \<Rightarrow> u64 \<Rightarrow>
    (root_result \<times> event_array) res" where
  "reg_loop x86 kind row derivedBase cap width bitMap b roots events i =
    (if bitMap \<noteq> 0 \<and> b < width then
       if bitMap AND 1 \<noteq> 0 then
         root_then (sub_slots kind row derivedBase cap (registerNumber x86 b) roots
             [0..<unat (registerSlotCount x86 b)] events i) rr_baseRoots
           (\<lambda>r events. reg_loop x86 kind row derivedBase cap width (drop_bit 1 bitMap) (b + 1)
             (if isBaseRegister x86 b then roots + 1 else roots) events (rr_nextEvent r))
       else reg_loop x86 kind row derivedBase cap width (drop_bit 1 bitMap) (b + 1) roots events i
     else Inr (RootResult STACKMAP_OK i roots, events))"
  by pat_completeness auto

termination
  by (relation "measure (\<lambda>(x86, kind, row, derivedBase, cap, width, bitMap, b, _). unat (width - b))")
    (simp_all add: u_step)

declare reg_loop.simps [simp del]

definition decodeRegRoots :: "bool \<Rightarrow> u8 list \<Rightarrow> u64 \<Rightarrow> layout \<Rightarrow> u32 \<Rightarrow> u32 \<Rightarrow> u32 \<Rightarrow> u64 \<Rightarrow> u64 \<Rightarrow>
    event_array \<Rightarrow> u64 \<Rightarrow> (root_result \<times> event_array) res" where
  "decodeRegRoots x86 data sz l regIndex kind row derivedBase cap events i =
    (if regIndex = 0 then Inr (RootResult STACKMAP_OK i 0, events)
     else ok_then (readTableRow data sz (regData l) (regRecords l) (regBits l) regIndex)
       (\<lambda>c. (RootResult c i 0, events))
       (\<lambda>bitMap _. reg_loop x86 kind row derivedBase cap (regBits l) bitMap 0 0 events i))"

definition signedBase :: "u32 \<Rightarrow> u32 \<Rightarrow> u64" where
  "signedBase v bits =
    (if bits = 8 \<and> v AND 0x80 \<noteq> 0 then ucast v - 0x100
     else if bits = 16 \<and> v AND 0x8000 \<noteq> 0 then ucast v - 0x10000
     else if bits = 32 \<and> v AND 0x80000000 \<noteq> 0 then ucast v - 0x100000000
     else ucast v)"

definition emitSlot :: "u64 \<Rightarrow> u32 \<Rightarrow> u32 \<Rightarrow> u64 \<Rightarrow> u64 \<Rightarrow> event_array \<Rightarrow> u64 \<Rightarrow> (root_result \<times> event_array) res" where
  "emitSlot cap kind row derivedBase bias events i = root_then
    (emitEvent cap kind row (if kind = STACKMAP_EVENT_DERIVED_SLOT_ROOT then derivedBase else bias)
      (if kind = STACKMAP_EVENT_DERIVED_SLOT_ROOT then bias else 0) events i) rr_baseRoots
    (\<lambda>r events. Inr (RootResult STACKMAP_OK (rr_nextEvent r) 1, events))"

text \<open>The slots of the bits set in one chunk, from the slot \<open>logicalSlot\<close> on.\<close>

function chunk_loop :: "u32 \<Rightarrow> u32 \<Rightarrow> u64 \<Rightarrow> u64 \<Rightarrow> u64 \<Rightarrow> u64 \<Rightarrow> u32 \<Rightarrow> u32 \<Rightarrow> u32 \<Rightarrow> u64 \<Rightarrow> event_array \<Rightarrow> u64 \<Rightarrow>
    (root_result \<times> event_array) res" where
  "chunk_loop kind row derivedBase cap baseBias logicalSlot chunkBits chunk b roots events i =
    (if chunk \<noteq> 0 \<and> b < chunkBits then
       if chunk AND 1 \<noteq> 0 then
         root_then (emitSlot cap kind row derivedBase (baseBias + (logicalSlot + ucast b) * SLOT_BYTES) events i) (\<lambda>_. roots)
           (\<lambda>r events. chunk_loop kind row derivedBase cap baseBias logicalSlot chunkBits (drop_bit 1 chunk) (b + 1)
             (roots + 1) events (rr_nextEvent r))
       else chunk_loop kind row derivedBase cap baseBias logicalSlot chunkBits (drop_bit 1 chunk) (b + 1) roots events i
     else Inr (RootResult STACKMAP_OK i roots, events))"
  by pat_completeness auto

termination
  by (relation "measure (\<lambda>(kind, row, derivedBase, cap, base, s, n, chunk, b, _). unat (n - b))")
    (simp_all add: u_step)

declare chunk_loop.simps [simp del]

function pure_loop :: "u8 list \<Rightarrow> u64 \<Rightarrow> u32 \<Rightarrow> u32 \<Rightarrow> u64 \<Rightarrow> u64 \<Rightarrow> u64 \<Rightarrow> u64 \<Rightarrow> u32 \<Rightarrow> u64 \<Rightarrow> u64 \<Rightarrow> event_array \<Rightarrow> u64 \<Rightarrow>
    (root_result \<times> event_array) res" where
  "pure_loop data sz kind row derivedBase cap baseBias cursor remain logicalSlot roots events i =
    (if remain \<noteq> 0 then
       let chunkBits = (if remain < 32 then remain else 32) in
       ok_then (readBits data sz cursor chunkBits) (\<lambda>c. (RootResult c i roots, events)) (\<lambda>chunk nextBit.
       root_then (chunk_loop kind row derivedBase cap baseBias logicalSlot chunkBits chunk 0 roots events i) rr_baseRoots
         (\<lambda>r events. pure_loop data sz kind row derivedBase cap baseBias nextBit (remain - chunkBits)
           (logicalSlot + ucast chunkBits) (rr_baseRoots r) events (rr_nextEvent r)))
     else Inr (RootResult STACKMAP_OK i roots, events))"
  by pat_completeness auto

termination
proof (relation "measure (\<lambda>(data, sz, kind, row, derivedBase, cap, base, cursor, remain, _). unat remain)", goal_cases)
  case (2 data sz kind row derivedBase cap base cursor remain s roots events i n nx ch r ev)
  then have "unat n \<le> unat remain" "0 < unat n" "n \<le> remain"
    by (auto simp: word_less_nat_alt word_le_nat_alt not_less unat_gt_0)
  then show ?case by (simp add: unat_sub)
qed simp

declare pure_loop.simps [simp del]

function allref_loop :: "u32 \<Rightarrow> u32 \<Rightarrow> u64 \<Rightarrow> u64 \<Rightarrow> u64 \<Rightarrow> u64 \<Rightarrow> u64 \<Rightarrow> u64 \<Rightarrow> event_array \<Rightarrow> u64 \<Rightarrow>
    (root_result \<times> event_array) res" where
  "allref_loop kind row derivedBase cap baseBias bitCount b roots events i =
    (if b < bitCount then
       root_then (emitSlot cap kind row derivedBase (baseBias + b * SLOT_BYTES) events i) (\<lambda>_. roots)
         (\<lambda>r events. allref_loop kind row derivedBase cap baseBias bitCount (b + 1) (roots + 1) events (rr_nextEvent r))
     else Inr (RootResult STACKMAP_OK i roots, events))"
  by pat_completeness auto

termination
  by (relation "measure (\<lambda>(kind, row, derivedBase, cap, base, n, b, _). unat (n - b))") (simp_all add: u_step)

declare allref_loop.simps [simp del]

lemma unat_sub_less:
  fixes x :: "'a::len word"
  assumes "x \<noteq> 0" and "y \<le> x - 1"
  shows "unat (x - 1 - y) < unat x"
proof -
  have "unat (x - 1 - y) \<le> unat (x - 1)" using unat_sub [OF assms(2)] by simp
  with unat_minus_one_Suc [OF assms(1)] show ?thesis by simp
qed

lemma ucast_le_down: "(u :: u64) \<le> ucast (r :: u32) \<Longrightarrow> ucast u \<le> r"
proof -
  assume a: "u \<le> ucast r"
  then have "unat u \<le> unat r" by (simp add: word_le_nat_alt unat_ucast_u32)
  moreover have "unat (ucast u :: u32) \<le> unat u" by (simp add: unsigned_ucast_eq)
  ultimately show ?thesis by (simp add: word_le_nat_alt)
qed

function compressed_loop :: "u8 list \<Rightarrow> u64 \<Rightarrow> u32 \<Rightarrow> u32 \<Rightarrow> u64 \<Rightarrow> u64 \<Rightarrow> u64 \<Rightarrow> u64 \<Rightarrow> u32 \<Rightarrow> u64 \<Rightarrow> event_array \<Rightarrow> u64 \<Rightarrow>
    (root_result \<times> event_array) res" where
  "compressed_loop data sz kind row derivedBase cap baseBias cursor remain roots events i =
    (if remain \<noteq> 0 then
       let fail = (\<lambda>c. (RootResult c i roots, events)) in
       ok_then (readBits data sz cursor 1) fail (\<lambda>pureTag cursor.
       let remain = remain - 1 in
       if pureTag \<noteq> 0 then
         let pureBits = (if remain < 31 then remain else 31) in
         ok_then (readBits data sz cursor pureBits) fail (\<lambda>raw cursor.
         root_then (chunk_loop kind row derivedBase cap baseBias 0 pureBits raw 0 roots events i) rr_baseRoots
           (\<lambda>r events. compressed_loop data sz kind row derivedBase cap (baseBias + 31 * SLOT_BYTES) cursor
             (remain - pureBits) (rr_baseRoots r) events (rr_nextEvent r)))
       else if remain < 5 then Inr (RootResult STACKMAP_OK i roots, events)
       else ok_then (readBits data sz cursor 1) fail (\<lambda>allRef cursor.
         let remain = remain - 1 in
         ok_then (readVarInt data sz cursor) fail (\<lambda>n nextBit.
         let used = nextBit - cursor in
         if used > ucast remain then Inr (fail STACKMAP_MALFORMED)
         else if n = 0 then Inr (RootResult STACKMAP_OK i roots, events)
         else let bitCount = ucast n * 31 in
           root_then (if allRef \<noteq> 0 then allref_loop kind row derivedBase cap baseBias bitCount 0 roots events i
               else Inr (RootResult STACKMAP_OK i roots, events)) rr_baseRoots
             (\<lambda>r events. compressed_loop data sz kind row derivedBase cap (baseBias + bitCount * SLOT_BYTES) nextBit
               (remain - ucast used) (rr_baseRoots r) events (rr_nextEvent r)))))
     else Inr (RootResult STACKMAP_OK i roots, events))"
  by pat_completeness auto

termination
proof (relation "measure (\<lambda>(data, sz, kind, row, derivedBase, cap, base, cursor, remain, _). unat remain)", goal_cases)
  case (2 data sz kind row derivedBase cap base cursor remain roots events i f t c rem n raw cu r ev)
  then have "n \<le> remain - 1" by (auto simp: not_less)
  with 2 show ?case by (simp add: unat_sub_less)
next
  case (3 data sz kind row derivedBase cap base cursor remain roots events i f t c rem allRef c2 rem2 n nx used bc r ev)
  have "\<not> remain - 1 < 5" using 3 by simp
  then have "remain - 1 \<noteq> 0" by auto
  moreover have "ucast used \<le> remain - 1 - 1" using 3 by (auto simp: not_less intro!: ucast_le_down)
  ultimately have "unat (remain - 1 - 1 - ucast used) < unat (remain - 1)" by (rule unat_sub_less)
  also have "\<dots> < unat remain" using unat_minus_one_Suc [of remain] 3 by simp
  finally show ?case using 3 by simp
qed simp

declare compressed_loop.simps [simp del]

definition decodeSlotRoots :: "u8 list \<Rightarrow> u64 \<Rightarrow> layout \<Rightarrow> u32 \<Rightarrow> u32 \<Rightarrow> u32 \<Rightarrow> u32 \<Rightarrow> u64 \<Rightarrow> u64 \<Rightarrow> event_array \<Rightarrow> u64 \<Rightarrow>
    (root_result \<times> event_array) res" where
  "decodeSlotRoots data sz l slotIndex format kind row derivedBase cap events i =
    (if slotIndex = 0 then Inr (RootResult STACKMAP_OK i 0, events)
     else if slotIndex > slotRecords l then Inr (RootResult STACKMAP_MALFORMED i 0, events)
     else ok_then (readBits data sz
         (slotData l + ucast (slotIndex - 1) * (ucast (slotBaseBits l) + ucast (slotBitmapBits l))) (slotBaseBits l))
       (\<lambda>c. (RootResult c i 0, events)) (\<lambda>v cursor. let baseBias = signedBase v (slotBaseBits l) in
         if format = PURE_COMPRESSED_STACKMAP
         then pure_loop data sz kind row derivedBase cap baseBias cursor (slotBitmapBits l) 0 0 events i
         else compressed_loop data sz kind row derivedBase cap baseBias cursor (slotBitmapBits l) 0 events i))"

function derived_loop :: "bool \<Rightarrow> u8 list \<Rightarrow> u64 \<Rightarrow> layout \<Rightarrow> u32 \<Rightarrow> u64 \<Rightarrow> u32 \<Rightarrow> u32 \<Rightarrow> u64 \<Rightarrow> u64 \<Rightarrow> event_array \<Rightarrow> u64 \<Rightarrow>
    (root_result \<times> event_array) res" where
  "derived_loop x86 data sz l derivedIndex baseRoots format row cap baseOrdinal events i =
    (if baseOrdinal < baseRoots then
       let fail = (\<lambda>c. (RootResult c i 0, events)) in
       ok_then (readBits data sz (derivedData l + (ucast (derivedIndex - 1) + baseOrdinal) *
           ucast (regIndexBits l + slotIndexBits l)) (regIndexBits l)) fail (\<lambda>regIndex cursor.
       ok_then (readBits data sz cursor (slotIndexBits l)) fail (\<lambda>slotIndex _.
       root_then (decodeRegRoots x86 data sz l regIndex STACKMAP_EVENT_DERIVED_REG_ROOT row baseOrdinal cap events i) rr_baseRoots
         (\<lambda>r events. root_then (decodeSlotRoots data sz l slotIndex format STACKMAP_EVENT_DERIVED_SLOT_ROOT row baseOrdinal
             cap events (rr_nextEvent r)) rr_baseRoots
           (\<lambda>r events. derived_loop x86 data sz l derivedIndex baseRoots format row cap (baseOrdinal + 1) events
             (rr_nextEvent r)))))
     else Inr (RootResult STACKMAP_OK i 0, events))"
  by pat_completeness auto

termination
  by (relation "measure (\<lambda>(x86, data, sz, l, d, n, format, row, cap, b, _). unat (n - b))") (simp_all add: u_step)

declare derived_loop.simps [simp del]

definition decodeDerived :: "bool \<Rightarrow> u8 list \<Rightarrow> u64 \<Rightarrow> layout \<Rightarrow> u32 \<Rightarrow> u64 \<Rightarrow> u32 \<Rightarrow> u32 \<Rightarrow> u64 \<Rightarrow> event_array \<Rightarrow> u64 \<Rightarrow>
    (root_result \<times> event_array) res" where
  "decodeDerived x86 data sz l derivedIndex baseRoots format row cap events i =
    (if derivedIndex = 0 \<or> baseRoots = 0 then Inr (RootResult STACKMAP_OK i 0, events)
     else if derivedIndex > derivedRecords l \<or> baseRoots > ucast (derivedRecords l - derivedIndex + 1)
     then Inr (RootResult STACKMAP_MALFORMED i 0, events)
     else derived_loop x86 data sz l derivedIndex baseRoots format row cap 0 events i)"

section \<open>One function\<close>

lemma drop_bit_less: "(bits :: u32) \<noteq> 0 \<Longrightarrow> unat (drop_bit (Suc 0) bits) < unat bits"
proof -
  assume "bits \<noteq> 0"
  then have "0 < unat bits" by (simp add: unat_gt_0)
  moreover have "unat (drop_bit (Suc 0) bits) = unat bits div 2" by (simp add: drop_bit_eq_div unat_div)
  ultimately show ?thesis by simp
qed

text \<open>The registers saved by the prologue; with \<open>STACKMAP_OK\<close> the last field is where the layout begins.\<close>

function prologue_loop :: "u8 list \<Rightarrow> u64 \<Rightarrow> u64 \<Rightarrow> u32 \<Rightarrow> u32 \<Rightarrow> u64 \<Rightarrow> event_array \<Rightarrow> u64 \<Rightarrow>
    (root_result \<times> event_array) res" where
  "prologue_loop data sz cap bits reg cursor events i =
    (if bits \<noteq> 0 then
       if bits AND 1 \<noteq> 0 then
         ok_then (readVarInt data sz cursor) (\<lambda>c. (RootResult c i 0, events)) (\<lambda>offset nextBit.
         root_then (emitEvent cap STACKMAP_EVENT_PROLOGUE 0 (ucast reg) (ucast offset) events i) rr_baseRoots
           (\<lambda>r events. prologue_loop data sz cap (drop_bit 1 bits) (reg + 1) nextBit events (rr_nextEvent r)))
       else prologue_loop data sz cap (drop_bit 1 bits) (reg + 1) cursor events i
     else Inr (RootResult STACKMAP_OK i cursor, events))"
  by pat_completeness auto

termination
  by (relation "measure (\<lambda>(data, sz, cap, bits, _). unat bits)") (simp_all add: drop_bit_less)

declare prologue_loop.simps [simp del]

definition decode_row :: "bool \<Rightarrow> u8 list \<Rightarrow> u64 \<Rightarrow> layout \<Rightarrow> u32 \<Rightarrow> u32 \<Rightarrow> index_set \<Rightarrow> u64 \<Rightarrow> event_array \<Rightarrow> u64 \<Rightarrow>
    (root_result \<times> event_array) res" where
  "decode_row x86 data sz l format pc ix cap events i =
    ok_then (if ix_line ix \<noteq> 0 then readTableRow data sz (lineData l) (lineRecords l) (lineBits l) (ix_line ix)
        else Inr (WordResult STACKMAP_OK 0 0)) (\<lambda>c. (RootResult c i 0, events)) (\<lambda>lineNumber _.
    root_then (emitEvent cap STACKMAP_EVENT_ROW pc (ucast pc) (ucast lineNumber) events i) rr_baseRoots (\<lambda>r events.
    root_then (decodeRegRoots x86 data sz l (ix_reg ix) STACKMAP_EVENT_REG_ROOT pc 0 cap events (rr_nextEvent r)) rr_baseRoots
      (\<lambda>regs events.
    root_then (decodeSlotRoots data sz l (ix_slot ix) format STACKMAP_EVENT_SLOT_ROOT pc 0 cap events (rr_nextEvent regs))
      rr_baseRoots (\<lambda>slots events.
    root_then (decodeDerived x86 data sz l (ix_derived ix) (rr_baseRoots regs + rr_baseRoots slots) format pc cap events
      (rr_nextEvent slots)) rr_baseRoots (\<lambda>derived events.
    root_then (decodeRegRoots x86 data sz l (ix_stackReg ix) STACKMAP_EVENT_STACK_REG_ROOT pc 0 cap events
      (rr_nextEvent derived)) rr_baseRoots (\<lambda>stackRegs events.
    decodeSlotRoots data sz l (ix_stackSlot ix) format STACKMAP_EVENT_STACK_SLOT_ROOT pc 0 cap events
      (rr_nextEvent stackRegs)))))))"

function row_loop :: "bool \<Rightarrow> u8 list \<Rightarrow> u64 \<Rightarrow> layout \<Rightarrow> u32 \<Rightarrow> u64 \<Rightarrow> u32 \<Rightarrow> event_array \<Rightarrow> u64 \<Rightarrow>
    (root_result \<times> event_array) res" where
  "row_loop x86 data sz l format cap row events i =
    (if row < stackMapRecords l then
       and_then (readIndexSet data sz l row) (\<lambda>(c, pc, ix).
         if c \<noteq> STACKMAP_OK then Inr (RootResult c i 0, events)
         else if ix_reg ix = 0 \<and> ix_slot ix = 0 \<and> ix_line ix = 0 \<and> ix_stackReg ix = 0 \<and> ix_stackSlot ix = 0
         then row_loop x86 data sz l format cap (row + 1) events i
         else root_then (decode_row x86 data sz l format pc ix cap events i) rr_baseRoots
           (\<lambda>r events. row_loop x86 data sz l format cap (row + 1) events (rr_nextEvent r)))
     else Inr (RootResult STACKMAP_OK i 0, events))"
  by pat_completeness auto

termination
  by (relation "measure (\<lambda>(x86, data, sz, l, format, cap, row, _). unat (stackMapRecords l - row))") (simp_all add: u_step)

declare row_loop.simps [simp del]

definition decode_function :: "bool \<Rightarrow> u8 list \<Rightarrow> u64 \<Rightarrow> u32 \<Rightarrow> u64 \<Rightarrow> event_array \<Rightarrow> u64 \<Rightarrow> (root_result \<times> event_array) res" where
  "decode_function x86 data sz stackGrowFlag cap events i = (let fail = (\<lambda>i events c. (RootResult c i 0, events)) in
    ok_then (readVarInt data sz 0) (fail i events) (\<lambda>stackSize cursor.
    ok_then (readVarInt data sz cursor) (fail i events) (\<lambda>format cursor.
    root_then (emitEvent cap STACKMAP_EVENT_HEADER 0 (ucast stackSize) (ucast format) events i) rr_baseRoots (\<lambda>r events.
    ok_then (readVarInt data sz cursor) (fail (rr_nextEvent r) events) (\<lambda>prologueMap cursor.
    root_then (prologue_loop data sz cap prologueMap 0 cursor events (rr_nextEvent r)) rr_baseRoots (\<lambda>r events.
    and_then (parseLayout data sz (rr_baseRoots r) (stackGrowFlag = 1)) (\<lambda>(c, l).
    if c \<noteq> STACKMAP_OK then Inr (fail (rr_nextEvent r) events c)
    else row_loop x86 data sz l format cap 0 events (rr_nextEvent r))))))))"

text \<open>The code, the count if the pointer to it may be written, and the array. A null pointer is \<open>None\<close>.\<close>

definition CJRT_StackMapDecode :: "bool \<Rightarrow> u8 list option \<Rightarrow> u64 \<Rightarrow> u32 \<Rightarrow> event_array \<Rightarrow> u64 \<Rightarrow> bool \<Rightarrow>
    (u32 \<times> u64 option \<times> event_array) res" where
  "CJRT_StackMapDecode x86 data sz stackGrowFlag events cap count_null = (case data of
      None \<Rightarrow> Inr (STACKMAP_INVALID_ARGUMENT, None, events)
    | Some bytes \<Rightarrow>
        if count_null \<or> stackGrowFlag \<noteq> 0 \<and> stackGrowFlag \<noteq> 1 then Inr (STACKMAP_INVALID_ARGUMENT, None, events)
        else and_then (decode_function x86 bytes sz stackGrowFlag cap events 0)
          (\<lambda>(r, events). Inr (rr_code r, Some (rr_nextEvent r), events)))"

section \<open>What is read\<close>

text \<open>The bits of the data, lowest first in each byte, and the number some of them are.\<close>

definition data_bit :: "u8 list \<Rightarrow> nat \<Rightarrow> bool" where
  "data_bit data k = bit (data ! (k div 8)) (k mod 8)"

definition data_word :: "u8 list \<Rightarrow> nat \<Rightarrow> nat \<Rightarrow> u32" where
  "data_word data k n = horner_sum of_bool 2 (map (data_bit data) [k..<k + n])"

lemma bit_data_word: "bit (data_word data k n) j \<longleftrightarrow> j < 32 \<and> j < n \<and> data_bit data (k + j)"
  by (auto simp: data_word_def bit_horner_sum_bit_iff)

lemma data_word_Suc: "n < 32 \<Longrightarrow> data_word data k (Suc n) = data_word data k n OR push_bit n (of_bool (data_bit data (k + n)))"
  by (rule bit_word_eqI) (auto simp: bit_data_word bit_or_iff bit_push_bit_iff less_Suc_eq bit_1_iff)

lemma read_byte_bit:
  assumes "k < 8 * length data" and "unat a = k"
  shows "\<exists>x. read_byte data (drop_bit 3 a) = Inr x \<and>
    drop_bit (unat (a AND 7)) (ucast x) AND 1 = (of_bool (data_bit data k) :: u32)"
proof -
  have d: "unat (drop_bit 3 a) = k div 8" using assms(2) by (simp add: drop_bit_eq_div unat_div)
  have "a AND 7 = take_bit 3 a" by (simp add: take_bit_eq_mask mask_eq_exp_minus_1)
  also have "\<dots> = a mod 8" by (simp add: take_bit_eq_mod)
  finally have m: "unat (a AND 7) = k mod 8" using assms(2) by (simp add: unat_mod)
  have lt: "k div 8 < length data" using assms(1) by (simp add: div_less_iff_less_mult)
  have "drop_bit (k mod 8) (ucast x) AND 1 = (of_bool (bit x (k mod 8)) :: u32)" for x :: u8
    by (rule bit_word_eqI) (auto simp: bit_and_iff bit_drop_bit_eq bit_ucast_iff bit_1_iff intro: gr0I dest: bit_imp_le_length)
  with d m lt show ?thesis by (simp add: read_byte_def data_bit_def)
qed

lemma read_bits_loop_word:
  assumes "unat b + n \<le> 8 * length data" and "unat b + n < 2 ^ 64" and "n \<le> 32" and "m \<le> n"
  shows "read_bits_loop data b [m..<n] (data_word data (unat b) m) = Inr (data_word data (unat b) n)"
  using assms(4)
proof (induction "n - m" arbitrary: m)
  case (Suc d)
  then have m: "m < n" "d = n - Suc m" by simp_all
  have "unat (b + of_nat m) = unat b + m"
    using m assms(2) by (simp add: unat_word_ariths unat_of_nat)
  moreover have "unat b + m < 8 * length data" using m(1) assms(1) by simp
  ultimately obtain x where
    x: "read_byte data (drop_bit 3 (b + of_nat m)) = Inr x"
    "drop_bit (unat ((b + of_nat m) AND 7)) (ucast x) AND 1 = (of_bool (data_bit data (unat b + m)) :: u32)"
    using read_byte_bit by blast
  have "read_bits_loop data b [Suc m..<n] (data_word data (unat b) (Suc m)) = Inr (data_word data (unat b) n)"
    using Suc.hyps(1) [OF m(2)] m(1) by simp
  then show ?case using m(1) assms(3) data_word_Suc [of m data "unat b"]
    by (simp only: upt_conv_Cons read_bits_loop.simps Let_def x and_then_simps)
qed simp

lemma readBits_reads:
  assumes "unat sz \<le> length data"
  shows "readBits data sz b n = Inr (if n > 32 \<or> sz > 0x1fffffffffffffff then WordResult STACKMAP_MALFORMED 0 b
    else if 8 * unat sz < unat b + unat n then WordResult STACKMAP_TRUNCATED 0 b
    else WordResult STACKMAP_OK (data_word data (unat b) (unat n)) (b + ucast n))"
proof (cases "n > 32 \<or> sz > 0x1fffffffffffffff")
  case False
  then have n: "unat n \<le> 32" "unat sz \<le> 0x1fffffffffffffff" by (auto simp: word_le_nat_alt not_less)
  then have t: "unat (sz * 8) = 8 * unat sz" by (simp add: unat_word_ariths mult.commute)
  have c: "b > sz * 8 \<or> ucast n > sz * 8 - b \<longleftrightarrow> 8 * unat sz < unat b + unat n"
  proof (cases "b > sz * 8")
    case True
    then show ?thesis using t by (simp add: word_less_nat_alt)
  next
    case le: False
    then have "unat (sz * 8 - b) = 8 * unat sz - unat b" using t by (simp add: unat_sub not_less)
    with le t show ?thesis by (auto simp: word_less_nat_alt unat_ucast_u32)
  qed
  have e: "data_word data (unat b) 0 = 0" by (simp add: data_word_def)
  show ?thesis
  proof (cases "8 * unat sz < unat b + unat n")
    case True
    with False c show ?thesis by (simp add: readBits_def Let_def)
  next
    case fit: False
    then have "read_bits_loop data b [0..<unat n] (data_word data (unat b) 0) = Inr (data_word data (unat b) (unat n))"
      using assms n by (intro read_bits_loop_word) auto
    with False fit c e show ?thesis by (simp add: readBits_def Let_def)
  qed
qed (simp add: readBits_def)

lemma readBits_ok: "unat sz \<le> length data \<Longrightarrow> \<exists>w. readBits data sz b n = Inr w"
  by (simp add: readBits_reads)

lemma readVarInt_ok: "unat sz \<le> length data \<Longrightarrow> \<exists>w. readVarInt data sz b = Inr w"
  by (auto simp: readVarInt_def readBits_reads)

lemma readTableRow_ok: "unat sz \<le> length data \<Longrightarrow> \<exists>w. readTableRow data sz t n k ix = Inr w"
  by (simp add: readTableRow_def readBits_reads)

section \<open>Runs of events\<close>

text \<open>
  What every part of the decoder does: it has some events, a code and a number of roots, which do not
  depend on where the events go. Without an array it counts them; with one it writes them from the
  next free place on, and stops with \<open>STACKMAP_NO_SPACE\<close> when the capacity is used up.
\<close>

definition placed :: "'a list \<Rightarrow> nat \<Rightarrow> 'a list \<Rightarrow> 'a list" where
  "placed A k es = take k A @ es @ drop (k + length es) A"

lemma length_placed: "k + length es \<le> length A \<Longrightarrow> length (placed A k es) = length A"
  by (simp add: placed_def)

lemma placed_Nil [simp]: "placed A k [] = A"
  by (simp add: placed_def)

lemma placed_append:
  "k + length es + length es' \<le> length A \<Longrightarrow> placed (placed A k es) (k + length es) es' = placed A k (es @ es')"
  by (simp add: placed_def min_absorb2 ac_simps)

lemma placed_one: "k < length A \<Longrightarrow> A[k := e] = placed A k [e]"
  by (simp add: placed_def upd_conv_take_nth_drop)

type_synonym emitter = "event_array \<Rightarrow> u64 \<Rightarrow> (root_result \<times> event_array) res"

definition yields :: "u64 \<Rightarrow> emitter \<Rightarrow> stack_event list \<Rightarrow> u32 \<Rightarrow> u64 \<Rightarrow> bool" where
  "yields cap f es c r \<longleftrightarrow> (\<forall>i. f None i = Inr (RootResult c (i + of_nat (length es)) r, None)) \<and>
    (\<forall>A i. unat cap \<le> length A \<longrightarrow> unat cap \<le> 2 ^ 63 \<longrightarrow> unat i \<le> unat cap \<longrightarrow>
      (if unat i + length es \<le> unat cap
       then f (Some A) i = Inr (RootResult c (i + of_nat (length es)) r, Some (placed A (unat i) es))
       else \<exists>r'. f (Some A) i = Inr (RootResult STACKMAP_NO_SPACE cap r',
         Some (placed A (unat i) (take (unat cap - unat i) es)))))"

lemma NO_SPACE_not_OK [simp]: "STACKMAP_NO_SPACE \<noteq> STACKMAP_OK"
  by (simp add: STACKMAP_NO_SPACE_def STACKMAP_OK_def)

lemma yields_return: "yields cap (\<lambda>events i. Inr (RootResult c i r, events)) [] c r"
  by (simp add: yields_def)

lemma yields_emit:
  "yields cap (emitEvent cap kind row v0 v1) [\<lparr>ev_kind = kind, ev_row = row, ev_value0 = v0, ev_value1 = v1\<rparr>] STACKMAP_OK 0"
proof -
  have m: "i > 0x7fffffffffffffff \<longleftrightarrow> 2 ^ 63 \<le> unat i" for i :: u64 by (auto simp: word_less_nat_alt)
  show ?thesis
    unfolding yields_def emitEvent_def m
    by (auto simp: word_le_nat_alt placed_one not_le Suc_le_eq word_unat_eq_iff intro: exI [of _ 0])
qed

lemma yields_cong: "(\<And>events i. f events i = g events i) \<Longrightarrow> yields cap f es c r = yields cap g es c r"
  by (simp add: yields_def)

lemma unat_plus_length: "unat (i :: u64) + n \<le> unat (cap :: u64) \<Longrightarrow> unat (i + of_nat n) = unat i + n"
proof -
  assume a: "unat i + n \<le> unat cap"
  have "unat cap < 2 ^ 64" using unsigned_less [of cap] by simp
  with a show ?thesis by (simp add: unat_word_ariths unat_of_nat)
qed

lemma yields_count: "yields cap f es c r \<Longrightarrow> f None i = Inr (RootResult c (i + of_nat (length es)) r, None)"
  by (simp add: yields_def)

lemma yields_fits:
  "yields cap f es c r \<Longrightarrow> unat cap \<le> length A \<Longrightarrow> unat cap \<le> 2 ^ 63 \<Longrightarrow> unat i + length es \<le> unat cap \<Longrightarrow>
    f (Some A) i = Inr (RootResult c (i + of_nat (length es)) r, Some (placed A (unat i) es))"
  by (simp add: yields_def)

lemma yields_full:
  assumes "yields cap f es c r" and "unat cap \<le> length A" and "unat cap \<le> 2 ^ 63" and "unat i \<le> unat cap"
    and "\<not> unat i + length es \<le> unat cap"
  obtains r' where "f (Some A) i = Inr (RootResult STACKMAP_NO_SPACE cap r',
    Some (placed A (unat i) (take (unat cap - unat i) es)))"
  using assms unfolding yields_def by (metis (no_types, lifting))

lemma yields_then:
  assumes f: "yields cap f es STACKMAP_OK r" and k: "yields cap (k r) es' c r'"
  shows "yields cap (\<lambda>events i. root_then (f events i) h (\<lambda>x events. k (rr_baseRoots x) events (rr_nextEvent x))) (es @ es') c r'"
  unfolding yields_def
proof (intro conjI allI impI)
  fix i
  show "root_then (f None i) h (\<lambda>x events. k (rr_baseRoots x) events (rr_nextEvent x)) =
      Inr (RootResult c (i + of_nat (length (es @ es'))) r', None)"
    using f k by (simp add: yields_def root_then_def add.assoc)
next
  fix A :: "stack_event list" and i :: u64 assume A: "unat cap \<le> length A" "unat cap \<le> 2 ^ 63" "unat i \<le> unat cap"
  let ?lhs = "root_then (f (Some A) i) h (\<lambda>x events. k (rr_baseRoots x) events (rr_nextEvent x))"
  show "if unat i + length (es @ es') \<le> unat cap
      then ?lhs = Inr (RootResult c (i + of_nat (length (es @ es'))) r', Some (placed A (unat i) (es @ es')))
      else \<exists>r''. ?lhs = Inr (RootResult STACKMAP_NO_SPACE cap r'',
        Some (placed A (unat i) (take (unat cap - unat i) (es @ es'))))"
  proof (cases "unat i + length es \<le> unat cap")
    case True
    let ?j = "i + of_nat (length es)"
    have j: "unat ?j = unat i + length es" by (rule unat_plus_length [OF True])
    have fa: "f (Some A) i = Inr (RootResult STACKMAP_OK ?j r, Some (placed A (unat i) es))"
      using f A True by (simp add: yields_def)
    have l: "length (placed A (unat i) es) = length A" using True A(1) by (intro length_placed) simp
    have ka: "if unat ?j + length es' \<le> unat cap
      then k r (Some (placed A (unat i) es)) ?j =
        Inr (RootResult c (?j + of_nat (length es')) r', Some (placed (placed A (unat i) es) (unat ?j) es'))
      else \<exists>r''. k r (Some (placed A (unat i) es)) ?j = Inr (RootResult STACKMAP_NO_SPACE cap r'',
        Some (placed (placed A (unat i) es) (unat ?j) (take (unat cap - unat ?j) es')))"
      using k [unfolded yields_def, THEN conjunct2, rule_format, of "placed A (unat i) es" ?j] A l True j by simp
    have e: "?lhs = k r (Some (placed A (unat i) es)) ?j" by (simp add: root_then_def fa)
    show ?thesis
    proof (cases "unat ?j + length es' \<le> unat cap")
      case True
      with ka e j A(1) show ?thesis by (simp add: placed_append add.assoc)
    next
      case False
      have "placed (placed A (unat i) es) (unat ?j) (take (unat cap - unat ?j) es') =
          placed A (unat i) (take (unat cap - unat i) (es @ es'))"
        using True A(1) unfolding j by (subst placed_append) (auto simp: min_def)
      with False ka e j show ?thesis by auto
    qed
  next
    case False
    from yields_full [OF f A False] obtain r'' where "f (Some A) i = Inr (RootResult STACKMAP_NO_SPACE cap r'',
        Some (placed A (unat i) (take (unat cap - unat i) es)))" by blast
    with False show ?thesis by (simp add: root_then_def)
  qed
qed

lemma yields_stop:
  assumes f: "yields cap f es c r" and c: "c \<noteq> STACKMAP_OK" and h: "\<And>c i. h (RootResult c i r) = r'"
  shows "yields cap (\<lambda>events i. root_then (f events i) h k) es c r'"
  unfolding yields_def
proof (intro conjI allI impI)
  fix A :: "stack_event list" and i :: u64 assume A: "unat cap \<le> length A" "unat cap \<le> 2 ^ 63" "unat i \<le> unat cap"
  show "if unat i + length es \<le> unat cap
      then root_then (f (Some A) i) h k = Inr (RootResult c (i + of_nat (length es)) r', Some (placed A (unat i) es))
      else \<exists>r''. root_then (f (Some A) i) h k = Inr (RootResult STACKMAP_NO_SPACE cap r'',
        Some (placed A (unat i) (take (unat cap - unat i) es)))"
  proof (cases "unat i + length es \<le> unat cap")
    case True
    with yields_fits [OF f A(1,2) True] c h show ?thesis by (simp add: root_then_def)
  next
    case False
    from yields_full [OF f A False] obtain r'' where "f (Some A) i = Inr (RootResult STACKMAP_NO_SPACE cap r'',
        Some (placed A (unat i) (take (unat cap - unat i) es)))" by blast
    with False show ?thesis by (simp add: root_then_def)
  qed
qed (use f c h in \<open>simp add: yields_def root_then_def\<close>)

definition emits :: "u64 \<Rightarrow> emitter \<Rightarrow> bool" where
  "emits cap f \<longleftrightarrow> (\<exists>es c r. yields cap f es c r)"

lemma emits_return [intro]: "emits cap (\<lambda>events i. Inr (RootResult c i r, events))"
  unfolding emits_def by (intro exI) (rule yields_return)

lemma emits_emit [intro]: "emits cap (\<lambda>events i. emitEvent cap kind row v0 v1 events i)"
  unfolding emits_def by (intro exI) (rule yields_emit)

lemma emits_then [intro]:
  assumes f: "emits cap f" and k: "\<And>r. emits cap (k r)" and h: "\<And>c i r. h (RootResult c i r) = g r"
  shows "emits cap (\<lambda>events i. root_then (f events i) h (\<lambda>x events. k (rr_baseRoots x) events (rr_nextEvent x)))"
proof -
  from f obtain es c r where y: "yields cap f es c r" by (auto simp: emits_def)
  show ?thesis
  proof (cases "c = STACKMAP_OK")
    case True
    from k [of r] obtain es' c' r' where "yields cap (k r) es' c' r'" by (auto simp: emits_def)
    from yields_then [where k = k, OF y [unfolded True] this] show ?thesis by (auto simp: emits_def)
  next
    case False
    from yields_stop [where h = h and r' = "g r", OF y this h] show ?thesis by (auto simp: emits_def)
  qed
qed

lemma emits_read [intro]:
  assumes "\<exists>w. r = Inr w" and "\<And>v n. emits cap (k v n)"
  shows "emits cap (\<lambda>events i. ok_then r (\<lambda>c. (RootResult c i roots, events)) (\<lambda>v n. k v n events i))"
proof -
  from assms(1) obtain w where w: "r = Inr w" by blast
  show ?thesis
  proof (cases "wr_code w = STACKMAP_OK")
    case True
    with w assms(2) show ?thesis by (simp add: ok_then_def)
  next
    case False
    with w show ?thesis by (simp add: ok_then_def emits_return)
  qed
qed

lemma emits_sub_slots: "emits cap (\<lambda>events i. sub_slots kind row db cap reg roots ss events i)"
proof (induction ss)
  case (Cons s ss)
  show ?case unfolding sub_slots.simps
    by (rule emits_then [where k = "\<lambda>_. sub_slots kind row db cap reg roots ss"]) (use Cons in auto)
qed auto

lemma emits_ext: "(\<And>events i. f events i = g events i) \<Longrightarrow> emits cap g \<Longrightarrow> emits cap f"
proof -
  assume "\<And>events i. f events i = g events i"
  then have "f = g" by (intro ext)
  then show "emits cap g \<Longrightarrow> emits cap f" by simp
qed

lemma emits_if [intro]:
  "(P \<Longrightarrow> emits cap f) \<Longrightarrow> (\<not> P \<Longrightarrow> emits cap g) \<Longrightarrow> emits cap (\<lambda>events i. if P then f events i else g events i)"
  by (cases P) simp_all

lemma emits_reg_loop: "emits cap (\<lambda>events i. reg_loop x86 kind row db cap width bm b roots events i)"
proof (induction "unat (width - b)" arbitrary: b bm roots rule: less_induct)
  case less
  show ?case
  proof (cases "bm \<noteq> 0 \<and> b < width")
    case True
    note IH = less.hyps [OF u_step [OF conjunct2 [OF True]]]
    show ?thesis
      by (rule emits_ext [OF reg_loop.simps], simp only: True if_True simp_thms)
        (intro emits_if emits_then [where k = "\<lambda>_. reg_loop x86 kind row db cap width (drop_bit 1 bm) (b + 1)
          (if isBaseRegister x86 b then roots + 1 else roots)"] emits_sub_slots IH, simp)
  next
    case False
    then show ?thesis by (intro emits_ext [OF reg_loop.simps]) auto
  qed
qed

lemma emits_decodeRegRoots:
  assumes "unat sz \<le> length data"
  shows "emits cap (\<lambda>events i. decodeRegRoots x86 data sz l ix kind row db cap events i)"
  unfolding decodeRegRoots_def
  by (intro emits_if emits_return emits_read emits_reg_loop readTableRow_ok assms)

lemma emits_emitSlot: "emits cap (\<lambda>events i. emitSlot cap kind row db bias events i)"
  unfolding emitSlot_def
  by (intro emits_then [where k = "\<lambda>r events i. Inr (RootResult STACKMAP_OK i 1, events)"] emits_emit emits_return) simp

lemma emits_chunk_loop:
  "emits cap (\<lambda>events i. chunk_loop kind row db cap base s n chunk b roots events i)"
proof (induction "unat (n - b)" arbitrary: b chunk roots rule: less_induct)
  case less
  show ?case
  proof (cases "chunk \<noteq> 0 \<and> b < n")
    case True
    note IH = less.hyps [OF u_step [OF conjunct2 [OF True]]]
    show ?thesis
      by (rule emits_ext [OF chunk_loop.simps], simp only: True if_True simp_thms)
        (intro emits_if emits_then [where k = "\<lambda>_. chunk_loop kind row db cap base s n (drop_bit 1 chunk) (b + 1) (roots + 1)"]
          emits_emitSlot IH, simp)
  next
    case False
    then show ?thesis by (intro emits_ext [OF chunk_loop.simps]) auto
  qed
qed

lemma emits_allref_loop:
  "emits cap (\<lambda>events i. allref_loop kind row db cap base n b roots events i)"
proof (induction "unat (n - b)" arbitrary: b roots rule: less_induct)
  case less
  show ?case
  proof (cases "b < n")
    case True
    note IH = less.hyps [OF u_step [OF True]]
    show ?thesis
      by (rule emits_ext [OF allref_loop.simps], simp only: True if_True)
        (intro emits_then [where k = "\<lambda>_. allref_loop kind row db cap base n (b + 1) (roots + 1)"]
          emits_emitSlot IH, simp)
  next
    case False
    then show ?thesis by (intro emits_ext [OF allref_loop.simps]) auto
  qed
qed

lemma emits_pure_loop:
  assumes "unat sz \<le> length data"
  shows "emits cap (\<lambda>events i. pure_loop data sz kind row db cap base cursor remain s roots events i)"
proof (induction "unat remain" arbitrary: remain cursor s roots rule: less_induct)
  case less
  show ?case
  proof (cases "remain = 0")
    case False
    let ?n = "if remain < 32 then remain else 32 :: u32"
    have "unat ?n \<le> unat remain" "0 < unat ?n" "?n \<le> remain"
      using False by (auto simp: word_less_nat_alt word_le_nat_alt not_less unat_gt_0)
    then have "unat (remain - ?n) < unat remain" by (simp only: unat_sub diff_less)
    note IH = less.hyps [OF this]
    show ?thesis
      by (rule emits_ext [OF pure_loop.simps], simp only: False if_True Let_def not_False_eq_True)
        (intro emits_read readBits_ok assms emits_then [where k = "\<lambda>r. pure_loop data sz kind row db cap base nx (remain - ?n)
          (s + ucast ?n) r" for nx] emits_chunk_loop IH, simp)
  next
    case True
    then show ?thesis by (intro emits_ext [OF pure_loop.simps]) auto
  qed
qed

lemma emits_compressed_loop:
  assumes "unat sz \<le> length data"
  shows "emits cap (\<lambda>events i. compressed_loop data sz kind row db cap base cursor remain roots events i)"
proof (induction "unat remain" arbitrary: remain cursor base roots rule: less_induct)
  case less
  show ?case
  proof (cases "remain = 0")
    case False
    have IH: "emits cap (compressed_loop data sz kind row db cap base' cur (remain - 1 - x) roots')" if "x \<le> remain - 1" for base' cur x roots'
      by (rule less.hyps [OF unat_sub_less [OF False that]])
    show ?thesis
    proof (rule emits_ext [OF compressed_loop.simps], simp only: False if_True Let_def not_False_eq_True,
        intro emits_read readBits_ok [OF assms] readVarInt_ok [OF assms] emits_if emits_return, goal_cases)
      case (1 tag cur raw cur2)
      have "emits cap (compressed_loop data sz kind row db cap b cur2 (remain - 1 -
          (if remain - 1 < 31 then remain - 1 else 31)) r)" for b r by (rule IH) (simp add: not_less)
      then show ?case
        by (intro emits_then [where k = "compressed_loop data sz kind row db cap (base + 31 * SLOT_BYTES) cur2
          (remain - 1 - (if remain - 1 < 31 then remain - 1 else 31))"] emits_chunk_loop) simp_all
    next
      case (2 tag cur allRef cur2 v nx)
      then have ne: "remain - 1 \<noteq> 0" and u: "\<not> nx - cur2 > ucast (remain - 1 - 1)" by auto
      have IH2: "emits cap (compressed_loop data sz kind row db cap b nx (remain - 1 - 1 - ucast (nx - cur2)) r)" for b r
      proof (rule less.hyps)
        have "ucast (nx - cur2) \<le> remain - 1 - 1" using u by (intro ucast_le_down) (simp add: not_less)
        from unat_sub_less [OF ne this] unat_minus_one_Suc [OF False]
        show "unat (remain - 1 - 1 - ucast (nx - cur2)) < unat remain" by simp
      qed
      show ?case
        by (intro emits_then [where k = "compressed_loop data sz kind row db cap (base + ucast v * 31 * SLOT_BYTES) nx
          (remain - 1 - 1 - ucast (nx - cur2))"] emits_if emits_allref_loop emits_return IH2) simp
    qed
  next
    case True
    then show ?thesis by (intro emits_ext [OF compressed_loop.simps]) auto
  qed
qed

lemma emits_decodeSlotRoots:
  assumes "unat sz \<le> length data"
  shows "emits cap (\<lambda>events i. decodeSlotRoots data sz l ix format kind row db cap events i)"
  unfolding decodeSlotRoots_def Let_def
  by (intro emits_if emits_return emits_read readBits_ok [OF assms] emits_pure_loop [OF assms]
      emits_compressed_loop [OF assms])

lemma emits_derived_loop:
  assumes "unat sz \<le> length data"
  shows "emits cap (\<lambda>events i. derived_loop x86 data sz l d n format row cap b events i)"
proof (induction "unat (n - b)" arbitrary: b rule: less_induct)
  case less
  show ?case
  proof (cases "b < n")
    case True
    note IH = less.hyps [OF u_step [OF True]]
    have inner: "emits cap (\<lambda>events i. root_then (decodeSlotRoots data sz l ix format STACKMAP_EVENT_DERIVED_SLOT_ROOT row b
        cap events i) rr_baseRoots (\<lambda>r events. derived_loop x86 data sz l d n format row cap (b + 1) events (rr_nextEvent r)))" for ix
      by (intro emits_then [where k = "\<lambda>_. derived_loop x86 data sz l d n format row cap (b + 1)"]
          emits_decodeSlotRoots [OF assms] IH) simp
    show ?thesis
      by (rule emits_ext [OF derived_loop.simps], simp only: True if_True Let_def)
        (intro emits_read readBits_ok [OF assms] emits_then [where k = "\<lambda>_ events i. root_then (decodeSlotRoots data sz l ix
            format STACKMAP_EVENT_DERIVED_SLOT_ROOT row b cap events i) rr_baseRoots
            (\<lambda>r events. derived_loop x86 data sz l d n format row cap (b + 1) events (rr_nextEvent r))" for ix]
          emits_decodeRegRoots [OF assms] inner, simp)
  next
    case False
    then show ?thesis by (intro emits_ext [OF derived_loop.simps]) auto
  qed
qed

lemma emits_decodeDerived:
  assumes "unat sz \<le> length data"
  shows "emits cap (\<lambda>events i. decodeDerived x86 data sz l d n format row cap events i)"
  unfolding decodeDerived_def by (intro emits_if emits_return emits_derived_loop [OF assms])

lemma emits_prologue_loop:
  assumes "unat sz \<le> length data"
  shows "emits cap (\<lambda>events i. prologue_loop data sz cap bits reg cursor events i)"
proof (induction "unat bits" arbitrary: bits reg cursor rule: less_induct)
  case less
  show ?case
  proof (cases "bits = 0")
    case False
    have "unat (drop_bit 1 bits) < unat bits" using drop_bit_less [OF False] by simp
    note IH = less.hyps [OF this]
    show ?thesis
      by (rule emits_ext [OF prologue_loop.simps], simp only: False if_True not_False_eq_True)
        (intro emits_if emits_read readVarInt_ok [OF assms] emits_emit IH
          emits_then [where k = "\<lambda>_. prologue_loop data sz cap (drop_bit 1 bits) (reg + 1) nx" for nx], simp)
  next
    case True
    then show ?thesis by (intro emits_ext [OF prologue_loop.simps]) auto
  qed
qed

lemma emits_decode_row:
  assumes "unat sz \<le> length data"
  shows "emits cap (\<lambda>events i. decode_row x86 data sz l format pc ix cap events i)"
proof -
  note parts = emits_decodeRegRoots [OF assms] emits_decodeSlotRoots [OF assms] emits_decodeDerived [OF assms]
  let ?reg = "\<lambda>kind j events i. decodeRegRoots x86 data sz l j kind pc 0 cap events i"
  let ?slot = "\<lambda>kind j events i. decodeSlotRoots data sz l j format kind pc 0 cap events i"
  let ?k4 = "\<lambda>_. ?slot STACKMAP_EVENT_STACK_SLOT_ROOT (ix_stackSlot ix)"
  let ?k3 = "\<lambda>_ events i. root_then (?reg STACKMAP_EVENT_STACK_REG_ROOT (ix_stackReg ix) events i) rr_baseRoots
    (\<lambda>r events. ?k4 (rr_baseRoots r) events (rr_nextEvent r))"
  let ?k2 = "\<lambda>n m events i. root_then (decodeDerived x86 data sz l (ix_derived ix) (n + m) format pc cap events i) rr_baseRoots
    (\<lambda>r events. ?k3 (rr_baseRoots r) events (rr_nextEvent r))"
  let ?k1 = "\<lambda>n events i. root_then (?slot STACKMAP_EVENT_SLOT_ROOT (ix_slot ix) events i) rr_baseRoots
    (\<lambda>r events. ?k2 n (rr_baseRoots r) events (rr_nextEvent r))"
  let ?k0 = "\<lambda>_ events i. root_then (?reg STACKMAP_EVENT_REG_ROOT (ix_reg ix) events i) rr_baseRoots
    (\<lambda>r events. ?k1 (rr_baseRoots r) events (rr_nextEvent r))"
  have "emits cap (?k3 r)" for r by (intro emits_then [where k = ?k4] parts) simp
  then have "emits cap (?k2 n m)" for n m by (intro emits_then [where k = ?k3] parts) simp_all
  then have "emits cap (?k1 n)" for n by (intro emits_then [where k = "?k2 n"] parts) simp_all
  then have "emits cap (?k0 r)" for r by (intro emits_then [where k = ?k1] parts) simp_all
  then show ?thesis
    unfolding decode_row_def
    by (intro emits_read emits_then [where k = ?k0] emits_emit) (auto simp: readTableRow_ok [OF assms])
qed

lemma ok_then_ok:
  assumes "\<exists>w. r = Inr w" and "\<And>v n. \<exists>x. k v n = Inr x"
  shows "\<exists>x. ok_then r fail k = Inr x"
  using assms by (auto simp: ok_then_def)

lemma parsed_then_ok:
  assumes "\<exists>w. r = Inr w" and "\<And>l n. \<exists>x. k l n = Inr x"
  shows "\<exists>x. parsed_then r k = Inr x"
  using assms by (auto simp: parsed_then_def)

lemma if_ok: "\<exists>x. a = Inr x \<Longrightarrow> \<exists>x. b = Inr x \<Longrightarrow> \<exists>x. (if P then a else b) = Inr x"
  by simp

lemma Inr_ok: "\<exists>x. Inr y = Inr x"
  by simp

lemma reads_ok:
  assumes "unat sz \<le> length data"
  shows "\<exists>x. parse_map data sz grow n l cur = Inr x" and "\<exists>x. parse_regs data sz l cur = Inr x"
    and "\<exists>x. parse_slots data sz l cur = Inr x" and "\<exists>x. parse_lines data sz l cur = Inr x"
    and "\<exists>x. parse_derived data sz l cur = Inr x" and "\<exists>x. readIndexSet data sz l row = Inr x"
proof -
  note ok = ok_then_ok readVarInt_ok [OF assms] readBits_ok [OF assms]
  show "\<exists>x. parse_map data sz grow n l cur = Inr x"
    unfolding parse_map_def Let_def by (intro ok if_ok Inr_ok)
  show "\<exists>x. parse_regs data sz l cur = Inr x"
    unfolding parse_regs_def Let_def by (intro ok if_ok Inr_ok)
  show "\<exists>x. parse_slots data sz l cur = Inr x"
    unfolding parse_slots_def Let_def by (intro ok if_ok Inr_ok)
  show "\<exists>x. parse_lines data sz l cur = Inr x"
    unfolding parse_lines_def Let_def by (intro ok if_ok Inr_ok)
  show "\<exists>x. parse_derived data sz l cur = Inr x"
    unfolding parse_derived_def Let_def by (intro ok if_ok Inr_ok)
  show "\<exists>x. readIndexSet data sz l row = Inr x"
    unfolding readIndexSet_def Let_def by (intro ok Inr_ok)
qed

lemma parseLayout_ok:
  assumes "unat sz \<le> length data"
  shows "\<exists>x. parseLayout data sz b grow = Inr x"
proof -
  have "\<exists>x. parsed_then (parse_map data sz grow n l cur) (\<lambda>l cur. parsed_then (parse_regs data sz l cur) (\<lambda>l cur.
      parsed_then (parse_slots data sz l cur) (\<lambda>l cur. parsed_then (parse_lines data sz l cur) (parse_derived data sz)))) =
      Inr x" for n l cur
    by (intro parsed_then_ok reads_ok assms)
  then have "\<exists>x. and_then (parsed_then (parse_map data sz grow n l cur) (\<lambda>l cur. parsed_then (parse_regs data sz l cur)
      (\<lambda>l cur. parsed_then (parse_slots data sz l cur) (\<lambda>l cur. parsed_then (parse_lines data sz l cur)
      (parse_derived data sz))))) (\<lambda>(c, l, cur). Inr (c, l)) = Inr x" for n l cur
    by (metis (no_types, lifting) and_then_simps(2) case_prod_conv prod_cases3)
  then show ?thesis
    unfolding parseLayout_def Let_def by (intro ok_then_ok readVarInt_ok assms if_ok Inr_ok)
qed

lemma emits_case_ok:
  assumes "\<exists>w. r = Inr w" and "\<And>x. emits cap (k x)"
  shows "emits cap (\<lambda>events i. and_then r (\<lambda>x. k x events i))"
  using assms by auto

lemma emits_row_loop:
  assumes "unat sz \<le> length data"
  shows "emits cap (\<lambda>events i. row_loop x86 data sz l format cap row events i)"
proof (induction "unat (stackMapRecords l - row)" arbitrary: row rule: less_induct)
  case less
  show ?case
  proof (cases "row < stackMapRecords l")
    case True
    note IH = less.hyps [OF u_step [OF True]]
    let ?k = "row_loop x86 data sz l format cap (row + 1)"
    have "emits cap (\<lambda>events i. case x of (c, pc, ix) \<Rightarrow>
        if c \<noteq> STACKMAP_OK then Inr (RootResult c i 0, events)
        else if ix_reg ix = 0 \<and> ix_slot ix = 0 \<and> ix_line ix = 0 \<and> ix_stackReg ix = 0 \<and> ix_stackSlot ix = 0
        then ?k events i
        else root_then (decode_row x86 data sz l format pc ix cap events i) rr_baseRoots
          (\<lambda>r events. ?k events (rr_nextEvent r)))" for x
      by (cases x, simp only: prod.case)
        (intro emits_if emits_return IH emits_then [where k = "\<lambda>_. ?k"] emits_decode_row [OF assms], simp)
    then show ?thesis
      by (intro emits_ext [OF row_loop.simps], simp only: True if_True) (intro emits_case_ok reads_ok(6) assms)
  next
    case False
    then show ?thesis by (intro emits_ext [OF row_loop.simps]) auto
  qed
qed

lemma emits_decode_function:
  assumes "unat sz \<le> length data"
  shows "emits cap (\<lambda>events i. decode_function x86 data sz grow cap events i)"
proof -
  let ?k2 = "\<lambda>format cursor events i. and_then (parseLayout data sz cursor (grow = 1)) (\<lambda>(c, l).
      if c \<noteq> STACKMAP_OK then Inr (RootResult c i 0, events) else row_loop x86 data sz l format cap 0 events i)"
  let ?k1 = "\<lambda>format cursor _ events i. ok_then (readVarInt data sz cursor) (\<lambda>c. (RootResult c i 0, events)) (\<lambda>m cursor.
      root_then (prologue_loop data sz cap m 0 cursor events i) rr_baseRoots
        (\<lambda>r events. ?k2 format (rr_baseRoots r) events (rr_nextEvent r)))"
  have "emits cap (?k2 format cursor)" for format cursor
  proof -
    from parseLayout_ok [OF assms] obtain c l where "parseLayout data sz cursor (grow = 1) = Inr (c, l)" by fastforce
    then show ?thesis
      by (simp only: and_then_simps prod.case) (intro emits_if emits_return emits_row_loop [OF assms])
  qed
  then have "emits cap (?k1 format cursor r)" for format cursor r
    by (intro emits_read readVarInt_ok assms emits_then [where k = "?k2 format"] emits_prologue_loop) simp_all
  note k1 = this
  show ?thesis
    unfolding decode_function_def Let_def
    by (rule emits_read [OF readVarInt_ok [OF assms]])+
      (rule emits_then [where k = "?k1 format cursor" for format cursor, OF emits_emit k1], simp)
qed

text \<open>
  C13. The decoder on any bytes, well-formed or not: it reads none outside the size given, writes none outside
  the capacity, and returns. What it has to say is one list of events and a code. A call without an
  array returns that code and counts the events; a call with enough room writes exactly them, says the
  same and leaves the rest of the array; one with less room fills it with the first of them and
  returns \<open>STACKMAP_NO_SPACE\<close>.
\<close>

theorem StackMapDecode_writes_events:
  assumes "unat sz \<le> length data" and "grow = 0 \<or> grow = 1"
  shows "\<exists>es code. CJRT_StackMapDecode x86 (Some data) sz grow None cap False = Inr (code, Some (of_nat (length es)), None) \<and>
    (\<forall>A. unat cap \<le> length A \<longrightarrow> unat cap \<le> 2 ^ 63 \<longrightarrow>
      CJRT_StackMapDecode x86 (Some data) sz grow (Some A) cap False =
        (if length es \<le> unat cap then Inr (code, Some (of_nat (length es)), Some (es @ drop (length es) A))
         else Inr (STACKMAP_NO_SPACE, Some cap, Some (take (unat cap) es @ drop (unat cap) A))))"
proof -
  from emits_decode_function [OF assms(1), of cap x86 grow] obtain es c r where
    y: "yields cap (decode_function x86 data sz grow cap) es c r" by (auto simp: emits_def)
  have g: "\<not> (False \<or> grow \<noteq> 0 \<and> grow \<noteq> 1)" using assms(2) by auto
  have "CJRT_StackMapDecode x86 (Some data) sz grow None cap False = Inr (c, Some (of_nat (length es)), None)"
    using yields_count [OF y, of 0] g by (simp add: CJRT_StackMapDecode_def)
  moreover have "CJRT_StackMapDecode x86 (Some data) sz grow (Some A) cap False =
        (if length es \<le> unat cap then Inr (c, Some (of_nat (length es)), Some (es @ drop (length es) A))
         else Inr (STACKMAP_NO_SPACE, Some cap, Some (take (unat cap) es @ drop (unat cap) A)))"
    if A: "unat cap \<le> length A" "unat cap \<le> 2 ^ 63" for A
  proof (cases "length es \<le> unat cap")
    case True
    with yields_fits [OF y A, of 0] g show ?thesis by (simp add: CJRT_StackMapDecode_def placed_def)
  next
    case False
    then have "\<not> unat (0 :: u64) + length es \<le> unat cap" by simp
    from yields_full [OF y A _ this] obtain r' where "decode_function x86 data sz grow cap (Some A) 0 =
        Inr (RootResult STACKMAP_NO_SPACE cap r', Some (placed A 0 (take (unat cap) es)))" by auto
    moreover have "placed A 0 (take (unat cap) es) = take (unat cap) es @ drop (unat cap) A"
      using False by (simp add: placed_def min_absorb2)
    ultimately show ?thesis using False g by (simp add: CJRT_StackMapDecode_def)
  qed
  ultimately show ?thesis by blast
qed

theorem StackMapDecode_writes_events_witness:
  "\<exists>es code. CJRT_StackMapDecode True (Some [8, 49, 17]) 3 0 None 2 False = Inr (code, Some (of_nat (length es)), None) \<and>
    (\<forall>A. unat (2 :: u64) \<le> length A \<longrightarrow> unat (2 :: u64) \<le> 2 ^ 63 \<longrightarrow>
      CJRT_StackMapDecode True (Some [8, 49, 17]) 3 0 (Some A) 2 False =
        (if length es \<le> unat (2 :: u64) then Inr (code, Some (of_nat (length es)), Some (es @ drop (length es) A))
         else Inr (STACKMAP_NO_SPACE, Some 2, Some (take (unat (2 :: u64)) es @ drop (unat (2 :: u64)) A))))"
  by (rule StackMapDecode_writes_events) simp_all

end
