(* ===== verification/StackMapEvents.thy ===== *)
theory StackMapEvents
  imports StackMaps
begin

text \<open>
  What the decoder of \<open>StackMaps\<close> says: the numbers it reads are the ones that were encoded, the
  registers and slots of a row are those whose bits are set, in both formats of the slots, and the
  tables of an accepted layout lie within the data.
\<close>

section \<open>Encoded numbers\<close>

definition number_bits :: "nat \<Rightarrow> u32 \<Rightarrow> bool list" where
  "number_bits n v = map (bit v) [0..<n]"

definition bits_at :: "u8 list \<Rightarrow> nat \<Rightarrow> bool list \<Rightarrow> bool" where
  "bits_at data k bs \<longleftrightarrow> (\<forall>j<length bs. data_bit data (k + j) = bs ! j)"

lemma length_number_bits [simp]: "length (number_bits n v) = n"
  by (simp add: number_bits_def)

lemma bits_at_append: "bits_at data k (xs @ ys) \<longleftrightarrow> bits_at data k xs \<and> bits_at data (k + length xs) ys"
proof
  assume a: "bits_at data k (xs @ ys)"
  have "data_bit data (k + length xs + j) = ys ! j" if "j < length ys" for j
    using a [unfolded bits_at_def, rule_format, of "length xs + j"] that by (simp add: add.assoc)
  moreover have "data_bit data (k + j) = xs ! j" if "j < length xs" for j
    using a [unfolded bits_at_def, rule_format, of j] that by (simp add: nth_append)
  ultimately show "bits_at data k xs \<and> bits_at data (k + length xs) ys" by (simp add: bits_at_def)
next
  assume "bits_at data k xs \<and> bits_at data (k + length xs) ys"
  then show "bits_at data k (xs @ ys)"
    unfolding bits_at_def by (metis (no_types, lifting) add.assoc add_diff_inverse_nat length_append nat_add_left_cancel_less nth_append)
qed

lemma bits_at_Cons: "bits_at data k (x # xs) \<longleftrightarrow> data_bit data k = x \<and> bits_at data (Suc k) xs"
  using bits_at_append [of data k "[x]" xs] by (simp add: bits_at_def)

lemma data_word_encoded:
  assumes "bits_at data k (number_bits n v)" and "take_bit n v = v"
  shows "data_word data k n = v"
proof (rule bit_word_eqI)
  fix j assume j: "j < LENGTH(32)"
  have "bit v j \<longleftrightarrow> j < n \<and> bit v j" by (subst assms(2) [symmetric]) (simp add: bit_take_bit_iff)
  moreover have "j < n \<Longrightarrow> data_bit data (k + j) = bit v j" using assms(1) by (simp add: bits_at_def number_bits_def)
  ultimately show "bit (data_word data k n) j = bit v j" using j by (auto simp: bit_data_word)
qed

text \<open>The data are all there, and not more than the decoder admits.\<close>

definition whole :: "u8 list \<Rightarrow> u64 \<Rightarrow> bool" where
  "whole data sz \<longleftrightarrow> unat sz \<le> length data \<and> sz \<le> 0x1fffffffffffffff"

lemma readBits_whole:
  assumes "whole data sz" and "n \<le> 32" and "unat b + unat n \<le> 8 * unat sz"
  shows "readBits data sz b n = Inr (WordResult STACKMAP_OK (data_word data (unat b) (unat n)) (b + ucast n))"
  using assms by (auto simp: readBits_reads whole_def dest: leD)

lemma readBits_encoded:
  assumes "whole data sz" and "n \<le> 32" and "unat b + unat n \<le> 8 * unat sz"
    and "bits_at data (unat b) (number_bits (unat n) v)" and "take_bit (unat n) v = v"
  shows "readBits data sz b n = Inr (WordResult STACKMAP_OK v (b + ucast n))"
  using readBits_whole [OF assms(1-3)] data_word_encoded [OF assms(4,5)] by simp

definition varint_bits :: "u32 \<Rightarrow> bool list" where
  "varint_bits v =
    (if v \<le> 11 then number_bits 4 v
     else if v < 2 ^ 8 then number_bits 4 12 @ number_bits 8 v
     else if v < 2 ^ 16 then number_bits 4 13 @ number_bits 16 v
     else if v < 2 ^ 24 then number_bits 4 14 @ number_bits 24 v
     else number_bits 4 15 @ number_bits 32 v)"

lemma take_bit_less: "unat (v :: u32) < 2 ^ n \<Longrightarrow> take_bit n v = v"
  by (simp add: word_unat_eq_iff unsigned_take_bit_eq take_bit_nat_eq_self)

lemma unat_plus_nat: "whole data sz \<Longrightarrow> unat (b :: u64) + n \<le> 8 * unat sz \<Longrightarrow> unat (b + of_nat n) = unat b + n"
proof -
  assume "whole data sz" "unat b + n \<le> 8 * unat sz"
  then have "unat b + n < 2 ^ 64" by (auto simp: whole_def word_le_nat_alt)
  then show ?thesis by (simp add: unat_word_ariths unat_of_nat)
qed

lemma varint_tagged:
  fixes b :: u64 and n :: u32
  assumes w: "whole data sz" and len: "unat b + (4 + unat n) \<le> 8 * unat sz" and n: "n \<le> 32"
    and tag: "tag = 12 \<and> n = 8 \<or> tag = 13 \<and> n = 16 \<or> tag = 14 \<and> n = 24 \<or> tag = 15 \<and> n = 32"
    and at: "bits_at data (unat b) (number_bits 4 tag @ number_bits (unat n) v)" and v: "take_bit (unat n) v = v"
  shows "readVarInt data sz b = Inr (WordResult STACKMAP_OK v (b + of_nat (4 + unat n)))"
proof -
  have t: "take_bit 4 tag = tag" using tag by auto
  have "readBits data sz b 4 = Inr (WordResult STACKMAP_OK tag (b + ucast (4 :: u32)))"
    using w len at t by (intro readBits_encoded) (auto simp: bits_at_append)
  then have r: "readBits data sz b 4 = Inr (WordResult STACKMAP_OK tag (b + 4))" by simp
  have b4: "unat (b + 4) = unat b + 4" using unat_plus_nat [OF w, of b 4] len by simp
  have "readBits data sz (b + 4) n = Inr (WordResult STACKMAP_OK v (b + 4 + ucast n))"
    using w n len at v b4 by (intro readBits_encoded) (auto simp: bits_at_append)
  moreover have "\<not> tag \<le> 11" using tag by auto
  moreover have "b + 4 + ucast n = b + of_nat (4 + unat n)" by (simp add: add.assoc)
  ultimately show ?thesis using r tag by (auto simp: readVarInt_def)
qed

lemma readVarInt_encoded:
  assumes w: "whole data sz" and len: "unat b + length (varint_bits v) \<le> 8 * unat sz"
    and at: "bits_at data (unat b) (varint_bits v)"
  shows "readVarInt data sz b = Inr (WordResult STACKMAP_OK v (b + of_nat (length (varint_bits v))))"
proof -
  consider "v \<le> 11" | "\<not> v \<le> 11" "v < 2 ^ 8" | "\<not> v \<le> 11" "\<not> v < 2 ^ 8" "v < 2 ^ 16"
    | "\<not> v \<le> 11" "\<not> v < 2 ^ 8" "\<not> v < 2 ^ 16" "v < 2 ^ 24"
    | "\<not> v \<le> 11" "\<not> v < 2 ^ 8" "\<not> v < 2 ^ 16" "\<not> v < 2 ^ 24" by blast
  then show ?thesis
  proof cases
    case 1
    then have e: "varint_bits v = number_bits 4 v" by (simp add: varint_bits_def)
    have t: "take_bit 4 v = v" using 1 by (intro take_bit_less) (simp add: word_le_nat_alt)
    have "readBits data sz b 4 = Inr (WordResult STACKMAP_OK v (b + ucast (4 :: u32)))"
      using w len at t e by (intro readBits_encoded) auto
    with 1 e show ?thesis by (simp add: readVarInt_def)
  next
    case 2
    then have e: "varint_bits v = number_bits 4 12 @ number_bits 8 v" by (simp add: varint_bits_def)
    have "take_bit 8 v = v" using 2 by (intro take_bit_less) (simp add: word_less_nat_alt)
    with varint_tagged [OF w, of b 8 12 v] len at e show ?thesis by simp
  next
    case 3
    then have e: "varint_bits v = number_bits 4 13 @ number_bits 16 v" by (simp add: varint_bits_def)
    have "take_bit 16 v = v" using 3 by (intro take_bit_less) (simp add: word_less_nat_alt)
    with varint_tagged [OF w, of b 16 13 v] len at e show ?thesis by simp
  next
    case 4
    then have e: "varint_bits v = number_bits 4 14 @ number_bits 24 v" by (simp add: varint_bits_def)
    have "take_bit 24 v = v" using 4 by (intro take_bit_less) (simp add: word_less_nat_alt)
    with varint_tagged [OF w, of b 24 14 v] len at e show ?thesis by simp
  next
    case 5
    then have e: "varint_bits v = number_bits 4 15 @ number_bits 32 v" by (simp add: varint_bits_def)
    have "take_bit 32 v = v" using unsigned_less [of v] by (intro take_bit_less) simp
    with varint_tagged [OF w, of b 32 15 v] len at e show ?thesis by simp
  qed
qed

section \<open>Registers\<close>

lemma yields_ext: "(\<And>events i. f events i = g events i) \<Longrightarrow> yields cap g es c r \<Longrightarrow> yields cap f es c r"
  by (simp add: yields_def)

lemma yields_read:
  assumes "w = Inr (WordResult STACKMAP_OK v n)" and "yields cap (k v n) es c r"
  shows "yields cap (\<lambda>events i. ok_then w (fail events i) (\<lambda>v n. k v n events i)) es c r"
  using assms by (simp add: ok_then_def)

text \<open>The numbers of the bits that are set, below a bound.\<close>

definition set_bits :: "u32 \<Rightarrow> nat \<Rightarrow> nat list" where
  "set_bits w n = filter (bit w) [0..<n]"

lemma set_bits_0 [simp]: "set_bits w 0 = []" "set_bits 0 n = []"
  by (simp_all add: set_bits_def)

lemma set_bits_Suc: "set_bits w (Suc n) = (if bit w 0 then [0] else []) @ map Suc (set_bits (drop_bit 1 w) n)"
proof -
  have "[0..<Suc n] = 0 # map Suc [0..<n]" by (simp add: map_Suc_upt upt_conv_Cons)
  then have "set_bits w (Suc n) = (if bit w 0 then [0] else []) @ filter (bit w) (map Suc [0..<n])"
    by (simp add: set_bits_def)
  also have "filter (bit w) (map Suc [0..<n]) = map Suc (filter (bit w \<circ> Suc) [0..<n])" by (simp add: filter_map)
  also have "bit w \<circ> Suc = bit (drop_bit 1 w)" by (simp add: fun_eq_iff bit_drop_bit_eq)
  finally show ?thesis by (simp add: set_bits_def)
qed

text \<open>The events of one register. On x86_64 those from 16 on have two words and are no base registers.\<close>

definition reg_events :: "bool \<Rightarrow> u32 \<Rightarrow> u32 \<Rightarrow> u64 \<Rightarrow> nat \<Rightarrow> stack_event list" where
  "reg_events x86 kind row db b = (let reg = registerNumber x86 (of_nat b) in
    map (\<lambda>s. \<lparr>ev_kind = kind, ev_row = row,
      ev_value0 = (if kind = STACKMAP_EVENT_DERIVED_REG_ROOT then db else ucast reg),
      ev_value1 = (if kind = STACKMAP_EVENT_DERIVED_REG_ROOT then ucast (reg * 2 + of_nat s) else of_nat s)\<rparr>)
      [0..<unat (registerSlotCount x86 (of_nat b))])"

definition base_registers :: "bool \<Rightarrow> nat list \<Rightarrow> nat list" where
  "base_registers x86 bs = filter (\<lambda>b. isBaseRegister x86 (of_nat b)) bs"

lemma yields_sub_slots:
  "yields cap (sub_slots kind row db cap reg roots ss) (map (\<lambda>s. \<lparr>ev_kind = kind, ev_row = row,
      ev_value0 = (if kind = STACKMAP_EVENT_DERIVED_REG_ROOT then db else ucast reg),
      ev_value1 = (if kind = STACKMAP_EVENT_DERIVED_REG_ROOT then ucast (reg * 2 + of_nat s) else of_nat s)\<rparr>) ss)
    STACKMAP_OK roots"
proof (induction ss)
  case Nil
  show ?case by (rule yields_ext [OF sub_slots.simps(1)]) (simp add: yields_return)
next
  case (Cons s ss)
  show ?case
    by (rule yields_ext [OF sub_slots.simps(2)])
      (use yields_then [OF yields_emit, where k = "\<lambda>_. sub_slots kind row db cap reg roots ss", OF Cons.IH] in simp)
qed

lemma nat_u32: "of_nat (unat (b :: u32)) = b"
  by simp

lemma odd_AND_1: "(w :: u32) AND 1 \<noteq> 0 \<longleftrightarrow> bit w 0"
  by (simp add: and_one_eq bit_0 mod_2_eq_odd)

lemma reg_loop_steps:
  "\<not> (bm \<noteq> 0 \<and> b < width) \<Longrightarrow>
    reg_loop x86 kind row db cap width bm b roots events i = Inr (RootResult STACKMAP_OK i roots, events)"
  "b < width \<Longrightarrow> \<not> bit bm 0 \<Longrightarrow> bm \<noteq> 0 \<Longrightarrow> reg_loop x86 kind row db cap width bm b roots events i =
    reg_loop x86 kind row db cap width (drop_bit 1 bm) (b + 1) roots events i"
  "b < width \<Longrightarrow> bit bm 0 \<Longrightarrow> reg_loop x86 kind row db cap width bm b roots events i =
    root_then (sub_slots kind row db cap (registerNumber x86 b) roots [0..<unat (registerSlotCount x86 b)] events i)
      rr_baseRoots (\<lambda>r events. reg_loop x86 kind row db cap width (drop_bit 1 bm) (b + 1)
        (if isBaseRegister x86 b then roots + 1 else roots) events (rr_nextEvent r))"
  by (subst reg_loop.simps; use odd_AND_1 [of bm] in auto)+

lemma unat_Suc_below: "(b :: u32) < n \<Longrightarrow> unat (b + 1) = Suc (unat b)"
proof -
  assume "b < n"
  then have "unat b < unat n" by (simp add: word_less_nat_alt)
  moreover have "unat n < 2 ^ 32" using unsigned_less [of n] by simp
  ultimately show ?thesis by (simp add: unat_word_ariths)
qed

lemma yields_reg_loop:
  assumes "unat b + n = unat width"
  shows "yields cap (reg_loop x86 kind row db cap width bm b roots)
    (concat (map (reg_events x86 kind row db) (map ((+) (unat b)) (set_bits bm n)))) STACKMAP_OK
    (roots + of_nat (length (base_registers x86 (map ((+) (unat b)) (set_bits bm n)))))"
  using assms
proof (induction n arbitrary: b bm roots)
  case 0
  then have "\<not> (bm \<noteq> 0 \<and> b < width)" by (simp add: word_less_nat_alt)
  then show ?case
    by (intro yields_ext [OF reg_loop_steps(1)]) (simp_all add: yields_return base_registers_def)
next
  case (Suc n)
  show ?case
  proof (cases "bm = 0")
    case True
    then show ?thesis by (intro yields_ext [OF reg_loop_steps(1)]) (simp_all add: yields_return base_registers_def)
  next
    case False
    have b: "b < width" using Suc.prems by (simp add: word_less_nat_alt)
    note b1 = unat_Suc_below [OF b]
    then have n: "unat (b + 1) + n = unat width" using Suc.prems by simp
    have m: "map ((+) (unat b)) (set_bits bm (Suc n)) =
        (if bit bm 0 then [unat b] else []) @ map ((+) (unat (b + 1))) (set_bits (drop_bit 1 bm) n)"
      by (simp add: set_bits_Suc b1)
    show ?thesis
    proof (cases "bit bm 0")
      case True
      have "yields cap (\<lambda>events i. root_then (sub_slots kind row db cap (registerNumber x86 b) roots
          [0..<unat (registerSlotCount x86 b)] events i) rr_baseRoots (\<lambda>r events. reg_loop x86 kind row db cap width
          (drop_bit 1 bm) (b + 1) (if isBaseRegister x86 b then roots + 1 else roots) events (rr_nextEvent r)))
        (reg_events x86 kind row db (unat b) @ concat (map (reg_events x86 kind row db) (map ((+) (unat (b + 1)))
          (set_bits (drop_bit 1 bm) n)))) STACKMAP_OK
        ((if isBaseRegister x86 b then roots + 1 else roots) +
          of_nat (length (base_registers x86 (map ((+) (unat (b + 1))) (set_bits (drop_bit 1 bm) n)))))"
        unfolding reg_events_def [of _ _ _ _ "unat b"] Let_def nat_u32
        by (rule yields_then [where k = "\<lambda>_. reg_loop x86 kind row db cap width (drop_bit 1 bm) (b + 1)
          (if isBaseRegister x86 b then roots + 1 else roots)"]) (rule yields_sub_slots, rule Suc.IH [OF n])
      from yields_ext [OF reg_loop_steps(3) [OF b True] this] show ?thesis
        unfolding m using True by (simp add: base_registers_def add.assoc split: if_splits)
    next
      case no: False
      from yields_ext [OF reg_loop_steps(2) [OF b no False] Suc.IH [OF n]] show ?thesis
        unfolding m using no by simp
    qed
  qed
qed

lemma set_bits_data_word:
  assumes "n \<le> 32"
  shows "set_bits (data_word data k n) n = filter (\<lambda>b. data_bit data (k + b)) [0..<n]"
  unfolding set_bits_def using assms by (intro filter_cong refl) (auto simp: bit_data_word)

text \<open>Where row \<open>ix\<close> of a table begins, and that it ends within the data. Rows count from 1.\<close>

definition row_at :: "u64 \<Rightarrow> u32 \<Rightarrow> nat \<Rightarrow> nat" where
  "row_at tab ix width = unat tab + (unat ix - 1) * width"

definition row_fits :: "u64 \<Rightarrow> u64 \<Rightarrow> u32 \<Rightarrow> u32 \<Rightarrow> nat \<Rightarrow> bool" where
  "row_fits sz tab records ix width \<longleftrightarrow> 0 < ix \<and> ix \<le> records \<and> row_at tab ix width + width \<le> 8 * unat sz"

lemma row_position:
  fixes w :: u64
  assumes "whole data sz" and "row_fits sz tab records ix (unat w)"
  shows "unat (tab + ucast (ix - 1) * w) = row_at tab ix (unat w)"
proof -
  have "0 < ix" using assms(2) by (simp add: row_fits_def)
  then have "unat (ix - 1) = unat ix - 1" using unat_minus_one_Suc [of ix] by auto
  then have u: "unat (ucast (ix - 1) :: u64) = unat ix - 1" by (simp add: unat_ucast_u32)
  have lt: "row_at tab ix (unat w) < 2 ^ 64"
    using assms by (auto simp: row_fits_def whole_def word_le_nat_alt)
  then have "(unat ix - 1) * unat w < 2 ^ 64" by (simp add: row_at_def)
  then have "unat (ucast (ix - 1) * w) = (unat ix - 1) * unat w" using u by (simp add: unat_word_ariths)
  with lt show ?thesis by (simp add: row_at_def unat_word_ariths)
qed

lemma readTableRow_reads:
  assumes "whole data sz" and "row_fits sz tab records ix (unat width)" and "width \<le> 32"
  shows "\<exists>n. readTableRow data sz tab records width ix =
    Inr (WordResult STACKMAP_OK (data_word data (row_at tab ix (unat width)) (unat width)) n)"
proof -
  have p: "unat (tab + ucast (ix - 1) * ucast width) = row_at tab ix (unat width)"
    using row_position [of data sz tab records ix "ucast width"] assms(1,2) by (simp add: unat_ucast_u32)
  have "ix \<noteq> 0" "\<not> ix > records" using assms(2) by (auto simp: row_fits_def)
  moreover have "row_at tab ix (unat width) + unat width \<le> 8 * unat sz" using assms(2) by (simp add: row_fits_def)
  ultimately show ?thesis using readBits_whole [OF assms(1,3)] p by (simp add: readTableRow_def)
qed

lemma yields_decodeRegRoots:
  assumes "whole data sz" and "row_fits sz (regData l) (regRecords l) ix (unat (regBits l))" and "regBits l \<le> 32"
  defines "regs \<equiv> filter (\<lambda>b. data_bit data (row_at (regData l) ix (unat (regBits l)) + b)) [0..<unat (regBits l)]"
  shows "yields cap (decodeRegRoots x86 data sz l ix kind row db cap)
    (concat (map (reg_events x86 kind row db) regs)) STACKMAP_OK (of_nat (length (base_registers x86 regs)))"
proof -
  from readTableRow_reads [OF assms(1-3)] obtain n where n: "readTableRow data sz (regData l) (regRecords l) (regBits l) ix =
    Inr (WordResult STACKMAP_OK (data_word data (row_at (regData l) ix (unat (regBits l))) (unat (regBits l))) n)" by blast
  have "unat (regBits l) \<le> 32" using assms(3) by (simp add: word_le_nat_alt)
  note sb = set_bits_data_word [OF this]
  have z: "map ((+) (unat (0 :: u32))) xs = xs" for xs by (simp add: map_idI)
  let ?w = "data_word data (row_at (regData l) ix (unat (regBits l))) (unat (regBits l))"
  have "ix \<noteq> 0" using assms(2) by (auto simp: row_fits_def)
  with n have e: "decodeRegRoots x86 data sz l ix kind row db cap events i =
      reg_loop x86 kind row db cap (regBits l) ?w 0 0 events i" for events i
    by (simp add: decodeRegRoots_def ok_then_def)
  have "unat (0 :: u32) + unat (regBits l) = unat (regBits l)" by simp
  from yields_ext [OF e yields_reg_loop [OF this]] show ?thesis
    unfolding regs_def z sb by simp
qed

section \<open>Slots\<close>

definition slot_event :: "u32 \<Rightarrow> u32 \<Rightarrow> u64 \<Rightarrow> u64 \<Rightarrow> stack_event" where
  "slot_event kind row db bias = \<lparr>ev_kind = kind, ev_row = row,
    ev_value0 = (if kind = STACKMAP_EVENT_DERIVED_SLOT_ROOT then db else bias),
    ev_value1 = (if kind = STACKMAP_EVENT_DERIVED_SLOT_ROOT then bias else 0)\<rparr>"

text \<open>The events of slots numbered from \<open>bias\<close> on.\<close>

definition slot_events :: "u32 \<Rightarrow> u32 \<Rightarrow> u64 \<Rightarrow> u64 \<Rightarrow> nat list \<Rightarrow> stack_event list" where
  "slot_events kind row db bias ks = map (\<lambda>k. slot_event kind row db (bias + of_nat k * SLOT_BYTES)) ks"

lemma slot_events_simps [simp]:
  "slot_events kind row db bias [] = []"
  "slot_events kind row db bias (k # ks) = slot_event kind row db (bias + of_nat k * SLOT_BYTES) # slot_events kind row db bias ks"
  "slot_events kind row db bias (ks @ ks') = slot_events kind row db bias ks @ slot_events kind row db bias ks'"
  "length (slot_events kind row db bias ks) = length ks"
  by (simp_all add: slot_events_def)

lemma slot_events_shift: "slot_events kind row db bias (map ((+) d) ks) = slot_events kind row db (bias + of_nat d * SLOT_BYTES) ks"
  by (simp add: slot_events_def ring_distribs add.assoc)

lemma yields_emitSlot: "yields cap (emitSlot cap kind row db bias) [slot_event kind row db bias] STACKMAP_OK 1"
proof -
  have "emitSlot cap kind row db bias events i = root_then
      (emitEvent cap kind row (if kind = STACKMAP_EVENT_DERIVED_SLOT_ROOT then db else bias)
        (if kind = STACKMAP_EVENT_DERIVED_SLOT_ROOT then bias else 0) events i) rr_baseRoots
      (\<lambda>r events. (\<lambda>_ events i. Inr (RootResult STACKMAP_OK i 1, events)) (rr_baseRoots r) events (rr_nextEvent r))" for events i
    by (simp add: emitSlot_def)
  from yields_ext [OF this yields_then [where k = "\<lambda>_ events i. Inr (RootResult STACKMAP_OK i 1, events)",
        OF yields_emit yields_return]] show ?thesis
    by (simp add: slot_event_def)
qed

lemma chunk_loop_steps:
  "\<not> (w \<noteq> 0 \<and> b < n) \<Longrightarrow>
    chunk_loop kind row db cap base s n w b roots events i = Inr (RootResult STACKMAP_OK i roots, events)"
  "b < n \<Longrightarrow> \<not> bit w 0 \<Longrightarrow> w \<noteq> 0 \<Longrightarrow> chunk_loop kind row db cap base s n w b roots events i =
    chunk_loop kind row db cap base s n (drop_bit 1 w) (b + 1) roots events i"
  "b < n \<Longrightarrow> bit w 0 \<Longrightarrow> chunk_loop kind row db cap base s n w b roots events i =
    root_then (emitSlot cap kind row db (base + (s + ucast b) * SLOT_BYTES) events i) (\<lambda>_. roots)
      (\<lambda>r events. chunk_loop kind row db cap base s n (drop_bit 1 w) (b + 1) (roots + 1) events (rr_nextEvent r))"
  by (subst chunk_loop.simps; use odd_AND_1 [of w] in auto)+

lemma slot_bias: "base + (s + ucast (b :: u32)) * SLOT_BYTES = base + s * SLOT_BYTES + of_nat (unat b) * SLOT_BYTES"
  by (simp add: ring_distribs add.assoc of_nat_unat)

lemma yields_chunk_loop:
  assumes "unat b + m = unat n"
  shows "yields cap (chunk_loop kind row db cap base s n w b roots)
    (slot_events kind row db (base + s * SLOT_BYTES) (map ((+) (unat b)) (set_bits w m))) STACKMAP_OK
    (roots + of_nat (length (set_bits w m)))"
  using assms
proof (induction m arbitrary: b w roots)
  case 0
  then have "\<not> (w \<noteq> 0 \<and> b < n)" by (simp add: word_less_nat_alt)
  then show ?case by (intro yields_ext [OF chunk_loop_steps(1)]) (simp_all add: yields_return)
next
  case (Suc m)
  show ?case
  proof (cases "w = 0")
    case True
    then show ?thesis by (intro yields_ext [OF chunk_loop_steps(1)]) (simp_all add: yields_return)
  next
    case False
    have b: "b < n" using Suc.prems by (simp add: word_less_nat_alt)
    note b1 = unat_Suc_below [OF b]
    then have m: "unat (b + 1) + m = unat n" using Suc.prems by simp
    have e: "map ((+) (unat b)) (set_bits w (Suc m)) =
        (if bit w 0 then [unat b] else []) @ map ((+) (unat (b + 1))) (set_bits (drop_bit 1 w) m)"
      by (simp add: set_bits_Suc b1)
    have l: "length (set_bits w (Suc m)) = (if bit w 0 then 1 else 0) + length (set_bits (drop_bit 1 w) m)"
      by (simp add: set_bits_Suc)
    show ?thesis
    proof (cases "bit w 0")
      case True
      from yields_ext [OF chunk_loop_steps(3) [OF b True] yields_then [OF yields_emitSlot,
          where k = "\<lambda>_. chunk_loop kind row db cap base s n (drop_bit 1 w) (b + 1) (roots + 1)", OF Suc.IH [OF m]]]
      show ?thesis unfolding e l using True by (simp add: slot_bias add.assoc)
    next
      case no: False
      from yields_ext [OF chunk_loop_steps(2) [OF b no False] Suc.IH [OF m]] show ?thesis
        unfolding e l using no by simp
    qed
  qed
qed

text \<open>A chunk from its first bit on.\<close>

lemma yields_chunk:
  assumes "n \<le> 32"
  shows "yields cap (chunk_loop kind row db cap base s n (data_word data k (unat n)) 0 roots)
    (slot_events kind row db (base + s * SLOT_BYTES) (filter (\<lambda>b. data_bit data (k + b)) [0..<unat n])) STACKMAP_OK
    (roots + of_nat (length (filter (\<lambda>b. data_bit data (k + b)) [0..<unat n])))"
proof -
  have z: "map ((+) (unat (0 :: u32))) xs = xs" for xs by (simp add: map_idI)
  have "unat n \<le> 32" using assms by (simp add: word_le_nat_alt)
  note sb = set_bits_data_word [OF this]
  have "unat (0 :: u32) + unat n = unat n" by simp
  from yields_chunk_loop [OF this, where w = "data_word data k (unat n)"] show ?thesis by (simp only: z sb)
qed

lemma filter_split:
  "filter P [0..<m + n] = filter P [0..<m] @ map ((+) m) (filter (\<lambda>b. P (m + b)) [0..<n])"
proof -
  have "map ((+) m) [0..<n] = [m..<m + n]" by (induction n) simp_all
  then have "[0..<m + n] = [0..<m] @ map ((+) m) [0..<n]" using upt_add_eq_append [of 0 m n] by simp
  then show ?thesis by (simp add: filter_map comp_def)
qed

lemma pure_loop_steps:
  "remain = 0 \<Longrightarrow> pure_loop data sz kind row db cap base cursor remain s roots events i =
    Inr (RootResult STACKMAP_OK i roots, events)"
  "remain \<noteq> 0 \<Longrightarrow> n = (if remain < 32 then remain else 32) \<Longrightarrow>
    readBits data sz cursor n = Inr (WordResult STACKMAP_OK w nextBit) \<Longrightarrow>
    pure_loop data sz kind row db cap base cursor remain s roots events i =
      root_then (chunk_loop kind row db cap base s n w 0 roots events i) rr_baseRoots
        (\<lambda>r events. pure_loop data sz kind row db cap base nextBit (remain - n) (s + ucast n) (rr_baseRoots r) events
          (rr_nextEvent r))"
  by (subst pure_loop.simps; simp add: Let_def ok_then_def)+

lemma yields_pure_loop:
  assumes w: "whole data sz" and len: "unat cursor + unat remain \<le> 8 * unat sz"
  shows "yields cap (pure_loop data sz kind row db cap base cursor remain s roots)
    (slot_events kind row db (base + s * SLOT_BYTES) (filter (\<lambda>k. data_bit data (unat cursor + k)) [0..<unat remain])) STACKMAP_OK
    (roots + of_nat (length (filter (\<lambda>k. data_bit data (unat cursor + k)) [0..<unat remain])))"
  using len
proof (induction "unat remain" arbitrary: remain cursor s roots rule: less_induct)
  case less
  show ?case
  proof (cases "remain = 0")
    case True
    then show ?thesis by (intro yields_ext [OF pure_loop_steps(1)]) (simp_all add: yields_return)
  next
    case False
    define n where "n = (if remain < 32 then remain else 32)"
    have n: "n \<le> 32" "n \<le> remain" "n \<noteq> 0" using False by (auto simp: n_def not_less)
    then have nn: "unat n \<le> unat remain" "0 < unat n" by (auto simp: word_le_nat_alt unat_gt_0)
    have r: "unat (remain - n) = unat remain - unat n" using n(2) by (rule unat_sub)
    let ?next = "cursor + of_nat (unat n)"
    have c: "unat ?next = unat cursor + unat n" using less.prems nn by (intro unat_plus_nat [OF w]) simp
    have read: "readBits data sz cursor n =
        Inr (WordResult STACKMAP_OK (data_word data (unat cursor) (unat n)) (cursor + ucast n))"
      using less.prems nn by (intro readBits_whole [OF w n(1)]) simp
    have u: "unat (cursor + ucast n) = unat cursor + unat n" using c by (simp add: of_nat_unat)
    let ?P = "\<lambda>k. data_bit data (unat cursor + k)" and ?Q = "\<lambda>k. data_bit data (unat (cursor + ucast n) + k)"
    have IH: "yields cap (pure_loop data sz kind row db cap base (cursor + ucast n) (remain - n) (s + ucast n) roots')
        (slot_events kind row db (base + (s + ucast n) * SLOT_BYTES) (filter ?Q [0..<unat (remain - n)])) STACKMAP_OK
        (roots' + of_nat (length (filter ?Q [0..<unat (remain - n)])))" for roots'
      using less.prems r u nn by (intro less.hyps) simp_all
    have "filter ?P [0..<unat remain] = filter ?P [0..<unat n] @ map ((+) (unat n)) (filter ?Q [0..<unat (remain - n)])"
      using filter_split [of ?P "unat n" "unat (remain - n)"] r nn u by (simp add: add.assoc)
    note sp = this
    from yields_ext [OF pure_loop_steps(2) [OF False n_def read] yields_then [OF yields_chunk [OF n(1)],
        where k = "\<lambda>roots. pure_loop data sz kind row db cap base (cursor + ucast n) (remain - n) (s + ucast n) roots", OF IH]]
    show ?thesis unfolding sp by (simp add: slot_events_shift ring_distribs add.assoc of_nat_unat)
  qed
qed

lemma allref_loop_steps:
  "\<not> b < n \<Longrightarrow> allref_loop kind row db cap base n b roots events i = Inr (RootResult STACKMAP_OK i roots, events)"
  "b < n \<Longrightarrow> allref_loop kind row db cap base n b roots events i =
    root_then (emitSlot cap kind row db (base + b * SLOT_BYTES) events i) (\<lambda>_. roots)
      (\<lambda>r events. allref_loop kind row db cap base n (b + 1) (roots + 1) events (rr_nextEvent r))"
  by (subst allref_loop.simps; simp)+

lemma yields_allref_loop:
  assumes "unat b + m = unat n"
  shows "yields cap (allref_loop kind row db cap base n b roots)
    (slot_events kind row db base [unat b..<unat n]) STACKMAP_OK (roots + of_nat m)"
  using assms
proof (induction m arbitrary: b roots)
  case 0
  then have "\<not> b < n" by (simp add: word_less_nat_alt)
  with 0 show ?case by (intro yields_ext [OF allref_loop_steps(1)]) (simp_all add: yields_return)
next
  case (Suc m)
  then have lt: "unat b < unat n" and b: "b < n" by (simp_all add: word_less_nat_alt)
  have "unat n < 2 ^ 64" using unsigned_less [of n] by simp
  with lt have b1: "unat (b + 1) = Suc (unat b)" by (simp add: unat_word_ariths)
  then have m: "unat (b + 1) + m = unat n" using Suc.prems by simp
  have e: "[unat b..<unat n] = unat b # [unat (b + 1)..<unat n]" using lt b1 by (simp add: upt_conv_Cons)
  from yields_ext [OF allref_loop_steps(2) [OF b] yields_then [OF yields_emitSlot,
      where k = "\<lambda>_. allref_loop kind row db cap base n (b + 1) (roots + 1)", OF Suc.IH [OF m]]]
  show ?case unfolding e by (simp add: add.assoc)
qed

text \<open>
  The compressed format: pieces of 31 slots, either as they are or as a run of pieces that are all
  references or all none. A shorter piece ends the row; the bits left over are zero.
\<close>

datatype slot_item = Raw "bool list" | Run bool u32

fun item_bits :: "slot_item \<Rightarrow> bool list" where
  "item_bits (Raw bs) = True # bs"
| "item_bits (Run f n) = False # f # varint_bits n"

definition row_bits :: "slot_item list \<Rightarrow> nat \<Rightarrow> bool list" where
  "row_bits items pad = concat (map item_bits items) @ replicate pad False"

fun slot_items :: "slot_item list \<Rightarrow> nat \<Rightarrow> bool" where
  "slot_items [] pad = True"
| "slot_items (Raw bs # items) pad = ((length bs = 31 \<or> length bs < 31 \<and> items = [] \<and> pad = 0) \<and> slot_items items pad)"
| "slot_items (Run f n # items) pad = (n \<noteq> 0 \<and> slot_items items pad)"

fun item_slots :: "slot_item list \<Rightarrow> nat list" where
  "item_slots [] = []"
| "item_slots (Raw bs # items) = filter (\<lambda>k. bs ! k) [0..<length bs] @ map ((+) 31) (item_slots items)"
| "item_slots (Run f n # items) = (if f then [0..<31 * unat n] else []) @ map ((+) (31 * unat n)) (item_slots items)"

lemma compressed_loop_steps:
  "remain = 0 \<Longrightarrow> compressed_loop data sz kind row db cap base cursor remain roots events i =
    Inr (RootResult STACKMAP_OK i roots, events)"
  "remain \<noteq> 0 \<Longrightarrow> readBits data sz cursor 1 = Inr (WordResult STACKMAP_OK t c1) \<Longrightarrow> t \<noteq> 0 \<Longrightarrow>
    n = (if remain - 1 < 31 then remain - 1 else 31) \<Longrightarrow> readBits data sz c1 n = Inr (WordResult STACKMAP_OK w c2) \<Longrightarrow>
    compressed_loop data sz kind row db cap base cursor remain roots events i =
      root_then (chunk_loop kind row db cap base 0 n w 0 roots events i) rr_baseRoots
        (\<lambda>r events. compressed_loop data sz kind row db cap (base + 31 * SLOT_BYTES) c2 (remain - 1 - n) (rr_baseRoots r)
          events (rr_nextEvent r))"
  "remain \<noteq> 0 \<Longrightarrow> readBits data sz cursor 1 = Inr (WordResult STACKMAP_OK 0 c1) \<Longrightarrow> remain - 1 < 5 \<Longrightarrow>
    compressed_loop data sz kind row db cap base cursor remain roots events i =
      Inr (RootResult STACKMAP_OK i roots, events)"
  "remain \<noteq> 0 \<Longrightarrow> readBits data sz cursor 1 = Inr (WordResult STACKMAP_OK 0 c1) \<Longrightarrow> \<not> remain - 1 < 5 \<Longrightarrow>
    readBits data sz c1 1 = Inr (WordResult STACKMAP_OK f c2) \<Longrightarrow> readVarInt data sz c2 = Inr (WordResult STACKMAP_OK n c3) \<Longrightarrow>
    \<not> c3 - c2 > ucast (remain - 1 - 1) \<Longrightarrow>
    compressed_loop data sz kind row db cap base cursor remain roots events i =
      (if n = 0 then Inr (RootResult STACKMAP_OK i roots, events)
       else root_then (if f \<noteq> 0 then allref_loop kind row db cap base (ucast n * 31) 0 roots events i
               else Inr (RootResult STACKMAP_OK i roots, events)) rr_baseRoots
         (\<lambda>r events. compressed_loop data sz kind row db cap (base + ucast n * 31 * SLOT_BYTES) c3
           (remain - 1 - 1 - ucast (c3 - c2)) (rr_baseRoots r) events (rr_nextEvent r)))"
  by (subst compressed_loop.simps; simp add: Let_def ok_then_def)+

lemma read_one:
  assumes "whole data sz" and "unat b + 1 \<le> 8 * unat sz"
  shows "readBits data sz b 1 = Inr (WordResult STACKMAP_OK (of_bool (data_bit data (unat b))) (b + 1))"
    and "unat (b + 1) = unat b + 1"
proof -
  have "data_word data (unat b) 1 = of_bool (data_bit data (unat b))"
    using data_word_Suc [of 0 data "unat b"] by (simp add: data_word_def)
  with readBits_whole [OF assms(1), of 1 b] assms(2)
  show "readBits data sz b 1 = Inr (WordResult STACKMAP_OK (of_bool (data_bit data (unat b))) (b + 1))" by simp
  show "unat (b + 1) = unat b + 1" using unat_plus_nat [OF assms(1), of b 1] assms(2) by simp
qed

text \<open>The number of a run and what is left of the row after it.\<close>

lemma length_varint_bits: "4 \<le> length (varint_bits v)" "length (varint_bits v) \<le> 36"
  by (simp_all add: varint_bits_def)

lemma run_head:
  assumes w: "whole data sz" and fit: "unat cursor + unat remain \<le> 8 * unat sz"
    and len: "2 + length (varint_bits v) \<le> unat remain"
    and at: "bits_at data (unat cursor) ([False, f] @ varint_bits v)"
  defines "L \<equiv> length (varint_bits v)" and "c3 \<equiv> cursor + 1 + 1 + of_nat (length (varint_bits v))"
  shows "compressed_loop data sz kind row db cap base cursor remain roots events i =
      (if v = 0 then Inr (RootResult STACKMAP_OK i roots, events)
       else root_then (if f then allref_loop kind row db cap base (ucast v * 31) 0 roots events i
               else Inr (RootResult STACKMAP_OK i roots, events)) rr_baseRoots
         (\<lambda>r events. compressed_loop data sz kind row db cap (base + ucast v * 31 * SLOT_BYTES) c3
           (remain - 1 - 1 - of_nat L) (rr_baseRoots r) events (rr_nextEvent r)))"
    and "unat c3 = unat cursor + (2 + L)" and "unat (remain - 1 - 1 - of_nat L :: u32) = unat remain - (2 + L)"
proof -
  note L = length_varint_bits [of v, folded L_def]
  have b: "\<not> data_bit data (unat cursor)" "data_bit data (Suc (unat cursor)) = f"
    "bits_at data (Suc (Suc (unat cursor))) (varint_bits v)"
    using at by (simp_all add: bits_at_Cons)
  note r1 = read_one [OF w, of cursor] and r2 = read_one [OF w, of "cursor + 1"]
  have c1: "unat (cursor + 1) = unat cursor + 1" using r1(2) fit len by simp
  then have c2: "unat (cursor + 1 + 1) = unat cursor + 2" using r2(2) fit len by simp
  have r3: "readVarInt data sz (cursor + 1 + 1) = Inr (WordResult STACKMAP_OK v c3)"
    unfolding c3_def using b(3) fit len by (intro readVarInt_encoded [OF w]) (simp_all only: c2, simp_all)
  show c3: "unat c3 = unat cursor + (2 + L)"
    unfolding c3_def using unat_plus_nat [OF w, of "cursor + 1 + 1" L] fit len by (simp only: c2 L_def)
  have used: "c3 - (cursor + 1 + 1) = of_nat L" by (simp add: c3_def L_def)
  have rem: "unat (remain - 1 - 1) = unat remain - 2" "1 \<le> remain" "1 \<le> remain - 1"
    using len L by (simp_all add: word_le_nat_alt unat_sub L_def)
  have uL: "unat (of_nat L :: u64) = L" "unat (of_nat L :: u32) = L" using L by (simp_all add: unat_of_nat)
  have le: "\<not> c3 - (cursor + 1 + 1) > ucast (remain - 1 - 1)"
    unfolding used using len rem(1) uL(1) by (simp add: word_less_nat_alt unat_ucast_u32 L_def)
  have "(of_nat L :: u32) \<le> remain - 1 - 1" using len rem(1) uL(2) by (simp add: word_le_nat_alt L_def)
  then show "unat (remain - 1 - 1 - of_nat L :: u32) = unat remain - (2 + L)" using rem(1) uL(2) by (simp add: unat_sub)
  have uc: "ucast (of_nat L :: u64) = (of_nat L :: u32)" using uL L by (simp add: word_unat_eq_iff unsigned_ucast_eq take_bit_nat_eq_self)
  have "unat (remain - 1) = unat remain - 1" using rem(2) by (simp add: unat_sub)
  then have "remain \<noteq> 0" "\<not> remain - 1 < 5" using len L by (auto simp: word_less_nat_alt L_def)
  from compressed_loop_steps(4) [OF this(1) _ this(2) _ r3 le] r1(1) r2(1) b fit len c1
  show "compressed_loop data sz kind row db cap base cursor remain roots events i =
      (if v = 0 then Inr (RootResult STACKMAP_OK i roots, events)
       else root_then (if f then allref_loop kind row db cap base (ucast v * 31) 0 roots events i
               else Inr (RootResult STACKMAP_OK i roots, events)) rr_baseRoots
         (\<lambda>r events. compressed_loop data sz kind row db cap (base + ucast v * 31 * SLOT_BYTES) c3
           (remain - 1 - 1 - of_nat L) (rr_baseRoots r) events (rr_nextEvent r)))"
    unfolding used uc by simp
qed

lemma row_bits_Cons: "row_bits (x # items) pad = item_bits x @ row_bits items pad"
  by (simp add: row_bits_def)

lemma yields_compressed_loop:
  assumes w: "whole data sz" and fit: "unat cursor + unat remain \<le> 8 * unat sz"
    and at: "bits_at data (unat cursor) (row_bits items pad)" and len: "length (row_bits items pad) = unat remain"
    and ok: "slot_items items pad"
  shows "yields cap (compressed_loop data sz kind row db cap base cursor remain roots)
    (slot_events kind row db base (item_slots items)) STACKMAP_OK (roots + of_nat (length (item_slots items)))"
  using assms(2-)
proof (induction items arbitrary: cursor remain base roots)
  case Nil
  then have z: "unat remain = pad" "bits_at data (unat cursor) (replicate pad False)" by (simp_all add: row_bits_def)
  have "compressed_loop data sz kind row db cap base cursor remain roots events i =
      Inr (RootResult STACKMAP_OK i roots, events)" for events i
  proof (cases "pad < 6")
    case True
    show ?thesis
    proof (cases "remain = 0")
      case False
      then have "0 < unat remain" by (simp add: unat_gt_0)
      with z obtain p where p: "pad = Suc p" by (cases pad) auto
      then have "\<not> data_bit data (unat cursor)" using z(2) by (simp add: bits_at_Cons)
      with read_one(1) [OF w, of cursor] Nil.prems(1) z(1) p
      have "readBits data sz cursor 1 = Inr (WordResult STACKMAP_OK 0 (cursor + 1))" by simp
      moreover have "remain - 1 < 5"
        using unat_minus_one_Suc [OF False] z(1) True by (simp add: word_less_nat_alt)
      ultimately show ?thesis by (rule compressed_loop_steps(3) [OF False])
    qed (rule compressed_loop_steps(1))
  next
    case False
    then obtain p where p: "pad = 6 + p" using le_Suc_ex not_less by blast
    have "[False, False] @ varint_bits 0 = replicate 6 False"
      by (simp add: varint_bits_def number_bits_def numeral_eq_Suc)
    then have "bits_at data (unat cursor) ([False, False] @ varint_bits 0)"
      using z(2) by (simp add: p replicate_add bits_at_append)
    from run_head(1) [OF w Nil.prems(1) _ this] z(1) p show ?thesis by (simp add: varint_bits_def)
  qed
  from yields_ext [OF this yields_return] show ?case by simp
next
  case (Cons x items)
  show ?case
  proof (cases x)
    case (Raw bs)
    have at: "data_bit data (unat cursor)" "bits_at data (unat cursor + 1) bs"
        "bits_at data (unat cursor + 1 + length bs) (row_bits items pad)"
      and ln: "Suc (length bs + length (row_bits items pad)) = unat remain"
      using Cons.prems(2,3) by (simp_all add: Raw row_bits_Cons bits_at_Cons bits_at_append)
    have wf: "length bs = 31 \<or> length bs < 31 \<and> row_bits items pad = []" "slot_items items pad"
      using Cons.prems(4) by (auto simp: Raw row_bits_def)
    have nz: "remain \<noteq> 0" using ln by (auto simp: unat_eq_0)
    then have r1: "unat (remain - 1) = unat remain - 1" using unat_minus_one_Suc [OF nz] by simp
    define n where "n = (if remain - 1 < 31 then remain - 1 else 31)"
    have un: "unat n = length bs" using wf(1) ln r1 by (auto simp: n_def word_less_nat_alt)
    have n: "n \<le> 32" "n \<le> remain - 1" using un wf(1) ln r1 by (auto simp: word_le_nat_alt)
    note h = read_one [OF w, of cursor]
    have c1: "unat (cursor + 1) = unat cursor + 1" using h(2) ln Cons.prems(1) by simp
    have "unat (cursor + 1) + unat n \<le> 8 * unat sz" using c1 un ln Cons.prems(1) by simp
    note rd = readBits_whole [OF w n(1) this] and c2 = unat_plus_nat [OF w this, unfolded of_nat_unat]
    have r2: "unat (remain - 1 - n) = length (row_bits items pad)" using n(2) un r1 ln by (simp add: unat_sub)
    let ?c2 = "cursor + 1 + ucast n"
    have c2: "unat ?c2 = unat cursor + 1 + length bs" using c2 c1 un by simp
    have IH: "yields cap (compressed_loop data sz kind row db cap (base + 31 * SLOT_BYTES) ?c2 (remain - 1 - n) roots')
        (slot_events kind row db (base + 31 * SLOT_BYTES) (item_slots items)) STACKMAP_OK
        (roots' + of_nat (length (item_slots items)))" for roots'
      using c2 r2 ln Cons.prems(1) at(3) wf(2) by (intro Cons.IH) simp_all
    have one: "readBits data sz cursor 1 = Inr (WordResult STACKMAP_OK 1 (cursor + 1))"
      using h(1) at(1) ln Cons.prems(1) by simp
    have f: "filter (\<lambda>b. data_bit data (unat (cursor + 1) + b)) [0..<unat n] = filter ((!) bs) [0..<length bs]"
      unfolding c1 un using at(2) by (intro filter_cong) (auto simp: bits_at_def)
    from yields_ext [OF compressed_loop_steps(2) [OF nz one _ n_def rd]
        yields_then [OF yields_chunk [OF n(1)],
        where k = "\<lambda>roots. compressed_loop data sz kind row db cap (base + 31 * SLOT_BYTES) ?c2 (remain - 1 - n) roots",
        OF IH]]
    show ?thesis unfolding f Raw by (simp add: slot_events_shift add.assoc)
  next
    case (Run f v)
    let ?L = "length (varint_bits v)"
    have at: "bits_at data (unat cursor) ([False, f] @ varint_bits v)"
        "bits_at data (unat cursor + (2 + ?L)) (row_bits items pad)"
      and ln: "2 + ?L + length (row_bits items pad) = unat remain"
      using Cons.prems(2,3) by (simp_all add: Run row_bits_Cons bits_at_Cons bits_at_append)
    have wf: "v \<noteq> 0" "slot_items items pad" using Cons.prems(4) by (simp_all add: Run)
    have le: "2 + ?L \<le> unat remain" using ln by simp
    note h = run_head [OF w Cons.prems(1) le at(1)]
    let ?c3 = "cursor + 1 + 1 + of_nat ?L" and ?base = "base + ucast v * 31 * SLOT_BYTES"
    have IH: "yields cap (compressed_loop data sz kind row db cap ?base ?c3 (remain - 1 - 1 - of_nat ?L) roots')
        (slot_events kind row db ?base (item_slots items)) STACKMAP_OK
        (roots' + of_nat (length (item_slots items)))" for roots'
      using h(2,3) ln Cons.prems(1) at(2) wf(2) by (intro Cons.IH) simp_all
    have bc: "unat (ucast v * 31 :: u64) = 31 * unat v"
    proof -
      have "unat v < 2 ^ 32" using unsigned_less [of v, where ?'a = nat] by simp
      then show ?thesis by (simp add: unat_word_ariths unat_ucast_u32)
    qed
    have "yields cap (\<lambda>events i. if f then allref_loop kind row db cap base (ucast v * 31) 0 roots events i
        else Inr (RootResult STACKMAP_OK i roots, events))
      (slot_events kind row db base (if f then [0..<31 * unat v] else [])) STACKMAP_OK
      (roots + of_nat (if f then 31 * unat v else 0))"
      using yields_allref_loop [of 0 "31 * unat v" "ucast v * 31"] bc by (cases f) (simp_all add: yields_return)
    from yields_ext [OF h(1) [unfolded if_not_P [OF wf(1)]] yields_then [OF this,
        where k = "\<lambda>roots. compressed_loop data sz kind row db cap ?base ?c3 (remain - 1 - 1 - of_nat ?L) roots", OF IH]]
    have "yields cap (compressed_loop data sz kind row db cap base cursor remain roots)
      (slot_events kind row db base (if f then [0..<31 * unat v] else []) @ slot_events kind row db ?base (item_slots items))
      STACKMAP_OK (roots + of_nat (if f then 31 * unat v else 0) + of_nat (length (item_slots items)))" .
    then show ?thesis unfolding Run
      by (cases f) (simp_all add: slot_events_shift add.assoc mult.commute [of _ "31 :: u64"])
  qed
qed

text \<open>A row of the slot table in either format: the base, then the bitmap or the pieces.\<close>

definition slot_row :: "layout \<Rightarrow> nat" where
  "slot_row l = unat (slotBaseBits l) + unat (slotBitmapBits l)"

lemma slot_row_read:
  assumes w: "whole data sz" and fits: "row_fits sz (slotData l) (slotRecords l) ix (slot_row l)" and b: "slotBaseBits l \<le> 32"
  defines "at \<equiv> row_at (slotData l) ix (slot_row l)"
  obtains cursor where "unat cursor = at + unat (slotBaseBits l)"
    and "unat cursor + unat (slotBitmapBits l) \<le> 8 * unat sz"
    and "\<And>format kind row db cap events i. decodeSlotRoots data sz l ix format kind row db cap events i =
      (let bias = signedBase (data_word data at (unat (slotBaseBits l))) (slotBaseBits l) in
       if format = PURE_COMPRESSED_STACKMAP
       then pure_loop data sz kind row db cap bias cursor (slotBitmapBits l) 0 0 events i
       else compressed_loop data sz kind row db cap bias cursor (slotBitmapBits l) 0 events i)"
proof -
  let ?w = "ucast (slotBaseBits l) + ucast (slotBitmapBits l) :: u64"
  have uw: "unat ?w = slot_row l"
  proof -
    have "unat (slotBaseBits l) < 2 ^ 32" "unat (slotBitmapBits l) < 2 ^ 32"
      using unsigned_less [where ?'a = nat, of "slotBaseBits l"] unsigned_less [where ?'a = nat, of "slotBitmapBits l"] by simp_all
    then show ?thesis by (simp add: slot_row_def unat_word_ariths unat_ucast_u32)
  qed
  let ?at = "slotData l + ucast (ix - 1) * ?w"
  have p: "unat ?at = at" unfolding at_def using row_position [OF w, of "slotData l" "slotRecords l" ix ?w] fits uw by simp
  have end_: "at + slot_row l \<le> 8 * unat sz" using fits by (simp add: row_fits_def at_def)
  then have b8: "unat ?at + unat (slotBaseBits l) \<le> 8 * unat sz" by (simp add: p slot_row_def)
  note rd = readBits_whole [OF w b b8] and c = unat_plus_nat [OF w b8, unfolded of_nat_unat]
  have ix: "ix \<noteq> 0" "\<not> ix > slotRecords l" using fits by (auto simp: row_fits_def)
  show ?thesis
  proof (rule that [of "?at + ucast (slotBaseBits l)"])
    show c1: "unat (?at + ucast (slotBaseBits l)) = at + unat (slotBaseBits l)" using c by (simp only: p)
    show "unat (?at + ucast (slotBaseBits l)) + unat (slotBitmapBits l) \<le> 8 * unat sz"
      using end_ unfolding c1 slot_row_def by simp
    show "decodeSlotRoots data sz l ix format kind row db cap events i =
      (let bias = signedBase (data_word data at (unat (slotBaseBits l))) (slotBaseBits l) in
       if format = PURE_COMPRESSED_STACKMAP
       then pure_loop data sz kind row db cap bias (?at + ucast (slotBaseBits l)) (slotBitmapBits l) 0 0 events i
       else compressed_loop data sz kind row db cap bias (?at + ucast (slotBaseBits l)) (slotBitmapBits l) 0 events i)"
      for format kind row db cap events i
      unfolding decodeSlotRoots_def if_not_P [OF ix(1)] if_not_P [OF ix(2)] rd ok_then_def and_then_simps
      by (simp add: p Let_def)
  qed
qed

lemma yields_decodeSlotRoots_pure:
  assumes w: "whole data sz" and fits: "row_fits sz (slotData l) (slotRecords l) ix (slot_row l)" and b: "slotBaseBits l \<le> 32"
  defines "at \<equiv> row_at (slotData l) ix (slot_row l)"
  defines "slots \<equiv> filter (\<lambda>k. data_bit data (at + unat (slotBaseBits l) + k)) [0..<unat (slotBitmapBits l)]"
  shows "yields cap (decodeSlotRoots data sz l ix PURE_COMPRESSED_STACKMAP kind row db cap)
    (slot_events kind row db (signedBase (data_word data at (unat (slotBaseBits l))) (slotBaseBits l)) slots)
    STACKMAP_OK (of_nat (length slots))"
proof -
  from slot_row_read [OF w fits b, folded at_def] obtain cursor where c: "unat cursor = at + unat (slotBaseBits l)"
    "unat cursor + unat (slotBitmapBits l) \<le> 8 * unat sz"
    and d: "\<And>format kind row db cap events i. decodeSlotRoots data sz l ix format kind row db cap events i =
      (let bias = signedBase (data_word data at (unat (slotBaseBits l))) (slotBaseBits l) in
       if format = PURE_COMPRESSED_STACKMAP
       then pure_loop data sz kind row db cap bias cursor (slotBitmapBits l) 0 0 events i
       else compressed_loop data sz kind row db cap bias cursor (slotBitmapBits l) 0 events i)" by blast
  note y = yields_pure_loop [OF w c(2), where s = 0 and roots = 0, unfolded c(1), folded slots_def, simplified]
  show ?thesis by (rule yields_ext [OF _ y]) (simp add: d)
qed

lemma yields_decodeSlotRoots_compressed:
  assumes w: "whole data sz" and fits: "row_fits sz (slotData l) (slotRecords l) ix (slot_row l)" and b: "slotBaseBits l \<le> 32"
    and f: "format \<noteq> PURE_COMPRESSED_STACKMAP" and ok: "slot_items items pad"
    and len: "length (row_bits items pad) = unat (slotBitmapBits l)"
    and at: "bits_at data (row_at (slotData l) ix (slot_row l) + unat (slotBaseBits l)) (row_bits items pad)"
  defines "at \<equiv> row_at (slotData l) ix (slot_row l)"
  shows "yields cap (decodeSlotRoots data sz l ix format kind row db cap)
    (slot_events kind row db (signedBase (data_word data at (unat (slotBaseBits l))) (slotBaseBits l)) (item_slots items))
    STACKMAP_OK (of_nat (length (item_slots items)))"
proof -
  from slot_row_read [OF w fits b, folded at_def] obtain cursor where c: "unat cursor = at + unat (slotBaseBits l)"
    "unat cursor + unat (slotBitmapBits l) \<le> 8 * unat sz"
    and d: "\<And>format kind row db cap events i. decodeSlotRoots data sz l ix format kind row db cap events i =
      (let bias = signedBase (data_word data at (unat (slotBaseBits l))) (slotBaseBits l) in
       if format = PURE_COMPRESSED_STACKMAP
       then pure_loop data sz kind row db cap bias cursor (slotBitmapBits l) 0 0 events i
       else compressed_loop data sz kind row db cap bias cursor (slotBitmapBits l) 0 events i)" by blast
  note y = yields_compressed_loop [OF w c(2) _ len ok, where roots = 0, unfolded c(1), simplified, folded at_def, OF at [folded at_def]]
  show ?thesis by (rule yields_ext [OF _ y]) (simp add: d f)
qed

lemma signedBase_signed:
  assumes "bits = 8 \<or> bits = 16 \<or> bits = 32" and "take_bit (unat bits) v = v"
  shows "signedBase v bits = of_int (signed_take_bit (unat bits - 1) (uint v))"
proof -
  have s: "of_int (signed_take_bit n (uint v)) = (if bit v n then ucast v - 2 ^ Suc n else ucast v :: u64)"
    if "take_bit (Suc n) v = v" for n
  proof -
    have "take_bit (Suc n) (uint v) = uint v" using that by (metis unsigned_take_bit_eq)
    then have "signed_take_bit n (uint v) = uint v - 2 ^ Suc n * of_bool (bit v n)"
      by (simp add: signed_take_bit_eq_take_bit_minus bit_unsigned_iff bit_imp_le_length)
    then show ?thesis by (simp add: of_int_uint)
  qed
  have b: "v AND 0x80 \<noteq> 0 \<longleftrightarrow> bit v 7" "v AND 0x8000 \<noteq> 0 \<longleftrightarrow> bit v 15" "v AND 0x80000000 \<noteq> 0 \<longleftrightarrow> bit v 31"
    using bit_iff_and_push_bit_not_eq_0 [of v 7] bit_iff_and_push_bit_not_eq_0 [of v 15]
      bit_iff_and_push_bit_not_eq_0 [of v 31] by (simp_all add: push_bit_eq_mult)
  from assms show ?thesis using s [of 7] s [of 15] s [of 31] unfolding signedBase_def b by auto
qed

section \<open>Accepted layouts\<close>

definition table_fits :: "u64 \<Rightarrow> u64 \<Rightarrow> u32 \<Rightarrow> nat \<Rightarrow> bool" where
  "table_fits sz tab records width \<longleftrightarrow> unat tab + unat records * width \<le> 8 * unat sz"

lemma table_fits_row:
  assumes "table_fits sz tab records width" and "0 < ix" and "ix \<le> records"
  shows "row_fits sz tab records ix width"
proof -
  have "0 < unat ix" "unat ix \<le> unat records" using assms(2,3) by (simp_all add: word_less_nat_alt word_le_nat_alt)
  then have "(unat ix - 1) * width + width \<le> unat records * width"
    by (metis Suc_pred' add.commute mult_Suc mult_le_mono1 Suc_eq_plus1 diff_Suc_1)
  with assms show ?thesis by (simp add: row_fits_def row_at_def table_fits_def)
qed

lemma checkedEnd_fits:
  assumes "whole data sz" and "checkedEnd start rows rowBits sz = WordResult STACKMAP_OK v e"
  shows "table_fits sz start rows (unat rowBits)"
proof -
  have t: "unat (sz * 8) = 8 * unat sz" using assms(1) by (auto simp: whole_def word_le_nat_alt unat_word_ariths)
  have "unat rows < 2 ^ 32" "unat rowBits < 2 ^ 32"
    using unsigned_less [where ?'a = nat, of rows] unsigned_less [where ?'a = nat, of rowBits] by simp_all
  then have "unat rows * unat rowBits < 2 ^ 32 * 2 ^ 32" by (intro mult_strict_mono) simp_all
  then have s: "unat (ucast rows * ucast rowBits :: u64) = unat rows * unat rowBits"
    by (simp add: unat_word_ariths unat_ucast_u32)
  have "\<not> start > sz * 8" "\<not> ucast rows * ucast rowBits > sz * 8 - start"
    using assms(2) by (auto simp: checkedEnd_def Let_def STACKMAP_OK_def STACKMAP_TRUNCATED_def STACKMAP_MALFORMED_def split: if_splits)
  then have "unat start \<le> 8 * unat sz" "unat rows * unat rowBits \<le> 8 * unat sz - unat start"
    using t s by (simp_all add: word_less_nat_alt not_less unat_sub word_le_nat_alt)
  then show ?thesis by (simp add: table_fits_def)
qed

lemma ok_thenE:
  assumes "ok_then r (\<lambda>c. (c, y)) k = Inr (STACKMAP_OK, z)"
  obtains v n where "r = Inr (WordResult STACKMAP_OK v n)" and "k v n = Inr (STACKMAP_OK, z)"
proof (cases r)
  case (Inr w)
  with assms have "wr_code w = STACKMAP_OK" "k (wr_value w) (wr_nextBit w) = Inr (STACKMAP_OK, z)"
    by (auto simp: ok_then_def split: if_splits)
  moreover from this(1) have "w = WordResult STACKMAP_OK (wr_value w) (wr_nextBit w)" by (simp add: WordResult_def)
  ultimately show ?thesis using Inr that by metis
qed (use assms in \<open>simp add: ok_then_def\<close>)

lemma parsed_thenE:
  assumes "parsed_then r k = Inr (STACKMAP_OK, z)"
  obtains l cur where "r = Inr (STACKMAP_OK, l, cur)" and "k l cur = Inr (STACKMAP_OK, z)"
  using assms by (cases r) (auto simp: parsed_then_def split: if_splits)

lemma codes_differ [simp]: "STACKMAP_MALFORMED \<noteq> STACKMAP_OK" "STACKMAP_TRUNCATED \<noteq> STACKMAP_OK"
  by (simp_all add: STACKMAP_MALFORMED_def STACKMAP_TRUNCATED_def STACKMAP_OK_def)

lemma malformedE:
  assumes "(if P then Inr (STACKMAP_MALFORMED, y) else x) = Inr (STACKMAP_OK, z)"
  obtains "\<not> P" and "x = Inr (STACKMAP_OK, z)"
  using assms by (simp split: if_splits)

lemma parse_regs_fits:
  assumes "whole data sz" and "parse_regs data sz l cur = Inr (STACKMAP_OK, l', cur')"
  shows "l' = l\<lparr>regData := regData l', regRecords := regRecords l', regBits := regBits l'\<rparr> \<and>
    regBits l' \<le> 32 \<and> table_fits sz (regData l') (regRecords l') (unat (regBits l'))"
  using assms(2) unfolding parse_regs_def Let_def
  by (elim ok_thenE) (auto split: if_splits elim!: ok_thenE dest!: checkedEnd_fits [OF assms(1)])

lemma parse_lines_fits:
  assumes "whole data sz" and "parse_lines data sz l cur = Inr (STACKMAP_OK, l', cur')"
  shows "l' = l\<lparr>lineData := lineData l', lineRecords := lineRecords l', lineBits := lineBits l'\<rparr> \<and>
    lineBits l' \<le> 32 \<and> table_fits sz (lineData l') (lineRecords l') (unat (lineBits l'))"
  using assms(2) unfolding parse_lines_def Let_def
  by (elim ok_thenE) (auto split: if_splits elim!: ok_thenE dest!: checkedEnd_fits [OF assms(1)])

lemma unat_sum_u32:
  "unat a + unat b < 2 ^ 32 \<Longrightarrow> unat (ucast (ucast (a :: u32) + ucast b :: u64) :: u32) = unat a + unat b"
  by (simp add: unsigned_ucast_eq unat_word_ariths unat_ucast_u32 take_bit_nat_eq_self)

lemma parse_slots_fits:
  assumes "whole data sz" and "parse_slots data sz l cur = Inr (STACKMAP_OK, l', cur')"
  shows "l' = l\<lparr>slotData := slotData l', slotRecords := slotRecords l', slotBaseBits := slotBaseBits l',
      slotBitmapBits := slotBitmapBits l'\<rparr> \<and> (slotBaseBits l' = 8 \<or> slotBaseBits l' = 16 \<or> slotBaseBits l' = 32) \<and>
    table_fits sz (slotData l') (slotRecords l') (slot_row l')"
proof -
  have u: "unat (ucast (8 + ucast m :: u64) :: u32) = 8 + unat m" "unat (ucast (16 + ucast m :: u64) :: u32) = 16 + unat m"
      "unat (ucast (32 + ucast m :: u64) :: u32) = 32 + unat m"
    if "\<not> m > 0x7fffffff" for m :: u32
    using that unat_sum_u32 [of 8 m] unat_sum_u32 [of 16 m] unat_sum_u32 [of 32 m] by (simp_all add: word_less_nat_alt)
  show ?thesis using assms(2) unfolding parse_slots_def Let_def
    by (elim ok_thenE) (auto split: if_splits elim!: ok_thenE dest!: checkedEnd_fits [OF assms(1)] simp: slot_row_def u)
qed

lemma parse_derived_fits:
  assumes "whole data sz" and "parse_derived data sz l cur = Inr (STACKMAP_OK, l', cur')"
    and "regIndexBits l \<le> 32" and "slotIndexBits l \<le> 32"
  shows "l' = l\<lparr>derivedData := derivedData l', derivedRecords := derivedRecords l'\<rparr> \<and>
    table_fits sz (derivedData l') (derivedRecords l') (unat (regIndexBits l) + unat (slotIndexBits l))"
proof -
  have u: "unat (ucast (ucast (regIndexBits l) + ucast (slotIndexBits l) :: u64) :: u32) =
      unat (regIndexBits l) + unat (slotIndexBits l)"
    using assms(3,4) by (intro unat_sum_u32) (auto simp: word_le_nat_alt)
  show ?thesis using assms(2) unfolding parse_derived_def Let_def
    by (elim ok_thenE) (auto split: if_splits elim!: ok_thenE dest!: checkedEnd_fits [OF assms(1)] simp: u)
qed

definition index_widths :: "layout \<Rightarrow> bool" where
  "index_widths l \<longleftrightarrow> regIndexBits l \<le> 32 \<and> slotIndexBits l \<le> 32 \<and> lineIndexBits l \<le> 32 \<and> derivedIndexBits l \<le> 32 \<and>
    stackRegIndexBits l \<le> 32 \<and> stackSlotIndexBits l \<le> 32 \<and>
    unat (stackMapRowBits l) = 32 + unat (regIndexBits l) + unat (slotIndexBits l) + unat (lineIndexBits l) +
      unat (derivedIndexBits l) + unat (stackRegIndexBits l) + unat (stackSlotIndexBits l)"

lemma unat_row_bits:
  assumes "a \<le> 32" "b \<le> 32" "c \<le> 32" "d \<le> 32" "e \<le> 32" "f \<le> 32"
  shows "unat (ucast (32 + ucast a + ucast b + ucast c + ucast d + ucast e + ucast f :: u64) :: u32) =
    32 + unat (a :: u32) + unat (b :: u32) + unat (c :: u32) + unat (d :: u32) + unat (e :: u32) + unat (f :: u32)"
  using assms by (simp add: word_le_nat_alt unsigned_ucast_eq unat_word_ariths unat_ucast_u32 take_bit_nat_eq_self)

definition with_map :: "layout \<Rightarrow> u64 \<Rightarrow> u32 \<Rightarrow> u32 \<Rightarrow> u32 \<Rightarrow> u32 \<Rightarrow> u32 \<Rightarrow> u32 \<Rightarrow> u32 \<Rightarrow> layout" where
  "with_map l d n a b c e f g = l\<lparr>stackMapData := d, stackMapRecords := n,
    stackMapRowBits := ucast (32 + ucast a + ucast b + ucast c + ucast e + ucast f + ucast g :: u64), regIndexBits := a,
    slotIndexBits := b, lineIndexBits := c, derivedIndexBits := e, stackRegIndexBits := f, stackSlotIndexBits := g\<rparr>"

lemma with_map_fits:
  assumes "\<not> (a > 32 \<or> b > 32 \<or> c > 32 \<or> e > 32 \<or> f > 32 \<or> g > 32)"
    and "table_fits sz d n (unat (ucast (32 + ucast a + ucast b + ucast c + ucast e + ucast f + ucast g :: u64) :: u32))"
  shows "index_widths (with_map l d n a b c e f g) \<and>
    table_fits sz (stackMapData (with_map l d n a b c e f g)) (stackMapRecords (with_map l d n a b c e f g))
      (unat (stackMapRowBits (with_map l d n a b c e f g)))"
  using assms by (simp add: with_map_def index_widths_def unat_row_bits not_less)

lemma parse_map_fits:
  assumes "whole data sz" and "parse_map data sz grow records l cur = Inr (STACKMAP_OK, l', cur')"
  shows "index_widths l' \<and> table_fits sz (stackMapData l') (stackMapRecords l') (unat (stackMapRowBits l'))"
  using assms(2) unfolding parse_map_def Let_def with_map_def [symmetric]
  by (cases grow; simp only: if_True if_False; elim ok_thenE malformedE)
    (drule Inr_inject, drule checkedEnd_fits [OF assms(1)], drule Inr_inject, simp only: prod.inject, elim conjE, hypsubst,
      rule with_map_fits, assumption, assumption)+

definition layout_fits :: "u64 \<Rightarrow> layout \<Rightarrow> bool" where
  "layout_fits sz l \<longleftrightarrow> index_widths l \<and> regBits l \<le> 32 \<and> lineBits l \<le> 32 \<and>
    (slotBaseBits l = 8 \<or> slotBaseBits l = 16 \<or> slotBaseBits l = 32) \<and>
    table_fits sz (stackMapData l) (stackMapRecords l) (unat (stackMapRowBits l)) \<and>
    table_fits sz (regData l) (regRecords l) (unat (regBits l)) \<and>
    table_fits sz (slotData l) (slotRecords l) (slot_row l) \<and>
    table_fits sz (lineData l) (lineRecords l) (unat (lineBits l)) \<and>
    table_fits sz (derivedData l) (derivedRecords l) (unat (regIndexBits l) + unat (slotIndexBits l))"

lemma parseLayout_fits:
  assumes w: "whole data sz" and p: "parseLayout data sz b grow = Inr (STACKMAP_OK, l)" and n: "stackMapRecords l \<noteq> 0"
  shows "layout_fits sz l"
proof -
  from p obtain n cur where "n = 0 \<and> l = Layout\<lparr>stackMapRecords := n\<rparr> \<or>
    and_then (parsed_then (parse_map data sz grow n (Layout\<lparr>stackMapRecords := n\<rparr>) cur) (\<lambda>l cur.
      parsed_then (parse_regs data sz l cur) (\<lambda>l cur. parsed_then (parse_slots data sz l cur) (\<lambda>l cur.
      parsed_then (parse_lines data sz l cur) (parse_derived data sz))))) (\<lambda>(c, l, cur). Inr (c, l)) = Inr (STACKMAP_OK, l)"
    unfolding parseLayout_def Let_def by (elim ok_thenE) (simp split: if_splits, blast+)
  then obtain cur' where "parsed_then (parse_map data sz grow n (Layout\<lparr>stackMapRecords := n\<rparr>) cur) (\<lambda>l cur.
      parsed_then (parse_regs data sz l cur) (\<lambda>l cur. parsed_then (parse_slots data sz l cur) (\<lambda>l cur.
      parsed_then (parse_lines data sz l cur) (parse_derived data sz)))) = Inr (STACKMAP_OK, l, cur')"
    using \<open>stackMapRecords l \<noteq> 0\<close> by (auto simp: and_then_Inr_iff)
  then obtain l1 c1 l2 c2 l3 c3 l4 c4 where
    m: "parse_map data sz grow n (Layout\<lparr>stackMapRecords := n\<rparr>) cur = Inr (STACKMAP_OK, l1, c1)"
    and r: "parse_regs data sz l1 c1 = Inr (STACKMAP_OK, l2, c2)"
    and s: "parse_slots data sz l2 c2 = Inr (STACKMAP_OK, l3, c3)"
    and t: "parse_lines data sz l3 c3 = Inr (STACKMAP_OK, l4, c4)"
    and d: "parse_derived data sz l4 c4 = Inr (STACKMAP_OK, l, cur')"
    by (elim parsed_thenE) blast
  note m = parse_map_fits [OF w m] and r = parse_regs_fits [OF w r] and s = parse_slots_fits [OF w s]
    and t = parse_lines_fits [OF w t]
  have b: "regIndexBits l4 = regIndexBits l1" "slotIndexBits l4 = slotIndexBits l1"
    by (subst t [THEN conjunct1], subst s [THEN conjunct1], subst r [THEN conjunct1], simp)+
  have "regIndexBits l4 \<le> 32" "slotIndexBits l4 \<le> 32" using m unfolding b by (simp_all add: index_widths_def)
  note d = parse_derived_fits [OF w d this]
  have "l = l1\<lparr>regData := regData l2, regRecords := regRecords l2, regBits := regBits l2,
      slotData := slotData l3, slotRecords := slotRecords l3, slotBaseBits := slotBaseBits l3,
      slotBitmapBits := slotBitmapBits l3, lineData := lineData l4, lineRecords := lineRecords l4, lineBits := lineBits l4,
      derivedData := derivedData l, derivedRecords := derivedRecords l\<rparr>"
    by (subst d [THEN conjunct1], subst t [THEN conjunct1], subst s [THEN conjunct1], subst r [THEN conjunct1], simp)
  note e = this
  have "layout_fits sz (l1\<lparr>regData := regData l2, regRecords := regRecords l2, regBits := regBits l2,
      slotData := slotData l3, slotRecords := slotRecords l3, slotBaseBits := slotBaseBits l3,
      slotBitmapBits := slotBitmapBits l3, lineData := lineData l4, lineRecords := lineRecords l4, lineBits := lineBits l4,
      derivedData := derivedData l, derivedRecords := derivedRecords l\<rparr>)"
    using m r [THEN conjunct2] s [THEN conjunct2] t [THEN conjunct2] d [THEN conjunct2] b
    by (auto simp: layout_fits_def index_widths_def slot_row_def)
  then show ?thesis by (subst e)
qed


definition demo_map :: "u8 list" where
  "demo_map = [8, 49, 17, 1, 1, 5, 0, 0, 0, 15, 170, 64, 130, 31, 0, 74, 0]"

definition demo_layout :: layout where
  "demo_layout = Layout\<lparr>stackMapData := 40, stackMapRecords := 1, stackMapRowBits := 35, regIndexBits := 1,
    slotIndexBits := 1, derivedIndexBits := 1, regData := 83, regRecords := 1, regBits := 4, slotData := 99,
    slotRecords := 1, slotBaseBits := 8, slotBitmapBits := 4, lineData := 119, derivedData := 123, derivedRecords := 4\<rparr>"

lemma demo_layout_parsed: "parseLayout demo_map 17 16 False = Inr (STACKMAP_OK, demo_layout)"
  by code_simp

lemma demo_map_whole: "whole demo_map 17"
  by code_simp


text \<open>
  C8. The compressed format of the slots. A row that encodes pieces of 31 slots, as they are or as runs
  of pieces that are all references or all none, is decoded to the events of exactly the slots so
  described, in order, at the signed base of the row less 8 bytes for every slot; the number of roots it returns is
  their number, and it never takes a well-formed row for a malformed one.
\<close>

theorem decodeSlotRoots_decompresses:
  assumes "whole data sz" and "row_fits sz (slotData l) (slotRecords l) ix (slot_row l)"
    and "n = 8 \<or> n = 16 \<or> n = 32" and "slotBaseBits l = of_nat n"
    and "format \<noteq> PURE_COMPRESSED_STACKMAP" and "slot_items items pad" and "take_bit n base = base"
    and "length (row_bits items pad) = unat (slotBitmapBits l)"
    and "bits_at data (row_at (slotData l) ix (slot_row l)) (number_bits n base @ row_bits items pad)"
  shows "yields cap (decodeSlotRoots data sz l ix format kind row db cap)
    (map (\<lambda>k. slot_event kind row db (of_int (signed_take_bit (n - 1) (uint base)) - 8 * of_nat k)) (item_slots items))
    STACKMAP_OK (of_nat (length (item_slots items)))"
proof -
  have b: "slotBaseBits l \<le> 32" "unat (slotBaseBits l) = n" using assms(3,4) by auto
  have at: "bits_at data (row_at (slotData l) ix (slot_row l)) (number_bits n base)"
    "bits_at data (row_at (slotData l) ix (slot_row l) + unat (slotBaseBits l)) (row_bits items pad)"
    using assms(9) by (simp_all add: bits_at_append b(2))
  have "signedBase (data_word data (row_at (slotData l) ix (slot_row l)) (unat (slotBaseBits l))) (slotBaseBits l) =
      of_int (signed_take_bit (n - 1) (uint base))"
    using data_word_encoded [OF at(1) assms(7)] signedBase_signed [of "slotBaseBits l" base] assms(3,4,7) b(2) by auto
  with yields_decodeSlotRoots_compressed [OF assms(1,2) b(1) assms(5,6,8) at(2)] show ?thesis
    by (simp add: slot_events_def SLOT_BYTES_def mult.commute)
qed

definition demo_row :: "u8 list" where
  "demo_row = [248, 196, 0, 0, 0, 0]"

text \<open>One piece without references, then one whose first slot is one: slot 31 at base -8.\<close>

theorem decodeSlotRoots_decompresses_witness:
  "yields 5 (decodeSlotRoots demo_row 6 (Layout\<lparr>slotRecords := 1, slotBaseBits := 8, slotBitmapBits := 40\<rparr>) 1 1
      STACKMAP_EVENT_SLOT_ROOT 7 0 5) [slot_event STACKMAP_EVENT_SLOT_ROOT 7 0 (- 256)] STACKMAP_OK 1"
proof -
  have "item_slots [Run False 1, Raw (True # replicate 30 False)] = [31]" by code_simp
  moreover have "bits_at demo_row 0 (number_bits 8 0xF8 @ row_bits [Run False 1, Raw (True # replicate 30 False)] 2)" by code_simp
  moreover have "length (row_bits [Run False 1, Raw (True # replicate 30 False)] 2) = 40" by code_simp
  ultimately show ?thesis
    using decodeSlotRoots_decompresses [of demo_row 6 "Layout\<lparr>slotRecords := 1, slotBaseBits := 8, slotBitmapBits := 40\<rparr>" 1 8 1
      "[Run False 1, Raw (True # replicate 30 False)]" 2 "0xF8" 5 STACKMAP_EVENT_SLOT_ROOT 7 0]
    by (simp add: whole_def demo_row_def row_fits_def row_at_def slot_row_def Layout_def PURE_COMPRESSED_STACKMAP_def)
qed

end
