(* ===== verification/StackMapRows.thy ===== *)
theory StackMapRows
  imports StackMapEvents
begin

text \<open>
  Rows and whole functions: for a layout that was accepted and indices that are in range, the events of
  a row are those of its registers, slots, derived roots and stack registers, in that order, and the
  events of a function are its header, its prologue and its rows. Slots are in the pure format here.
\<close>

section \<open>Parts of a row\<close>

abbreviation set_in :: "u8 list \<Rightarrow> nat \<Rightarrow> nat \<Rightarrow> nat list" where
  "set_in data at n \<equiv> filter (\<lambda>k. data_bit data (at + k)) [0..<n]"

definition regs_of :: "u8 list \<Rightarrow> layout \<Rightarrow> u32 \<Rightarrow> nat list" where
  "regs_of data l ix = (if ix = 0 then [] else set_in data (row_at (regData l) ix (unat (regBits l))) (unat (regBits l)))"

definition slots_of :: "u8 list \<Rightarrow> layout \<Rightarrow> u32 \<Rightarrow> nat list" where
  "slots_of data l ix = (if ix = 0 then []
    else set_in data (row_at (slotData l) ix (slot_row l) + unat (slotBaseBits l)) (unat (slotBitmapBits l)))"

definition reg_part :: "bool \<Rightarrow> u8 list \<Rightarrow> layout \<Rightarrow> u32 \<Rightarrow> u32 \<Rightarrow> u32 \<Rightarrow> u64 \<Rightarrow> stack_event list" where
  "reg_part x86 data l ix kind row db = concat (map (reg_events x86 kind row db) (regs_of data l ix))"

definition slot_part :: "u8 list \<Rightarrow> layout \<Rightarrow> u32 \<Rightarrow> u32 \<Rightarrow> u32 \<Rightarrow> u64 \<Rightarrow> stack_event list" where
  "slot_part data l ix kind row db = slot_events kind row db
    (signedBase (data_word data (row_at (slotData l) ix (slot_row l)) (unat (slotBaseBits l))) (slotBaseBits l))
    (slots_of data l ix)"

lemma yields_reg_part:
  assumes w: "whole data sz" and l: "layout_fits sz l" and ix: "ix \<le> regRecords l"
  shows "yields cap (decodeRegRoots x86 data sz l ix kind row db cap) (reg_part x86 data l ix kind row db) STACKMAP_OK
    (of_nat (length (base_registers x86 (regs_of data l ix))))"
proof (cases "ix = 0")
  case True
  have "decodeRegRoots x86 data sz l ix kind row db cap events i = Inr (RootResult STACKMAP_OK i 0, events)" for events i
    using True by (simp add: decodeRegRoots_def)
  from yields_ext [OF this yields_return] True show ?thesis by (simp add: reg_part_def regs_of_def base_registers_def)
next
  case False
  then have "row_fits sz (regData l) (regRecords l) ix (unat (regBits l))" "regBits l \<le> 32"
    using l ix by (auto simp: layout_fits_def word_neq_0_conv intro: table_fits_row)
  from yields_decodeRegRoots [OF w this] False show ?thesis by (simp add: reg_part_def regs_of_def)
qed

lemma yields_slot_part:
  assumes w: "whole data sz" and l: "layout_fits sz l" and ix: "ix \<le> slotRecords l"
  shows "yields cap (decodeSlotRoots data sz l ix PURE_COMPRESSED_STACKMAP kind row db cap)
    (slot_part data l ix kind row db) STACKMAP_OK (of_nat (length (slots_of data l ix)))"
proof (cases "ix = 0")
  case True
  have "decodeSlotRoots data sz l ix PURE_COMPRESSED_STACKMAP kind row db cap events i =
      Inr (RootResult STACKMAP_OK i 0, events)" for events i
    using True by (simp add: decodeSlotRoots_def)
  from yields_ext [OF this yields_return] True show ?thesis by (simp add: slot_part_def slots_of_def)
next
  case False
  then have "row_fits sz (slotData l) (slotRecords l) ix (slot_row l)" "slotBaseBits l \<le> 32"
    using l ix by (auto simp: layout_fits_def word_neq_0_conv intro: table_fits_row)
  from yields_decodeSlotRoots_pure [OF w this] False show ?thesis by (simp add: slot_part_def slots_of_def)
qed

section \<open>Derived roots\<close>

definition derived_at :: "layout \<Rightarrow> u32 \<Rightarrow> nat \<Rightarrow> nat" where
  "derived_at l d j = unat (derivedData l) + (unat d - 1 + j) * (unat (regIndexBits l) + unat (slotIndexBits l))"

definition derived_reg :: "u8 list \<Rightarrow> layout \<Rightarrow> u32 \<Rightarrow> nat \<Rightarrow> u32" where
  "derived_reg data l d j = data_word data (derived_at l d j) (unat (regIndexBits l))"

definition derived_slot :: "u8 list \<Rightarrow> layout \<Rightarrow> u32 \<Rightarrow> nat \<Rightarrow> u32" where
  "derived_slot data l d j = data_word data (derived_at l d j + unat (regIndexBits l)) (unat (slotIndexBits l))"

definition derived_one :: "bool \<Rightarrow> u8 list \<Rightarrow> layout \<Rightarrow> u32 \<Rightarrow> u32 \<Rightarrow> nat \<Rightarrow> stack_event list" where
  "derived_one x86 data l d row j =
    reg_part x86 data l (derived_reg data l d j) STACKMAP_EVENT_DERIVED_REG_ROOT row (of_nat j) @
    slot_part data l (derived_slot data l d j) STACKMAP_EVENT_DERIVED_SLOT_ROOT row (of_nat j)"

text \<open>The derived roots of \<open>n\<close> base roots, from row \<open>d\<close> of their table on.\<close>

definition derived_ok :: "u8 list \<Rightarrow> layout \<Rightarrow> u32 \<Rightarrow> nat \<Rightarrow> bool" where
  "derived_ok data l d n \<longleftrightarrow> d = 0 \<or> n = 0 \<or> d \<le> derivedRecords l \<and> unat d + n \<le> Suc (unat (derivedRecords l)) \<and>
    (\<forall>j<n. derived_reg data l d j \<le> regRecords l \<and> derived_slot data l d j \<le> slotRecords l)"

definition derived_part :: "bool \<Rightarrow> u8 list \<Rightarrow> layout \<Rightarrow> u32 \<Rightarrow> nat \<Rightarrow> u32 \<Rightarrow> stack_event list" where
  "derived_part x86 data l d n row = (if d = 0 then [] else concat (map (derived_one x86 data l d row) [0..<n]))"

lemma derived_read:
  assumes w: "whole data sz" and l: "layout_fits sz l" and d: "0 < d" "d \<le> derivedRecords l"
    and j: "unat d + unat b \<le> unat (derivedRecords l)"
  shows "\<exists>c. readBits data sz (derivedData l + (ucast (d - 1) + b) * ucast (regIndexBits l + slotIndexBits l)) (regIndexBits l) =
      Inr (WordResult STACKMAP_OK (derived_reg data l d (unat b)) c) \<and>
    (\<exists>c'. readBits data sz c (slotIndexBits l) = Inr (WordResult STACKMAP_OK (derived_slot data l d (unat b)) c'))"
proof -
  have widths: "regIndexBits l \<le> 32" "slotIndexBits l \<le> 32" using l by (simp_all add: layout_fits_def index_widths_def)
  let ?W = "unat (regIndexBits l) + unat (slotIndexBits l)"
  have uW: "unat (ucast (regIndexBits l + slotIndexBits l) :: u64) = ?W"
    using widths by (simp add: unat_ucast_u32 unat_word_ariths word_le_nat_alt)
  have d1: "unat (ucast (d - 1) :: u64) = unat d - 1"
    using d(1) unat_minus_one_Suc [of d] by (auto simp: unat_ucast_u32)
  have d0: "0 < unat d" using d(1) by (simp add: word_less_nat_alt)
  have rec: "unat (derivedRecords l) < 2 ^ 32" using unsigned_less [where ?'a = nat, of "derivedRecords l"] by simp
  have "unat (ucast (d - 1) + b) = unat d - 1 + unat b" using d1 d0 j rec by (simp add: unat_word_ariths)
  note k = this
  have "unat (derivedData l) + unat (derivedRecords l) * ?W \<le> 8 * unat sz" using l by (simp add: layout_fits_def table_fits_def)
  moreover have "(unat d - 1 + unat b) * ?W + ?W \<le> unat (derivedRecords l) * ?W"
  proof -
    have "(unat d - 1 + unat b) * ?W + ?W = (unat d + unat b) * ?W" using d0 by (cases "unat d") simp_all
    then show ?thesis using j by simp
  qed
  ultimately have e: "derived_at l d (unat b) + ?W \<le> 8 * unat sz" by (simp add: derived_at_def)
  let ?at = "derivedData l + (ucast (d - 1) + b) * ucast (regIndexBits l + slotIndexBits l)"
  have z: "8 * unat sz < 2 ^ 64" using w by (auto simp: whole_def word_le_nat_alt)
  have at: "unat ?at = derived_at l d (unat b)"
  proof -
    have lt: "derived_at l d (unat b) < 2 ^ 64" using e z by simp
    then have "(unat d - 1 + unat b) * ?W < 2 ^ 64" by (simp add: derived_at_def)
    then have "unat ((ucast (d - 1) + b) * ucast (regIndexBits l + slotIndexBits l)) = (unat d - 1 + unat b) * ?W"
      using k uW by (simp only: unat_word_ariths) simp
    with lt show ?thesis by (simp add: derived_at_def unat_word_ariths)
  qed
  have b1: "unat ?at + unat (regIndexBits l) \<le> 8 * unat sz" using e at by simp
  note r1 = readBits_whole [OF w widths(1) b1] and c1 = unat_plus_nat [OF w b1, unfolded of_nat_unat]
  have b2: "unat (?at + ucast (regIndexBits l)) + unat (slotIndexBits l) \<le> 8 * unat sz" using e unfolding c1 at by simp
  from readBits_whole [OF w widths(2) b2] r1 show ?thesis unfolding c1 at derived_reg_def derived_slot_def by blast
qed

lemma yields_derived_loop:
  assumes w: "whole data sz" and l: "layout_fits sz l" and d: "0 < d" "d \<le> derivedRecords l"
    and n: "unat d + unat n \<le> Suc (unat (derivedRecords l))"
    and ok: "\<And>j. j < unat n \<Longrightarrow> derived_reg data l d j \<le> regRecords l \<and> derived_slot data l d j \<le> slotRecords l"
    and m: "unat b + m = unat n"
  shows "yields cap (derived_loop x86 data sz l d n PURE_COMPRESSED_STACKMAP row cap b)
    (concat (map (derived_one x86 data l d row) [unat b..<unat n])) STACKMAP_OK 0"
  using m
proof (induction m arbitrary: b)
  case 0
  then have "derived_loop x86 data sz l d n PURE_COMPRESSED_STACKMAP row cap b events i =
      Inr (RootResult STACKMAP_OK i 0, events)" for events i
    by (subst derived_loop.simps) (simp add: word_less_nat_alt)
  from yields_ext [OF this yields_return] 0 show ?case by simp
next
  case (Suc m)
  then have lt: "unat b < unat n" and b: "b < n" by (simp_all add: word_less_nat_alt)
  have "unat n < 2 ^ 64" using unsigned_less [where ?'a = nat, of n] by simp
  with lt have b1: "unat (b + 1) = Suc (unat b)" by (simp add: unat_word_ariths)
  then have m: "unat (b + 1) + m = unat n" using Suc.prems by simp
  have "unat d + unat b \<le> unat (derivedRecords l)" using lt n by simp
  from derived_read [OF w l d this] obtain c c' where
    r1: "readBits data sz (derivedData l + (ucast (d - 1) + b) * ucast (regIndexBits l + slotIndexBits l)) (regIndexBits l) =
      Inr (WordResult STACKMAP_OK (derived_reg data l d (unat b)) c)" and
    r2: "readBits data sz c (slotIndexBits l) = Inr (WordResult STACKMAP_OK (derived_slot data l d (unat b)) c')" by blast
  let ?loop = "derived_loop x86 data sz l d n PURE_COMPRESSED_STACKMAP row cap (b + 1)"
  let ?slots = "decodeSlotRoots data sz l (derived_slot data l d (unat b)) PURE_COMPRESSED_STACKMAP STACKMAP_EVENT_DERIVED_SLOT_ROOT row b cap"
  let ?regs = "decodeRegRoots x86 data sz l (derived_reg data l d (unat b)) STACKMAP_EVENT_DERIVED_REG_ROOT row b cap"
  have step: "derived_loop x86 data sz l d n PURE_COMPRESSED_STACKMAP row cap b events i =
      root_then (?regs events i) rr_baseRoots (\<lambda>r events. root_then (?slots events (rr_nextEvent r)) rr_baseRoots
        (\<lambda>r events. ?loop events (rr_nextEvent r)))" for events i
    by (subst derived_loop.simps) (simp add: Let_def b r1 r2 ok_then_def)
  have ob: "(of_nat (unat b) :: u64) = b" by simp
  have e: "[unat b..<unat n] = unat b # [unat (b + 1)..<unat n]" using lt b1 by (simp add: upt_conv_Cons)
  note k = yields_then [where k = "\<lambda>_. ?loop" and h = rr_baseRoots,
    OF yields_slot_part [OF w l conjunct2 [OF ok [OF lt]]] Suc.IH [OF m]]
  from yields_ext [OF step yields_then [where k = "\<lambda>_ events i. root_then (?slots events i) rr_baseRoots
      (\<lambda>r events. ?loop events (rr_nextEvent r))", OF yields_reg_part [OF w l conjunct1 [OF ok [OF lt]]] k]]
  show ?case unfolding e by (simp add: derived_one_def)
qed

lemma yields_derived_part:
  assumes w: "whole data sz" and l: "layout_fits sz l" and ok: "derived_ok data l d (unat n)"
  shows "yields cap (decodeDerived x86 data sz l d n PURE_COMPRESSED_STACKMAP row cap)
    (derived_part x86 data l d (unat n) row) STACKMAP_OK 0"
proof (cases "d = 0 \<or> n = 0")
  case True
  then have "decodeDerived x86 data sz l d n PURE_COMPRESSED_STACKMAP row cap events i =
      Inr (RootResult STACKMAP_OK i 0, events)" for events i
    by (simp add: decodeDerived_def)
  from yields_ext [OF this yields_return] True show ?thesis by (auto simp: derived_part_def)
next
  case False
  then have d: "0 < d" "d \<le> derivedRecords l" and n: "unat d + unat n \<le> Suc (unat (derivedRecords l))"
    and r: "\<And>j. j < unat n \<Longrightarrow> derived_reg data l d j \<le> regRecords l \<and> derived_slot data l d j \<le> slotRecords l"
    using ok by (auto simp: derived_ok_def word_neq_0_conv unat_eq_0)
  have u: "unat (derivedRecords l - d) = unat (derivedRecords l) - unat d" using d(2) by (rule unat_sub)
  have "0 < unat d" "unat d \<le> unat (derivedRecords l)" using d by (simp_all add: word_less_nat_alt word_le_nat_alt)
  moreover have "unat (derivedRecords l) < 2 ^ 32" using unsigned_less [where ?'a = nat, of "derivedRecords l"] by simp
  ultimately have "unat (derivedRecords l - d + 1) = Suc (unat (derivedRecords l) - unat d)" using u by (simp add: unat_word_ariths)
  then have "\<not> n > ucast (derivedRecords l - d + 1)"
    using n by (simp add: word_less_nat_alt unat_ucast_u32)
  moreover have "\<not> d > derivedRecords l" using d(2) by (simp add: not_less)
  ultimately have "decodeDerived x86 data sz l d n PURE_COMPRESSED_STACKMAP row cap events i =
      derived_loop x86 data sz l d n PURE_COMPRESSED_STACKMAP row cap 0 events i" for events i
    using False by (simp add: decodeDerived_def)
  from yields_ext [OF this yields_derived_loop [OF w l d n r, of 0]] False show ?thesis by (simp add: derived_part_def)
qed

section \<open>A row\<close>

definition line_of :: "u8 list \<Rightarrow> layout \<Rightarrow> u32 \<Rightarrow> u32" where
  "line_of data l ix = (if ix = 0 then 0 else data_word data (row_at (lineData l) ix (unat (lineBits l))) (unat (lineBits l)))"

definition base_roots :: "bool \<Rightarrow> u8 list \<Rightarrow> layout \<Rightarrow> index_set \<Rightarrow> nat" where
  "base_roots x86 data l ix = length (base_registers x86 (regs_of data l (ix_reg ix))) + length (slots_of data l (ix_slot ix))"

definition row_events :: "bool \<Rightarrow> u8 list \<Rightarrow> layout \<Rightarrow> u32 \<Rightarrow> index_set \<Rightarrow> stack_event list" where
  "row_events x86 data l pc ix =
    \<lparr>ev_kind = STACKMAP_EVENT_ROW, ev_row = pc, ev_value0 = ucast pc, ev_value1 = ucast (line_of data l (ix_line ix))\<rparr> #
    reg_part x86 data l (ix_reg ix) STACKMAP_EVENT_REG_ROOT pc 0 @
    slot_part data l (ix_slot ix) STACKMAP_EVENT_SLOT_ROOT pc 0 @
    derived_part x86 data l (ix_derived ix) (base_roots x86 data l ix) pc @
    reg_part x86 data l (ix_stackReg ix) STACKMAP_EVENT_STACK_REG_ROOT pc 0 @
    slot_part data l (ix_stackSlot ix) STACKMAP_EVENT_STACK_SLOT_ROOT pc 0"

definition row_ok :: "bool \<Rightarrow> u8 list \<Rightarrow> layout \<Rightarrow> index_set \<Rightarrow> bool" where
  "row_ok x86 data l ix \<longleftrightarrow> ix_reg ix \<le> regRecords l \<and> ix_slot ix \<le> slotRecords l \<and> ix_line ix \<le> lineRecords l \<and>
    ix_stackReg ix \<le> regRecords l \<and> ix_stackSlot ix \<le> slotRecords l \<and>
    derived_ok data l (ix_derived ix) (base_roots x86 data l ix)"

lemma base_roots_fit:
  assumes "layout_fits sz l"
  shows "unat (of_nat (length (base_registers x86 (regs_of data l (ix_reg ix)))) +
    of_nat (length (slots_of data l (ix_slot ix))) :: u64) = base_roots x86 data l ix"
proof -
  have "length (base_registers x86 (regs_of data l (ix_reg ix))) \<le> length (regs_of data l (ix_reg ix))"
    by (simp add: base_registers_def)
  also have "\<dots> \<le> unat (regBits l)" using length_filter_le [of _ "[0..<unat (regBits l)]"] by (simp add: regs_of_def)
  also have "\<dots> < 2 ^ 32" using unsigned_less [where ?'a = nat, of "regBits l"] by simp
  finally have a: "length (base_registers x86 (regs_of data l (ix_reg ix))) < 2 ^ 32" .
  have "length (slots_of data l (ix_slot ix)) \<le> unat (slotBitmapBits l)"
    using length_filter_le [of _ "[0..<unat (slotBitmapBits l)]"] by (simp add: slots_of_def)
  also have "\<dots> < 2 ^ 32" using unsigned_less [where ?'a = nat, of "slotBitmapBits l"] by simp
  finally have "base_roots x86 data l ix < 2 ^ 64" using a by (simp add: base_roots_def)
  moreover have "of_nat (length (base_registers x86 (regs_of data l (ix_reg ix)))) +
      of_nat (length (slots_of data l (ix_slot ix))) = (of_nat (base_roots x86 data l ix) :: u64)"
    by (simp add: base_roots_def)
  ultimately show ?thesis by (simp add: unat_of_nat)
qed

lemma read_line:
  assumes w: "whole data sz" and l: "layout_fits sz l" and ix: "ix \<le> lineRecords l"
  shows "\<exists>c. (if ix \<noteq> 0 then readTableRow data sz (lineData l) (lineRecords l) (lineBits l) ix
    else Inr (WordResult STACKMAP_OK 0 0)) = Inr (WordResult STACKMAP_OK (line_of data l ix) c)"
proof (cases "ix = 0")
  case False
  then have "row_fits sz (lineData l) (lineRecords l) ix (unat (lineBits l))" "lineBits l \<le> 32"
    using l ix by (auto simp: layout_fits_def word_neq_0_conv intro: table_fits_row)
  from readTableRow_reads [OF w this] False show ?thesis by (simp add: line_of_def)
qed (simp add: line_of_def)

lemma yields_decode_row:
  assumes w: "whole data sz" and l: "layout_fits sz l" and ok: "row_ok x86 data l ix"
  shows "\<exists>r. yields cap (decode_row x86 data sz l PURE_COMPRESSED_STACKMAP pc ix cap) (row_events x86 data l pc ix) STACKMAP_OK r"
proof -
  have le: "ix_reg ix \<le> regRecords l" "ix_slot ix \<le> slotRecords l" "ix_line ix \<le> lineRecords l"
      "ix_stackReg ix \<le> regRecords l" "ix_stackSlot ix \<le> slotRecords l"
    and d: "derived_ok data l (ix_derived ix) (base_roots x86 data l ix)"
    using ok by (simp_all add: row_ok_def)
  from read_line [OF w l le(3)] obtain c where ln: "(if ix_line ix \<noteq> 0 then readTableRow data sz (lineData l)
      (lineRecords l) (lineBits l) (ix_line ix) else Inr (WordResult STACKMAP_OK 0 0)) =
    Inr (WordResult STACKMAP_OK (line_of data l (ix_line ix)) c)" by blast
  let ?a = "of_nat (length (base_registers x86 (regs_of data l (ix_reg ix)))) :: u64"
  let ?b = "of_nat (length (slots_of data l (ix_slot ix))) :: u64"
  let ?k5 = "decodeSlotRoots data sz l (ix_stackSlot ix) PURE_COMPRESSED_STACKMAP STACKMAP_EVENT_STACK_SLOT_ROOT pc 0 cap"
  let ?k4 = "\<lambda>events i. root_then (decodeRegRoots x86 data sz l (ix_stackReg ix) STACKMAP_EVENT_STACK_REG_ROOT pc 0 cap events i)
    rr_baseRoots (\<lambda>r events. ?k5 events (rr_nextEvent r))"
  let ?k3 = "\<lambda>n events i. root_then (decodeDerived x86 data sz l (ix_derived ix) n PURE_COMPRESSED_STACKMAP pc cap events i)
    rr_baseRoots (\<lambda>r events. ?k4 events (rr_nextEvent r))"
  let ?k2 = "\<lambda>n events i. root_then (decodeSlotRoots data sz l (ix_slot ix) PURE_COMPRESSED_STACKMAP STACKMAP_EVENT_SLOT_ROOT pc 0
    cap events i) rr_baseRoots (\<lambda>r events. ?k3 (n + rr_baseRoots r) events (rr_nextEvent r))"
  let ?k1 = "\<lambda>events i. root_then (decodeRegRoots x86 data sz l (ix_reg ix) STACKMAP_EVENT_REG_ROOT pc 0 cap events i)
    rr_baseRoots (\<lambda>r events. ?k2 (rr_baseRoots r) events (rr_nextEvent r))"
  note y4 = yields_then [where k = "\<lambda>_. ?k5" and h = rr_baseRoots, OF yields_reg_part [OF w l le(4)] yields_slot_part [OF w l le(5)]]
  have "derived_ok data l (ix_derived ix) (unat (?a + ?b))" using d unfolding base_roots_fit [OF l] .
  note y3 = yields_then [where k = "\<lambda>_. ?k4" and h = rr_baseRoots, OF yields_derived_part [OF w l this] y4]
  note y2 = yields_then [where k = "\<lambda>r. ?k3 (?a + r)" and h = rr_baseRoots, OF yields_slot_part [OF w l le(2)] y3]
  note y1 = yields_then [where k = ?k2 and h = rr_baseRoots, OF yields_reg_part [OF w l le(1)] y2]
  note y0 = yields_then [where k = "\<lambda>_. ?k1" and h = rr_baseRoots, OF yields_emit y1]
  have step: "decode_row x86 data sz l PURE_COMPRESSED_STACKMAP pc ix cap events i =
      root_then (emitEvent cap STACKMAP_EVENT_ROW pc (ucast pc) (ucast (line_of data l (ix_line ix))) events i) rr_baseRoots
        (\<lambda>r events. ?k1 events (rr_nextEvent r))" for events i
    unfolding decode_row_def ln ok_then_def by simp
  from yields_ext [OF step y0] show ?thesis unfolding row_events_def base_roots_fit [OF l] by (auto simp: append_assoc)
qed

section \<open>The rows of a function\<close>

definition map_row :: "layout \<Rightarrow> nat \<Rightarrow> nat" where
  "map_row l j = unat (stackMapData l) + j * unat (stackMapRowBits l)"

definition row_pc :: "u8 list \<Rightarrow> layout \<Rightarrow> nat \<Rightarrow> u32" where
  "row_pc data l j = data_word data (map_row l j) 32"

definition row_index :: "u8 list \<Rightarrow> layout \<Rightarrow> nat \<Rightarrow> index_set" where
  "row_index data l j = (let a = map_row l j + 32; b = a + unat (regIndexBits l); c = b + unat (slotIndexBits l);
      d = c + unat (lineIndexBits l); e = d + unat (derivedIndexBits l); f = e + unat (stackRegIndexBits l) in
    \<lparr>ix_reg = data_word data a (unat (regIndexBits l)), ix_slot = data_word data b (unat (slotIndexBits l)),
      ix_line = data_word data c (unat (lineIndexBits l)), ix_derived = data_word data d (unat (derivedIndexBits l)),
      ix_stackReg = data_word data e (unat (stackRegIndexBits l)),
      ix_stackSlot = data_word data f (unat (stackSlotIndexBits l))\<rparr>)"

lemma read_next:
  assumes w: "whole data sz" and k: "unat b = k" and n: "n \<le> 32" and fit: "k + unat n \<le> 8 * unat sz"
  obtains c where "readBits data sz b n = Inr (WordResult STACKMAP_OK (data_word data k (unat n)) c)" and "unat c = k + unat n"
proof -
  have f: "unat b + unat n \<le> 8 * unat sz" using k fit by simp
  from readBits_whole [OF w n f] unat_plus_nat [OF w f, unfolded of_nat_unat] k that show ?thesis by simp
qed

lemma readIndexSet_reads:
  assumes w: "whole data sz" and l: "layout_fits sz l" and row: "row < stackMapRecords l"
  shows "readIndexSet data sz l row = Inr (STACKMAP_OK, row_pc data l (unat row), row_index data l (unat row))"
proof -
  have widths: "regIndexBits l \<le> 32" "slotIndexBits l \<le> 32" "lineIndexBits l \<le> 32" "derivedIndexBits l \<le> 32"
      "stackRegIndexBits l \<le> 32" "stackSlotIndexBits l \<le> 32"
    and sum: "unat (stackMapRowBits l) = 32 + unat (regIndexBits l) + unat (slotIndexBits l) + unat (lineIndexBits l) +
      unat (derivedIndexBits l) + unat (stackRegIndexBits l) + unat (stackSlotIndexBits l)"
    using l by (simp_all add: layout_fits_def index_widths_def)
  have fits: "unat (stackMapData l) + unat (stackMapRecords l) * unat (stackMapRowBits l) \<le> 8 * unat sz"
    using l by (simp add: layout_fits_def table_fits_def)
  have "Suc (unat row) \<le> unat (stackMapRecords l)" using row by (simp add: word_less_nat_alt)
  then have "Suc (unat row) * unat (stackMapRowBits l) \<le> unat (stackMapRecords l) * unat (stackMapRowBits l)"
    by (rule mult_le_mono1)
  then have e: "map_row l (unat row) + unat (stackMapRowBits l) \<le> 8 * unat sz" using fits by (simp add: map_row_def)
  let ?at = "stackMapData l + ucast row * ucast (stackMapRowBits l)"
  have z: "8 * unat sz < 2 ^ 64" using w by (auto simp: whole_def word_le_nat_alt)
  have at: "unat ?at = map_row l (unat row)"
  proof -
    have lt: "map_row l (unat row) < 2 ^ 64" using e z by simp
    then have "unat row * unat (stackMapRowBits l) < 2 ^ 64" by (simp add: map_row_def)
    then have "unat (ucast row * ucast (stackMapRowBits l) :: u64) = unat row * unat (stackMapRowBits l)"
      by (simp add: unat_word_ariths unat_ucast_u32)
    with lt show ?thesis by (simp add: map_row_def unat_word_ariths)
  qed
  let ?m = "map_row l (unat row)"
  from read_next [OF w at, of 32] e sum obtain c0 where
    r0: "readBits data sz ?at 32 = Inr (WordResult STACKMAP_OK (data_word data ?m 32) c0)" and c0: "unat c0 = ?m + 32" by auto
  from read_next [OF w c0 widths(1)] e sum obtain c1 where
    r1: "readBits data sz c0 (regIndexBits l) = Inr (WordResult STACKMAP_OK (data_word data (?m + 32) (unat (regIndexBits l))) c1)"
    and c1: "unat c1 = ?m + 32 + unat (regIndexBits l)" by auto
  from read_next [OF w c1 widths(2)] e sum obtain c2 where
    r2: "readBits data sz c1 (slotIndexBits l) = Inr (WordResult STACKMAP_OK
      (data_word data (?m + 32 + unat (regIndexBits l)) (unat (slotIndexBits l))) c2)"
    and c2: "unat c2 = ?m + 32 + unat (regIndexBits l) + unat (slotIndexBits l)" by auto
  from read_next [OF w c2 widths(3)] e sum obtain c3 where
    r3: "readBits data sz c2 (lineIndexBits l) = Inr (WordResult STACKMAP_OK
      (data_word data (?m + 32 + unat (regIndexBits l) + unat (slotIndexBits l)) (unat (lineIndexBits l))) c3)"
    and c3: "unat c3 = ?m + 32 + unat (regIndexBits l) + unat (slotIndexBits l) + unat (lineIndexBits l)" by auto
  from read_next [OF w c3 widths(4)] e sum obtain c4 where
    r4: "readBits data sz c3 (derivedIndexBits l) = Inr (WordResult STACKMAP_OK (data_word data
      (?m + 32 + unat (regIndexBits l) + unat (slotIndexBits l) + unat (lineIndexBits l)) (unat (derivedIndexBits l))) c4)"
    and c4: "unat c4 = ?m + 32 + unat (regIndexBits l) + unat (slotIndexBits l) + unat (lineIndexBits l) +
      unat (derivedIndexBits l)" by auto
  from read_next [OF w c4 widths(5)] e sum obtain c5 where
    r5: "readBits data sz c4 (stackRegIndexBits l) = Inr (WordResult STACKMAP_OK (data_word data
      (?m + 32 + unat (regIndexBits l) + unat (slotIndexBits l) + unat (lineIndexBits l) + unat (derivedIndexBits l))
      (unat (stackRegIndexBits l))) c5)"
    and c5: "unat c5 = ?m + 32 + unat (regIndexBits l) + unat (slotIndexBits l) + unat (lineIndexBits l) +
      unat (derivedIndexBits l) + unat (stackRegIndexBits l)" by auto
  from read_next [OF w c5 widths(6)] e sum obtain c6 where
    r6: "readBits data sz c5 (stackSlotIndexBits l) = Inr (WordResult STACKMAP_OK (data_word data
      (?m + 32 + unat (regIndexBits l) + unat (slotIndexBits l) + unat (lineIndexBits l) + unat (derivedIndexBits l) +
        unat (stackRegIndexBits l)) (unat (stackSlotIndexBits l))) c6)" by auto
  show ?thesis
    unfolding readIndexSet_def Let_def r0 r1 r2 r3 r4 r5 r6 ok_then_def and_then_simps
    by (simp add: r1 r2 r3 r4 r5 r6 row_pc_def row_index_def Let_def)
qed

text \<open>A row with no index but one of derived roots has nothing to say.\<close>

definition index_none :: "index_set \<Rightarrow> bool" where
  "index_none ix \<longleftrightarrow> ix_reg ix = 0 \<and> ix_slot ix = 0 \<and> ix_line ix = 0 \<and> ix_stackReg ix = 0 \<and> ix_stackSlot ix = 0"

definition rows_events :: "bool \<Rightarrow> u8 list \<Rightarrow> layout \<Rightarrow> nat list \<Rightarrow> stack_event list" where
  "rows_events x86 data l js = concat (map (\<lambda>j. if index_none (row_index data l j) then []
    else row_events x86 data l (row_pc data l j) (row_index data l j)) js)"

lemma yields_row_loop:
  assumes w: "whole data sz" and l: "layout_fits sz l"
    and ok: "\<And>j. j < unat (stackMapRecords l) \<Longrightarrow> row_ok x86 data l (row_index data l j)"
    and m: "unat row + m = unat (stackMapRecords l)"
  shows "yields cap (row_loop x86 data sz l PURE_COMPRESSED_STACKMAP cap row)
    (rows_events x86 data l [unat row..<unat (stackMapRecords l)]) STACKMAP_OK 0"
  using m
proof (induction m arbitrary: row)
  case 0
  then have "row_loop x86 data sz l PURE_COMPRESSED_STACKMAP cap row events i = Inr (RootResult STACKMAP_OK i 0, events)" for events i
    by (subst row_loop.simps) (simp add: word_less_nat_alt)
  from yields_ext [OF this yields_return] 0 show ?case by (simp add: rows_events_def)
next
  case (Suc m)
  then have lt: "unat row < unat (stackMapRecords l)" and row: "row < stackMapRecords l" by (simp_all add: word_less_nat_alt)
  note row1 = unat_Suc_below [OF row]
  then have m: "unat (row + 1) + m = unat (stackMapRecords l)" using Suc.prems by simp
  have e: "[unat row..<unat (stackMapRecords l)] = unat row # [unat (row + 1)..<unat (stackMapRecords l)]"
    using lt row1 by (simp add: upt_conv_Cons)
  let ?ix = "row_index data l (unat row)" and ?pc = "row_pc data l (unat row)"
  let ?loop = "row_loop x86 data sz l PURE_COMPRESSED_STACKMAP cap (row + 1)"
  have step: "row_loop x86 data sz l PURE_COMPRESSED_STACKMAP cap row events i =
      (if index_none ?ix then ?loop events i
       else root_then (decode_row x86 data sz l PURE_COMPRESSED_STACKMAP ?pc ?ix cap events i) rr_baseRoots
         (\<lambda>r events. ?loop events (rr_nextEvent r)))" for events i
    by (subst row_loop.simps) (simp add: row readIndexSet_reads [OF w l row] index_none_def)
  show ?case
  proof (cases "index_none ?ix")
    case True
    from yields_ext [OF step [unfolded if_P [OF True]] Suc.IH [OF m]] True show ?thesis
      unfolding e rows_events_def by simp
  next
    case False
    from yields_decode_row [OF w l ok [OF lt]] obtain r where
      y: "yields cap (decode_row x86 data sz l PURE_COMPRESSED_STACKMAP ?pc ?ix cap) (row_events x86 data l ?pc ?ix) STACKMAP_OK r"
      by blast
    from yields_ext [OF step [unfolded if_not_P [OF False]] yields_then [OF y, where k = "\<lambda>_. ?loop", OF Suc.IH [OF m]]] False
    show ?thesis unfolding e rows_events_def by simp
  qed
qed

section \<open>A function\<close>

definition prologue_event :: "u32 \<Rightarrow> u32 \<Rightarrow> stack_event" where
  "prologue_event reg offset =
    \<lparr>ev_kind = STACKMAP_EVENT_PROLOGUE, ev_row = 0, ev_value0 = ucast reg, ev_value1 = ucast offset\<rparr>"

definition prologue_events :: "nat list \<Rightarrow> u32 list \<Rightarrow> stack_event list" where
  "prologue_events regs offsets = map2 (\<lambda>b offset. prologue_event (of_nat b) offset) regs offsets"

lemma prologue_loop_steps:
  "bits = 0 \<Longrightarrow> prologue_loop data sz cap bits reg cursor events i = Inr (RootResult STACKMAP_OK i cursor, events)"
  "\<not> bit bits 0 \<Longrightarrow> bits \<noteq> 0 \<Longrightarrow> prologue_loop data sz cap bits reg cursor events i =
    prologue_loop data sz cap (drop_bit 1 bits) (reg + 1) cursor events i"
  "bit bits 0 \<Longrightarrow> readVarInt data sz cursor = Inr (WordResult STACKMAP_OK offset nextBit) \<Longrightarrow>
    prologue_loop data sz cap bits reg cursor events i =
    root_then (emitEvent cap STACKMAP_EVENT_PROLOGUE 0 (ucast reg) (ucast offset) events i) rr_baseRoots
      (\<lambda>r events. prologue_loop data sz cap (drop_bit 1 bits) (reg + 1) nextBit events (rr_nextEvent r))"
  by (subst prologue_loop.simps; use odd_AND_1 [of bits] in \<open>auto simp: ok_then_def\<close>)+

lemma yields_prologue_loop:
  assumes w: "whole data sz" and "drop_bit n bits = 0" and "length offsets = length (set_bits bits n)"
    and "bits_at data (unat cursor) (concat (map varint_bits offsets))"
    and "unat cursor + length (concat (map varint_bits offsets)) \<le> 8 * unat sz"
  shows "yields cap (prologue_loop data sz cap bits reg cursor)
    (map2 (\<lambda>b offset. prologue_event (reg + of_nat b) offset) (set_bits bits n) offsets) STACKMAP_OK
    (cursor + of_nat (length (concat (map varint_bits offsets))))"
  using assms(2-)
proof (induction n arbitrary: bits offsets reg cursor)
  case 0
  then show ?case by (intro yields_ext [OF prologue_loop_steps(1)]) (simp_all add: yields_return)
next
  case (Suc n)
  have d: "drop_bit n (drop_bit 1 bits) = 0" using Suc.prems(1) by (simp add: drop_bit_drop_bit)
  have shift: "map2 (\<lambda>b offset. prologue_event (reg + of_nat b) offset) (map Suc bs) os =
      map2 (\<lambda>b offset. prologue_event (reg + 1 + of_nat b) offset) bs os" for bs os
    by (auto simp: zip_map1 add.assoc)
  show ?case
  proof (cases "bits = 0")
    case True
    with Suc.prems(2) have "offsets = []" by simp
    with True show ?thesis by (intro yields_ext [OF prologue_loop_steps(1)]) (simp_all add: yields_return)
  next
    case nz: False
    show ?thesis
    proof (cases "bit bits 0")
      case True
      with Suc.prems(2) obtain off os where o: "offsets = off # os" "length os = length (set_bits (drop_bit 1 bits) n)"
        by (cases offsets) (auto simp: set_bits_Suc)
      let ?L = "length (varint_bits off)"
      have at: "bits_at data (unat cursor) (varint_bits off)" "bits_at data (unat cursor + ?L) (concat (map varint_bits os))"
        and le: "unat cursor + ?L \<le> 8 * unat sz" using Suc.prems(3,4) by (simp_all add: o(1) bits_at_append)
      note r = readVarInt_encoded [OF w le at(1)] and c = unat_plus_nat [OF w le]
      have IH: "yields cap (prologue_loop data sz cap (drop_bit 1 bits) (reg + 1) (cursor + of_nat ?L))
        (map2 (\<lambda>b offset. prologue_event (reg + 1 + of_nat b) offset) (set_bits (drop_bit 1 bits) n) os) STACKMAP_OK
        (cursor + of_nat ?L + of_nat (length (concat (map varint_bits os))))"
        using Suc.prems(4) at(2) by (intro Suc.IH d o(2)) (simp_all add: c o(1))
      from yields_ext [OF prologue_loop_steps(3) [OF True r] yields_then [OF yields_emit,
          where k = "\<lambda>_. prologue_loop data sz cap (drop_bit 1 bits) (reg + 1) (cursor + of_nat ?L)", OF IH]]
      show ?thesis using True by (simp add: o(1) set_bits_Suc prologue_event_def shift [unfolded prologue_event_def] add.assoc)
    next
      case False
      with Suc.prems(2) have o: "length offsets = length (set_bits (drop_bit 1 bits) n)" by (simp add: set_bits_Suc)
      from yields_ext [OF prologue_loop_steps(2) [OF False nz] Suc.IH [OF d o Suc.prems(3,4)]] False
      show ?thesis by (simp add: set_bits_Suc shift)
    qed
  qed
qed

definition function_head :: "u32 \<Rightarrow> u32 \<Rightarrow> u32 \<Rightarrow> u32 list \<Rightarrow> bool list" where
  "function_head stackSize format prologueMap offsets =
    varint_bits stackSize @ varint_bits format @ varint_bits prologueMap @ concat (map varint_bits offsets)"

definition function_events :: "bool \<Rightarrow> u8 list \<Rightarrow> u32 \<Rightarrow> u32 \<Rightarrow> u32 \<Rightarrow> u32 list \<Rightarrow> layout \<Rightarrow> stack_event list" where
  "function_events x86 data stackSize format prologueMap offsets l =
    \<lparr>ev_kind = STACKMAP_EVENT_HEADER, ev_row = 0, ev_value0 = ucast stackSize, ev_value1 = ucast format\<rparr> #
    prologue_events (set_bits prologueMap 32) offsets @ rows_events x86 data l [0..<unat (stackMapRecords l)]"

lemma yields_decode_function:
  assumes w: "whole data sz" and at: "bits_at data 0 (function_head stackSize PURE_COMPRESSED_STACKMAP prologueMap offsets)"
    and le: "length (function_head stackSize PURE_COMPRESSED_STACKMAP prologueMap offsets) \<le> 8 * unat sz"
    and off: "length offsets = length (set_bits prologueMap 32)"
    and p: "parseLayout data sz (of_nat (length (function_head stackSize PURE_COMPRESSED_STACKMAP prologueMap offsets)))
      (grow = 1) = Inr (STACKMAP_OK, l)"
    and ok: "\<And>j. j < unat (stackMapRecords l) \<Longrightarrow> row_ok x86 data l (row_index data l j)"
  shows "yields cap (decode_function x86 data sz grow cap)
    (function_events x86 data stackSize PURE_COMPRESSED_STACKMAP prologueMap offsets l) STACKMAP_OK 0"
proof -
  let ?f = "PURE_COMPRESSED_STACKMAP"
  let ?c1 = "of_nat (length (varint_bits stackSize)) :: u64"
  let ?c2 = "?c1 + of_nat (length (varint_bits ?f)) :: u64"
  let ?c3 = "?c2 + of_nat (length (varint_bits prologueMap)) :: u64"
  let ?c4 = "?c3 + of_nat (length (concat (map varint_bits offsets))) :: u64"
  have b: "bits_at data 0 (varint_bits stackSize)" "bits_at data (length (varint_bits stackSize)) (varint_bits ?f)"
      "bits_at data (length (varint_bits stackSize) + length (varint_bits ?f)) (varint_bits prologueMap)"
      "bits_at data (length (varint_bits stackSize) + length (varint_bits ?f) + length (varint_bits prologueMap))
        (concat (map varint_bits offsets))"
    using at by (simp_all add: function_head_def bits_at_append add.assoc)
  have n: "length (varint_bits stackSize) + length (varint_bits ?f) + length (varint_bits prologueMap) +
      length (concat (map varint_bits offsets)) \<le> 8 * unat sz"
    using le by (simp add: function_head_def)
  have c1: "unat ?c1 = length (varint_bits stackSize)" using unat_plus_nat [OF w, of 0] n by simp
  have c2: "unat ?c2 = length (varint_bits stackSize) + length (varint_bits ?f)"
    using unat_plus_nat [OF w, of ?c1 "length (varint_bits ?f)"] n unfolding c1 by simp
  have c3: "unat ?c3 = length (varint_bits stackSize) + length (varint_bits ?f) + length (varint_bits prologueMap)"
    using unat_plus_nat [OF w, of ?c2 "length (varint_bits prologueMap)"] n unfolding c2 by simp
  have r1: "readVarInt data sz 0 = Inr (WordResult STACKMAP_OK stackSize ?c1)"
    using readVarInt_encoded [OF w, of 0 stackSize] b(1) n by simp
  have r2: "readVarInt data sz ?c1 = Inr (WordResult STACKMAP_OK ?f ?c2)"
    using readVarInt_encoded [OF w, of ?c1 ?f] b(2) n unfolding c1 by simp
  have r3: "readVarInt data sz ?c2 = Inr (WordResult STACKMAP_OK prologueMap ?c3)"
    using readVarInt_encoded [OF w, of ?c2 prologueMap] b(3) n unfolding c2 by simp
  have "drop_bit 32 prologueMap = 0" by (rule bit_word_eqI) (simp add: bit_drop_bit_eq bit_imp_le_length)
  from yields_prologue_loop [OF w this off, where cursor = ?c3 and reg = 0 and cap = cap] b(4) n
  have pro: "yields cap (prologue_loop data sz cap prologueMap 0 ?c3) (prologue_events (set_bits prologueMap 32) offsets)
      STACKMAP_OK ?c4"
    unfolding c3 prologue_events_def by simp
  have rows: "yields cap (row_loop x86 data sz l ?f cap 0) (rows_events x86 data l [0..<unat (stackMapRecords l)]) STACKMAP_OK 0"
  proof (cases "stackMapRecords l = 0")
    case True
    then have "row_loop x86 data sz l ?f cap 0 events i = Inr (RootResult STACKMAP_OK i 0, events)" for events i
      by (subst row_loop.simps) simp
    from yields_ext [OF this yields_return] True show ?thesis by (simp add: rows_events_def)
  next
    case False
    from yields_row_loop [OF w parseLayout_fits [OF w p False] ok, of 0] show ?thesis by simp
  qed
  have "?c4 = of_nat (length (function_head stackSize ?f prologueMap offsets))" by (simp add: function_head_def add.assoc)
  note lay = p [folded this]
  let ?k2 = "\<lambda>cursor events i. and_then (parseLayout data sz cursor (grow = 1)) (\<lambda>(c, l).
    if c \<noteq> STACKMAP_OK then Inr (RootResult c i 0, events) else row_loop x86 data sz l ?f cap 0 events i)"
  let ?k1 = "\<lambda>events i. root_then (prologue_loop data sz cap prologueMap 0 ?c3 events i) rr_baseRoots
    (\<lambda>r events. ?k2 (rr_baseRoots r) events (rr_nextEvent r))"
  have k2: "yields cap (?k2 ?c4) (rows_events x86 data l [0..<unat (stackMapRecords l)]) STACKMAP_OK 0"
    by (rule yields_ext [OF _ rows]) (simp add: lay)
  note k1 = yields_then [where k = ?k2 and h = rr_baseRoots, OF pro k2]
  have step: "decode_function x86 data sz grow cap events i =
      root_then (emitEvent cap STACKMAP_EVENT_HEADER 0 (ucast stackSize) (ucast ?f) events i) rr_baseRoots
        (\<lambda>r events. ?k1 events (rr_nextEvent r))" for events i
    by (simp only: decode_function_def Let_def ok_then_def r1 r2 r3 and_then_simps result_sel simp_thms if_False)
  from yields_ext [OF step yields_then [where k = "\<lambda>_. ?k1", OF yields_emit k1]] show ?thesis
    by (simp add: function_events_def)
qed

text \<open>
  C3. The decoder on a function's map that was encoded as the format has it, with slots in the pure
  format. When the tables are accepted and the indices of every row are in range, it reports the stack
  size and the format, the registers the prologue saved with their offsets, and for every row its
  program counter and line, the registers and slots whose bits are set, the derived roots of its base
  roots in their order, and the registers and slots of stack objects; nothing else, and in this order.
  With an array of enough room it writes exactly these events, without one it counts them.
\<close>

theorem StackMapDecode_reports_function:
  assumes "whole data sz" and "grow = 0 \<or> grow = 1"
    and "bits_at data 0 (function_head stackSize PURE_COMPRESSED_STACKMAP prologueMap offsets)"
    and "length (function_head stackSize PURE_COMPRESSED_STACKMAP prologueMap offsets) \<le> 8 * unat sz"
    and "length offsets = length (set_bits prologueMap 32)"
    and "parseLayout data sz (of_nat (length (function_head stackSize PURE_COMPRESSED_STACKMAP prologueMap offsets)))
      (grow = 1) = Inr (STACKMAP_OK, l)"
    and "\<forall>j<unat (stackMapRecords l). row_ok x86 data l (row_index data l j)"
  defines "es \<equiv> function_events x86 data stackSize PURE_COMPRESSED_STACKMAP prologueMap offsets l"
  shows "CJRT_StackMapDecode x86 (Some data) sz grow None cap False =
      Inr (STACKMAP_OK, Some (of_nat (length es)), None) \<and>
    (length es \<le> unat cap \<and> unat cap \<le> length A \<and> unat cap \<le> 2 ^ 63 \<longrightarrow>
      CJRT_StackMapDecode x86 (Some data) sz grow (Some A) cap False =
        Inr (STACKMAP_OK, Some (of_nat (length es)), Some (es @ drop (length es) A)))"
proof -
  have y: "yields cap (decode_function x86 data sz grow cap) es STACKMAP_OK 0"
    unfolding es_def by (rule yields_decode_function [OF assms(1,3-6)]) (use assms(7) in blast)
  show ?thesis
    using yields_count [OF y, of 0] yields_fits [OF y, of A 0] assms(2) by (auto simp: CJRT_StackMapDecode_def placed_def)
qed

theorem StackMapDecode_reports_function_witness:
  "CJRT_StackMapDecode True (Some demo_map) 17 0 (Some (replicate 12 (prologue_event 0 0))) 12 False =
    Inr (STACKMAP_OK, Some 11, Some [
      \<lparr>ev_kind = STACKMAP_EVENT_HEADER, ev_row = 0, ev_value0 = 8, ev_value1 = 0\<rparr>,
      \<lparr>ev_kind = STACKMAP_EVENT_PROLOGUE, ev_row = 0, ev_value0 = 0, ev_value1 = 3\<rparr>,
      \<lparr>ev_kind = STACKMAP_EVENT_ROW, ev_row = 5, ev_value0 = 5, ev_value1 = 0\<rparr>,
      \<lparr>ev_kind = STACKMAP_EVENT_REG_ROOT, ev_row = 5, ev_value0 = 0, ev_value1 = 0\<rparr>,
      \<lparr>ev_kind = STACKMAP_EVENT_REG_ROOT, ev_row = 5, ev_value0 = 2, ev_value1 = 0\<rparr>,
      \<lparr>ev_kind = STACKMAP_EVENT_SLOT_ROOT, ev_row = 5, ev_value0 = - 16, ev_value1 = 0\<rparr>,
      \<lparr>ev_kind = STACKMAP_EVENT_SLOT_ROOT, ev_row = 5, ev_value0 = - 24, ev_value1 = 0\<rparr>,
      \<lparr>ev_kind = STACKMAP_EVENT_DERIVED_REG_ROOT, ev_row = 5, ev_value0 = 0, ev_value1 = 0\<rparr>,
      \<lparr>ev_kind = STACKMAP_EVENT_DERIVED_REG_ROOT, ev_row = 5, ev_value0 = 0, ev_value1 = 4\<rparr>,
      \<lparr>ev_kind = STACKMAP_EVENT_DERIVED_SLOT_ROOT, ev_row = 5, ev_value0 = 1, ev_value1 = - 16\<rparr>,
      \<lparr>ev_kind = STACKMAP_EVENT_DERIVED_SLOT_ROOT, ev_row = 5, ev_value0 = 1, ev_value1 = - 24\<rparr>,
      prologue_event 0 0])"
proof -
  have at: "bits_at demo_map 0 (function_head 8 PURE_COMPRESSED_STACKMAP 1 [3])" by code_simp
  have len: "length (function_head 8 PURE_COMPRESSED_STACKMAP 1 [3]) = 16" by code_simp
  have off: "length [3 :: u32] = length (set_bits 1 32)" by code_simp
  have ok: "\<forall>j<unat (stackMapRecords demo_layout). row_ok True demo_map demo_layout (row_index demo_map demo_layout j)"
    by code_simp
  have p: "parseLayout demo_map 17 (of_nat (length (function_head 8 PURE_COMPRESSED_STACKMAP 1 [3]))) ((0 :: u32) = 1) =
    Inr (STACKMAP_OK, demo_layout)" using demo_layout_parsed by (simp add: len)
  have e: "function_events True demo_map 8 PURE_COMPRESSED_STACKMAP 1 [3] demo_layout = [
      \<lparr>ev_kind = STACKMAP_EVENT_HEADER, ev_row = 0, ev_value0 = 8, ev_value1 = 0\<rparr>,
      \<lparr>ev_kind = STACKMAP_EVENT_PROLOGUE, ev_row = 0, ev_value0 = 0, ev_value1 = 3\<rparr>,
      \<lparr>ev_kind = STACKMAP_EVENT_ROW, ev_row = 5, ev_value0 = 5, ev_value1 = 0\<rparr>,
      \<lparr>ev_kind = STACKMAP_EVENT_REG_ROOT, ev_row = 5, ev_value0 = 0, ev_value1 = 0\<rparr>,
      \<lparr>ev_kind = STACKMAP_EVENT_REG_ROOT, ev_row = 5, ev_value0 = 2, ev_value1 = 0\<rparr>,
      \<lparr>ev_kind = STACKMAP_EVENT_SLOT_ROOT, ev_row = 5, ev_value0 = - 16, ev_value1 = 0\<rparr>,
      \<lparr>ev_kind = STACKMAP_EVENT_SLOT_ROOT, ev_row = 5, ev_value0 = - 24, ev_value1 = 0\<rparr>,
      \<lparr>ev_kind = STACKMAP_EVENT_DERIVED_REG_ROOT, ev_row = 5, ev_value0 = 0, ev_value1 = 0\<rparr>,
      \<lparr>ev_kind = STACKMAP_EVENT_DERIVED_REG_ROOT, ev_row = 5, ev_value0 = 0, ev_value1 = 4\<rparr>,
      \<lparr>ev_kind = STACKMAP_EVENT_DERIVED_SLOT_ROOT, ev_row = 5, ev_value0 = 1, ev_value1 = - 16\<rparr>,
      \<lparr>ev_kind = STACKMAP_EVENT_DERIVED_SLOT_ROOT, ev_row = 5, ev_value0 = 1, ev_value1 = - 24\<rparr>]" by code_simp
  have "length (function_head 8 PURE_COMPRESSED_STACKMAP 1 [3]) \<le> 8 * unat (17 :: u64)" by (simp add: len)
  from StackMapDecode_reports_function [OF demo_map_whole disjI1 [OF refl] at this off p ok,
      of 12 "replicate 12 (prologue_event 0 0)"] show ?thesis
    unfolding e by simp
qed

end
