(* ===== verification/Spec2Isabelle.thy ===== *)
theory Spec2Isabelle
  imports Atomics SignalStart WinUnwind Instances Sections AllocBuffers NativeSync Loaders Locks
    Barriers LocalDeque NodeAllocator RegionBitmap PagePool StateWord
    MarkStacks HeapRegions StackMapRows
begin

text \<open>
  A verification library for the native layer of the Cangjie runtime.

  The repository ports the runtime to Cangjie (\<^verbatim>\<open>src/src/rt.*\<close>) on a C++ layer that
  stays native: \<^verbatim>\<open>src/rt0\<close> (atomics, signals, the operating-system services of Linux, Darwin and
  Windows, the leaves of the allocator), the instance interface \<^verbatim>\<open>src/src.native/rt.instance\<close>
  and the C contracts of \<^verbatim>\<open>src/contract\<close>. This library models that layer and, of the Cangjie
  packages, the two locks of \<^verbatim>\<open>src/src/rt.base\<close>, the first clients of its atomics, and the
  allocation of regions in \<^verbatim>\<open>src/src/rt.heap.allocator\<close>: the tree of free units with its deque and
  its allocator of nodes, and the manager of free regions over two such trees; the pool of pages of
  \<^verbatim>\<open>src/src/rt.common\<close>, the other client of the tree, and the state word of an object;
  the table of regions and the lists threaded through it; the mark bitmap of a region and the
  mark stacks of \<^verbatim>\<open>src/src/rt.gc\<close>; and the decoder of stack maps, \<^verbatim>\<open>src/src/rt.stackmap\<close>. Cangjie code is
  compiled with \<^verbatim>\<open>--int-overflow wrapping\<close>, so its arithmetic wraps in the model too.

  \<^bold>\<open>How the code is represented.\<close> A C++ integer of w bits is a \<open>w word\<close>; pointers,
  \<open>uintptr_t\<close> and \<open>size_t\<close> are 64-bit words with null as 0. Structs are records, enumerations are
  datatypes. A function that can stop the process returns \<open>stop + 'a\<close> (\<open>Prelude.res\<close>): a trap, an
  abort, a fatal log line or failed \<open>CHECK\<close>, an exit code, or \<open>OutOfBounds\<close> where C++ would read
  past a table or through a null pointer, which is undefined there. A loop that might not end is a
  \<open>partial_function\<close> with \<open>None\<close> for not returning; no fuel is used. State is passed
  explicitly; what several threads do is a step relation in which one step is one access to
  shared memory. Code outside the repository (libc, pthreads, the Windows loader, headers of the
  official runtime) is an argument, and what a property needs of it is a named hypothesis.
  Allocation with \<open>new\<close> is taken to succeed, logging and tracing are left out.

  \<^bold>\<open>The theories.\<close>

  \<^item> \<open>Prelude\<close>: the types, the ways to stop, and a little-endian byte memory with the laws of its
    loads and stores (\<open>mem_simps\<close>), shared by the atomics, the unwinder and the allocator leaves.
    Also the runs of a labelled step relation (\<open>runs\<close>) and the locale \<open>step_invariant\<close>, the
    contract between a relation and an invariant of it; the step relations of \<open>Locks\<close> and
    \<open>Instances\<close> interpret it, the latter with three invariants, two of which need that no
    wakeup is spurious.

  \<^item> \<open>Atomics\<close>: every function of \<^verbatim>\<open>rt0/Atomic.cpp\<close>, over the byte memory. The locales
    \<open>atomic_cell\<close> (a cell with compare-and-swap) and \<open>atomic_fetch\<close> (a cell with
    read-modify-write) are the interfaces the clients use; they are interpreted on the 32-bit
    functions, the state-word swap and the four widths of the field functions. Shown: fetches
    of one kind commute, return the value before them and touch only their bytes, the field swap writes back on failure, a
    bad size traps.

  \<^item> \<open>SignalStack\<close>: \<^verbatim>\<open>rt0/signal/SignalStack.{h,cpp}\<close>. State: the table of per-signal stacks,
    the thread's flag, \<open>errno\<close>, the kernel. Operations: registration, the dispatcher
    \<open>Handler\<close>/\<open>HandlerImpl\<close>, the interposed \<open>sigaction\<close>, \<open>signal\<close>, \<open>sigprocmask\<close>. Shown: the
    order of the chain for handlers that depend on the state, arguments freed once, the flag restored,
    marked signals virtual, installed and, outside a handler, not blockable over any sequence of
    the interposed calls, and the one dispatch that uninstalls them. Two limits of
    the model: the chain is walked as it was when the dispatch began, so a handler that edits
    its own chain (undefined in C++) is outside it, and a queued task carries the
    interrupted mask by value, whereas the code keeps a pointer into the signal frame.

  \<^item> \<open>SignalStart\<close>: around the chain: the thread-specific key of the flag, the search for the real
    libc functions, and the registers of \<^verbatim>\<open>rt0/signal/SignalUtils.cpp\<close>. Shown: one flag per
    thread, the linked functions found once or the process stopped, and that reading the flag
    before its key exists does no harm.

  \<^item> \<open>WinModules\<close>: \<^verbatim>\<open>rt0/os/Windows/WinModuleManager.{h,cpp}\<close>. Shown: the binary search on
    \<open>uint32_t\<close> indices is right and returns at and above the first function, and leaves the
    table below it; rereading modules extends the table, and duplicates modules found at
    start-up.

  \<^item> \<open>WinUnwind\<close>: \<^verbatim>\<open>rt0/os/Windows/UnwindWin.{h,cpp}\<close>, on \<open>WinModules\<close>. The unwind codes are
    specified by an encoder of prologues, and \<open>GetStackOffset\<close> is proved to decode it. Shown of
    the frames: where a caller's frame is, the protocol of the static flag, and that
    unwinding returns.

  \<^item> \<open>Instances\<close>: \<^verbatim>\<open>rt.instance/instance_bridge.cpp\<close>. The creating thread and the thread it starts
    are a step relation with spurious wakeups; shown by rule induction over all
    interleavings: the returned handle is the registered scheduler. Also shown: a lost
    wakeup, a use of the context after its frame is gone, and the order in which neither
    happens.

  \<^item> \<open>Sections\<close>: \<^verbatim>\<open>rt0/os/{Windows,Macos}/Section.cpp\<close>. Shown: the name tests are longest
    match, the variables get the sections' ranges, the metadata span is exact when all
    sections exist, and is no span otherwise.

  \<^item> \<open>AllocBuffers\<close>: \<^verbatim>\<open>rt0/{AllocBufferNative,ScopedSaferegion,GCTibShift}.cpp\<close> and the safepoint
    pages. Shown: one winner for the prepared region, conservation of roots, the balanced safe
    region, shifts as divisions.

  \<^item> \<open>NativeSync\<close>: semaphores, spin locks, futex, panic and the three page-pool mutexes. Shown:
    the interrupted wait, and that the three mutexes are interchangeable.

  \<^item> \<open>Loaders\<close>: loaders and paths of Linux and Windows. Shown: the Windows symbol lookup finds
    the nearest export.

  \<^item> \<open>Locks\<close>: \<^verbatim>\<open>rt.base/RwLock.cj\<close> and \<^verbatim>\<open>rt.base/AtomicSpinLock.cj\<close> over \<open>Atomics\<close>. Shown: mutual
    exclusion in every interleaving and that well-behaved threads never abort. The number
    of threads is bounded by \<open>2 ^ 31 - 1\<close>, where the 32-bit count would overflow.

  \<^item> \<open>Barriers\<close>: \<^verbatim>\<open>rt0/BarrierProtocol.cpp\<close> over a collector that is a parameter. Shown: what a
    forwarding call leaves in the caller's slot.

  \<^item> \<open>CartesianTree\<close>: \<^verbatim>\<open>rt.heap.allocator/CartesianTree.cj\<close>. State: the tree of nodes, its total, the
    calls made into the region table. A slot is the path to a node, the stack of slots of an
    insertion a list of contexts. \<open>FreeUnits\<close> holds the abstraction: a tree stands for the runs
    \<open>spans\<close> and the set \<open>free_units\<close>; \<open>tree_inv\<close> says that the runs are sorted and apart, that
    counts decrease downwards and that the total is right. Shown: rotations and lowering keep the
    runs and restore the heap. \<open>MergeUnits\<close>: insertion refines the union of sets and keeps the
    region table exact. \<open>TakeUnitsSpec\<close>: best fit at the lowest address, first fit, release of the
    root; and the locale \<open>unit_store\<close>, what a client may rely on, interpreted on both ways to take.

  \<^item> \<open>TreeMemory\<close>: the sizes the tree maps for nodes and deque (with \<^verbatim>\<open>rt.base/AllocUtil.cj\<close>), its
    traversals. Shown: the mappings are enough for every tree over that many units.

  \<^item> \<open>LocalDeque\<close>, \<open>NodeAllocator\<close>: \<^verbatim>\<open>rt.heap.allocator/LocalDeque.cj\<close> over the byte memory. Shown: the
    local deque with its spill is a list (locale \<open>work_list\<close>); a slot handed out is fresh and in
    the mapping, whatever the client writes to its own slots.

  \<^item> \<open>FreeRegions\<close>, \<open>RegionThreads\<close>: \<^verbatim>\<open>rt.heap.allocator/FreeRegionManager.cj\<close>, for one thread and for any
    number of them. A region is named by its first unit; the calls that prepare its memory and
    its record are listed. Shown: what a region request returns, that releasing garbage ends and
    reports what it moved, that no unit is lost or handed out twice in any interleaving, that a
    merge is never fatal, and that there is no deadlock. A critical section is one step, taken by
    the owner of the mutex; \<open>try_lock\<close> may fail at any time.

  \<^item> \<open>PagePool\<close>: \<^verbatim>\<open>rt.common/PagePool.cj\<close> over the tree by first fit and the mutexes of \<open>NativeSync\<close>.
    State: the mapping, how much of it has been used, the pages that came back, the calls made. Shown: for
    any number of threads that return what they hold, blocks share no byte and returning never
    aborts; returned pages are used again; what a request that wraps around gets. Pages are parted
    between the tree and the threads by \<open>Prelude.parted\<close>, as the units of \<open>RegionThreads\<close> are.

  \<^item> \<open>RegionBitmap\<close>: \<^verbatim>\<open>rt.gc/RegionBitmap.cj\<close>. State: the words, the counters of the parts, the live
    bytes. A bitmap stands for the set \<open>marks\<close> of its marked bits; \<open>bitmap_ok\<close> says that the counters
    count them. Shown: marking adds exactly the bits of an object, the count before an offset is
    the size of the set below it, recounting gives the live bytes; and where the count leaves the
    bitmap.

  \<^item> \<open>StateWord\<close>: \<^verbatim>\<open>rt.common/StateWord.cj\<close> over the byte memory and the state-word swap of \<open>Atomics\<close>.
    Shown: the lock in the state code excludes, in every interleaving and with swaps of x86_64 that
    fail for no reason; when unlocking returns; and that state and type information are apart.

  \<^item> \<open>LinkedLists\<close>: doubly linked lists in a store, as the locale \<open>link_store\<close>: a client gives the two
    links and the operations that set them, and gets the lists \<open>linked\<close>, what an insertion at the front,
    a removal, a cut and a join leave of them, and that other lists stay. Interpreted on the buffers
    of \<open>MarkStacks\<close> and on the region table in \<open>RegionLists\<close>.

  \<^item> \<open>MarkStacks\<close>: \<^verbatim>\<open>rt.gc/MarkWorkStack.cj\<close>, stacks of objects in linked buffers of 64. State: the store
    of buffers and the stacks of several owners; \<open>operator new\<close> is a parameter that returns fresh
    addresses while the store is small. \<open>stack_rep\<close> says which lists of objects a stack stands for.
    Shown: the operations refine those on lists; clearing a stack that is not
    empty reads through the null pointer.

  \<^item> \<open>RegionTable\<close>: \<^verbatim>\<open>rt.heap.allocator/RegionInfo.cj\<close>. State: the records of units by address. Shown: bit
    fields are apart, index and address give each other, a region that has been made is found from
    every address in it and nothing else has changed, bump allocation and where it wraps.

  \<^item> \<open>RegionLists\<close>: \<^verbatim>\<open>rt.heap.allocator/RegionList.cj\<close> over \<open>RegionTable\<close>. The records are linked by indices
    of 32 bits; \<open>list_rep\<close> says which regions a list holds, \<open>lists_rep\<close> the same of all lists and of the
    types. Shown: any permitted calls on any number of lists refine those on lists of regions, with
    exact counts, and never abort; all lists together count at most the units of the heap; a
    region made of other units joins the regions that do not overlap. A call is one step, as it is
    made under the mutex of its list (\<open>MergeRegionList\<close> and \<open>MoveTo\<close> hold the one of each list in turn).

  \<^item> \<open>HeapRegions\<close>: the manager of free regions and the region table composed: \<open>TakeRegion\<close>, giving regions
    back and releasing garbage, with every call that the trees and the manager make into the table carried
    out on it after the section that makes it (\<open>carry_out\<close>): \<open>InitFreeRegion\<close>, \<open>ReleaseUnits\<close>, \<open>ClearUnits\<close>,
    \<open>InitRegion\<close>, the commit. \<open>MergeUnits.told\<close> says what an operation of a tree may tell the table: of
    free regions among its free units only, and of every run it changes. Shown: any sequence of these calls runs
    to its end, keeps the regions in use apart from each other and from the trees, loses no unit, and keeps a
    record of the right length for every run of free units; a region that was taken has exactly the units
    asked for, and its record says so. \<open>decommit\<close> is the answer of \<open>VirtualFree\<close> on Windows.

  \<^item> \<open>StackMaps\<close>: \<^verbatim>\<open>rt.stackmap/stackmap.cj\<close>. State: the bytes of a function's map and the caller's array of
    events, if there is one. Shown there: on any bytes the decoder stays within the data and the array, returns,
    and counts what it would write (\<open>yields\<close> says of a part of the decoder which events it has, wherever they go).
    \<open>StackMapEvents\<close>: numbers are read as they were encoded, registers and slots are those of the bits set, the
    compressed format of slots is decoded to the slots that were encoded, and an accepted layout lies within the
    data. \<open>StackMapRows\<close>: derived roots, rows and whole functions: which events a function's map gives.

  \<^bold>\<open>Bounds.\<close> A table of runtime functions has fewer than \<open>2 ^ 31\<close> entries, so that the sum of
  two indices does not wrap; 12-byte entries make that 24 GiB, more than an image can hold. The
  signal sets range over signals 1 to 64. An image on Windows ends below 4 GiB from its base, as
  its 32-bit offsets require.

  Regions with a bitmap have at most 16368 words of it (just below 8 MiB), so that a part's counter of
  16 bits does not overflow. Pages are powers of two of at most 1 MiB.

  Units are numbered below \<open>2 ^ 32 - 1\<close>, so that the end of a run is a \<open>UInt32\<close>.

  \<^bold>\<open>Not modelled.\<close> The debug text of a signal, the assembly stubs, and the other Cangjie packages.
  Stack maps are decoded for 64-bit targets, with both numberings of registers; a whole function is
  specified with slots in the pure format only, the compressed one for a row of slots.
  Of the region table the fields of the collector's second generation (routes and ghost regions)
  are left out, of the region lists the walk over ghost regions and the names. Calls that clear, release or
  commit the memory of units are carried out up to the memory itself: their index checks and the addresses they
  work on are modelled, the bytes of the heap are not. Next to add are slot
  lists and bitmaps marked by several threads.
\<close>

end
